(* ===== verification/Prelude.thy ===== *)
theory Prelude
  imports Main "HOL-Library.Sublist"
begin

text \<open>
  Shared vocabulary of the development: what the Go code uses of its language and standard
  library.  A Go \<^verbatim>\<open>string\<close> is a sequence of bytes, here a \<open>string\<close> (a list of 8-bit
  \<open>char\<close>s).  Package \<^verbatim>\<open>strings\<close>: \<open>trim_space\<close> (with all of Unicode's white space, which Go trims),
  \<open>trim_prefix\<close>, \<open>trim_suffix\<close>, \<open>split_on\<close>, \<open>split_n2\<close>, \<open>fields\<close>, \<open>join_with\<close>, \<open>to_lower\<close>.
  Package \<^verbatim>\<open>strconv\<close>: \<open>parse_int64\<close> (\<^verbatim>\<open>Atoi\<close> and \<^verbatim>\<open>ParseInt(s, 10, 64)\<close>).
  UTF-8 decoding as \<^verbatim>\<open>range\<close> over a string does it: \<open>runes\<close>.
  64-bit signed integers are \<open>int\<close>s; \<open>wrap64\<close> is the wrap-around where the code can overflow,
  \<open>go_div\<close> and \<open>go_rem\<close> the division of Go, which truncates towards zero.
\<close>

named_theorems go_simps \<open>characteristic equations of the modelled operations\<close>
named_theorems inv_intros \<open>preservation of the components' invariants\<close>

type_synonym go_string = string

section \<open>Integers\<close>

abbreviation int64_min :: int where "int64_min \<equiv> - (2 ^ 63)"
abbreviation int64_max :: int where "int64_max \<equiv> 2 ^ 63 - 1"

definition in_int64 :: "int \<Rightarrow> bool" where
  "in_int64 x \<longleftrightarrow> int64_min \<le> x \<and> x \<le> int64_max"

definition wrap64 :: "int \<Rightarrow> int" where
  "wrap64 x = (x + 2 ^ 63) mod 2 ^ 64 - 2 ^ 63"

definition go_div :: "int \<Rightarrow> int \<Rightarrow> int" where
  "go_div a b = sgn a * sgn b * (\<bar>a\<bar> div \<bar>b\<bar>)"

definition go_rem :: "int \<Rightarrow> int \<Rightarrow> int" where
  "go_rem a b = a - b * go_div a b"

lemma wrap64_id: "in_int64 x \<Longrightarrow> wrap64 x = x"
  by (simp add: wrap64_def in_int64_def)

lemma wrap64_in: "in_int64 (wrap64 x)"
proof -
  have "0 \<le> (x + 2 ^ 63) mod 2 ^ 64" and "(x + 2 ^ 63) mod 2 ^ 64 < (2 ^ 64 :: int)"
    by simp_all
  then show ?thesis by (simp add: wrap64_def in_int64_def)
qed

lemma go_div_nonneg: "0 \<le> a \<Longrightarrow> 0 < b \<Longrightarrow> go_div a b = a div b"
  by (cases "a = 0") (simp_all add: go_div_def sgn_if)

lemma go_rem_nonneg: "0 \<le> a \<Longrightarrow> 0 < b \<Longrightarrow> go_rem a b = a mod b"
  by (simp add: go_rem_def go_div_nonneg minus_mult_div_eq_mod)

lemma go_rem_bounds:
  assumes "0 < b"
  shows "- b < go_rem a b" and "go_rem a b < b"
proof -
  have pos: "go_rem x b = x mod b" if "0 \<le> x" for x
    using that assms by (rule go_rem_nonneg)
  have neg: "go_rem a b = - go_rem (- a) b"
    by (simp add: go_rem_def go_div_def)
  show "- b < go_rem a b"
    using assms pos[of a] pos[of "- a"] neg
      pos_mod_sign[of b a] pos_mod_bound[of b "- a"] by linarith
  show "go_rem a b < b"
    using assms pos[of a] pos[of "- a"] neg
      pos_mod_bound[of b a] pos_mod_sign[of b "- a"] by linarith
qed

lemma go_rem_dvd: "0 < b \<Longrightarrow> go_rem a b = 0 \<longleftrightarrow> b dvd a"
proof -
  assume b: "0 < b"
  have pos: "go_rem x b = 0 \<longleftrightarrow> b dvd x" if "0 \<le> x" for x
    using that b by (simp add: go_rem_nonneg dvd_eq_mod_eq_0)
  have neg: "go_rem a b = - go_rem (- a) b"
    by (simp add: go_rem_def go_div_def)
  show ?thesis
    using pos[of a] pos[of "- a"] neg by (cases "0 \<le> a") auto
qed

section \<open>Runes\<close>

abbreviation byte :: "char \<Rightarrow> nat" where "byte c \<equiv> of_char c"

definition cont_at :: "go_string \<Rightarrow> nat \<Rightarrow> nat \<Rightarrow> nat \<Rightarrow> bool" where
  "cont_at s i lo hi \<longleftrightarrow> i < length s \<and> lo \<le> byte (s ! i) \<and> byte (s ! i) \<le> hi"

text \<open>
  The number of bytes of the first rune; an invalid sequence is one rune of one byte
  (\<^verbatim>\<open>utf8.DecodeRuneInString\<close>).
\<close>

definition rune_len :: "go_string \<Rightarrow> nat" where
  "rune_len s =
     (if s = [] then 0
      else let x = byte (s ! 0);
               c2 = (\<lambda>lo hi. cont_at s 1 lo hi);
               c3 = (\<lambda>lo hi. cont_at s 1 lo hi \<and> cont_at s 2 128 191);
               c4 = (\<lambda>lo hi. cont_at s 1 lo hi \<and> cont_at s 2 128 191 \<and> cont_at s 3 128 191)
      in if 194 \<le> x \<and> x \<le> 223 \<and> c2 128 191 then 2
         else if x = 224 \<and> c3 160 191 then 3
         else if (225 \<le> x \<and> x \<le> 236 \<or> x = 238 \<or> x = 239) \<and> c3 128 191 then 3
         else if x = 237 \<and> c3 128 159 then 3
         else if x = 240 \<and> c4 144 191 then 4
         else if 241 \<le> x \<and> x \<le> 243 \<and> c4 128 191 then 4
         else if x = 244 \<and> c4 128 143 then 4
         else 1)"

lemma rune_len_pos: "s \<noteq> [] \<Longrightarrow> 0 < rune_len s"
  by (simp add: rune_len_def Let_def)

lemma rune_len_le4: "rune_len s \<le> 4"
  by (simp add: rune_len_def Let_def)

lemma rune_tail_bytes:
  "2 \<le> rune_len s \<Longrightarrow> 128 \<le> byte (s ! 1)" "3 \<le> rune_len s \<Longrightarrow> 128 \<le> byte (s ! 2)"
  "4 \<le> rune_len s \<Longrightarrow> 128 \<le> byte (s ! 3)"
  by (auto simp: rune_len_def Let_def cont_at_def split: if_splits)

lemma rune_tail_byte: "0 < i \<Longrightarrow> i < rune_len s \<Longrightarrow> 128 \<le> byte (s ! i)"
proof -
  assume i: "0 < i" "i < rune_len s"
  then have "i = 1 \<or> i = 2 \<or> i = 3" using rune_len_le4[of s] by linarith
  then show ?thesis using i rune_tail_bytes[of s] by auto
qed

function runes :: "go_string \<Rightarrow> go_string list" where
  "runes s = (if s = [] then [] else take (rune_len s) s # runes (drop (rune_len s) s))"
  by pat_completeness auto
termination
proof (relation "measure length")
  fix s :: go_string
  assume "s \<noteq> []"
  then show "(drop (rune_len s) s, s) \<in> measure length"
    using rune_len_pos[of s] by simp
qed simp

declare runes.simps [simp del]

lemma runes_Nil [simp]: "runes [] = []"
  by (simp add: runes.simps)

lemma rune_len_ascii: "of_char a < (128::nat) \<Longrightarrow> rune_len (a # t) = 1"
  by (simp add: rune_len_def Let_def)

lemma runes_ascii [simp]: "of_char a < (128::nat) \<Longrightarrow> runes (a # t) = [a] # runes t"
  by (simp add: runes.simps[of "a # t"] rune_len_ascii)

lemma runes_ascii_list: "\<forall>c\<in>set s. of_char c < (128::nat) \<Longrightarrow> runes s = map (\<lambda>c. [c]) s"
  by (induction s) simp_all

text \<open>An ASCII byte of a string is a rune of its own.\<close>

lemma rune_with_ascii:
  assumes "c \<in> set (take (rune_len s) s)" and "byte c < 128"
  shows "take (rune_len s) s = [c]"
proof -
  from assms(1) obtain i where i: "i < rune_len s" "i < length s" "s ! i = c"
    by (auto simp: in_set_conv_nth)
  have "i = 0"
    using rune_tail_byte[of i s] i assms(2) by (cases "i = 0") auto
  then obtain t where s: "s = c # t" using i by (cases s) auto
  then show ?thesis using rune_len_ascii[OF assms(2)] by simp
qed

lemma ascii_in_runes: "c \<in> set s \<Longrightarrow> byte c < 128 \<Longrightarrow> [c] \<in> set (runes s)"
proof (induction s rule: runes.induct)
  case (1 s)
  then have ne: "s \<noteq> []" by auto
  show ?case
  proof (cases "c \<in> set (take (rune_len s) s)")
    case True
    then show ?thesis using rune_with_ascii "1.prems"(2) ne by (simp add: runes.simps[of s])
  next
    case False
    then have "c \<in> set (drop (rune_len s) s)"
      using "1.prems"(1) by (metis Un_iff append_take_drop_id set_append)
    then show ?thesis using "1.IH"[OF ne] "1.prems"(2) ne by (simp add: runes.simps[of s])
  qed
qed

lemma concat_runes: "concat (runes s) = s"
proof (induction s rule: runes.induct)
  case (1 s)
  then show ?case by (cases "s = []") (simp_all add: runes.simps[of s])
qed

section \<open>White space\<close>

text \<open>The bytes of the white-space rune at the head of a string, 0 if there is none
  (\<^verbatim>\<open>unicode.IsSpace\<close>).\<close>

definition byte_at :: "go_string \<Rightarrow> nat \<Rightarrow> nat" where
  "byte_at s i = (if i < length s then byte (s ! i) else 0)"

definition ascii_space :: "nat \<Rightarrow> bool" where
  "ascii_space x \<longleftrightarrow> x = 9 \<or> x = 10 \<or> x = 11 \<or> x = 12 \<or> x = 13 \<or> x = 32"

definition space2 :: "nat \<Rightarrow> nat \<Rightarrow> bool" where
  "space2 x y \<longleftrightarrow> x = 194 \<and> (y = 133 \<or> y = 160)"

definition space3 :: "nat \<Rightarrow> nat \<Rightarrow> nat \<Rightarrow> bool" where
  "space3 x y z \<longleftrightarrow>
     x = 225 \<and> y = 154 \<and> z = 128
     \<or> x = 226 \<and> y = 128 \<and> (128 \<le> z \<and> z \<le> 138 \<or> z = 168 \<or> z = 169 \<or> z = 175)
     \<or> x = 226 \<and> y = 129 \<and> z = 159
     \<or> x = 227 \<and> y = 128 \<and> z = 128"

definition space_len3 :: "nat \<Rightarrow> nat \<Rightarrow> nat \<Rightarrow> nat" where
  "space_len3 x y z =
     (if ascii_space x then 1 else if space2 x y then 2 else if space3 x y z then 3 else 0)"

lemma no_space_0 [simp]: "\<not> ascii_space 0" "\<not> space2 x 0" "\<not> space3 x 0 z" "\<not> space3 x y 0"
  by (simp_all add: ascii_space_def space2_def space3_def)

lemma no_space2_0 [simp]: "\<not> space2 0 y" "\<not> space3 0 y z"
  by (simp_all add: space2_def space3_def)

definition space_len :: "go_string \<Rightarrow> nat" where
  "space_len s = space_len3 (byte_at s 0) (byte_at s 1) (byte_at s 2)"

lemma space_len_Nil [simp]: "space_len [] = 0"
  by (simp add: space_len_def byte_at_def space_len3_def)

lemma space_len_Cons: "space_len (a # t) = space_len3 (byte a) (byte_at t 0) (byte_at t 1)"
  by (simp add: space_len_def byte_at_def)

lemma space_len3_mono:
  assumes "space_len3 x y' z' \<noteq> 0" and "y' = y \<or> y' = 0" and "z' = z \<or> z' = 0"
  shows "space_len3 x y z = space_len3 x y' z'"
  using assms by (elim disjE) (simp_all add: space_len3_def split: if_split_asm)

text \<open>The same at the end of a string, given reversed.\<close>

definition space_len_rev :: "go_string \<Rightarrow> nat" where
  "space_len_rev r =
     (if space_len (take 1 r) = 1 then 1
      else if space_len (rev (take 2 r)) = 2 then 2
      else if space_len (rev (take 3 r)) = 3 then 3 else 0)"

function trim_left_space :: "go_string \<Rightarrow> go_string" where
  "trim_left_space s =
     (if space_len s = 0 then s else trim_left_space (drop (space_len s) s))"
  by pat_completeness auto
termination
proof (relation "measure length")
  fix s :: go_string
  assume "space_len s \<noteq> 0"
  moreover from this have "s \<noteq> []" by auto
  ultimately show "(drop (space_len s) s, s) \<in> measure length" by simp
qed simp

function trim_right_rev :: "go_string \<Rightarrow> go_string" where
  "trim_right_rev r =
     (if space_len_rev r = 0 then r else trim_right_rev (drop (space_len_rev r) r))"
  by pat_completeness auto
termination
proof (relation "measure length")
  fix r :: go_string
  assume "space_len_rev r \<noteq> 0"
  moreover from this have "r \<noteq> []" by (auto simp: space_len_rev_def)
  ultimately show "(drop (space_len_rev r) r, r) \<in> measure length" by simp
qed simp

declare trim_left_space.simps [simp del] trim_right_rev.simps [simp del]

definition trim_space :: "go_string \<Rightarrow> go_string" where
  "trim_space s = rev (trim_right_rev (rev (trim_left_space s)))"

lemma trim_left_space_id: "space_len s = 0 \<Longrightarrow> trim_left_space s = s"
  by (simp add: trim_left_space.simps)

lemma trim_right_rev_id: "space_len_rev r = 0 \<Longrightarrow> trim_right_rev r = r"
  by (simp add: trim_right_rev.simps)

lemma trim_right_rev_fix: "space_len_rev (trim_right_rev r) = 0"
proof (induction r rule: trim_right_rev.induct)
  case (1 r)
  then show ?case
    by (cases "space_len_rev r = 0") (simp_all add: trim_right_rev.simps[of r])
qed

lemma trim_left_space_fix: "space_len (trim_left_space s) = 0"
proof (induction s rule: trim_left_space.induct)
  case (1 s)
  then show ?case
    by (cases "space_len s = 0") (simp_all add: trim_left_space.simps[of s])
qed

lemma trim_space_Nil [simp]: "trim_space [] = []"
  by (simp add: trim_space_def trim_left_space_id trim_right_rev_id space_len_rev_def)

lemma space_len_take:
  assumes "space_len (take n s) \<noteq> 0"
  shows "space_len s = space_len (take n s)"
proof -
  have "n \<noteq> 0" using assms by (cases n) simp_all
  then have "byte_at (take n s) 0 = byte_at s 0" by (simp add: byte_at_def)
  moreover have "byte_at (take n s) i = byte_at s i \<or> byte_at (take n s) i = 0" for i
    by (simp add: byte_at_def)
  ultimately show ?thesis
    using assms unfolding space_len_def by (metis space_len3_mono)
qed

lemma trim_right_rev_suffix: "\<exists>u. r = u @ trim_right_rev r"
proof (induction r rule: trim_right_rev.induct)
  case (1 r)
  show ?case
  proof (cases "space_len_rev r = 0")
    case True
    then show ?thesis by (simp add: trim_right_rev.simps[of r])
  next
    case False
    with "1.IH" obtain u where
      "drop (space_len_rev r) r = u @ trim_right_rev (drop (space_len_rev r) r)"
      by blast
    with False have "r = (take (space_len_rev r) r @ u) @ trim_right_rev r"
      by (metis append.assoc append_take_drop_id trim_right_rev.simps)
    then show ?thesis by blast
  qed
qed

lemma trim_space_head: "space_len (trim_space s) = 0"
proof -
  obtain u where "rev (trim_left_space s) = u @ trim_right_rev (rev (trim_left_space s))"
    using trim_right_rev_suffix by blast
  then have "trim_left_space s = trim_space s @ rev u"
    by (metis rev_append rev_rev_ident trim_space_def)
  then have "trim_space s = take (length (trim_space s)) (trim_left_space s)"
    by simp
  then show ?thesis
    by (metis space_len_take trim_left_space_fix)
qed

lemma trim_space_idem [simp]: "trim_space (trim_space s) = trim_space s"
proof -
  have "trim_left_space (trim_space s) = trim_space s"
    by (simp add: trim_left_space_id trim_space_head)
  then show ?thesis
    by (simp add: trim_space_def trim_right_rev_id trim_right_rev_fix)
qed

section \<open>Package strings\<close>

abbreviation has_prefix :: "go_string \<Rightarrow> go_string \<Rightarrow> bool" where
  "has_prefix s p \<equiv> prefix p s"

abbreviation has_suffix :: "go_string \<Rightarrow> go_string \<Rightarrow> bool" where
  "has_suffix s p \<equiv> suffix p s"

definition trim_prefix :: "go_string \<Rightarrow> go_string \<Rightarrow> go_string" where
  "trim_prefix s p = (if prefix p s then drop (length p) s else s)"

definition trim_suffix :: "go_string \<Rightarrow> go_string \<Rightarrow> go_string" where
  "trim_suffix s p = (if suffix p s then take (length s - length p) s else s)"

text \<open>\<^verbatim>\<open>TrimLeft(s, cutset)\<close> and \<^verbatim>\<open>TrimRight\<close> for a cutset given as a predicate on ASCII bytes.\<close>

definition trim_left_of :: "(char \<Rightarrow> bool) \<Rightarrow> go_string \<Rightarrow> go_string" where
  "trim_left_of P s = dropWhile P s"

definition trim_right_of :: "(char \<Rightarrow> bool) \<Rightarrow> go_string \<Rightarrow> go_string" where
  "trim_right_of P s = rev (dropWhile P (rev s))"

fun split_on :: "char \<Rightarrow> go_string \<Rightarrow> go_string list" where
  "split_on c [] = [[]]"
| "split_on c (x # xs) =
     (if x = c then [] # split_on c xs
      else (case split_on c xs of [] \<Rightarrow> [[x]] | y # ys \<Rightarrow> (x # y) # ys))"

text \<open>\<^verbatim>\<open>SplitN(s, sep, 2)\<close>: at the first separator only.\<close>

definition split_n2 :: "char \<Rightarrow> go_string \<Rightarrow> go_string list" where
  "split_n2 c s =
     (if c \<in> set s
      then [takeWhile (\<lambda>x. x \<noteq> c) s, tl (dropWhile (\<lambda>x. x \<noteq> c) s)] else [s])"

text \<open>\<^verbatim>\<open>FieldsFunc\<close> for a predicate on ASCII bytes: the non-empty pieces.\<close>

fun split_by :: "(char \<Rightarrow> bool) \<Rightarrow> go_string \<Rightarrow> go_string list" where
  "split_by P [] = [[]]"
| "split_by P (x # xs) =
     (if P x then [] # split_by P xs
      else (case split_by P xs of [] \<Rightarrow> [[x]] | y # ys \<Rightarrow> (x # y) # ys))"

definition fields_func :: "(char \<Rightarrow> bool) \<Rightarrow> go_string \<Rightarrow> go_string list" where
  "fields_func P s = filter (\<lambda>f. f \<noteq> []) (split_by P s)"

text \<open>\<^verbatim>\<open>Fields\<close>: the maximal runs without white space, read left to right.\<close>

function fields_aux :: "go_string \<Rightarrow> go_string \<Rightarrow> go_string list" where
  "fields_aux cur s =
     (if s = [] then (if cur = [] then [] else [rev cur])
      else if space_len s \<noteq> 0
      then (if cur = [] then [] else [rev cur]) @ fields_aux [] (drop (space_len s) s)
      else fields_aux (hd s # cur) (tl s))"
  by pat_completeness auto
termination
  by (relation "measure (\<lambda>(cur, s). length s)") (auto simp: neq_Nil_conv)

declare fields_aux.simps [simp del]

definition fields :: "go_string \<Rightarrow> go_string list" where
  "fields s = fields_aux [] s"

fun join_with :: "go_string \<Rightarrow> go_string list \<Rightarrow> go_string" where
  "join_with sep [] = []"
| "join_with sep [x] = x"
| "join_with sep (x # y # ys) = x @ sep @ join_with sep (y # ys)"

definition ascii_lower :: "char \<Rightarrow> char" where
  "ascii_lower c =
     (if 65 \<le> byte c \<and> byte c \<le> 90 then char_of (byte c + 32) else c)"

text \<open>\<^verbatim>\<open>ToLower\<close> on the ASCII letters; it is used only to compare with ASCII constants.\<close>

definition to_lower :: "go_string \<Rightarrow> go_string" where
  "to_lower s = map ascii_lower s"

lemma split_on_nonempty [simp]: "split_on c s \<noteq> []"
  by (cases s) (auto split: list.splits)

lemma split_on_parts: "p \<in> set (split_on c s) \<Longrightarrow> c \<notin> set p"
  by (induction s arbitrary: p) (auto split: list.splits if_splits)

lemma join_split_on: "join_with [c] (split_on c s) = s"
proof (induction s)
  case (Cons x xs)
  then show ?case
    by (cases "split_on c xs") (auto, (metis append_Cons append_Nil join_with.simps(2,3) neq_Nil_conv)+)
qed simp

lemma split_by_nonempty [simp]: "split_by P s \<noteq> []"
  by (cases s) (auto split: list.splits)

lemma split_by_parts: "p \<in> set (split_by P s) \<Longrightarrow> x \<in> set p \<Longrightarrow> \<not> P x"
proof (induction s arbitrary: p)
  case (Cons a s)
  then show ?case by (cases "split_by P s") (auto split: if_splits, blast)
qed simp

lemma fields_func_parts: "p \<in> set (fields_func P s) \<Longrightarrow> p \<noteq> [] \<and> (\<forall>x\<in>set p. \<not> P x)"
  by (auto simp: fields_func_def dest: split_by_parts)

section \<open>Package strconv\<close>

definition digit_val :: "char \<Rightarrow> nat option" where
  "digit_val c = (if 48 \<le> byte c \<and> byte c \<le> 57 then Some (byte c - 48) else None)"

fun digits_val :: "nat \<Rightarrow> go_string \<Rightarrow> nat option" where
  "digits_val acc [] = Some acc"
| "digits_val acc (c # cs) =
     (case digit_val c of None \<Rightarrow> None | Some d \<Rightarrow> digits_val (10 * acc + d) cs)"

definition parse_digits :: "go_string \<Rightarrow> nat option" where
  "parse_digits s = (if s = [] then None else digits_val 0 s)"

text \<open>\<^verbatim>\<open>strconv.Atoi\<close> and \<^verbatim>\<open>ParseInt(s, 10, 64)\<close>; \<open>None\<close> is the error, a value out of range
  included.\<close>

definition parse_int64 :: "go_string \<Rightarrow> int option" where
  "parse_int64 s =
     (let (neg, t) = (case s of [] \<Rightarrow> (False, [])
                      | c # t \<Rightarrow> if c = CHR ''-'' then (True, t)
                                else if c = CHR ''+'' then (False, t) else (False, s))
      in case parse_digits t of None \<Rightarrow> None
         | Some n \<Rightarrow> (let v = (if neg then - int n else int n) in if in_int64 v then Some v else None))"

lemma digit_val_lt: "digit_val c = Some d \<Longrightarrow> d < 10"
  by (auto simp: digit_val_def split: if_splits)

lemma digits_val_bound: "digits_val acc s = Some n \<Longrightarrow> n < (acc + 1) * 10 ^ length s"
proof (induction s arbitrary: acc)
  case (Cons c s)
  then obtain d where d: "digit_val c = Some d" "digits_val (10 * acc + d) s = Some n"
    by (auto split: option.splits)
  then have "n < (10 * acc + d + 1) * 10 ^ length s" using Cons.IH by simp
  also have "\<dots> \<le> ((acc + 1) * 10) * 10 ^ length s"
    using digit_val_lt[OF d(1)] by (intro mult_le_mono1) simp
  finally show ?case by (simp add: algebra_simps)
qed simp

lemma parse_digits_bound: "parse_digits s = Some n \<Longrightarrow> n < 10 ^ length s"
  using digits_val_bound[of 0 s n] by (auto simp: parse_digits_def split: if_splits)

lemma parse_int64_bound:
  assumes "parse_int64 s = Some v"
  shows "\<bar>v\<bar> < 10 ^ length s"
proof -
  obtain neg t n where t: "(case s of [] \<Rightarrow> (False, [])
      | c # t \<Rightarrow> if c = CHR ''-'' then (True, t) else if c = CHR ''+'' then (False, t) else (False, s)) = (neg, t)"
    "parse_digits t = Some n" "v = (if neg then - int n else int n)"
    using assms by (auto simp: parse_int64_def Let_def split: prod.splits option.splits if_splits)
  have "length t \<le> length s" using t(1) by (auto split: list.splits if_splits)
  then have "(10::nat) ^ length t \<le> 10 ^ length s" by (rule power_increasing) simp
  with parse_digits_bound[OF t(2)] have "n < 10 ^ length s" by (rule less_le_trans)
  then have "int n < 10 ^ length s" by (metis of_nat_less_numeral_power_cancel_iff of_nat_numeral)
  with t(3) show ?thesis by simp
qed

lemma trim_left_space_suffix: "suffix (trim_left_space s) s"
proof (induction s rule: trim_left_space.induct)
  case (1 s)
  then show ?case
    by (cases "space_len s = 0")
      (simp_all add: trim_left_space.simps[of s], meson suffix_drop suffix_order.trans)
qed

lemma length_trim_space: "length (trim_space s) \<le> length s"
proof -
  have "length (trim_right_rev r) \<le> length r" for r
    using trim_right_rev_suffix[of r] by (metis length_append le_add2)
  moreover have "length (trim_left_space s) \<le> length s"
    using trim_left_space_suffix by (rule suffix_length_le)
  ultimately show ?thesis by (metis (no_types) length_rev order_trans trim_space_def)
qed

lemma split_on_part_length: "p \<in> set (split_on c s) \<Longrightarrow> length p \<le> length s"
proof (induction s arbitrary: p)
  case (Cons a s)
  then show ?case by (cases "split_on c s") (auto split: if_splits intro: le_SucI)
qed simp

lemma parse_int64_range: "parse_int64 s = Some v \<Longrightarrow> in_int64 v"
  by (auto simp: parse_int64_def Let_def split: prod.splits option.splits if_splits)

text \<open>Decimal notation (\<^verbatim>\<open>%d\<close> of package fmt) and its inverse.\<close>

fun show_nat :: "nat \<Rightarrow> go_string" where
  "show_nat n = (if n < 10 then [char_of (48 + n)] else show_nat (n div 10) @ [char_of (48 + n mod 10)])"

declare show_nat.simps [simp del]

lemma digit_chars:
  "char_of (48::nat) = CHR ''0''" "char_of (49::nat) = CHR ''1''" "char_of (50::nat) = CHR ''2''"
  "char_of (51::nat) = CHR ''3''" "char_of (52::nat) = CHR ''4''" "char_of (53::nat) = CHR ''5''"
  "char_of (54::nat) = CHR ''6''" "char_of (55::nat) = CHR ''7''" "char_of (56::nat) = CHR ''8''"
  "char_of (57::nat) = CHR ''9''"
  by (simp_all add: char_of_def bit_0)

lemma digit_val_char: "d < 10 \<Longrightarrow> digit_val (char_of (48 + d)) = Some d"
  by (simp add: digit_val_def)

lemma digits_val_snoc:
  "digits_val a (s @ [c]) = (case digits_val a s of None \<Rightarrow> None
     | Some n \<Rightarrow> (case digit_val c of None \<Rightarrow> None | Some d \<Rightarrow> Some (10 * n + d)))"
  by (induction s arbitrary: a) (auto split: option.splits)

lemma show_nat_nonempty [simp]: "show_nat n \<noteq> []"
  by (subst show_nat.simps) simp

lemma digits_val_show: "digits_val 0 (show_nat n) = Some n"
proof (induction n rule: show_nat.induct)
  case (1 n)
  then show ?case
    by (subst show_nat.simps) (simp add: digits_val_snoc digit_val_char split: option.splits)
qed

lemma show_nat_digits: "c \<in> set (show_nat n) \<Longrightarrow> 48 \<le> byte c \<and> byte c \<le> 57"
proof (induction n rule: show_nat.induct)
  case (1 n)
  have d: "c = char_of (48 + d) \<Longrightarrow> d < 10 \<Longrightarrow> 48 \<le> byte c \<and> byte c \<le> 57" for d :: nat by simp
  show ?case
    using 1 d[of n] d[of "n mod 10"] by (subst (asm) (2) show_nat.simps) (auto split: if_splits)
qed

lemma show_nat_no_char: "byte c < 48 \<or> 57 < byte c \<Longrightarrow> c \<notin> set (show_nat n)"
  using show_nat_digits by fastforce

lemma parse_int64_show: "int n \<le> int64_max \<Longrightarrow> parse_int64 (show_nat n) = Some (int n)"
proof -
  assume n: "int n \<le> int64_max"
  obtain c t where ct: "show_nat n = c # t" by (cases "show_nat n") auto
  have "48 \<le> byte c" using show_nat_digits[of c n] ct by simp
  then have "c \<noteq> CHR ''-''" "c \<noteq> CHR ''+''" by auto
  then show ?thesis
    using n ct digits_val_show[of n] by (simp add: parse_int64_def parse_digits_def in_int64_def)
qed

text \<open>Strings that begin and end with a visible ASCII byte are not trimmed.\<close>

lemma trim_space_graphic:
  assumes "s \<noteq> []" and "\<forall>c\<in>{hd s, last s}. 32 < byte c \<and> byte c < 128"
  shows "trim_space s = s"
proof -
  have sp: "space_len t = 0" if "t \<noteq> []" "32 < byte (hd t)" "byte (hd t) < 128" for t
    using that by (cases t) (auto simp: space_len_Cons space_len3_def ascii_space_def space2_def space3_def)
  have "space_len_rev (rev s) = 0"
  proof -
    obtain c r where r: "rev s = c # r" using assms(1) by (cases "rev s") auto
    then have c: "c = last s" by (metis hd_rev list.sel(1))
    have b: "32 < byte c" "byte c < 128" using assms(2) c by auto
    have "space_len [c] = 0" using sp[of "[c]"] b by simp
    moreover have "space_len [d, c] \<noteq> 2" for d
      using b by (simp add: space_len_def byte_at_def space_len3_def space2_def space3_def)
    moreover have "space_len [d, c] \<noteq> 3" "space_len [c] \<noteq> 2" "space_len [c] \<noteq> 3" for d
      using b by (simp_all add: space_len_def byte_at_def space_len3_def space2_def)
    moreover have "space_len [e, d, c] \<noteq> 3" for d e
      using b by (simp add: space_len_def byte_at_def space_len3_def space2_def space3_def)
    ultimately show ?thesis
      unfolding r space_len_rev_def
      by (cases r; cases "tl r") (auto simp: numeral_2_eq_2 numeral_3_eq_3)
  qed
  then show ?thesis
    using sp[of s] assms by (simp add: trim_space_def trim_left_space_id trim_right_rev_id)
qed

lemma trim_space_pad: "trim_space (replicate k (CHR '' '') @ s) = trim_space s"
proof -
  have "trim_left_space (CHR '' '' # t) = trim_left_space t" for t
    by (subst trim_left_space.simps) (simp add: space_len_Cons space_len3_def ascii_space_def)
  then have "trim_left_space (replicate k (CHR '' '') @ s) = trim_left_space s" by (induction k) simp_all
  then show ?thesis by (simp add: trim_space_def)
qed

lemma show_nat_ends: "48 \<le> byte (hd (show_nat n)) \<and> byte (hd (show_nat n)) \<le> 57"
  "48 \<le> byte (last (show_nat n)) \<and> byte (last (show_nat n)) \<le> 57"
  using show_nat_digits[of "hd (show_nat n)" n] show_nat_digits[of "last (show_nat n)" n] by simp_all

definition show_int :: "int \<Rightarrow> go_string" where
  "show_int z = (if z < 0 then CHR ''-'' # show_nat (nat (- z)) else show_nat (nat z))"

end
