(* ===== verification/Interfaces.thy ===== *)
theory Interfaces
  imports Prelude
begin

text \<open>
  The contracts several components share, stated as locales.  \<open>keyed_store\<close> is what a table keyed by
  names promises (the ACL rule list, the handler table of the RPC registry, the session tables of the
  file manager, the job table of the scheduler); \<open>erasable_store\<close> adds deletion.  \<open>slot_pool\<close> is what a
  counting semaphore promises whose slots are held by named holders (upload sessions, relays).  Each is interpreted on
  the model's own operations in the theory of the component that provides them.
\<close>

locale keyed_store =
  fixes inv :: "'s \<Rightarrow> bool"
    and put :: "'k \<Rightarrow> 'v \<Rightarrow> 's \<Rightarrow> 's"
    and get :: "'s \<Rightarrow> 'k \<Rightarrow> 'v option"
  assumes put_inv: "inv s \<Longrightarrow> inv (put k v s)"
    and get_put: "inv s \<Longrightarrow> get (put k v s) j = (if j = k then Some v else get s j)"
begin

lemma get_put_same: "inv s \<Longrightarrow> get (put k v s) k = Some v"
  by (simp add: get_put)

lemma get_put_other: "inv s \<Longrightarrow> j \<noteq> k \<Longrightarrow> get (put k v s) j = get s j"
  by (simp add: get_put)

lemma put_all_inv: "inv s \<Longrightarrow> inv (fold (\<lambda>(k, v). put k v) kvs s)"
  by (induction kvs arbitrary: s) (auto simp: put_inv)

lemma get_put_all:
  "inv s \<Longrightarrow> get (fold (\<lambda>(k, v). put k v) kvs s) j =
     (case map_of (rev kvs) j of Some v \<Rightarrow> Some v | None \<Rightarrow> get s j)"
proof (induction kvs arbitrary: s)
  case (Cons kv kvs)
  then show ?case
    by (cases kv) (auto simp: put_inv get_put map_add_def split: option.splits)
qed simp

lemma get_put_commute:
  "inv s \<Longrightarrow> j \<noteq> k \<Longrightarrow> get (put j u (put k v s)) i = get (put k v (put j u s)) i"
  by (simp add: get_put put_inv)

end

locale erasable_store = keyed_store inv put get
  for inv :: "'s \<Rightarrow> bool" and put :: "'k \<Rightarrow> 'v \<Rightarrow> 's \<Rightarrow> 's" and get :: "'s \<Rightarrow> 'k \<Rightarrow> 'v option" +
  fixes del :: "'k \<Rightarrow> 's \<Rightarrow> 's"
  assumes del_inv: "inv s \<Longrightarrow> inv (del k s)"
    and get_del: "inv s \<Longrightarrow> get (del k s) j = (if j = k then None else get s j)"
begin

lemma get_del_put: "inv s \<Longrightarrow> get s k = None \<Longrightarrow> get (del k (put k v s)) j = get s j"
  by (simp add: get_del get_put put_inv)

lemma get_put_del: "inv s \<Longrightarrow> get (put k v (del k s)) j = get (put k v s) j"
  by (simp add: get_put get_del del_inv)

end

locale slot_pool =
  fixes inv :: "'s \<Rightarrow> bool"
    and cap :: nat
    and used :: "'s \<Rightarrow> nat"
    and held :: "'s \<Rightarrow> 'k set"
    and acquire :: "'k \<Rightarrow> 's \<Rightarrow> 's option"
    and release :: "'k \<Rightarrow> 's \<Rightarrow> 's"
  assumes used_held: "inv s \<Longrightarrow> finite (held s) \<and> used s = card (held s)"
    and used_cap: "inv s \<Longrightarrow> used s \<le> cap"
    and acquire_full: "inv s \<Longrightarrow> acquire k s = None \<longleftrightarrow> used s = cap"
    and acquire_inv: "inv s \<Longrightarrow> acquire k s = Some s' \<Longrightarrow> k \<notin> held s \<Longrightarrow> inv s' \<and> held s' = insert k (held s)"
    and release_inv: "inv s \<Longrightarrow> inv (release k s) \<and> held (release k s) = held s - {k}"
begin

lemma release_idem: "inv s \<Longrightarrow> held (release k (release k s)) = held (release k s)"
  using release_inv by simp

lemma release_used: "inv s \<Longrightarrow> used (release k s) = (if k \<in> held s then used s - 1 else used s)"
  using used_held release_inv by simp

text \<open>A released slot can be taken at once, by anyone who does not hold one yet.\<close>

lemma acquire_after_release:
  assumes "inv s" and "k \<in> held s"
  shows "acquire j (release k s) \<noteq> None"
proof -
  have "0 < used s" using used_held[OF assms(1)] assms(2) by (auto simp: card_gt_0_iff)
  then have "used (release k s) \<noteq> cap"
    using release_used[OF assms(1), of k] used_cap[OF assms(1)] assms(2) by simp
  then show ?thesis using acquire_full[of "release k s" j] release_inv[OF assms(1)] by simp
qed

lemma acquire_used:
  assumes "inv s" and "acquire k s = Some s'" and "k \<notin> held s"
  shows "used s' = Suc (used s) \<and> used s' \<le> cap"
proof -
  have i: "inv s'" "held s' = insert k (held s)" using acquire_inv[OF assms] by simp_all
  show ?thesis using used_held[OF assms(1)] used_held[OF i(1)] used_cap[OF i(1)] i(2) assms(3) by simp
qed

lemma release_all_inv: "inv s \<Longrightarrow> inv (fold release ks s) \<and> held (fold release ks s) = held s - set ks"
  by (induction ks arbitrary: s) (use release_inv in auto)

end

text \<open>
  \<open>token_ledger\<close> is what a table of credentials that expire promises: an operation issues a row under a
  free key, keeps it as long as it has not expired, drops it when it revokes it, and never brings one
  back.  Operations carry the time they run at; \<open>run_log\<close> runs a history, and \<open>credited\<close> says what the
  history alone gives a key: the last issue that has not been revoked since.
\<close>

definition run_log :: "(int \<Rightarrow> 'e \<Rightarrow> 's \<Rightarrow> 's) \<Rightarrow> (int \<times> 'e) list \<Rightarrow> 's \<Rightarrow> 's" where
  "run_log step log s = foldl (\<lambda>s (t, e). step t e s) s log"

definition state_at :: "(int \<Rightarrow> 'e \<Rightarrow> 's \<Rightarrow> 's) \<Rightarrow> (int \<times> 'e) list \<Rightarrow> 's \<Rightarrow> nat \<Rightarrow> 's" where
  "state_at step log s i = run_log step (take i log) s"

definition credited ::
  "(int \<Rightarrow> 'e \<Rightarrow> 's \<Rightarrow> 's) \<Rightarrow> (int \<Rightarrow> 'e \<Rightarrow> 's \<Rightarrow> 'k \<Rightarrow> ('u \<times> int) option) \<Rightarrow> (int \<Rightarrow> 'e \<Rightarrow> 's \<Rightarrow> 'k \<Rightarrow> bool)
     \<Rightarrow> (int \<times> 'e) list \<Rightarrow> 's \<Rightarrow> 'k \<Rightarrow> 'u \<times> int \<Rightarrow> bool" where
  "credited step issues revokes log s k r \<longleftrightarrow>
     (\<exists>i<length log. issues (fst (log ! i)) (snd (log ! i)) (state_at step log s i) k = Some r \<and>
        (\<forall>j. i < j \<and> j < length log \<longrightarrow>
           \<not> revokes (fst (log ! j)) (snd (log ! j)) (state_at step log s j) k))"

lemma run_log_Nil [simp]: "run_log step [] s = s"
  by (simp add: run_log_def)

lemma run_log_snoc [simp]: "run_log step (log @ [(t, e)]) s = step t e (run_log step log s)"
  by (simp add: run_log_def)

lemma state_at_snoc: "i \<le> length log \<Longrightarrow> state_at step (log @ [x]) s i = state_at step log s i"
  by (simp add: state_at_def)

lemma credited_Nil [simp]: "\<not> credited step issues revokes [] s k r"
  by (simp add: credited_def)

lemma credited_snoc:
  "credited step issues revokes (log @ [(t, e)]) s k r \<longleftrightarrow>
     issues t e (run_log step log s) k = Some r \<or>
     credited step issues revokes log s k r \<and> \<not> revokes t e (run_log step log s) k"
proof -
  let ?n = "length log" and ?l = "log @ [(t, e)]"
  let ?I = "\<lambda>l i. issues (fst (l ! i)) (snd (l ! i)) (state_at step l s i) k = Some r"
  let ?R = "\<lambda>l j. revokes (fst (l ! j)) (snd (l ! j)) (state_at step l s j) k"
  have last: "state_at step ?l s ?n = run_log step log s"
    by (simp add: state_at_def)
  have old: "?I ?l i = ?I log i" "?R ?l i = ?R log i" if "i < ?n" for i
    using that by (simp_all add: nth_append state_at_snoc)
  have new: "?I ?l ?n = (issues t e (run_log step log s) k = Some r)"
    "?R ?l ?n = revokes t e (run_log step log s) k"
    by (simp_all add: last)
  have "(\<exists>i<Suc ?n. ?I ?l i \<and> (\<forall>j. i < j \<and> j < Suc ?n \<longrightarrow> \<not> ?R ?l j)) \<longleftrightarrow>
      ?I ?l ?n \<or> (\<exists>i<?n. ?I ?l i \<and> (\<forall>j. i < j \<and> j < Suc ?n \<longrightarrow> \<not> ?R ?l j))"
    unfolding Ex_less_Suc by auto
  also have "(\<exists>i<?n. ?I ?l i \<and> (\<forall>j. i < j \<and> j < Suc ?n \<longrightarrow> \<not> ?R ?l j)) \<longleftrightarrow>
      (\<exists>i<?n. ?I log i \<and> (\<forall>j. i < j \<and> j < ?n \<longrightarrow> \<not> ?R log j)) \<and> \<not> ?R ?l ?n"
  proof -
    have "(\<forall>j. i < j \<and> j < Suc ?n \<longrightarrow> \<not> ?R ?l j) \<longleftrightarrow>
        (\<forall>j. i < j \<and> j < ?n \<longrightarrow> \<not> ?R log j) \<and> \<not> ?R ?l ?n" if "i < ?n" for i
      using that old(2) by (auto simp del: nth_append simp: less_Suc_eq)
    then show ?thesis using old(1) by blast
  qed
  finally show ?thesis
    unfolding credited_def new by simp
qed

locale token_ledger =
  fixes inv :: "'s \<Rightarrow> bool"
    and row :: "'s \<Rightarrow> 'k \<Rightarrow> ('u \<times> int) option"
    and step :: "int \<Rightarrow> 'e \<Rightarrow> 's \<Rightarrow> 's"
    and issues :: "int \<Rightarrow> 'e \<Rightarrow> 's \<Rightarrow> 'k \<Rightarrow> ('u \<times> int) option"
    and revokes :: "int \<Rightarrow> 'e \<Rightarrow> 's \<Rightarrow> 'k \<Rightarrow> bool"
  assumes step_inv: "inv s \<Longrightarrow> inv (step t e s)"
    and issue_row: "inv s \<Longrightarrow> issues t e s k = Some r \<Longrightarrow> row s k = None \<and> row (step t e s) k = Some r"
    and other_row: "inv s \<Longrightarrow> issues t e s k = None \<Longrightarrow> row (step t e s) k = Some r \<Longrightarrow>
          row s k = Some r \<and> \<not> revokes t e s k"
    and kept_row: "inv s \<Longrightarrow> \<not> revokes t e s k \<Longrightarrow> row s k = Some (u, x) \<Longrightarrow> t \<le> x \<Longrightarrow>
          row (step t e s) k = Some (u, x)"
begin

lemma run_inv: "inv s \<Longrightarrow> inv (run_log step log s)"
  by (induction log rule: rev_induct) (auto simp: step_inv)

lemma row_credited:
  assumes "inv s" "row s k = None" "row (run_log step log s) k = Some r"
  shows "credited step issues revokes log s k r"
  using assms(3)
proof (induction log rule: rev_induct)
  case Nil
  then show ?case using assms(2) by simp
next
  case (snoc e log)
  obtain t ev where e: "e = (t, ev)" by (cases e)
  show ?case
  proof (cases "issues t ev (run_log step log s) k")
    case None
    from other_row[OF run_inv[OF assms(1)] None, of r] snoc show ?thesis
      by (simp add: e credited_snoc)
  next
    case (Some r')
    with issue_row[OF run_inv[OF assms(1)] Some] snoc.prems show ?thesis
      by (simp add: e credited_snoc)
  qed
qed

lemma credited_row:
  assumes "inv s" "\<And>t e. (t, e) \<in> set log \<Longrightarrow> t \<le> x" "credited step issues revokes log s k (u, x)"
  shows "row (run_log step log s) k = Some (u, x)"
  using assms(2,3)
proof (induction log rule: rev_induct)
  case (snoc e log)
  obtain t ev where e: "e = (t, ev)" by (cases e)
  let ?s = "run_log step log s"
  have i: "inv ?s" using run_inv assms(1) .
  from snoc.prems(2) consider "issues t ev ?s k = Some (u, x)"
    | "credited step issues revokes log s k (u, x)" "\<not> revokes t ev ?s k"
    by (auto simp: e credited_snoc)
  then show ?case
  proof cases
    case 1
    then show ?thesis using issue_row[OF i] by (simp add: e)
  next
    case 2
    have "row ?s k = Some (u, x)" using snoc.IH 2(1) snoc.prems(1) by auto
    then show ?thesis using kept_row[OF i 2(2)] snoc.prems(1) by (auto simp: e)
  qed
qed simp

text \<open>A row that has not expired is exactly what the history credits its key with.\<close>

lemma row_exact:
  assumes "inv s" "row s k = None" "\<And>t e. (t, e) \<in> set log \<Longrightarrow> t \<le> now" "now \<le> x"
  shows "row (run_log step log s) k = Some (u, x) \<longleftrightarrow> credited step issues revokes log s k (u, x)"
proof
  show "row (run_log step log s) k = Some (u, x) \<Longrightarrow> credited step issues revokes log s k (u, x)"
    by (rule row_credited[OF assms(1,2)])
  assume c: "credited step issues revokes log s k (u, x)"
  have "t \<le> x" if "(t, e) \<in> set log" for t e
    using assms(3)[OF that] assms(4) by simp
  from credited_row[OF assms(1) this c] show "row (run_log step log s) k = Some (u, x)" .
qed

end

end
