(* ===== verification/Rpc_Acl.thy ===== *)
theory Rpc_Acl
  imports Interfaces "HOL-Library.Product_Lexorder"
begin

text \<open>
  The permission model of the RPC layer: \<^verbatim>\<open>pkg/rpc/permission.go\<close> (the rule list, wildcard matching,
  the rule that applies to a method, the check of a caller) and \<^verbatim>\<open>pkg/rpc/principal.go\<close> (callers and
  their roles).  \<open>wildcard_match\<close> is the two-pointer loop with its backtracking; the suffixes
  \<open>pattern[p:]\<close> and \<open>s[str:]\<close> stand for the indices.  \<open>glob\<close> is the declarative meaning of a pattern.
  The rule list is a value of type \<open>acl_rule list\<close>; the lock around it is not modelled, each
  operation is atomic.
\<close>

section \<open>Roles and callers\<close>

definition role_guest :: go_string where "role_guest = ''guest''"
definition role_client :: go_string where "role_client = ''client''"
definition role_admin :: go_string where "role_admin = ''admin''"

definition default_namespace :: go_string where "default_namespace = ''common''"

definition role_level :: "go_string \<rightharpoonup> int" where
  "role_level = [role_guest \<mapsto> 0, role_client \<mapsto> 1, role_admin \<mapsto> 2]"

definition level_of :: "go_string \<Rightarrow> int" where
  "level_of role = (case role_level role of Some lv \<Rightarrow> lv | None \<Rightarrow> 0)"

datatype principal_type = PrincipalAnonymous | PrincipalAgent | PrincipalUser | PrincipalAPIKey

record principal =
  p_type :: principal_type
  user_uuid :: go_string
  client_uuid :: go_string
  is_api_key :: bool
  roles :: "go_string list"

definition new_anonymous_principal :: principal where
  "new_anonymous_principal =
     \<lparr>p_type = PrincipalAnonymous, user_uuid = [], client_uuid = [], is_api_key = False,
      roles = [role_guest]\<rparr>"

definition new_agent_principal :: "go_string \<Rightarrow> principal" where
  "new_agent_principal uuid =
     \<lparr>p_type = PrincipalAgent, user_uuid = [], client_uuid = uuid, is_api_key = False,
      roles = [role_client]\<rparr>"

definition new_user_principal :: "go_string \<Rightarrow> principal" where
  "new_user_principal uuid =
     \<lparr>p_type = PrincipalUser, user_uuid = uuid, client_uuid = [], is_api_key = False,
      roles = [role_admin]\<rparr>"

definition new_api_key_principal :: principal where
  "new_api_key_principal =
     \<lparr>p_type = PrincipalAPIKey, user_uuid = [], client_uuid = [], is_api_key = True,
      roles = [role_admin]\<rparr>"

fun best_role :: "go_string \<Rightarrow> int \<Rightarrow> go_string list \<Rightarrow> go_string" where
  "best_role r lv [] = r"
| "best_role r lv (x # xs) =
     (if level_of x > lv then best_role x (level_of x) xs else best_role r lv xs)"

text \<open>A nil caller is \<open>None\<close>.\<close>

definition primary_role :: "principal option \<Rightarrow> go_string" where
  "primary_role p = (case p of None \<Rightarrow> role_guest
     | Some q \<Rightarrow> (case roles q of [] \<Rightarrow> role_guest | r # rs \<Rightarrow> best_role r (level_of r) rs))"

definition has_role :: "principal option \<Rightarrow> go_string \<Rightarrow> bool" where
  "has_role p role = (case p of None \<Rightarrow> False | Some q \<Rightarrow> list_ex (\<lambda>r. r = role) (roles q))"

definition principal_from_role :: "go_string \<Rightarrow> principal" where
  "principal_from_role role =
     (if role = role_client
      then \<lparr>p_type = PrincipalAgent, user_uuid = [], client_uuid = [], is_api_key = False,
            roles = [role_client]\<rparr>
      else if role = role_admin
      then \<lparr>p_type = PrincipalUser, user_uuid = [], client_uuid = [], is_api_key = False,
            roles = [role_admin]\<rparr>
      else new_anonymous_principal)"

section \<open>Rules\<close>

record acl_rule =
  pattern :: go_string
  min_role :: go_string
  specificity :: int
  has_wildcard :: bool

definition namespace_of :: "go_string \<Rightarrow> go_string" where
  "namespace_of m = (if CHR '':'' \<in> set m then takeWhile (\<lambda>c. c \<noteq> CHR '':'') m else default_namespace)"

definition compute_specificity :: "go_string \<Rightarrow> int \<times> bool" where
  "compute_specificity pat =
     (let (literal, wild) =
        fold (\<lambda>r (l, w). if r \<noteq> ''*'' then (l + 1, w) else (l, True)) (runes pat) (0, False)
      in if \<not> wild then (2 ^ 20, False) else (literal, True))"

definition new_rule :: "go_string \<Rightarrow> go_string \<Rightarrow> acl_rule" where
  "new_rule pat role =
     \<lparr>pattern = pat, min_role = role, specificity = fst (compute_specificity pat),
      has_wildcard = snd (compute_specificity pat)\<rparr>"

fun put_rule :: "acl_rule \<Rightarrow> acl_rule list \<Rightarrow> acl_rule list" where
  "put_rule r [] = [r]"
| "put_rule r (x # xs) = (if pattern x = pattern r then r # xs else x # put_rule r xs)"

definition allow :: "go_string \<Rightarrow> go_string \<Rightarrow> acl_rule list \<Rightarrow> acl_rule list" where
  "allow pat role acl = put_rule (new_rule pat role) acl"

definition register_namespace :: "go_string \<Rightarrow> go_string \<Rightarrow> acl_rule list \<Rightarrow> acl_rule list" where
  "register_namespace ns role acl = allow (ns @ '':*'') role acl"

definition default_acl :: "acl_rule list" where
  "default_acl =
     allow ''admin:*'' role_admin (allow ''client:*'' role_client (allow ''rpc:*'' role_guest
       (allow ''rpc.*'' role_guest (allow ''guest:*'' role_guest (allow ''common:*'' role_guest
         (allow ''*'' role_admin []))))))"

section \<open>Wildcard matching\<close>

abbreviation star :: char where "star \<equiv> CHR ''*''"

text \<open>
  The loop: \<open>p\<close> is what is left of the pattern, \<open>s\<close> what is left of the subject, and the saved pair is
  the pattern after the last star with the subject where that star began to match.
\<close>

function wild_loop :: "go_string \<Rightarrow> go_string \<Rightarrow> (go_string \<times> go_string) option \<Rightarrow> bool" where
  "wild_loop p s saved =
     (if s = [] then list_all (\<lambda>c. c = star) p
      else if p \<noteq> [] \<and> hd p = hd s then wild_loop (tl p) (tl s) saved
      else if p \<noteq> [] \<and> hd p = star then wild_loop (tl p) s (Some (tl p, s))
      else (case saved of None \<Rightarrow> False
            | Some (after, b) \<Rightarrow> wild_loop after (tl b) (Some (after, tl b))))"
  by pat_completeness auto
termination
  by (relation "measures [\<lambda>(p, s, saved). max (length s) (case saved of None \<Rightarrow> 0 | Some (_, b) \<Rightarrow> length b),
                          \<lambda>(p, s, saved). length p]")
    (auto simp: neq_Nil_conv max_def split: option.splits)

declare wild_loop.simps [simp del]

definition wildcard_match :: "go_string \<Rightarrow> go_string \<Rightarrow> bool" where
  "wildcard_match pat s = wild_loop pat s None"

text \<open>What a pattern means: a star stands for any run of bytes, every other byte for itself.\<close>

fun glob :: "go_string \<Rightarrow> go_string \<Rightarrow> bool" where
  "glob [] s = (s = [])"
| "glob (c # p) s =
     (if c = star then glob p s \<or> (case s of [] \<Rightarrow> False | _ # t \<Rightarrow> glob (c # p) t)
      else (case s of [] \<Rightarrow> False | d # t \<Rightarrow> c = d \<and> glob p t))"

section \<open>The rule that applies\<close>

definition normalize_method :: "go_string \<Rightarrow> go_string" where
  "normalize_method m =
     (if CHR '':'' \<notin> set m \<and> \<not> has_prefix m ''rpc.'' then default_namespace @ '':'' @ m else m)"

fun best_rule :: "go_string \<Rightarrow> int \<Rightarrow> go_string \<Rightarrow> bool \<Rightarrow> acl_rule list \<Rightarrow> go_string \<times> bool" where
  "best_rule m spec role matched [] = (role, matched)"
| "best_rule m spec role matched (r # rs) =
     (if \<not> wildcard_match (pattern r) m then best_rule m spec role matched rs
      else if specificity r > spec \<or> (specificity r = spec \<and> level_of (min_role r) > level_of role)
      then best_rule m (specificity r) (min_role r) True rs
      else best_rule m spec role matched rs)"

definition resolve_min_role :: "acl_rule list \<Rightarrow> go_string \<Rightarrow> go_string" where
  "resolve_min_role acl m =
     (case best_rule (normalize_method m) (-1) role_admin False acl of
        (role, matched) \<Rightarrow> if \<not> matched then role_admin else role)"

definition required_role :: "acl_rule list \<Rightarrow> go_string \<Rightarrow> go_string" where
  "required_role acl m = resolve_min_role acl m"

definition check_principal :: "acl_rule list \<Rightarrow> principal option \<Rightarrow> go_string \<Rightarrow> bool" where
  "check_principal acl p m =
     (let q = (case p of None \<Rightarrow> new_anonymous_principal | Some q \<Rightarrow> q);
          needed = resolve_min_role acl m
      in if needed = role_guest then True else has_role (Some q) needed)"

definition check_permission :: "acl_rule list \<Rightarrow> go_string \<Rightarrow> go_string \<Rightarrow> bool" where
  "check_permission acl grp m = check_principal acl (Some (principal_from_role grp)) m"


section \<open>Lemmas on matching\<close>

lemma glob_star: "glob (star # p) s \<longleftrightarrow> (\<exists>u t. s = u @ t \<and> glob p t)"
proof (induction s)
  case (Cons a s)
  have "glob (star # p) (a # s) \<longleftrightarrow> glob p (a # s) \<or> glob (star # p) s"
    by (subst glob.simps(2)) simp
  also have "\<dots> \<longleftrightarrow> (\<exists>u t. a # s = u @ t \<and> glob p t)"
    unfolding Cons.IH by (metis append_Cons append_Nil neq_Nil_conv list.inject)
  finally show ?case .
qed simp

lemma glob_char: "c \<noteq> star \<Longrightarrow> glob (c # p) s \<longleftrightarrow> (\<exists>t. s = c # t \<and> glob p t)"
  by (cases s) auto

declare glob.simps(2) [simp del]

lemma glob_Cons_Cons [simp]: "glob (c # p) (c # s) \<longleftrightarrow> glob p s" if "c \<noteq> star"
  using that by (simp add: glob_char)

lemma glob_star_Cons: "glob (star # p) (a # s) \<longleftrightarrow> glob p (a # s) \<or> glob (star # p) s"
  by (subst glob.simps(2)) simp

lemma glob_star_Nil: "glob (star # p) [] \<longleftrightarrow> glob p []"
  by (subst glob.simps(2)) simp

lemma glob_literal: "star \<notin> set u \<Longrightarrow> glob (u @ p) s \<longleftrightarrow> (\<exists>t. s = u @ t \<and> glob p t)"
  by (induction u arbitrary: s) (auto simp: glob_char)

lemma glob_exact: "star \<notin> set p \<Longrightarrow> glob p s \<longleftrightarrow> s = p"
  using glob_literal[of p "[]" s] by simp

lemma glob_prefix_star: "star \<notin> set u \<Longrightarrow> glob (u @ ''*'') s \<longleftrightarrow> prefix u s"
  by (auto simp: glob_literal glob_star prefix_def)

lemma glob_star_mono: "glob (star # p) t \<Longrightarrow> glob (star # p) (u @ t)"
  by (metis append_assoc glob_star)

lemma glob_Nil_right: "glob p [] \<longleftrightarrow> list_all (\<lambda>c. c = star) p"
  by (induction p) (auto simp: glob.simps(2))

lemma shifted_suffix:
  assumes "u @ s = w @ u @ t"
  shows "\<exists>x. s = x @ t"
proof -
  have "s = drop (length u) (w @ u @ t)"
    using assms by (metis append_eq_conv_conj)
  also have "\<dots> = drop (length u) (w @ u) @ t"
    by simp
  finally show ?thesis by blast
qed

text \<open>
  The invariant of the loop: since the last star, pattern and subject have the same bytes
  \<open>u\<close> consumed, and what is left to try is the current position or any later start for that star.
\<close>

lemma wild_loop_correct:
  assumes "star \<notin> set s"
    and "case saved of None \<Rightarrow> True
         | Some (aft, b) \<Rightarrow> \<exists>u. aft = u @ p \<and> b = u @ s \<and> star \<notin> set u"
  shows "wild_loop p s saved \<longleftrightarrow>
    glob p s \<or> (case saved of None \<Rightarrow> False | Some (aft, b) \<Rightarrow> b \<noteq> [] \<and> s \<noteq> [] \<and> glob (star # aft) (tl b))"
  using assms
proof (induction p s saved rule: wild_loop.induct)
  case (1 p s saved)
  note nostar = "1.prems"(1) and inv = "1.prems"(2)
  consider (empty) "s = []"
    | (eq) a s' p' where "s = a # s'" "p = a # p'"
    | (star) a s' p' where "s = a # s'" "p = star # p'" "a \<noteq> star"
    | (retry) a s' aft b where "s = a # s'" "p = [] \<or> hd p \<noteq> a \<and> hd p \<noteq> star" "saved = Some (aft, b)"
    | (stuck) a s' where "s = a # s'" "p = [] \<or> hd p \<noteq> a \<and> hd p \<noteq> star" "saved = None"
    by (cases s; cases p; cases saved) auto
  then show ?case
  proof cases
    case empty
    then show ?thesis
      by (simp add: wild_loop.simps[of p "[]"] glob_Nil_right split: option.splits)
  next
    case eq
    have a: "a \<noteq> star" using nostar eq by auto
    have step: "wild_loop p s saved = wild_loop p' s' saved"
      by (subst wild_loop.simps) (simp add: eq)
    have "case saved of None \<Rightarrow> True
         | Some (aft, b) \<Rightarrow> \<exists>u. aft = u @ p' \<and> b = u @ s' \<and> star \<notin> set u"
    proof (cases saved)
      case (Some ab)
      obtain aft b where ab: "ab = (aft, b)" by (cases ab)
      with inv Some obtain u where "aft = u @ p" "b = u @ s" "star \<notin> set u" by auto
      then have "aft = (u @ [a]) @ p' \<and> b = (u @ [a]) @ s' \<and> star \<notin> set (u @ [a])"
        using eq a by simp
      then show ?thesis using Some ab by (simp only: option.case prod.case) blast
    qed simp
    moreover have tls: "tl p = p'" "tl s = s'" "hd p = hd s" "s \<noteq> []" "p \<noteq> []" "star \<notin> set s'"
      using eq nostar by simp_all
    ultimately have IH: "wild_loop p' s' saved \<longleftrightarrow>
      glob p' s' \<or> (case saved of None \<Rightarrow> False | Some (aft, b) \<Rightarrow> b \<noteq> [] \<and> s' \<noteq> [] \<and> glob (star # aft) (tl b))"
      using "1.IH"(1)[unfolded tls(1,2)] by simp
    show ?thesis
    proof (cases saved)
      case None
      with IH step eq a show ?thesis by simp
    next
      case (Some ab)
      obtain aft b where ab: "ab = (aft, b)" by (cases ab)
      with inv Some obtain u where u: "aft = u @ a # p'" "b = u @ a # s'" "star \<notin> set u"
        using eq by auto
      have "\<not> glob (star # aft) (tl b)" if "s' = []"
      proof
        assume "glob (star # aft) (tl b)"
        then obtain v t where vt: "tl b = v @ t" "glob aft t" by (auto simp: glob_star)
        have "star \<notin> set (u @ [a])" using u a by simp
        with vt(2) u(1) obtain t' where "t = (u @ [a]) @ t'"
          using glob_literal[of "u @ [a]" p' t] by auto
        then have "length (tl b) \<ge> length u + 1" using vt by simp
        moreover have "length (tl b) = length u" using u that by (cases u) simp_all
        ultimately show False by simp
      qed
      with IH step eq a Some ab show ?thesis by auto
    qed
  next
    case star
    have step: "wild_loop p s saved = wild_loop p' s (Some (p', s))"
      using star(3) by (subst wild_loop.simps) (simp add: star(1,2))
    have "wild_loop p' s (Some (p', s)) \<longleftrightarrow> glob p' s \<or> s \<noteq> [] \<and> glob (star # p') (tl s)"
      using "1.IH"(2) star nostar by auto
    then have R: "wild_loop p s saved \<longleftrightarrow> glob p s"
      using step star by (simp add: glob_star_Cons)
    have "glob p s" if h: "saved = Some (aft, b)" "glob (star # aft) (tl b)" for aft b
    proof -
      from inv h obtain u where u: "aft = u @ p" "b = u @ s" "star \<notin> set u" by auto
      from h(2) obtain v t where vt: "tl b = v @ t" "glob aft t" by (auto simp: glob_star)
      with u obtain t' where t': "t = u @ t'" "glob p t'" by (auto simp: glob_literal)
      have "b \<noteq> []" using u star by simp
      then obtain d where "b = d # tl b" by (metis list.collapse)
      then have "u @ s = (d # v) @ u @ t'"
        using u vt t' by simp
      then obtain w where "s = w @ t'"
        using shifted_suffix by blast
      with t'(2) show ?thesis using star(2) glob_star_mono by simp
    qed
    with R show ?thesis by (auto split: option.splits)
  next
    case retry
    have step: "wild_loop p s saved = wild_loop aft (tl b) (Some (aft, tl b))"
      using retry(2) by (subst wild_loop.simps) (auto simp: retry(1,3))
    from inv retry obtain u where u: "aft = u @ p" "b = u @ s" "star \<notin> set u" by auto
    have b: "b \<noteq> []" "star \<notin> set (tl b)"
      using u retry nostar by (auto dest: list.set_sel(2)[rotated])
    have "wild_loop aft (tl b) (Some (aft, tl b)) \<longleftrightarrow>
       glob aft (tl b) \<or> tl b \<noteq> [] \<and> glob (star # aft) (tl (tl b))"
      using "1.IH"(3) retry b by auto
    also have "\<dots> \<longleftrightarrow> glob (star # aft) (tl b)"
      by (cases "tl b") (auto simp: glob_star_Cons glob_star_Nil)
    finally have "wild_loop p s saved \<longleftrightarrow> glob (star # aft) (tl b)" using step by simp
    moreover have "\<not> glob p s" using retry by (cases p) (auto simp: glob_char)
    ultimately show ?thesis using retry b by simp
  next
    case stuck
    have "\<not> wild_loop p s saved"
      using stuck(2) by (subst wild_loop.simps) (auto simp: stuck(1,3))
    moreover have "\<not> glob p s" using stuck by (cases p) (auto simp: glob_char)
    ultimately show ?thesis using stuck(3) by simp
  qed
qed

lemma wildcard_match_exact: "star \<notin> set s \<Longrightarrow> wildcard_match p s \<longleftrightarrow> glob p s"
  unfolding wildcard_match_def by (simp add: wild_loop_correct)

lemma wildcard_match_prefix [go_simps]:
  "star \<notin> set s \<Longrightarrow> star \<notin> set u \<Longrightarrow> wildcard_match (u @ ''*'') s \<longleftrightarrow> prefix u s"
  by (simp add: wildcard_match_exact glob_prefix_star)

section \<open>Lemmas on the rule list\<close>

definition rule_of :: "acl_rule list \<Rightarrow> go_string \<Rightarrow> acl_rule option" where
  "rule_of acl pat = find (\<lambda>r. pattern r = pat) acl"

definition acl_wf :: "acl_rule list \<Rightarrow> bool" where
  "acl_wf acl \<longleftrightarrow> distinct (map pattern acl) \<and>
     (\<forall>r\<in>set acl. r = new_rule (pattern r) (min_role r))"

lemma new_rule_sel [simp]:
  "pattern (new_rule p r) = p" "min_role (new_rule p r) = r"
  by (simp_all add: new_rule_def)

lemma set_put_rule: "set (put_rule r acl) \<subseteq> insert r (set acl)"
  by (induction acl) auto

lemma in_put_rule: "r \<in> set (put_rule r acl)"
  by (induction acl) auto

lemma patterns_put_rule: "set (map pattern (put_rule r acl)) = insert (pattern r) (set (map pattern acl))"
  by (induction acl) auto

lemma distinct_put_rule: "distinct (map pattern acl) \<Longrightarrow> distinct (map pattern (put_rule r acl))"
proof (induction acl)
  case (Cons x xs)
  then show ?case using patterns_put_rule[of r xs] by auto
qed simp

lemma find_put_rule:
  "find (\<lambda>x. pattern x = q) (put_rule r acl) =
     (if q = pattern r then Some r else find (\<lambda>x. pattern x = q) acl)"
  by (induction acl) auto

lemma put_rule_members:
  "distinct (map pattern acl) \<Longrightarrow>
     x \<in> set (put_rule r acl) \<longleftrightarrow> x = r \<or> x \<in> set acl \<and> pattern x \<noteq> pattern r"
proof (induction acl)
  case (Cons y ys)
  show ?case
  proof (cases "pattern y = pattern r")
    case True
    then have "\<forall>z\<in>set ys. pattern z \<noteq> pattern r" using Cons.prems by (auto simp: image_iff)
    with True show ?thesis by auto
  next
    case False
    with Cons show ?thesis by auto
  qed
qed auto

interpretation acl: keyed_store acl_wf allow
  "\<lambda>acl pat. map_option min_role (rule_of acl pat)"
proof unfold_locales
  fix acl pat role
  assume wf: "acl_wf acl"
  then show "acl_wf (allow pat role acl)"
    using set_put_rule[of "new_rule pat role" acl]
    by (auto simp: acl_wf_def allow_def distinct_put_rule subset_iff)
  fix q
  show "map_option min_role (rule_of (allow pat role acl) q) =
      (if q = pat then Some role else map_option min_role (rule_of acl q))"
    by (simp add: rule_of_def allow_def find_put_rule)
qed

lemma acl_wf_default: "acl_wf default_acl"
  unfolding default_acl_def by (intro acl.put_inv) (simp add: acl_wf_def)

lemma compute_specificity_fold:
  "fold (\<lambda>r (l, w). if r \<noteq> ''*'' then (l + 1, w) else (l, True)) rs (l, w) =
     (l + int (length (filter (\<lambda>r. r \<noteq> ''*'') rs)), w \<or> ''*'' \<in> set rs)"
  by (induction rs arbitrary: l w) auto

lemma compute_specificity_eq:
  "compute_specificity p =
     (if ''*'' \<in> set (runes p) then (int (length (filter (\<lambda>r. r \<noteq> ''*'') (runes p))), True)
      else (2 ^ 20, False))"
  by (simp add: compute_specificity_def compute_specificity_fold)

lemma specificity_nonneg: "0 \<le> specificity (new_rule p r)"
  by (simp add: new_rule_def compute_specificity_eq)

text \<open>The rank of a rule: its specificity, then the level of the role it asks for.\<close>

definition rank :: "acl_rule \<Rightarrow> int \<times> int" where
  "rank r = (specificity r, level_of (min_role r))"

definition matching :: "acl_rule list \<Rightarrow> go_string \<Rightarrow> acl_rule list" where
  "matching acl m = filter (\<lambda>r. wildcard_match (pattern r) m) acl"

lemma best_rule_matching: "best_rule m spec role b acl = best_rule m spec role b (matching acl m)"
  by (induction acl arbitrary: spec role b) (auto simp: matching_def)

lemma best_rule_step:
  "wildcard_match (pattern r) m \<Longrightarrow> best_rule m spec role b (r # rs) =
     (if (spec, level_of role) < rank r then best_rule m (specificity r) (min_role r) True rs
      else best_rule m spec role b rs)"
  by (auto simp: rank_def)

lemma best_rule_max:
  assumes "\<forall>r\<in>set rs. wildcard_match (pattern r) m"
    and "best_rule m spec role b rs = (role', b')"
  shows "(role' = role \<and> b' = b \<and> (\<forall>r\<in>set rs. rank r \<le> (spec, level_of role)))
       \<or> (b' \<and> (\<exists>r\<in>set rs. role' = min_role r \<and> (spec, level_of role) < rank r \<and>
            (\<forall>q\<in>set rs. rank q \<le> rank r)))"
  using assms
proof (induction rs arbitrary: spec role b)
  case (Cons r rs)
  have m: "wildcard_match (pattern r) m" and ms: "\<forall>r\<in>set rs. wildcard_match (pattern r) m"
    using Cons.prems by simp_all
  show ?case
  proof (cases "(spec, level_of role) < rank r")
    case True
    with Cons.prems(2) m have "best_rule m (specificity r) (min_role r) True rs = (role', b')"
      by (simp only: best_rule_step if_True)
    from Cons.IH[OF ms this] show ?thesis
    proof (elim disjE conjE bexE)
      assume "role' = min_role r" "b' = True" "\<forall>q\<in>set rs. rank q \<le> (specificity r, level_of (min_role r))"
      then have "b' \<and> role' = min_role r \<and> (spec, level_of role) < rank r \<and> (\<forall>q\<in>set (r # rs). rank q \<le> rank r)"
        using True by (simp add: rank_def[of r])
      then show ?thesis by auto
    next
      fix q
      assume q: "b'" "q \<in> set rs" "role' = min_role q" "(specificity r, level_of (min_role r)) < rank q"
        "\<forall>x\<in>set rs. rank x \<le> rank q"
      then have "rank r < rank q" by (simp only: rank_def[of r])
      then have "(spec, level_of role) < rank q \<and> (\<forall>x\<in>set (r # rs). rank x \<le> rank q)"
        using order.strict_trans[OF True] order.strict_implies_order q(5) by auto
      then show ?thesis using q by auto
    qed
  next
    case False
    then have le: "rank r \<le> (spec, level_of role)" by (rule leI)
    from False Cons.prems(2) m have "best_rule m spec role b rs = (role', b')"
      by (simp only: best_rule_step if_False)
    from Cons.IH[OF ms this] show ?thesis
    proof (elim disjE conjE bexE)
      assume "role' = role" "b' = b" "\<forall>q\<in>set rs. rank q \<le> (spec, level_of role)"
      then show ?thesis using le by simp
    next
      fix q
      assume q: "b'" "q \<in> set rs" "role' = min_role q" "(spec, level_of role) < rank q"
        "\<forall>x\<in>set rs. rank x \<le> rank q"
      then have "rank r \<le> rank q" using le by (meson order.strict_implies_order order.trans)
      then show ?thesis using q by auto
    qed
  qed
qed simp

text \<open>The role a method needs: none matching, the strictest role; otherwise a matching rule of
  greatest rank.\<close>

lemma resolve_cases:
  assumes "acl_wf acl"
  shows "(matching acl (normalize_method m) = [] \<and> resolve_min_role acl m = role_admin)
       \<or> (\<exists>r\<in>set (matching acl (normalize_method m)). resolve_min_role acl m = min_role r \<and>
            (\<forall>q\<in>set (matching acl (normalize_method m)). rank q \<le> rank r))"
proof -
  let ?n = "normalize_method m" and ?ms = "matching acl (normalize_method m)"
  obtain role b where br: "best_rule ?n (-1) role_admin False ?ms = (role, b)" by fastforce
  have all: "\<forall>r\<in>set ?ms. wildcard_match (pattern r) ?n" by (simp add: matching_def)
  have res: "resolve_min_role acl m = (if b then role else role_admin)"
    by (simp add: resolve_min_role_def best_rule_matching[of _ _ _ _ acl] br)
  show ?thesis
  proof (cases "?ms")
    case Nil
    with br res show ?thesis by auto
  next
    case (Cons r rs)
    then have "r \<in> set acl" by (auto simp: matching_def filter_eq_Cons_iff)
    with assms have "r = new_rule (pattern r) (min_role r)" by (simp add: acl_wf_def)
    then have "0 \<le> specificity r" by (metis specificity_nonneg)
    then have "\<not> rank r \<le> (-1, level_of role_admin)" by (simp add: rank_def)
    moreover have "r \<in> set ?ms" using Cons by simp
    ultimately show ?thesis
      using best_rule_max[OF all br] res by auto
  qed
qed

lemma resolve_unique_best:
  assumes "acl_wf acl" and "r \<in> set acl" and "wildcard_match (pattern r) (normalize_method m)"
    and "\<And>q. q \<in> set acl \<Longrightarrow> wildcard_match (pattern q) (normalize_method m) \<Longrightarrow> q \<noteq> r \<Longrightarrow>
           specificity q < specificity r"
  shows "resolve_min_role acl m = min_role r"
proof -
  have r: "r \<in> set (matching acl (normalize_method m))" using assms(2,3) by (simp add: matching_def)
  then obtain x where x: "x \<in> set (matching acl (normalize_method m))"
      "resolve_min_role acl m = min_role x" "rank r \<le> rank x"
    using resolve_cases[OF assms(1), of m] by auto
  have "x = r"
  proof (rule ccontr)
    assume "x \<noteq> r"
    then have "specificity x < specificity r"
      using assms(4) x(1) by (simp add: matching_def)
    with x(3) show False by (auto simp: rank_def)
  qed
  with x(2) show ?thesis by simp
qed

lemma star_notin_normalize [simp]: "star \<notin> set m \<Longrightarrow> star \<notin> set (normalize_method m)"
  by (simp add: normalize_method_def default_namespace_def)

lemma runes_no_star_ascii: "\<forall>c\<in>set p. byte c < 128 \<Longrightarrow> ''*'' \<in> set (runes p) \<longleftrightarrow> star \<in> set p"
  by (auto simp: runes_ascii_list)

lemma runes_star_notin: "star \<notin> set p \<Longrightarrow> ''*'' \<notin> set (runes p)"
proof
  assume "star \<notin> set p" and "''*'' \<in> set (runes p)"
  then have "star \<in> set (concat (runes p))" by force
  with \<open>star \<notin> set p\<close> show False by (simp add: concat_runes)
qed

lemma exact_specificity: "star \<notin> set p \<Longrightarrow> specificity (new_rule p r) = 2 ^ 20"
  by (simp add: new_rule_def compute_specificity_eq runes_star_notin)

lemma wildcard_exact_iff: "star \<notin> set p \<Longrightarrow> star \<notin> set s \<Longrightarrow> wildcard_match p s \<longleftrightarrow> s = p"
  by (simp add: wildcard_match_exact glob_exact)

lemma matching_allow_other:
  assumes "\<not> wildcard_match pat n"
  shows "matching (allow pat role acl) n = matching acl n"
  using assms by (induction acl) (auto simp: matching_def allow_def)

lemma resolve_matching_cong:
  "matching acl (normalize_method m) = matching acl' (normalize_method m) \<Longrightarrow>
     resolve_min_role acl m = resolve_min_role acl' m"
  unfolding resolve_min_role_def by (subst (1 2) best_rule_matching) simp

lemma default_acl_eq: "default_acl =
  [new_rule ''*'' role_admin, new_rule ''common:*'' role_guest, new_rule ''guest:*'' role_guest,
   new_rule ''rpc.*'' role_guest, new_rule ''rpc:*'' role_guest, new_rule ''client:*'' role_client,
   new_rule ''admin:*'' role_admin]"
  by (simp add: default_acl_def allow_def)

lemma default_specificity [simp]:
  "specificity (new_rule ''*'' r) = 0" "specificity (new_rule ''common:*'' r) = 7"
  "specificity (new_rule ''guest:*'' r) = 6" "specificity (new_rule ''rpc.*'' r) = 4"
  "specificity (new_rule ''rpc:*'' r) = 4" "specificity (new_rule ''client:*'' r) = 7"
  "specificity (new_rule ''admin:*'' r) = 6"
  by (simp_all add: new_rule_def compute_specificity_eq)

lemma level_of_simps [simp]: "level_of role_guest = 0" "level_of role_client = 1" "level_of role_admin = 2"
  by (simp_all add: level_of_def role_level_def role_guest_def role_client_def role_admin_def)

lemma namespaces_disjoint:
  "prefix ''common:'' n \<Longrightarrow> \<not> prefix ''client:'' n" "prefix ''guest:'' n \<Longrightarrow> \<not> prefix ''client:'' n"
  "prefix ''rpc.'' n \<Longrightarrow> \<not> prefix ''client:'' n" "prefix ''rpc:'' n \<Longrightarrow> \<not> prefix ''client:'' n"
  "prefix ''common:'' n \<Longrightarrow> \<not> prefix ''admin:'' n" "prefix ''guest:'' n \<Longrightarrow> \<not> prefix ''admin:'' n"
  "prefix ''rpc.'' n \<Longrightarrow> \<not> prefix ''admin:'' n" "prefix ''rpc:'' n \<Longrightarrow> \<not> prefix ''admin:'' n"
  "prefix ''client:'' n \<Longrightarrow> \<not> prefix ''admin:'' n"
  by (auto simp: prefix_def)

lemmas role_defs = role_guest_def role_client_def role_admin_def

text \<open>The default rules, on a subject without a star: one prefix test each.\<close>

lemma default_matches:
  assumes "star \<notin> set n"
  shows "wildcard_match ''*'' n" "wildcard_match ''common:*'' n = prefix ''common:'' n"
    "wildcard_match ''guest:*'' n = prefix ''guest:'' n" "wildcard_match ''rpc.*'' n = prefix ''rpc.'' n"
    "wildcard_match ''rpc:*'' n = prefix ''rpc:'' n" "wildcard_match ''client:*'' n = prefix ''client:'' n"
    "wildcard_match ''admin:*'' n = prefix ''admin:'' n"
  using assms wildcard_match_prefix[of n "[]"] wildcard_match_prefix[of n "''common:''"]
    wildcard_match_prefix[of n "''guest:''"] wildcard_match_prefix[of n "''rpc.''"]
    wildcard_match_prefix[of n "''rpc:''"] wildcard_match_prefix[of n "''client:''"]
    wildcard_match_prefix[of n "''admin:''"] by simp_all

lemma resolve_default:
  assumes "star \<notin> set m"
  shows "resolve_min_role default_acl m =
    (let n = normalize_method m in
     if prefix ''common:'' n \<or> prefix ''guest:'' n \<or> prefix ''rpc.'' n \<or> prefix ''rpc:'' n then role_guest
     else if prefix ''client:'' n then role_client else role_admin)"
proof -
  let ?n = "normalize_method m"
  have n: "star \<notin> set ?n" using assms by simp
  show ?thesis
    unfolding resolve_min_role_def default_acl_eq Let_def
    using namespaces_disjoint[of ?n]
    by (simp add: default_matches[OF n])
qed

section \<open>Properties\<close>

text \<open>
  C28: the wildcard matcher decides exactly the declarative meaning of a pattern, for every subject
  that does not itself contain a star; greedy matching with one saved backtrack point loses no match.
\<close>

theorem wildcard_match_is_glob:
  assumes "star \<notin> set s"
  shows "wildcard_match pat s \<longleftrightarrow> glob pat s"
  using assms by (rule wildcard_match_exact)

theorem wildcard_match_is_glob_witness:
  "wildcard_match ''a*bc*d'' ''abbcxd'' \<longleftrightarrow> glob ''a*bc*d'' ''abbcxd''"
  by (rule wildcard_match_is_glob) simp

text \<open>
  on a subject that contains a star the matcher is not the wildcard meaning: a leading star of the
  subject uses up the star of the pattern as a literal, so the pattern "*" matches the subject "*" alone
  and no longer subject that begins with a star, although it means "any string".
\<close>

theorem wildcard_star_subject:
  "(wildcard_match ''*'' (star # s) \<longleftrightarrow> s = []) \<and> glob ''*'' (star # s)"
proof
  have "wildcard_match ''*'' (star # s) = wild_loop [] s None"
    unfolding wildcard_match_def by (subst wild_loop.simps) simp
  also have "\<dots> \<longleftrightarrow> s = []" by (subst wild_loop.simps) simp
  finally show "wildcard_match ''*'' (star # s) \<longleftrightarrow> s = []" .
  show "glob ''*'' (star # s)" by (simp add: glob_star)
qed

text \<open>
  C19: the role a method needs is that of a matching rule of greatest specificity, and among equally
  specific ones of the greatest level; a method no rule matches needs the admin role.
\<close>

theorem resolve_min_role_best:
  assumes "acl_wf acl"
  shows "(matching acl (normalize_method m) = [] \<and> resolve_min_role acl m = role_admin)
       \<or> (\<exists>r\<in>set (matching acl (normalize_method m)). resolve_min_role acl m = min_role r \<and>
            (\<forall>q\<in>set (matching acl (normalize_method m)). specificity q < specificity r \<or>
               specificity q = specificity r \<and> level_of (min_role q) \<le> level_of (min_role r)))"
  using resolve_cases[OF assms, of m] by (fastforce simp: rank_def)

theorem resolve_min_role_best_witness:
  "acl_wf default_acl \<and> resolve_min_role default_acl ''client:report'' = role_client \<and>
   (\<exists>r\<in>set (matching default_acl (normalize_method ''client:report'')).
      resolve_min_role default_acl ''client:report'' = min_role r)"
proof -
  have r: "resolve_min_role default_acl ''client:report'' = role_client"
    by (subst resolve_default) (simp_all add: Let_def normalize_method_def)
  moreover have "role_client \<noteq> role_admin" by (simp add: role_defs)
  ultimately show ?thesis
    using acl_wf_default resolve_min_role_best[OF acl_wf_default, of "''client:report''"] by auto
qed

text \<open>
  a rule declared for one full method name decides that method, whatever wildcard rules are there,
  as long as no wildcard rule has more than a million literal characters.
\<close>

theorem allow_exact_decides:
  assumes "acl_wf acl" and "star \<notin> set m" and "CHR '':'' \<in> set m \<or> has_prefix m ''rpc.''"
    and "\<forall>r\<in>set acl. has_wildcard r \<longrightarrow> specificity r < 2 ^ 20"
  shows "required_role (allow m role acl) m = role"
proof -
  let ?acl = "allow m role acl" and ?r = "new_rule m role"
  have norm: "normalize_method m = m" using assms(3) by (auto simp: normalize_method_def)
  have wf: "acl_wf ?acl" using assms(1) by (rule acl.put_inv)
  have "resolve_min_role ?acl m = min_role ?r"
  proof (rule resolve_unique_best[OF wf])
    show "?r \<in> set ?acl" by (simp add: allow_def in_put_rule)
    show "wildcard_match (pattern ?r) (normalize_method m)"
      using assms(2) by (simp add: norm wildcard_exact_iff)
    fix q
    assume q: "q \<in> set ?acl" "wildcard_match (pattern q) (normalize_method m)" "q \<noteq> ?r"
    then have q': "q \<in> set acl" "pattern q \<noteq> m"
      using assms(1) put_rule_members[of acl q ?r] by (auto simp: allow_def acl_wf_def)
    then have qn: "q = new_rule (pattern q) (min_role q)" using assms(1) by (simp add: acl_wf_def)
    show "specificity q < specificity ?r"
    proof (cases "has_wildcard q")
      case True
      then show ?thesis using assms(2,4) q'(1) by (simp add: exact_specificity)
    next
      case False
      then have ns: "''*'' \<notin> set (runes (pattern q))"
        by (subst (asm) qn) (auto simp: new_rule_def compute_specificity_eq split: if_splits)
      have "star \<notin> set (pattern q)"
        using ns ascii_in_runes[of star] by auto
      then have "m = pattern q" using q(2) assms(2) by (simp add: norm wildcard_exact_iff)
      with q'(2) show ?thesis by simp
    qed
  qed
  then show ?thesis by (simp add: required_role_def)
qed

theorem allow_exact_decides_witness:
  "required_role (allow ''client:stats'' role_guest default_acl) ''client:stats'' = role_guest"
proof (rule allow_exact_decides[OF acl_wf_default])
  show "\<forall>r\<in>set default_acl. has_wildcard r \<longrightarrow> specificity r < 2 ^ 20"
    by (simp add: default_acl_eq new_rule_def compute_specificity_eq)
qed simp_all

lemma check_principal_role:
  "roles q = [r] \<Longrightarrow> check_principal acl (Some q) m \<longleftrightarrow>
     resolve_min_role acl m = role_guest \<or> resolve_min_role acl m = r"
  by (auto simp: check_principal_def has_role_def Let_def)

lemma check_principal_nil:
  "check_principal acl None m \<longleftrightarrow> resolve_min_role acl m = role_guest"
  by (simp add: check_principal_def has_role_def new_anonymous_principal_def Let_def)

lemma roles_distinct [simp]: "role_client \<noteq> role_guest" "role_admin \<noteq> role_guest" "role_client \<noteq> role_admin"
  by (simp_all add: role_defs)

lemmas role_neqs [simp] = roles_distinct[symmetric]

lemma new_principal_roles [simp]:
  "roles (new_agent_principal u) = [role_client]" "roles (new_user_principal u) = [role_admin]"
  "roles new_api_key_principal = [role_admin]" "roles new_anonymous_principal = [role_guest]"
  by (simp_all add: new_agent_principal_def new_user_principal_def new_api_key_principal_def
      new_anonymous_principal_def)

text \<open>
  under the built-in rules the callers are orthogonal: on every method of the namespace
  \<^verbatim>\<open>client:\<close> an agent passes and an administrator (user or API key) does not, on every method of
  \<^verbatim>\<open>admin:\<close> it is the other way round, and an anonymous caller passes neither.
\<close>

theorem callers_orthogonal:
  assumes "star \<notin> set m"
  shows "(prefix ''client:'' m \<longrightarrow>
           check_principal default_acl (Some (new_agent_principal u)) m \<and>
           \<not> check_principal default_acl (Some (new_user_principal v)) m \<and>
           \<not> check_principal default_acl (Some new_api_key_principal) m \<and>
           \<not> check_principal default_acl None m) \<and>
         (prefix ''admin:'' m \<longrightarrow>
           \<not> check_principal default_acl (Some (new_agent_principal u)) m \<and>
           check_principal default_acl (Some (new_user_principal v)) m \<and>
           check_principal default_acl (Some new_api_key_principal) m \<and>
           \<not> check_principal default_acl None m)"
proof (rule conjI)
  have norm: "normalize_method m = m" if "prefix (ns @ '':'') m" for ns
    using that by (auto simp: normalize_method_def prefix_def)
  note nc = norm[of "''client''", simplified] and na = norm[of "''admin''", simplified]
  note dis = namespaces_disjoint[of m]
  show "prefix ''client:'' m \<longrightarrow>
           check_principal default_acl (Some (new_agent_principal u)) m \<and>
           \<not> check_principal default_acl (Some (new_user_principal v)) m \<and>
           \<not> check_principal default_acl (Some new_api_key_principal) m \<and>
           \<not> check_principal default_acl None m"
    using dis nc by (auto simp: check_principal_role[where r = role_client]
        check_principal_role[where r = role_admin] check_principal_nil resolve_default[OF assms] Let_def)
  show "prefix ''admin:'' m \<longrightarrow>
           \<not> check_principal default_acl (Some (new_agent_principal u)) m \<and>
           check_principal default_acl (Some (new_user_principal v)) m \<and>
           check_principal default_acl (Some new_api_key_principal) m \<and>
           \<not> check_principal default_acl None m"
    using dis na by (auto simp: check_principal_role[where r = role_client]
        check_principal_role[where r = role_admin] check_principal_nil resolve_default[OF assms] Let_def)
qed

theorem callers_orthogonal_witness:
  "check_principal default_acl (Some (new_agent_principal ''a'')) ''client:reportBasicInfo'' \<and>
   \<not> check_principal default_acl (Some (new_user_principal ''u'')) ''client:reportBasicInfo'' \<and>
   check_principal default_acl (Some (new_user_principal ''u'')) ''admin:exec''"
  using callers_orthogonal[of "''client:reportBasicInfo''" "''a''" "''u''"]
    callers_orthogonal[of "''admin:exec''" "''a''" "''u''"] by simp

text \<open>
  declaring a rule whose pattern does not match a method changes nothing for that method, whoever
  the caller is; so a plugin's rule for its own namespace cannot open or close another one.
\<close>

theorem allow_other_method_unchanged:
  assumes "\<not> wildcard_match pat (normalize_method m)"
  shows "check_principal (allow pat role acl) p m = check_principal acl p m"
  using resolve_matching_cong[OF matching_allow_other[OF assms]]
  by (simp add: check_principal_def)

theorem allow_other_method_unchanged_witness:
  "check_principal (allow ''plug:*'' role_guest default_acl) None ''admin:exec''
     = check_principal default_acl None ''admin:exec''"
proof (rule allow_other_method_unchanged)
  show "\<not> wildcard_match ''plug:*'' (normalize_method ''admin:exec'')"
    using wildcard_match_prefix[of "''admin:exec''" "''plug:''"]
    by (simp add: normalize_method_def)
qed

end
