(* ===== verification/Rpc_Registry.thy ===== *)
theory Rpc_Registry
  imports Rpc_Acl "HOL-Library.AList" "HOL-Library.List_Lexorder" "HOL-Library.Char_ord"
begin

text \<open>
  The method registry and the dispatch of JSON-RPC calls, \<^verbatim>\<open>pkg/rpc\<close>: \<^verbatim>\<open>registry.go\<close> (handlers),
  \<^verbatim>\<open>meta.go\<close> (help texts), \<^verbatim>\<open>sensitive.go\<close>, \<^verbatim>\<open>internal.go\<close> (the reserved methods \<^verbatim>\<open>rpc.*\<close>),
  \<^verbatim>\<open>request.go\<close> (validation), \<^verbatim>\<open>parse.go\<close>, \<^verbatim>\<open>response.go\<close>, \<^verbatim>\<open>errors.go\<close>, \<^verbatim>\<open>invoke.go\<close>.
  The package's global maps are the fields of \<open>registry\<close>, as association lists with distinct keys; Go's
  iteration order does not show, since every listing is sorted.  A handler is one of the four internal
  ones or an external one of type \<open>'h\<close>, run by the parameter \<open>ext\<close> on a world \<open>'w\<close>.  The JSON decoder
  and the binding of parameters by reflection are parameters too.  A last section models the registry's
  two separate locks as interleaved steps.
\<close>

section \<open>Data\<close>

definition rpc_version :: go_string where "rpc_version = ''2.0''"

record param_meta =
  pm_name :: go_string
  pm_type :: go_string
  pm_required :: bool
  pm_description :: go_string

record method_meta =
  mm_name :: go_string
  mm_summary :: go_string
  mm_description :: go_string
  mm_params :: "param_meta list"
  mm_returns :: go_string
  mm_example :: "go_string option"

text \<open>A value of Go's type \<open>any\<close>: what the package itself produces, or another value.\<close>

datatype 'v anyval = VStr go_string | VStrs "go_string list" | VMeta method_meta | VMetas "method_meta list" | VOther 'v

record 'v rpc_error =
  e_code :: int
  e_message :: go_string
  e_data :: "'v anyval option"

record 'v rpc_request =
  r_version :: go_string
  r_method :: go_string
  r_params :: "'v anyval option"
  r_id :: "'v anyval option"

record 'v rpc_response =
  s_version :: go_string
  s_id :: "'v anyval option"
  s_result :: "'v anyval option"
  s_error :: "'v rpc_error option"

abbreviation parse_error :: int where "parse_error \<equiv> -32700"
abbreviation invalid_request :: int where "invalid_request \<equiv> -32600"
abbreviation method_not_found :: int where "method_not_found \<equiv> -32601"

definition make_error :: "int \<Rightarrow> go_string \<Rightarrow> 'v anyval option \<Rightarrow> 'v rpc_error" where
  "make_error code msg data = \<lparr>e_code = code, e_message = msg, e_data = data\<rparr>"

definition success_response :: "'v anyval option \<Rightarrow> 'v anyval option \<Rightarrow> 'v rpc_response" where
  "success_response i res = \<lparr>s_version = rpc_version, s_id = i, s_result = res, s_error = None\<rparr>"

definition error_response :: "'v anyval option \<Rightarrow> int \<Rightarrow> go_string \<Rightarrow> 'v anyval option \<Rightarrow> 'v rpc_response" where
  "error_response i code msg data =
     \<lparr>s_version = rpc_version, s_id = i, s_result = None, s_error = Some (make_error code msg data)\<rparr>"

definition response_with_id :: "'v rpc_error \<Rightarrow> 'v anyval option \<Rightarrow> 'v rpc_response" where
  "response_with_id e i = \<lparr>s_version = rpc_version, s_id = i, s_result = None, s_error = Some e\<rparr>"

definition new_request :: "'v anyval option \<Rightarrow> go_string \<Rightarrow> 'v anyval option \<Rightarrow> 'v rpc_request" where
  "new_request i meth params = \<lparr>r_version = rpc_version, r_method = meth, r_params = params, r_id = i\<rparr>"

definition new_notification :: "go_string \<Rightarrow> 'v anyval option \<Rightarrow> 'v rpc_request" where
  "new_notification meth params =
     \<lparr>r_version = rpc_version, r_method = meth, r_params = params, r_id = None\<rparr>"

definition has_id :: "'v rpc_request option \<Rightarrow> bool" where
  "has_id r = (case r of None \<Rightarrow> False | Some q \<Rightarrow> r_id q \<noteq> None)"

definition validate :: "'v rpc_request option \<Rightarrow> 'v rpc_error option" where
  "validate r = (case r of
       None \<Rightarrow> Some (make_error invalid_request ''invalid request: null'' None)
     | Some q \<Rightarrow>
         if r_version q \<noteq> rpc_version then Some (make_error invalid_request ''invalid jsonrpc version'' None)
         else if trim_space (r_method q) = [] then Some (make_error invalid_request ''method required'' None)
         else None)"

section \<open>The registry\<close>

datatype internal = RpcMethods | RpcVersion | RpcPing | RpcHelp

datatype 'h handler = Internal internal | External 'h

record 'h registry =
  handlers :: "(go_string \<times> 'h handler) list"
  metas :: "(go_string \<times> method_meta) list"
  sensitive :: "(go_string \<times> bool) list"

definition empty_registry :: "'h registry" where
  "empty_registry = \<lparr>handlers = [], metas = [], sensitive = []\<rparr>"

datatype register_error = MethodEmpty | PrefixReserved | AlreadyRegistered go_string

definition name_only :: "go_string \<Rightarrow> method_meta" where
  "name_only n = \<lparr>mm_name = n, mm_summary = [], mm_description = [], mm_params = [], mm_returns = [],
     mm_example = None\<rparr>"

definition get_meta :: "'h registry \<Rightarrow> go_string \<Rightarrow> method_meta option" where
  "get_meta st n = map_of (metas st) n"

definition ensure_meta :: "go_string \<Rightarrow> 'h registry \<Rightarrow> 'h registry" where
  "ensure_meta n st =
     (if n = [] then st
      else if map_of (metas st) n = None then st\<lparr>metas := AList.update n (name_only n) (metas st)\<rparr>
      else st)"

definition register_meta :: "go_string \<Rightarrow> method_meta option \<Rightarrow> 'h registry \<Rightarrow> 'h registry" where
  "register_meta n meta st = (case meta of None \<Rightarrow> st
     | Some m \<Rightarrow>
         if n = [] then st
         else let m' = (if mm_name m = [] then m\<lparr>mm_name := n\<rparr> else m)
              in st\<lparr>metas := AList.update n m' (metas st)\<rparr>)"

definition register :: "go_string \<Rightarrow> 'h handler \<Rightarrow> 'h registry \<Rightarrow> register_error + 'h registry" where
  "register meth h st =
     (let m = trim_space meth in
      if m = [] then Inl MethodEmpty
      else if has_prefix m ''rpc.'' then Inl PrefixReserved
      else if map_of (handlers st) m \<noteq> None then Inl (AlreadyRegistered m)
      else Inr (ensure_meta m (st\<lparr>handlers := AList.update m h (handlers st)\<rparr>)))"

definition register_with_meta ::
  "go_string \<Rightarrow> 'h handler \<Rightarrow> method_meta option \<Rightarrow> 'h registry \<Rightarrow> register_error + 'h registry" where
  "register_with_meta meth h meta st =
     (case register meth h st of Inl e \<Rightarrow> Inl e
      | Inr st' \<Rightarrow> Inr (if meta \<noteq> None then register_meta meth meta st' else ensure_meta meth st'))"

definition unregister :: "go_string \<Rightarrow> 'h registry \<Rightarrow> bool \<times> 'h registry" where
  "unregister meth st =
     (let m = trim_space meth in
      if m = [] \<or> has_prefix m ''rpc.'' then (False, st)
      else if map_of (handlers st) m \<noteq> None
      then (True, st\<lparr>handlers := AList.delete m (handlers st), metas := AList.delete m (metas st)\<rparr>)
      else (False, st))"

definition list_methods_raw :: "'h registry \<Rightarrow> go_string list" where
  "list_methods_raw st = map fst (handlers st)"

definition list_methods :: "bool \<Rightarrow> 'h registry \<Rightarrow> go_string list" where
  "list_methods include_internal st =
     sort (filter (\<lambda>m. include_internal \<or> \<not> has_prefix m ''rpc.'') (list_methods_raw st))"

definition list_metas :: "bool \<Rightarrow> 'h registry \<Rightarrow> method_meta list" where
  "list_metas include_internal st =
     sort_key mm_name
       (map (\<lambda>n. case get_meta st n of
                Some m \<Rightarrow> (name_only (mm_name m))\<lparr>mm_summary := mm_summary m\<rparr>
              | None \<Rightarrow> name_only n)
         (filter (\<lambda>n. include_internal \<or> \<not> has_prefix n ''rpc.'') (map fst (handlers st))))"

definition mark_sensitive :: "go_string \<Rightarrow> 'h registry \<Rightarrow> 'h registry" where
  "mark_sensitive meth st = st\<lparr>sensitive := AList.update meth True (sensitive st)\<rparr>"

definition is_sensitive :: "'h registry \<Rightarrow> go_string \<Rightarrow> bool" where
  "is_sensitive st meth = (case map_of (sensitive st) meth of Some b \<Rightarrow> b | None \<Rightarrow> False)"

definition register_internal :: "go_string \<Rightarrow> 'h handler \<Rightarrow> 'h registry \<Rightarrow> 'h registry" where
  "register_internal meth h st =
     (let m = (if \<not> has_prefix meth ''rpc.'' then ''rpc.'' @ meth else meth)
      in if map_of (handlers st) m = None then st\<lparr>handlers := AList.update m h (handlers st)\<rparr> else st)"

definition internal_meta :: "go_string \<Rightarrow> go_string \<Rightarrow> go_string \<Rightarrow> param_meta list \<Rightarrow> go_string \<Rightarrow> method_meta" where
  "internal_meta n summary desc ps ret =
     \<lparr>mm_name = n, mm_summary = summary, mm_description = desc, mm_params = ps, mm_returns = ret,
      mm_example = None\<rparr>"

definition init_registry :: "'h registry" where
  "init_registry =
    (register_meta ''rpc.help'' (Some (internal_meta ''rpc.help'' ''Get method help''
        ''Returns detailed metadata for the specified method if given.''
        [\<lparr>pm_name = ''method'', pm_type = ''string'', pm_required = False,
          pm_description = ''Target method name (mutually exclusive with list)''\<rparr>] ''MethodMeta''))
    (register_meta ''rpc.ping'' (Some (internal_meta ''rpc.ping'' ''Health check, returns pong'' [] [] ''string''))
    (register_meta ''rpc.version'' (Some (internal_meta ''rpc.version'' ''Return the RPC version'' [] [] ''string''))
    (register_meta ''rpc.methods'' (Some (internal_meta ''rpc.methods'' ''List methods''
        ''Return the list of currently callable methods. By default, internal methods are not included. Pass internal=true to include them.''
        [\<lparr>pm_name = ''internal'', pm_type = ''bool'', pm_required = False,
          pm_description = ''Whether to include internal rpc.* methods''\<rparr>] ''[]string''))
    (register_internal ''rpc.help'' (Internal RpcHelp)
    (register_internal ''rpc.ping'' (Internal RpcPing)
    (register_internal ''rpc.version'' (Internal RpcVersion)
    (register_internal ''rpc.methods'' (Internal RpcMethods) empty_registry))))))))"

section \<open>Dispatch\<close>

text \<open>
  The parameters that the internal methods read are bound by \<^verbatim>\<open>BindParams\<close> (reflection over JSON);
  \<open>bind\<close> gives the flag \<^verbatim>\<open>internal\<close> and the name \<^verbatim>\<open>method\<close> it finds in a request.
\<close>

definition run_internal ::
  "('v rpc_request \<Rightarrow> bool \<times> go_string) \<Rightarrow> 'h registry \<Rightarrow> internal \<Rightarrow> 'v rpc_request
     \<Rightarrow> 'v anyval option \<times> 'v rpc_error option" where
  "run_internal bind st i req = (case i of
       RpcMethods \<Rightarrow> (Some (VStrs (list_methods (fst (bind req)) st)), None)
     | RpcVersion \<Rightarrow> (Some (VStr rpc_version), None)
     | RpcPing \<Rightarrow> (Some (VStr ''pong''), None)
     | RpcHelp \<Rightarrow>
         if snd (bind req) \<noteq> [] then
           (case get_meta st (snd (bind req)) of
              None \<Rightarrow> (None, Some (make_error invalid_request ''method not found'' None))
            | Some m \<Rightarrow> (Some (VMeta m), None))
         else (Some (VMetas (list_metas True st)), None))"

type_synonym ('h, 'v, 'w) ext_run =
  "'h \<Rightarrow> 'v rpc_request \<Rightarrow> 'w \<Rightarrow> ('v anyval option \<times> 'v rpc_error option) \<times> 'w"

definition run_handler ::
  "('h, 'v, 'w) ext_run \<Rightarrow> ('v rpc_request \<Rightarrow> bool \<times> go_string) \<Rightarrow> 'h registry \<Rightarrow> 'h handler
     \<Rightarrow> 'v rpc_request \<Rightarrow> 'w \<Rightarrow> ('v anyval option \<times> 'v rpc_error option) \<times> 'w" where
  "run_handler ext bind st h req w = (case h of
       Internal i \<Rightarrow> (run_internal bind st i req, w)
     | External x \<Rightarrow> ext x req w)"

definition invoke ::
  "('h, 'v, 'w) ext_run \<Rightarrow> ('v rpc_request \<Rightarrow> bool \<times> go_string) \<Rightarrow> 'h registry
     \<Rightarrow> go_string \<Rightarrow> 'v anyval option \<Rightarrow> 'w \<Rightarrow> ('v anyval option \<times> 'v rpc_error option) \<times> 'w" where
  "invoke ext bind st meth params w =
     (let req = new_notification meth params in
      case validate (Some req) of Some e \<Rightarrow> ((None, Some e), w)
      | None \<Rightarrow> (case map_of (handlers st) meth of
            None \<Rightarrow> ((None, Some (make_error method_not_found ''method not found'' (Some (VStr meth)))), w)
          | Some h \<Rightarrow> run_handler ext bind st h req w))"

definition call ::
  "('h, 'v, 'w) ext_run \<Rightarrow> ('v rpc_request \<Rightarrow> bool \<times> go_string) \<Rightarrow> 'h registry
     \<Rightarrow> 'v anyval option \<Rightarrow> go_string \<Rightarrow> 'v anyval option \<Rightarrow> 'w \<Rightarrow> 'v rpc_response \<times> 'w" where
  "call ext bind st i meth params w =
     (let req = new_request i meth params in
      case validate (Some req) of Some e \<Rightarrow> (error_response i (e_code e) (e_message e) (e_data e), w)
      | None \<Rightarrow> (case map_of (handlers st) meth of
            None \<Rightarrow> (error_response i method_not_found ''method not found'' (Some (VStr meth)), w)
          | Some h \<Rightarrow> (case run_handler ext bind st h req w of
                ((res, Some e), w') \<Rightarrow> (error_response i (e_code e) (e_message e) (e_data e), w')
              | ((res, None), w') \<Rightarrow> (success_response i res, w'))))"

section \<open>Parsing\<close>

fun validate_all :: "'v rpc_request list \<Rightarrow> 'v rpc_error + 'v rpc_request list" where
  "validate_all [] = Inr []"
| "validate_all (r # rs) = (case validate (Some r) of Some e \<Rightarrow> Inl e
     | None \<Rightarrow> (case validate_all rs of Inl e \<Rightarrow> Inl e | Inr qs \<Rightarrow> Inr (r # qs)))"

text \<open>\<open>dec\<close> and \<open>dec_list\<close> are \<^verbatim>\<open>json.Unmarshal\<close> into a request and into a list of requests, with the
  error text on the left.\<close>

definition parse_requests ::
  "(go_string \<Rightarrow> go_string + 'v rpc_request) \<Rightarrow> (go_string \<Rightarrow> go_string + 'v rpc_request list)
     \<Rightarrow> go_string \<Rightarrow> 'v rpc_error + 'v rpc_request list" where
  "parse_requests dec dec_list body =
     (let data = trim_space body in
      case data of [] \<Rightarrow> Inl (make_error parse_error ''empty body'' None)
      | first # _ \<Rightarrow>
        if first = CHR ''{'' then
          (case dec data of Inl e \<Rightarrow> Inl (make_error parse_error ''invalid json'' (Some (VStr e)))
           | Inr r \<Rightarrow> (case validate (Some r) of Some e \<Rightarrow> Inl e | None \<Rightarrow> Inr [r]))
        else if first = CHR ''['' then
          (case dec_list data of Inl e \<Rightarrow> Inl (make_error parse_error ''invalid json'' (Some (VStr e)))
           | Inr arr \<Rightarrow> if arr = [] then Inl (make_error invalid_request ''empty batch'' None)
                       else validate_all arr)
        else Inl (make_error parse_error ''invalid json: not object/array'' None))"

definition parse_request ::
  "(go_string \<Rightarrow> go_string + 'v rpc_request) \<Rightarrow> (go_string \<Rightarrow> go_string + 'v rpc_request list)
     \<Rightarrow> go_string \<Rightarrow> 'v rpc_error + 'v rpc_request" where
  "parse_request dec dec_list body = (case parse_requests dec dec_list body of Inl e \<Rightarrow> Inl e
     | Inr [] \<Rightarrow> Inl (make_error invalid_request ''no requests found'' None)
     | Inr (r # _) \<Rightarrow> Inr r)"

section \<open>Invariant and lemmas\<close>

definition reserved :: "go_string \<Rightarrow> bool" where
  "reserved n \<longleftrightarrow> has_prefix n ''rpc.''"

definition external_name :: "go_string \<Rightarrow> bool" where
  "external_name n \<longleftrightarrow> n \<noteq> [] \<and> trim_space n = n \<and> \<not> reserved n"

definition has_key :: "('k \<times> 'v) list \<Rightarrow> 'k \<Rightarrow> bool" where
  "has_key al k \<longleftrightarrow> map_of al k \<noteq> None"

definition registry_wf :: "'h registry \<Rightarrow> bool" where
  "registry_wf st \<longleftrightarrow> distinct (map fst (handlers st)) \<and> distinct (map fst (metas st)) \<and>
     (\<forall>n. has_key (handlers st) n \<longrightarrow> reserved n \<or> external_name n) \<and>
     (\<forall>n. has_key (handlers st) n \<longrightarrow> has_key (metas st) n)"

lemma map_of_alist_delete [simp]:
  "map_of (AList.delete k al) j = (if j = k then None else map_of al j)"
  by (simp add: delete_conv')

lemma map_of_alist_update [simp]:
  "map_of (AList.update k v al) j = (if j = k then Some v else map_of al j)"
  by (simp add: update_conv')

interpretation handler_table: erasable_store "\<lambda>al. distinct (map fst al)" AList.update map_of AList.delete
  by unfold_locales (simp_all add: distinct_update distinct_delete)

lemma ensure_meta_sel [simp]: "handlers (ensure_meta n st) = handlers st" "sensitive (ensure_meta n st) = sensitive st"
  by (simp_all add: ensure_meta_def)

lemma register_meta_sel [simp]:
  "handlers (register_meta n m st) = handlers st" "sensitive (register_meta n m st) = sensitive st"
  by (simp_all add: register_meta_def Let_def split: option.split)

lemma metas_ensure:
  "map_of (metas (ensure_meta n st)) j =
     (if j = n \<and> n \<noteq> [] \<and> map_of (metas st) n = None then Some (name_only n) else map_of (metas st) j)"
  by (auto simp: ensure_meta_def)

lemma metas_register:
  "map_of (metas (register_meta n m st)) j =
     (case m of Some x \<Rightarrow> if j = n \<and> n \<noteq> [] then Some (if mm_name x = [] then x\<lparr>mm_name := n\<rparr> else x)
                          else map_of (metas st) j
      | None \<Rightarrow> map_of (metas st) j)"
  by (auto simp: register_meta_def Let_def split: option.split)

lemma distinct_metas:
  "distinct (map fst (metas st)) \<Longrightarrow> distinct (map fst (metas (ensure_meta n st)))"
  "distinct (map fst (metas st)) \<Longrightarrow> distinct (map fst (metas (register_meta n m st)))"
  by (auto simp: ensure_meta_def register_meta_def Let_def handler_table.put_inv split: option.split)

lemma has_key_simps [simp]:
  "has_key (AList.update k v al) j \<longleftrightarrow> j = k \<or> has_key al j"
  "has_key (AList.delete k al) j \<longleftrightarrow> j \<noteq> k \<and> has_key al j"
  by (auto simp: has_key_def simp del: not_None_eq)

lemma has_key_metas [simp]:
  "has_key (metas (ensure_meta n st)) j \<longleftrightarrow> j = n \<and> n \<noteq> [] \<or> has_key (metas st) j"
  "has_key (metas (register_meta n m st)) j \<longleftrightarrow> j = n \<and> n \<noteq> [] \<and> m \<noteq> None \<or> has_key (metas st) j"
  by (auto simp: has_key_def metas_ensure metas_register simp del: not_None_eq split: option.split)

lemma ensure_meta_wf [inv_intros]: "registry_wf st \<Longrightarrow> registry_wf (ensure_meta n st)"
  by (auto simp: registry_wf_def distinct_metas)

lemma register_meta_wf [inv_intros]: "registry_wf st \<Longrightarrow> registry_wf (register_meta n m st)"
  by (auto simp: registry_wf_def distinct_metas)

lemma register_Inr:
  "register meth h st = Inr st' \<longleftrightarrow>
     (external_name (trim_space meth) \<and> map_of (handlers st) (trim_space meth) = None \<and>
      st' = ensure_meta (trim_space meth) (st\<lparr>handlers := AList.update (trim_space meth) h (handlers st)\<rparr>))"
  by (auto simp: register_def Let_def external_name_def reserved_def)

lemma register_wf [inv_intros]: "registry_wf st \<Longrightarrow> register meth h st = Inr st' \<Longrightarrow> registry_wf st'"
  by (auto simp: register_Inr registry_wf_def distinct_metas handler_table.put_inv external_name_def)

lemma unregister_wf [inv_intros]: "registry_wf st \<Longrightarrow> registry_wf (snd (unregister meth st))"
  by (auto simp: unregister_def Let_def registry_wf_def handler_table.del_inv split: if_splits)

lemma mark_sensitive_wf [inv_intros]: "registry_wf st \<Longrightarrow> registry_wf (mark_sensitive m st)"
  by (simp add: mark_sensitive_def registry_wf_def)

text \<open>The public operations as commands, and runs of them; a failing \<open>register\<close> leaves the state.\<close>

datatype 'h reg_op = ORegister go_string 'h | ORegisterWithMeta go_string 'h "method_meta option"
  | ORegisterMeta go_string "method_meta option" | OUnregister go_string | OMarkSensitive go_string

fun reg_step :: "'h reg_op \<Rightarrow> 'h registry \<Rightarrow> 'h registry" where
  "reg_step (ORegister m h) st = (case register m (External h) st of Inl _ \<Rightarrow> st | Inr st' \<Rightarrow> st')"
| "reg_step (ORegisterWithMeta m h x) st =
     (case register_with_meta m (External h) x st of Inl _ \<Rightarrow> st | Inr st' \<Rightarrow> st')"
| "reg_step (ORegisterMeta m x) st = register_meta m x st"
| "reg_step (OUnregister m) st = snd (unregister m st)"
| "reg_step (OMarkSensitive m) st = mark_sensitive m st"

abbreviation reg_run :: "'h reg_op list \<Rightarrow> 'h registry" where
  "reg_run ops \<equiv> fold reg_step ops init_registry"

lemma init_registry_wf: "registry_wf init_registry"
  by (simp add: init_registry_def register_internal_def register_meta_def empty_registry_def
      internal_meta_def registry_wf_def reserved_def has_key_def Let_def)

lemma reg_step_wf [inv_intros]: "registry_wf st \<Longrightarrow> registry_wf (reg_step op st)"
  by (cases op) (auto simp: register_with_meta_def intro: inv_intros split: sum.splits if_splits)

lemma fold_invariant: "P s \<Longrightarrow> (\<And>x s. P s \<Longrightarrow> P (f x s)) \<Longrightarrow> P (fold f xs s)"
  by (induction xs arbitrary: s) auto

lemma reg_run_wf: "registry_wf (reg_run ops)"
  by (rule fold_invariant) (auto intro: init_registry_wf inv_intros)

lemma reg_step_reserved: "reserved n \<Longrightarrow> map_of (handlers (reg_step op st)) n = map_of (handlers st) n"
  by (cases op)
    (auto simp: register_with_meta_def register_Inr external_name_def reserved_def unregister_def
      mark_sensitive_def Let_def split: sum.splits)

lemma reg_run_reserved: "reserved n \<Longrightarrow> map_of (handlers (reg_run ops)) n = map_of (handlers init_registry) n"
  by (rule fold_invariant[where P = "\<lambda>s. map_of (handlers s) n = map_of (handlers init_registry) n"])
    (simp_all add: reg_step_reserved)

lemma handlers_init:
  "handlers init_registry = [(''rpc.methods'', Internal RpcMethods), (''rpc.version'', Internal RpcVersion),
     (''rpc.ping'', Internal RpcPing), (''rpc.help'', Internal RpcHelp)]"
  by (simp add: init_registry_def register_internal_def empty_registry_def Let_def)

lemma trim_space_ascii:
  assumes "s \<noteq> []" and "\<forall>c\<in>set s. byte c < 128 \<and> \<not> ascii_space (byte c)"
  shows "trim_space s = s"
proof -
  have no: "space_len t = 0" if "t \<noteq> []" "set t \<subseteq> set s" for t
  proof -
    have "byte_at t 0 < 128 \<and> \<not> ascii_space (byte_at t 0)"
      using that assms(2) by (cases t) (auto simp: byte_at_def)
    then show ?thesis
      by (auto simp: space_len_def space_len3_def space2_def space3_def)
  qed
  have "space_len (take 1 (rev s)) = 0" "space_len (rev (take 2 (rev s))) = 0" "space_len (rev (take 3 (rev s))) = 0"
    using assms(1) set_take_subset[of 2 "rev s"] set_take_subset[of 3 "rev s"]
    by (auto intro!: no dest: in_set_takeD)
  then have "space_len_rev (rev s) = 0" by (simp add: space_len_rev_def)
  then show ?thesis
    by (simp add: trim_space_def trim_left_space_id[OF no] assms(1) trim_right_rev_id)
qed

section \<open>Properties\<close>

text \<open>
  whatever is registered, described and unregistered, every method that \<^verbatim>\<open>rpc.methods\<close> lists has
  help: \<^verbatim>\<open>rpc.help\<close> returns a description of it and no error.
\<close>

theorem listed_methods_have_help:
  assumes "n \<in> set (list_methods True (reg_run ops))" and "bind req = (b, n)" and "n \<noteq> []"
  shows "\<exists>m. run_internal bind (reg_run ops) RpcHelp req = (Some (VMeta m), None)"
proof -
  have "n \<in> fst ` set (handlers (reg_run ops))"
    using assms(1) by (auto simp: list_methods_def list_methods_raw_def)
  then have "has_key (handlers (reg_run ops)) n" by (simp add: has_key_def map_of_eq_None_iff)
  then have "has_key (metas (reg_run ops)) n" using reg_run_wf[of ops] by (simp add: registry_wf_def)
  then obtain m where "get_meta (reg_run ops) n = Some m" by (auto simp: has_key_def get_meta_def)
  then show ?thesis using assms(2,3) by (simp add: run_internal_def)
qed

theorem listed_methods_have_help_witness:
  "\<exists>m. run_internal (\<lambda>_. (False, ''a:b'')) (reg_run [ORegister ''a:b'' ()]) RpcHelp
     (new_request None ''rpc.help'' (None :: unit anyval option)) = (Some (VMeta m), None)"
proof (rule listed_methods_have_help[where b = False])
  have "trim_space ''a:b'' = ''a:b''" by (rule trim_space_ascii) (simp_all add: ascii_space_def)
  then show "''a:b'' \<in> set (list_methods True (reg_run [ORegister ''a:b'' ()]))"
    by (simp add: list_methods_def list_methods_raw_def register_def handlers_init Let_def)
qed simp_all

text \<open>
  C25: the reserved methods are out of reach of registration: after any sequence of public operations
  the name \<^verbatim>\<open>rpc.ping\<close> (and each of the four) still runs its internal handler, and nothing else is
  registered under the prefix \<^verbatim>\<open>rpc.\<close>.
\<close>

theorem internal_methods_fixed:
  assumes "has_prefix n ''rpc.''"
  shows "map_of (handlers (reg_run ops)) n = map_of (handlers init_registry) n"
  using assms by (intro reg_run_reserved) (simp add: reserved_def)

theorem internal_methods_fixed_witness:
  "map_of (handlers (reg_run [ORegister ''rpc.ping'' (), OUnregister ''rpc.ping''])) ''rpc.ping''
     = Some (Internal RpcPing)"
  by (subst internal_methods_fixed) (simp_all add: handlers_init)

text \<open>
  registering a free name and then unregistering it is the identity on every handler lookup, the
  second operation reports success, and the name is left without a description.
\<close>

theorem register_unregister_roundtrip:
  assumes "register meth h st = Inr st'"
  shows "fst (unregister meth st') \<and>
         (\<forall>n. map_of (handlers (snd (unregister meth st'))) n = map_of (handlers st) n) \<and>
         get_meta (snd (unregister meth st')) (trim_space meth) = None"
  using assms by (auto simp: register_Inr unregister_def Let_def external_name_def reserved_def get_meta_def)

theorem register_unregister_roundtrip_witness:
  "\<exists>st'. register ''a:b'' (External ()) init_registry = Inr st' \<and> fst (unregister ''a:b'' st')"
proof -
  have t: "trim_space ''a:b'' = ''a:b''" by (rule trim_space_ascii) (simp_all add: ascii_space_def)
  then obtain st' where st': "register ''a:b'' (External ()) init_registry = Inr st'"
    by (simp add: register_def handlers_init Let_def)
  with register_unregister_roundtrip[OF st'] show ?thesis by blast
qed

text \<open>
  every call is answered with a well-formed response: the protocol version, the caller's id, and
  an error exactly when the request is invalid, the method unknown, or the handler failed; the error
  code says which of the first two it was, and then the world is untouched.
\<close>

theorem call_response:
  "\<exists>r w'. call ext bind st i meth params w = (r, w') \<and> s_version r = rpc_version \<and> s_id r = i \<and>
     (if trim_space meth = [] then
        s_error r = Some (make_error invalid_request ''method required'' None) \<and> s_result r = None \<and> w' = w
      else (case map_of (handlers st) meth of
          None \<Rightarrow> s_error r = Some (make_error method_not_found ''method not found'' (Some (VStr meth))) \<and>
                  s_result r = None \<and> w' = w
        | Some h \<Rightarrow>
            (let ((res, err), w2) = run_handler ext bind st h (new_request i meth params) w
             in w' = w2 \<and> s_error r = err \<and> s_result r = (if err = None then res else None))))"
proof -
  show ?thesis
    by (cases "run_handler ext bind st (the (map_of (handlers st) meth)) (new_request i meth params) w")
      (auto simp: call_def validate_def new_request_def error_response_def success_response_def
        make_error_def Let_def split: option.splits prod.splits)
qed

text \<open>
  parsing accepts a body only as a non-empty list of valid requests, and every refusal is a parse
  error or an invalid request; an empty batch is refused.
\<close>

lemma validate_all_Inr: "validate_all rs = Inr qs \<Longrightarrow> qs = rs \<and> (\<forall>r\<in>set rs. validate (Some r) = None)"
  by (induction rs arbitrary: qs) (auto split: option.splits sum.splits)

lemma validate_code: "validate r = Some e \<Longrightarrow> e_code e = invalid_request"
  by (auto simp: validate_def make_error_def split: option.splits if_splits)

lemma validate_all_Inl: "validate_all rs = Inl e \<Longrightarrow> e_code e = invalid_request"
  by (induction rs) (auto simp: validate_code split: option.splits sum.splits)

text \<open>
  C29: parsing a body gives either a list of requests, which is not empty and in which every request is valid, or one of
  two errors: the body is no JSON of the right shape, or a request in it is not valid.
\<close>

theorem parse_requests_result:
  "case parse_requests dec dec_list body of
     Inr rs \<Rightarrow> rs \<noteq> [] \<and> (\<forall>r\<in>set rs. validate (Some r) = None)
   | Inl e \<Rightarrow> e_code e = parse_error \<or> e_code e = invalid_request"
  by (auto simp: parse_requests_def Let_def make_error_def validate_code
      dest: validate_all_Inr validate_all_Inl split: list.splits sum.splits option.splits if_splits)

theorem parse_requests_result_witness:
  "\<exists>rs. parse_requests (\<lambda>d. Inr (new_notification ''rpc.ping'' (None :: unit anyval option))) (\<lambda>d. Inl d) ''{}'' = Inr rs
     \<and> rs \<noteq> [] \<and> (\<forall>r\<in>set rs. validate (Some r) = None)"
proof -
  have t: "trim_space ''rpc.ping'' = ''rpc.ping''" "trim_space ''{}'' = ''{}''"
    by (rule trim_space_ascii; simp add: ascii_space_def)+
  then show ?thesis
    using parse_requests_result[of "\<lambda>d. Inr (new_notification ''rpc.ping'' (None :: unit anyval option))" "\<lambda>d. Inl d" "''{}''"]
    by (simp add: parse_requests_def validate_def new_notification_def)
qed

text \<open>
  a description given together with a name that has outer white space is filed under the untrimmed
  name, although the handler is registered under the trimmed one: help for the method finds only the
  placeholder, and unregistering the method leaves the description behind.
\<close>

theorem register_with_meta_untrimmed:
  assumes "register meth h st = Inr st0" and "trim_space meth \<noteq> meth" and "meth \<noteq> []"
    and "get_meta st (trim_space meth) = None"
  shows "\<exists>st'. register_with_meta meth h (Some x) st = Inr st' \<and>
           map_of (handlers st') (trim_space meth) = Some h \<and>
           get_meta st' (trim_space meth) = Some (name_only (trim_space meth)) \<and>
           get_meta (snd (unregister meth st')) meth \<noteq> None"
proof -
  let ?n = "trim_space meth" and ?st = "register_meta meth (Some x) st0"
  from assms(1) have r: "external_name ?n"
    "st0 = ensure_meta ?n (st\<lparr>handlers := AList.update ?n h (handlers st)\<rparr>)"
    by (simp_all add: register_Inr)
  have "register_with_meta meth h (Some x) st = Inr ?st"
    using assms(1) by (simp add: register_with_meta_def)
  moreover have han: "map_of (handlers ?st) ?n = Some h" using r(2) by simp
  moreover have "get_meta ?st ?n = Some (name_only ?n)"
    using r assms(2,4) by (simp add: get_meta_def metas_register metas_ensure external_name_def)
  moreover have "get_meta (snd (unregister meth ?st)) meth \<noteq> None"
    using r(1) han assms(2,3)
    by (simp add: unregister_def get_meta_def metas_register external_name_def reserved_def Let_def)
  ultimately show ?thesis by blast
qed

lemma trim_space_tail_blank: "trim_space ''a:b '' = ''a:b''"
  by (simp add: trim_space_def trim_left_space.simps trim_right_rev.simps space_len_rev_def
      space_len_def space_len3_def byte_at_def ascii_space_def space2_def space3_def)

theorem register_with_meta_untrimmed_witness:
  "\<exists>st'. register_with_meta ''a:b '' (External ()) (Some (name_only ''x'')) init_registry = Inr st' \<and>
     get_meta st' ''a:b'' = Some (name_only ''a:b'') \<and> get_meta (snd (unregister ''a:b '' st')) ''a:b '' \<noteq> None"
proof -
  obtain st0 where st0: "register ''a:b '' (External ()) init_registry = Inr st0"
    by (simp add: register_def trim_space_tail_blank handlers_init Let_def)
  have "get_meta init_registry ''a:b'' = None"
    by (simp add: get_meta_def init_registry_def register_internal_def register_meta_def empty_registry_def
        internal_meta_def Let_def)
  then show ?thesis
    using register_with_meta_untrimmed[OF st0, of "name_only ''x''"] by (auto simp: trim_space_tail_blank)
qed

section \<open>Interleaving of registration and removal\<close>

text \<open>
  \<^verbatim>\<open>Register\<close> and \<^verbatim>\<open>Unregister\<close> each hold the handler lock and the description lock one after the
  other, so another call can run between the two.  A state carries the second halves still to run.
\<close>

datatype meta_task = EnsureMeta go_string | DropMeta go_string

record 'h conc =
  reg :: "'h registry"
  pending :: "meta_task list"

inductive conc_step :: "'h conc \<Rightarrow> 'h conc \<Rightarrow> bool" where
  register_insert: "\<lbrakk>external_name n; map_of (handlers (reg s)) n = None\<rbrakk> \<Longrightarrow>
     conc_step s \<lparr>reg = (reg s)\<lparr>handlers := AList.update n h (handlers (reg s))\<rparr>,
                  pending = pending s @ [EnsureMeta n]\<rparr>"
| register_meta_half: "pending s = xs @ EnsureMeta n # ys \<Longrightarrow>
     conc_step s \<lparr>reg = ensure_meta n (reg s), pending = xs @ ys\<rparr>"
| unregister_delete: "\<lbrakk>external_name n; map_of (handlers (reg s)) n \<noteq> None\<rbrakk> \<Longrightarrow>
     conc_step s \<lparr>reg = (reg s)\<lparr>handlers := AList.delete n (handlers (reg s))\<rparr>,
                  pending = pending s @ [DropMeta n]\<rparr>"
| unregister_meta_half: "pending s = xs @ DropMeta n # ys \<Longrightarrow>
     conc_step s \<lparr>reg = (reg s)\<lparr>metas := AList.delete n (metas (reg s))\<rparr>, pending = xs @ ys\<rparr>"

inductive conc_reachable :: "'h conc \<Rightarrow> bool" where
  conc_init: "conc_reachable \<lparr>reg = init_registry, pending = []\<rparr>"
| conc_next: "conc_reachable s \<Longrightarrow> conc_step s t \<Longrightarrow> conc_reachable t"

inductive_cases conc_stepE: "conc_step s t"

text \<open>The two halves run back to back are the sequential operations.\<close>

lemma register_two_halves:
  assumes "register meth h (reg s) = Inr st'" and "pending s = []"
  shows "\<exists>m. conc_step s m \<and> conc_step m \<lparr>reg = st', pending = []\<rparr>"
proof -
  let ?n = "trim_space meth"
  let ?m = "\<lparr>reg = (reg s)\<lparr>handlers := AList.update ?n h (handlers (reg s))\<rparr>, pending = [EnsureMeta ?n]\<rparr>"
  from assms(1) have r: "external_name ?n" "map_of (handlers (reg s)) ?n = None"
    "st' = ensure_meta ?n (reg ?m)" by (simp_all add: register_Inr)
  have "conc_step s ?m" using register_insert[OF r(1,2), of h] assms(2) by simp
  moreover have "conc_step ?m \<lparr>reg = st', pending = []\<rparr>"
    using register_meta_half[of ?m "[]" ?n "[]"] r(3) by simp
  ultimately show ?thesis by blast
qed

text \<open>
  the sequential guarantee is lost under concurrency: when a method is registered again between the
  two halves of its removal, a state with nothing left to run is reached in which a registered method
  has no description, so that help for it fails.
\<close>

theorem reregister_race_loses_help:
  assumes "external_name n" and "map_of (handlers (init_registry :: 'h registry)) n = None"
  shows "\<exists>s :: 'h conc. conc_reachable s \<and> pending s = [] \<and> map_of (handlers (reg s)) n \<noteq> None \<and>
           get_meta (reg s) n = None"
proof -
  let ?i = "init_registry :: 'h registry"
  let ?h = "Internal RpcPing :: 'h handler"
  let ?r1 = "?i\<lparr>handlers := AList.update n ?h (handlers ?i)\<rparr>"
  let ?r2 = "ensure_meta n ?r1"
  let ?r3 = "?r2\<lparr>handlers := AList.delete n (handlers ?r2)\<rparr>"
  let ?r4 = "?r3\<lparr>handlers := AList.update n ?h (handlers ?r3)\<rparr>"
  let ?r5 = "ensure_meta n ?r4"
  let ?r6 = "?r5\<lparr>metas := AList.delete n (metas ?r5)\<rparr>"
  have "conc_reachable \<lparr>reg = ?r1, pending = [EnsureMeta n]\<rparr>"
    using conc_next[OF conc_init register_insert, of n ?h] assms by simp
  then have "conc_reachable \<lparr>reg = ?r2, pending = []\<rparr>"
    using conc_next[OF _ register_meta_half, of _ "[]" n "[]"] by fastforce
  then have "conc_reachable \<lparr>reg = ?r3, pending = [DropMeta n]\<rparr>"
    using conc_next[OF _ unregister_delete, of "\<lparr>reg = ?r2, pending = []\<rparr>" n] assms(1) by simp
  then have "conc_reachable \<lparr>reg = ?r4, pending = [DropMeta n, EnsureMeta n]\<rparr>"
    using conc_next[OF _ register_insert, of "\<lparr>reg = ?r3, pending = [DropMeta n]\<rparr>" n ?h] assms(1) by simp
  then have "conc_reachable \<lparr>reg = ?r5, pending = [DropMeta n]\<rparr>"
    using conc_next[OF _ register_meta_half, of "\<lparr>reg = ?r4, pending = [DropMeta n, EnsureMeta n]\<rparr>" "[DropMeta n]" n "[]"]
    by simp
  then have "conc_reachable \<lparr>reg = ?r6, pending = []\<rparr>"
    using conc_next[OF _ unregister_meta_half, of "\<lparr>reg = ?r5, pending = [DropMeta n]\<rparr>" "[]" n "[]"] by simp
  moreover have "map_of (handlers ?r6) n \<noteq> None" and "get_meta ?r6 n = None"
    by (simp_all add: get_meta_def)
  ultimately show ?thesis by fastforce
qed

theorem reregister_race_loses_help_witness:
  "\<exists>s :: unit conc. conc_reachable s \<and> pending s = [] \<and> map_of (handlers (reg s)) ''a:b'' \<noteq> None \<and>
     get_meta (reg s) ''a:b'' = None"
proof (rule reregister_race_loses_help)
  have "trim_space ''a:b'' = ''a:b''" by (rule trim_space_ascii) (simp_all add: ascii_space_def)
  then show "external_name ''a:b''" by (simp add: external_name_def reserved_def)
  show "map_of (handlers (init_registry :: unit registry)) ''a:b'' = None" by (simp add: handlers_init)
qed

end
