(* ===== verification/Scheduler.thy ===== *)
theory Scheduler
  imports Rpc_Registry
begin

text \<open>
  The job scheduler, \<^verbatim>\<open>internal/scheduler/scheduler.go\<close>: the cron expression parser (\<open>parse\<close>,
  \<open>parse_field\<close>, \<open>parse_range\<close>), the search for the next activation (\<open>cron_next\<close>), and the job manager
  with its goroutines.  Go's \<^verbatim>\<open>int\<close> has 64 bits, and the stepping loop of \<^verbatim>\<open>parseField\<close> can overflow:
  \<open>step_loop\<close> wraps around and is a partial function, whose termination is a theorem.  A time is the
  number of nanoseconds since the epoch; the time zone of \<^verbatim>\<open>time.Local\<close> is the parameter \<open>civil\<close>, and
  \<^verbatim>\<open>time.ParseDuration\<close> the parameter \<open>dur\<close>.  The manager's state carries the jobs, the contexts that
  are cancelled, the goroutines of \<^verbatim>\<open>run\<close> and of \<^verbatim>\<open>safeRun\<close>, and a log of the jobs that really ran.
\<close>

section \<open>Parsing cron expressions\<close>

datatype cron_error =
    EmptySpec | BadDuration | NonPositiveDuration | FieldCount nat
  | EmptyPart | InvalidStep go_string | InvalidRange go_string | InvalidStart go_string
  | InvalidEnd go_string | RangeOutOfBounds go_string | InvalidValue go_string | ValueOutOfBounds int
  | InField go_string cron_error

definition parse_range :: "go_string \<Rightarrow> int \<Rightarrow> int \<Rightarrow> cron_error + int \<times> int" where
  "parse_range base mn mx =
     (if base = ''*'' \<or> base = [] then Inr (mn, mx)
      else if CHR ''-'' \<in> set base then
        (case split_on (CHR ''-'') base of
           [a, b] \<Rightarrow>
             (case parse_int64 a of None \<Rightarrow> Inl (InvalidStart a)
              | Some start \<Rightarrow>
                (case parse_int64 b of None \<Rightarrow> Inl (InvalidEnd b)
                 | Some stop \<Rightarrow>
                     if start > stop \<or> start < mn \<or> stop > mx then Inl (RangeOutOfBounds base)
                     else Inr (start, stop)))
         | _ \<Rightarrow> Inl (InvalidRange base))
      else (case parse_int64 base of None \<Rightarrow> Inl (InvalidValue base)
            | Some v \<Rightarrow> if v < mn \<or> v > mx then Inl (ValueOutOfBounds v) else Inr (v, v)))"

definition part_step :: "go_string \<Rightarrow> cron_error + go_string \<times> int" where
  "part_step part =
     (if CHR ''/'' \<in> set part then
        (case split_on (CHR ''/'') part of
           [base, st] \<Rightarrow> (case parse_int64 st of None \<Rightarrow> Inl (InvalidStep st)
               | Some n \<Rightarrow> if n \<le> 0 then Inl (InvalidStep st) else Inr (base, n))
         | _ \<Rightarrow> Inl (InvalidStep part))
      else Inr (part, 1))"

partial_function (option) step_loop :: "int \<Rightarrow> int \<Rightarrow> int \<Rightarrow> int set \<Rightarrow> int set option" where
  "step_loop i stop step vals =
     (if i \<le> stop then step_loop (wrap64 (i + step)) stop step (insert i vals) else Some vals)"

fun parse_parts :: "int \<Rightarrow> int \<Rightarrow> int set \<Rightarrow> go_string list \<Rightarrow> (cron_error + int set) option" where
  "parse_parts mn mx vals [] = Some (Inr vals)"
| "parse_parts mn mx vals (p # ps) =
     (let part = trim_space p in
      if part = [] then Some (Inl EmptyPart)
      else (case part_step part of Inl e \<Rightarrow> Some (Inl e)
        | Inr (base, step) \<Rightarrow>
            (case parse_range base mn mx of Inl e \<Rightarrow> Some (Inl e)
             | Inr (start, stop) \<Rightarrow>
                 (case step_loop start stop step vals of None \<Rightarrow> None
                  | Some vals' \<Rightarrow> parse_parts mn mx vals' ps))))"

definition parse_field :: "go_string \<Rightarrow> int \<Rightarrow> int \<Rightarrow> (cron_error + int set) option" where
  "parse_field field mn mx = parse_parts mn mx {} (split_on (CHR '','') field)"

record cron_schedule =
  cs_seconds :: "int set"
  cs_minutes :: "int set"
  cs_hours :: "int set"
  cs_dom :: "int set"
  cs_months :: "int set"
  cs_dow :: "int set"

datatype schedule = EverySchedule int | CronSchedule cron_schedule

text \<open>One field with its error context, in the order of the source.\<close>

definition with_field :: "go_string \<Rightarrow> (cron_error + int set) option
    \<Rightarrow> (int set \<Rightarrow> (cron_error + schedule) option) \<Rightarrow> (cron_error + schedule) option" where
  "with_field nm r k = (case r of None \<Rightarrow> None | Some (Inl e) \<Rightarrow> Some (Inl (InField nm e)) | Some (Inr v) \<Rightarrow> k v)"

definition parse_fields :: "go_string list \<Rightarrow> (cron_error + schedule) option" where
  "parse_fields fs =
     with_field ''second'' (parse_field (fs ! 0) 0 59) (\<lambda>se.
     with_field ''minute'' (parse_field (fs ! 1) 0 59) (\<lambda>mi.
     with_field ''hour'' (parse_field (fs ! 2) 0 23) (\<lambda>ho.
     with_field ''day-of-month'' (parse_field (fs ! 3) 1 31) (\<lambda>dm.
     with_field ''month'' (parse_field (fs ! 4) 1 12) (\<lambda>mo.
     with_field ''day-of-week'' (parse_field (fs ! 5) 0 7) (\<lambda>dw.
       Some (Inr (CronSchedule \<lparr>cs_seconds = se, cs_minutes = mi, cs_hours = ho, cs_dom = dm, cs_months = mo,
          cs_dow = (if 7 \<in> dw then insert 0 dw - {7} else dw)\<rparr>))))))))"

definition parse :: "(go_string \<Rightarrow> int option) \<Rightarrow> go_string \<Rightarrow> (cron_error + schedule) option" where
  "parse dur spec0 =
     (let spec = trim_space spec0 in
      if spec = [] then Some (Inl EmptySpec)
      else if has_prefix spec ''@every '' then
        (case dur (trim_space (trim_prefix spec ''@every '')) of
           None \<Rightarrow> Some (Inl BadDuration)
         | Some d \<Rightarrow> if d \<le> 0 then Some (Inl NonPositiveDuration) else Some (Inr (EverySchedule d)))
      else
        let fs0 = Prelude.fields spec;
            fs = (if length fs0 = 5 then ''0'' # fs0 else fs0)
        in if length fs \<noteq> 6 then Some (Inl (FieldCount (length fs))) else parse_fields fs)"

section \<open>The next activation\<close>

record civil_time =
  c_second :: int
  c_minute :: int
  c_hour :: int
  c_day :: int
  c_month :: int
  c_weekday :: int

definition cron_match :: "(int \<Rightarrow> civil_time) \<Rightarrow> cron_schedule \<Rightarrow> int \<Rightarrow> bool" where
  "cron_match civil s t =
     (let c = civil t in
      c_second c \<in> cs_seconds s \<and> c_minute c \<in> cs_minutes s \<and> c_hour c \<in> cs_hours s \<and> c_day c \<in> cs_dom s \<and>
      c_month c \<in> cs_months s \<and> c_weekday c \<in> cs_dow s)"

abbreviation nanos :: int where "nanos \<equiv> 1000000000"

definition year_seconds :: int where "year_seconds = 366 * 24 * 3600"

text \<open>The loop runs over whole seconds.\<close>

function next_loop :: "(int \<Rightarrow> bool) \<Rightarrow> int \<Rightarrow> int \<Rightarrow> int option" where
  "next_loop ok n limit =
     (if n < limit then (if ok n then Some n else next_loop ok (n + 1) limit) else None)"
  by pat_completeness auto
termination
  by (relation "measure (\<lambda>(ok, n, limit). nat (limit - n))") auto

declare next_loop.simps [simp del]

definition cron_next :: "(int \<Rightarrow> civil_time) \<Rightarrow> cron_schedule \<Rightarrow> int \<Rightarrow> int option" where
  "cron_next civil s t =
     (let n = t div nanos + 1
      in map_option (\<lambda>x. x * nanos) (next_loop (cron_match civil s) n (n + year_seconds)))"

text \<open>\<open>None\<close> is the zero time.\<close>

definition sched_next :: "(int \<Rightarrow> civil_time) \<Rightarrow> schedule \<Rightarrow> int \<Rightarrow> int option" where
  "sched_next civil s t = (case s of EverySchedule d \<Rightarrow> Some (t + d) | CronSchedule c \<Rightarrow> cron_next civil c t)"

section \<open>The job manager and its goroutines\<close>

datatype phase = Spawned bool | Waiting int

record goroutine =
  g_name :: go_string
  g_sched :: schedule
  g_phase :: phase

record manager =
  jobs :: "(go_string \<times> nat) list"
  cancelled :: "nat set"
  routines :: "(nat \<times> goroutine) list"
  runs :: "(nat \<times> go_string) list"
  executed :: "go_string list"
  fresh :: nat

definition new_manager :: manager where
  "new_manager = \<lparr>jobs = [], cancelled = {}, routines = [], runs = [], executed = [], fresh = 0\<rparr>"

datatype add_error = NameEmpty | SpecInvalid cron_error | FuncNil

definition replace_job :: "go_string \<Rightarrow> nat \<Rightarrow> manager \<Rightarrow> manager" where
  "replace_job name ctx m =
     (let m' = (case map_of (jobs m) name of Some old \<Rightarrow> m\<lparr>cancelled := insert old (cancelled m)\<rparr> | None \<Rightarrow> m)
      in m'\<lparr>jobs := AList.update name ctx (jobs m')\<rparr>)"

definition add_context_func ::
  "(go_string \<Rightarrow> int option) \<Rightarrow> go_string \<Rightarrow> go_string \<Rightarrow> bool \<Rightarrow> bool \<Rightarrow> manager \<Rightarrow> (add_error + manager) option" where
  "add_context_func dur name spec immediately fn_nil m =
     (if name = [] then Some (Inl NameEmpty)
      else case parse dur spec of None \<Rightarrow> None
        | Some (Inl e) \<Rightarrow> Some (Inl (SpecInvalid e))
        | Some (Inr s) \<Rightarrow>
            if fn_nil then Some (Inl FuncNil)
            else let ctx = fresh m; m1 = replace_job name ctx (m\<lparr>fresh := ctx + 1\<rparr>)
                 in Some (Inr (m1\<lparr>routines := (ctx, \<lparr>g_name = name, g_sched = s, g_phase = Spawned immediately\<rparr>) # routines m1\<rparr>)))"

definition remove_job :: "go_string \<Rightarrow> manager \<Rightarrow> manager" where
  "remove_job name m = (case map_of (jobs m) name of None \<Rightarrow> m
     | Some old \<Rightarrow> m\<lparr>cancelled := insert old (cancelled m), jobs := AList.delete name (jobs m)\<rparr>)"

definition remove_jobs_if :: "(go_string \<Rightarrow> bool) \<Rightarrow> manager \<Rightarrow> manager" where
  "remove_jobs_if P m = m\<lparr>cancelled := cancelled m \<union> snd ` set (filter (P \<circ> fst) (jobs m)),
     jobs := filter (\<lambda>j. \<not> P (fst j)) (jobs m)\<rparr>"

definition remove_prefix :: "go_string \<Rightarrow> manager \<Rightarrow> manager" where
  "remove_prefix pre = remove_jobs_if (\<lambda>n. has_prefix n pre)"

definition stop_all :: "manager \<Rightarrow> manager" where
  "stop_all = remove_jobs_if (\<lambda>n. True)"

text \<open>
  A goroutine of \<^verbatim>\<open>run\<close> starts: it may spawn an immediate \<^verbatim>\<open>safeRun\<close>, then computes its first tick from
  the current time and ends when there is none.
\<close>

definition routine_start :: "(int \<Rightarrow> civil_time) \<Rightarrow> nat \<Rightarrow> int \<Rightarrow> manager \<Rightarrow> manager" where
  "routine_start civil ctx now m = (case map_of (routines m) ctx of
       Some g \<Rightarrow> (case g_phase g of
           Spawned imm \<Rightarrow>
             (let m1 = (if imm then m\<lparr>runs := (ctx, g_name g) # runs m\<rparr> else m)
              in case sched_next civil (g_sched g) now of
                   None \<Rightarrow> m1\<lparr>routines := AList.delete ctx (routines m1)\<rparr>
                 | Some t \<Rightarrow> m1\<lparr>routines := AList.update ctx (g\<lparr>g_phase := Waiting t\<rparr>) (routines m1)\<rparr>)
         | Waiting _ \<Rightarrow> m)
     | None \<Rightarrow> m)"

text \<open>The timer branch of the \<^verbatim>\<open>select\<close>, and the branch taken when the context is done.\<close>

definition routine_tick :: "(int \<Rightarrow> civil_time) \<Rightarrow> nat \<Rightarrow> manager \<Rightarrow> manager" where
  "routine_tick civil ctx m = (case map_of (routines m) ctx of
       Some g \<Rightarrow> (case g_phase g of
           Waiting t \<Rightarrow>
             (let m1 = m\<lparr>runs := (ctx, g_name g) # runs m\<rparr>
              in case sched_next civil (g_sched g) t of
                   None \<Rightarrow> m1\<lparr>routines := AList.delete ctx (routines m1)\<rparr>
                 | Some t' \<Rightarrow> m1\<lparr>routines := AList.update ctx (g\<lparr>g_phase := Waiting t'\<rparr>) (routines m1)\<rparr>)
         | Spawned _ \<Rightarrow> m)
     | None \<Rightarrow> m)"

definition routine_done :: "nat \<Rightarrow> manager \<Rightarrow> manager" where
  "routine_done ctx m = (if ctx \<in> cancelled m \<and> (\<exists>g t. map_of (routines m) ctx = Some g \<and> g_phase g = Waiting t)
     then m\<lparr>routines := AList.delete ctx (routines m)\<rparr> else m)"

text \<open>\<^verbatim>\<open>safeRun\<close>: the job's function is called unless its context is done.\<close>

definition safe_run :: "nat \<Rightarrow> go_string \<Rightarrow> manager \<Rightarrow> manager" where
  "safe_run ctx name m =
     (if (ctx, name) \<in> set (runs m) then
        let m1 = m\<lparr>runs := remove1 (ctx, name) (runs m)\<rparr>
        in if ctx \<in> cancelled m1 then m1 else m1\<lparr>executed := name # executed m1\<rparr>
      else m)"

section \<open>The stepping loop\<close>

declare step_loop.simps [code]

lemma step_loop_stop [simp]: "stop < i \<Longrightarrow> step_loop i stop step vals = Some vals"
  by (simp add: step_loop.simps)

lemma step_loop_next: "i \<le> stop \<Longrightarrow> step_loop i stop step vals = step_loop (wrap64 (i + step)) stop step (insert i vals)"
  by (subst step_loop.simps) simp

text \<open>Without overflow the loop collects the arithmetic progression.\<close>

definition progression :: "int \<Rightarrow> int \<Rightarrow> int \<Rightarrow> int set" where
  "progression start stop step = {v. start \<le> v \<and> v \<le> stop \<and> step dvd (v - start)}"

lemma progression_empty: "stop < start \<Longrightarrow> progression start stop step = {}"
  by (auto simp: progression_def)

lemma progression_insert:
  assumes "start \<le> stop" and "0 < step"
  shows "progression start stop step = insert start (progression (start + step) stop step)"
proof -
  have "v = start \<or> start + step \<le> v \<and> step dvd (v - (start + step))"
    if "start \<le> v" "step dvd (v - start)" for v
  proof (cases "v = start")
    case False
    then have "step \<le> v - start" using that by (intro zdvd_imp_le) auto
    moreover have "step dvd (v - start) - step" using that(2) by (rule dvd_diff) simp
    ultimately show ?thesis by (simp add: diff_diff_eq)
  qed simp
  moreover have "step dvd (v - start)" if "step dvd (v - (start + step))" for v
    using dvd_add[OF that dvd_refl[of step]] by (simp add: algebra_simps)
  ultimately show ?thesis using assms by (auto simp: progression_def)
qed

lemma step_loop_progression:
  assumes "0 < step" and "stop + step \<le> int64_max" and "int64_min \<le> start"
  shows "step_loop start stop step vals = Some (vals \<union> progression start stop step)"
  using assms(3)
proof (induction "nat (stop - start + 1)" arbitrary: start vals rule: less_induct)
  case less
  show ?case
  proof (cases "start \<le> stop")
    case True
    have "in_int64 (start + step)"
      using less.prems assms(1,2) True by (simp add: in_int64_def)
    then have "step_loop start stop step vals = step_loop (start + step) stop step (insert start vals)"
      using True by (simp add: step_loop_next wrap64_id)
    also have "\<dots> = Some (insert start vals \<union> progression (start + step) stop step)"
      by (rule less.hyps) (use assms(1) True less.prems in auto)
    finally show ?thesis using progression_insert[OF True assms(1)] by auto
  next
    case False
    then show ?thesis by (simp add: progression_empty)
  qed
qed

text \<open>
  With a step beyond \<open>2 ^ 62\<close> the counter wraps: two rounds of the loop take \<open>2 * k\<close> off it, where \<open>k\<close>
  is the distance of the step from \<open>2 ^ 63\<close>, so the loop ends all the same.
\<close>

lemma wrap64_up: "int64_max < x \<Longrightarrow> x \<le> int64_max + 2 ^ 63 \<Longrightarrow> wrap64 x = x - 2 ^ 64"
proof -
  assume x: "int64_max < x" "x \<le> int64_max + 2 ^ 63"
  have "(x + 2 ^ 63) mod 2 ^ 64 = ((x + 2 ^ 63 - 2 ^ 64) + 2 ^ 64) mod 2 ^ 64"
    by (simp only: diff_add_cancel)
  also have "\<dots> = (x + 2 ^ 63 - 2 ^ 64) mod 2 ^ 64" by (rule mod_add_self2)
  also have "\<dots> = x + 2 ^ 63 - 2 ^ 64" using x by (intro mod_pos_pos_trivial) simp_all
  finally show ?thesis by (simp add: wrap64_def)
qed

lemma step_loop_wrapping:
  assumes k: "0 < k" "k \<le> 2 ^ 62" and step: "step = 2 ^ 63 - k" and stop: "0 \<le> stop" "stop < 2 ^ 31"
    and i: "- (2 ^ 31) \<le> i" "0 \<le> i \<or> k \<le> stop"
  shows "\<exists>vs. step_loop i stop step vals = Some vs"
  using i
proof (induction "nat (i + 2 ^ 31)" arbitrary: i vals rule: less_induct)
  case less
  consider (over) "stop < i" | (low) "i \<le> stop" "i < k" | (high) "i \<le> stop" "k \<le> i" by linarith
  then show ?case
  proof cases
    case low
    have "in_int64 (i + step)" using low less.prems k step stop by (simp add: in_int64_def)
    then have "step_loop i stop step vals = step_loop (i + step) stop step (insert i vals)"
      using low by (simp add: step_loop_next wrap64_id)
    moreover have "stop < i + step" using low less.prems k step stop by auto
    ultimately show ?thesis by simp
  next
    case high
    have w: "wrap64 (i + step) = i - k - 2 ^ 63"
      using wrap64_up[of "i + step"] high step stop k by simp
    have w2: "wrap64 (i - k - 2 ^ 63 + step) = i - 2 * k"
      using wrap64_id[of "i - 2 * k"] high step stop k by (simp add: in_int64_def)
    have "step_loop i stop step vals = step_loop (i - k - 2 ^ 63) stop step (insert i vals)"
      using high by (simp add: step_loop_next w)
    also have "\<dots> = step_loop (i - 2 * k) stop step (insert (i - k - 2 ^ 63) (insert i vals))"
      by (subst step_loop_next) (use high stop k w2 in simp_all)
    finally have eq: "step_loop i stop step vals =
      step_loop (i - 2 * k) stop step (insert (i - k - 2 ^ 63) (insert i vals))" .
    have "\<exists>vs. step_loop (i - 2 * k) stop step (insert (i - k - 2 ^ 63) (insert i vals)) = Some vs"
      by (rule less.hyps) (use k high stop less.prems in auto)
    with eq show ?thesis by simp
  qed simp
qed

lemma step_loop_terminates:
  assumes "0 < step" and "step \<le> int64_max" and "0 \<le> start" and "0 \<le> stop" and "stop < 2 ^ 31"
  shows "\<exists>vs. step_loop start stop step vals = Some vs"
proof (cases "step \<le> 2 ^ 62")
  case True
  then show ?thesis using step_loop_progression[of step stop start vals] assms by auto
next
  case False
  then show ?thesis
    using assms by (intro step_loop_wrapping[where k = "2 ^ 63 - step"]) auto
qed

lemma step_loop_mono: "step_loop i stop step vals = Some vs \<Longrightarrow> vals \<subseteq> vs"
proof -
  assume ret: "step_loop i stop step vals = Some vs"
  show ?thesis
  proof (rule step_loop.raw_induct[where P = "\<lambda>i stop step vals vs. vals \<subseteq> vs", OF _ ret])
    fix f i stop step vals vs
    assume IH: "\<And>i stop step vals vs. f i stop step vals = Some vs \<Longrightarrow> vals \<subseteq> vs"
      and eq: "(if i \<le> stop then f (wrap64 (i + step)) stop step (insert i vals) else Some vals) = Some vs"
    show "vals \<subseteq> vs"
      using eq IH by (cases "i \<le> stop") fastforce+
  qed
qed

lemma step_loop_start: "step_loop i stop step vals = Some vs \<Longrightarrow> i \<le> stop \<Longrightarrow> i \<in> vs"
  using step_loop_mono by (fastforce simp: step_loop_next)

lemma parse_range_bounds: "parse_range base mn mx = Inr (a, b) \<Longrightarrow> mn \<le> mx \<Longrightarrow> mn \<le> a \<and> a \<le> b \<and> b \<le> mx"
  by (auto simp: parse_range_def split: if_splits option.splits list.splits)

lemma part_step_pos: "part_step part = Inr (base, step) \<Longrightarrow> 0 < step \<and> step \<le> int64_max"
  by (auto simp: part_step_def in_int64_def dest!: parse_int64_range split: if_splits option.splits list.splits)

lemma parse_parts_terminates:
  assumes "0 \<le> mn" and "mn \<le> mx" and "mx < 2 ^ 31"
  shows "\<exists>r. parse_parts mn mx vals ps = Some r"
proof (induction ps arbitrary: vals)
  case (Cons p ps)
  show ?case
  proof (cases "part_step (trim_space p)")
    case (Inr bs)
    obtain base step where bs: "bs = (base, step)" by (cases bs)
    show ?thesis
    proof (cases "parse_range base mn mx")
      case inr: (Inr ab)
      obtain a b where ab: "ab = (a, b)" by (cases ab)
      obtain vs where "step_loop a b step vals = Some vs"
        using step_loop_terminates[of step a b vals] part_step_pos[of _ base step]
          parse_range_bounds[of base mn mx a b] Inr inr bs ab assms by auto
      then show ?thesis using Cons.IH Inr inr bs ab by (simp add: Let_def)
    qed (use Inr bs in \<open>simp add: Let_def\<close>)
  qed (simp add: Let_def)
qed simp

lemma parse_field_terminates: "0 \<le> mn \<Longrightarrow> mn \<le> mx \<Longrightarrow> mx < 2 ^ 31 \<Longrightarrow> \<exists>r. parse_field f mn mx = Some r"
  by (simp add: parse_field_def parse_parts_terminates)

section \<open>Meaning of a field\<close>

definition part_values :: "int \<Rightarrow> int \<Rightarrow> go_string \<Rightarrow> int set" where
  "part_values mn mx p = (case part_step (trim_space p) of Inl _ \<Rightarrow> {}
     | Inr (base, step) \<Rightarrow> (case parse_range base mn mx of Inl _ \<Rightarrow> {} | Inr (a, b) \<Rightarrow> progression a b step))"

lemma part_values_bounds: "mn \<le> mx \<Longrightarrow> part_values mn mx p \<subseteq> {mn..mx}"
proof
  fix v
  assume le: "mn \<le> mx" and "v \<in> part_values mn mx p"
  then obtain base step a b where "parse_range base mn mx = Inr (a, b)" "v \<in> progression a b step"
    by (auto simp: part_values_def split: sum.splits)
  then show "v \<in> {mn..mx}" using parse_range_bounds[of base mn mx a b] le by (auto simp: progression_def)
qed

lemma part_step_small: "part_step part = Inr (base, step) \<Longrightarrow> length part \<le> 18 \<Longrightarrow> step < 10 ^ 18"
proof -
  assume ps: "part_step part = Inr (base, step)" and len: "length part \<le> 18"
  show ?thesis
  proof (cases "CHR ''/'' \<in> set part")
    case True
    then obtain st where st: "st \<in> set (split_on (CHR ''/'') part)" "parse_int64 st = Some step"
      using ps by (auto simp: part_step_def split: list.splits option.splits if_splits)
    have "length st \<le> 18" using split_on_part_length[OF st(1)] len by simp
    then have "(10::int) ^ length st \<le> 10 ^ 18" by (rule power_increasing) simp
    with parse_int64_bound[OF st(2)] show ?thesis by linarith
  qed (use ps in \<open>simp add: part_step_def\<close>)
qed

lemma parse_parts_values:
  assumes "parse_parts mn mx vals ps = Some (Inr vs)" and "\<forall>p\<in>set ps. length p \<le> 18"
    and "0 \<le> mn" "mn \<le> mx" "mx < 2 ^ 31"
  shows "vs = vals \<union> (\<Union>p\<in>set ps. part_values mn mx p)"
  using assms
proof (induction ps arbitrary: vals)
  case (Cons p ps)
  let ?p = "trim_space p"
  obtain base step a b vals' where r: "part_step ?p = Inr (base, step)" "parse_range base mn mx = Inr (a, b)"
    "step_loop a b step vals = Some vals'" "parse_parts mn mx vals' ps = Some (Inr vs)"
    using Cons.prems(1) by (auto simp: Let_def split: if_splits sum.splits option.splits)
  have "length ?p \<le> 18" using Cons.prems(2) length_trim_space[of p] by simp
  then have "step < 10 ^ 18" using part_step_small r(1) by blast
  moreover have ab: "mn \<le> a" "b \<le> mx" using parse_range_bounds[OF r(2)] Cons.prems(4) by simp_all
  moreover have "(10::int) ^ 18 + 2 ^ 31 \<le> int64_max" by simp
  ultimately have "vals' = vals \<union> progression a b step"
    using step_loop_progression[of step b a vals] part_step_pos[OF r(1)] r(3) Cons.prems(3,5) by auto
  moreover have "vs = vals' \<union> (\<Union>q\<in>set ps. part_values mn mx q)"
    using Cons.IH[OF r(4)] Cons.prems by simp
  moreover have "part_values mn mx p = progression a b step" by (simp add: part_values_def r(1,2))
  ultimately show ?case by auto
qed simp

lemma parse_parts_mono: "parse_parts mn mx vals ps = Some (Inr vs) \<Longrightarrow> vals \<subseteq> vs"
proof (induction ps arbitrary: vals)
  case (Cons p ps)
  then show ?case
    by (auto simp: Let_def split: if_splits sum.splits option.splits dest!: step_loop_mono) blast
qed simp

lemma parse_field_nonempty:
  assumes "parse_field f mn mx = Some (Inr vs)" and "mn \<le> mx"
  shows "vs \<noteq> {}"
proof -
  obtain p ps where ps: "split_on (CHR '','') f = p # ps" by (cases "split_on (CHR '','') f") simp_all
  then obtain base step a b vals' where r: "parse_range base mn mx = Inr (a, b)"
    "step_loop a b step {} = Some vals'" "parse_parts mn mx vals' ps = Some (Inr vs)"
    using assms(1) by (auto simp: parse_field_def Let_def split: if_splits sum.splits option.splits)
  then have "a \<in> vals'" using parse_range_bounds[OF r(1) assms(2)] step_loop_start by blast
  then show ?thesis using parse_parts_mono[OF r(3)] by auto
qed

lemma next_loop_cases:
  "case next_loop ok n limit of
     Some x \<Rightarrow> n \<le> x \<and> x < limit \<and> ok x \<and> (\<forall>y. n \<le> y \<and> y < x \<longrightarrow> \<not> ok y)
   | None \<Rightarrow> \<forall>y. n \<le> y \<and> y < limit \<longrightarrow> \<not> ok y"
proof (induction ok n limit rule: next_loop.induct)
  case (1 ok n limit)
  consider (stop) "limit \<le> n" | (hit) "n < limit" "ok n" | (skip) "n < limit" "\<not> ok n" by linarith
  then show ?case
  proof cases
    case skip
    have eq: "next_loop ok n limit = next_loop ok (n + 1) limit"
      using skip by (simp add: next_loop.simps[of ok n])
    have le: "y = n \<or> n + 1 \<le> y" if "n \<le> y" for y using that by linarith
    show ?thesis
      using "1.IH"[OF skip] skip(2) unfolding eq by (auto split: option.splits dest: le)
  qed (auto simp: next_loop.simps[of ok n])
qed

section \<open>Properties\<close>

text \<open>
  C30: the parser always returns, for every text, also where the stepping loop overflows the 64-bit
  counter.
\<close>

theorem parse_terminates: "\<exists>r. parse dur spec = Some r"
proof -
  have f: "\<exists>r. parse_field x 0 59 = Some r" "\<exists>r. parse_field x 0 23 = Some r" "\<exists>r. parse_field x 1 31 = Some r"
    "\<exists>r. parse_field x 1 12 = Some r" "\<exists>r. parse_field x 0 7 = Some r" for x
    by (rule parse_field_terminates; simp)+
  have k: "\<exists>r. with_field nm p k = Some r" if "\<exists>r. p = Some r" "\<And>v. \<exists>r. k v = Some r" for nm p k
    using that by (auto simp: with_field_def split: sum.splits)
  have "\<exists>r. parse_fields fs = Some r" for fs
    unfolding parse_fields_def by (intro k f) simp
  then show ?thesis by (auto simp: parse_def Let_def split: option.splits)
qed

text \<open>
  an accepted field means the union of its comma-separated parts, each the arithmetic progression
  of its range and step, so every value lies within the field's bounds; for fields of up to 18 bytes,
  which no step that overflows fits in.
\<close>

theorem parse_field_meaning:
  assumes "parse_field f mn mx = Some (Inr vs)" and "length f \<le> 18"
    and "0 \<le> mn" and "mn \<le> mx" and "mx < 2 ^ 31"
  shows "vs = (\<Union>p\<in>set (split_on (CHR '','') f). part_values mn mx p) \<and> vs \<noteq> {} \<and> vs \<subseteq> {mn..mx}"
proof -
  have "\<forall>p\<in>set (split_on (CHR '','') f). length p \<le> 18"
    using assms(2) split_on_part_length le_trans by blast
  then have vs: "vs = (\<Union>p\<in>set (split_on (CHR '','') f). part_values mn mx p)"
    using parse_parts_values[OF assms(1)[unfolded parse_field_def] _ assms(3-5)] by simp
  have "vs \<subseteq> {mn..mx}"
    unfolding vs by (rule UN_least) (rule part_values_bounds[OF assms(4)])
  with vs parse_field_nonempty[OF assms(1,4)] show ?thesis by (intro conjI)
qed

theorem parse_field_meaning_witness:
  "\<exists>vs. parse_field ''*/15'' 0 59 = Some (Inr vs) \<and> vs \<subseteq> {0..59} \<and> 30 \<in> vs"
proof -
  have t: "trim_space ''*/15'' = ''*/15''" by (rule trim_space_ascii) (simp_all add: ascii_space_def)
  have ps: "part_step ''*/15'' = Inr (''*'', 15)"
    by (simp add: part_step_def parse_int64_def parse_digits_def digit_val_def in_int64_def)
  have "\<exists>vs. parse_field ''*/15'' 0 59 = Some (Inr vs)"
    using step_loop_terminates[of 15 0 59 "{}"]
    by (auto simp: parse_field_def t ps parse_range_def Let_def)
  then obtain vs where vs: "parse_field ''*/15'' 0 59 = Some (Inr vs)" by blast
  have "30 \<in> part_values 0 59 ''*/15''"
    by (simp add: part_values_def t ps parse_range_def progression_def)
  then show ?thesis using parse_field_meaning[OF vs] vs by auto
qed

text \<open>
  a step close to \<open>2 ^ 63\<close> wraps the loop's counter and lets in values outside the range the field
  names: the field below asks for seconds 10 to 59 and yields second 4.
\<close>

theorem parse_field_overflow:
  "\<exists>vs. parse_field ''10-59/9223372036854775805'' 0 59 = Some (Inr vs) \<and> 4 \<in> vs"
proof -
  let ?f = "''10-59/9223372036854775805''"
  have t: "trim_space ?f = ?f" by (rule trim_space_ascii) (simp_all add: ascii_space_def)
  have ps: "part_step ?f = Inr (''10-59'', 9223372036854775805)"
    by (simp add: part_step_def parse_int64_def parse_digits_def digit_val_def in_int64_def)
  have pr: "parse_range ''10-59'' 0 59 = Inr (10, 59)"
    by (simp add: parse_range_def parse_int64_def parse_digits_def digit_val_def in_int64_def)
  obtain vs where vs: "step_loop 10 59 9223372036854775805 {} = Some vs"
    using step_loop_terminates[of 9223372036854775805 10 59 "{}"] by auto
  have "step_loop 10 59 9223372036854775805 {} =
      step_loop 4 59 9223372036854775805 {10, -9223372036854775801}"
    by (simp add: step_loop_next wrap64_def insert_commute)
  then have "4 \<in> vs" using vs step_loop_start[of 4 59] by simp
  moreover have "split_on (CHR '','') ?f = [?f]" by simp
  ultimately show ?thesis
    using vs by (simp add: parse_field_def t ps pr Let_def)
qed



section \<open>Invariant of the manager\<close>

datatype sched_op = MAdd go_string go_string bool bool | MRemove go_string | MRemovePrefix go_string | MStopAll
  | MStart nat int | MTick nat | MDone nat | MSafeRun nat go_string

fun sched_step :: "(go_string \<Rightarrow> int option) \<Rightarrow> (int \<Rightarrow> civil_time) \<Rightarrow> sched_op \<Rightarrow> manager \<Rightarrow> manager" where
  "sched_step dur civil (MAdd n spec imm fn_nil) m =
     (case add_context_func dur n spec imm fn_nil m of Some (Inr m') \<Rightarrow> m' | _ \<Rightarrow> m)"
| "sched_step dur civil (MRemove n) m = remove_job n m"
| "sched_step dur civil (MRemovePrefix pre) m = remove_prefix pre m"
| "sched_step dur civil MStopAll m = stop_all m"
| "sched_step dur civil (MStart c now) m = routine_start civil c now m"
| "sched_step dur civil (MTick c) m = routine_tick civil c m"
| "sched_step dur civil (MDone c) m = routine_done c m"
| "sched_step dur civil (MSafeRun c n) m = safe_run c n m"

definition sched_run :: "(go_string \<Rightarrow> int option) \<Rightarrow> (int \<Rightarrow> civil_time) \<Rightarrow> sched_op list \<Rightarrow> manager \<Rightarrow> manager" where
  "sched_run dur civil ops m = fold (sched_step dur civil) ops m"

text \<open>
  A context is accounted for when it is cancelled or is the current one of its job's name.  The invariant:
  names and contexts of the job table are distinct, the contexts of the table are live, and every
  goroutine and every pending run holds an accounted context.
\<close>

definition owned :: "manager \<Rightarrow> nat \<Rightarrow> go_string \<Rightarrow> bool" where
  "owned m c n \<longleftrightarrow> c < fresh m \<and> (c \<in> cancelled m \<or> (n, c) \<in> set (jobs m))"

definition table_wf :: "manager \<Rightarrow> bool" where
  "table_wf m \<longleftrightarrow> distinct (map fst (jobs m)) \<and> distinct (map snd (jobs m)) \<and>
     (\<forall>j\<in>set (jobs m). snd j < fresh m \<and> snd j \<notin> cancelled m) \<and> (\<forall>c\<in>cancelled m. c < fresh m)"

definition manager_wf :: "manager \<Rightarrow> bool" where
  "manager_wf m \<longleftrightarrow> table_wf m \<and> distinct (map fst (routines m)) \<and>
     (\<forall>r\<in>set (routines m). owned m (fst r) (g_name (snd r))) \<and> (\<forall>r\<in>set (runs m). owned m (fst r) (snd r))"

lemma manager_wf_new: "manager_wf new_manager"
  by (simp add: manager_wf_def table_wf_def new_manager_def)

lemma set_alist_update: "x \<in> set (AList.update k v al) \<Longrightarrow> x = (k, v) \<or> x \<in> set al"
  by (induction al) (auto split: if_splits)

lemma alist_delete_filter: "AList.delete k al = filter (\<lambda>j. fst j \<noteq> k) al"
  by (induction al) auto

lemma set_alist_update_distinct:
  "distinct (map fst al) \<Longrightarrow> set (AList.update k v al) = insert (k, v) {j \<in> set al. fst j \<noteq> k}"
  by (induction al) force+

lemma distinct_snd_update:
  "distinct (map snd al) \<Longrightarrow> v \<notin> snd ` set al \<Longrightarrow> distinct (map snd (AList.update k v al))"
  by (induction al) (auto dest: set_alist_update)

lemma map_of_distinct_iff: "distinct (map fst al) \<Longrightarrow> map_of al k = Some v \<longleftrightarrow> (k, v) \<in> set al"
  by (meson map_of_SomeD map_of_is_SomeI)

lemma distinct_map_inj: "distinct (map f xs) \<Longrightarrow> x \<in> set xs \<Longrightarrow> y \<in> set xs \<Longrightarrow> f x = f y \<Longrightarrow> x = y"
  by (auto simp: distinct_map dest: inj_onD)

lemma distinct_entry:
  assumes "distinct (map fst al)" and "map_of al k = Some v"
  shows "(k, w) \<in> set al \<longleftrightarrow> w = v"
  using map_of_distinct_iff[OF assms(1), of k w] assms(2) by auto

lemma distinct_entries:
  assumes "distinct (map fst al)" and "map_of al k = Some v"
  shows "{j \<in> set al. fst j = k} = {(k, v)}"
proof (rule set_eqI)
  fix j
  show "j \<in> {j \<in> set al. fst j = k} \<longleftrightarrow> j \<in> {(k, v)}"
    using distinct_entry[OF assms, of "snd j"] by (cases j) auto
qed

text \<open>Steps that leave the jobs alone keep the invariant if what they start is owned.\<close>

lemma owned_update [simp]:
  "owned (m\<lparr>runs := r\<rparr>) = owned m" "owned (m\<lparr>routines := g\<rparr>) = owned m" "owned (m\<lparr>executed := e\<rparr>) = owned m"
  by (auto simp: owned_def fun_eq_iff)

lemma table_wf_update [simp]:
  "table_wf (m\<lparr>runs := r\<rparr>) = table_wf m" "table_wf (m\<lparr>routines := g\<rparr>) = table_wf m"
  "table_wf (m\<lparr>executed := e\<rparr>) = table_wf m"
  by (auto simp: table_wf_def)

lemma manager_wf_push_run: "manager_wf m \<Longrightarrow> owned m c n \<Longrightarrow> manager_wf (m\<lparr>runs := (c, n) # runs m\<rparr>)"
  by (simp add: manager_wf_def)

lemma manager_wf_drop_run: "manager_wf m \<Longrightarrow> manager_wf (m\<lparr>runs := remove1 r (runs m)\<rparr>)"
  using set_remove1_subset[of r "runs m"] by (auto simp: manager_wf_def)

lemma manager_wf_executed: "manager_wf m \<Longrightarrow> manager_wf (m\<lparr>executed := e\<rparr>)"
  by (simp add: manager_wf_def)

lemma manager_wf_end: "manager_wf m \<Longrightarrow> manager_wf (m\<lparr>routines := AList.delete c (routines m)\<rparr>)"
  by (auto simp: manager_wf_def alist_delete_filter distinct_map_filter)

lemma manager_wf_wait:
  "manager_wf m \<Longrightarrow> owned m c (g_name g) \<Longrightarrow> manager_wf (m\<lparr>routines := AList.update c g (routines m)\<rparr>)"
  by (auto simp: manager_wf_def distinct_update dest: set_alist_update)

lemma routine_owned: "manager_wf m \<Longrightarrow> map_of (routines m) c = Some g \<Longrightarrow> owned m c (g_name g)"
  by (force simp: manager_wf_def dest!: map_of_SomeD)

lemmas routine_wf_rules = manager_wf_push_run manager_wf_drop_run manager_wf_executed manager_wf_end
  manager_wf_wait

lemma routine_next_wf:
  assumes "manager_wf m" and "owned m c (g_name g)"
  shows "manager_wf (case nx of None \<Rightarrow> m\<lparr>routines := AList.delete c (routines m)\<rparr>
     | Some t \<Rightarrow> m\<lparr>routines := AList.update c (g\<lparr>g_phase := Waiting t\<rparr>) (routines m)\<rparr>)"
  using assms by (auto intro!: manager_wf_end manager_wf_wait split: option.splits)

lemma routine_start_wf:
  assumes wf: "manager_wf m" shows "manager_wf (routine_start civil c now m)"
proof (cases "map_of (routines m) c")
  case (Some g)
  note own = routine_owned[OF wf Some]
  show ?thesis
  proof (cases "g_phase g")
    case (Spawned imm)
    define m1 where "m1 = (if imm then m\<lparr>runs := (c, g_name g) # runs m\<rparr> else m)"
    have "manager_wf m1" using wf own by (simp add: m1_def manager_wf_push_run)
    moreover have "owned m1 c (g_name g)" using own by (simp add: m1_def)
    ultimately show ?thesis
      using Some Spawned routine_next_wf by (simp add: routine_start_def m1_def[symmetric])
  qed (simp add: routine_start_def Some wf)
qed (simp add: routine_start_def wf)

lemma routine_tick_wf:
  assumes wf: "manager_wf m" shows "manager_wf (routine_tick civil c m)"
proof (cases "map_of (routines m) c")
  case (Some g)
  note own = routine_owned[OF wf Some]
  show ?thesis
  proof (cases "g_phase g")
    case (Waiting t)
    define m1 where "m1 = m\<lparr>runs := (c, g_name g) # runs m\<rparr>"
    have "manager_wf m1" using wf own by (simp add: m1_def manager_wf_push_run)
    moreover have "owned m1 c (g_name g)" using own by (simp add: m1_def)
    ultimately show ?thesis
      using Some Waiting routine_next_wf by (simp add: routine_tick_def m1_def[symmetric])
  qed (simp add: routine_tick_def Some wf)
qed (simp add: routine_tick_def wf)

lemma routine_done_wf: "manager_wf m \<Longrightarrow> manager_wf (routine_done c m)"
  by (simp add: routine_done_def manager_wf_end)

lemma safe_run_wf: "manager_wf m \<Longrightarrow> manager_wf (safe_run c n m)"
  using manager_wf_executed[OF manager_wf_drop_run[of m "(c, n)"]] manager_wf_drop_run[of m "(c, n)"]
  by (simp add: safe_run_def Let_def)

text \<open>Operations on the table: what was owned stays owned.\<close>

lemma manager_wf_table:
  assumes "manager_wf m" and "table_wf m'" and "routines m' = routines m" and "runs m' = runs m"
    and "\<And>c n. owned m c n \<Longrightarrow> owned m' c n"
  shows "manager_wf m'"
  using assms by (auto simp: manager_wf_def)

lemma remove_jobs_if_table: "table_wf m \<Longrightarrow> table_wf (remove_jobs_if P m)"
  unfolding table_wf_def remove_jobs_if_def
  by (auto simp: distinct_map_filter dest: distinct_map_inj[of snd "jobs m"])

lemma remove_jobs_if_wf: "manager_wf m \<Longrightarrow> manager_wf (remove_jobs_if P m)"
  by (rule manager_wf_table) (auto simp: manager_wf_def remove_jobs_if_table, auto simp: remove_jobs_if_def owned_def image_iff)

lemma remove_job_as_if:
  assumes "table_wf m"
  shows "remove_job n m = remove_jobs_if (\<lambda>x. x = n) m"
proof (cases "map_of (jobs m) n")
  case None
  then have "\<forall>j\<in>set (jobs m). fst j \<noteq> n" by (auto simp: map_of_eq_None_iff)
  then have e: "filter (\<lambda>j. fst j \<noteq> n) (jobs m) = jobs m" "snd ` {j \<in> set (jobs m). fst j = n} = {}"
    by (auto simp: filter_id_conv)
  show ?thesis using None by (simp add: remove_job_def remove_jobs_if_def comp_def e)
next
  case (Some c)
  have d: "distinct (map fst (jobs m))" using assms by (simp add: table_wf_def)
  show ?thesis
    by (simp add: remove_job_def remove_jobs_if_def comp_def alist_delete_filter Some distinct_entries[OF d Some])
qed

lemma remove_job_wf: "manager_wf m \<Longrightarrow> manager_wf (remove_job n m)"
  by (subst remove_job_as_if) (simp add: manager_wf_def, rule remove_jobs_if_wf)

lemma remove_prefix_wf: "manager_wf m \<Longrightarrow> manager_wf (remove_prefix p m)"
  by (simp add: remove_prefix_def remove_jobs_if_wf)

lemma stop_all_wf: "manager_wf m \<Longrightarrow> manager_wf (stop_all m)"
  by (simp add: stop_all_def remove_jobs_if_wf)

text \<open>The job table as a table keyed by names.\<close>

interpretation job_table: erasable_store "\<lambda>m. distinct (map fst (jobs m))" replace_job "\<lambda>m. map_of (jobs m)" remove_job
  by unfold_locales
    (auto simp: replace_job_def remove_job_def Let_def distinct_update distinct_delete update_conv' delete_conv'
      split: option.splits)

text \<open>Adding a job: the new context is fresh, the replaced one is cancelled.\<close>

lemma replace_job_fields [simp]:
  "routines (replace_job n c m) = routines m" "runs (replace_job n c m) = runs m"
  "executed (replace_job n c m) = executed m" "fresh (replace_job n c m) = fresh m"
  "jobs (replace_job n c m) = AList.update n c (jobs m)"
  by (auto simp: replace_job_def Let_def split: option.splits)

lemma cancelled_replace_job:
  "table_wf m \<Longrightarrow> cancelled (replace_job n c m) = cancelled m \<union> {old. (n, old) \<in> set (jobs m)}"
proof (cases "map_of (jobs m) n")
  case None
  then have "{old. (n, old) \<in> set (jobs m)} = {}" by (force simp: map_of_eq_None_iff)
  with None show ?thesis by (simp add: replace_job_def)
next
  case (Some c')
  assume "table_wf m"
  then have d: "distinct (map fst (jobs m))" by (simp add: table_wf_def)
  show ?thesis by (simp add: replace_job_def Let_def Some distinct_entry[OF d Some])
qed

lemma replace_job_table:
  assumes wf: "table_wf m"
  shows "table_wf (replace_job n (fresh m) (m\<lparr>fresh := fresh m + 1\<rparr>))"
proof -
  let ?m = "m\<lparr>fresh := fresh m + 1\<rparr>"
  have wf': "table_wf ?m" using wf by (auto simp: table_wf_def less_Suc_eq)
  have d: "distinct (map fst (jobs m))" "distinct (map snd (jobs m))" using wf by (simp_all add: table_wf_def)
  have new: "fresh m \<notin> snd ` set (jobs m)" "fresh m \<notin> cancelled m" using wf by (auto simp: table_wf_def)
  have can: "cancelled (replace_job n (fresh m) ?m) = cancelled m \<union> {old. (n, old) \<in> set (jobs m)}"
    using cancelled_replace_job[OF wf'] by simp
  have set_jobs: "set (AList.update n (fresh m) (jobs m)) = insert (n, fresh m) {j \<in> set (jobs m). fst j \<noteq> n}"
    using d(1) by (rule set_alist_update_distinct)
  have keep: "snd j \<notin> cancelled m \<and> (n, snd j) \<notin> set (jobs m)" if "j \<in> set (jobs m)" "fst j \<noteq> n" for j
    using that wf distinct_map_inj[OF d(2), of j "(n, snd j)"] by (auto simp: table_wf_def) (metis fst_conv)
  have bound: "\<forall>c\<in>cancelled m \<union> {old. (n, old) \<in> set (jobs m)}. c < fresh m + 1"
    "\<forall>j\<in>set (jobs m). snd j < fresh m" using wf by (auto simp: table_wf_def less_Suc_eq)
  show ?thesis
    unfolding table_wf_def replace_job_fields can
    using d new set_jobs keep bound
    by (auto simp: distinct_update intro: distinct_snd_update)
qed

lemma add_context_func_wf:
  assumes wf: "manager_wf m" and add: "add_context_func dur n spec imm fn_nil m = Some (Inr m')"
  shows "manager_wf m'"
proof -
  let ?m1 = "replace_job n (fresh m) (m\<lparr>fresh := fresh m + 1\<rparr>)"
  from add obtain s where m': "m' = ?m1\<lparr>routines := (fresh m, \<lparr>g_name = n, g_sched = s, g_phase = Spawned imm\<rparr>) # routines ?m1\<rparr>"
    by (auto simp: add_context_func_def Let_def split: if_splits option.splits sum.splits)
  have t: "table_wf m" using wf by (simp add: manager_wf_def)
  then have t': "table_wf (m\<lparr>fresh := fresh m + 1\<rparr>)" by (auto simp: table_wf_def less_Suc_eq)
  have can: "cancelled ?m1 = cancelled m \<union> {old. (n, old) \<in> set (jobs m)}"
    using cancelled_replace_job[OF t'] by simp
  have old: "owned ?m1 c k" if "owned m c k" for c k
    using that t set_alist_update_distinct[of "jobs m" n "fresh m"]
    unfolding owned_def can by (auto simp: table_wf_def)
  have new: "owned ?m1 (fresh m) n"
    using t set_alist_update_distinct[of "jobs m" n "fresh m"] by (auto simp: owned_def table_wf_def)
  have "manager_wf ?m1"
    by (rule manager_wf_table[OF wf replace_job_table[OF t]]) (simp_all only: replace_job_fields old, simp_all)
  moreover have "fresh m \<notin> fst ` set (routines m)" using wf by (auto simp: manager_wf_def owned_def)
  ultimately show ?thesis using new by (simp add: manager_wf_def m')
qed

lemmas manager_ops_wf = add_context_func_wf remove_job_wf remove_prefix_wf stop_all_wf routine_start_wf
  routine_tick_wf routine_done_wf safe_run_wf

lemma sched_step_wf: "manager_wf m \<Longrightarrow> manager_wf (sched_step dur civil op m)"
  by (cases op) (auto intro: manager_ops_wf split: option.splits sum.splits)

lemma sched_run_wf: "manager_wf m \<Longrightarrow> manager_wf (sched_run dur civil ops m)"
  unfolding sched_run_def by (induction ops arbitrary: m) (simp_all add: sched_step_wf)

text \<open>A name that is not in the table does not run, and only an addition brings it back.\<close>

fun adds_job :: "go_string \<Rightarrow> sched_op \<Rightarrow> bool" where
  "adds_job n (MAdd k spec imm fn_nil) = (k = n)"
| "adds_job n op = False"

lemma sched_step_absent:
  assumes wf: "manager_wf m" and ab: "n \<notin> fst ` set (jobs m)" and op: "\<not> adds_job n op"
  shows "n \<notin> fst ` set (jobs (sched_step dur civil op m)) \<and>
    count_list (executed (sched_step dur civil op m)) n = count_list (executed m) n"
proof (cases op)
  case (MAdd k spec imm fn_nil)
  with op ab show ?thesis
    by (auto simp: add_context_func_def Let_def dest!: set_alist_update split: option.splits sum.splits)
next
  case (MRemove k)
  have "set (AList.delete k (jobs m)) \<subseteq> set (jobs m)" by (auto simp: alist_delete_filter)
  with MRemove ab show ?thesis by (auto simp: remove_job_def split: option.splits)
next
  case (MSafeRun c k)
  have "owned m c n" if "(c, n) \<in> set (runs m)" using that wf by (force simp: manager_wf_def)
  then have "c \<in> cancelled m" if "(c, n) \<in> set (runs m)" using that ab by (force simp: owned_def)
  with MSafeRun ab show ?thesis by (auto simp: safe_run_def Let_def)
qed (use ab in \<open>auto simp: remove_prefix_def stop_all_def remove_jobs_if_def routine_start_def routine_tick_def
    routine_done_def Let_def split: option.splits phase.splits\<close>)

lemma sched_run_absent:
  assumes "manager_wf m" and "n \<notin> fst ` set (jobs m)" and "\<forall>op\<in>set ops. \<not> adds_job n op"
  shows "count_list (executed (sched_run dur civil ops m)) n = count_list (executed m) n"
  using assms
proof (induction ops arbitrary: m)
  case (Cons op ops)
  then show ?case
    using sched_step_absent[of m n op dur civil] sched_step_wf[of m dur civil op]
    by (simp add: sched_run_def)
qed (simp add: sched_run_def)

lemma remove_job_absent: "manager_wf m \<Longrightarrow> n \<notin> fst ` set (jobs (remove_job n m))"
  by (auto simp: remove_job_as_if manager_wf_def remove_jobs_if_def)


text \<open>
  whatever the interleaving of additions, removals and goroutines, at most one goroutine with a live
  context exists for a job name, so replacing a job never leaves two of them ticking.
\<close>

theorem one_live_goroutine:
  "let m = sched_run dur civil ops new_manager in
   length (filter (\<lambda>r. g_name (snd r) = n \<and> fst r \<notin> cancelled m) (routines m)) \<le> 1"
proof -
  define m where "m = sched_run dur civil ops new_manager"
  have wf: "manager_wf m" unfolding m_def by (intro sched_run_wf manager_wf_new)
  let ?live = "filter (\<lambda>r. g_name (snd r) = n \<and> fst r \<notin> cancelled m) (routines m)"
  have "(n, fst r) \<in> set (jobs m)" if "r \<in> set ?live" for r
    using that wf by (auto simp: manager_wf_def owned_def)
  moreover have "c = c'" if "(n, c) \<in> set (jobs m)" "(n, c') \<in> set (jobs m)" for c c'
    using distinct_map_inj[OF _ that, of fst] wf by (simp add: manager_wf_def table_wf_def)
  ultimately have "\<forall>a\<in>fst ` set ?live. \<forall>b\<in>fst ` set ?live. a = b" by blast
  then have "card (fst ` set ?live) \<le> Suc 0" by (subst card_le_Suc0_iff_eq) simp_all
  moreover have "distinct (map fst ?live)" using wf by (simp add: manager_wf_def distinct_map_filter)
  then have "length ?live = card (fst ` set ?live)"
    using distinct_card[of "map fst ?live"] by (simp only: length_map set_map)
  ultimately show ?thesis by (simp add: m_def[symmetric])
qed

end
