(* ===== verification/Go_Path.thy ===== *)
theory Go_Path
  imports Prelude
begin

text \<open>
  The path functions of Go's standard library the program uses (\<^verbatim>\<open>path.Clean\<close>, \<^verbatim>\<open>path.Dir\<close>,
  \<^verbatim>\<open>path.IsAbs\<close>, \<^verbatim>\<open>filepath.IsLocal\<close> on a Unix host), over the segments of a path, with the lemmas on
  cleaning that the path module of the JavaScript runtime and the plugin manifests share.
  \<open>clean_step\<close> is one element of the segment loop; the same loop is written out in the program for
  Windows paths.
\<close>

section \<open>Splitting and joining\<close>

lemma split_on_no_sep: "c \<notin> set s \<Longrightarrow> split_on c s = [s]"
  by (induction s) auto

lemma split_on_append: "split_on c (a @ c # b) = split_on c a @ split_on c b"
  by (induction a) (auto split: list.splits)

lemma join_with_Cons: "ps \<noteq> [] \<Longrightarrow> join_with sep (p # ps) = p @ sep @ join_with sep ps"
  by (cases ps) simp_all

lemma join_with_append:
  "ps \<noteq> [] \<Longrightarrow> qs \<noteq> [] \<Longrightarrow> join_with sep (ps @ qs) = join_with sep ps @ sep @ join_with sep qs"
proof (induction ps)
  case (Cons p ps)
  then show ?case by (cases "ps = []") (simp_all add: join_with_Cons)
qed simp

lemma split_join: "ps \<noteq> [] \<Longrightarrow> (\<forall>p\<in>set ps. c \<notin> set p) \<Longrightarrow> split_on c (join_with [c] ps) = ps"
proof (induction ps)
  case (Cons p ps)
  then show ?case
    by (cases "ps = []") (simp_all add: split_on_no_sep join_with_Cons split_on_append)
qed simp

section \<open>Cleaning the segments\<close>

definition clean_step :: "bool \<Rightarrow> go_string list \<Rightarrow> go_string \<Rightarrow> go_string list" where
  "clean_step rooted r p =
     (if p = [] \<or> p = ''.'' then r
      else if p = ''..'' then
        (if r \<noteq> [] \<and> last r \<noteq> ''..'' then butlast r else if \<not> rooted then r @ [p] else r)
      else r @ [p])"

definition clean_parts :: "bool \<Rightarrow> go_string list \<Rightarrow> go_string list" where
  "clean_parts rooted ps = foldl (clean_step rooted) [] ps"

definition path_segs :: "go_string \<Rightarrow> go_string list" where
  "path_segs s = split_on (CHR ''/'') s"

definition go_is_abs :: "go_string \<Rightarrow> bool" where
  "go_is_abs s \<longleftrightarrow> has_prefix s ''/''"

definition render_path :: "bool \<Rightarrow> go_string list \<Rightarrow> go_string" where
  "render_path rooted ps = (if rooted then CHR ''/'' # join_with ''/'' ps else if ps = [] then ''.'' else join_with ''/'' ps)"

definition go_clean :: "go_string \<Rightarrow> go_string" where
  "go_clean s = render_path (go_is_abs s) (clean_parts (go_is_abs s) (path_segs s))"

definition go_dir :: "go_string \<Rightarrow> go_string" where
  "go_dir s = go_clean (rev (dropWhile (\<lambda>c. c \<noteq> CHR ''/'') (rev s)))"

definition go_is_local :: "go_string \<Rightarrow> bool" where
  "go_is_local s =
     (if go_is_abs s \<or> s = [] then False
      else let t = (if ''.'' \<in> set (path_segs s) \<or> ''..'' \<in> set (path_segs s) then go_clean s else s)
           in \<not> (t = ''..'' \<or> has_prefix t ''../''))"

text \<open>A normal list of segments: real names, after leading \<open>..\<close> if the path is relative.\<close>

definition normal_parts :: "bool \<Rightarrow> go_string list \<Rightarrow> bool" where
  "normal_parts rooted ps \<longleftrightarrow> (\<forall>p\<in>set ps. p \<noteq> [] \<and> p \<noteq> ''.'') \<and> (rooted \<longrightarrow> ''..'' \<notin> set ps) \<and>
     successively (\<lambda>p q. q = ''..'' \<longrightarrow> p = ''..'') ps"

lemma normal_parts_Nil [simp]: "normal_parts rooted []"
  by (simp add: normal_parts_def)

lemma normal_parts_snoc:
  "normal_parts rooted (ps @ [p]) \<longleftrightarrow> normal_parts rooted ps \<and> p \<noteq> [] \<and> p \<noteq> ''.'' \<and>
     (p = ''..'' \<longrightarrow> \<not> rooted \<and> (ps = [] \<or> last ps = ''..''))"
  by (auto simp: normal_parts_def successively_append_iff)

lemma normal_parts_single:
  "normal_parts rooted [p] \<longleftrightarrow> p \<noteq> [] \<and> p \<noteq> ''.'' \<and> (p = ''..'' \<longrightarrow> \<not> rooted)"
  using normal_parts_snoc[of rooted "[]" p] by simp

lemma normal_parts_append: "normal_parts rooted (ps @ qs) \<Longrightarrow> normal_parts rooted ps"
  by (auto simp: normal_parts_def successively_append_iff)

lemma normal_parts_butlast: "normal_parts rooted ps \<Longrightarrow> normal_parts rooted (butlast ps)"
  by (cases ps rule: rev_cases) (auto simp: normal_parts_snoc)

lemma normal_parts_head:
  "normal_parts rooted ps \<Longrightarrow> ''..'' \<in> set ps \<Longrightarrow> ps \<noteq> [] \<and> hd ps = ''..''"
  by (induction ps rule: rev_induct) (auto simp: normal_parts_snoc hd_append, metis last_in_set)

lemma normal_parts_names:
  "(\<forall>p\<in>set ps. p \<noteq> [] \<and> p \<noteq> ''.'' \<and> p \<noteq> ''..'') \<Longrightarrow> normal_parts rooted ps"
  by (induction ps rule: rev_induct) (auto simp: normal_parts_snoc)

lemma clean_step_normal: "normal_parts rooted r \<Longrightarrow> normal_parts rooted (clean_step rooted r p)"
  by (auto simp: clean_step_def normal_parts_snoc normal_parts_single normal_parts_butlast)

lemma foldl_clean_normal: "normal_parts rooted r \<Longrightarrow> normal_parts rooted (foldl (clean_step rooted) r ps)"
  by (induction ps arbitrary: r) (simp_all add: clean_step_normal)

lemma clean_parts_normal: "normal_parts rooted (clean_parts rooted ps)"
  by (simp add: clean_parts_def foldl_clean_normal)

lemma clean_step_push: "normal_parts rooted (r @ [p]) \<Longrightarrow> clean_step rooted r p = r @ [p]"
  by (auto simp: clean_step_def normal_parts_snoc)

lemma foldl_clean_push: "normal_parts rooted (r @ ps) \<Longrightarrow> foldl (clean_step rooted) r ps = r @ ps"
proof (induction ps arbitrary: r)
  case (Cons p ps)
  have "normal_parts rooted (r @ [p])" using Cons.prems normal_parts_append[of rooted "r @ [p]" ps] by simp
  then show ?case using Cons by (simp add: clean_step_push)
qed simp

lemma clean_parts_id: "normal_parts rooted ps \<Longrightarrow> clean_parts rooted ps = ps"
  using foldl_clean_push[of rooted "[]" ps] by (simp add: clean_parts_def)

lemma clean_parts_idem [simp]: "clean_parts rooted (clean_parts rooted ps) = clean_parts rooted ps"
  by (rule clean_parts_id) (rule clean_parts_normal)

lemma clean_parts_append: "clean_parts rooted (ps @ qs) = foldl (clean_step rooted) (clean_parts rooted ps) qs"
  by (simp add: clean_parts_def)

lemma clean_parts_prefix: "clean_parts rooted (clean_parts rooted ps @ qs) = clean_parts rooted (ps @ qs)"
  by (simp add: clean_parts_append)

lemma clean_step_Nil [simp]: "clean_step rooted r [] = r" "clean_step rooted r ''.'' = r"
  by (simp_all add: clean_step_def)

lemma clean_step_name: "p \<noteq> [] \<Longrightarrow> p \<noteq> ''.'' \<Longrightarrow> p \<noteq> ''..'' \<Longrightarrow> clean_step rooted r p = r @ [p]"
  by (simp add: clean_step_def)

lemma clean_step_up: "q \<noteq> ''..'' \<Longrightarrow> clean_step rooted (r @ [q]) ''..'' = r"
  by (simp add: clean_step_def)

text \<open>Cleaning a relative list first makes no difference to what it does to any base.\<close>

lemma clean_relative_absorb:
  "foldl (clean_step rooted) r (clean_parts False ps) = foldl (clean_step rooted) r ps"
proof (induction ps rule: rev_induct)
  case (snoc p ps)
  define C where "C = clean_parts False ps"
  have n: "normal_parts False C" by (simp add: C_def clean_parts_normal)
  have step: "clean_parts False (ps @ [p]) = clean_step False C p"
    by (simp add: clean_parts_append C_def)
  have IH: "foldl (clean_step rooted) r C = foldl (clean_step rooted) r ps" using snoc by (simp add: C_def)
  show ?case
  proof (cases "p = ''..'' \<and> C \<noteq> [] \<and> last C \<noteq> ''..''")
    case True
    then obtain D q where C: "C = D @ [q]" and q: "q \<noteq> ''..''" by (cases C rule: rev_cases) auto
    then have "q \<noteq> []" "q \<noteq> ''.''" using n by (simp_all add: normal_parts_snoc)
    then have "foldl (clean_step rooted) r ps = foldl (clean_step rooted) r D @ [q]"
      using IH q by (simp add: C clean_step_name)
    moreover have "clean_parts False (ps @ [p]) = D"
      unfolding step C using True clean_step_up[OF q] by simp
    ultimately show ?thesis using True q by (simp add: clean_step_up)
  next
    case False
    then have "clean_parts False (ps @ [p]) = (if p = [] \<or> p = ''.'' then C else C @ [p])"
      by (auto simp: step clean_step_def)
    then show ?thesis using IH by auto
  qed
qed (simp add: clean_parts_def)

lemma clean_step_set: "set (clean_step rooted r p) \<subseteq> insert p (set r)"
  by (auto simp: clean_step_def dest: in_set_butlastD)

lemma foldl_clean_set: "set (foldl (clean_step rooted) r ps) \<subseteq> set r \<union> set ps"
proof (induction ps arbitrary: r)
  case (Cons p ps)
  then show ?case using clean_step_set[of rooted r p] by fastforce
qed simp

lemma clean_parts_set: "set (clean_parts rooted ps) \<subseteq> set ps"
  using foldl_clean_set[of rooted "[]" ps] by (simp add: clean_parts_def)

section \<open>Cleaning a path\<close>

lemma path_segs_no_sep: "p \<in> set (path_segs s) \<Longrightarrow> CHR ''/'' \<notin> set p"
  unfolding path_segs_def by (rule split_on_parts)

lemma path_segs_abs: "path_segs (CHR ''/'' # s) = [] # path_segs s"
  by (simp add: path_segs_def)

lemma path_segs_append: "path_segs (a @ CHR ''/'' # b) = path_segs a @ path_segs b"
  by (simp add: path_segs_def split_on_append)

lemma path_segs_Nil [simp]: "path_segs [] = [[]]"
  by (simp add: path_segs_def)

lemma clean_parts_no_sep: "p \<in> set (clean_parts rooted (path_segs s)) \<Longrightarrow> CHR ''/'' \<notin> set p"
  using clean_parts_set path_segs_no_sep by blast

definition sep_free :: "go_string list \<Rightarrow> bool" where
  "sep_free ps \<longleftrightarrow> (\<forall>p\<in>set ps. CHR ''/'' \<notin> set p)"

lemma sep_free_clean: "sep_free (clean_parts rooted (path_segs s))"
  by (auto simp: sep_free_def dest: clean_parts_no_sep)

lemma segs_render:
  assumes "normal_parts rooted ps" and "sep_free ps"
  shows "clean_parts b (path_segs (render_path rooted ps)) = clean_parts b ps"
    and "go_is_abs (render_path rooted ps) = rooted"
proof -
  have j: "ps \<noteq> [] \<Longrightarrow> path_segs (join_with ''/'' ps) = ps"
    using assms(2) by (simp add: path_segs_def split_join sep_free_def)
  show "clean_parts b (path_segs (render_path rooted ps)) = clean_parts b ps"
    using j by (cases "ps = []")
      (simp_all add: render_path_def path_segs_abs clean_parts_def path_segs_def)
  have "\<not> has_prefix (join_with ''/'' ps) ''/''" if "ps = q # qs" for q qs
  proof -
    have "q \<noteq> []" "CHR ''/'' \<notin> set q" using assms that by (auto simp: normal_parts_def sep_free_def)
    then show ?thesis using that by (cases q; cases "qs = []") (auto simp: join_with_Cons)
  qed
  then show "go_is_abs (render_path rooted ps) = rooted"
    by (cases ps) (auto simp: render_path_def go_is_abs_def)
qed

lemma go_clean_idem: "go_clean (go_clean s) = go_clean s"
  using segs_render[OF clean_parts_normal sep_free_clean] by (simp add: go_clean_def)

lemma go_clean_abs [simp]: "go_is_abs (go_clean s) = go_is_abs s"
  using segs_render[OF clean_parts_normal sep_free_clean] by (simp add: go_clean_def)

lemma clean_segs_go_clean: "clean_parts (go_is_abs s) (path_segs (go_clean s)) = clean_parts (go_is_abs s) (path_segs s)"
  using segs_render(1)[OF clean_parts_normal sep_free_clean] by (simp add: go_clean_def)

lemma go_clean_nonempty [simp]: "go_clean s \<noteq> []"
proof -
  let ?ps = "clean_parts False (path_segs s)"
  have "join_with ''/'' ?ps \<noteq> []" if "?ps \<noteq> []"
    using clean_parts_normal[of False "path_segs s"] that
    by (cases ?ps rule: list.exhaust; cases "tl ?ps = []") (auto simp: normal_parts_def join_with_Cons)
  then show ?thesis by (auto simp: go_clean_def render_path_def)
qed

text \<open>A local path stays inside whatever directory it is joined to.\<close>

lemma go_is_local_parts:
  assumes "go_is_local s"
  shows "\<not> go_is_abs s" and "''..'' \<notin> set (clean_parts False (path_segs s))"
proof -
  show na: "\<not> go_is_abs s" using assms by (auto simp: go_is_local_def)
  let ?ps = "clean_parts False (path_segs s)"
  show "''..'' \<notin> set ?ps"
  proof
    assume d: "''..'' \<in> set ?ps"
    then obtain qs where q: "?ps = ''..'' # qs"
      using normal_parts_head[OF clean_parts_normal] by (metis list.collapse)
    then have "go_clean s = ''..'' \<or> has_prefix (go_clean s) ''../''"
      using na by (cases "qs = []") (simp_all add: go_clean_def render_path_def join_with_Cons)
    moreover have "''..'' \<in> set (path_segs s)" using d clean_parts_set by blast
    ultimately show False using assms na by (auto simp: go_is_local_def Let_def split: if_splits)
  qed
qed

lemma go_is_local_inside:
  assumes "go_is_local s"
  shows "prefix (clean_parts True base) (clean_parts True (base @ path_segs s))"
proof -
  let ?r = "clean_parts True base" let ?ps = "clean_parts False (path_segs s)"
  have "\<forall>p\<in>set ?ps. p \<noteq> [] \<and> p \<noteq> ''.'' \<and> p \<noteq> ''..''"
    using go_is_local_parts(2)[OF assms] clean_parts_normal[of False "path_segs s"]
    by (auto simp: normal_parts_def)
  moreover have "\<forall>p\<in>set ?r. p \<noteq> [] \<and> p \<noteq> ''.'' \<and> p \<noteq> ''..''"
    using clean_parts_normal[of True base] by (auto simp: normal_parts_def)
  ultimately have "normal_parts True (?r @ ?ps)" by (intro normal_parts_names) auto
  then have "foldl (clean_step True) ?r (path_segs s) = ?r @ ?ps"
    using foldl_clean_push clean_relative_absorb by metis
  then show ?thesis by (simp add: clean_parts_append)
qed

end
