(* ===== verification/Plugin_Manifest.thy ===== *)
theory Plugin_Manifest
  imports Go_Path
begin

text \<open>
  What the server checks before it runs a plugin: the version constraint of
  \<^verbatim>\<open>internal/plugin/version.go\<close> and the manifest of \<^verbatim>\<open>internal/plugin/manifest.go\<close> with the short name
  and the permissions of \<^verbatim>\<open>plugin.go\<close>.  A version is the source's array of three ints.  A localized text
  is a JSON value: a string, an object, or something else.
\<close>

section \<open>Versions\<close>

datatype semver_error = EmptyVersion | TooManyParts | InvalidPart go_string

fun parse_version_parts :: "nat \<Rightarrow> int list \<Rightarrow> go_string list \<Rightarrow> semver_error + int list" where
  "parse_version_parts i v [] = Inr v"
| "parse_version_parts i v (p # ps) =
     (case parse_int64 p of None \<Rightarrow> Inl (InvalidPart p)
      | Some n \<Rightarrow> if n < 0 then Inl (InvalidPart p) else parse_version_parts (i + 1) (v[i := n]) ps)"

definition parse_semver :: "go_string \<Rightarrow> semver_error + int list" where
  "parse_semver s0 =
     (let s = trim_space (trim_prefix s0 ''v'') in
      if s = [] then Inl EmptyVersion
      else let parts = split_on (CHR ''.'') s in
        if length parts > 3 then Inl TooManyParts else parse_version_parts 0 [0, 0, 0] parts)"

fun compare_from :: "nat \<Rightarrow> nat \<Rightarrow> int list \<Rightarrow> int list \<Rightarrow> int" where
  "compare_from i 0 a b = 0"
| "compare_from i (Suc k) a b =
     (if a ! i < b ! i then -1 else if a ! i > b ! i then 1 else compare_from (i + 1) k a b)"

definition compare_semver :: "int list \<Rightarrow> int list \<Rightarrow> int" where
  "compare_semver a b = compare_from 0 3 a b"

definition satisfies :: "int \<Rightarrow> go_string \<Rightarrow> bool" where
  "satisfies cmp op =
     (if op = ''>='' then cmp \<ge> 0 else if op = ''>'' then cmp > 0
      else if op = ''<='' then cmp \<le> 0 else if op = ''<'' then cmp < 0 else cmp = 0)"

definition version_ops :: "go_string list" where
  "version_ops = [''>='', ''<='', ''>'', ''<'', ''='']"

fun cut_op :: "go_string list \<Rightarrow> go_string \<Rightarrow> go_string \<times> go_string" where
  "cut_op [] rest = ([], rest)"
| "cut_op (op # ops) rest =
     (if has_prefix rest op then (op, trim_space (trim_prefix rest op)) else cut_op ops rest)"

datatype constraint_error = InvalidConstraint semver_error | Unsatisfied

text \<open>\<open>None\<close> is success; \<open>current\<close> is \<^verbatim>\<open>utils.CurrentVersion\<close>.\<close>

definition check_komari_version :: "go_string \<Rightarrow> go_string \<Rightarrow> constraint_error option" where
  "check_komari_version current constraint0 =
     (let constraint = trim_space constraint0 in
      if constraint = [] then None
      else let (op, rest) = cut_op version_ops constraint in
        case parse_semver rest of Inl e \<Rightarrow> Some (InvalidConstraint e)
        | Inr want \<Rightarrow>
            (case parse_semver current of Inl _ \<Rightarrow> None
             | Inr have_v \<Rightarrow> if satisfies (compare_semver have_v want) op then None else Some Unsatisfied))"

section \<open>Manifests\<close>

datatype json_text = JString go_string | JObject "(go_string \<times> json_text) list" | JOther

definition is_localized_text :: "json_text \<Rightarrow> bool" where
  "is_localized_text v = (case v of JString t \<Rightarrow> trim_space t \<noteq> []
     | JObject kvs \<Rightarrow> (\<exists>kv\<in>set kvs. case snd kv of JString t \<Rightarrow> trim_space t \<noteq> [] | _ \<Rightarrow> False)
     | JOther \<Rightarrow> False)"

record plugin_page =
  pp_file :: go_string
  pp_title :: json_text
  pp_icon :: go_string
  pp_type :: go_string
  pp_url :: go_string
  pp_visibility :: go_string

record permissions =
  allow_system_rpc :: bool
  allow_routes :: bool
  allow_hooks :: bool
  allow_html_inject :: bool
  allow_exec :: bool
  allow_listen :: bool
  allow_all_file_access :: bool

record plugin_info =
  pl_name :: json_text
  pl_short :: go_string
  pl_icon :: go_string
  pl_entry :: go_string
  pl_permissions :: permissions
  pl_pages :: "plugin_page list"

datatype manifest_error =
    ShortRequired | ShortInvalid | NameRequired | EntryEscapes | IconEscapes | PageVisibilityInvalid
  | PageIconEscapes | PageFileInvalid | PageUrlInvalid | PageTypeInvalid | PageTitleRequired

definition short_char :: "char \<Rightarrow> bool" where
  "short_char c \<longleftrightarrow> (97 \<le> byte c \<and> byte c \<le> 122) \<or> (65 \<le> byte c \<and> byte c \<le> 90) \<or>
     (48 \<le> byte c \<and> byte c \<le> 57) \<or> c = CHR ''_'' \<or> c = CHR ''-''"

text \<open>A rune outside ASCII is never allowed, and all its bytes are at least 128: the loop over runes and
  one over bytes agree.\<close>

definition valid_short :: "go_string \<Rightarrow> bool" where
  "valid_short s = (if s = [] \<or> s = ''default'' then False else (\<forall>c\<in>set s. short_char c))"

definition permissions_require_approval :: "permissions \<Rightarrow> bool" where
  "permissions_require_approval p \<longleftrightarrow> allow_system_rpc p \<or> allow_routes p \<or> allow_hooks p \<or>
     allow_html_inject p \<or> allow_exec p \<or> allow_listen p \<or> allow_all_file_access p"

text \<open>The regular expression \<^verbatim>\<open>^[a-zA-Z][a-zA-Z0-9+\-.]*:\<close> of \<^verbatim>\<open>urlSchemeRE\<close>.\<close>

definition ascii_alpha :: "char \<Rightarrow> bool" where
  "ascii_alpha c \<longleftrightarrow> (97 \<le> byte c \<and> byte c \<le> 122) \<or> (65 \<le> byte c \<and> byte c \<le> 90)"

definition scheme_char :: "char \<Rightarrow> bool" where
  "scheme_char c \<longleftrightarrow> ascii_alpha c \<or> (48 \<le> byte c \<and> byte c \<le> 57) \<or> c = CHR ''+'' \<or> c = CHR ''-'' \<or> c = CHR ''.''"

definition url_scheme_match :: "go_string \<Rightarrow> bool" where
  "url_scheme_match s = (case s of [] \<Rightarrow> False
     | c # t \<Rightarrow> ascii_alpha c \<and> has_prefix (dropWhile scheme_char t) '':'')"

definition is_safe_internal_path :: "go_string \<Rightarrow> bool" where
  "is_safe_internal_path target0 =
     (let target = trim_space target0 in
      if \<not> has_prefix target ''/'' \<or> has_prefix target ''//'' then False
      else if CHR 0x5C \<in> set target \<or> url_scheme_match target then False
      else ''..'' \<notin> set (split_on (CHR ''/'') target))"

text \<open>The validators update the record they are given; a failed one may leave it partly updated, which
  the callers discard.\<close>

definition validate_page :: "plugin_page \<Rightarrow> manifest_error + plugin_page" where
  "validate_page p0 =
     (let p1 = (if pp_type p0 = [] then p0\<lparr>pp_type := ''iframe''\<rparr> else p0);
          p = (if pp_visibility p1 = [] then p1\<lparr>pp_visibility := ''admin''\<rparr> else p1)
      in if pp_visibility p \<noteq> ''admin'' \<and> pp_visibility p \<noteq> ''public'' then Inl PageVisibilityInvalid
         else if pp_icon p \<noteq> [] \<and> \<not> go_is_local (pp_icon p) then Inl PageIconEscapes
         else if pp_type p = ''iframe'' \<and> (pp_file p = [] \<or> \<not> go_is_local (pp_file p)) then Inl PageFileInvalid
         else if pp_type p = ''redirect'' \<and> (pp_url p = [] \<or> \<not> is_safe_internal_path (pp_url p)) then Inl PageUrlInvalid
         else if pp_type p \<noteq> ''iframe'' \<and> pp_type p \<noteq> ''redirect'' then Inl PageTypeInvalid
         else if \<not> is_localized_text (pp_title p) then Inl PageTitleRequired
         else Inr p)"

fun validate_pages :: "plugin_page list \<Rightarrow> manifest_error + plugin_page list" where
  "validate_pages [] = Inr []"
| "validate_pages (p # ps) = (case validate_page p of Inl e \<Rightarrow> Inl e
     | Inr p' \<Rightarrow> (case validate_pages ps of Inl e \<Rightarrow> Inl e | Inr ps' \<Rightarrow> Inr (p' # ps')))"

definition validate_manifest :: "plugin_info \<Rightarrow> manifest_error + plugin_info" where
  "validate_manifest i0 =
     (if pl_short i0 = [] then Inl ShortRequired
      else if \<not> valid_short (pl_short i0) then Inl ShortInvalid
      else if \<not> is_localized_text (pl_name i0) then Inl NameRequired
      else let i = (if pl_entry i0 = [] then i0\<lparr>pl_entry := ''script.js''\<rparr> else i0) in
        if \<not> go_is_local (pl_entry i) then Inl EntryEscapes
        else if pl_icon i \<noteq> [] \<and> \<not> go_is_local (pl_icon i) then Inl IconEscapes
        else (case validate_pages (pl_pages i) of Inl e \<Rightarrow> Inl e | Inr ps \<Rightarrow> Inr (i\<lparr>pl_pages := ps\<rparr>)))"

section \<open>Version constraints mean what they say\<close>

definition semver_less :: "int \<times> int \<times> int \<Rightarrow> int \<times> int \<times> int \<Rightarrow> bool" where
  "semver_less a b \<longleftrightarrow> (case (a, b) of ((a1, a2, a3), (b1, b2, b3)) \<Rightarrow>
     a1 < b1 \<or> a1 = b1 \<and> (a2 < b2 \<or> a2 = b2 \<and> a3 < b3))"

definition op_holds :: "go_string \<Rightarrow> int \<times> int \<times> int \<Rightarrow> int \<times> int \<times> int \<Rightarrow> bool" where
  "op_holds op a b = (if op = ''>='' then \<not> semver_less a b else if op = ''>'' then semver_less b a
     else if op = ''<='' then \<not> semver_less b a else if op = ''<'' then semver_less a b else a = b)"

definition render_version :: "nat \<times> nat \<times> nat \<Rightarrow> go_string" where
  "render_version v = (case v of (a, b, c) \<Rightarrow> show_nat a @ ''.'' @ show_nat b @ ''.'' @ show_nat c)"

definition version_ints :: "nat \<times> nat \<times> nat \<Rightarrow> int \<times> int \<times> int" where
  "version_ints v = (case v of (a, b, c) \<Rightarrow> (int a, int b, int c))"

definition version_ok :: "nat \<times> nat \<times> nat \<Rightarrow> bool" where
  "version_ok v = (case v of (a, b, c) \<Rightarrow> int a \<le> int64_max \<and> int b \<le> int64_max \<and> int c \<le> int64_max)"

lemma compare_semver_sign:
  "compare_semver [a1, a2, a3] [b1, b2, b3] =
     (if semver_less (a1, a2, a3) (b1, b2, b3) then -1 else if semver_less (b1, b2, b3) (a1, a2, a3) then 1 else 0)"
  by (auto simp: compare_semver_def semver_less_def eval_nat_numeral)

lemma satisfies_op_holds:
  "satisfies (compare_semver [a1, a2, a3] [b1, b2, b3]) op = op_holds op (a1, a2, a3) (b1, b2, b3)"
  by (auto simp: compare_semver_sign satisfies_def op_holds_def semver_less_def)

lemma render_version_ends:
  "render_version v \<noteq> []" "48 \<le> byte (hd (render_version v))" "byte (hd (render_version v)) \<le> 57"
  "48 \<le> byte (last (render_version v))" "byte (last (render_version v)) \<le> 57"
  by (cases v; simp add: render_version_def show_nat_ends hd_append last_append)+

lemma split_render_version:
  "split_on (CHR ''.'') (render_version (a, b, c)) = [show_nat a, show_nat b, show_nat c]"
  by (simp add: render_version_def split_on_append split_on_no_sep show_nat_no_char)

lemma parse_render_version:
  assumes "version_ok v" and "p = [] \<or> p = ''v''"
  shows "parse_semver (p @ render_version v) = Inr (case v of (a, b, c) \<Rightarrow> [int a, int b, int c])"
proof -
  obtain a b c where v: "v = (a, b, c)" by (cases v) auto
  note e = render_version_ends[of v]
  have "hd (render_version v) \<noteq> CHR ''v''" using e by auto
  then have "\<not> has_prefix (render_version v) ''v''" using e(1) by (cases "render_version v") auto
  then have "trim_prefix (p @ render_version v) ''v'' = render_version v"
    using assms(2) by (auto simp: trim_prefix_def)
  moreover have "trim_space (render_version v) = render_version v"
    using e by (intro trim_space_graphic) auto
  ultimately show ?thesis
    using assms(1) e(1)
    by (simp add: parse_semver_def v split_render_version version_ok_def parse_int64_show)
qed

text \<open>
  a constraint made of an operator (or none), spaces, an optional v and a version accepts a server
  version exactly when the operator's relation holds between the two, in the lexicographic order.
\<close>

theorem check_constraint_meaning:
  assumes "version_ok cur" and "version_ok v" and "op = [] \<or> op \<in> set version_ops" and "p = [] \<or> p = ''v''"
  shows "check_komari_version (render_version cur) (op @ replicate k (CHR '' '') @ p @ render_version v) =
    (if op_holds op (version_ints cur) (version_ints v) then None else Some Unsatisfied)"
proof -
  define b where "b = p @ render_version v"
  note e = render_version_ends[of v]
  have b: "b \<noteq> []" "48 \<le> byte (hd b)" "byte (hd b) \<le> 57 \<or> hd b = CHR ''v''" "48 \<le> byte (last b)" "byte (last b) \<le> 57"
    using assms(4) e by (auto simp: b_def)
  have h: "hd b \<noteq> CHR ''<''" "hd b \<noteq> CHR ''>''" "hd b \<noteq> CHR ''=''" "byte (hd b) < 128" using b(3) by auto
  have tb: "trim_space b = b" using b h by (intro trim_space_graphic) auto
  define c where "c = trim_space (op @ replicate k (CHR '' '') @ b)"
  have "c \<noteq> [] \<and> cut_op version_ops c = (op, b)"
  proof (cases "op = []")
    case True
    then have "c = b" by (simp add: c_def trim_space_pad tb)
    then show ?thesis using True b(1) h by (cases b) (auto simp: version_ops_def)
  next
    case False
    then have ops: "op \<in> {''>='', ''<='', ''>'', ''<'', ''=''}" using assms(3) by (simp add: version_ops_def)
    then have "c = op @ replicate k (CHR '' '') @ b"
      unfolding c_def using b by (intro trim_space_graphic) auto
    moreover have "trim_space (replicate k (CHR '' '') @ b) = b" by (simp add: trim_space_pad tb)
    moreover have "\<not> has_prefix (replicate k (CHR '' '') @ b) ''=''"
      using b(1) h by (cases k; cases b) auto
    ultimately show ?thesis using ops by (auto simp: version_ops_def trim_prefix_def)
  qed
  then show ?thesis
    using parse_render_version[OF assms(2,4)] parse_render_version[OF assms(1), of "[]"]
    by (cases cur; cases v)
      (simp add: check_komari_version_def c_def b_def Let_def version_ints_def satisfies_op_holds)
qed

theorem check_constraint_meaning_witness:
  "check_komari_version ''0.0.1'' ''>=  v1.2.0'' = Some Unsatisfied \<and>
   check_komari_version ''0.0.1'' ''>=0.0.1'' = None"
  using check_constraint_meaning[of "(0, 0, 1)" "(1, 2, 0)" "''>=''" "''v''" 2]
    check_constraint_meaning[of "(0, 0, 1)" "(0, 0, 1)" "''>=''" "[]" 0]
  by (simp add: version_ok_def version_ops_def render_version_def show_nat.simps version_ints_def op_holds_def
      semver_less_def numeral_2_eq_2 digit_chars)

section \<open>A valid manifest stays in its directory\<close>

definition inside_dir :: "go_string list \<Rightarrow> go_string \<Rightarrow> bool" where
  "inside_dir base f \<longleftrightarrow> prefix (clean_parts True base) (clean_parts True (base @ path_segs f))"

definition page_ok :: "go_string list \<Rightarrow> plugin_page \<Rightarrow> bool" where
  "page_ok base p \<longleftrightarrow> pp_visibility p \<in> {''admin'', ''public''} \<and>
     (pp_icon p \<noteq> [] \<longrightarrow> inside_dir base (pp_icon p)) \<and>
     (pp_type p = ''iframe'' \<and> pp_file p \<noteq> [] \<and> inside_dir base (pp_file p) \<or>
      pp_type p = ''redirect'' \<and> is_safe_internal_path (pp_url p)) \<and> is_localized_text (pp_title p)"

lemma validate_page_ok: "validate_page p = Inr p' \<Longrightarrow> page_ok base p'"
  by (auto simp: validate_page_def page_ok_def inside_dir_def Let_def go_is_local_inside split: if_splits)

lemma validate_pages_ok: "validate_pages ps = Inr ps' \<Longrightarrow> list_all (page_ok base) ps' \<and> length ps' = length ps"
  by (induction ps arbitrary: ps') (auto simp: validate_page_ok split: sum.splits)

lemma short_char_graphic: "short_char c \<Longrightarrow> c \<noteq> CHR ''/'' \<and> c \<noteq> CHR ''.'' \<and> c \<noteq> CHR 0x5C \<and> c \<noteq> CHR '':''"
  by (auto simp: short_char_def)

lemma valid_short_segment:
  assumes "valid_short s"
  shows "path_segs s = [s]" and "s \<noteq> []" and "s \<noteq> ''.''" and "s \<noteq> ''..''"
proof -
  have ne: "s \<noteq> []" and sc: "\<forall>c\<in>set s. short_char c"
    using assms by (auto simp: valid_short_def split: if_splits)
  have ch: "CHR ''/'' \<notin> set s" "CHR ''.'' \<notin> set s" using sc short_char_graphic by blast+
  show "path_segs s = [s]" "s \<noteq> []" using ne ch by (simp_all add: path_segs_def split_on_no_sep)
  show "s \<noteq> ''.''" "s \<noteq> ''..''" using ch(2) by auto
qed

lemma clean_snoc_name: "n \<noteq> [] \<Longrightarrow> n \<noteq> ''.'' \<Longrightarrow> n \<noteq> ''..'' \<Longrightarrow> clean_parts True (d @ [n]) = clean_parts True d @ [n]"
  by (simp add: clean_parts_append clean_step_def)

text \<open>
  C27: whatever the manifest says, once it validates the plugin's own directory is one path element below
  the data directory, and the entry script, the icon and the files of all pages stay inside it; every
  page has a known type and visibility and a title.
\<close>

theorem valid_manifest_inside:
  "case validate_manifest i of Inl e \<Rightarrow> True | Inr i' \<Rightarrow>
     let dir = data @ path_segs (pl_short i') in
     clean_parts True dir = clean_parts True data @ [pl_short i'] \<and> pl_short i' = pl_short i \<and>
     pl_entry i' \<noteq> [] \<and> inside_dir dir (pl_entry i') \<and> (pl_icon i' = [] \<or> inside_dir dir (pl_icon i')) \<and>
     list_all (page_ok dir) (pl_pages i') \<and> length (pl_pages i') = length (pl_pages i)"
proof (cases "validate_manifest i")
  case (Inr i')
  then have v: "valid_short (pl_short i)" by (auto simp: validate_manifest_def split: if_splits)
  from Inr have s: "pl_short i' = pl_short i" "go_is_local (pl_entry i')"
    "pl_icon i' = [] \<or> go_is_local (pl_icon i')"
    by (auto simp: validate_manifest_def Let_def split: if_splits sum.splits)
  from Inr obtain ps where ps: "validate_pages (pl_pages i) = Inr ps" "pl_pages i' = ps"
    by (auto simp: validate_manifest_def Let_def split: if_splits sum.splits)
  have "pl_entry i' \<noteq> []" using s(2) by (auto simp: go_is_local_def)
  then show ?thesis
    using Inr s validate_pages_ok[OF ps(1)] ps(2) valid_short_segment[OF v]
      go_is_local_inside[of "pl_icon i'" "data @ [pl_short i]"] go_is_local_inside[OF s(2), of "data @ [pl_short i]"]
    by (auto simp: inside_dir_def clean_snoc_name Let_def)
qed simp

text \<open>
  A browser removes tabs and line breaks anywhere in a URL before it resolves it.  The check does not, so a
  target can pass it and still become a protocol-relative URL, which leaves the site.
\<close>

definition strip_tab_newline :: "go_string \<Rightarrow> go_string" where
  "strip_tab_newline s = filter (\<lambda>c. byte c \<noteq> 9 \<and> byte c \<noteq> 10 \<and> byte c \<noteq> 13) s"

text \<open>
  the redirect check rules out every absolute URL, network-path reference and parent segment as
  written; but a target with a tab after the first slash passes it although removing the tab gives a
  network-path reference to another host.
\<close>

theorem redirect_check:
  "(if is_safe_internal_path t
    then has_prefix (trim_space t) ''/'' \<and> \<not> has_prefix (trim_space t) ''//'' \<and>
         ''..'' \<notin> set (path_segs (trim_space t)) \<and> CHR 0x5C \<notin> set (trim_space t) else True) \<and>
   is_safe_internal_path (''/'' @ [CHR 0x09] @ ''/evil.example'') \<and>
   has_prefix (strip_tab_newline (''/'' @ [CHR 0x09] @ ''/evil.example'')) ''//''"
proof -
  have "trim_space (''/'' @ [CHR 0x09] @ ''/evil.example'') = ''/'' @ [CHR 0x09] @ ''/evil.example''"
    by (rule trim_space_graphic) simp_all
  then have "is_safe_internal_path (''/'' @ [CHR 0x09] @ ''/evil.example'')"
    by (simp add: is_safe_internal_path_def url_scheme_match_def ascii_alpha_def)
  then show ?thesis
    by (auto simp: is_safe_internal_path_def path_segs_def strip_tab_newline_def Let_def split: if_splits)
qed

end
