(* ===== verification/Js_Path_Posix.thy ===== *)
theory Js_Path_Posix
  imports Go_Path
begin

text \<open>
  The POSIX half of the path module of the JavaScript runtime, \<^verbatim>\<open>pkg/jsruntime/path/path.go\<close>, and the
  scan for a file extension it shares with the Windows half.  Loops over byte indices are recursions over
  the index; \<open>slice v a b\<close> is \<^verbatim>\<open>v[a:b]\<close>.  The current directory is the argument \<open>cwd\<close>.
\<close>

definition slice :: "go_string \<Rightarrow> nat \<Rightarrow> nat \<Rightarrow> go_string" where
  "slice v a b = drop a (take b v)"

text \<open>\<^verbatim>\<open>for e > lo && P(v[e-1]) { e-- }\<close>\<close>

fun back_while :: "(char \<Rightarrow> bool) \<Rightarrow> go_string \<Rightarrow> nat \<Rightarrow> nat \<Rightarrow> nat" where
  "back_while P v lo 0 = 0"
| "back_while P v lo (Suc e) = (if lo \<le> e \<and> P (v ! e) then back_while P v lo e else Suc e)"

definition win_drive_volume :: "go_string \<Rightarrow> go_string" where
  "win_drive_volume v =
     (case v of c # d # t \<Rightarrow>
        (if ((65 \<le> byte c \<and> byte c \<le> 90) \<or> (97 \<le> byte c \<and> byte c \<le> 122)) \<and> d = CHR '':'' then [c, d] else [])
      | _ \<Rightarrow> [])"

definition replace_char :: "char \<Rightarrow> char \<Rightarrow> go_string \<Rightarrow> go_string" where
  "replace_char a b = map (\<lambda>c. if c = a then b else c)"

section \<open>Resolving, normalizing and joining\<close>

definition posix_cwd :: "go_string \<Rightarrow> go_string" where
  "posix_cwd cwd0 =
     (let cwd1 = replace_char (CHR 0x5C) (CHR ''/'') cwd0;
          cwd2 = (if win_drive_volume cwd1 \<noteq> [] then trim_prefix cwd1 (win_drive_volume cwd1) else cwd1)
      in if has_prefix cwd2 ''/'' then cwd2 else ''/'' @ cwd2)"

fun resolve_loop :: "go_string \<Rightarrow> go_string list \<Rightarrow> go_string" where
  "resolve_loop resolved [] = resolved"
| "resolve_loop resolved (part # rest) =
     (if part = [] then resolve_loop resolved rest
      else let r = part @ ''/'' @ resolved in if has_prefix part ''/'' then r else resolve_loop r rest)"

definition posix_resolve :: "go_string \<Rightarrow> go_string list \<Rightarrow> go_string" where
  "posix_resolve cwd parts =
     (let r = go_clean (resolve_loop [] (rev parts @ [posix_cwd cwd]))
      in if has_prefix r ''/'' then r else ''/'' @ trim_left_of (\<lambda>c. c = CHR ''/'') r)"

definition posix_normalize :: "go_string \<Rightarrow> go_string" where
  "posix_normalize v =
     (if v = [] then ''.''
      else let r = go_clean v in if has_suffix v ''/'' \<and> r \<noteq> ''/'' then r @ ''/'' else r)"

definition posix_join :: "go_string list \<Rightarrow> go_string" where
  "posix_join parts =
     (let ne = filter (\<lambda>p. p \<noteq> []) parts in if ne = [] then ''.'' else posix_normalize (join_with ''/'' ne))"

definition posix_parts :: "go_string \<Rightarrow> go_string list" where
  "posix_parts v0 =
     (let v = trim_right_of (\<lambda>c. c = CHR ''/'') (trim_left_of (\<lambda>c. c = CHR ''/'') v0)
      in if v = [] then [] else split_on (CHR ''/'') v)"

fun common_len :: "('a \<Rightarrow> 'a \<Rightarrow> bool) \<Rightarrow> 'a list \<Rightarrow> 'a list \<Rightarrow> nat" where
  "common_len eq (x # xs) (y # ys) = (if eq x y then Suc (common_len eq xs ys) else 0)"
| "common_len eq xs ys = 0"

definition posix_relative :: "go_string \<Rightarrow> go_string \<Rightarrow> go_string \<Rightarrow> go_string" where
  "posix_relative cwd from0 to0 =
     (let fr = posix_resolve cwd [from0]; to = posix_resolve cwd [to0] in
      if fr = to then []
      else let fps = posix_parts fr; tps = posix_parts to; common = common_len (=) fps tps
           in join_with ''/'' (replicate (length fps - common) ''..'' @ drop common tps))"

section \<open>Taking a path apart\<close>

definition posix_basename :: "go_string \<Rightarrow> go_string" where
  "posix_basename v =
     (let e = back_while (\<lambda>c. c = CHR ''/'') v 0 (length v) in
      if e = 0 then [] else slice v (back_while (\<lambda>c. c \<noteq> CHR ''/'') v 0 e) e)"

record ext_state =
  start_dot :: int
  start_part :: int
  end_pos :: int
  matched_slash :: bool
  pre_dot :: int

definition ext_init :: ext_state where
  "ext_init = \<lparr>start_dot = -1, start_part = 0, end_pos = -1, matched_slash = True, pre_dot = 0\<rparr>"

fun ext_loop :: "(char \<Rightarrow> bool) \<Rightarrow> go_string \<Rightarrow> nat \<Rightarrow> ext_state \<Rightarrow> ext_state" where
  "ext_loop sep v 0 st = st"
| "ext_loop sep v (Suc i) st =
     (let c = v ! i in
      if sep c then (if \<not> matched_slash st then st\<lparr>start_part := int i + 1\<rparr> else ext_loop sep v i st)
      else
        let st1 = (if end_pos st = -1 then st\<lparr>matched_slash := False, end_pos := int i + 1\<rparr> else st);
            st2 = (if c = CHR ''.'' then
                     (if start_dot st1 = -1 then st1\<lparr>start_dot := int i\<rparr>
                      else if pre_dot st1 \<noteq> 1 then st1\<lparr>pre_dot := 1\<rparr> else st1)
                   else if start_dot st1 \<noteq> -1 then st1\<lparr>pre_dot := -1\<rparr> else st1)
        in ext_loop sep v i st2)"

definition path_sep :: "bool \<Rightarrow> char \<Rightarrow> bool" where
  "path_sep windows c \<longleftrightarrow> c = CHR ''/'' \<or> windows \<and> c = CHR 0x5C"

definition node_extname :: "go_string \<Rightarrow> bool \<Rightarrow> go_string" where
  "node_extname v windows =
     (let st = ext_loop (path_sep windows) v (length v) ext_init in
      if start_dot st = -1 \<or> end_pos st = -1 \<or> pre_dot st = 0 \<or>
         (pre_dot st = 1 \<and> start_dot st = end_pos st - 1 \<and> start_dot st = start_part st + 1)
      then [] else slice v (nat (start_dot st)) (nat (end_pos st)))"

record path_info =
  pi_root :: go_string
  pi_dir :: go_string
  pi_base :: go_string
  pi_ext :: go_string
  pi_name :: go_string

definition posix_parse :: "go_string \<Rightarrow> path_info" where
  "posix_parse v =
     (let root = (if has_prefix v ''/'' then ''/'' else []);
          root_end = (if has_prefix v ''/'' then 1 else 0);
          e = back_while (\<lambda>c. c = CHR ''/'') v root_end (length v);
          start = back_while (\<lambda>c. c \<noteq> CHR ''/'') v root_end e;
          base = slice v start e;
          dir = (if start = root_end then root
                 else if start > 0 then
                   (let d = take (start - 1) v in if d = [] \<and> root \<noteq> [] then root else d)
                 else []);
          ext = node_extname base False
      in \<lparr>pi_root = root, pi_dir = dir, pi_base = base, pi_ext = ext, pi_name = trim_suffix base ext\<rparr>)"

section \<open>Lemmas on the scans\<close>

lemma back_while_le: "back_while P v lo e \<le> e"
  by (induction e) auto

lemma back_while_ge: "lo \<le> e \<Longrightarrow> lo \<le> back_while P v lo e"
  by (induction e) auto

lemma back_while_all: "back_while P v lo e \<le> i \<Longrightarrow> i < e \<Longrightarrow> P (v ! i)"
  by (induction e) (auto split: if_splits simp: less_Suc_eq)

lemma back_while_stop: "lo < back_while P v lo e \<Longrightarrow> \<not> P (v ! (back_while P v lo e - 1))"
  by (induction e) (auto split: if_splits)

lemma slice_nth: "i < length (slice v a b) \<Longrightarrow> slice v a b ! i = v ! (a + i)"
  by (auto simp: slice_def less_diff_conv add.commute)

lemma slice_memD:
  assumes "c \<in> set (slice v a b)"
  obtains i where "a \<le> i" "i < b" "i < length v" "v ! i = c"
proof -
  obtain i where i: "i < length (slice v a b)" "slice v a b ! i = c" using assms by (auto simp: in_set_conv_nth)
  then have "a + i < b" "a + i < length v" by (auto simp: slice_def)
  then show thesis using that[of "a + i"] i by (simp add: slice_nth)
qed

lemma slice_split: "a \<le> b \<Longrightarrow> b \<le> length v \<Longrightarrow> take b v = take a v @ slice v a b"
  by (metis append_take_drop_id min.absorb1 slice_def take_take)

lemma all_sep_segs:
  "\<forall>c\<in>set s. c = CHR ''/'' \<Longrightarrow> path_segs s = replicate (Suc (length s)) []"
  by (induction s) (simp_all add: path_segs_def)

lemma foldl_clean_empties: "foldl (clean_step rooted) r (replicate n []) = r"
  by (induction n) simp_all

section \<open>Resolving is walking\<close>

text \<open>The reference: start in a directory and enter one part after the other.\<close>

definition enter :: "go_string list \<Rightarrow> go_string \<Rightarrow> go_string list" where
  "enter dir part = (if go_is_abs part then clean_parts True (path_segs part)
     else foldl (clean_step True) dir (path_segs part))"

definition walk :: "go_string \<Rightarrow> go_string list \<Rightarrow> go_string list" where
  "walk cwd parts = foldl enter (clean_parts True (path_segs (posix_cwd cwd))) parts"

lemma posix_cwd_abs: "go_is_abs (posix_cwd cwd)" "posix_cwd cwd \<noteq> []"
  by (auto simp: posix_cwd_def go_is_abs_def Let_def)

lemma resolve_loop_walk:
  "go_is_abs (resolve_loop r (rev parts @ [posix_cwd cwd])) \<and>
   clean_parts True (path_segs (resolve_loop r (rev parts @ [posix_cwd cwd]))) =
     foldl (clean_step True) (walk cwd parts) (path_segs r)"
proof (induction parts arbitrary: r rule: rev_induct)
  case Nil
  have "resolve_loop r (rev [] @ [posix_cwd cwd]) = posix_cwd cwd @ CHR ''/'' # r"
    using posix_cwd_abs[of cwd] by (simp add: go_is_abs_def)
  moreover have "go_is_abs (posix_cwd cwd @ CHR ''/'' # r)"
    using posix_cwd_abs(1)[of cwd] by (auto simp: go_is_abs_def)
  ultimately show ?case
    by (simp add: walk_def path_segs_append clean_parts_append)
next
  case (snoc part parts)
  show ?case
  proof (cases "part = []")
    case True
    then show ?thesis using snoc[of r] by (simp add: walk_def enter_def go_is_abs_def)
  next
    case False
    then show ?thesis
      using snoc[of "part @ ''/'' @ r"]
      by (auto simp: walk_def enter_def go_is_abs_def path_segs_append clean_parts_append elim: prefixE)
  qed
qed

lemma posix_resolve_eq:
  "posix_resolve cwd parts = go_clean (resolve_loop [] (rev parts @ [posix_cwd cwd]))"
  "posix_resolve cwd parts = render_path True (walk cwd parts)"
proof -
  let ?t = "resolve_loop [] (rev parts @ [posix_cwd cwd])"
  have "go_is_abs ?t" "clean_parts True (path_segs ?t) = walk cwd parts"
    using resolve_loop_walk[of "[]" parts cwd] by simp_all
  then have "go_clean ?t = render_path True (walk cwd parts)" by (simp add: go_clean_def)
  moreover show "posix_resolve cwd parts = go_clean ?t"
    using \<open>go_is_abs ?t\<close> go_clean_abs[of ?t] by (simp add: posix_resolve_def go_is_abs_def)
  ultimately show "posix_resolve cwd parts = render_path True (walk cwd parts)" by simp
qed

text \<open>
  resolving a list of parts, which scans them from the right and stops at the first absolute one, gives
  the directory reached by entering the parts from the left, starting in the current directory; the result
  is absolute and clean.
\<close>

theorem posix_resolve_walk:
  "posix_resolve cwd parts = render_path True (walk cwd parts) \<and> go_is_abs (posix_resolve cwd parts) \<and>
   go_clean (posix_resolve cwd parts) = posix_resolve cwd parts"
proof -
  have "go_is_abs (posix_resolve cwd parts)" by (simp add: posix_resolve_eq(2) go_is_abs_def render_path_def)
  moreover have "go_clean (posix_resolve cwd parts) = posix_resolve cwd parts"
    by (simp only: posix_resolve_eq(1) go_clean_idem)
  ultimately show ?thesis by (simp only: posix_resolve_eq(2)[symmetric] simp_thms)
qed

section \<open>Normalizing twice\<close>

lemma join_last:
  "ps \<noteq> [] \<Longrightarrow> (\<forall>p\<in>set ps. p \<noteq> []) \<Longrightarrow> join_with sep ps \<noteq> [] \<and> last (join_with sep ps) = last (last ps)"
proof (induction ps)
  case (Cons p ps)
  then show ?case by (cases "ps = []") (auto simp: join_with_Cons)
qed simp

lemma normal_sep_free_last:
  "normal_parts rooted ps \<Longrightarrow> sep_free ps \<Longrightarrow> ps \<noteq> [] \<Longrightarrow>
   join_with ''/'' ps \<noteq> [] \<and> last (join_with ''/'' ps) \<noteq> CHR ''/''"
proof -
  assume a: "normal_parts rooted ps" "sep_free ps" "ps \<noteq> []"
  then have "last ps \<in> set ps" "last ps \<noteq> []" by (auto simp: normal_parts_def)
  then have "last (last ps) \<noteq> CHR ''/''" using a(2) by (auto simp: sep_free_def dest: last_in_set)
  then show ?thesis using join_last[of ps "''/''"] a by (simp add: normal_parts_def)
qed

lemma go_clean_last: "go_clean v \<noteq> ''/'' \<Longrightarrow> last (go_clean v) \<noteq> CHR ''/''"
  using normal_sep_free_last[OF clean_parts_normal sep_free_clean, of "go_is_abs v" v]
  by (cases "clean_parts (go_is_abs v) (path_segs v) = []") (auto simp: go_clean_def render_path_def)

lemma suffix_slash: "suffix ''/'' v \<longleftrightarrow> v \<noteq> [] \<and> last v = CHR ''/''"
  by (cases v rule: rev_cases) auto

lemma go_clean_slash: "v \<noteq> [] \<Longrightarrow> go_clean (v @ ''/'') = go_clean v"
proof -
  assume "v \<noteq> []"
  then have "go_is_abs (v @ ''/'') = go_is_abs v" by (cases v) (auto simp: go_is_abs_def)
  then show ?thesis using path_segs_append[of v "[]"] by (simp add: go_clean_def clean_parts_append)
qed

text \<open>normalizing a POSIX path a second time changes nothing.\<close>

theorem posix_normalize_idem: "posix_normalize (posix_normalize v) = posix_normalize v"
proof -
  have dot: "posix_normalize ''.'' = ''.''"
    by (simp add: posix_normalize_def go_clean_def path_segs_def clean_parts_def render_path_def go_is_abs_def
        suffix_slash Let_def)
  let ?c = "go_clean v"
  have c: "?c \<noteq> []" "go_clean ?c = ?c" by (simp_all add: go_clean_idem)
  have "?c = ''/'' \<or> \<not> suffix ''/'' ?c" using go_clean_last[of v] suffix_slash by blast
  then have plain: "posix_normalize ?c = ?c" using c by (auto simp: posix_normalize_def Let_def)
  have "posix_normalize (?c @ ''/'') = ?c @ ''/''" if "?c \<noteq> ''/''"
    using that c go_clean_slash[of ?c] by (simp add: posix_normalize_def suffix_slash)
  moreover have "posix_normalize v = ''.'' \<or> posix_normalize v = ?c \<or>
      ?c \<noteq> ''/'' \<and> posix_normalize v = ?c @ ''/''" by (simp add: posix_normalize_def Let_def)
  ultimately show ?thesis using dot plain by fastforce
qed

section \<open>Relative paths\<close>

lemma enter_normal: "normal_parts True d \<Longrightarrow> normal_parts True (enter d p)"
  by (simp add: enter_def clean_parts_normal foldl_clean_normal)

lemma enter_sep_free: "sep_free d \<Longrightarrow> sep_free (enter d p)"
  using foldl_clean_set[of True d "path_segs p"] path_segs_no_sep[of _ p]
  by (auto simp: enter_def sep_free_def dest: clean_parts_no_sep)

lemma walk_normal: "normal_parts True (walk cwd parts)" "sep_free (walk cwd parts)"
proof -
  have "normal_parts True d \<Longrightarrow> normal_parts True (foldl enter d parts)" for d
    by (induction parts arbitrary: d) (simp_all add: enter_normal)
  then show "normal_parts True (walk cwd parts)" by (simp add: walk_def clean_parts_normal)
  have "sep_free d \<Longrightarrow> sep_free (foldl enter d parts)" for d
    by (induction parts arbitrary: d) (simp_all add: enter_sep_free)
  then show "sep_free (walk cwd parts)" by (simp add: walk_def sep_free_clean)
qed

lemma posix_parts_render:
  assumes "normal_parts True ps" and "sep_free ps"
  shows "posix_parts (render_path True ps) = ps"
proof (cases "ps = []")
  case False
  let ?j = "join_with ''/'' ps"
  have j: "?j \<noteq> []" "last ?j \<noteq> CHR ''/''" using normal_sep_free_last[OF assms False] by simp_all
  have "\<not> go_is_abs ?j"
    using segs_render(2)[of False ps] assms False by (simp add: normal_parts_def render_path_def)
  then have h: "hd ?j \<noteq> CHR ''/''" using j(1) by (cases ?j) (auto simp: go_is_abs_def)
  then have "dropWhile (\<lambda>c. c = CHR ''/'') (CHR ''/'' # ?j) = ?j"
    using j(1) by (cases ?j) auto
  moreover have "dropWhile (\<lambda>c. c = CHR ''/'') (rev ?j) = rev ?j"
    using j by (cases ?j rule: rev_cases) auto
  ultimately show ?thesis
    using j(1) assms(2) False
    by (simp add: posix_parts_def render_path_def trim_left_of_def trim_right_of_def split_join sep_free_def Let_def)
qed (simp add: posix_parts_def render_path_def trim_left_of_def trim_right_of_def)

lemma common_len_le: "common_len eq xs ys \<le> length xs" "common_len eq xs ys \<le> length ys"
  by (induction eq xs ys rule: common_len.induct) auto

lemma common_len_take: "take (common_len (=) xs ys) xs = take (common_len (=) xs ys) ys"
  by (induction "(=) :: 'a \<Rightarrow> 'a \<Rightarrow> bool" xs ys rule: common_len.induct) auto

lemma foldl_clean_up:
  assumes "''..'' \<notin> set d" and "n \<le> length d"
  shows "foldl (clean_step True) d (replicate n ''..'') = take (length d - n) d"
  using assms
proof (induction n arbitrary: d)
  case (Suc n)
  then obtain d' q where d: "d = d' @ [q]" by (cases d rule: rev_cases) auto
  then have "clean_step True d ''..'' = d'" using Suc.prems by (auto intro!: clean_step_up)
  then show ?case using Suc d by (simp add: Suc_diff_le)
qed simp

text \<open>
  the relative path from one place to another, entered from the first, always leads to the second, for
  any current directory and any two paths.
\<close>

theorem posix_relative_resolve:
  "posix_resolve cwd [from0, posix_relative cwd from0 to0] = posix_resolve cwd [to0]"
proof -
  define f where "f = walk cwd [from0]"
  define t where "t = walk cwd [to0]"
  have nf: "normal_parts True f" "sep_free f" and nt: "normal_parts True t" "sep_free t"
    by (simp_all add: f_def t_def walk_normal)
  have rf: "posix_resolve cwd [from0] = render_path True f" "posix_resolve cwd [to0] = render_path True t"
    using posix_resolve_eq(2) by (auto simp: f_def t_def)
  let ?r = "posix_relative cwd from0 to0"
  have "enter f ?r = t"
  proof (cases "render_path True f = render_path True t")
    case True
    then have "f = t" using posix_parts_render nf nt by metis
    moreover have "?r = []" using True by (simp add: posix_relative_def rf Let_def)
    ultimately show ?thesis by (simp add: enter_def go_is_abs_def)
  next
    case False
    define k where "k = common_len (=) f t"
    define R where "R = replicate (length f - k) ''..'' @ drop k t"
    have r: "?r = join_with ''/'' R"
      using False by (simp add: posix_relative_def rf Let_def posix_parts_render nf nt R_def k_def)
    have k: "k \<le> length f" "k \<le> length t" "take k f = take k t"
      unfolding k_def by (rule common_len_le common_len_take)+
    have "R \<noteq> []"
    proof
      assume "R = []"
      then have "length f = k" "length t = k" using k by (simp_all add: R_def)
      then show False using k(3) False by simp
    qed
    have sf: "sep_free R" using nt(2) by (auto simp: R_def sep_free_def dest: in_set_dropD)
    then have segs: "path_segs ?r = R" using \<open>R \<noteq> []\<close> by (simp add: r path_segs_def split_join sep_free_def)
    have "\<forall>p\<in>set R. p \<noteq> []" using nt(1) by (auto simp: R_def normal_parts_def dest: in_set_dropD)
    then have "hd R \<noteq> []" using \<open>R \<noteq> []\<close> by simp
    then have "\<not> go_is_abs ?r"
      using sf \<open>R \<noteq> []\<close> unfolding r
      by (cases R; cases "hd R"; cases "tl R = []") (auto simp: go_is_abs_def sep_free_def join_with_Cons)
    moreover have "''..'' \<notin> set f" using nf(1) by (simp add: normal_parts_def)
    then have "foldl (clean_step True) f R = foldl (clean_step True) (take k t) (drop k t)"
      using k foldl_clean_up[of f "length f - k"] by (simp add: R_def)
    moreover have "\<dots> = t" using foldl_clean_push[of True "take k t" "drop k t"] nt(1) by simp
    ultimately show ?thesis by (simp add: enter_def segs)
  qed
  then have "walk cwd [from0, ?r] = t" by (simp add: walk_def f_def)
  then show ?thesis using posix_resolve_eq(2) rf by (metis)
qed

section \<open>Taking apart and putting together\<close>

lemma go_is_abs_append: "d \<noteq> [] \<Longrightarrow> go_is_abs (d @ t) = go_is_abs d"
  by (cases d) (auto simp: go_is_abs_def)

lemma enter_append:
  assumes "d \<noteq> []" and "\<not> go_is_abs b"
  shows "enter (enter r d) b = enter r (d @ CHR ''/'' # b)"
  using assms by (simp add: enter_def go_is_abs_append path_segs_append clean_parts_append)

lemma foldl_clean_trailing:
  "\<forall>c\<in>set t. c = CHR ''/'' \<Longrightarrow> foldl (clean_step rooted) r (path_segs (b @ t)) = foldl (clean_step rooted) r (path_segs b)"
  by (cases t) (simp_all add: path_segs_append all_sep_segs foldl_clean_empties del: replicate_Suc)

lemma enter_trailing:
  assumes "\<forall>c\<in>set t. c = CHR ''/''" and "b \<noteq> []"
  shows "enter r (b @ t) = enter r b"
  using assms foldl_clean_trailing[of t] by (simp add: enter_def go_is_abs_append clean_parts_def)

lemma no_sep_not_abs: "\<forall>c\<in>set b. c \<noteq> CHR ''/'' \<Longrightarrow> \<not> go_is_abs b"
  by (cases b) (auto simp: go_is_abs_def)

text \<open>The cuts of a path: what precedes the last name, the name, and trailing separators.\<close>

definition name_end :: "go_string \<Rightarrow> nat \<Rightarrow> nat" where
  "name_end v lo = back_while (\<lambda>c. c = CHR ''/'') v lo (length v)"

definition name_start :: "go_string \<Rightarrow> nat \<Rightarrow> nat" where
  "name_start v lo = back_while (\<lambda>c. c \<noteq> CHR ''/'') v lo (name_end v lo)"

lemma name_bounds:
  assumes "lo \<le> length v"
  shows "lo \<le> name_start v lo" "name_start v lo \<le> name_end v lo" "name_end v lo \<le> length v"
  using assms by (simp_all add: name_start_def name_end_def back_while_le back_while_ge)

lemma name_cut:
  assumes "lo \<le> length v"
  shows "v = take (name_start v lo) v @ slice v (name_start v lo) (name_end v lo) @ drop (name_end v lo) v"
    and "\<forall>c\<in>set (slice v (name_start v lo) (name_end v lo)). c \<noteq> CHR ''/''"
    and "\<forall>c\<in>set (drop (name_end v lo) v). c = CHR ''/''"
    and "lo < name_start v lo \<Longrightarrow> v ! (name_start v lo - 1) = CHR ''/''"
proof -
  note b = name_bounds[OF assms]
  show "v = take (name_start v lo) v @ slice v (name_start v lo) (name_end v lo) @ drop (name_end v lo) v"
    using slice_split[OF b(2,3)] by (metis append.assoc append_take_drop_id)
  show "\<forall>c\<in>set (slice v (name_start v lo) (name_end v lo)). c \<noteq> CHR ''/''"
    by (auto elim!: slice_memD simp: name_start_def dest: back_while_all)
  show "\<forall>c\<in>set (drop (name_end v lo) v). c = CHR ''/''"
  proof
    fix c assume "c \<in> set (drop (name_end v lo) v)"
    then obtain i where "i < length (drop (name_end v lo) v)" "drop (name_end v lo) v ! i = c"
      by (auto simp: in_set_conv_nth)
    then show "c = CHR ''/''"
      using back_while_all[of "\<lambda>c. c = CHR ''/''" v lo "length v" "name_end v lo + i"] name_bounds[OF assms]
      by (simp add: name_end_def)
  qed
  show "lo < name_start v lo \<Longrightarrow> v ! (name_start v lo - 1) = CHR ''/''"
    using back_while_stop[of lo "\<lambda>c. c \<noteq> CHR ''/''" v "name_end v lo"] by (simp add: name_start_def)
qed

lemma take_before_sep:
  assumes "0 < n" and "n \<le> length v" and "v ! (n - 1) = c"
  shows "take n v = take (n - 1) v @ [c]"
  using assms take_Suc_conv_app_nth[of "n - 1" v] by simp

definition root_len :: "go_string \<Rightarrow> nat" where
  "root_len v = (if go_is_abs v then 1 else 0)"

lemma root_len_le: "root_len v \<le> length v"
  by (cases v) (auto simp: root_len_def go_is_abs_def)

lemma posix_parse_fields:
  "pi_base (posix_parse v) = slice v (name_start v (root_len v)) (name_end v (root_len v))"
  "pi_dir (posix_parse v) =
     (if name_start v (root_len v) = root_len v then take (root_len v) v else take (name_start v (root_len v) - 1) v)"
proof -
  have "take (Suc 0) v = ''/''" if "go_is_abs v" using that by (cases v) (auto simp: go_is_abs_def)
  moreover have "take (name_start v 1 - 1) v \<noteq> []" if "go_is_abs v" "name_start v 1 \<noteq> 1"
    using name_bounds(1)[of 1 v] that by (cases v) (auto simp: go_is_abs_def)
  moreover have "name_start v 0 > 0" if "name_start v 0 \<noteq> 0" using that by simp
  ultimately show "pi_base (posix_parse v) = slice v (name_start v (root_len v)) (name_end v (root_len v))"
    "pi_dir (posix_parse v) =
     (if name_start v (root_len v) = root_len v then take (root_len v) v else take (name_start v (root_len v) - 1) v)"
    by (auto simp: posix_parse_def root_len_def name_start_def name_end_def go_is_abs_def Let_def)
qed

text \<open>
  the directory and the base name that parse yields lead, entered one after the other, to the same
  place as the path itself; no path is an exception, whatever separators it repeats or ends with.
\<close>

theorem posix_parse_resolves:
  "posix_resolve cwd [pi_dir (posix_parse v), pi_base (posix_parse v)] = posix_resolve cwd [v]"
proof -
  let ?s = "name_start v (root_len v)" let ?e = "name_end v (root_len v)"
  let ?b = "slice v ?s ?e" let ?t = "drop ?e v"
  note bounds = name_bounds[OF root_len_le[of v]]
  note cut = name_cut[OF root_len_le[of v]]
  have nb: "\<not> go_is_abs ?b" using cut(2) by (rule no_sep_not_abs)
  have "enter (enter r (pi_dir (posix_parse v))) ?b = enter r v" for r
  proof (cases "?s = root_len v")
    case True
    then have dir: "pi_dir (posix_parse v) = take (root_len v) v" by (simp add: posix_parse_fields)
    have v: "v = take (root_len v) v @ ?b @ ?t" using cut(1) True by metis
    show ?thesis
    proof (cases "go_is_abs v")
      case abs: True
      then have t: "take (root_len v) v = ''/''" by (cases v) (auto simp: go_is_abs_def root_len_def)
      have "enter r v = clean_parts True (path_segs v)" using abs by (simp add: enter_def)
      also have "path_segs v = [] # path_segs (?b @ ?t)" using v t path_segs_abs by (metis append_Cons append_Nil)
      finally have "enter r v = foldl (clean_step True) [] (path_segs ?b)"
        using foldl_clean_trailing[OF cut(3)] by (simp add: clean_parts_def)
      then show ?thesis using nb by (simp add: dir t enter_def go_is_abs_def path_segs_abs clean_parts_def)
    next
      case False
      then have z: "root_len v = 0" by (simp add: root_len_def)
      have v': "v = ?b @ ?t" using v z by simp
      have "?b \<noteq> [] \<or> v = []"
      proof (rule ccontr)
        assume n: "\<not> (?b \<noteq> [] \<or> v = [])"
        then have "v = ?t" using v' by simp
        then have "hd v \<in> set ?t" using n hd_in_set by metis
        then have "hd v = CHR ''/''" using cut(3) by blast
        then show False using False n by (cases v) (auto simp: go_is_abs_def)
      qed
      moreover have "enter r v = enter r ?b" if "?b \<noteq> []" using enter_trailing[OF cut(3) that, of r] v' by simp
      moreover have "?b = v" if "v = []" using that by (simp add: slice_def)
      moreover have "enter r [] = r" by (simp add: enter_def go_is_abs_def)
      ultimately show ?thesis using z dir by auto
    qed
  next
    case False
    then have s: "root_len v < ?s" using bounds by simp
    have "take ?s v = take (?s - 1) v @ ''/''" using s bounds cut(4)[OF s] by (intro take_before_sep) auto
    then have v: "v = take (?s - 1) v @ CHR ''/'' # ?b @ ?t"
      using cut(1) by (metis append.assoc append_Cons append_Nil)
    have ne: "take (?s - 1) v \<noteq> []"
    proof
      assume "take (?s - 1) v = []"
      then have "go_is_abs v" using v by (metis append_Nil go_is_abs_def prefix_def append_Cons)
      then show False using s bounds \<open>take (?s - 1) v = []\<close> by (cases v) (auto simp: root_len_def)
    qed
    have "enter r v = enter r ((take (?s - 1) v @ CHR ''/'' # ?b) @ ?t)" using v by simp
    also have "\<dots> = enter r (take (?s - 1) v @ CHR ''/'' # ?b)" by (intro enter_trailing cut(3)) simp
    also have "\<dots> = enter (enter r (take (?s - 1) v)) ?b" using enter_append[OF ne nb] by simp
    finally show ?thesis using False by (simp add: posix_parse_fields)
  qed
  then have "walk cwd [pi_dir (posix_parse v), ?b] = walk cwd [v]" by (simp add: walk_def)
  then show ?thesis using posix_resolve_eq(2)[of cwd] by (metis posix_parse_fields(1))
qed

section \<open>The extension\<close>

text \<open>What the extension of a single name is: from its last dot on, unless the dot is the first byte or the
  name is \<open>..\<close>.\<close>

definition after_dot :: "go_string \<Rightarrow> go_string" where
  "after_dot b = rev (takeWhile (\<lambda>c. c \<noteq> CHR ''.'') (rev b))"

definition ext_spec :: "go_string \<Rightarrow> go_string" where
  "ext_spec b =
     (let t = after_dot b; s = take (length b - length t - 1) b in
      if CHR ''.'' \<notin> set b \<or> s = [] \<or> (s = ''.'' \<and> t = []) then [] else CHR ''.'' # t)"

text \<open>The scan over the reversed list.\<close>

definition ext_char :: "char \<Rightarrow> nat \<Rightarrow> ext_state \<Rightarrow> ext_state" where
  "ext_char c i st =
     (let st1 = (if end_pos st = -1 then st\<lparr>matched_slash := False, end_pos := int i + 1\<rparr> else st)
      in if c = CHR ''.'' then
           (if start_dot st1 = -1 then st1\<lparr>start_dot := int i\<rparr>
            else if pre_dot st1 \<noteq> 1 then st1\<lparr>pre_dot := 1\<rparr> else st1)
         else if start_dot st1 \<noteq> -1 then st1\<lparr>pre_dot := -1\<rparr> else st1)"

fun ext_rev :: "(char \<Rightarrow> bool) \<Rightarrow> go_string \<Rightarrow> ext_state \<Rightarrow> ext_state" where
  "ext_rev sep [] st = st"
| "ext_rev sep (c # r) st =
     (if sep c then (if \<not> matched_slash st then st\<lparr>start_part := int (length r) + 1\<rparr> else ext_rev sep r st)
      else ext_rev sep r (ext_char c (length r) st))"

lemma ext_loop_rev: "n \<le> length v \<Longrightarrow> ext_loop sep v n st = ext_rev sep (rev (take n v)) st"
proof (induction n arbitrary: st)
  case (Suc n)
  then have "rev (take (Suc n) v) = v ! n # rev (take n v)" by (simp add: take_Suc_conv_app_nth)
  then show ?case using Suc by (simp add: ext_char_def Let_def)
qed simp

lemma ext_rev_seps: "\<forall>c\<in>set r. sep c \<Longrightarrow> matched_slash st \<Longrightarrow> ext_rev sep (r @ q) st = ext_rev sep q st"
  by (induction r) simp_all

lemma ext_rev_plain:
  "\<forall>c\<in>set r. \<not> sep c \<and> c \<noteq> CHR ''.'' \<Longrightarrow> end_pos st \<noteq> -1 \<Longrightarrow> start_dot st = -1 \<Longrightarrow>
   ext_rev sep (r @ q) st = ext_rev sep q st"
  by (induction r) (simp_all add: ext_char_def)

lemma ext_rev_before:
  "\<forall>c\<in>set r. \<not> sep c \<Longrightarrow> end_pos st \<noteq> -1 \<Longrightarrow> start_dot st \<noteq> -1 \<Longrightarrow> r \<noteq> [] \<Longrightarrow>
   ext_rev sep (r @ q) st = ext_rev sep q (st\<lparr>pre_dot := if last r = CHR ''.'' then 1 else -1\<rparr>)"
proof (induction r arbitrary: st)
  case (Cons c r)
  let ?st = "st\<lparr>pre_dot := if c = CHR ''.'' then 1 else -1\<rparr>"
  have "ext_char c i st = ?st" for i using Cons.prems by (simp add: ext_char_def)
  then have "ext_rev sep ((c # r) @ q) st = ext_rev sep (r @ q) ?st" using Cons.prems by simp
  then show ?case using Cons.IH[of ?st] Cons.prems by (cases "r = []") auto
qed simp

lemma ext_rev_end:
  "q = [] \<or> sep (hd q) \<Longrightarrow> \<not> matched_slash st \<Longrightarrow> start_part st = 0 \<Longrightarrow>
   ext_rev sep q st = st\<lparr>start_part := int (length q)\<rparr>"
  by (cases q) simp_all

text \<open>The scan over one name, for each shape of the name.\<close>

lemma ext_rev_first:
  assumes "\<not> sep c" and "c \<noteq> CHR ''.''" and "\<forall>c\<in>set t. \<not> sep c \<and> c \<noteq> CHR ''.''"
  shows "ext_rev sep (c # t @ q) ext_init =
    ext_rev sep q (ext_init\<lparr>matched_slash := False, end_pos := int (length (t @ q)) + 1\<rparr>)"
  using assms ext_rev_plain[of t sep] by (simp add: ext_char_def ext_init_def)

lemma ext_rev_dot:
  assumes "\<not> sep (CHR ''.'')" and "\<forall>c\<in>set t. \<not> sep c \<and> c \<noteq> CHR ''.''"
  shows "ext_rev sep (t @ CHR ''.'' # q) ext_init =
    ext_rev sep q (ext_init\<lparr>matched_slash := False, end_pos := int (length (t @ CHR ''.'' # q)), start_dot := int (length q)\<rparr>)"
proof (cases t)
  case Nil
  then show ?thesis using assms(1) by (simp add: ext_char_def ext_init_def add.commute)
next
  case (Cons c t')
  then have "ext_rev sep (t @ CHR ''.'' # q) ext_init = ext_rev sep (CHR ''.'' # q)
      (ext_init\<lparr>matched_slash := False, end_pos := int (length (t' @ CHR ''.'' # q)) + 1\<rparr>)"
    using assms(2) ext_rev_first[of sep c t' "CHR ''.'' # q"] by simp
  then show ?thesis using assms(1) Cons by (simp add: ext_char_def ext_init_def)
qed

lemma last_dot_cases:
  obtains "CHR ''.'' \<notin> set b" | s t where "b = s @ CHR ''.'' # t" "CHR ''.'' \<notin> set t"
  using split_list_last[of "CHR ''.''" b] by blast

lemma ext_spec_dot:
  assumes "CHR ''.'' \<notin> set t"
  shows "ext_spec (s @ CHR ''.'' # t) = (if s = [] \<or> (s = ''.'' \<and> t = []) then [] else CHR ''.'' # t)"
proof -
  have "takeWhile (\<lambda>c. c \<noteq> CHR ''.'') (rev t @ CHR ''.'' # rev s) = rev t"
    using assms by (subst takeWhile_append2) auto
  then have "after_dot (s @ CHR ''.'' # t) = t" by (simp add: after_dot_def)
  then show ?thesis by (simp add: ext_spec_def)
qed

lemma node_extname_name:
  assumes v: "v = q @ b @ t" and b: "\<forall>c\<in>set b. \<not> path_sep w c" "b \<noteq> []" and t: "\<forall>c\<in>set t. path_sep w c"
    and q: "q = [] \<or> path_sep w (last q)"
  shows "node_extname v w = ext_spec b"
proof -
  let ?sep = "path_sep w"
  have qh: "rev q = [] \<or> ?sep (hd (rev q))" using q by (auto simp: hd_rev)
  have fin0: "\<not> matched_slash st \<Longrightarrow> start_part st = 0 \<Longrightarrow>
      ext_rev ?sep (rev q) st = st\<lparr>start_part := int (length (rev q))\<rparr>" for st
    using qh by (rule ext_rev_end)
  have scan: "ext_loop ?sep v (length v) ext_init = ext_rev ?sep (rev b @ rev q) ext_init"
    using t by (simp add: ext_loop_rev v ext_rev_seps ext_init_def)
  have nosep: "\<not> ?sep (CHR ''.'')" by (simp add: path_sep_def)
  show ?thesis
  proof (cases b rule: last_dot_cases)
    case 1
    obtain c r where r: "rev b = c # r" using b(2) by (cases "rev b") auto
    have "set (c # r) = set b" using r by (metis set_rev)
    then have "\<not> ?sep c" "c \<noteq> CHR ''.''" "\<forall>c\<in>set r. \<not> ?sep c \<and> c \<noteq> CHR ''.''" using b(1) 1 by auto
    then have "start_dot (ext_rev ?sep (rev b @ rev q) ext_init) = -1"
      using ext_rev_first[of ?sep c r "rev q"] fin0 by (simp add: r ext_init_def)
    then show ?thesis using 1 by (simp add: node_extname_def scan ext_spec_def)
  next
    case (2 s e)
    let ?st = "ext_init\<lparr>matched_slash := False, end_pos := int (length (q @ b)), start_dot := int (length (s @ q))\<rparr>"
    have "\<forall>c\<in>set (rev e). \<not> ?sep c \<and> c \<noteq> CHR ''.''" using b(1) 2 by auto
    then have st: "ext_rev ?sep (rev b @ rev q) ext_init = ext_rev ?sep (rev s @ rev q) ?st"
      using nosep ext_rev_dot[of ?sep "rev e" "rev s @ rev q"] by (simp add: 2 v add.commute add.left_commute)
    show ?thesis
    proof (cases "s = []")
      case True
      then have "pre_dot (ext_rev ?sep (rev b @ rev q) ext_init) = 0"
        using st fin0[of ?st] by (simp add: ext_init_def)
      then show ?thesis using ext_spec_dot[OF 2(2), of s] True 2 by (simp add: node_extname_def scan)
    next
      case False
      have "\<forall>c\<in>set (rev s). \<not> ?sep c" using b(1) 2 by auto
      then have fin: "ext_rev ?sep (rev b @ rev q) ext_init =
          ?st\<lparr>pre_dot := if hd s = CHR ''.'' then 1 else -1, start_part := int (length q)\<rparr>"
        using st False ext_rev_before[of "rev s" ?sep ?st "rev q"] fin0
        by (simp add: ext_init_def last_rev)
      define r where "r = ext_loop ?sep v (length v) ext_init"
      have r: "start_dot r = int (length s + length q)" "end_pos r = int (length q + length b)"
        "start_part r = int (length q)" "pre_dot r = (if hd s = CHR ''.'' then 1 else -1)"
        unfolding r_def scan fin by (simp_all add: ext_init_def)
      have len: "length b = length s + 1 + length e" using 2 by simp
      have cond: "(hd s = CHR ''.'' \<and> e = [] \<and> length s = 1) = (s = ''.'' \<and> e = [])"
        using False by (cases s) auto
      have sl: "slice v (length s + length q) (length q + length b) = CHR ''.'' # e"
        using 2 v by (simp add: slice_def)
      have neg: "(start_dot r = -1 \<or> end_pos r = -1 \<or> pre_dot r = 0 \<or>
         (pre_dot r = 1 \<and> start_dot r = end_pos r - 1 \<and> start_dot r = start_part r + 1)) = (s = ''.'' \<and> e = [])"
        unfolding cond[symmetric] using len by (auto simp: r)
      show ?thesis
        unfolding node_extname_def r_def[symmetric] Let_def neg 2(1) ext_spec_dot[OF 2(2)]
        using False sl by (simp add: r(1,2) nat_add_distrib flip: 2(1))
    qed
  qed
qed

text \<open>
  the backward scan for a file extension, with its five state variables, gives the extension of the
  base name: from the last dot on, unless that dot is the first byte or the name is two dots; trailing
  separators and earlier path elements do not matter.
\<close>

lemma node_extname_spec: "node_extname v False = ext_spec (posix_basename v)"
proof -
  let ?s = "name_start v 0" let ?e = "name_end v 0"
  note cut = name_cut[of 0 v, simplified]
  have base: "posix_basename v = (if ?e = 0 then [] else slice v ?s ?e)"
    by (simp add: posix_basename_def name_start_def name_end_def Let_def)
  have b: "\<forall>c\<in>set (slice v ?s ?e). \<not> path_sep False c" "\<forall>c\<in>set (drop ?e v). path_sep False c"
    using cut(2,3) by (simp_all add: path_sep_def)
  show ?thesis
  proof (cases "slice v ?s ?e = []")
    case True
    then have "?s = ?e" using name_bounds[of 0 v] by (auto simp: slice_def)
    have "?e = 0"
    proof (rule ccontr)
      assume "?e \<noteq> 0"
      then have "v ! (?e - 1) = CHR ''/''" using cut(4) \<open>?s = ?e\<close> by simp
      moreover have "v ! (?e - 1) \<noteq> CHR ''/''"
        using back_while_stop[of 0 "\<lambda>c. c = CHR ''/''" v "length v"] \<open>?e \<noteq> 0\<close> by (simp add: name_end_def)
      ultimately show False by simp
    qed
    then have "\<forall>c\<in>set (rev v). path_sep False c" using b(2) by simp
    then have "ext_loop (path_sep False) v (length v) ext_init = ext_init"
      using ext_rev_seps[of "rev v" "path_sep False" ext_init "[]"] by (simp add: ext_loop_rev ext_init_def)
    then show ?thesis using \<open>?e = 0\<close> base by (simp add: node_extname_def ext_init_def ext_spec_def)
  next
    case False
    then have e: "?e \<noteq> 0" by (auto simp: slice_def)
    have "take ?s v = [] \<or> path_sep False (last (take ?s v))"
    proof (cases "?s = 0")
      case s: False
      then have "take ?s v = take (?s - 1) v @ ''/''" using name_bounds[of 0 v] cut(4) by (intro take_before_sep) auto
      then have "last (take ?s v) = CHR ''/''" by (metis last_snoc)
      then show ?thesis by (simp add: path_sep_def)
    qed simp
    then show ?thesis using node_extname_name[OF cut(1) b(1) False b(2)] e base by simp
  qed
qed

lemma ext_spec_suffix: "suffix (ext_spec b) b"
proof (cases b rule: last_dot_cases)
  case 1
  then show ?thesis by (simp add: ext_spec_def)
next
  case (2 s t)
  then show ?thesis using ext_spec_dot[OF 2(2), of s] by (simp add: suffix_def)
qed

lemma posix_parse_name: "pi_name (posix_parse v) = trim_suffix (pi_base (posix_parse v)) (pi_ext (posix_parse v))"
  and posix_parse_ext: "pi_ext (posix_parse v) = node_extname (pi_base (posix_parse v)) False"
  by (simp_all add: posix_parse_def Let_def)

lemma trim_suffix_append: "suffix e b \<Longrightarrow> trim_suffix b e @ e = b"
  by (auto simp: trim_suffix_def suffix_def)

lemma back_while_take: "n \<le> length v \<Longrightarrow> take (back_while P v 0 n) v = rev (dropWhile P (rev (take n v)))"
  by (induction n) (auto simp: take_Suc_conv_app_nth)

lemma back_while_slice:
  "n \<le> length v \<Longrightarrow> slice v (back_while P v 0 n) n = rev (takeWhile P (rev (take n v)))"
proof (induction n)
  case (Suc n)
  then show ?case
    using back_while_le[of P v 0 n] by (auto simp: take_Suc_conv_app_nth slice_def)
qed (simp add: slice_def)

lemma posix_basename_rev:
  "posix_basename v = rev (takeWhile (\<lambda>c. c \<noteq> CHR ''/'') (dropWhile (\<lambda>c. c = CHR ''/'') (rev v)))"
proof -
  let ?e = "back_while (\<lambda>c. c = CHR ''/'') v 0 (length v)"
  have "rev (take ?e v) = dropWhile (\<lambda>c. c = CHR ''/'') (rev v)" using back_while_take[of "length v" v] by simp
  moreover have "?e \<le> length v" by (rule back_while_le)
  ultimately show ?thesis
    using back_while_slice[of ?e v "\<lambda>c. c \<noteq> CHR ''/''"] by (auto simp: posix_basename_def Let_def)
qed

lemma posix_basename_cut:
  assumes "v = q @ b @ t" and "\<forall>c\<in>set b. c \<noteq> CHR ''/''" and "\<forall>c\<in>set t. c = CHR ''/''"
    and "q = [] \<or> last q = CHR ''/''" and "b = [] \<Longrightarrow> \<forall>c\<in>set q. c = CHR ''/''"
  shows "posix_basename v = b"
proof -
  have "dropWhile (\<lambda>c. c = CHR ''/'') (rev v) = dropWhile (\<lambda>c. c = CHR ''/'') (rev b @ rev q)"
    unfolding assms(1) using assms(3) dropWhile_append2[of "rev t" "\<lambda>c. c = CHR ''/''" "rev b @ rev q"] by simp
  also have "takeWhile (\<lambda>c. c \<noteq> CHR ''/'') \<dots> = rev b"
  proof (cases "b = []")
    case True
    then have d: "dropWhile (\<lambda>c. c = CHR ''/'') (rev q) = []" using assms(5) by (simp add: dropWhile_eq_Nil_conv)
    show ?thesis by (simp add: True d del: dropWhile_eq_Nil_conv)
  next
    case False
    then obtain c r where r: "rev b = c # r" by (cases "rev b") auto
    then have "c \<noteq> CHR ''/''" using assms(2) by (metis list.set_intros(1) set_rev)
    then have "dropWhile (\<lambda>c. c = CHR ''/'') (rev b @ rev q) = rev b @ rev q" by (simp add: r)
    moreover have "takeWhile (\<lambda>c. c \<noteq> CHR ''/'') (rev q) = []" using assms(4) by (cases q rule: rev_cases) auto
    ultimately show ?thesis
      using assms(2) takeWhile_append2[of "rev b" "\<lambda>c. c \<noteq> CHR ''/''" "rev q"] by simp
  qed
  finally show ?thesis by (simp add: posix_basename_rev)
qed

lemma posix_basename_self: "\<forall>c\<in>set b. c \<noteq> CHR ''/'' \<Longrightarrow> posix_basename b = b"
  by (rule posix_basename_cut[of b "[]" b "[]"]) simp_all

text \<open>
  parse splits the base name exactly into name and extension, in that order, and its base is what
  basename returns and its extension what extname returns.
\<close>

theorem posix_parse_base:
  "pi_name (posix_parse v) @ pi_ext (posix_parse v) = pi_base (posix_parse v) \<and>
   pi_base (posix_parse v) = posix_basename v \<and> pi_ext (posix_parse v) = node_extname v False"
proof -
  let ?b = "pi_base (posix_parse v)"
  note cut = name_cut[OF root_len_le[of v]]
  have nb: "\<forall>c\<in>set ?b. c \<noteq> CHR ''/''" using cut(2) by (simp add: posix_parse_fields)
  then have pb: "posix_basename ?b = ?b" by (rule posix_basename_self)
  have base: "?b = posix_basename v"
  proof -
    let ?s = "name_start v (root_len v)" let ?e = "name_end v (root_len v)"
    have "take ?s v = [] \<or> last (take ?s v) = CHR ''/''"
    proof (cases "root_len v < ?s")
      case True
      then have "take ?s v = take (?s - 1) v @ ''/''"
        using name_bounds[OF root_len_le[of v]] cut(4) by (intro take_before_sep) auto
      then show ?thesis by (metis last_snoc)
    next
      case False
      then have "?s = root_len v" using name_bounds[OF root_len_le[of v]] by simp
      then show ?thesis by (cases v) (auto simp: root_len_def go_is_abs_def)
    qed
    moreover have "?b = [] \<Longrightarrow> \<forall>c\<in>set (take ?s v). c = CHR ''/''"
    proof -
      assume "?b = []"
      then have se: "?s = ?e" using name_bounds[OF root_len_le[of v]] by (auto simp: posix_parse_fields slice_def)
      have "\<not> root_len v < ?s"
        using cut(4) back_while_stop[of "root_len v" "\<lambda>c. c = CHR ''/''" v "length v"]
        unfolding se by (auto simp: name_end_def)
      then have "?s = root_len v" using name_bounds[OF root_len_le[of v]] by simp
      then show ?thesis by (cases v) (auto simp: root_len_def go_is_abs_def)
    qed
    ultimately show ?thesis
      using posix_basename_cut[OF cut(1)] nb cut(3) by (simp add: posix_parse_fields)
  qed
  have ext: "pi_ext (posix_parse v) = ext_spec ?b" by (simp add: posix_parse_ext node_extname_spec pb)
  then have "suffix (pi_ext (posix_parse v)) ?b" by (simp add: ext_spec_suffix)
  then show ?thesis using base ext by (simp add: posix_parse_name trim_suffix_append node_extname_spec)
qed

section \<open>The directory name\<close>

lemma go_dir_cut:
  assumes "v = d @ CHR ''/'' # b" and "\<forall>c\<in>set b. c \<noteq> CHR ''/''"
  shows "go_dir v = go_clean (d @ ''/'')"
proof -
  have "dropWhile (\<lambda>c. c \<noteq> CHR ''/'') (rev b @ CHR ''/'' # rev d) = CHR ''/'' # rev d"
    using assms(2) dropWhile_append2[of "rev b" "\<lambda>c. c \<noteq> CHR ''/''" "CHR ''/'' # rev d"] by simp
  then show ?thesis by (simp add: go_dir_def assms(1))
qed

lemma enter_clean: "enter r (go_clean v) = enter r v"
proof (cases "go_is_abs v")
  case True
  then show ?thesis using clean_segs_go_clean[of v] by (simp add: enter_def)
next
  case False
  then have "clean_parts False (path_segs (go_clean v)) = clean_parts False (path_segs v)"
    using clean_segs_go_clean[of v] by simp
  then have "foldl (clean_step True) r (path_segs (go_clean v)) = foldl (clean_step True) r (path_segs v)"
    using clean_relative_absorb by metis
  then show ?thesis using False by (simp add: enter_def)
qed

text \<open>
  dirname and basename together lead to where a path without a trailing slash leads; with a trailing
  slash they do not, since dirname (Go's path.Dir) then returns the whole path while basename drops the
  slash, and parse reports another directory than dirname.
\<close>

theorem posix_dirname_basename:
  "(\<not> suffix ''/'' v \<longrightarrow> posix_resolve cwd [go_dir v, posix_basename v] = posix_resolve cwd [v]) \<and>
   go_dir ''/a/b/'' = ''/a/b'' \<and> posix_basename ''/a/b/'' = ''b'' \<and> pi_dir (posix_parse ''/a/b/'') = ''/a''"
proof (intro conjI impI)
  assume ns: "\<not> suffix ''/'' v"
  have "enter (enter r (go_dir v)) (posix_basename v) = enter r v" for r
  proof (cases "CHR ''/'' \<in> set v")
    case True
    then obtain d b where v: "v = d @ CHR ''/'' # b" "CHR ''/'' \<notin> set b" using split_list_last by metis
    then have nb: "\<forall>c\<in>set b. c \<noteq> CHR ''/''" "b \<noteq> []" using ns by auto
    have base: "posix_basename v = b" by (rule posix_basename_cut[of v "d @ ''/''" b "[]"]) (use v nb in auto)
    have dir: "enter r (go_dir v) = enter r (d @ ''/'')" by (simp add: go_dir_cut[OF v(1) nb(1)] enter_clean)
    have "\<not> go_is_abs b" using nb(1) by (rule no_sep_not_abs)
    then have "enter (enter r (d @ ''/'')) b = enter r (d @ CHR ''/'' # CHR ''/'' # b)"
      using enter_append[of "d @ ''/''" b r] by simp
    also have "\<dots> = enter r v"
    proof -
      have "path_segs (d @ CHR ''/'' # CHR ''/'' # b) = path_segs d @ [] # path_segs b"
        by (simp add: path_segs_append path_segs_abs)
      moreover have "path_segs v = path_segs d @ path_segs b" by (simp add: v(1) path_segs_append)
      moreover have "go_is_abs (d @ CHR ''/'' # CHR ''/'' # b) = go_is_abs v"
        by (cases d) (simp_all add: v(1) go_is_abs_def)
      ultimately show ?thesis by (simp add: enter_def clean_parts_def)
    qed
    finally show ?thesis by (simp add: base dir)
  next
    case False
    then have nv: "\<forall>c\<in>set v. c \<noteq> CHR ''/''" by auto
    then have base: "posix_basename v = v" by (rule posix_basename_self)
    have "go_dir v = ''.''" using nv
      by (simp add: go_dir_def go_clean_def render_path_def go_is_abs_def clean_parts_def dropWhile_eq_Nil_conv[THEN iffD2])
    then show ?thesis by (simp add: base enter_def[of r] go_is_abs_def path_segs_def)
  qed
  then show "posix_resolve cwd [go_dir v, posix_basename v] = posix_resolve cwd [v]"
    using posix_resolve_eq(2)[of cwd] by (simp add: walk_def)
next
  show "go_dir ''/a/b/'' = ''/a/b''"
    by (simp add: go_dir_def go_clean_def render_path_def go_is_abs_def path_segs_def clean_parts_def clean_step_def)
  show "posix_basename ''/a/b/'' = ''b''" by (simp add: posix_basename_rev)
  show "pi_dir (posix_parse ''/a/b/'') = ''/a''"
    by (simp add: posix_parse_def Let_def eval_nat_numeral)
qed

theorem posix_dirname_basename_witness:
  "posix_resolve ''/home'' [go_dir ''a//b.js'', posix_basename ''a//b.js''] = posix_resolve ''/home'' [''a//b.js'']"
  using posix_dirname_basename[of "''a//b.js''" "''/home''"] by (simp add: suffix_def append_eq_Cons_conv)

end
