(* ===== verification/Js_Path_Win.thy ===== *)
theory Js_Path_Win
  imports Js_Path_Posix
begin

text \<open>
  The Windows half of the path module of the JavaScript runtime, \<^verbatim>\<open>pkg/jsruntime/path/path.go\<close>, and the
  exported functions that choose between the two halves.  \<^verbatim>\<open>cleanWinParts\<close> is the loop \<open>clean_parts\<close> of
  \<open>Go_Path\<close>.  \<^verbatim>\<open>strings.EqualFold\<close> is modelled on ASCII text.  The properties of an object passed to
  format are a record, a missing property being the empty string.
\<close>

abbreviation bslash :: char where "bslash \<equiv> CHR 0x5C"

definition is_win_sep :: "char \<Rightarrow> bool" where
  "is_win_sep c \<longleftrightarrow> c = bslash \<or> c = CHR ''/''"

definition equal_fold :: "go_string \<Rightarrow> go_string \<Rightarrow> bool" where
  "equal_fold a b \<longleftrightarrow> to_lower a = to_lower b"

section \<open>Volume, root and rest\<close>

definition split_win_path :: "go_string \<Rightarrow> go_string \<times> go_string \<times> go_string" where
  "split_win_path v0 =
     (let v = replace_char (CHR ''/'') bslash v0;
          trim = trim_left_of (\<lambda>c. c = bslash);
          drive = win_drive_volume v
      in if drive \<noteq> [] then
           (let rest = drop (length drive) v in
            if rest \<noteq> [] \<and> is_win_sep (hd rest) then (drive, [bslash], trim rest) else (drive, [], rest))
         else
           let parts = (if has_prefix v [bslash, bslash] then fields_func (\<lambda>c. c = bslash) (trim v) else []) in
           if length parts \<ge> 2 then
             ([bslash, bslash] @ parts ! 0 @ [bslash] @ parts ! 1, [bslash],
              trim (trim_prefix (trim (trim_prefix (trim v) (parts ! 0))) (parts ! 1)))
           else if has_prefix v [bslash] then ([], [bslash], trim v)
           else ([], [], v))"

definition clean_win_parts :: "go_string \<Rightarrow> bool \<Rightarrow> go_string list" where
  "clean_win_parts rest absolute = clean_parts absolute (fields_func is_win_sep rest)"

section \<open>Normalizing, joining and resolving\<close>

definition win_normalize :: "go_string \<Rightarrow> go_string" where
  "win_normalize v =
     (if v = [] then ''.''
      else
        let trailing = is_win_sep (last v);
            (volume, root, rest) = split_win_path v;
            parts = clean_win_parts rest (root \<noteq> []);
            r0 = volume @ root @ join_with [bslash] parts;
            r1 = (if r0 = [] then ''.'' else if volume \<noteq> [] \<and> root = [] \<and> parts = [] then volume @ ''.'' else r0)
        in if trailing \<and> parts \<noteq> [] \<and> \<not> has_suffix r1 [bslash] then r1 @ [bslash] else r1)"

definition win_join :: "go_string list \<Rightarrow> go_string" where
  "win_join parts =
     (let ne = filter (\<lambda>p. p \<noteq> []) parts in if ne = [] then ''.'' else win_normalize (join_with [bslash] ne))"

record win_state =
  w_device :: go_string
  w_tail :: go_string
  w_absolute :: bool

text \<open>A slot is a part, or \<open>None\<close> for the last round of the loop (index -1).\<close>

definition win_part :: "go_string \<Rightarrow> win_state \<Rightarrow> go_string option \<Rightarrow> go_string" where
  "win_part cwd st slot = (case slot of Some p \<Rightarrow> p
     | None \<Rightarrow>
         if w_device st = [] then cwd
         else (case split_win_path cwd of (cwd_device, cwd_root, _) \<Rightarrow>
           if equal_fold cwd_device (w_device st) \<and> cwd_root \<noteq> [] then cwd else w_device st @ [bslash]))"

definition win_take :: "go_string \<Rightarrow> go_string \<Rightarrow> go_string \<Rightarrow> win_state \<Rightarrow> win_state" where
  "win_take device root rest st =
     (let st1 = (if device \<noteq> [] then st\<lparr>w_device := device\<rparr> else st)
      in if w_absolute st1 then st1
         else st1\<lparr>w_tail := (if rest \<noteq> [] then rest @ [bslash] @ w_tail st1 else w_tail st1),
                  w_absolute := root \<noteq> []\<rparr>)"

fun win_resolve_loop :: "go_string \<Rightarrow> go_string option list \<Rightarrow> win_state \<Rightarrow> win_state" where
  "win_resolve_loop cwd [] st = st"
| "win_resolve_loop cwd (slot # slots) st =
     (let part = win_part cwd st slot in
      if part = [] then win_resolve_loop cwd slots st
      else case split_win_path part of (device, root, rest) \<Rightarrow>
        if device \<noteq> [] \<and> w_device st \<noteq> [] \<and> \<not> equal_fold device (w_device st)
        then win_resolve_loop cwd slots st
        else let st' = win_take device root rest st
             in if w_absolute st' \<and> w_device st' \<noteq> [] then st' else win_resolve_loop cwd slots st')"

definition win_resolve_state :: "go_string \<Rightarrow> go_string list \<Rightarrow> win_state" where
  "win_resolve_state cwd parts =
     win_resolve_loop cwd (map Some (rev parts) @ [None]) \<lparr>w_device = [], w_tail = [], w_absolute = False\<rparr>"

definition win_resolve :: "go_string \<Rightarrow> go_string list \<Rightarrow> go_string" where
  "win_resolve cwd parts =
     (let st = win_resolve_state cwd parts;
          tail = join_with [bslash] (clean_win_parts (w_tail st) (w_absolute st))
      in if w_absolute st then (if w_device st \<noteq> [] then w_device st @ [bslash] else [bslash]) @ tail
         else let r = w_device st @ tail in if r = [] then ''.'' else r)"

definition win_relative :: "go_string \<Rightarrow> go_string \<Rightarrow> go_string \<Rightarrow> go_string" where
  "win_relative cwd from0 to0 =
     (let fr = win_resolve cwd [from0]; to = win_resolve cwd [to0] in
      if equal_fold fr to then []
      else case split_win_path fr of (fvol, _, frest) \<Rightarrow> case split_win_path to of (tvol, _, trest) \<Rightarrow>
        if \<not> equal_fold fvol tvol then to
        else let fps = clean_win_parts frest True; tps = clean_win_parts trest True;
                 common = common_len equal_fold fps tps
             in join_with [bslash] (replicate (length fps - common) ''..'' @ drop common tps))"

section \<open>Taking a path apart\<close>

fun last_sep_index :: "(char \<Rightarrow> bool) \<Rightarrow> go_string \<Rightarrow> nat \<Rightarrow> int" where
  "last_sep_index P v 0 = -1"
| "last_sep_index P v (Suc i) = (if P (v ! i) then int i else last_sep_index P v i)"

definition win_basename :: "go_string \<Rightarrow> go_string" where
  "win_basename v0 =
     (let v = trim_right_of is_win_sep v0 in
      if v = [] then []
      else let start = nat (last_sep_index is_win_sep v (length v) + 1); drive = win_drive_volume v
           in drop (if drive \<noteq> [] \<and> start < length drive then length drive else start) v)"

definition win_parse :: "go_string \<Rightarrow> path_info" where
  "win_parse v0 =
     (let v = replace_char (CHR ''/'') bslash v0 in
      case split_win_path v of (volume, root_sep, rest) \<Rightarrow>
        if has_prefix volume [bslash, bslash] \<and> rest = [] then
          (let root = (if has_suffix v [bslash] then volume @ [bslash] else volume)
           in \<lparr>pi_root = root, pi_dir = root, pi_base = [], pi_ext = [], pi_name = []\<rparr>)
        else
          let root = (if volume \<noteq> [] \<and> root_sep = [] then volume else volume @ root_sep);
              e = back_while is_win_sep rest 0 (length rest);
              start = back_while (\<lambda>c. \<not> is_win_sep c) rest 0 e;
              base = slice rest start e;
              dir = (if start = 0 then root else root @ take (start - 1) rest);
              ext = node_extname base True
          in \<lparr>pi_root = root, pi_dir = dir, pi_base = base, pi_ext = ext, pi_name = trim_suffix base ext\<rparr>)"

definition win_dirname :: "go_string \<Rightarrow> go_string" where
  "win_dirname v =
     (case split_win_path v of (volume, root, _) \<Rightarrow>
        let trimmed = trim_right_of is_win_sep v;
            index = last_sep_index is_win_sep trimmed (length trimmed)
        in if index < int (length volume) then
             (if root \<noteq> [] then volume @ root else if volume \<noteq> [] then volume else ''.'')
           else let r = trim_right_of is_win_sep (take (nat index) trimmed)
                in if r = volume then volume @ root else r)"

section \<open>The exported functions\<close>

definition js_normalize :: "bool \<Rightarrow> go_string \<Rightarrow> go_string" where
  "js_normalize windows v = (if windows then win_normalize v else posix_normalize v)"

definition js_join :: "bool \<Rightarrow> go_string list \<Rightarrow> go_string" where
  "js_join windows parts = (if windows then win_join parts else posix_join parts)"

definition js_dirname :: "bool \<Rightarrow> go_string \<Rightarrow> go_string" where
  "js_dirname windows v = (if windows then win_dirname v else go_dir v)"

definition js_is_absolute :: "bool \<Rightarrow> go_string \<Rightarrow> bool" where
  "js_is_absolute windows v = (if windows then fst (snd (split_win_path v)) \<noteq> [] else go_is_abs v)"

definition js_basename :: "bool \<Rightarrow> go_string \<Rightarrow> go_string option \<Rightarrow> go_string" where
  "js_basename windows v ext =
     (let r = (if windows then win_basename v else posix_basename v)
      in case ext of Some s \<Rightarrow> if has_suffix r s then trim_suffix r s else r | None \<Rightarrow> r)"

definition js_format :: "bool \<Rightarrow> path_info \<Rightarrow> go_string" where
  "js_format windows p =
     (let dir = (if pi_dir p = [] then pi_root p else pi_dir p);
          base = (if pi_base p = [] then
                    pi_name p @ (if pi_ext p \<noteq> [] \<and> \<not> has_prefix (pi_ext p) ''.'' then ''.'' @ pi_ext p else pi_ext p)
                  else pi_base p)
      in if dir = [] then base else js_join windows [dir, base])"

definition to_namespaced_path :: "bool \<Rightarrow> go_string \<Rightarrow> go_string \<Rightarrow> go_string" where
  "to_namespaced_path windows cwd v =
     (if \<not> windows \<or> v = [] then v
      else let r = win_resolve cwd [v] in
        if has_prefix r [bslash, bslash, CHR ''?'', bslash] \<or> has_prefix r [bslash, bslash, CHR ''.'', bslash] then r
        else if has_prefix r [bslash, bslash] then
          [bslash, bslash, CHR ''?'', bslash] @ ''UNC'' @ [bslash] @ trim_left_of (\<lambda>c. c = bslash) r
        else if win_drive_volume r \<noteq> [] then [bslash, bslash, CHR ''?'', bslash] @ r
        else v)"

section \<open>Resolving from an absolute directory\<close>

definition rooted_cwd :: "go_string \<Rightarrow> bool" where
  "rooted_cwd cwd \<longleftrightarrow> fst (split_win_path cwd) \<noteq> [] \<and> fst (snd (split_win_path cwd)) \<noteq> []"

lemma win_take_device: "w_device (win_take d r t st) = (if d \<noteq> [] then d else w_device st)"
  by (simp add: win_take_def Let_def)

lemma win_take_absolute: "w_absolute (win_take d r t st) = (w_absolute st \<or> r \<noteq> [])"
  by (simp add: win_take_def Let_def)

definition drive_letter :: "char \<Rightarrow> bool" where
  "drive_letter c \<longleftrightarrow> (65 \<le> byte c \<and> byte c \<le> 90) \<or> (97 \<le> byte c \<and> byte c \<le> 122)"

definition plain_name :: "go_string \<Rightarrow> bool" where
  "plain_name a \<longleftrightarrow> a \<noteq> [] \<and> (\<forall>c\<in>set a. c \<noteq> bslash \<and> c \<noteq> CHR ''/'')"

text \<open>A volume: a drive, or a server and a share.\<close>

definition is_volume :: "go_string \<Rightarrow> bool" where
  "is_volume d \<longleftrightarrow> (\<exists>c. d = [c, CHR '':''] \<and> drive_letter c) \<or>
     (\<exists>a b. d = bslash # bslash # a @ bslash # b \<and> plain_name a \<and> plain_name b)"

lemma win_drive_volume_cases:
  "win_drive_volume v = [] \<or> (\<exists>c t. v = c # CHR '':'' # t \<and> drive_letter c \<and> win_drive_volume v = [c, CHR '':''])"
  by (auto simp: win_drive_volume_def drive_letter_def split: list.splits)

lemma win_drive_volume_drive: "drive_letter c \<Longrightarrow> win_drive_volume (c # CHR '':'' # t) = [c, CHR '':'']"
  by (simp add: win_drive_volume_def drive_letter_def)

lemma win_drive_volume_bslash: "win_drive_volume (bslash # t) = []"
  by (cases t) (simp_all add: win_drive_volume_def)

lemma drive_letter_not: "drive_letter c \<Longrightarrow> c \<noteq> bslash \<and> c \<noteq> CHR ''/''"
  by (auto simp: drive_letter_def)

lemma split_by_no: "\<forall>c\<in>set a. \<not> P c \<Longrightarrow> split_by P a = [a]"
  by (induction a) auto

lemma split_by_append: "\<forall>c\<in>set a. \<not> P c \<Longrightarrow> P x \<Longrightarrow> split_by P (a @ x # t) = a # split_by P t"
  by (induction a) (auto split: list.splits)

lemma fields_func_append:
  "a \<noteq> [] \<Longrightarrow> \<forall>c\<in>set a. \<not> P c \<Longrightarrow> P x \<Longrightarrow> fields_func P (a @ x # t) = a # fields_func P t"
  by (simp add: fields_func_def split_by_append)

lemma fields_func_single: "a \<noteq> [] \<Longrightarrow> \<forall>c\<in>set a. \<not> P c \<Longrightarrow> fields_func P a = [a]"
  by (simp add: fields_func_def split_by_no)

lemma fields_func_plain:
  "p \<in> set (fields_func (\<lambda>c. c = bslash) (trim_left_of Q (replace_char (CHR ''/'') bslash v))) \<Longrightarrow> plain_name p"
proof -
  let ?v = "trim_left_of Q (replace_char (CHR ''/'') bslash v)"
  assume p: "p \<in> set (fields_func (\<lambda>c. c = bslash) ?v)"
  have split_sub: "q \<in> set (split_by P s) \<Longrightarrow> set q \<subseteq> set s" for P q s
    by (induction s arbitrary: q) (auto split: list.splits if_splits, blast)
  have "set p \<subseteq> set ?v" using p split_sub by (auto simp: fields_func_def)
  moreover have "CHR ''/'' \<notin> set ?v"
    by (auto simp: trim_left_of_def replace_char_def dest: set_dropWhileD split: if_splits)
  ultimately show ?thesis using fields_func_parts[OF p] by (auto simp: plain_name_def)
qed

lemma split_win_volume:
  assumes "split_win_path v = (d, r, t)" and "d \<noteq> []"
  shows "is_volume d"
proof (cases "win_drive_volume (replace_char (CHR ''/'') bslash v) = []")
  case True
  let ?p = "fields_func (\<lambda>c. c = bslash) (trim_left_of (\<lambda>c. c = bslash) (replace_char (CHR ''/'') bslash v))"
  have l: "length ?p \<ge> 2" and d: "d = [bslash, bslash] @ ?p ! 0 @ [bslash] @ ?p ! 1"
    using assms True by (auto simp: split_win_path_def Let_def split: if_splits)
  have "plain_name (?p ! 0)" "plain_name (?p ! 1)"
    using l by (auto intro!: fields_func_plain nth_mem)
  then show ?thesis using d unfolding is_volume_def by auto
next
  case False
  then have "d = win_drive_volume (replace_char (CHR ''/'') bslash v)"
    using assms by (auto simp: split_win_path_def Let_def split: if_splits)
  then show ?thesis
    using False win_drive_volume_cases[of "replace_char (CHR ''/'') bslash v"] by (auto simp: is_volume_def)
qed

lemma replace_char_id: "a \<notin> set s \<Longrightarrow> replace_char a b s = s"
  by (induction s) (auto simp: replace_char_def)

lemma trim_left_head: "t = [] \<or> \<not> P (hd t) \<Longrightarrow> trim_left_of P t = t"
  by (cases t) (auto simp: trim_left_of_def)

lemma plain_name_no: "plain_name a \<Longrightarrow> CHR ''/'' \<notin> set a \<and> bslash \<notin> set a \<and> a \<noteq> []"
  unfolding plain_name_def by blast

lemma is_volume_no_slash: "is_volume d \<Longrightarrow> CHR ''/'' \<notin> set d"
  unfolding is_volume_def by (elim disjE exE conjE) (simp_all add: plain_name_no drive_letter_not[THEN conjunct2, symmetric])

text \<open>A volume, a separator and a tail split into just these.\<close>

lemma split_win_rooted:
  assumes d: "is_volume d" and t: "\<forall>c\<in>set t. c \<noteq> CHR ''/''" "t = [] \<or> hd t \<noteq> bslash"
  shows "split_win_path (d @ bslash # t) = (d, [bslash], t)"
proof -
  let ?P = "\<lambda>c. c = bslash"
  have "CHR ''/'' \<notin> set (d @ bslash # t)" using is_volume_no_slash[OF d] t(1) by auto
  then have rep: "replace_char (CHR ''/'') bslash (d @ bslash # t) = d @ bslash # t" by (rule replace_char_id)
  have tt: "trim_left_of ?P (bslash # t) = t" using t(2) trim_left_head[of t ?P] by (simp add: trim_left_of_def)
  show ?thesis
  proof (cases "\<exists>c. d = [c, CHR '':''] \<and> drive_letter c")
    case True
    then show ?thesis using rep tt by (auto simp: split_win_path_def win_drive_volume_drive is_win_sep_def)
  next
    case False
    then obtain a b where ab: "d = bslash # bslash # a @ bslash # b" "plain_name a" "plain_name b"
      using d by (auto simp: is_volume_def)
    let ?v = "bslash # bslash # a @ bslash # b @ bslash # t"
    have a: "a \<noteq> []" "\<forall>c\<in>set a. \<not> ?P c" and b: "b \<noteq> []" "\<forall>c\<in>set b. \<not> ?P c" using ab by (auto simp: plain_name_def)
    have trim: "trim_left_of ?P ?v = a @ bslash # b @ bslash # t"
      using a by (cases a) (auto simp: trim_left_of_def)
    have parts: "fields_func ?P (a @ bslash # b @ bslash # t) = a # b # fields_func ?P t"
      using a b by (simp add: fields_func_append)
    have "trim_left_of ?P (trim_prefix (a @ bslash # b @ bslash # t) a) = b @ bslash # t"
      using b by (cases b) (auto simp: trim_prefix_def trim_left_of_def)
    moreover have "trim_left_of ?P (trim_prefix (b @ bslash # t) b) = t" using tt by (simp add: trim_prefix_def)
    ultimately show ?thesis
      using rep by (simp add: split_win_path_def ab(1) win_drive_volume_bslash trim parts Let_def)
  qed
qed

text \<open>The loop keeps the device a volume and ends with a device and a root.\<close>

lemma win_loop_rooted:
  assumes "rooted_cwd cwd" and "w_device st = [] \<or> is_volume (w_device st)" and "\<not> (w_absolute st \<and> w_device st \<noteq> [])"
  shows "w_absolute (win_resolve_loop cwd (map Some ps @ [None]) st) \<and>
         is_volume (w_device (win_resolve_loop cwd (map Some ps @ [None]) st))"
  using assms(2,3)
proof (induction ps arbitrary: st)
  case Nil
  obtain cd cr ct where c: "split_win_path cwd = (cd, cr, ct)" by (metis prod_cases3)
  then have cne: "cd \<noteq> []" "cr \<noteq> []" "cwd \<noteq> []" "is_volume cd"
    using assms(1) split_win_volume by (auto simp: rooted_cwd_def split_win_path_def replace_char_def win_drive_volume_def trim_left_of_def)
  have dev: "split_win_path (w_device st @ [bslash]) = (w_device st, [bslash], [])" if "w_device st \<noteq> []"
    using that Nil.prems split_win_rooted[of "w_device st" "[]"] by simp
  show ?case
  proof (cases "w_device st = []")
    case True
    then show ?thesis using c cne
      by (simp add: win_part_def win_take_device win_take_absolute Let_def)
  next
    case False
    then show ?thesis
    proof (cases "equal_fold cd (w_device st)")
      case True
      then show ?thesis using False c cne
        by (simp add: win_part_def win_take_device win_take_absolute Let_def)
    next
      case ne: False
      then show ?thesis using False c dev Nil.prems
        by (simp add: win_part_def win_take_device win_take_absolute Let_def equal_fold_def)
    qed
  qed
next
  case (Cons p ps)
  obtain d r t where d: "split_win_path p = (d, r, t)" by (metis prod_cases3)
  let ?st = "win_take d r t st"
  have "w_device ?st = [] \<or> is_volume (w_device ?st)"
    using Cons.prems split_win_volume[OF d] by (simp add: win_take_device)
  then show ?case
    using Cons.IH[of st] Cons.IH[of ?st] Cons.prems d by (auto simp: win_part_def Let_def)
qed

lemma join_no_sep: "\<forall>p\<in>set ps. c \<notin> set p \<Longrightarrow> c \<noteq> b \<Longrightarrow> c \<notin> set (join_with [b] ps)"
proof (induction ps)
  case (Cons p ps)
  then show ?case by (cases "ps = []") (auto simp: join_with_Cons)
qed simp

lemma join_hd: "ps \<noteq> [] \<Longrightarrow> hd ps \<noteq> [] \<Longrightarrow> hd (join_with sep ps) = hd (hd ps)"
  by (cases ps; cases "tl ps = []") (auto simp: join_with_Cons)

lemma clean_win_plain: "p \<in> set (clean_win_parts rest rooted) \<Longrightarrow> plain_name p"
  using clean_parts_set[of rooted "fields_func is_win_sep rest"] fields_func_parts[of p is_win_sep rest]
  by (auto simp: clean_win_parts_def plain_name_def is_win_sep_def)

text \<open>
  from an absolute current directory every resolution, whatever mixture of drives, shares, rooted and
  relative parts it is given, ends in an absolute path: a volume, the root and a tail of plain names, with
  no dot segments left.
\<close>

theorem win_resolve_absolute:
  assumes "rooted_cwd cwd"
  shows "\<exists>d ps. win_resolve cwd parts = d @ bslash # join_with [bslash] ps \<and> is_volume d \<and> normal_parts True ps \<and>
    (\<forall>p\<in>set ps. plain_name p) \<and> split_win_path (win_resolve cwd parts) = (d, [bslash], join_with [bslash] ps)"
proof -
  define st where "st = win_resolve_state cwd parts"
  define ps where "ps = clean_win_parts (w_tail st) True"
  have st: "w_absolute st" "is_volume (w_device st)"
    using win_loop_rooted[OF assms, of "\<lparr>w_device = [], w_tail = [], w_absolute = False\<rparr>" "rev parts"]
    by (simp_all add: st_def win_resolve_state_def)
  then have "w_device st \<noteq> []" by (auto simp: is_volume_def)
  then have r: "win_resolve cwd parts = w_device st @ bslash # join_with [bslash] ps"
    using st by (simp add: win_resolve_def st_def[symmetric] ps_def Let_def)
  have n: "normal_parts True ps" by (simp add: ps_def clean_win_parts_def clean_parts_normal)
  have pl: "\<forall>p\<in>set ps. plain_name p" by (auto simp: ps_def dest: clean_win_plain)
  have "\<forall>c\<in>set (join_with [bslash] ps). c \<noteq> CHR ''/''"
    using join_no_sep[of ps "CHR ''/''" bslash] pl by (auto simp: plain_name_def)
  moreover have "join_with [bslash] ps = [] \<or> hd (join_with [bslash] ps) \<noteq> bslash"
  proof (cases ps)
    case (Cons p q)
    then have "hd (join_with [bslash] ps) = hd p" "p \<noteq> []" "bslash \<notin> set p"
      using join_hd[of ps "[bslash]"] pl by (auto simp: plain_name_def)
    then show ?thesis by (metis hd_in_set)
  qed simp
  ultimately have "split_win_path (win_resolve cwd parts) = (w_device st, [bslash], join_with [bslash] ps)"
    unfolding r by (rule split_win_rooted[OF st(2)])
  then show ?thesis using r st(2) n pl by blast
qed

theorem win_resolve_absolute_witness:
  "\<exists>d ps. win_resolve ''C:/work'' [''..'', ''D:x''] = d @ bslash # join_with [bslash] ps \<and> normal_parts True ps"
proof -
  have "rooted_cwd ''C:/work''"
    by (simp add: rooted_cwd_def split_win_path_def replace_char_def win_drive_volume_def is_win_sep_def Let_def)
  from win_resolve_absolute[OF this, of "[''..'', ''D:x'']"] show ?thesis by blast
qed

text \<open>
  normalizing can change what a Windows path means: the relative path to a file named like a drive
  becomes an absolute path on that drive.
\<close>

theorem win_normalize_drive:
  "let v = [CHR ''.'', bslash, CHR ''C'', CHR '':'', bslash] @ ''x'' in
   \<not> js_is_absolute True v \<and> win_normalize v = [CHR ''C'', CHR '':'', bslash] @ ''x'' \<and>
   js_is_absolute True (win_normalize v)"
proof -
  have s: "split_win_path [CHR ''.'', bslash, CHR ''C'', CHR '':'', bslash, CHR ''x''] =
      ([], [], [CHR ''.'', bslash, CHR ''C'', CHR '':'', bslash, CHR ''x''])"
    by (simp add: split_win_path_def replace_char_def win_drive_volume_def Let_def)
  have f: "clean_win_parts [CHR ''.'', bslash, CHR ''C'', CHR '':'', bslash, CHR ''x''] False = [''C:'', ''x'']"
    by (simp add: clean_win_parts_def fields_func_def is_win_sep_def clean_parts_def clean_step_def)
  have n: "win_normalize [CHR ''.'', bslash, CHR ''C'', CHR '':'', bslash, CHR ''x''] = [CHR ''C'', CHR '':'', bslash, CHR ''x'']"
    by (simp add: win_normalize_def s f is_win_sep_def)
  have "split_win_path [CHR ''C'', CHR '':'', bslash, CHR ''x''] = (''C:'', [bslash], ''x'')"
    by (simp add: split_win_path_def replace_char_def win_drive_volume_def is_win_sep_def trim_left_of_def Let_def)
  then show ?thesis by (simp add: n js_is_absolute_def s)
qed

end
