(* ===== verification/Upload_Store.thy ===== *)
theory Upload_Store
  imports Prelude
begin

text \<open>
  Chunked uploads: the store of \<^verbatim>\<open>web/upload/chunk.go\<close> and its HTTP handler \<^verbatim>\<open>web/upload/handler.go\<close>.
  The disk maps the identifier of an upload to its directory: the metadata file, the published chunk
  files and the merged archive.  Temporary files, which no operation looks up again, are not part of it.
  A file is a list of bytes of any type \<open>'b\<close>.  Every system call may fail: \<open>io n\<close> says that the n-th one
  of the operation does.  The identifiers come from package uuid: what is accepted as one is the
  parameter \<open>valid_id\<close>.
\<close>

section \<open>Chunks\<close>

definition chunk_size :: int where "chunk_size = 5 * 1024 * 1024"

definition chunk_count :: "int \<Rightarrow> int" where
  "chunk_count sz = go_div (wrap64 (wrap64 (sz + chunk_size) - 1)) chunk_size"

definition expected_chunk_size :: "int \<Rightarrow> int \<Rightarrow> int option" where
  "expected_chunk_size sz index =
     (if index < 0 \<or> index \<ge> chunk_count sz then None
      else if index = chunk_count sz - 1 then Some (sz - index * chunk_size)
      else Some chunk_size)"

section \<open>The store\<close>

datatype purpose = Backup | Plugin | Theme | OtherPurpose go_string

record upload_meta =
  um_purpose :: purpose
  um_size :: int
  um_filename :: go_string

record 'b upload_dir =
  ud_meta :: "upload_meta option"
  ud_parts :: "int \<Rightarrow> 'b list option"
  ud_archive :: "'b list option"

type_synonym 'b disk = "go_string \<Rightarrow> 'b upload_dir option"

record 'b upload_session =
  us_id :: go_string
  us_meta :: upload_meta
  us_archive :: "'b list"

datatype upload_error =
    InvalidPurpose | InvalidSize | InvalidUploadId | UploadNotFound | InvalidMetadata | InvalidChunkIndex
  | WrongChunkSize int int | MissingChunk int | IoError nat

definition is_known_purpose :: "purpose \<Rightarrow> bool" where
  "is_known_purpose p = (case p of OtherPurpose _ \<Rightarrow> False | _ \<Rightarrow> True)"

definition upload_init ::
  "int \<Rightarrow> (nat \<Rightarrow> bool) \<Rightarrow> go_string \<Rightarrow> purpose \<Rightarrow> go_string \<Rightarrow> int \<Rightarrow> 'b disk \<Rightarrow> 'b disk \<times> (upload_error + go_string)" where
  "upload_init max_size io new_id purpose filename sz disk =
     (if \<not> is_known_purpose purpose then (disk, Inl InvalidPurpose)
      else if sz \<le> 0 \<or> sz > max_size then (disk, Inl InvalidSize)
      else if io 0 then (disk, Inl (IoError 0))
      else if io 1 then (disk(new_id := None), Inl (IoError 1))
      else (disk(new_id \<mapsto> \<lparr>ud_meta = Some \<lparr>um_purpose = purpose, um_size = sz, um_filename = filename\<rparr>,
              ud_parts = (\<lambda>_. None), ud_archive = None\<rparr>), Inr new_id))"

definition upload_load :: "int \<Rightarrow> (go_string \<Rightarrow> bool) \<Rightarrow> nat \<Rightarrow> (nat \<Rightarrow> bool) \<Rightarrow> go_string \<Rightarrow> 'b disk
    \<Rightarrow> upload_error + upload_meta \<times> 'b upload_dir" where
  "upload_load max_size valid_id call io upload_id disk =
     (if \<not> valid_id upload_id then Inl InvalidUploadId
      else case disk upload_id of None \<Rightarrow> Inl UploadNotFound
      | Some dir \<Rightarrow> (case ud_meta dir of None \<Rightarrow> Inl UploadNotFound
         | Some meta \<Rightarrow>
             if io call then Inl (IoError call)
             else if \<not> is_known_purpose (um_purpose meta) \<or> um_size meta \<le> 0 \<or> um_size meta > max_size
             then Inl InvalidMetadata
             else Inr (meta, dir)))"

text \<open>The reader of a chunk is cut after one byte more than a chunk may have.\<close>

definition save_chunk ::
  "int \<Rightarrow> (go_string \<Rightarrow> bool) \<Rightarrow> (nat \<Rightarrow> bool) \<Rightarrow> go_string \<Rightarrow> int \<Rightarrow> 'b list \<Rightarrow> 'b disk \<Rightarrow> 'b disk \<times> upload_error option" where
  "save_chunk max_size valid_id io upload_id index source disk =
     (case upload_load max_size valid_id 0 io upload_id disk of Inl e \<Rightarrow> (disk, Some e)
      | Inr (meta, dir) \<Rightarrow>
        (case expected_chunk_size (um_size meta) index of None \<Rightarrow> (disk, Some InvalidChunkIndex)
         | Some expected \<Rightarrow>
             if io 1 then (disk, Some (IoError 1))
             else let written = take (nat (chunk_size + 1)) source in
               if io 2 then (disk, Some (IoError 2))
               else if io 3 then (disk, Some (IoError 3))
               else if int (length written) \<noteq> expected
               then (disk, Some (WrongChunkSize (int (length written)) expected))
               else if io 4 then (disk, Some (IoError 4))
               else let removed = dir\<lparr>ud_parts := (ud_parts dir)(index := None)\<rparr> in
                 if io 5 then (disk(upload_id \<mapsto> removed), Some (IoError 5))
                 else (disk(upload_id \<mapsto> removed\<lparr>ud_parts := (ud_parts removed)(index \<mapsto> written)\<rparr>), None)))"

fun merge_loop ::
  "(nat \<Rightarrow> bool) \<Rightarrow> int \<Rightarrow> (int \<Rightarrow> 'b list option) \<Rightarrow> nat list \<Rightarrow> 'b list \<Rightarrow> upload_error + 'b list" where
  "merge_loop io sz parts [] acc = Inr acc"
| "merge_loop io sz parts (i # is) acc =
     (case parts (int i) of None \<Rightarrow> Inl (MissingChunk (int i))
      | Some chunk \<Rightarrow>
          if io (4 * i + 2) then Inl (IoError (4 * i + 2))
          else let expected = (case expected_chunk_size sz (int i) of None \<Rightarrow> 0 | Some e \<Rightarrow> e) in
          if int (length chunk) \<noteq> expected then Inl (WrongChunkSize (int (length chunk)) expected)
          else if io (4 * i + 3) then Inl (IoError (4 * i + 3))
          else if io (4 * i + 4) then Inl (IoError (4 * i + 4))
          else if io (4 * i + 5) then Inl (IoError (4 * i + 5))
          else merge_loop io sz parts is (acc @ chunk))"

definition upload_merge ::
  "int \<Rightarrow> (go_string \<Rightarrow> bool) \<Rightarrow> (nat \<Rightarrow> bool) \<Rightarrow> go_string \<Rightarrow> 'b disk \<Rightarrow> 'b disk \<times> (upload_error + 'b upload_session)" where
  "upload_merge max_size valid_id io upload_id disk =
     (case upload_load max_size valid_id 0 io upload_id disk of Inl e \<Rightarrow> (disk, Inl e)
      | Inr (meta, dir) \<Rightarrow>
        if io 1 then (disk, Inl (IoError 1))
        else let n = nat (chunk_count (um_size meta)) in
          (case merge_loop io (um_size meta) (ud_parts dir) [0..<n] [] of Inl e \<Rightarrow> (disk, Inl e)
           | Inr archive \<Rightarrow>
               if io (4 * n + 2) then (disk, Inl (IoError (4 * n + 2)))
               else if io (4 * n + 3) then (disk, Inl (IoError (4 * n + 3)))
               else (disk(upload_id \<mapsto> dir\<lparr>ud_archive := Some archive\<rparr>),
                     Inr \<lparr>us_id = upload_id, us_meta = meta, us_archive = archive\<rparr>)))"

definition upload_cancel ::
  "(go_string \<Rightarrow> bool) \<Rightarrow> (nat \<Rightarrow> bool) \<Rightarrow> go_string \<Rightarrow> 'b disk \<Rightarrow> 'b disk \<times> upload_error option" where
  "upload_cancel valid_id io upload_id disk =
     (if \<not> valid_id upload_id then (disk, Some InvalidUploadId)
      else if io 0 then (disk, Some (IoError 0)) else (disk(upload_id := None), None))"

section \<open>The handler\<close>

text \<open>A finalizer is given for each supported purpose; its result is a message, or an error text.\<close>

datatype http_reply = Reply nat

type_synonym 'b finalizers = "purpose \<Rightarrow> ('b upload_session \<Rightarrow> bool) option"

definition respond_upload_error :: "upload_error \<Rightarrow> http_reply" where
  "respond_upload_error e = (if e = UploadNotFound then Reply 404 else Reply 400)"

definition handle_init ::
  "int \<Rightarrow> 'b finalizers \<Rightarrow> (nat \<Rightarrow> bool) \<Rightarrow> go_string \<Rightarrow> purpose \<Rightarrow> go_string \<Rightarrow> int \<Rightarrow> 'b disk \<Rightarrow> 'b disk \<times> http_reply" where
  "handle_init max_size fin io new_id purpose filename sz disk =
     (if purpose = OtherPurpose [] \<or> sz = 0 then (disk, Reply 400)
      else if fin purpose = None then (disk, Reply 400)
      else case upload_init max_size io new_id purpose filename sz disk of
        (disk', Inl e) \<Rightarrow> (disk', Reply 400) | (disk', Inr _) \<Rightarrow> (disk', Reply 200))"

definition handle_chunk ::
  "int \<Rightarrow> (go_string \<Rightarrow> bool) \<Rightarrow> (nat \<Rightarrow> bool) \<Rightarrow> go_string \<Rightarrow> go_string \<Rightarrow> 'b list option \<Rightarrow> 'b disk \<Rightarrow> 'b disk \<times> http_reply" where
  "handle_chunk max_size valid_id io upload_id index file disk =
     (case parse_int64 index of None \<Rightarrow> (disk, Reply 400)
      | Some i \<Rightarrow> (case file of None \<Rightarrow> (disk, Reply 400)
         | Some source \<Rightarrow>
            (case save_chunk max_size valid_id io upload_id i source disk of
               (disk', Some e) \<Rightarrow> (disk', respond_upload_error e) | (disk', None) \<Rightarrow> (disk', Reply 200))))"

text \<open>The reply, and the session the finalizer was called with, if it was.  \<open>cio\<close> are the faults of the
  call of Cancel.\<close>

definition handle_merge ::
  "int \<Rightarrow> (go_string \<Rightarrow> bool) \<Rightarrow> 'b finalizers \<Rightarrow> (nat \<Rightarrow> bool) \<Rightarrow> (nat \<Rightarrow> bool) \<Rightarrow> go_string \<Rightarrow> 'b disk
     \<Rightarrow> 'b disk \<times> http_reply \<times> 'b upload_session option" where
  "handle_merge max_size valid_id fin io cio upload_id disk =
     (if upload_id = [] then (disk, Reply 400, None)
      else case upload_merge max_size valid_id io upload_id disk of
        (disk', Inl e) \<Rightarrow> (fst (upload_cancel valid_id cio upload_id disk'), respond_upload_error e, None)
      | (disk', Inr session) \<Rightarrow>
          let cancelled = fst (upload_cancel valid_id cio (us_id session) disk') in
          (case fin (um_purpose (us_meta session)) of
             None \<Rightarrow> (cancelled, Reply 400, None)
           | Some f \<Rightarrow> (cancelled, if f session then Reply 200 else Reply 400, Some session)))"

definition handle_cancel ::
  "(go_string \<Rightarrow> bool) \<Rightarrow> (nat \<Rightarrow> bool) \<Rightarrow> go_string \<Rightarrow> 'b disk \<Rightarrow> 'b disk \<times> http_reply" where
  "handle_cancel valid_id io upload_id disk =
     (if upload_id = [] then (disk, Reply 400)
      else case upload_cancel valid_id io upload_id disk of
        (disk', Some _) \<Rightarrow> (disk', Reply 400) | (disk', None) \<Rightarrow> (disk', Reply 200))"

section \<open>Arithmetic of chunks\<close>

lemma chunk_count_div: "0 < sz \<Longrightarrow> sz \<le> 2 ^ 62 \<Longrightarrow> chunk_count sz = (sz + chunk_size - 1) div chunk_size"
  by (simp add: chunk_count_def chunk_size_def wrap64_def go_div_nonneg)

lemma chunk_count_bounds:
  assumes "0 < sz" and "sz \<le> 2 ^ 62"
  shows "1 \<le> chunk_count sz" and "(chunk_count sz - 1) * chunk_size < sz" and "sz \<le> chunk_count sz * chunk_size"
  using assms by (simp_all add: chunk_count_div chunk_size_def)

lemma expected_chunk_size_nat:
  assumes "0 < n" and "int n \<le> 2 ^ 62" and "int i < chunk_count (int n)"
  shows "expected_chunk_size (int n) (int i) = Some (int (min (nat chunk_size) (n - i * nat chunk_size)))"
proof -
  note b = chunk_count_bounds[of "int n"]
  have cs: "int (nat chunk_size) = chunk_size" "0 < chunk_size" by (simp_all add: chunk_size_def)
  show ?thesis
  proof (cases "int i = chunk_count (int n) - 1")
    case True
    have lo: "int i * chunk_size < int n" using b assms True by simp
    have "int i + 1 = chunk_count (int n)" using True by simp
    then have "int n \<le> (int i + 1) * chunk_size" using b(3) assms by simp
    then have hi: "int n - int i * chunk_size \<le> chunk_size" by (simp add: distrib_right)
    have m: "int (i * nat chunk_size) = int i * chunk_size" by (simp add: chunk_size_def)
    have "int (n - i * nat chunk_size) = int n - int (i * nat chunk_size)" using lo m by linarith
    then have "int (n - i * nat chunk_size) = int n - int i * chunk_size" by (simp only: m)
    then have "int (min (nat chunk_size) (n - i * nat chunk_size)) = int n - int i * chunk_size"
      using hi cs(1) by linarith
    then show ?thesis using True assms(3) by (simp add: expected_chunk_size_def)
  next
    case False
    have "(int i + 1) * chunk_size \<le> (chunk_count (int n) - 1) * chunk_size"
      using False assms(3) cs(2) by (intro mult_right_mono) auto
    then have "int i * chunk_size + chunk_size < int n" using b(2) assms by (simp add: distrib_right)
    then have "int (i * nat chunk_size + nat chunk_size) < int n" by (simp add: chunk_size_def)
    then have "nat chunk_size \<le> n - i * nat chunk_size" by linarith
    then show ?thesis using False assms(3) cs(1) by (simp add: expected_chunk_size_def min_absorb1)
  qed
qed

text \<open>The client's view: the i-th piece of the file.\<close>

definition chunk_of :: "'b list \<Rightarrow> nat \<Rightarrow> 'b list" where
  "chunk_of xs i = take (nat chunk_size) (drop (i * nat chunk_size) xs)"

lemma concat_chunks: "concat (map (chunk_of xs) [0..<n]) = take (n * nat chunk_size) xs"
proof (induction n)
  case (Suc n)
  have "Suc n * nat chunk_size = n * nat chunk_size + nat chunk_size" by simp
  then show ?case using Suc by (simp only: take_add) (simp add: chunk_of_def)
qed simp

lemma length_chunk_of: "length (chunk_of xs i) = min (nat chunk_size) (length xs - i * nat chunk_size)"
  by (simp add: chunk_of_def min.commute)

section \<open>Merging\<close>

lemma merge_loop_success:
  "merge_loop io sz parts is acc = Inr a \<Longrightarrow>
   a = acc @ concat (map (\<lambda>i. the (parts (int i))) is) \<and>
   (\<forall>i\<in>set is. parts (int i) \<noteq> None \<and>
      int (length (the (parts (int i)))) = (case expected_chunk_size sz (int i) of None \<Rightarrow> 0 | Some e \<Rightarrow> e))"
proof (induction "is" arbitrary: acc)
  case (Cons i "is")
  let ?e = "case expected_chunk_size sz (int i) of None \<Rightarrow> 0 | Some e \<Rightarrow> e"
  obtain c where c: "parts (int i) = Some c" using Cons.prems by (cases "parts (int i)") auto
  then have "int (length c) = ?e" "merge_loop io sz parts is (acc @ c) = Inr a"
    using Cons.prems by (simp_all add: Let_def split: if_split_asm)
  then show ?case using Cons.IH[of "acc @ c"] c by simp
qed simp

lemma merge_loop_total:
  "\<forall>i\<in>set is. \<exists>c. parts (int i) = Some c \<and> expected_chunk_size sz (int i) = Some (int (length c)) \<Longrightarrow>
   merge_loop (\<lambda>_. False) sz parts is acc = Inr (acc @ concat (map (\<lambda>i. the (parts (int i))) is))"
  by (induction "is" arbitrary: acc) (fastforce simp: Let_def)+

lemma sum_expected:
  assumes "0 < n" and "int n \<le> 2 ^ 62" and "\<forall>i < nat (chunk_count (int n)). expected_chunk_size (int n) (int i) = Some (int (f i))"
  shows "(\<Sum>i<nat (chunk_count (int n)). f i) = n"
proof -
  let ?m = "nat (chunk_count (int n))" let ?xs = "replicate n ()"
  have "f i = length (chunk_of ?xs i)" if "i < ?m" for i
    using assms(3) that expected_chunk_size_nat[OF assms(1,2), of i] by (simp add: length_chunk_of)
  then have "(\<Sum>i<?m. f i) = (\<Sum>i<?m. length (chunk_of ?xs i))" by simp
  also have "\<dots> = length (concat (map (chunk_of ?xs) [0..<?m]))"
    by (simp add: length_concat comp_def interv_sum_list_conv_sum_set_nat atLeast0LessThan)
  also have "\<dots> = n"
  proof -
    have "int n \<le> int (?m * nat chunk_size)"
      using chunk_count_bounds(1,3)[of "int n"] assms by (simp add: chunk_size_def)
    then have "n \<le> ?m * nat chunk_size" by (simp only: of_nat_le_iff)
    then show ?thesis by (simp add: concat_chunks)
  qed
  finally show ?thesis .
qed

text \<open>
  C20: a finalizer is only ever called with an archive that is the concatenation of all published chunks in
  order of their indices and has exactly the announced size, which is positive and within the limit,
  whatever happened on the disk before and whichever system calls failed.
\<close>

theorem finalizer_exact:
  assumes "max_size \<le> 2 ^ 62" and "handle_merge max_size valid_id fin io cio uid disk = (disk', reply, Some s)"
  shows "\<exists>dir. disk uid = Some dir \<and> us_id s = uid \<and> ud_meta dir = Some (us_meta s) \<and>
    0 < um_size (us_meta s) \<and> um_size (us_meta s) \<le> max_size \<and> is_known_purpose (um_purpose (us_meta s)) \<and>
    int (length (us_archive s)) = um_size (us_meta s) \<and>
    us_archive s = concat (map (\<lambda>i. the (ud_parts dir (int i))) [0..<nat (chunk_count (um_size (us_meta s)))])"
proof -
  obtain d1 where merge: "upload_merge max_size valid_id io uid disk = (d1, Inr s)"
    using assms(2) by (auto simp: handle_merge_def Let_def split: if_splits prod.splits sum.splits option.splits)
  then obtain meta dir where load: "upload_load max_size valid_id 0 io uid disk = Inr (meta, dir)"
    by (auto simp: upload_merge_def split: sum.splits)
  then have dir: "disk uid = Some dir" "ud_meta dir = Some meta" "0 < um_size meta" "um_size meta \<le> max_size"
    "is_known_purpose (um_purpose meta)"
    by (auto simp: upload_load_def split: if_splits option.splits)
  let ?n = "nat (chunk_count (um_size meta))"
  obtain a where a: "merge_loop io (um_size meta) (ud_parts dir) [0..<?n] [] = Inr a"
    and s: "s = \<lparr>us_id = uid, us_meta = meta, us_archive = a\<rparr>"
    using merge load by (auto simp: upload_merge_def Let_def split: sum.splits if_splits)
  define f where "f = (\<lambda>i. length (the (ud_parts dir (int i))))"
  note suc = merge_loop_success[OF a]
  have bound: "um_size meta \<le> 2 ^ 62" using dir assms(1) by simp
  obtain n where n: "um_size meta = int n" "0 < n" using dir(3) by (metis pos_int_cases)
  have "expected_chunk_size (um_size meta) (int i) = Some (int (f i))" if "i < ?n" for i
    using suc that expected_chunk_size_nat[of n i] n bound by (auto simp: f_def)
  then have "(\<Sum>i<?n. f i) = n" using sum_expected[of n f] n bound by simp
  moreover have "length a = (\<Sum>i<?n. f i)"
    using suc by (simp add: f_def length_concat comp_def interv_sum_list_conv_sum_set_nat atLeast0LessThan)
  ultimately show ?thesis using dir s suc n by auto
qed

theorem finalizer_exact_witness:
  "let dir = \<lparr>ud_meta = Some \<lparr>um_purpose = Theme, um_size = 3, um_filename = ''t.zip''\<rparr>,
              ud_parts = (\<lambda>_. None)(0 \<mapsto> [7, 8, 9 :: nat]), ud_archive = None\<rparr>;
       r = handle_merge 1000 (\<lambda>_. True) (\<lambda>_. Some (\<lambda>_. True)) (\<lambda>_. False) (\<lambda>_. False) ''u'' [''u'' \<mapsto> dir]
   in fst (snd r) = Reply 200 \<and> (\<exists>s. snd (snd r) = Some s \<and> int (length (us_archive s)) = 3)"
proof -
  let ?meta = "\<lparr>um_purpose = Theme, um_size = 3, um_filename = ''t.zip''\<rparr>"
  let ?dir = "\<lparr>ud_meta = Some ?meta, ud_parts = (\<lambda>_. None)(0 \<mapsto> [7, 8, 9 :: nat]), ud_archive = None\<rparr>"
  let ?s = "\<lparr>us_id = ''u'', us_meta = ?meta, us_archive = [7, 8, 9 :: nat]\<rparr>"
  have n: "chunk_count 3 = 1" by (simp add: chunk_count_div chunk_size_def)
  have "\<exists>d. handle_merge 1000 (\<lambda>_. True) (\<lambda>_. Some (\<lambda>_. True)) (\<lambda>_. False) (\<lambda>_. False) ''u'' [''u'' \<mapsto> ?dir] =
      (d, Reply 200, Some ?s)"
    by (simp add: handle_merge_def upload_merge_def upload_load_def is_known_purpose_def n expected_chunk_size_def)
  then obtain d where m: "handle_merge 1000 (\<lambda>_. True) (\<lambda>_. Some (\<lambda>_. True)) (\<lambda>_. False) (\<lambda>_. False) ''u'' [''u'' \<mapsto> ?dir] =
      (d, Reply 200, Some ?s)" by blast
  have "int (length (us_archive ?s)) = um_size (us_meta ?s)" using finalizer_exact[OF _ m] by simp
  then show ?thesis by (simp add: m)
qed

section \<open>Uploading in any order\<close>

definition ready :: "int \<Rightarrow> upload_meta \<Rightarrow> bool" where
  "ready max_size meta \<longleftrightarrow> is_known_purpose (um_purpose meta) \<and> 0 < um_size meta \<and> um_size meta \<le> max_size"

lemma save_chunk_good:
  assumes "valid_id uid" and "disk uid = Some dir" and "ud_meta dir = Some meta" and "ready max_size meta"
    and "expected_chunk_size (um_size meta) (int i) = Some (int (length c))" and "int (length c) \<le> chunk_size"
  shows "save_chunk max_size valid_id (\<lambda>_. False) uid (int i) c disk =
    (disk(uid \<mapsto> dir\<lparr>ud_parts := (ud_parts dir)(int i \<mapsto> c)\<rparr>), None)"
proof -
  have "take (nat (chunk_size + 1)) c = c" using assms(6) by simp
  then show ?thesis using assms by (simp add: save_chunk_def upload_load_def ready_def)
qed

lemma save_chunks_good:
  assumes "valid_id uid" and "disk uid = Some dir" and "ud_meta dir = Some meta" and "ready max_size meta"
    and "\<forall>i\<in>set is. expected_chunk_size (um_size meta) (int i) = Some (int (length (f i))) \<and> int (length (f i)) \<le> chunk_size"
  shows "\<exists>dir'. fold (\<lambda>i d. fst (save_chunk max_size valid_id (\<lambda>_. False) uid (int i) (f i) d)) is disk uid = Some dir' \<and>
    ud_meta dir' = Some meta \<and> (\<forall>i\<in>set is. ud_parts dir' (int i) = Some (f i)) \<and>
    (\<forall>i. i \<notin> set is \<longrightarrow> ud_parts dir' (int i) = ud_parts dir (int i))"
  using assms
proof (induction "is" arbitrary: disk dir)
  case (Cons i "is")
  let ?dir = "dir\<lparr>ud_parts := (ud_parts dir)(int i \<mapsto> f i)\<rparr>"
  have sv: "fst (save_chunk max_size valid_id (\<lambda>_. False) uid (int i) (f i) disk) = disk(uid \<mapsto> ?dir)"
    using save_chunk_good[of valid_id uid disk dir meta max_size i "f i"] Cons.prems by simp
  have "\<exists>dir'. fold (\<lambda>i d. fst (save_chunk max_size valid_id (\<lambda>_. False) uid (int i) (f i) d)) is (disk(uid \<mapsto> ?dir)) uid = Some dir' \<and>
    ud_meta dir' = Some meta \<and> (\<forall>i\<in>set is. ud_parts dir' (int i) = Some (f i)) \<and>
    (\<forall>i. i \<notin> set is \<longrightarrow> ud_parts dir' (int i) = ud_parts ?dir (int i))"
    using Cons.prems by (intro Cons.IH) auto
  then obtain dir' where d: "fold (\<lambda>i d. fst (save_chunk max_size valid_id (\<lambda>_. False) uid (int i) (f i) d)) is (disk(uid \<mapsto> ?dir)) uid = Some dir'"
    "ud_meta dir' = Some meta" "\<forall>i\<in>set is. ud_parts dir' (int i) = Some (f i)"
    "\<forall>i. i \<notin> set is \<longrightarrow> ud_parts dir' (int i) = ud_parts ?dir (int i)" by blast
  then show ?case by (intro exI[of _ dir']) (auto simp: sv)
qed auto

text \<open>
  C31: a client that announces a file and sends each of its pieces at least once, in any order and with any
  repetitions, gets exactly its file back from the merge.
\<close>

theorem upload_any_order:
  assumes "valid_id uid" and "is_known_purpose p" and "data \<noteq> []" and "int (length data) \<le> max_size" and "max_size \<le> 2 ^ 62"
    and "set order = {0..<nat (chunk_count (int (length data)))}"
  shows "let disk1 = fst (upload_init max_size (\<lambda>_. False) uid p name (int (length data)) disk);
             disk2 = fold (\<lambda>i d. fst (save_chunk max_size valid_id (\<lambda>_. False) uid (int i) (chunk_of data i) d)) order disk1
         in snd (upload_merge max_size valid_id (\<lambda>_. False) uid disk2) =
              Inr \<lparr>us_id = uid, us_meta = \<lparr>um_purpose = p, um_size = int (length data), um_filename = name\<rparr>, us_archive = data\<rparr>"
proof -
  let ?meta = "\<lparr>um_purpose = p, um_size = int (length data), um_filename = name\<rparr>"
  let ?dir = "\<lparr>ud_meta = Some ?meta, ud_parts = (\<lambda>_. None), ud_archive = None\<rparr>"
  let ?n = "nat (chunk_count (int (length data)))"
  define disk1 where "disk1 = fst (upload_init max_size (\<lambda>_. False) uid p name (int (length data)) disk)"
  have d1: "disk1 uid = Some ?dir" using assms by (simp add: disk1_def upload_init_def)
  have len: "0 < length data" "int (length data) \<le> 2 ^ 62" using assms by simp_all
  have exp: "expected_chunk_size (int (length data)) (int i) = Some (int (length (chunk_of data i)))" if "i < ?n" for i
    using expected_chunk_size_nat[OF len, of i] that by (simp add: length_chunk_of)
  have small: "int (length (chunk_of data i)) \<le> chunk_size" for i by (simp add: length_chunk_of chunk_size_def)
  define disk2 where "disk2 = fold (\<lambda>i d. fst (save_chunk max_size valid_id (\<lambda>_. False) uid (int i) (chunk_of data i) d)) order disk1"
  have rdy: "ready max_size ?meta" using assms by (simp add: ready_def)
  obtain dir where d2: "disk2 uid = Some dir" "ud_meta dir = Some ?meta"
    "\<forall>i\<in>set order. ud_parts dir (int i) = Some (chunk_of data i)"
    using save_chunks_good[of valid_id uid disk1 ?dir ?meta max_size order "chunk_of data"]
      assms(1,6) d1 rdy exp small unfolding disk2_def by auto
  have "merge_loop (\<lambda>_. False) (int (length data)) (ud_parts dir) [0..<?n] [] =
      Inr ([] @ concat (map (\<lambda>i. the (ud_parts dir (int i))) [0..<?n]))"
    using d2(3) exp assms(6) by (intro merge_loop_total) auto
  also have "map (\<lambda>i. the (ud_parts dir (int i))) [0..<?n] = map (chunk_of data) [0..<?n]"
    using d2(3) assms(6) by auto
  also have "concat \<dots> = data"
  proof -
    have "int (length data) \<le> int (?n * nat chunk_size)"
      using chunk_count_bounds(1,3)[of "int (length data)"] len by (simp add: chunk_size_def)
    then have "length data \<le> ?n * nat chunk_size" by (simp only: of_nat_le_iff)
    then show ?thesis by (simp add: concat_chunks)
  qed
  finally have "snd (upload_merge max_size valid_id (\<lambda>_. False) uid disk2) = Inr \<lparr>us_id = uid, us_meta = ?meta, us_archive = data\<rparr>"
    using d2 rdy assms(1) by (simp add: upload_merge_def upload_load_def ready_def)
  then show ?thesis by (simp add: disk1_def disk2_def Let_def)
qed

theorem upload_any_order_witness:
  "\<exists>disk2. snd (upload_merge 1000 (\<lambda>_. True) (\<lambda>_. False) ''u'' disk2) =
     Inr \<lparr>us_id = ''u'', us_meta = \<lparr>um_purpose = Plugin, um_size = 3, um_filename = ''p.zip''\<rparr>, us_archive = [7, 8, 9 :: nat]\<rparr>"
proof -
  have n: "chunk_count 3 = 1" by (simp add: chunk_count_div chunk_size_def)
  have "set [0, 0 :: nat] = {0..<nat (chunk_count (int (length [7, 8, 9 :: nat])))}" by (auto simp: n)
  then show ?thesis
    using upload_any_order[of "\<lambda>_. True" "''u''" Plugin "[7, 8, 9 :: nat]" 1000 "[0, 0]" "''p.zip''" "\<lambda>_. None"]
    by (auto simp: is_known_purpose_def Let_def)
qed

end
