(* ===== verification/File_Transfer.thy ===== *)
theory File_Transfer
  imports Go_Path
begin

text \<open>
  The pure parts of file transfers between browser, server and agent, from
  \<^verbatim>\<open>web/filemanager/transfer.go\<close>, \<^verbatim>\<open>stream_relay.go\<close> and \<^verbatim>\<open>client.go\<close>: byte ranges, the plan of a
  download response, file names for headers, the negotiation of the chunk size, the classification of
  errors by their text, the status of an error, and the correlation of agent calls.  An error is its text
  with the sentinel errors it wraps.  A time is a number of nanoseconds since the epoch, \<open>None\<close> the zero
  time; the parser of HTTP dates is the parameter \<open>parse_time\<close>.
\<close>

abbreviation contains :: "go_string \<Rightarrow> go_string \<Rightarrow> bool" where
  "contains s sub \<equiv> sublist sub s"

section \<open>Chunk sizes\<close>

definition default_transfer_chunk :: int where "default_transfer_chunk = 25 * 1024 * 1024"
definition min_transfer_chunk :: int where "min_transfer_chunk = 1 * 1024 * 1024"
definition max_transfer_chunk :: int where "max_transfer_chunk = 128 * 1024 * 1024"
definition max_upload_size :: int where "max_upload_size = 8 * 1024 * 1024 * 1024"

type_synonym chunk_cache = "go_string \<Rightarrow> int option"

definition cached_chunk_size :: "chunk_cache \<Rightarrow> go_string \<Rightarrow> int" where
  "cached_chunk_size cache client =
     (if client = [] then default_transfer_chunk
      else let sz = (case cache client of None \<Rightarrow> 0 | Some n \<Rightarrow> n) in
        if sz < min_transfer_chunk \<or> sz > max_transfer_chunk then default_transfer_chunk else sz)"

definition chunk_size_for_request :: "chunk_cache \<Rightarrow> go_string \<Rightarrow> go_string \<Rightarrow> int" where
  "chunk_size_for_request cache client query =
     (let sz = cached_chunk_size cache client; requested = trim_space query in
      if requested = [] then sz
      else case parse_int64 requested of None \<Rightarrow> sz
        | Some v \<Rightarrow> if v \<ge> min_transfer_chunk \<and> v \<le> max_transfer_chunk then min sz v else sz)"

definition remember_chunk_size :: "go_string \<Rightarrow> int \<Rightarrow> chunk_cache \<Rightarrow> chunk_cache" where
  "remember_chunk_size client sz cache =
     (if client = [] \<or> sz < min_transfer_chunk \<or> sz > max_transfer_chunk then cache
      else let existing = (case cache client of None \<Rightarrow> 0 | Some n \<Rightarrow> n) in
        if existing \<ge> min_transfer_chunk \<and> existing < sz then cache else cache(client \<mapsto> sz))"

text \<open>The next size to try below a rejected one.\<close>

definition next_reduced_chunk :: "int \<Rightarrow> int \<Rightarrow> int option" where
  "next_reduced_chunk failed upper =
     (if failed \<le> min_transfer_chunk then None
      else let high = (if upper > 0 \<and> upper < failed then upper else failed) in
        if high \<le> min_transfer_chunk then Some min_transfer_chunk
        else
          let c1 = min_transfer_chunk + go_div (high - min_transfer_chunk) 2;
              c2 = go_div c1 min_transfer_chunk * min_transfer_chunk;
              c3 = (if c2 < min_transfer_chunk then min_transfer_chunk else c2);
              c4 = (if c3 \<ge> failed then failed - 1 else c3)
          in if c4 < min_transfer_chunk then None else Some c4)"

definition upload_chunk_count :: "int \<Rightarrow> int \<Rightarrow> int" where
  "upload_chunk_count sz chunk =
     (if sz \<le> 0 \<or> chunk \<le> 0 then 0 else go_div (wrap64 (wrap64 (sz + chunk) - 1)) chunk)"

section \<open>Byte ranges\<close>

definition parse_single_byte_range :: "go_string \<Rightarrow> int \<Rightarrow> (int \<times> int) option" where
  "parse_single_byte_range value_s sz =
     (if sz \<le> 0 \<or> \<not> has_prefix (to_lower value_s) ''bytes='' then None
      else
        let spec = trim_space (drop 6 value_s) in
        if spec = [] \<or> CHR '','' \<in> set spec then None
        else case split_n2 (CHR ''-'') spec of
          [p0, p1] \<Rightarrow>
            (if trim_space p0 = [] then
               (case parse_int64 (trim_space p1) of None \<Rightarrow> None
                | Some suffix_len \<Rightarrow>
                    if suffix_len \<le> 0 then None
                    else let n = (if suffix_len > sz then sz else suffix_len) in Some (sz - n, sz - 1))
             else
               (case parse_int64 (trim_space p0) of None \<Rightarrow> None
                | Some start \<Rightarrow>
                    if start < 0 \<or> start \<ge> sz then None
                    else if trim_space p1 = [] then Some (start, sz - 1)
                    else (case parse_int64 (trim_space p1) of None \<Rightarrow> None
                          | Some stop \<Rightarrow> if stop < start then None
                              else Some (start, if stop \<ge> sz then sz - 1 else stop))))
        | _ \<Rightarrow> None)"

definition if_range_allows :: "(go_string \<Rightarrow> int option) \<Rightarrow> go_string \<Rightarrow> go_string \<Rightarrow> int option \<Rightarrow> bool" where
  "if_range_allows parse_time value0 etag modified =
     (let v = trim_space value0 in
      if v = [] then True
      else if v = etag then True
      else case parse_time v of
        Some ts \<Rightarrow> (case modified of Some t \<Rightarrow> (t div 1000000000) * 1000000000 \<le> ts | None \<Rightarrow> False)
      | None \<Rightarrow> False)"

record file_info =
  fi_name :: go_string
  fi_size :: int
  fi_is_dir :: bool
  fi_modified :: "int option"

record download_plan =
  dp_start :: int
  dp_end :: int
  dp_partial :: bool
  dp_length :: int

text \<open>The checks of a download before any byte is requested; the left value is the status of an error.\<close>

definition plan_download ::
  "(go_string \<Rightarrow> int option) \<Rightarrow> go_string \<Rightarrow> go_string \<Rightarrow> go_string \<Rightarrow> file_info \<Rightarrow> nat + download_plan" where
  "plan_download parse_time etag range_header if_range info =
     (if fi_is_dir info then Inl 400
      else if fi_size info < 0 then Inl 502
      else
        let rh = trim_space range_header in
        if rh \<noteq> [] \<and> if_range_allows parse_time if_range etag (fi_modified info) then
          (case parse_single_byte_range rh (fi_size info) of None \<Rightarrow> Inl 416
           | Some (start, stop) \<Rightarrow>
               Inr \<lparr>dp_start = start, dp_end = stop, dp_partial = True,
                    dp_length = (if fi_size info > 0 then stop - start + 1 else 0)\<rparr>)
        else Inr \<lparr>dp_start = 0, dp_end = fi_size info - 1, dp_partial = False,
                  dp_length = (if fi_size info > 0 then fi_size info - 1 - 0 + 1 else 0)\<rparr>)"

section \<open>File names\<close>

text \<open>\<^verbatim>\<open>filepath.Base\<close> and \<^verbatim>\<open>filepath.Ext\<close> on a Unix host.\<close>

definition go_base :: "go_string \<Rightarrow> go_string" where
  "go_base s =
     (if s = [] then ''.''
      else let t = trim_right_of (\<lambda>c. c = CHR ''/'') s;
               b = rev (takeWhile (\<lambda>c. c \<noteq> CHR ''/'') (rev t))
           in if b = [] then ''/'' else b)"

definition go_ext :: "go_string \<Rightarrow> go_string" where
  "go_ext s =
     (let t = takeWhile (\<lambda>c. c \<noteq> CHR ''.'' \<and> c \<noteq> CHR ''/'') (rev s) in
      if length t < length s \<and> rev s ! length t = CHR ''.'' then CHR ''.'' # rev t else [])"

definition to_slash :: "go_string \<Rightarrow> go_string" where
  "to_slash s = map (\<lambda>c. if c = CHR 0x5C then CHR ''/'' else c) s"

definition is_safe_ascii_filename :: "go_string \<Rightarrow> bool" where
  "is_safe_ascii_filename name =
     (if name = [] \<or> name = ''.'' \<or> name = ''..'' then False
      else (\<forall>c\<in>set name. 32 \<le> byte c \<and> byte c \<le> 126 \<and> c \<noteq> CHR 0x22 \<and> c \<noteq> CHR 0x5C))"

definition ascii_download_filename :: "go_string \<Rightarrow> go_string" where
  "ascii_download_filename name0 =
     (let name = go_base (to_slash name0) in
      if is_safe_ascii_filename name then name
      else ''download'' @ (if is_safe_ascii_filename (''file'' @ go_ext name) then go_ext name else []))"

definition fallback_filename :: "go_string \<Rightarrow> go_string" where
  "fallback_filename name0 =
     (let n1 = go_base (to_slash name0);
          n2 = (if n1 = ''.'' \<or> n1 = [] \<or> n1 = ''/'' then ''download'' else n1)
      in ascii_download_filename n2)"

definition response_name :: "go_string \<Rightarrow> go_string \<Rightarrow> go_string" where
  "response_name actual option_name =
     (if option_name = [] then actual
      else let candidate = go_base (to_slash option_name) in
        if candidate \<noteq> ''.'' \<and> candidate \<noteq> [] \<and> candidate \<noteq> ''/'' then
          (if go_ext actual \<noteq> [] \<and> to_lower (go_ext candidate) \<noteq> to_lower (go_ext actual)
           then trim_suffix candidate (go_ext candidate) @ go_ext actual else candidate)
        else actual)"

section \<open>Errors\<close>

datatype sentinel =
    ErrOffline | ErrUnsupported | ErrTimeout | ErrUnknownToken | ErrTooManyUploads | DeadlineExceeded
  | Canceled | ErrClosedPipe | ErrEOF | MaxBytesError

record go_error =
  err_msg :: go_string
  err_is :: "sentinel list"

definition mentions :: "go_string list \<Rightarrow> go_error \<Rightarrow> bool" where
  "mentions markers e \<longleftrightarrow> (\<exists>m\<in>set markers. contains (to_lower (err_msg e)) m)"

definition is_unsupported_operation :: "go_error \<Rightarrow> bool" where
  "is_unsupported_operation e = mentions
     [''unsupported file operation'', ''does not support file operations'', ''web control is disabled''] e"

definition is_payload_too_large :: "go_error \<Rightarrow> bool" where
  "is_payload_too_large e = (MaxBytesError \<in> set (err_is e) \<or> mentions
     ['' 413 '', '' 413'', ''413 '', ''413:'', ''status 413'', ''status code 413'', ''request entity too large'',
      ''payload too large'', ''content too large''] e)"

definition is_relay_pipe_error :: "go_error \<Rightarrow> bool" where
  "is_relay_pipe_error e = (ErrClosedPipe \<in> set (err_is e) \<or> ErrEOF \<in> set (err_is e) \<or>
     mentions [''closed pipe'', ''file transfer is closed''] e)"

definition is_client_disconnect :: "go_error \<Rightarrow> bool" where
  "is_client_disconnect e = mentions
     [''broken pipe'', ''connection reset by peer'', ''connection reset'', ''write: closed network connection'',
      ''client disconnected''] e"

definition is_chunk_transport_error :: "go_error \<Rightarrow> bool" where
  "is_chunk_transport_error e = mentions
     ['' 502 '', '' 503 '', '' 504 '', ''broken pipe'', ''connection reset'', ''unexpected eof'', ''timeout''] e"

definition is_non_retryable :: "go_error \<Rightarrow> bool" where
  "is_non_retryable e = (is_unsupported_operation e \<or> mentions
     ['' 400 '', '' 401 '', '' 403 '', '' 404 '', '' 405 '', '' 409 '', '' 410 '', '' 411 '', '' 413 '', '' 415 '',
      '' 422 '', '' 501 ''] e)"

definition transfer_status :: "go_error \<Rightarrow> nat" where
  "transfer_status e =
     (if is_payload_too_large e then 413
      else if ErrUnsupported \<in> set (err_is e) then 501
      else if is_unsupported_operation e then 501
      else if ErrOffline \<in> set (err_is e) then 503
      else if ErrTimeout \<in> set (err_is e) then 504
      else if DeadlineExceeded \<in> set (err_is e) then 504
      else if Canceled \<in> set (err_is e) then 408
      else if ErrUnknownToken \<in> set (err_is e) then 410
      else if ErrTooManyUploads \<in> set (err_is e) then 429
      else 502)"

section \<open>Calls to an agent\<close>

record file_result =
  fr_uuid :: go_string
  fr_request :: go_string
  fr_ok :: bool
  fr_error :: go_string
  fr_result :: go_string

text \<open>The pending calls, and the responses that reached a caller's channel.\<close>

record call_state =
  pending :: "go_string \<Rightarrow> go_string option"
  delivered :: "(go_string \<times> file_result) list"

definition call_begin :: "go_string \<Rightarrow> go_string \<Rightarrow> call_state \<Rightarrow> call_state" where
  "call_begin request_id uuid st = st\<lparr>pending := (pending st)(request_id \<mapsto> uuid)\<rparr>"

definition call_end :: "go_string \<Rightarrow> call_state \<Rightarrow> call_state" where
  "call_end request_id st = st\<lparr>pending := (pending st)(request_id := None)\<rparr>"

definition call_resolve :: "file_result \<Rightarrow> call_state \<Rightarrow> call_state \<times> bool" where
  "call_resolve r st =
     (if fr_request r = [] \<or> fr_uuid r = [] then (st, False)
      else case pending st (fr_request r) of
        None \<Rightarrow> (st\<lparr>pending := (pending st)(fr_request r := None)\<rparr>, False)
      | Some uuid \<Rightarrow>
          if uuid \<noteq> fr_uuid r then (st, False)
          else (st\<lparr>pending := (pending st)(fr_request r := None), delivered := (fr_request r, r) # delivered st\<rparr>, True))"

definition call_outcome :: "file_result \<Rightarrow> go_error + go_string" where
  "call_outcome r =
     (if \<not> fr_ok r then Inl \<lparr>err_msg = (if fr_error r = [] then ''file operation failed'' else fr_error r), err_is = []\<rparr>
      else Inr (fr_result r))"

section \<open>Ranges are ranges\<close>

text \<open>
  a download response never promises bytes outside the file: an accepted range has
  0 <= start <= end < size and its length matches, a response without a range covers the whole file, and
  an unsatisfiable range of a file is answered 416.
\<close>

lemma plan_download_sound:
  "case plan_download parse_time etag range_header if_range info of
     Inl status \<Rightarrow> (status = 400 \<and> fi_is_dir info) \<or> (status = 502 \<and> fi_size info < 0) \<or>
       (status = 416 \<and> \<not> fi_is_dir info \<and> parse_single_byte_range (trim_space range_header) (fi_size info) = None)
   | Inr p \<Rightarrow> 0 \<le> dp_length p \<and> dp_start p + dp_length p = dp_end p + 1 \<and> 0 \<le> dp_start p \<and> dp_end p < max 1 (fi_size info) \<and>
       (if dp_partial p then 0 < fi_size info \<and> dp_start p \<le> dp_end p \<and> dp_end p < fi_size info
        else dp_start p = 0 \<and> dp_length p = fi_size info)"
proof -
  have range: "0 \<le> a \<and> a \<le> b \<and> b < fi_size info \<and> 0 < fi_size info"
    if "parse_single_byte_range v (fi_size info) = Some (a, b)" for v a b
    using that by (auto simp: parse_single_byte_range_def Let_def split: if_splits list.splits option.splits)
  show ?thesis
  proof (cases "\<not> fi_is_dir info \<and> \<not> fi_size info < 0 \<and> trim_space range_header \<noteq> [] \<and>
      if_range_allows parse_time if_range etag (fi_modified info)")
    case True
    then show ?thesis
      using range[of "trim_space range_header"]
      by (cases "parse_single_byte_range (trim_space range_header) (fi_size info)") (auto simp: plan_download_def)
  next
    case False
    then show ?thesis by (auto simp: plan_download_def Let_def)
  qed
qed

lemma to_lower_bytes: "to_lower (''bytes='' @ s) = ''bytes='' @ to_lower s"
  by (simp add: to_lower_def ascii_lower_def)

lemma split_n2_at: "c \<notin> set a \<Longrightarrow> split_n2 c (a @ c # b) = [a, b]"
proof -
  assume "c \<notin> set a"
  then have "\<forall>x\<in>set a. x \<noteq> c" by auto
  then show ?thesis
    using takeWhile_append2[of a "\<lambda>x. x \<noteq> c" "c # b"] dropWhile_append2[of a "\<lambda>x. x \<noteq> c" "c # b"]
    by (simp add: split_n2_def)
qed

lemma trim_show_nat: "trim_space (show_nat n) = show_nat n"
  using show_nat_ends[of n] by (intro trim_space_graphic) auto

lemma show_nat_no_minus: "CHR ''-'' \<notin> set (show_nat n)" "CHR '','' \<notin> set (show_nat n)"
  by (rule show_nat_no_char; simp)+

text \<open>
  C32: every range a client can write down is understood: first and last position, an open end, or the
  length of a suffix, each cut to the size of the file.
\<close>

theorem parse_range_complete:
  assumes "0 < sz" and "int a < sz" and "int b \<le> int64_max" and "int n \<le> int64_max" and "a \<le> b" and "0 < n" and "sz \<le> int64_max"
  shows "parse_single_byte_range (''bytes='' @ show_nat a @ ''-'' @ show_nat b) sz = Some (int a, min (int b) (sz - 1)) \<and>
    parse_single_byte_range (''bytes='' @ show_nat a @ ''-'') sz = Some (int a, sz - 1) \<and>
    parse_single_byte_range (''bytes='' @ ''-'' @ show_nat n) sz = Some (sz - min (int n) sz, sz - 1)"
proof -
  have pa: "parse_int64 (show_nat a) = Some (int a)" using assms by (intro parse_int64_show) simp
  have pb: "parse_int64 (show_nat b) = Some (int b)" "parse_int64 (show_nat n) = Some (int n)"
    using assms by (simp_all add: parse_int64_show)
  have t1: "trim_space (show_nat a @ CHR ''-'' # show_nat b) = show_nat a @ CHR ''-'' # show_nat b"
    using show_nat_ends[of a] show_nat_ends[of b] by (intro trim_space_graphic) (auto simp: hd_append)
  have t2: "trim_space (show_nat a @ ''-'') = show_nat a @ ''-''"
    using show_nat_ends[of a] by (intro trim_space_graphic) (auto simp: hd_append)
  have t3: "trim_space (CHR ''-'' # show_nat n) = CHR ''-'' # show_nat n"
    using show_nat_ends[of n] by (intro trim_space_graphic) auto
  note simps = parse_single_byte_range_def to_lower_bytes trim_show_nat split_n2_at[OF show_nat_no_minus(1)]
    show_nat_no_minus pa pb
  have "parse_single_byte_range (''bytes='' @ show_nat a @ ''-'' @ show_nat b) sz = Some (int a, min (int b) (sz - 1))"
    using assms to_lower_bytes[of "show_nat a @ ''-'' @ show_nat b"] by (simp add: simps t1)
  moreover have "parse_single_byte_range (''bytes='' @ show_nat a @ ''-'') sz = Some (int a, sz - 1)"
    using assms to_lower_bytes[of "show_nat a @ ''-''"] by (simp add: simps t2)
  moreover have "parse_single_byte_range (''bytes='' @ ''-'' @ show_nat n) sz = Some (sz - min (int n) sz, sz - 1)"
    using assms to_lower_bytes[of "''-'' @ show_nat n"] split_n2_at[of "CHR ''-''" "[]" "show_nat n"]
    by (simp add: simps t3)
  ultimately show ?thesis by blast
qed

theorem parse_range_complete_witness:
  "parse_single_byte_range ''bytes=2-9'' 5 = Some (2, 4) \<and> parse_single_byte_range ''bytes=-3'' 5 = Some (2, 4)"
  using parse_range_complete[of 5 2 9 3] by (simp add: show_nat.simps digit_chars)

section \<open>Chunk sizes shrink and stay in bounds\<close>

lemma next_reduced_bounds:
  assumes "next_reduced_chunk failed upper = Some c"
  shows "min_transfer_chunk \<le> c" and "c < failed"
proof -
  have "min_transfer_chunk < failed" using assms by (auto simp: next_reduced_chunk_def split: if_splits)
  then show "min_transfer_chunk \<le> c" "c < failed"
    using assms by (auto simp: next_reduced_chunk_def Let_def split: if_splits)
qed

lemma next_reduced_some: "min_transfer_chunk < failed \<Longrightarrow> \<exists>c. next_reduced_chunk failed upper = Some c"
  by (auto simp: next_reduced_chunk_def Let_def)

definition cache_ok :: "chunk_cache \<Rightarrow> bool" where
  "cache_ok cache \<longleftrightarrow> (\<forall>client sz. cache client = Some sz \<longrightarrow> min_transfer_chunk \<le> sz \<and> sz \<le> max_transfer_chunk)"

lemma cached_chunk_size_bounds:
  "min_transfer_chunk \<le> cached_chunk_size cache client \<and> cached_chunk_size cache client \<le> max_transfer_chunk"
  by (simp add: cached_chunk_size_def Let_def default_transfer_chunk_def min_transfer_chunk_def max_transfer_chunk_def)

lemma chunk_size_for_request_bounds:
  "min_transfer_chunk \<le> chunk_size_for_request cache client q \<and> chunk_size_for_request cache client q \<le> cached_chunk_size cache client"
  using cached_chunk_size_bounds[of cache client]
  by (auto simp: chunk_size_for_request_def Let_def split: option.splits)

text \<open>Remembering never raises what is already known.\<close>

lemma remember_chunk_size_le:
  "cached_chunk_size (remember_chunk_size client sz cache) client \<le> cached_chunk_size cache client \<or>
   cache client = None \<or> \<not> (min_transfer_chunk \<le> the (cache client) \<and> the (cache client) \<le> max_transfer_chunk)"
  by (auto simp: cached_chunk_size_def remember_chunk_size_def Let_def split: option.splits)

section \<open>Names in headers are harmless\<close>

lemma go_base_chars: "c \<in> set (go_base s) \<Longrightarrow> c = CHR ''/'' \<Longrightarrow> go_base s = ''/''"
  by (auto simp: go_base_def Let_def dest: set_takeWhileD split: if_splits)

lemma go_ext_cases:
  "go_ext s = [] \<or> (\<exists>p t. s = p @ CHR ''.'' # t \<and> go_ext s = CHR ''.'' # t \<and> CHR ''.'' \<notin> set t \<and> CHR ''/'' \<notin> set t)"
proof -
  let ?P = "\<lambda>c. c \<noteq> CHR ''.'' \<and> c \<noteq> CHR ''/''" let ?t = "takeWhile ?P (rev s)"
  show ?thesis
  proof (cases "length ?t < length s \<and> rev s ! length ?t = CHR ''.''")
    case True
    then have d: "drop (length ?t) (rev s) = CHR ''.'' # drop (Suc (length ?t)) (rev s)"
      by (metis Cons_nth_drop_Suc length_rev)
    have "rev s = ?t @ drop (length ?t) (rev s)" 
      using takeWhile_dropWhile_id[of ?P "rev s"] by (simp only: dropWhile_eq_drop)
    then have "rev (rev s) = rev (?t @ CHR ''.'' # drop (Suc (length ?t)) (rev s))" using d by (simp only:)
    then have "s = rev (drop (Suc (length ?t)) (rev s)) @ CHR ''.'' # rev ?t" by simp
    moreover have "CHR ''.'' \<notin> set (rev ?t)" "CHR ''/'' \<notin> set (rev ?t)" by (auto dest: set_takeWhileD)
    ultimately show ?thesis using True by (auto simp: go_ext_def Let_def)
  qed (auto simp: go_ext_def)
qed

lemma go_ext_append:
  assumes "CHR ''.'' \<notin> set t" and "CHR ''/'' \<notin> set t"
  shows "go_ext (p @ CHR ''.'' # t) = CHR ''.'' # t"
proof -
  let ?P = "\<lambda>c. c \<noteq> CHR ''.'' \<and> c \<noteq> CHR ''/''"
  have "\<forall>c\<in>set (rev t). ?P c" using assms by auto
  then have "takeWhile ?P (rev t @ CHR ''.'' # rev p) = rev t"
    using takeWhile_append2[of "rev t" ?P "CHR ''.'' # rev p"] by simp
  then show ?thesis by (simp add: go_ext_def nth_append)
qed

lemma safe_name_prefix:
  "e \<noteq> [] \<Longrightarrow> is_safe_ascii_filename (''file'' @ e) \<Longrightarrow> is_safe_ascii_filename (''download'' @ e)"
  by (auto simp: is_safe_ascii_filename_def split: if_splits)

lemma ascii_download_safe: "is_safe_ascii_filename (ascii_download_filename n)"
proof -
  have d: "is_safe_ascii_filename ''download''" by (simp add: is_safe_ascii_filename_def)
  show ?thesis
    using d safe_name_prefix[of "go_ext (go_base (to_slash n))"]
    by (cases "go_ext (go_base (to_slash n)) = []") (auto simp: ascii_download_filename_def Let_def)
qed

text \<open>
  the file name put into a response header is never empty and has only printable ASCII without quotes
  and backslashes, whatever the agent or the query says, and a name from the query keeps the extension of
  the real file.
\<close>

theorem header_name_safe:
  "is_safe_ascii_filename (fallback_filename name) \<and>
   (go_ext actual = [] \<or> to_lower (go_ext (response_name actual option_name)) = to_lower (go_ext actual))"
proof -
  let ?c = "go_base (to_slash option_name)"
  have "to_lower (go_ext (response_name actual option_name)) = to_lower (go_ext actual)" if ne: "go_ext actual \<noteq> []"
  proof (cases "option_name \<noteq> [] \<and> ?c \<noteq> ''.'' \<and> ?c \<noteq> [] \<and> ?c \<noteq> ''/'' \<and> to_lower (go_ext ?c) \<noteq> to_lower (go_ext actual)")
    case True
    then have "response_name actual option_name = trim_suffix ?c (go_ext ?c) @ go_ext actual"
      using ne by (simp add: response_name_def Let_def)
    moreover obtain t where "go_ext actual = CHR ''.'' # t" "CHR ''.'' \<notin> set t" "CHR ''/'' \<notin> set t"
      using go_ext_cases[of actual] ne by auto
    ultimately show ?thesis by (simp add: go_ext_append)
  next
    case False
    then show ?thesis using ne by (auto simp: response_name_def Let_def)
  qed
  then show ?thesis using ascii_download_safe by (auto simp: fallback_filename_def Let_def)
qed

section \<open>Responses reach the caller that asked\<close>

datatype call_op = CBegin go_string go_string | CEnd go_string | CResolve file_result

fun call_step :: "call_op \<Rightarrow> call_state \<Rightarrow> call_state" where
  "call_step (CBegin r u) st = call_begin r u st"
| "call_step (CEnd r) st = call_end r st"
| "call_step (CResolve res) st = fst (call_resolve res st)"

definition begun :: "call_op list \<Rightarrow> (go_string \<times> go_string) set" where
  "begun ops = {(r, u). CBegin r u \<in> set ops}"

definition begin_ids :: "call_op list \<Rightarrow> go_string list" where
  "begin_ids ops = concat (map (\<lambda>op. case op of CBegin r u \<Rightarrow> [r] | _ \<Rightarrow> []) ops)"

definition call_run :: "call_op list \<Rightarrow> call_state" where
  "call_run ops = fold call_step ops \<lparr>pending = (\<lambda>_. None), delivered = []\<rparr>"

text \<open>
  when the random request identifiers do not repeat, a response reaches a caller only if that caller
  asked the very agent the response comes from, under the response's identifier, and no caller gets two
  responses, in any order of calls, timeouts and responses (also forged ones).
\<close>

theorem responses_correlated:
  assumes "distinct (begin_ids ops)"
  shows "(\<forall>r u. pending (call_run ops) r = Some u \<longrightarrow> (r, u) \<in> begun ops) \<and>
    (\<forall>d\<in>set (delivered (call_run ops)). (fst d, fr_uuid (snd d)) \<in> begun ops \<and> fr_request (snd d) = fst d) \<and>
    distinct (map fst (delivered (call_run ops))) \<and>
    (\<forall>d\<in>set (delivered (call_run ops)). pending (call_run ops) (fst d) = None)"
  using assms
proof (induction ops rule: rev_induct)
  case Nil
  then show ?case by (simp add: begun_def call_run_def)
next
  case (snoc op ops)
  define st0 where "st0 = call_run ops"
  have IH: "(\<forall>r u. pending st0 r = Some u \<longrightarrow> (r, u) \<in> begun ops) \<and>
    (\<forall>d\<in>set (delivered st0). (fst d, fr_uuid (snd d)) \<in> begun ops \<and> fr_request (snd d) = fst d) \<and>
    distinct (map fst (delivered st0)) \<and> (\<forall>d\<in>set (delivered st0). pending st0 (fst d) = None)"
    unfolding st0_def by (rule snoc.IH) (use snoc.prems in \<open>auto simp: begin_ids_def\<close>)
  have st: "call_run (ops @ [op]) = call_step op st0" by (simp add: st0_def call_run_def)
  have sub: "begun ops \<subseteq> begun (ops @ [op])" by (auto simp: begun_def)
  show ?case
  proof (cases op)
    case (CBegin r u)
    then have "CBegin r v \<notin> set ops" for v
      using snoc.prems(1) by (force simp: begin_ids_def)
    then have fresh: "\<forall>d\<in>set (delivered st0). fst d \<noteq> r" using IH by (auto simp: begun_def)
    show ?thesis unfolding st using IH fresh CBegin by (auto simp: call_begin_def begun_def)
  next
    case (CEnd r)
    then show ?thesis unfolding st using IH sub by (auto simp: call_end_def)
  next
    case (CResolve res)
    then show ?thesis unfolding st using IH sub by (auto simp: call_resolve_def split: option.splits)
  qed
qed

theorem responses_correlated_witness:
  "let good = \<lparr>fr_uuid = ''a'', fr_request = ''1'', fr_ok = True, fr_error = [], fr_result = ''x''\<rparr>;
       ops = [CBegin ''1'' ''a'', CResolve (good\<lparr>fr_uuid := ''b''\<rparr>), CResolve good, CResolve good, CEnd ''1'']
   in delivered (call_run ops) = [(''1'', good)] \<and> distinct (map fst (delivered (call_run ops)))"
proof -
  let ?good = "\<lparr>fr_uuid = ''a'', fr_request = ''1'', fr_ok = True, fr_error = [], fr_result = ''x''\<rparr>"
  let ?ops = "[CBegin ''1'' ''a'', CResolve (?good\<lparr>fr_uuid := ''b''\<rparr>), CResolve ?good, CResolve ?good, CEnd ''1'']"
  have "distinct (begin_ids ?ops)" by (simp add: begin_ids_def)
  then have "distinct (map fst (delivered (call_run ?ops)))" using responses_correlated[of ?ops] by blast
  then show ?thesis by (simp add: call_run_def call_begin_def call_resolve_def call_end_def)
qed

end
