(* ===== verification/Stream_Relay.thy ===== *)
theory Stream_Relay
  imports File_Transfer Interfaces
begin

text \<open>
  The relay between browser and agent, \<^verbatim>\<open>web/filemanager/stream_relay.go\<close>: the table of one-shot
  transfers with its pool of slots, the agent's endpoint, the exact copy of a stream, and the download
  loop with its retries and its adaptive chunk size.  A transfer lives in \<open>relays\<close> from its creation on;
  \<open>table\<close> holds the identifiers the map \<^verbatim>\<open>streamTransfers\<close> contains.  A reader is the list of bytes it will
  yield, a block of them per read, and what follows them: the end or an error; a writer accepts a number of bytes
  and then fails.
\<close>

section \<open>Transfers and slots\<close>

datatype direction = StreamUpload | StreamDownload

record stream_transfer =
  st_token :: go_string
  st_client :: go_string
  st_direction :: direction
  st_size :: int
  st_expires :: int
  st_slot_held :: bool
  st_connected :: bool
  st_closed :: bool

record relay_state =
  relays :: "go_string \<Rightarrow> stream_transfer option"
  table :: "go_string set"
  slots :: nat

definition max_stream_transfers :: nat where "max_stream_transfers = 32"
definition stream_ttl :: int where "stream_ttl = 2 * 60 * 1000000000"

text \<open>\<open>None\<close>: all slots are taken and the caller waits.\<close>

definition new_stream_transfer ::
  "go_string \<Rightarrow> go_string \<Rightarrow> go_string \<Rightarrow> direction \<Rightarrow> int \<Rightarrow> int \<Rightarrow> relay_state \<Rightarrow> relay_state option" where
  "new_stream_transfer new_id token client dir sz now s =
     (if slots s \<ge> max_stream_transfers then None
      else Some (s\<lparr>relays := (relays s)(new_id \<mapsto>
            \<lparr>st_token = token, st_client = client, st_direction = dir, st_size = sz, st_expires = now + stream_ttl,
             st_slot_held = True, st_connected = False, st_closed = False\<rparr>),
          table := insert new_id (table s), slots := slots s + 1\<rparr>))"

datatype connect_error = TransferClosed | AlreadyConnected

definition mark_connected :: "go_string \<Rightarrow> relay_state \<Rightarrow> relay_state \<times> connect_error option" where
  "mark_connected i s = (case relays s i of None \<Rightarrow> (s, Some TransferClosed)
     | Some t \<Rightarrow> if st_closed t then (s, Some TransferClosed)
         else if st_connected t then (s, Some AlreadyConnected)
         else (s\<lparr>relays := (relays s)(i \<mapsto> t\<lparr>st_connected := True\<rparr>)\<rparr>, None))"

definition close_transfer :: "go_string \<Rightarrow> relay_state \<Rightarrow> relay_state" where
  "close_transfer i s = (case relays s i of None \<Rightarrow> s
     | Some t \<Rightarrow> if st_closed t then s
         else s\<lparr>relays := (relays s)(i \<mapsto> t\<lparr>st_closed := True, st_slot_held := False\<rparr>),
                table := table s - {i}, slots := (if st_slot_held t then slots s - 1 else slots s)\<rparr>)"

text \<open>One tick of the cleanup: the expired transfers leave the table, then each is closed.\<close>

definition cleanup_expired :: "int \<Rightarrow> relay_state \<Rightarrow> go_string set" where
  "cleanup_expired now s = {i \<in> table s. case relays s i of None \<Rightarrow> False
     | Some t \<Rightarrow> \<not> st_connected t \<and> now > st_expires t}"

definition cleanup_table :: "int \<Rightarrow> relay_state \<Rightarrow> relay_state" where
  "cleanup_table now s = s\<lparr>table := table s - cleanup_expired now s\<rparr>"

datatype lookup_error = IdMismatch | NoCredentials | NoIdentity | UnknownTransfer | BadCredentials | TransferExpired

record lookup_request =
  lr_id :: go_string
  lr_header_id :: go_string
  lr_header_token :: go_string
  lr_query_token :: go_string
  lr_client :: "go_string option"
  lr_now :: int

definition lookup_transfer :: "lookup_request \<Rightarrow> relay_state \<Rightarrow> relay_state \<times> (lookup_error + go_string)" where
  "lookup_transfer r s =
     (let i = trim_space (lr_id r); h = trim_space (lr_header_id r) in
      if h \<noteq> [] \<and> h \<noteq> i then (s, Inl IdMismatch)
      else
        let tok0 = trim_space (lr_header_token r);
            tok = (if tok0 = [] then trim_space (lr_query_token r) else tok0)
        in if i = [] \<or> tok = [] then (s, Inl NoCredentials)
           else case lr_client r of None \<Rightarrow> (s, Inl NoIdentity)
           | Some client \<Rightarrow>
             if client = [] then (s, Inl NoIdentity)
             else if i \<notin> table s then (s, Inl UnknownTransfer)
             else case relays s i of None \<Rightarrow> (s, Inl UnknownTransfer)
             | Some t \<Rightarrow>
               if st_token t \<noteq> tok \<or> st_client t \<noteq> client then (s, Inl BadCredentials)
               else if lr_now r > st_expires t then (close_transfer i s, Inl TransferExpired)
               else (s, Inr i))"

section \<open>Copying a stream\<close>

record 'b reader =
  rd_data :: "'b list"
  rd_err :: "go_error option"

text \<open>The largest read, less one, and the error of a writer that takes no more.\<close>

record copier =
  cp_block :: nat
  cp_fail :: go_error

definition plain_error :: "go_string \<Rightarrow> go_error" where
  "plain_error msg = \<lparr>err_msg = msg, err_is = []\<rparr>"

definition ended_after :: "go_string \<Rightarrow> int \<Rightarrow> int \<Rightarrow> go_error" where
  "ended_after what written expected =
     \<lparr>err_msg = what @ ''ended after '' @ show_int written @ '' of '' @ show_int expected @ '' bytes'', err_is = []\<rparr>"

text \<open>The loop of \<^verbatim>\<open>copyStream\<close>: bytes still allowed, bytes the writer still takes, what was written.\<close>

function copy_loop :: "copier \<Rightarrow> nat \<Rightarrow> nat \<Rightarrow> 'b reader \<Rightarrow> 'b list \<Rightarrow> 'b list \<times> 'b reader \<times> go_error option" where
  "copy_loop blk limit room r acc =
     (let block = take (min (Suc (cp_block blk)) limit) (rd_data r) in
      if limit = 0 then (acc, r, None)
      else if block = [] then (acc, r, rd_err r)
      else let r' = r\<lparr>rd_data := drop (length block) (rd_data r)\<rparr> in
        if length block > room then (acc @ take room block, r', Some (cp_fail blk))
        else copy_loop blk (limit - length block) (room - length block) r' (acc @ block))"
  by pat_completeness auto
termination
  by (relation "measure (\<lambda>(blk, limit, room, r, acc). length (rd_data r))") auto

declare copy_loop.simps [simp del]

definition copy_stream :: "copier \<Rightarrow> nat \<Rightarrow> 'b reader \<Rightarrow> int \<Rightarrow> 'b list \<times> 'b reader \<times> go_error option" where
  "copy_stream blk room r limit = (if limit \<le> 0 then ([], r, None) else copy_loop blk (nat limit) room r [])"

definition copy_exact_stream :: "copier \<Rightarrow> nat \<Rightarrow> 'b reader \<Rightarrow> int \<Rightarrow> 'b list \<times> go_error option" where
  "copy_exact_stream blk room r expected =
     (if expected < 0 then ([], Some \<lparr>err_msg = ''negative expected stream size'', err_is = []\<rparr>)
      else case copy_stream blk room r expected of (written, r', err) \<Rightarrow>
        (case err of Some e \<Rightarrow> (written, Some e)
         | None \<Rightarrow>
             if int (length written) \<noteq> expected
             then (written, Some (ended_after ''stream '' (int (length written)) expected))
             else if rd_data r' \<noteq> [] then (written, Some \<lparr>err_msg = ''stream exceeds '' @ show_int expected @ '' bytes'', err_is = []\<rparr>)
             else (written, rd_err r')))"

section \<open>The agent's endpoint\<close>

datatype http_method = GET | POST | OtherMethod

record 'b agent_request =
  ar_lookup :: lookup_request
  ar_method :: http_method
  ar_length :: int
  ar_body :: "'b reader"

text \<open>
  The reply has a status and, for an upload, the bytes served to the agent; the bytes of a download go into
  the pipe.  \<open>pipe\<close> is what the other side puts into the pipe, \<open>room\<close> how much the receiving side takes.
\<close>

record 'b agent_reply =
  rp_status :: nat
  rp_served :: "'b list"
  rp_piped :: "'b list"

definition serve_upload :: "copier \<Rightarrow> nat \<Rightarrow> 'b reader \<Rightarrow> go_string \<Rightarrow> int \<Rightarrow> relay_state \<Rightarrow> relay_state \<times> 'b agent_reply" where
  "serve_upload blk room pipe i sz s =
     (case mark_connected i s of
        (s1, Some _) \<Rightarrow> (s1, \<lparr>rp_status = 409, rp_served = [], rp_piped = []\<rparr>)
      | (s1, None) \<Rightarrow>
          (case copy_exact_stream blk room pipe sz of (written, err) \<Rightarrow>
             (close_transfer i s1,
              \<lparr>rp_status = (if err \<noteq> None \<and> written = [] then 400 else 200), rp_served = written, rp_piped = []\<rparr>)))"

definition receive_download :: "copier \<Rightarrow> nat \<Rightarrow> 'b agent_request \<Rightarrow> go_string \<Rightarrow> int \<Rightarrow> relay_state \<Rightarrow> relay_state \<times> 'b agent_reply" where
  "receive_download blk room req i sz s =
     (if ar_length req \<ge> 0 \<and> ar_length req \<noteq> sz then (close_transfer i s, \<lparr>rp_status = 400, rp_served = [], rp_piped = []\<rparr>)
      else case mark_connected i s of
        (s1, Some _) \<Rightarrow> (s1, \<lparr>rp_status = 409, rp_served = [], rp_piped = []\<rparr>)
      | (s1, None) \<Rightarrow>
          (case copy_exact_stream blk room (ar_body req) sz of (written, err) \<Rightarrow>
             (close_transfer i s1,
              \<lparr>rp_status = (if err \<noteq> None then 400 else 200), rp_served = [], rp_piped = written\<rparr>)))"

definition agent_transfer :: "copier \<Rightarrow> nat \<Rightarrow> 'b reader \<Rightarrow> 'b agent_request \<Rightarrow> relay_state \<Rightarrow> relay_state \<times> 'b agent_reply" where
  "agent_transfer blk room pipe req s =
     (case lookup_transfer (ar_lookup req) s of
        (s1, Inl _) \<Rightarrow> (s1, \<lparr>rp_status = 401, rp_served = [], rp_piped = []\<rparr>)
      | (s1, Inr i) \<Rightarrow>
        (case relays s1 i of None \<Rightarrow> (s1, \<lparr>rp_status = 401, rp_served = [], rp_piped = []\<rparr>)
         | Some t \<Rightarrow>
           (case ar_method req of
              GET \<Rightarrow> if st_direction t \<noteq> StreamUpload then (s1, \<lparr>rp_status = 405, rp_served = [], rp_piped = []\<rparr>)
                     else serve_upload blk room pipe i (st_size t) s1
            | POST \<Rightarrow>
                if st_direction t = StreamUpload then
                  (if ar_length req > 0 then (close_transfer i s1, \<lparr>rp_status = 400, rp_served = [], rp_piped = []\<rparr>)
                   else serve_upload blk room pipe i (st_size t) s1)
                else receive_download blk room req i (st_size t) s1
            | OtherMethod \<Rightarrow> (s1, \<lparr>rp_status = 405, rp_served = [], rp_piped = []\<rparr>))))"

section \<open>The download loop\<close>

text \<open>
  One attempt (\<^verbatim>\<open>streamDownloadChunk\<close>) is an outcome of the environment: how many bytes reached the browser,
  the error of the copy and the error of the call.  \<open>send n\<close> is the outcome of the n-th attempt of the
  whole download, \<open>ctx_done n\<close> whether the browser had gone after it.
\<close>

record send_result =
  sr_bytes :: int
  sr_copy_err :: "go_error option"
  sr_stream_err :: "go_error option"

type_synonym send_oracle = "nat \<Rightarrow> int \<Rightarrow> int \<Rightarrow> send_result"

definition stream_chunk_attempts :: nat where "stream_chunk_attempts = 3"

datatype chunk_outcome = ChunkDone | ChunkResized int | ChunkAborted go_error | ChunkFailed go_error send_result

record attempt_result =
  at_count :: nat
  at_sent :: "(int \<times> int) list"
  at_upper :: int
  at_outcome :: chunk_outcome

definition attempt_error :: "nat \<Rightarrow> int \<Rightarrow> send_result \<Rightarrow> go_error" where
  "attempt_error index len r = (case sr_stream_err r of Some e \<Rightarrow> e
     | None \<Rightarrow> (case sr_copy_err r of Some e \<Rightarrow> e | None \<Rightarrow>
         \<lparr>err_msg = ''download chunk '' @ show_nat index @ '' returned '' @ show_int (sr_bytes r) @ '' of '' @ show_int len @ '' bytes'',
          err_is = []\<rparr>))"

text \<open>A smaller chunk to try instead, with the tightened upper bound.\<close>

definition reduce_to :: "bool \<Rightarrow> int \<Rightarrow> int \<Rightarrow> int \<times> int option" where
  "reduce_to cond len upper =
     (if cond then
        let upper' = min upper len in
        (upper', case next_reduced_chunk len upper' of Some nx \<Rightarrow> if nx < len then Some nx else None | None \<Rightarrow> None)
      else (upper, None))"

fun attempt_loop ::
  "send_oracle \<Rightarrow> (nat \<Rightarrow> bool) \<Rightarrow> int \<Rightarrow> int \<Rightarrow> nat list \<Rightarrow> nat \<Rightarrow> (int \<times> int) list \<Rightarrow> int \<Rightarrow> attempt_result" where
  "attempt_loop send ctx_done off len [] n sent upper =
     \<lparr>at_count = n, at_sent = sent, at_upper = upper, at_outcome = ChunkDone\<rparr>"
| "attempt_loop send ctx_done off len (a # as) n sent upper =
     (let r = send n off len;
          sent' = (if sr_bytes r > 0 then sent @ [(off, sr_bytes r)] else sent)
      in if sr_copy_err r = None \<and> sr_bytes r = len then
           \<lparr>at_count = n + 1, at_sent = sent', at_upper = upper, at_outcome = ChunkDone\<rparr>
         else
           let e = attempt_error (length sent) len r;
               (upper1, resize1) = reduce_to (sr_bytes r = 0 \<and> is_payload_too_large e) len upper
           in case resize1 of
             Some nx \<Rightarrow> \<lparr>at_count = n + 1, at_sent = sent', at_upper = upper1, at_outcome = ChunkResized nx\<rparr>
           | None \<Rightarrow>
             if sr_bytes r = 0 \<and> is_non_retryable e then
               \<lparr>at_count = n + 1, at_sent = sent', at_upper = upper1, at_outcome = ChunkAborted e\<rparr>
             else
               let (upper2, resize2) =
                     reduce_to (sr_bytes r = 0 \<and> a = stream_chunk_attempts \<and> is_chunk_transport_error e) len upper1
               in case resize2 of
                 Some nx \<Rightarrow> \<lparr>at_count = n + 1, at_sent = sent', at_upper = upper2, at_outcome = ChunkResized nx\<rparr>
               | None \<Rightarrow>
                 if sr_bytes r > 0 \<or> a = stream_chunk_attempts \<or> ctx_done n then
                   \<lparr>at_count = n + 1, at_sent = sent', at_upper = upper2, at_outcome = ChunkFailed e r\<rparr>
                 else attempt_loop send ctx_done off len as (n + 1) sent' upper2)"

record relay_run =
  rr_offset :: int
  rr_current :: int
  rr_upper :: int
  rr_count :: nat
  rr_sent :: "(int \<times> int) list"
  rr_cache :: chunk_cache

text \<open>The loop around the attempts at one offset; the error, if the download ends here, and the length of
  the delivered chunk otherwise.\<close>

partial_function (option) chunk_loop ::
  "send_oracle \<Rightarrow> (nat \<Rightarrow> bool) \<Rightarrow> go_string \<Rightarrow> int \<Rightarrow> int \<Rightarrow> relay_run \<Rightarrow> (relay_run \<times> (go_error + int)) option" where
  "chunk_loop send ctx_done client fin len st =
     (let r = attempt_loop send ctx_done (rr_offset st) len [1..<stream_chunk_attempts + 1] (rr_count st) (rr_sent st) (rr_upper st);
          st1 = st\<lparr>rr_count := at_count r, rr_sent := at_sent r, rr_upper := at_upper r\<rparr>
      in case at_outcome r of
           ChunkDone \<Rightarrow> Some (st1\<lparr>rr_cache := remember_chunk_size client (rr_current st1) (rr_cache st1)\<rparr>, Inr len)
         | ChunkAborted e \<Rightarrow> Some (st1, Inl e)
         | ChunkFailed e last_r \<Rightarrow>
             Some (if sr_bytes last_r > 0 \<and> (case sr_copy_err last_r of Some ce \<Rightarrow> is_client_disconnect ce | None \<Rightarrow> False)
                   then (case next_reduced_chunk (rr_current st1) (rr_current st1) of
                           Some nx \<Rightarrow> if nx < rr_current st1
                             then st1\<lparr>rr_cache := remember_chunk_size client nx (rr_cache st1)\<rparr> else st1
                         | None \<Rightarrow> st1)
                   else st1, Inl e)
         | ChunkResized nx \<Rightarrow>
             chunk_loop send ctx_done client fin (min nx (fin - rr_offset st1)) (st1\<lparr>rr_current := nx\<rparr>))"

partial_function (option) relay_loop ::
  "send_oracle \<Rightarrow> (nat \<Rightarrow> bool) \<Rightarrow> go_string \<Rightarrow> int \<Rightarrow> relay_run \<Rightarrow> (relay_run \<times> go_error option) option" where
  "relay_loop send ctx_done client fin st =
     (if rr_offset st < fin then
        (case chunk_loop send ctx_done client fin (min (rr_current st) (fin - rr_offset st)) st of
           None \<Rightarrow> None
         | Some (st1, res) \<Rightarrow>
             (case res of Inl e \<Rightarrow> Some (st1, Some e)
              | Inr len \<Rightarrow> relay_loop send ctx_done client fin (st1\<lparr>rr_offset := rr_offset st1 + len\<rparr>)))
      else Some (st\<lparr>rr_cache := remember_chunk_size client (rr_current st) (rr_cache st)\<rparr>, None))"

definition stream_download_relay ::
  "send_oracle \<Rightarrow> (nat \<Rightarrow> bool) \<Rightarrow> go_string \<Rightarrow> int \<Rightarrow> int \<Rightarrow> int \<Rightarrow> chunk_cache \<Rightarrow> (relay_run \<times> go_error option) option" where
  "stream_download_relay send ctx_done client start sz chunk cache =
     (let st = \<lparr>rr_offset = start, rr_current = chunk, rr_upper = chunk, rr_count = 0, rr_sent = [], rr_cache = cache\<rparr> in
      if sz \<le> 0 then Some (st\<lparr>rr_cache := remember_chunk_size client chunk cache\<rparr>, None)
      else if chunk \<le> 0 \<or> chunk > max_transfer_chunk
      then Some (st, Some \<lparr>err_msg = ''invalid download chunk size '' @ show_int chunk, err_is = []\<rparr>)
      else relay_loop send ctx_done client (start + sz) st)"

section \<open>The copy is exact\<close>

lemma copy_loop_unfold:
  fixes r :: "'b reader"
  defines "block \<equiv> \<lambda>blk limit. take (min (Suc (cp_block blk)) limit) (rd_data r)"
  shows "copy_loop blk limit room r acc =
     (if limit = 0 then (acc, r, None)
      else if block blk limit = [] then (acc, r, rd_err r)
      else if length (block blk limit) > room
        then (acc @ take room (block blk limit), r\<lparr>rd_data := drop (length (block blk limit)) (rd_data r)\<rparr>,
              Some (cp_fail blk))
        else copy_loop blk (limit - length (block blk limit)) (room - length (block blk limit))
          (r\<lparr>rd_data := drop (length (block blk limit)) (rd_data r)\<rparr>) (acc @ block blk limit))"
  unfolding block_def by (subst copy_loop.simps) (simp only: Let_def)

lemma take_via: "k \<le> m \<Longrightarrow> take k d @ take (m - k) (drop k d) = take m d"
  by (metis le_add_diff_inverse take_add)

lemma copy_loop_spec:
  "(room < min limit (length (rd_data r)) \<longrightarrow>
     (\<exists>r'. copy_loop blk limit room r acc = (acc @ take room (rd_data r), r', Some (cp_fail blk)))) \<and>
   (min limit (length (rd_data r)) \<le> room \<longrightarrow>
     copy_loop blk limit room r acc = (acc @ take limit (rd_data r), r\<lparr>rd_data := drop limit (rd_data r)\<rparr>,
       if limit \<le> length (rd_data r) then None else rd_err r))"
proof (induction "length (rd_data r)" arbitrary: limit room r acc rule: less_induct)
  case less
  let ?d = "rd_data r"
  define k where "k = min (min (Suc (cp_block blk)) limit) (length ?d)"
  have block: "take (min (Suc (cp_block blk)) limit) ?d = take k ?d" "length (take k ?d) = k"
    by (simp_all add: k_def min_def)
  show ?case
  proof (cases "limit = 0 \<or> ?d = []")
    case True
    then have "copy_loop blk limit room r acc = (acc, r, if limit = 0 then None else rd_err r)"
      by (subst copy_loop_unfold) auto
    then show ?thesis using True by auto
  next
    case False
    then have k: "0 < k" "k \<le> limit" "k \<le> length ?d" by (auto simp: k_def)
    have ne: "take k ?d \<noteq> []" using k by auto
    show ?thesis
    proof (cases "k > room")
      case True
      have "copy_loop blk limit room r acc =
          (acc @ take room ?d, r\<lparr>rd_data := drop k ?d\<rparr>, Some (cp_fail blk))"
        using True False ne by (subst copy_loop_unfold) (simp only: block, simp)
      moreover have "room < min limit (length ?d)" using True k by simp
      ultimately show ?thesis by auto
    next
      case room: False
      let ?r = "r\<lparr>rd_data := drop k ?d\<rparr>"
      have eq: "copy_loop blk limit room r acc = copy_loop blk (limit - k) (room - k) ?r (acc @ take k ?d)"
        using room False ne by (subst copy_loop_unfold) (simp only: block, simp)
      have ih: "(room - k < min (limit - k) (length ?d - k) \<longrightarrow>
          (\<exists>r'. copy_loop blk (limit - k) (room - k) ?r (acc @ take k ?d) =
            ((acc @ take k ?d) @ take (room - k) (drop k ?d), r', Some (cp_fail blk)))) \<and>
        (min (limit - k) (length ?d - k) \<le> room - k \<longrightarrow>
          copy_loop blk (limit - k) (room - k) ?r (acc @ take k ?d) =
            ((acc @ take k ?d) @ take (limit - k) (drop k ?d), ?r\<lparr>rd_data := drop (limit - k) (drop k ?d)\<rparr>,
             if limit - k \<le> length ?d - k then None else rd_err r))"
        using less[of ?r "room - k" "limit - k" "acc @ take k ?d"] k(1) False by simp
      have c: "(room - k < min (limit - k) (length ?d - k)) = (room < min limit (length ?d))"
        "(limit - k \<le> length ?d - k) = (limit \<le> length ?d)"
        using k room by linarith+
      have t: "take k ?d @ take (room - k) (drop k ?d) = take room ?d"
        "take k ?d @ take (limit - k) (drop k ?d) = take limit ?d"
        using room k(2) by (intro take_via; simp)+
      have dr: "drop (limit - k) (drop k ?d) = drop limit ?d" using k(2) by simp
      show ?thesis using ih unfolding eq append_assoc t c dr by (auto simp: c)
    qed
  qed
qed

text \<open>
  copying exactly n bytes succeeds only if the stream has exactly n bytes, ends without an error and
  the receiver takes them all; whatever happens, exactly the first bytes of the stream are forwarded, as
  many as are expected and the receiver takes.
\<close>

lemma copy_exact_spec:
  "let (written, err) = copy_exact_stream blk room r expected in
   (err = None) = (0 \<le> expected \<and> int (length (rd_data r)) = expected \<and> expected \<le> int room \<and> rd_err r = None) \<and>
   written = take (min (nat expected) room) (rd_data r)"
proof (cases "expected \<le> 0")
  case True
  then show ?thesis by (auto simp: copy_exact_stream_def copy_stream_def Let_def)
next
  case False
  let ?n = "nat expected" let ?d = "rd_data r"
  show ?thesis
  proof (cases "room < min ?n (length ?d)")
    case True
    then obtain r' where "copy_loop blk ?n room r [] = (take room ?d, r', Some (cp_fail blk))"
      using copy_loop_spec[where blk = blk and limit = ?n and room = room and r = r and acc = "[]"] by auto
    then show ?thesis using True False by (auto simp: copy_exact_stream_def copy_stream_def take_is_prefix Let_def)
  next
    case ok: False
    then have "copy_loop blk ?n room r [] = (take ?n ?d, r\<lparr>rd_data := drop ?n ?d\<rparr>, if ?n \<le> length ?d then None else rd_err r)"
      using copy_loop_spec[where blk = blk and limit = ?n and room = room and r = r and acc = "[]"]
      by (simp only: not_less append_Nil)
    then show ?thesis using ok False
      by (cases "rd_err r") (auto simp: copy_exact_stream_def copy_stream_def take_is_prefix Let_def min_def)
  qed
qed

section \<open>Slots and one-shot relays\<close>

definition held_slots :: "relay_state \<Rightarrow> go_string set" where
  "held_slots s = {i. \<exists>t. relays s i = Some t \<and> st_slot_held t}"

definition relay_inv :: "relay_state \<Rightarrow> bool" where
  "relay_inv s \<longleftrightarrow> finite (held_slots s) \<and> slots s = card (held_slots s) \<and> slots s \<le> max_stream_transfers \<and>
     (\<forall>i t. relays s i = Some t \<longrightarrow> st_slot_held t = (\<not> st_closed t)) \<and>
     (\<forall>i\<in>table s. \<exists>t. relays s i = Some t \<and> \<not> st_closed t)"

lemma held_slots_new:
  "new_stream_transfer i tok client dir sz now s = Some s' \<Longrightarrow> held_slots s' = insert i (held_slots s)"
  by (auto simp: new_stream_transfer_def held_slots_def split: if_splits)

lemma held_slots_close: "held_slots (close_transfer i s) = (if (\<exists>t. relays s i = Some t \<and> \<not> st_closed t)
    then held_slots s - {i} else held_slots s)"
  by (auto simp: close_transfer_def held_slots_def split: option.splits)

lemma held_slots_connected: "held_slots (fst (mark_connected i s)) = held_slots s"
  by (auto simp: mark_connected_def held_slots_def split: option.splits if_splits)

lemma relay_inv_new:
  assumes "relay_inv s" and "new_stream_transfer i tok client dir sz now s = Some s'" and "i \<notin> held_slots s"
  shows "relay_inv s'"
  using assms(1,3) assms(2)[THEN held_slots_new] assms(2)
  by (auto simp: relay_inv_def new_stream_transfer_def split: if_splits)

lemma relay_inv_close:
  assumes inv: "relay_inv s"
  shows "relay_inv (close_transfer i s)"
proof (cases "\<exists>t. relays s i = Some t \<and> \<not> st_closed t")
  case True
  then obtain t where t: "relays s i = Some t" "\<not> st_closed t" by blast
  then have h: "st_slot_held t" "i \<in> held_slots s" using inv by (auto simp: relay_inv_def held_slots_def)
  have "card (held_slots s - {i}) = slots s - 1" using inv h(2) by (simp add: relay_inv_def)
  moreover have "held_slots (close_transfer i s) = held_slots s - {i}" using True by (simp add: held_slots_close)
  ultimately show ?thesis
    using inv t h by (auto simp: relay_inv_def close_transfer_def)
next
  case False
  then have "close_transfer i s = s" by (auto simp: close_transfer_def split: option.splits)
  then show ?thesis using inv by simp
qed

lemma held_slots_close_inv: "relay_inv s \<Longrightarrow> held_slots (close_transfer i s) = held_slots s - {i}"
proof (cases "\<exists>t. relays s i = Some t \<and> \<not> st_closed t")
  case False
  assume "relay_inv s"
  then have "i \<notin> held_slots s" using False by (auto simp: relay_inv_def held_slots_def)
  then show ?thesis using False by (simp add: held_slots_close)
qed (simp add: held_slots_close)

lemma relay_inv_connected: "relay_inv s \<Longrightarrow> relay_inv (fst (mark_connected i s))"
  using held_slots_connected[of i s]
  by (auto simp: relay_inv_def mark_connected_def split: option.splits if_splits)

lemma relay_inv_cleanup: "relay_inv s \<Longrightarrow> relay_inv (cleanup_table now s)"
  by (auto simp: relay_inv_def cleanup_table_def held_slots_def)

interpretation relay_pool: slot_pool relay_inv max_stream_transfers slots held_slots
  "\<lambda>i. new_stream_transfer i tok client dir sz now" close_transfer
  for tok client dir sz now
proof unfold_locales
  fix i :: go_string and s s' :: relay_state assume inv: "relay_inv s"
  show "finite (held_slots s) \<and> slots s = card (held_slots s)" "slots s \<le> max_stream_transfers"
    using inv by (simp_all add: relay_inv_def)
  show "(new_stream_transfer i tok client dir sz now s = None) = (slots s = max_stream_transfers)"
    using inv by (auto simp: relay_inv_def new_stream_transfer_def)
  show "relay_inv (close_transfer i s) \<and> held_slots (close_transfer i s) = held_slots s - {i}"
    using relay_inv_close[OF inv] held_slots_close_inv[OF inv] by blast
  show "new_stream_transfer i tok client dir sz now s = Some s' \<Longrightarrow> i \<notin> held_slots s \<Longrightarrow>
      relay_inv s' \<and> held_slots s' = insert i (held_slots s)"
    using inv relay_inv_new held_slots_new by blast
qed

text \<open>
  The steps of the relay system.  A new identifier (a random uuid) is one that was never used; the cleanup
  takes the expired transfers out of the table in one step and closes each of them later.
\<close>

inductive relay_step :: "relay_state \<Rightarrow> relay_state \<Rightarrow> bool" where
  rs_new: "relays s i = None \<Longrightarrow> new_stream_transfer i tok client dir sz now s = Some s' \<Longrightarrow> relay_step s s'"
| rs_agent: "relay_step s (fst (agent_transfer blk room (pipe :: nat reader) req s))"
| rs_close: "relay_step s (close_transfer i s)"
| rs_cleanup: "relay_step s (cleanup_table now s)"

inductive_cases relay_stepE: "relay_step s s'"

inductive relay_reach :: "relay_state \<Rightarrow> bool" where
  rr_init: "relay_reach \<lparr>relays = (\<lambda>_. None), table = {}, slots = 0\<rparr>"
| rr_step: "relay_reach s \<Longrightarrow> relay_step s s' \<Longrightarrow> relay_reach s'"

lemma lookup_state: "fst (lookup_transfer r s) = s \<or> (\<exists>i. fst (lookup_transfer r s) = close_transfer i s)"
  by (auto simp: lookup_transfer_def Let_def split: option.splits)

lemma lookup_ok:
  assumes "lookup_transfer r s = (s1, Inr i)"
  shows "s1 = s" and "i \<in> table s" and "\<exists>t. relays s i = Some t \<and> lr_client r = Some (st_client t) \<and> st_client t \<noteq> [] \<and>
    st_token t \<in> {trim_space (lr_header_token r), trim_space (lr_query_token r)} \<and> st_token t \<noteq> [] \<and>
    \<not> lr_now r > st_expires t"
  using assms by (auto simp: lookup_transfer_def Let_def split: option.splits if_splits)

text \<open>Every request of an agent leaves the state, or marks, closes, or does both to one transfer.\<close>

lemma serve_upload_state:
  "fst (serve_upload blk room pipe i sz s) = fst (mark_connected i s) \<or>
   fst (serve_upload blk room pipe i sz s) = close_transfer i (fst (mark_connected i s))"
  by (auto simp: serve_upload_def split: prod.splits option.splits)

lemma receive_download_state:
  "fst (receive_download blk room req i sz s) \<in> {close_transfer i s, fst (mark_connected i s), close_transfer i (fst (mark_connected i s))}"
  by (auto simp: receive_download_def split: prod.splits option.splits)

lemma agent_transfer_state:
  "\<exists>i. fst (agent_transfer blk room pipe req s) \<in>
     {s, close_transfer i s, fst (mark_connected i s), close_transfer i (fst (mark_connected i s))}"
proof (cases "lookup_transfer (ar_lookup req) s")
  case (Pair s1 res)
  show ?thesis
  proof (cases res)
    case (Inl e)
    then show ?thesis using Pair lookup_state[of "ar_lookup req" s] by (auto simp: agent_transfer_def)
  next
    case (Inr i)
    then have "s1 = s" using Pair lookup_ok(1) by auto
    then show ?thesis
      using Pair Inr serve_upload_state[of blk room pipe i _ s] receive_download_state[of blk room req i _ s]
      by (intro exI[of _ i]) (auto simp: agent_transfer_def split: option.splits http_method.splits)
  qed
qed

lemma relay_step_inv: "relay_step s s' \<Longrightarrow> relay_inv s \<Longrightarrow> relay_inv s'"
proof (induction rule: relay_step.induct)
  case (rs_new s i tok client dir sz now s')
  then have "i \<notin> held_slots s" by (simp add: held_slots_def)
  then show ?case using relay_inv_new[OF rs_new(3,2)] by blast
next
  case (rs_agent s blk room pipe req)
  note c = relay_inv_connected[OF rs_agent]
  obtain i where "fst (agent_transfer blk room pipe req s) \<in>
      {s, close_transfer i s, fst (mark_connected i s), close_transfer i (fst (mark_connected i s))}"
    using agent_transfer_state by blast
  then show ?case
    using rs_agent relay_inv_close[OF rs_agent, of i] c[of i] relay_inv_close[OF c[of i], of i] by (elim insertE emptyE) simp_all
qed (simp_all add: relay_inv_close relay_inv_cleanup)

lemma relay_reach_inv: "relay_reach s \<Longrightarrow> relay_inv s"
proof (induction rule: relay_reach.induct)
  case rr_init
  show ?case by (simp add: relay_inv_def held_slots_def)
qed (rule relay_step_inv)

text \<open>
  in every reachable state the slots in use are exactly the open relays, at most 32 of them, and only
  open relays can be looked up; closing any of them makes room for a new one at once, closing it again
  changes nothing.
\<close>

theorem relay_slots:
  assumes "relay_reach s"
  shows "slots s = card {i. \<exists>t. relays s i = Some t \<and> \<not> st_closed t} \<and> slots s \<le> 32 \<and>
    table s \<subseteq> {i. \<exists>t. relays s i = Some t \<and> \<not> st_closed t} \<and>
    (\<forall>i t. relays s i = Some t \<and> \<not> st_closed t \<longrightarrow>
       new_stream_transfer j tok client dir sz now (close_transfer i s) \<noteq> None) \<and>
    close_transfer i (close_transfer i s) = close_transfer i s"
proof -
  have inv: "relay_inv s" using assms by (rule relay_reach_inv)
  have h: "held_slots s = {i. \<exists>t. relays s i = Some t \<and> \<not> st_closed t}"
    using inv by (auto simp: relay_inv_def held_slots_def)
  have "new_stream_transfer j tok client dir sz now (close_transfer i s) \<noteq> None"
    if "relays s i = Some t" "\<not> st_closed t" for i t
    using relay_pool.acquire_after_release[OF inv] h that by blast
  moreover have "close_transfer i (close_transfer i s) = close_transfer i s"
    by (auto simp: close_transfer_def split: option.splits)
  ultimately show ?thesis
    using inv h relay_pool.used_held[OF inv] by (auto simp: relay_inv_def max_stream_transfers_def)
qed

theorem relay_slots_witness:
  "\<exists>s. relay_reach s \<and> slots s = 1 \<and> slots (close_transfer ''t'' s) = 0 \<and>
     close_transfer ''t'' (close_transfer ''t'' s) = close_transfer ''t'' s"
proof -
  let ?s0 = "\<lparr>relays = (\<lambda>_. None), table = {}, slots = 0\<rparr>"
  obtain s where s: "new_stream_transfer ''t'' ''k'' ''c'' StreamUpload 5 0 ?s0 = Some s"
    by (simp add: new_stream_transfer_def max_stream_transfers_def)
  have "relay_reach s" by (rule rr_step[OF rr_init rs_new[OF _ s]]) simp
  moreover have "slots s = 1" "slots (close_transfer ''t'' s) = 0"
    using s by (auto simp: new_stream_transfer_def max_stream_transfers_def close_transfer_def)
  ultimately show ?thesis using relay_slots[of s, where i = "''t''"] by blast
qed

definition used_once :: "go_string \<Rightarrow> int \<Rightarrow> relay_state \<Rightarrow> relay_state \<Rightarrow> 'b agent_reply \<Rightarrow> bool" where
  "used_once i sz s s' rp \<longleftrightarrow> (\<exists>t. relays s i = Some t \<and> \<not> st_connected t \<and> \<not> st_closed t \<and>
     int (length (rp_served rp @ rp_piped rp)) \<le> max 0 sz \<and>
     s' = close_transfer i (s\<lparr>relays := (relays s)(i \<mapsto> t\<lparr>st_connected := True\<rparr>)\<rparr>))"

lemma copied_length: "copy_exact_stream blk room r n = (w, e) \<Longrightarrow> int (length w) \<le> max 0 n"
  using copy_exact_spec[of blk room r n] by (auto simp: Let_def)

lemma mark_connected_ok:
  "mark_connected i s = (s1, None) \<Longrightarrow> \<exists>t. relays s i = Some t \<and> \<not> st_connected t \<and> \<not> st_closed t \<and>
     s1 = s\<lparr>relays := (relays s)(i \<mapsto> t\<lparr>st_connected := True\<rparr>)\<rparr>"
  by (auto simp: mark_connected_def split: option.splits if_splits)

lemma serve_upload_once:
  assumes "serve_upload blk room pipe i sz s = (s', rp)" and "rp_served rp \<noteq> [] \<or> rp_piped rp \<noteq> []"
  shows "used_once i sz s s' rp"
proof -
  obtain s1 c where m: "mark_connected i s = (s1, c)" by fastforce
  then have "c = None" using assms by (cases c) (auto simp: serve_upload_def)
  then show ?thesis
    using assms m mark_connected_ok[of i s s1] copied_length[of blk room pipe sz]
    by (auto simp: serve_upload_def used_once_def split: prod.splits)
qed

lemma receive_download_once:
  assumes "receive_download blk room req i sz s = (s', rp)" and "rp_served rp \<noteq> [] \<or> rp_piped rp \<noteq> []"
  shows "used_once i sz s s' rp"
proof -
  obtain s1 c where m: "mark_connected i s = (s1, c)" by fastforce
  have l: "\<not> (ar_length req \<ge> 0 \<and> ar_length req \<noteq> sz)" using assms by (auto simp: receive_download_def split: if_splits)
  then have "c = None" using assms m by (cases c) (auto simp: receive_download_def)
  then show ?thesis
    using assms l m mark_connected_ok[of i s s1] copied_length[of blk room "ar_body req" sz]
    by (auto simp: receive_download_def used_once_def split: prod.splits)
qed

text \<open>
  C11: bytes move only for a request that carries the token of a relay in the table and the identity of the
  agent the relay was made for, before it expires and before anyone else connected, and never more of them
  than the relay was made for; afterwards the relay is closed for good and out of the table.
\<close>

theorem agent_transfer_one_shot:
  assumes "agent_transfer blk room pipe req s = (s', rp)" and "rp_served rp \<noteq> [] \<or> rp_piped rp \<noteq> []"
  shows "\<exists>i t. i \<in> table s \<and> relays s i = Some t \<and> lr_client (ar_lookup req) = Some (st_client t) \<and>
     st_token t \<in> {trim_space (lr_header_token (ar_lookup req)), trim_space (lr_query_token (ar_lookup req))} \<and>
     st_token t \<noteq> [] \<and> lr_now (ar_lookup req) \<le> st_expires t \<and> \<not> st_connected t \<and> \<not> st_closed t \<and>
     int (length (rp_served rp @ rp_piped rp)) \<le> max 0 (st_size t) \<and>
     i \<notin> table s' \<and> relays s' i = Some (t\<lparr>st_connected := True, st_closed := True, st_slot_held := False\<rparr>)"
proof -
  obtain s1 res where l: "lookup_transfer (ar_lookup req) s = (s1, res)" by fastforce
  then obtain i where res: "res = Inr i" using assms by (cases res) (auto simp: agent_transfer_def)
  note ok = lookup_ok[OF l[unfolded res]]
  obtain t where t: "relays s i = Some t" using ok(3) by blast
  have eff: "used_once i (st_size t) s s' rp"
  proof (cases "ar_method req")
    case GET
    then show ?thesis
      using assms serve_upload_once[of blk room pipe i "st_size t" s s' rp] t l ok(1)
      by (auto simp: agent_transfer_def res split: if_splits)
  next
    case POST
    then show ?thesis
      using assms serve_upload_once[of blk room pipe i "st_size t" s s' rp]
        receive_download_once[of blk room req i "st_size t" s s' rp] t l ok(1)
      by (auto simp: agent_transfer_def res split: if_splits)
  next
    case OtherMethod
    then show ?thesis using assms t l ok(1) by (auto simp: agent_transfer_def res)
  qed
  then have eff: "\<not> st_connected t \<and> \<not> st_closed t \<and> int (length (rp_served rp @ rp_piped rp)) \<le> max 0 (st_size t) \<and>
      s' = close_transfer i (s\<lparr>relays := (relays s)(i \<mapsto> t\<lparr>st_connected := True\<rparr>)\<rparr>)"
    using t by (auto simp: used_once_def)
  then have "i \<notin> table s' \<and> relays s' i = Some (t\<lparr>st_connected := True, st_closed := True, st_slot_held := False\<rparr>)"
    by (auto simp: close_transfer_def)
  then show ?thesis using ok(2,3) t eff by (intro exI[of _ i] exI[of _ t]) auto
qed

theorem agent_transfer_one_shot_witness:
  "let t = \<lparr>st_token = ''k'', st_client = ''c'', st_direction = StreamDownload, st_size = 2, st_expires = 9,
            st_slot_held = True, st_connected = False, st_closed = False\<rparr>;
       s = \<lparr>relays = [''i'' \<mapsto> t], table = {''i''}, slots = 1\<rparr>;
       req = \<lparr>ar_lookup = \<lparr>lr_id = ''i'', lr_header_id = [], lr_header_token = ''k'', lr_query_token = [],
                lr_client = Some ''c'', lr_now = 5\<rparr>, ar_method = POST, ar_length = 2,
              ar_body = \<lparr>rd_data = [1, 2 :: nat], rd_err = None\<rparr>\<rparr>;
       (s', rp) = agent_transfer \<lparr>cp_block = 3, cp_fail = plain_error ''closed''\<rparr> 10 \<lparr>rd_data = [], rd_err = None\<rparr> req s
   in rp_piped rp = [1, 2] \<and> ''i'' \<notin> table s'"
proof -
  let ?t = "\<lparr>st_token = ''k'', st_client = ''c'', st_direction = StreamDownload, st_size = 2, st_expires = 9,
            st_slot_held = True, st_connected = False, st_closed = False\<rparr>"
  let ?s = "\<lparr>relays = [''i'' \<mapsto> ?t], table = {''i''}, slots = 1\<rparr>"
  let ?req = "\<lparr>ar_lookup = \<lparr>lr_id = ''i'', lr_header_id = [], lr_header_token = ''k'', lr_query_token = [],
                lr_client = Some ''c'', lr_now = 5\<rparr>, ar_method = POST, ar_length = 2,
              ar_body = \<lparr>rd_data = [1, 2 :: nat], rd_err = None\<rparr>\<rparr>"
  let ?cp = "\<lparr>cp_block = 3, cp_fail = plain_error ''closed''\<rparr>"
  let ?pipe = "\<lparr>rd_data = [] :: nat list, rd_err = None\<rparr>"
  obtain s' rp where run: "agent_transfer ?cp 10 ?pipe ?req ?s = (s', rp)" by fastforce
  have "trim_space ''i'' = ''i''" "trim_space ''k'' = ''k''" by (intro trim_space_graphic; simp)+
  then have look: "lookup_transfer (ar_lookup ?req) ?s = (?s, Inr ''i'')" by (simp add: lookup_transfer_def Let_def)
  have "copy_exact_stream ?cp 10 (ar_body ?req) 2 = ([1, 2], None)"
    using copy_exact_spec[of ?cp 10 "ar_body ?req" 2] by (cases "copy_exact_stream ?cp 10 (ar_body ?req) 2") simp
  then have rp: "rp_piped rp = [1, 2]"
    using run look by (auto simp: agent_transfer_def receive_download_def mark_connected_def)
  then have moved: "rp_served rp \<noteq> [] \<or> rp_piped rp \<noteq> []" by simp
  from agent_transfer_one_shot[OF run moved] obtain i where "i \<in> table ?s" "i \<notin> table s'"
    by (elim exE conjE) (rule that)
  then show ?thesis using run rp by simp
qed

section \<open>Downloads arrive without gaps or overlaps\<close>

text \<open>The end of what a list of deliveries covers, if each begins where the one before it ended.\<close>

fun run_end :: "int \<Rightarrow> (int \<times> int) list \<Rightarrow> int option" where
  "run_end off [] = Some off"
| "run_end off ((o', b) # ds) = (if o' = off \<and> 0 < b then run_end (off + b) ds else None)"

lemma run_end_append: "run_end off (ds @ es) = (case run_end off ds of None \<Rightarrow> None | Some e \<Rightarrow> run_end e es)"
  by (induction off ds rule: run_end.induct) auto

definition sane :: "send_oracle \<Rightarrow> bool" where
  "sane send \<longleftrightarrow> (\<forall>n off len. 0 \<le> sr_bytes (send n off len) \<and> (0 \<le> len \<longrightarrow> sr_bytes (send n off len) \<le> len))"

lemma reduce_to_some: "reduce_to c len upper = (u, Some nx) \<Longrightarrow> c \<and> min_transfer_chunk \<le> nx \<and> nx < len"
  using next_reduced_bounds by (auto simp: reduce_to_def Let_def split: if_splits option.splits)

text \<open>What a series of attempts can end in; the last one is always decisive.\<close>

definition attempt_ok :: "int \<Rightarrow> int \<Rightarrow> (int \<times> int) list \<Rightarrow> attempt_result \<Rightarrow> bool" where
  "attempt_ok off len sent r = (case at_outcome r of
     ChunkDone \<Rightarrow> at_sent r = sent @ [(off, len)]
   | ChunkResized nx \<Rightarrow> at_sent r = sent \<and> min_transfer_chunk \<le> nx \<and> nx < len
   | ChunkAborted e \<Rightarrow> at_sent r = sent
   | ChunkFailed e l \<Rightarrow> at_sent r = sent \<or> (\<exists>b. 0 < b \<and> b \<le> len \<and> at_sent r = sent @ [(off, b)]))"

declare attempt_loop.simps(2) [simp del]

lemma attempt_loop_ok:
  assumes "sane send" and "0 < len" and "as \<noteq> []" and "last as = stream_chunk_attempts"
  shows "attempt_ok off len sent (attempt_loop send ctx_done off len as n sent upper)"
  using assms(3,4)
proof (induction as arbitrary: n upper)
  case (Cons a as)
  define r where "r = send n off len"
  have b: "0 \<le> sr_bytes r" "sr_bytes r \<le> len" using assms(1,2) by (auto simp: sane_def r_def)
  define e where "e = attempt_error (length sent) len r"
  obtain u1 z1 where z1: "reduce_to (sr_bytes r = 0 \<and> is_payload_too_large e) len upper = (u1, z1)" by fastforce
  obtain u2 z2 where z2: "reduce_to (sr_bytes r = 0 \<and> a = stream_chunk_attempts \<and> is_chunk_transport_error e) len u1 = (u2, z2)"
    by fastforce
  let ?sent = "if sr_bytes r > 0 then sent @ [(off, sr_bytes r)] else sent"
  define res where "res = attempt_loop send ctx_done off len (a # as) n sent upper"
  have step: "res =
     (if sr_copy_err r = None \<and> sr_bytes r = len then
        \<lparr>at_count = n + 1, at_sent = ?sent, at_upper = upper, at_outcome = ChunkDone\<rparr>
      else case z1 of
        Some nx \<Rightarrow> \<lparr>at_count = n + 1, at_sent = ?sent, at_upper = u1, at_outcome = ChunkResized nx\<rparr>
      | None \<Rightarrow> if sr_bytes r = 0 \<and> is_non_retryable e then
          \<lparr>at_count = n + 1, at_sent = ?sent, at_upper = u1, at_outcome = ChunkAborted e\<rparr>
        else case z2 of
          Some nx \<Rightarrow> \<lparr>at_count = n + 1, at_sent = ?sent, at_upper = u2, at_outcome = ChunkResized nx\<rparr>
        | None \<Rightarrow> if sr_bytes r > 0 \<or> a = stream_chunk_attempts \<or> ctx_done n then
            \<lparr>at_count = n + 1, at_sent = ?sent, at_upper = u2, at_outcome = ChunkFailed e r\<rparr>
          else attempt_loop send ctx_done off len as (n + 1) ?sent u2)"
    by (simp only: res_def attempt_loop.simps Let_def r_def[symmetric] e_def[symmetric] z1 z2 prod.case)
  have "attempt_ok off len sent res"
  proof (cases "sr_copy_err r = None \<and> sr_bytes r = len")
    case True
    then show ?thesis using assms(2) by (simp add: step attempt_ok_def)
  next
    case no: False
    show ?thesis
    proof (cases z1)
      case (Some nx)
      then show ?thesis using no reduce_to_some[OF z1[unfolded Some]] by (simp add: step attempt_ok_def)
    next
      case n1: None
      show ?thesis
      proof (cases "sr_bytes r = 0 \<and> is_non_retryable e")
        case True
        then show ?thesis using no n1 by (simp add: step attempt_ok_def)
      next
        case nr: False
        show ?thesis
        proof (cases z2)
          case (Some nx)
          then show ?thesis using no n1 nr reduce_to_some[OF z2[unfolded Some]] by (simp add: step attempt_ok_def)
        next
          case n2: None
          show ?thesis
          proof (cases "sr_bytes r > 0 \<or> a = stream_chunk_attempts \<or> ctx_done n")
            case True
            then show ?thesis using no n1 nr n2 b by (auto simp: step attempt_ok_def)
          next
            case False
            then have "as \<noteq> []" "last as = stream_chunk_attempts" "\<not> sr_bytes r > 0" using Cons.prems by (auto split: if_splits)
            then show ?thesis using no n1 nr n2 False Cons.IH[of "n + 1" u2] by (auto simp: step)
          qed
        qed
      qed
    qed
  qed
  then show ?case by (simp only: res_def)
qed simp

lemma attempts_upt: "[1..<stream_chunk_attempts + 1] \<noteq> []" "last [1..<stream_chunk_attempts + 1] = stream_chunk_attempts"
  by (simp_all add: stream_chunk_attempts_def)

lemma chunk_loop_total:
  assumes "sane send" and "0 < len" and "len \<le> fin - rr_offset st" and "0 < rr_current st"
  shows "\<exists>st' res. chunk_loop send ctx_done client fin len st = Some (st', res) \<and> rr_offset st' = rr_offset st \<and>
    0 < rr_current st' \<and>
    (case res of Inr l \<Rightarrow> 0 < l \<and> l \<le> fin - rr_offset st \<and> rr_sent st' = rr_sent st @ [(rr_offset st, l)]
     | Inl e \<Rightarrow> rr_sent st' = rr_sent st \<or>
         (\<exists>b. 0 < b \<and> b \<le> fin - rr_offset st \<and> rr_sent st' = rr_sent st @ [(rr_offset st, b)]))"
  using assms(2-4)
proof (induction "nat len" arbitrary: len st rule: less_induct)
  case less
  define r where "r = attempt_loop send ctx_done (rr_offset st) len [1..<stream_chunk_attempts + 1] (rr_count st) (rr_sent st) (rr_upper st)"
  have ok: "attempt_ok (rr_offset st) len (rr_sent st) r"
    unfolding r_def by (rule attempt_loop_ok[OF assms(1) less.prems(1) attempts_upt])
  note step = chunk_loop.simps[of send ctx_done client fin len st, unfolded Let_def, folded r_def]
  show ?case
  proof (cases "at_outcome r")
    case (ChunkResized nx)
    let ?st = "st\<lparr>rr_count := at_count r, rr_sent := at_sent r, rr_upper := at_upper r, rr_current := nx\<rparr>"
    let ?len = "min nx (fin - rr_offset st)"
    have nx: "at_sent r = rr_sent st" "0 < nx" "nx < len"
      using ok ChunkResized by (auto simp: attempt_ok_def min_transfer_chunk_def)
    then have "nat ?len < nat len" "0 < ?len" "?len \<le> fin - rr_offset ?st" "0 < rr_current ?st" using less.prems by auto
    note ih = less.hyps[OF this]
    have "chunk_loop send ctx_done client fin len st = chunk_loop send ctx_done client fin ?len ?st"
      by (simp add: step ChunkResized)
    moreover have "rr_offset ?st = rr_offset st" "rr_sent ?st = rr_sent st" by (simp_all add: nx(1))
    ultimately show ?thesis using ih by (simp only:)
  next
    case ChunkDone
    then show ?thesis using ok less.prems by (simp add: step attempt_ok_def)
  next
    case (ChunkAborted e)
    then show ?thesis using ok less.prems by (simp add: step attempt_ok_def)
  next
    case (ChunkFailed e l)
    let ?st = "st\<lparr>rr_count := at_count r, rr_sent := at_sent r, rr_upper := at_upper r\<rparr>"
    have "\<exists>c. chunk_loop send ctx_done client fin len st = Some (?st\<lparr>rr_cache := c\<rparr>, Inl e)"
      by (rule exI[of _ "if sr_bytes l > 0 \<and> (case sr_copy_err l of Some ce \<Rightarrow> is_client_disconnect ce | None \<Rightarrow> False)
          then (case next_reduced_chunk (rr_current st) (rr_current st) of
                  Some nx \<Rightarrow> if nx < rr_current st then remember_chunk_size client nx (rr_cache st) else rr_cache st
                | None \<Rightarrow> rr_cache st)
          else rr_cache st"])
        (simp add: step ChunkFailed split: option.split)
    then obtain c where "chunk_loop send ctx_done client fin len st = Some (?st\<lparr>rr_cache := c\<rparr>, Inl e)" by blast
    then show ?thesis using ok less.prems by (auto simp: attempt_ok_def ChunkFailed)
  qed
qed

lemma relay_loop_total:
  assumes "sane send" and "rr_offset st \<le> fin" and "0 < rr_current st" and "run_end start (rr_sent st) = Some (rr_offset st)"
  shows "\<exists>st' err e. relay_loop send ctx_done client fin st = Some (st', err) \<and> run_end start (rr_sent st') = Some e \<and>
    e \<le> fin \<and> (err = None \<longrightarrow> e = fin)"
  using assms(2-4)
proof (induction "nat (fin - rr_offset st)" arbitrary: st rule: less_induct)
  case less
  show ?case
  proof (cases "rr_offset st < fin")
    case False
    then show ?thesis using less.prems by (subst relay_loop.simps) simp
  next
    case True
    let ?len = "min (rr_current st) (fin - rr_offset st)"
    obtain st' res where c: "chunk_loop send ctx_done client fin ?len st = Some (st', res)" "rr_offset st' = rr_offset st"
      "0 < rr_current st'"
      "case res of Inr l \<Rightarrow> 0 < l \<and> l \<le> fin - rr_offset st \<and> rr_sent st' = rr_sent st @ [(rr_offset st, l)]
       | Inl e \<Rightarrow> rr_sent st' = rr_sent st \<or>
           (\<exists>b. 0 < b \<and> b \<le> fin - rr_offset st \<and> rr_sent st' = rr_sent st @ [(rr_offset st, b)])"
      using chunk_loop_total[OF assms(1), of ?len fin st ctx_done client] True less.prems by auto
    show ?thesis
    proof (cases res)
      case (Inl e)
      then show ?thesis using c True less.prems
        by (subst relay_loop.simps) (auto simp: run_end_append)
    next
      case (Inr l)
      let ?st = "st'\<lparr>rr_offset := rr_offset st' + l\<rparr>"
      have l: "0 < l" "l \<le> fin - rr_offset st" "rr_sent st' = rr_sent st @ [(rr_offset st, l)]" using c(4) Inr by auto
      then have "nat (fin - rr_offset ?st) < nat (fin - rr_offset st)" "rr_offset ?st \<le> fin" "0 < rr_current ?st"
        "run_end start (rr_sent ?st) = Some (rr_offset ?st)" using c(2,3) True less.prems by (simp_all add: run_end_append)
      from less.hyps[OF this] show ?thesis using c(1) Inr True by (subst relay_loop.simps) simp
    qed
  qed
qed

text \<open>
  the download loop always ends, whatever errors the attempts meet and however often the chunk size is
  reduced; what reached the browser is one run of bytes from the start of the range, without gap and
  without a byte sent twice, and when no error is reported it is exactly the range.
\<close>

lemma relay_delivers:
  assumes "sane send" and "0 < sz" and "0 < chunk" and "chunk \<le> max_transfer_chunk"
  shows "\<exists>st err e. stream_download_relay send ctx_done client start sz chunk cache = Some (st, err) \<and>
    run_end start (rr_sent st) = Some e \<and> start \<le> e \<and> e \<le> start + sz \<and> (err = None \<longrightarrow> e = start + sz)"
proof -
  let ?st = "\<lparr>rr_offset = start, rr_current = chunk, rr_upper = chunk, rr_count = 0, rr_sent = [], rr_cache = cache\<rparr>"
  obtain st err e where "relay_loop send ctx_done client (start + sz) ?st = Some (st, err)"
    "run_end start (rr_sent st) = Some e" "e \<le> start + sz" "err = None \<longrightarrow> e = start + sz"
    using relay_loop_total[OF assms(1), of ?st "start + sz" start ctx_done client] assms by auto
  moreover have "run_end a ds = Some e \<Longrightarrow> a \<le> e" for a ds
    by (induction a ds rule: run_end.induct) (auto split: if_splits)
  ultimately show ?thesis using assms by (simp add: stream_download_relay_def)
qed

end
