(* ===== verification/Upload_Sessions.thy ===== *)
theory Upload_Sessions
  imports Stream_Relay
begin

text \<open>
  The upload sessions of \<^verbatim>\<open>web/filemanager/transfer.go\<close>: the table \<^verbatim>\<open>uploadSessions\<close> of session objects,
  the channel \<^verbatim>\<open>uploadSlots\<close>, the state file of each session under \<^verbatim>\<open>data/.uploading\<close>, and the
  operations of an upload (init, chunk, merge, cancel).  A session is an object: the table and the
  handlers that are under way hold its address, so a handler can still write to a session that the table
  has dropped.  The disk maps a path to what decoding the file there yields (\<open>None\<close> for a file that is not
  a JSON object); a file of any other program decodes to the zero session.  A time is a number of
  nanoseconds since the epoch.  What the agent answers is an argument of each operation, and each region
  under \<^verbatim>\<open>uploadMu\<close> is one step.
\<close>

section \<open>Sessions and their files\<close>

record session =
  ss_id :: go_string
  ss_uuid :: go_string
  ss_path :: go_string
  ss_size :: int
  ss_chunk :: int
  ss_next :: int
  ss_expires :: int
  ss_slot :: bool

record persisted =
  ps_id :: go_string
  ps_uuid :: go_string
  ps_path :: go_string
  ps_size :: int
  ps_chunk :: int
  ps_next :: int
  ps_expires :: int

text \<open>The zero time of Go is January 1 of year 1.\<close>

definition zero_time :: int where "zero_time = - 62135596800 * 1000000000"

definition zero_persisted :: persisted where
  "zero_persisted = \<lparr>ps_id = [], ps_uuid = [], ps_path = [], ps_size = 0, ps_chunk = 0, ps_next = 0, ps_expires = zero_time\<rparr>"

record upload_state =
  up_heap :: "nat \<Rightarrow> session option"
  up_fresh :: nat
  up_table :: "go_string \<Rightarrow> nat option"
  up_used :: nat
  up_disk :: "go_string \<Rightarrow> persisted option option"
  up_writable :: "go_string \<Rightarrow> bool"

definition max_concurrent_uploads :: nat where "max_concurrent_uploads = 4"
definition upload_session_ttl :: int where "upload_session_ttl = 15 * 60 * 1000000000"
definition stream_call_timeout :: int where "stream_call_timeout = 30 * 60 * 1000000000"

definition session_path :: "go_string \<Rightarrow> go_string" where
  "session_path i = go_clean (''data/.uploading/.komari-upload-'' @ i @ ''.json'')"

definition to_persisted :: "session \<Rightarrow> persisted" where
  "to_persisted s = \<lparr>ps_id = ss_id s, ps_uuid = ss_uuid s, ps_path = ss_path s, ps_size = ss_size s,
     ps_chunk = ss_chunk s, ps_next = ss_next s, ps_expires = ss_expires s\<rparr>"

definition save_session :: "session \<Rightarrow> upload_state \<Rightarrow> upload_state" where
  "save_session s st =
     (if up_writable st (session_path (ss_id s))
      then st\<lparr>up_disk := (up_disk st)(session_path (ss_id s) \<mapsto> Some (to_persisted s))\<rparr> else st)"

definition remove_state :: "go_string \<Rightarrow> upload_state \<Rightarrow> upload_state" where
  "remove_state i st = (if i = [] then st else st\<lparr>up_disk := (up_disk st)(session_path i := None)\<rparr>)"

definition release_slot :: "nat \<Rightarrow> upload_state \<Rightarrow> upload_state" where
  "release_slot a st =
     (case up_heap st a of None \<Rightarrow> st
      | Some s \<Rightarrow> if \<not> ss_slot s then st
                  else st\<lparr>up_heap := (up_heap st)(a \<mapsto> s\<lparr>ss_slot := False\<rparr>), up_used := up_used st - 1\<rparr>)"

definition drop_entry :: "go_string \<Rightarrow> nat \<Rightarrow> upload_state \<Rightarrow> upload_state" where
  "drop_entry i a st = release_slot a (st\<lparr>up_table := (up_table st)(i := None)\<rparr>)"

definition finish_session :: "nat \<Rightarrow> upload_state \<Rightarrow> upload_state" where
  "finish_session a st =
     (case up_heap st a of None \<Rightarrow> st
      | Some s \<Rightarrow>
          let st1 = remove_state (ss_id s) st in
          if up_table st1 (ss_id s) = Some a then drop_entry (ss_id s) a st1 else st1)"

definition session_expired :: "session \<Rightarrow> int \<Rightarrow> bool" where
  "session_expired s now \<longleftrightarrow> now > ss_expires s"

definition remove_expired :: "go_string \<Rightarrow> nat \<Rightarrow> int \<Rightarrow> upload_state \<Rightarrow> upload_state \<times> bool" where
  "remove_expired i a now st =
     (case up_heap st a of None \<Rightarrow> (st, False)
      | Some s \<Rightarrow>
          if \<not> session_expired s now then (st, False)
          else if up_table st i \<noteq> Some a then (st, False)
          else (remove_state i (drop_entry i a st), True))"

definition load_session :: "go_string \<Rightarrow> int \<Rightarrow> upload_state \<Rightarrow> upload_state \<times> persisted option" where
  "load_session i now st =
     (if i = [] then (st, None)
      else case up_disk st (session_path i) of
        None \<Rightarrow> (st, None)
      | Some None \<Rightarrow> (st, None)
      | Some (Some p) \<Rightarrow> if now > ps_expires p then (remove_state i st, None) else (st, Some p))"

definition new_session :: "session \<Rightarrow> upload_state \<Rightarrow> upload_state \<times> nat" where
  "new_session s st = (st\<lparr>up_heap := (up_heap st)(up_fresh st \<mapsto> s), up_fresh := up_fresh st + 1\<rparr>, up_fresh st)"

definition from_persisted :: "persisted \<Rightarrow> session" where
  "from_persisted p = \<lparr>ss_id = ps_id p, ss_uuid = ps_uuid p, ss_path = ps_path p, ss_size = ps_size p,
     ss_chunk = ps_chunk p, ss_next = ps_next p, ss_expires = ps_expires p, ss_slot = False\<rparr>"

definition restore_session :: "go_string \<Rightarrow> int \<Rightarrow> upload_state \<Rightarrow> upload_state \<times> session option" where
  "restore_session i now st =
     (case load_session i now st of
        (st1, None) \<Rightarrow> (st1, None)
      | (st1, Some p) \<Rightarrow> (st1, Some (from_persisted p)))"

section \<open>Acquiring a session\<close>

definition too_many_uploads :: go_error where
  "too_many_uploads = \<lparr>err_msg = ''too many concurrent uploads'', err_is = [ErrTooManyUploads]\<rparr>"
definition unknown_token :: go_error where
  "unknown_token = \<lparr>err_msg = ''unknown or expired file operation'', err_is = [ErrUnknownToken]\<rparr>"

definition take_slot :: "go_string \<Rightarrow> session \<Rightarrow> upload_state \<Rightarrow> (upload_state \<times> nat) option" where
  "take_slot i s st =
     (if up_used st = max_concurrent_uploads then None
      else let (st1, a) = new_session (s\<lparr>ss_slot := True\<rparr>) (st\<lparr>up_used := up_used st + 1\<rparr>) in
           Some (st1\<lparr>up_table := (up_table st1)(i \<mapsto> a)\<rparr>, a))"

text \<open>The first request of an upload; \<open>fresh\<close> is the new random identifier.\<close>

definition create_session ::
  "go_string \<Rightarrow> go_string \<Rightarrow> go_string \<Rightarrow> int \<Rightarrow> int \<Rightarrow> upload_state \<Rightarrow> upload_state \<times> (go_error + nat)" where
  "create_session fresh client path sz now st =
     (let s = \<lparr>ss_id = fresh, ss_uuid = client, ss_path = path, ss_size = sz, ss_chunk = default_transfer_chunk,
               ss_next = 0, ss_expires = now + upload_session_ttl, ss_slot = True\<rparr> in
      case take_slot fresh s st of
        None \<Rightarrow> (st, Inl too_many_uploads)
      | Some (st1, a) \<Rightarrow> (save_session s st1, Inr a))"

text \<open>The table after the expired session of an identifier has been dropped, and the session it has left.\<close>

definition live_session :: "go_string \<Rightarrow> int \<Rightarrow> upload_state \<Rightarrow> upload_state \<times> nat option" where
  "live_session i now st =
     (case up_table st i of None \<Rightarrow> (st, None)
      | Some a \<Rightarrow> (case remove_expired i a now st of
                     (st1, True) \<Rightarrow> (st1, None)
                   | (st1, False) \<Rightarrow> (st1, Some a)))"

definition find_session :: "go_string \<Rightarrow> int \<Rightarrow> upload_state \<Rightarrow> upload_state \<times> (go_error + nat)" where
  "find_session i now st =
     (case live_session i now st of
        (st1, Some a) \<Rightarrow> (st1, Inr a)
      | (st1, None) \<Rightarrow>
          (case restore_session i now st1 of
             (st2, None) \<Rightarrow> (st2, Inl unknown_token)
           | (st2, Some s) \<Rightarrow>
               (case up_table st2 i of
                  Some a \<Rightarrow> (st2, Inr a)
                | None \<Rightarrow>
                    (case take_slot i s st2 of None \<Rightarrow> (st2, Inl too_many_uploads)
                     | Some (st3, a) \<Rightarrow> (st3, Inr a)))))"

definition acquire_session ::
  "go_string \<Rightarrow> go_string \<Rightarrow> go_string \<Rightarrow> go_string \<Rightarrow> int \<Rightarrow> int \<Rightarrow> int \<Rightarrow> upload_state \<Rightarrow>
   upload_state \<times> (go_error + nat)" where
  "acquire_session fresh i client path sz offset now st =
     (if i = [] then
        if offset \<noteq> 0 then (st, Inl (plain_error ''upload_id is required after the first chunk''))
        else create_session fresh client path sz now st
      else case find_session i now st of
        (st1, Inl e) \<Rightarrow> (st1, Inl e)
      | (st1, Inr a) \<Rightarrow>
          (case up_heap st1 a of None \<Rightarrow> (st1, Inl unknown_token)
           | Some s \<Rightarrow>
               if ss_uuid s \<noteq> client \<or> (path \<noteq> [] \<and> ss_path s \<noteq> path) \<or> (sz \<noteq> 0 \<and> ss_size s \<noteq> sz)
               then (st1, Inl (plain_error ''upload session does not match request''))
               else (st1, Inr a)))"

section \<open>The operations of an upload\<close>

datatype upload_operation = OpInit | OpChunk | OpMerge | OpCancel

definition upload_operation_of :: "go_string \<Rightarrow> upload_operation option" where
  "upload_operation_of op0 =
     (let op = (if op0 = [] then ''init'' else op0) in
      if op = ''init'' then Some OpInit
      else if op = ''chunk'' then Some OpChunk
      else if op = ''merge'' then Some OpMerge
      else if op = ''cancel'' then Some OpCancel
      else None)"

datatype upload_reply =
    UpError nat
  | UpEmptyFile int
  | UpStarted go_string int int
  | UpReceived int int
  | UpComplete
  | UpCancelled

text \<open>A request body that does not decode is \<open>None\<close>; \<open>created\<close> is what the agent answers to \<^verbatim>\<open>create\<close>.\<close>

definition init_upload ::
  "go_string \<Rightarrow> go_string \<Rightarrow> (go_string \<times> int \<times> int) option \<Rightarrow> go_error option \<Rightarrow> int \<Rightarrow> upload_state \<Rightarrow>
   upload_state \<times> upload_reply" where
  "init_upload fresh client req created now st =
     (case req of None \<Rightarrow> (st, UpError 400)
      | Some (path0, sz, chunk0) \<Rightarrow>
          let path = trim_space path0 in
          if path = [] then (st, UpError 400)
          else if sz < 0 \<or> sz > max_upload_size then (st, UpError 400)
          else
            let chunk = (if chunk0 = 0 then default_transfer_chunk else chunk0) in
            if chunk \<le> 0 \<or> chunk > max_transfer_chunk then (st, UpError 400)
            else if sz = 0 then
              (case created of Some e \<Rightarrow> (st, UpError (transfer_status e)) | None \<Rightarrow> (st, UpEmptyFile chunk))
            else
              (case acquire_session fresh [] client path sz 0 now st of
                 (st1, Inl e) \<Rightarrow> (st1, UpError (transfer_status e))
               | (st1, Inr a) \<Rightarrow>
                   (case up_heap st1 a of None \<Rightarrow> (st1, UpError 500)
                    | Some s \<Rightarrow>
                        let s1 = s\<lparr>ss_chunk := chunk\<rparr> in
                        (save_session s1 (st1\<lparr>up_heap := (up_heap st1)(a \<mapsto> s1)\<rparr>),
                         UpStarted (ss_id s1) chunk (upload_chunk_count sz chunk)))))"

record chunk_request =
  cq_query_id :: go_string
  cq_header_id :: go_string
  cq_query_index :: go_string
  cq_header_index :: go_string
  cq_length :: int

record chunk_job =
  cj_session :: nat
  cj_index :: int
  cj_offset :: int
  cj_expected :: int
  cj_count :: int
  cj_size :: int
  cj_chunk :: int
  cj_path :: go_string
  cj_id :: go_string

definition effective_chunk :: "session \<Rightarrow> int" where
  "effective_chunk s = (if ss_chunk s \<le> 0 then default_transfer_chunk else ss_chunk s)"

definition or_header :: "go_string \<Rightarrow> go_string \<Rightarrow> go_string" where
  "or_header query header = (let q = trim_space query in if q = [] then trim_space header else q)"

text \<open>The part of a chunk request before the bytes flow: the status of a refusal, or the job.\<close>

definition chunk_begin :: "go_string \<Rightarrow> chunk_request \<Rightarrow> int \<Rightarrow> upload_state \<Rightarrow> upload_state \<times> (nat + chunk_job)" where
  "chunk_begin client q now st =
     (let i = or_header (cq_query_id q) (cq_header_id q) in
      case parse_int64 (or_header (cq_query_index q) (cq_header_index q)) of
        None \<Rightarrow> (st, Inl 400)
      | Some index \<Rightarrow>
          if i = [] then (st, Inl 400)
          else (case acquire_session [] i client [] 0 0 now st of
            (st1, Inl e) \<Rightarrow> (st1, Inl (transfer_status e))
          | (st1, Inr a) \<Rightarrow>
              (case up_heap st1 a of None \<Rightarrow> (st1, Inl 500)
               | Some s \<Rightarrow>
                   let chunk = effective_chunk s in
                   if chunk > max_transfer_chunk then (st1, Inl 400)
                   else
                     let count = upload_chunk_count (ss_size s) chunk in
                     if index < 0 \<or> index \<ge> count then (st1, Inl 400)
                     else
                       let offset = wrap64 (index * chunk);
                           expected = min chunk (wrap64 (ss_size s - offset));
                           s1 = s\<lparr>ss_expires := now + stream_call_timeout\<rparr>;
                           st2 = save_session s1 (st1\<lparr>up_heap := (up_heap st1)(a \<mapsto> s1)\<rparr>)
                       in if cq_length q \<ge> 0 \<and> cq_length q \<noteq> expected then (st2, Inl 400)
                          else (st2, Inr \<lparr>cj_session = a, cj_index = index, cj_offset = offset, cj_expected = expected,
                                  cj_count = count, cj_size = ss_size s, cj_chunk = chunk, cj_path = ss_path s,
                                  cj_id = ss_id s\<rparr>))))"

text \<open>The relay of a chunk; \<open>None\<close> while no relay slot is free.\<close>

definition chunk_relay ::
  "go_string \<Rightarrow> go_string \<Rightarrow> go_string \<Rightarrow> chunk_job \<Rightarrow> int \<Rightarrow> relay_state \<Rightarrow> relay_state option" where
  "chunk_relay transfer_id token client job now s =
     new_stream_transfer transfer_id token client StreamUpload (cj_expected job) now s"

text \<open>
  The part after the bytes: the error of the agent's call and of the copy of the request body.  An error
  while no relay is free ends the request with the first of them.
\<close>

definition chunk_end ::
  "chunk_job \<Rightarrow> go_error option \<Rightarrow> go_error option \<Rightarrow> upload_state \<Rightarrow> upload_state \<times> upload_reply" where
  "chunk_end job call_err body_err st =
     (case up_heap st (cj_session job) of None \<Rightarrow> (st, UpError 500)
      | Some s \<Rightarrow>
          (case call_err of Some e \<Rightarrow> (save_session s st, UpError (transfer_status e))
           | None \<Rightarrow>
               (case body_err of Some e \<Rightarrow> (st, UpError (transfer_status e))
                | None \<Rightarrow>
                    let s1 = s\<lparr>ss_next := max (ss_next s) (cj_offset job + cj_expected job)\<rparr> in
                    (save_session s1 (st\<lparr>up_heap := (up_heap st)(cj_session job \<mapsto> s1)\<rparr>),
                     UpReceived (cj_index job) (ss_next s1)))))"

text \<open>\<open>committed\<close> is the answer to \<^verbatim>\<open>upload_commit\<close>, \<open>found\<close> the size that \<^verbatim>\<open>stat\<close> reports afterwards.\<close>

definition merge_session ::
  "go_string \<Rightarrow> go_string option \<Rightarrow> go_error option \<Rightarrow> int option \<Rightarrow> int \<Rightarrow> upload_state \<Rightarrow> upload_state \<times> upload_reply" where
  "merge_session client req committed found now st =
     (case req of None \<Rightarrow> (st, UpError 400)
      | Some i \<Rightarrow>
          if i = [] then (st, UpError 400)
          else (case acquire_session [] i client [] 0 0 now st of
            (st1, Inl e) \<Rightarrow> (st1, UpError (transfer_status e))
          | (st1, Inr a) \<Rightarrow>
              (case up_heap st1 a of None \<Rightarrow> (st1, UpError 500)
               | Some s \<Rightarrow>
                   (case committed of None \<Rightarrow> (finish_session a st1, UpComplete)
                    | Some e \<Rightarrow>
                        if contains (err_msg e) ''unknown upload session'' \<and> found = Some (ss_size s)
                        then (finish_session a st1, UpComplete)
                        else (save_session s st1, UpError (transfer_status e))))))"

definition cancel_session ::
  "go_string \<Rightarrow> go_string \<Rightarrow> go_string option \<Rightarrow> int \<Rightarrow> upload_state \<Rightarrow> upload_state \<times> upload_reply" where
  "cancel_session client query body now st =
     (let q = trim_space query;
          i = (if q \<noteq> [] then q else case body of Some b \<Rightarrow> trim_space b | None \<Rightarrow> []) in
      if client = [] \<or> i = [] then (st, UpError 400)
      else (case acquire_session [] i client [] 0 0 now st of
        (st1, Inl e) \<Rightarrow> (st1, UpError (transfer_status e))
      | (st1, Inr a) \<Rightarrow> (finish_session a st1, UpCancelled)))"

text \<open>One pass of the cleanup goroutine over the sessions it found in the table.\<close>

fun sweep_sessions :: "int \<Rightarrow> (go_string \<times> nat) list \<Rightarrow> upload_state \<Rightarrow> upload_state" where
  "sweep_sessions now [] st = st"
| "sweep_sessions now ((i, a) # rest) st = sweep_sessions now rest (fst (remove_expired i a now st))"

section \<open>The slots are the sessions of the table\<close>

definition sessions_inv :: "upload_state \<Rightarrow> bool" where
  "sessions_inv st \<longleftrightarrow>
     finite (dom (up_table st)) \<and> up_used st = card (dom (up_table st)) \<and> up_used st \<le> max_concurrent_uploads \<and>
     inj_on (up_table st) (dom (up_table st)) \<and>
     (\<forall>i a. up_table st i = Some a \<longrightarrow> (\<exists>s. up_heap st a = Some s \<and> ss_slot s)) \<and>
     (\<forall>a s. up_heap st a = Some s \<longrightarrow> a < up_fresh st \<and> (ss_slot s \<longrightarrow> (\<exists>i. up_table st i = Some a)))"

lemma disk_inv [simp]:
  "sessions_inv (st\<lparr>up_disk := d\<rparr>) = sessions_inv st"
  "sessions_inv (st\<lparr>up_disk := d, up_writable := w\<rparr>) = sessions_inv st"
  by (simp_all add: sessions_inv_def)

lemma save_inv [simp]: "sessions_inv (save_session s st) = sessions_inv st"
  by (simp add: save_session_def)

lemma remove_state_inv [simp]: "sessions_inv (remove_state i st) = sessions_inv st"
  by (simp add: remove_state_def)

lemma same_tables:
  "up_table (save_session s st) = up_table st" "up_heap (save_session s st) = up_heap st"
  "up_used (save_session s st) = up_used st" "up_fresh (save_session s st) = up_fresh st"
  "up_table (remove_state i st) = up_table st" "up_heap (remove_state i st) = up_heap st"
  "up_used (remove_state i st) = up_used st" "up_fresh (remove_state i st) = up_fresh st"
  by (simp_all add: save_session_def remove_state_def)

lemma inv_entry: "sessions_inv st \<Longrightarrow> up_table st i = Some a \<Longrightarrow> \<exists>s. up_heap st a = Some s \<and> ss_slot s"
  by (simp add: sessions_inv_def)

lemma inv_object: "sessions_inv st \<Longrightarrow> up_heap st a = Some s \<Longrightarrow> a < up_fresh st \<and> (ss_slot s \<longrightarrow> (\<exists>i. up_table st i = Some a))"
  by (simp add: sessions_inv_def)

lemma inv_unique: "sessions_inv st \<Longrightarrow> up_table st i = Some a \<Longrightarrow> up_table st j = Some a \<Longrightarrow> i = j"
  by (rule inj_onD[of "up_table st" "dom (up_table st)"]) (auto simp: sessions_inv_def)

lemma inv_count:
  "sessions_inv st \<Longrightarrow> finite (dom (up_table st)) \<and> up_used st = card (dom (up_table st)) \<and>
     up_used st \<le> max_concurrent_uploads \<and> inj_on (up_table st) (dom (up_table st))"
  by (simp add: sessions_inv_def)

text \<open>Writing the other fields of a session does not touch the slots.\<close>

lemma write_inv:
  assumes "sessions_inv st" and "up_heap st a = Some s" and "ss_slot s1 = ss_slot s"
  shows "sessions_inv (st\<lparr>up_heap := (up_heap st)(a \<mapsto> s1)\<rparr>)"
proof -
  have "\<exists>t. ((up_heap st)(a \<mapsto> s1)) b = Some t \<and> ss_slot t" if "up_table st i = Some b" for i b
    using inv_entry[OF assms(1) that] assms(2,3) by (cases "b = a") auto
  moreover have "b < up_fresh st \<and> (ss_slot t \<longrightarrow> (\<exists>i. up_table st i = Some b))"
    if "((up_heap st)(a \<mapsto> s1)) b = Some t" for b t
    using inv_object[OF assms(1)] assms(2,3) that by (cases "b = a") auto
  ultimately show ?thesis using inv_count[OF assms(1)] by (simp add: sessions_inv_def)
qed

lemma drop_inv:
  assumes inv: "sessions_inv st" and at: "up_table st i = Some a"
  shows "sessions_inv (drop_entry i a st)" and "up_table (drop_entry i a st) = (up_table st)(i := None)"
    and "up_used (drop_entry i a st) = up_used st - 1"
proof -
  obtain s where s: "up_heap st a = Some s" "ss_slot s" using inv_entry[OF inv at] by blast
  have eq: "drop_entry i a st = st\<lparr>up_table := (up_table st)(i := None),
      up_heap := (up_heap st)(a \<mapsto> s\<lparr>ss_slot := False\<rparr>), up_used := up_used st - 1\<rparr>"
    by (simp add: drop_entry_def release_slot_def s)
  then show "up_table (drop_entry i a st) = (up_table st)(i := None)" "up_used (drop_entry i a st) = up_used st - 1"
    by simp_all
  have i: "i \<in> dom (up_table st)" using at by blast
  note c = inv_count[OF inv]
  have "card (dom (up_table st) - {i}) = up_used st - 1" using c i by simp
  moreover have "up_used st - 1 \<le> max_concurrent_uploads" using c by linarith
  moreover have "inj_on ((up_table st)(i := None)) (dom (up_table st) - {i})"
    using c by (auto simp: inj_on_def)
  moreover have "\<exists>t. ((up_heap st)(a \<mapsto> s\<lparr>ss_slot := False\<rparr>)) b = Some t \<and> ss_slot t"
    if "((up_table st)(i := None)) j = Some b" for j b
  proof -
    have "j \<noteq> i" "up_table st j = Some b" using that by (auto split: if_splits)
    then show ?thesis using inv_entry[OF inv] inv_unique[OF inv at] by auto
  qed
  moreover have "b < up_fresh st \<and> (ss_slot t \<longrightarrow> (\<exists>j. ((up_table st)(i := None)) j = Some b))"
    if "((up_heap st)(a \<mapsto> s\<lparr>ss_slot := False\<rparr>)) b = Some t" for b t
  proof (cases "b = a")
    case False
    then have "up_heap st b = Some t" using that by simp
    then have "b < up_fresh st" and "ss_slot t \<longrightarrow> (\<exists>j. up_table st j = Some b)" using inv_object[OF inv] by blast+
    moreover have "up_table st j = Some b \<Longrightarrow> j \<noteq> i" for j using False at by auto
    ultimately show ?thesis by fastforce
  qed (use that inv_object[OF inv s(1)] in auto)
  ultimately show "sessions_inv (drop_entry i a st)"
    unfolding eq using c by (simp add: sessions_inv_def)
qed

lemma take_slot_inv:
  assumes inv: "sessions_inv st" and take: "take_slot i s st = Some (st', a)" and new: "up_table st i = None"
  shows "sessions_inv st'" and "up_table st' = (up_table st)(i \<mapsto> a)" and "up_heap st' a = Some (s\<lparr>ss_slot := True\<rparr>)"
proof -
  have room: "up_used st \<noteq> max_concurrent_uploads" and a: "a = up_fresh st"
    and eq: "st' = st\<lparr>up_used := up_used st + 1, up_heap := (up_heap st)(a \<mapsto> s\<lparr>ss_slot := True\<rparr>),
        up_fresh := up_fresh st + 1, up_table := (up_table st)(i \<mapsto> a)\<rparr>"
    using take by (auto simp: take_slot_def new_session_def split: if_splits)
  show "up_table st' = (up_table st)(i \<mapsto> a)" "up_heap st' a = Some (s\<lparr>ss_slot := True\<rparr>)" by (simp_all add: eq)
  note c = inv_count[OF inv]
  have old: "up_table st j \<noteq> Some a" for j using inv_entry[OF inv, of j a] inv_object[OF inv, of a] a by auto
  have "card (insert i (dom (up_table st))) = up_used st + 1" using c new by (simp add: domIff)
  moreover have "up_used st + 1 \<le> max_concurrent_uploads" using c room by simp
  moreover have "inj_on ((up_table st)(i \<mapsto> a)) (insert i (dom (up_table st)))"
    using c old by (auto simp: inj_on_def)
  moreover have "\<exists>t. ((up_heap st)(a \<mapsto> s\<lparr>ss_slot := True\<rparr>)) b = Some t \<and> ss_slot t"
    if "((up_table st)(i \<mapsto> a)) j = Some b" for j b
    using that inv_entry[OF inv, of j b] by (auto split: if_splits)
  moreover have "b < up_fresh st + 1 \<and> (ss_slot t \<longrightarrow> (\<exists>j. ((up_table st)(i \<mapsto> a)) j = Some b))"
    if "((up_heap st)(a \<mapsto> s\<lparr>ss_slot := True\<rparr>)) b = Some t" for b t
  proof (cases "b = a")
    case False
    then have "up_heap st b = Some t" using that by simp
    then have "b < up_fresh st" and "ss_slot t \<longrightarrow> (\<exists>j. up_table st j = Some b)" using inv_object[OF inv] by blast+
    moreover have "up_table st j = Some b \<Longrightarrow> j \<noteq> i" for j using new by auto
    ultimately show ?thesis by fastforce
  qed (use a in auto)
  ultimately show "sessions_inv st'" unfolding eq using c by (simp add: sessions_inv_def)
qed

lemma take_slot_full: "take_slot i s st = None \<longleftrightarrow> up_used st = max_concurrent_uploads"
  by (simp add: take_slot_def split: prod.split)

lemma finish_inv: "sessions_inv st \<Longrightarrow> sessions_inv (finish_session a st)"
  using drop_inv(1)[of "remove_state _ st"]
  by (auto simp: finish_session_def Let_def same_tables split: option.split)

lemma remove_expired_inv: "sessions_inv st \<Longrightarrow> sessions_inv (fst (remove_expired i a now st))"
  using drop_inv(1)[of st i a] by (auto simp: remove_expired_def split: option.split)

lemma remove_expired_table:
  "up_table (fst (remove_expired i a now st)) = (if snd (remove_expired i a now st) then (up_table st)(i := None) else up_table st)"
  by (auto simp: remove_expired_def drop_entry_def release_slot_def same_tables split: option.split)

lemma remove_expired_kept: "remove_expired i a now st = (st1, False) \<Longrightarrow> st1 = st"
  by (auto simp: remove_expired_def split: option.splits if_splits)

lemma restore_state:
  "restore_session i now st = (st1, r) \<Longrightarrow> st1 = st \<or> st1 = remove_state i st"
  by (auto simp: restore_session_def load_session_def split: if_splits option.splits prod.splits)

lemma live_session_inv:
  assumes "sessions_inv st" and "live_session i now st = (st1, r)"
  shows "sessions_inv st1 \<and> up_table st1 i = r \<and> (r = None \<or> st1 = st)"
proof (cases "up_table st i")
  case (Some a)
  obtain st2 b where r: "remove_expired i a now st = (st2, b)" by fastforce
  then show ?thesis
    using assms Some remove_expired_inv[OF assms(1), of i a now] remove_expired_table[of i a now st]
      remove_expired_kept[of i a now st st2] by (cases b) (auto simp: live_session_def)
qed (use assms in \<open>auto simp: live_session_def\<close>)

lemma find_session_inv:
  assumes inv: "sessions_inv st" and f: "find_session i now st = (st', r)"
  shows "sessions_inv st' \<and> (\<forall>a. r = Inr a \<longrightarrow> up_table st' i = Some a)"
proof -
  obtain st1 l where l: "live_session i now st = (st1, l)" by fastforce
  note i1 = live_session_inv[OF inv l]
  show ?thesis
  proof (cases l)
    case None
    obtain st2 p where p: "restore_session i now st1 = (st2, p)" by fastforce
    have i2: "sessions_inv st2" "up_table st2 i = None"
      using restore_state[OF p] i1 None by (auto simp: same_tables)
    show ?thesis
    proof (cases p)
      case (Some s)
      show ?thesis
      proof (cases "take_slot i s st2")
        case (Some r')
        then obtain st3 a where t: "take_slot i s st2 = Some (st3, a)" by (cases r') simp
        then show ?thesis
          using f l None p \<open>p = Some s\<close> i2(2) take_slot_inv[OF i2(1) t i2(2)] by (auto simp: find_session_def)
      qed (use f l None p \<open>p = Some s\<close> i2 in \<open>auto simp: find_session_def\<close>)
    qed (use f l None p i2 in \<open>auto simp: find_session_def\<close>)
  qed (use f l i1 in \<open>auto simp: find_session_def\<close>)
qed

lemma create_session_inv:
  assumes inv: "sessions_inv st" and new: "up_table st fresh = None"
    and c: "create_session fresh client path sz now st = (st', r)"
  shows "sessions_inv st'" and "r = Inr a \<Longrightarrow> up_table st' = (up_table st)(fresh \<mapsto> a) \<and>
    up_heap st' a = Some \<lparr>ss_id = fresh, ss_uuid = client, ss_path = path, ss_size = sz, ss_chunk = default_transfer_chunk,
      ss_next = 0, ss_expires = now + upload_session_ttl, ss_slot = True\<rparr>"
proof -
  let ?s = "\<lparr>ss_id = fresh, ss_uuid = client, ss_path = path, ss_size = sz, ss_chunk = default_transfer_chunk,
      ss_next = 0, ss_expires = now + upload_session_ttl, ss_slot = True\<rparr>"
  have t: "sessions_inv st' \<and> (r = Inr a \<longrightarrow> up_table st' = (up_table st)(fresh \<mapsto> a) \<and> up_heap st' a = Some ?s)" for a
  proof (cases "take_slot fresh ?s st")
    case (Some q)
    then obtain st1 b where "take_slot fresh ?s st = Some (st1, b)" by (cases q) simp
    then show ?thesis using c take_slot_inv[OF inv _ new] by (auto simp: create_session_def same_tables)
  qed (use c inv in \<open>auto simp: create_session_def\<close>)
  then show "sessions_inv st'" "r = Inr a \<Longrightarrow> up_table st' = (up_table st)(fresh \<mapsto> a) \<and> up_heap st' a = Some ?s" by auto
qed

text \<open>What a request may rely on when it gets a session: it is in the table and belongs to the caller's agent.\<close>

lemma acquire_session_inv:
  assumes inv: "sessions_inv st" and new: "i = [] \<longrightarrow> up_table st fresh = None"
    and q: "acquire_session fresh i client path sz offset now st = (st', r)"
  shows "sessions_inv st' \<and> (\<forall>a. r = Inr a \<longrightarrow> (\<exists>s. up_heap st' a = Some s \<and> ss_slot s \<and> ss_uuid s = client \<and>
    up_table st' (if i = [] then fresh else i) = Some a \<and> (path = [] \<or> ss_path s = path) \<and> (sz = 0 \<or> ss_size s = sz)))"
proof (cases "i = []")
  case True
  show ?thesis
  proof (cases "offset = 0")
    case z: True
    then have c: "create_session fresh client path sz now st = (st', r)" using q True by (simp add: acquire_session_def)
    show ?thesis
      using True new create_session_inv(1)[OF inv _ c] create_session_inv(2)[OF inv _ c] by (intro conjI allI impI) simp_all
  qed (use q True inv in \<open>auto simp: acquire_session_def\<close>)
next
  case False
  obtain st1 f where f: "find_session i now st = (st1, f)" by fastforce
  note i1 = find_session_inv[OF inv f]
  show ?thesis
  proof (cases f)
    case (Inr a)
    then have at: "up_table st1 i = Some a" using i1 by simp
    obtain s where s: "up_heap st1 a = Some s" "ss_slot s" using inv_entry[OF _ at] i1 by blast
    show ?thesis using q False f Inr i1 s at by (auto simp: acquire_session_def split: if_splits)
  qed (use q False f i1 in \<open>auto simp: acquire_session_def\<close>)
qed

lemma acquired:
  assumes "sessions_inv st" and "acquire_session [] i client [] 0 0 now st = (st', r)" and "i \<noteq> []"
  shows "sessions_inv st'"
    and "r = Inr a \<Longrightarrow> \<exists>s. up_heap st' a = Some s \<and> ss_slot s \<and> ss_uuid s = client \<and> up_table st' i = Some a"
  using acquire_session_inv[OF assms(1) _ assms(2)] assms(3) by auto

lemma init_upload_inv:
  assumes inv: "sessions_inv st" and new: "up_table st fresh = None"
  shows "sessions_inv (fst (init_upload fresh client req created now st))"
proof (cases req)
  case (Some r)
  obtain path0 sz chunk0 where r: "r = (path0, sz, chunk0)" by (cases r)
  obtain st1 x where q: "acquire_session fresh [] client (trim_space path0) sz 0 now st = (st1, x)" by fastforce
  have i1: "sessions_inv st1" using acquire_session_inv[OF inv _ q] new by simp
  then have "sessions_inv (st1\<lparr>up_heap := (up_heap st1)(a \<mapsto> s\<lparr>ss_chunk := c\<rparr>)\<rparr>)" if "up_heap st1 a = Some s" for a s c
    using write_inv[OF i1 that] by simp
  then show ?thesis
    using inv i1 q Some r by (auto simp: init_upload_def Let_def split: sum.splits option.splits)
qed (simp add: init_upload_def inv)

lemma chunk_begin_inv:
  assumes inv: "sessions_inv st"
  shows "sessions_inv (fst (chunk_begin client q now st))"
proof -
  let ?i = "or_header (cq_query_id q) (cq_header_id q)"
  obtain st1 r where a: "acquire_session [] ?i client [] 0 0 now st = (st1, r)" by fastforce
  show ?thesis
  proof (cases "?i = [] \<or> parse_int64 (or_header (cq_query_index q) (cq_header_index q)) = None")
    case False
    then have i1: "sessions_inv st1" using acquired(1)[OF inv a] by simp
    then have "sessions_inv (st1\<lparr>up_heap := (up_heap st1)(b \<mapsto> s\<lparr>ss_expires := e\<rparr>)\<rparr>)" if "up_heap st1 b = Some s" for b s e
      using write_inv[OF i1 that] by simp
    then show ?thesis using False a i1 by (auto simp: chunk_begin_def Let_def split: sum.splits option.splits)
  qed (use inv in \<open>auto simp: chunk_begin_def Let_def split: option.splits\<close>)
qed

lemma chunk_end_inv: "sessions_inv st \<Longrightarrow> sessions_inv (fst (chunk_end job ce be st))"
  by (auto simp: chunk_end_def Let_def write_inv split: option.splits)

lemma merge_session_inv:
  assumes inv: "sessions_inv st"
  shows "sessions_inv (fst (merge_session client req committed found now st))"
proof (cases req)
  case (Some i)
  obtain st1 r where a: "acquire_session [] i client [] 0 0 now st = (st1, r)" by fastforce
  show ?thesis
    using Some acquired(1)[OF inv a] inv a
    by (cases "i = []") (auto simp: merge_session_def finish_inv split: sum.splits option.splits)
qed (simp add: merge_session_def inv)

lemma cancel_session_inv:
  assumes inv: "sessions_inv st"
  shows "sessions_inv (fst (cancel_session client query body now st))"
proof -
  define i where "i = (if trim_space query \<noteq> [] then trim_space query else case body of Some b \<Rightarrow> trim_space b | None \<Rightarrow> [])"
  obtain st1 r where a: "acquire_session [] i client [] 0 0 now st = (st1, r)" by fastforce
  show ?thesis
    using acquired(1)[OF inv a] inv a
    by (cases "client = [] \<or> i = []") (auto simp: cancel_session_def Let_def i_def[symmetric] finish_inv split: sum.splits)
qed

lemma sweep_inv: "sessions_inv st \<Longrightarrow> sessions_inv (sweep_sessions now es st)"
  by (induction now es st rule: sweep_sessions.induct) (simp_all add: remove_expired_inv)

section \<open>Runs of the server\<close>

inductive upload_step :: "upload_state \<Rightarrow> upload_state \<Rightarrow> bool" where
  us_init: "up_table st fresh = None \<Longrightarrow> upload_step st (fst (init_upload fresh client req created now st))"
| us_chunk: "upload_step st (fst (chunk_begin client q now st))"
| us_chunk_end: "upload_step st (fst (chunk_end job call_err body_err st))"
| us_merge: "upload_step st (fst (merge_session client merge_req committed found now st))"
| us_cancel: "upload_step st (fst (cancel_session client query body now st))"
| us_sweep: "upload_step st (sweep_sessions now entries st)"
| us_disk: "upload_step st (st\<lparr>up_disk := d, up_writable := w\<rparr>)"

inductive_cases upload_stepE: "upload_step st st'"

definition started :: "(go_string \<Rightarrow> persisted option option) \<Rightarrow> (go_string \<Rightarrow> bool) \<Rightarrow> upload_state" where
  "started d w = \<lparr>up_heap = (\<lambda>_. None), up_fresh = 0, up_table = (\<lambda>_. None), up_used = 0, up_disk = d, up_writable = w\<rparr>"

inductive upload_reach :: "upload_state \<Rightarrow> bool" where
  ur_start: "upload_reach (started d w)"
| ur_step: "upload_reach st \<Longrightarrow> upload_step st st' \<Longrightarrow> upload_reach st'"

lemma upload_step_inv: "upload_step st st' \<Longrightarrow> sessions_inv st \<Longrightarrow> sessions_inv st'"
  by (induction rule: upload_step.induct)
    (simp_all add: init_upload_inv chunk_begin_inv chunk_end_inv merge_session_inv cancel_session_inv sweep_inv)

lemma started_inv: "sessions_inv (started d w)"
  by (simp add: sessions_inv_def started_def)

lemma upload_reach_inv: "upload_reach st \<Longrightarrow> sessions_inv st"
  by (induction rule: upload_reach.induct) (simp_all add: started_inv upload_step_inv)

text \<open>
  An upload slot is an entry of the table; the cleanup of an expired session gives it back.  These are the
  operations of the common contract on slots.
\<close>

definition expire_session :: "go_string \<Rightarrow> upload_state \<Rightarrow> upload_state" where
  "expire_session i st =
     (case up_table st i of None \<Rightarrow> st
      | Some a \<Rightarrow> (case up_heap st a of None \<Rightarrow> st | Some s \<Rightarrow> fst (remove_expired i a (ss_expires s + 1) st)))"

definition open_session :: "go_string \<Rightarrow> go_string \<Rightarrow> int \<Rightarrow> int \<Rightarrow> go_string \<Rightarrow> upload_state \<Rightarrow> upload_state option" where
  "open_session client path sz now fresh st =
     (case create_session fresh client path sz now st of (st', Inr a) \<Rightarrow> Some st' | _ \<Rightarrow> None)"

lemma expire_session_inv:
  assumes inv: "sessions_inv st"
  shows "sessions_inv (expire_session i st)" and "up_table (expire_session i st) = (up_table st)(i := None)"
proof -
  show "sessions_inv (expire_session i st)"
    using inv by (auto simp: expire_session_def remove_expired_inv split: option.split)
  show "up_table (expire_session i st) = (up_table st)(i := None)"
  proof (cases "up_table st i")
    case (Some a)
    then obtain s where "up_heap st a = Some s" using inv_entry[OF inv] by blast
    then show ?thesis
      using Some by (simp add: expire_session_def remove_expired_table) (simp add: remove_expired_def session_expired_def)
  qed (auto simp: expire_session_def)
qed

lemma create_session_full:
  "(snd (create_session fresh client path sz now st) = Inl too_many_uploads) = (up_used st = max_concurrent_uploads)"
  "(open_session client path sz now fresh st = None) = (up_used st = max_concurrent_uploads)"
  by (auto simp: open_session_def create_session_def take_slot_def new_session_def Let_def)

interpretation upload_slots: slot_pool sessions_inv max_concurrent_uploads up_used "\<lambda>st. dom (up_table st)"
  "open_session client path sz now" expire_session
  for client path sz now
proof unfold_locales
  fix i :: go_string and st st' :: upload_state assume inv: "sessions_inv st"
  show "finite (dom (up_table st)) \<and> up_used st = card (dom (up_table st))" "up_used st \<le> max_concurrent_uploads"
    using inv_count[OF inv] by simp_all
  show "(open_session client path sz now i st = None) = (up_used st = max_concurrent_uploads)"
    by (rule create_session_full)
  show "sessions_inv (expire_session i st) \<and> dom (up_table (expire_session i st)) = dom (up_table st) - {i}"
    using expire_session_inv[OF inv] by simp
  show "open_session client path sz now i st = Some st' \<Longrightarrow> i \<notin> dom (up_table st) \<Longrightarrow>
      sessions_inv st' \<and> dom (up_table st') = insert i (dom (up_table st))"
    using create_session_inv[OF inv, of i client path sz now]
    by (fastforce simp: open_session_def domIff split: prod.splits sum.splits)
qed

text \<open>
  C10: in every run, with any files on the disk and any interleaving of requests, at most four uploads are
  open; each of them has a session object of its own that holds a slot, an upload is refused for its number
  exactly when four are open, and dropping any open one makes room for a new one at once.
\<close>

theorem upload_slots_exact:
  assumes "upload_reach st"
  shows "up_used st = card (dom (up_table st)) \<and> up_used st \<le> 4 \<and>
    (\<forall>i a. up_table st i = Some a \<longrightarrow> (\<exists>s. up_heap st a = Some s \<and> ss_slot s) \<and> (\<forall>j. up_table st j = Some a \<longrightarrow> j = i)) \<and>
    (snd (create_session fresh client path sz now st) = Inl too_many_uploads) = (up_used st = 4) \<and>
    (\<forall>i\<in>dom (up_table st). open_session client path sz now fresh (expire_session i st) \<noteq> None)"
proof -
  note inv = upload_reach_inv[OF assms]
  have "\<forall>i\<in>dom (up_table st). open_session client path sz now fresh (expire_session i st) \<noteq> None"
    using upload_slots.acquire_after_release[OF inv] by blast
  then show ?thesis
    using inv_count[OF inv] inv_entry[OF inv] inv_unique[OF inv] create_session_full(1)[of fresh client path sz now st]
    by (simp add: max_concurrent_uploads_def)
qed

theorem upload_slots_exact_witness:
  "let st = fst (create_session ''u'' ''c'' ''/f'' 5 0 (started (\<lambda>_. None) (\<lambda>_. True))) in
   upload_reach (started (\<lambda>_. None) (\<lambda>_. True)) \<and> up_used st = 1 \<and>
   (snd (create_session ''v'' ''c'' ''/g'' 5 0 (started (\<lambda>_. None) (\<lambda>_. True))) = Inl too_many_uploads) = (0 = (4 :: nat))"
proof -
  have "upload_reach (started (\<lambda>_. None) (\<lambda>_. True))" by (rule ur_start)
  moreover have "up_used (started (\<lambda>_. None) (\<lambda>_. True)) = 0" by (simp add: started_def)
  moreover have "up_used (fst (create_session ''u'' ''c'' ''/f'' 5 0 (started (\<lambda>_. None) (\<lambda>_. True)))) = 1"
    by (simp add: create_session_def take_slot_def new_session_def started_def max_concurrent_uploads_def Let_def same_tables)
  ultimately show ?thesis
    using upload_slots_exact[of "started (\<lambda>_. None) (\<lambda>_. True)" "''v''" "''c''" "''/g''" 5 0] by (simp add: Let_def)
qed

section \<open>Chunks\<close>

lemma chunk_count_eq:
  assumes "0 < sz" and "sz \<le> max_upload_size" and "0 < chunk" and "chunk \<le> max_transfer_chunk"
  shows "upload_chunk_count sz chunk = (sz + chunk - 1) div chunk"
proof -
  have "in_int64 (sz + chunk)" "in_int64 (sz + chunk - 1)"
    using assms by (simp_all add: in_int64_def max_upload_size_def max_transfer_chunk_def)
  then have "wrap64 (wrap64 (sz + chunk) - 1) = sz + chunk - 1" by (simp add: wrap64_id)
  then show ?thesis using assms by (simp add: upload_chunk_count_def go_div_nonneg)
qed

lemma upload_count_bounds:
  fixes sz chunk index :: int
  assumes "0 < chunk"
  shows "index < (sz + chunk - 1) div chunk \<longleftrightarrow> index * chunk < sz"
    and "index + 1 = (sz + chunk - 1) div chunk \<longleftrightarrow> index * chunk < sz \<and> sz \<le> (index + 1) * chunk"
proof -
  have le: "k \<le> (sz + chunk - 1) div chunk \<longleftrightarrow> (k - 1) * chunk < sz" for k
  proof -
    let ?n = "sz + chunk - 1"
    have "k \<le> ?n div chunk \<longleftrightarrow> k * chunk \<le> ?n"
    proof
      assume "k \<le> ?n div chunk"
      then have "k * chunk \<le> ?n div chunk * chunk" using assms by (intro mult_right_mono) simp_all
      also have "\<dots> \<le> ?n" using div_mult_mod_eq[of ?n chunk] pos_mod_sign[OF assms, of ?n] by linarith
      finally show "k * chunk \<le> ?n" .
    next
      assume "k * chunk \<le> ?n"
      then have "k * chunk div chunk \<le> ?n div chunk" using assms by (rule zdiv_mono1)
      then show "k \<le> ?n div chunk" using assms by simp
    qed
    then show ?thesis by (simp add: left_diff_distrib) linarith
  qed
  show "index < (sz + chunk - 1) div chunk \<longleftrightarrow> index * chunk < sz" using le[of "index + 1"] by simp linarith
  show "index + 1 = (sz + chunk - 1) div chunk \<longleftrightarrow> index * chunk < sz \<and> sz \<le> (index + 1) * chunk"
    using le[of "index + 1"] le[of "index + 2"] by (simp add: algebra_simps) linarith
qed

text \<open>
  the piece of a chunk request that is let through lies inside the file: it starts at index times chunk
  size, is as long as a chunk except at the end of the file, the last index ends exactly there, and a
  declared body length is that length; the chunk size is at most 128 MiB, and the state file now says that
  the upload lives for at least another half hour.
\<close>

theorem chunk_inside:
  assumes "chunk_begin client q now st = (st', Inr job)" and "cj_size job \<le> max_upload_size"
  shows "0 \<le> cj_index job \<and> cj_offset job = cj_index job * cj_chunk job \<and> 0 < cj_expected job \<and>
    cj_expected job = min (cj_chunk job) (cj_size job - cj_offset job) \<and> cj_chunk job \<le> max_transfer_chunk \<and>
    cj_offset job + cj_expected job \<le> cj_size job \<and>
    (cj_index job = cj_count job - 1) = (cj_offset job + cj_expected job = cj_size job) \<and>
    (cq_length q < 0 \<or> cq_length q = cj_expected job) \<and>
    (\<exists>s. up_heap st' (cj_session job) = Some s \<and> ss_expires s = now + stream_call_timeout)"
proof -
  let ?i = "or_header (cq_query_id q) (cq_header_id q)"
  obtain st1 r where a: "acquire_session [] ?i client [] 0 0 now st = (st1, r)" by fastforce
  obtain k where k: "parse_int64 (or_header (cq_query_index q) (cq_header_index q)) = Some k"
    using assms(1) by (auto simp: chunk_begin_def Let_def split: option.splits)
  obtain b where r: "r = Inr b" using assms(1) a k by (cases r) (auto simp: chunk_begin_def Let_def split: if_splits)
  obtain s where s: "up_heap st1 b = Some s"
    using assms(1) a k r by (cases "up_heap st1 b") (auto simp: chunk_begin_def Let_def split: if_splits)
  define chunk where "chunk = effective_chunk s"
  have run: "chunk_begin client q now st = (st', Inr job) \<longleftrightarrow>
      ?i \<noteq> [] \<and> chunk \<le> max_transfer_chunk \<and> 0 \<le> k \<and> k < upload_chunk_count (ss_size s) chunk \<and>
      (cq_length q < 0 \<or> cq_length q = min chunk (wrap64 (ss_size s - wrap64 (k * chunk)))) \<and>
      st' = save_session (s\<lparr>ss_expires := now + stream_call_timeout\<rparr>)
        (st1\<lparr>up_heap := (up_heap st1)(b \<mapsto> s\<lparr>ss_expires := now + stream_call_timeout\<rparr>)\<rparr>) \<and>
      job = \<lparr>cj_session = b, cj_index = k, cj_offset = wrap64 (k * chunk),
        cj_expected = min chunk (wrap64 (ss_size s - wrap64 (k * chunk))), cj_count = upload_chunk_count (ss_size s) chunk,
        cj_size = ss_size s, cj_chunk = chunk, cj_path = ss_path s, cj_id = ss_id s\<rparr>"
    using a k r s by (auto simp: chunk_begin_def Let_def chunk_def)
  then have ok: "chunk \<le> max_transfer_chunk" "0 \<le> k" "k < upload_chunk_count (ss_size s) chunk"
    and st': "st' = save_session (s\<lparr>ss_expires := now + stream_call_timeout\<rparr>)
        (st1\<lparr>up_heap := (up_heap st1)(b \<mapsto> s\<lparr>ss_expires := now + stream_call_timeout\<rparr>)\<rparr>)"
    and len: "cq_length q < 0 \<or> cq_length q = min chunk (wrap64 (ss_size s - wrap64 (k * chunk)))"
    and job: "job = \<lparr>cj_session = b, cj_index = k, cj_offset = wrap64 (k * chunk),
        cj_expected = min chunk (wrap64 (ss_size s - wrap64 (k * chunk))), cj_count = upload_chunk_count (ss_size s) chunk,
        cj_size = ss_size s, cj_chunk = chunk, cj_path = ss_path s, cj_id = ss_id s\<rparr>"
    using assms(1) by blast+
  have sz: "0 < ss_size s" "ss_size s \<le> max_upload_size"
    using ok(2,3) assms(2) by (auto simp: job upload_chunk_count_def split: if_splits)
  have c: "0 < chunk" by (simp add: chunk_def effective_chunk_def default_transfer_chunk_def)
  note cnt = chunk_count_eq[OF sz c ok(1)]
  have inside: "k * chunk < ss_size s" using ok(3) upload_count_bounds(1)[OF c] by (simp add: cnt)
  have "0 \<le> k * chunk" using ok(2) c by simp
  then have w: "wrap64 (k * chunk) = k * chunk" "wrap64 (ss_size s - k * chunk) = ss_size s - k * chunk"
    using inside sz by (simp_all add: wrap64_id in_int64_def max_upload_size_def)
  have "(k = upload_chunk_count (ss_size s) chunk - 1) = (k * chunk + min chunk (ss_size s - k * chunk) = ss_size s)"
    using upload_count_bounds(2)[OF c, of k "ss_size s"] inside by (simp add: cnt distrib_right min_def) linarith
  then show ?thesis using ok c inside len by (auto simp: job w st' same_tables)
qed

definition sample_session :: session where
  "sample_session = \<lparr>ss_id = ''u'', ss_uuid = ''c'', ss_path = ''/f'', ss_size = 5, ss_chunk = 2, ss_next = 0,
     ss_expires = 9, ss_slot = True\<rparr>"

definition sample_uploads :: upload_state where
  "sample_uploads = \<lparr>up_heap = [0 \<mapsto> sample_session], up_fresh = 1, up_table = [''u'' \<mapsto> 0], up_used = 1,
     up_disk = (\<lambda>_. None), up_writable = (\<lambda>_. True)\<rparr>"

lemma sample_trim: "trim_space ''u'' = ''u''" "trim_space ''2'' = ''2''"
  by (rule trim_space_graphic; simp)+

theorem chunk_inside_witness:
  "\<exists>st' job. chunk_begin ''c'' \<lparr>cq_query_id = ''u'', cq_header_id = [], cq_query_index = ''2'', cq_header_index = [],
       cq_length = 1\<rparr> 3 sample_uploads = (st', Inr job) \<and> cj_offset job = 4 \<and> cj_expected job = 1 \<and>
     cj_offset job + cj_expected job \<le> cj_size job"
proof -
  let ?q = "\<lparr>cq_query_id = ''u'', cq_header_id = [], cq_query_index = ''2'', cq_header_index = [], cq_length = 1\<rparr>"
  have "parse_int64 ''2'' = Some 2" by code_simp
  then obtain st' job where j: "chunk_begin ''c'' ?q 3 sample_uploads = (st', Inr job)" "cj_size job = 5"
      "cj_offset job = 4" "cj_expected job = 1"
    by (simp add: chunk_begin_def or_header_def sample_trim sample_uploads_def sample_session_def acquire_session_def
        find_session_def live_session_def remove_expired_def session_expired_def effective_chunk_def
        upload_chunk_count_def go_div_def wrap64_def max_transfer_chunk_def Let_def)
  then show ?thesis using chunk_inside[OF j(1)] by (auto simp: max_upload_size_def)
qed

lemma mismatch_status: "transfer_status (plain_error ''upload session does not match request'') = 502"
  by code_simp

lemma acquire_other_agent:
  assumes "up_table st i = Some a" and "up_heap st a = Some s" and "now \<le> ss_expires s" and "ss_uuid s \<noteq> client" and "i \<noteq> []"
  shows "acquire_session f i client p z off now st = (st, Inl (plain_error ''upload session does not match request''))"
  using assms by (simp add: acquire_session_def find_session_def live_session_def remove_expired_def session_expired_def)

text \<open>
  C22: an upload belongs to the agent it was started for: a chunk, merge or cancel request for it that names
  another agent is refused and changes nothing.
\<close>

theorem upload_of_other_agent:
  assumes "up_table st i = Some a" and "up_heap st a = Some s" and "now \<le> ss_expires s" and "ss_uuid s \<noteq> client"
    and "i \<noteq> []" and "trim_space i = i"
  shows "merge_session client (Some i) committed found now st = (st, UpError 502) \<and>
    (client \<noteq> [] \<longrightarrow> cancel_session client i body now st = (st, UpError 502)) \<and>
    (or_header (cq_query_id q) (cq_header_id q) = i \<longrightarrow> fst (chunk_begin client q now st) = st \<and>
       snd (chunk_begin client q now st) \<in> {Inl 400, Inl 502})"
  using acquire_other_agent[OF assms(1-5)] assms(5,6)
  by (auto simp: merge_session_def cancel_session_def chunk_begin_def mismatch_status split: option.splits)

theorem upload_of_other_agent_witness:
  "merge_session ''d'' (Some ''u'') None None 3 sample_uploads = (sample_uploads, UpError 502)"
  using upload_of_other_agent[of sample_uploads "''u''" 0 sample_session 3 "''d''" None None] sample_trim
  by (simp add: sample_uploads_def sample_session_def)

section \<open>Restarts and recovery\<close>

definition restart :: "upload_state \<Rightarrow> upload_state" where
  "restart st = started (up_disk st) (up_writable st)"

text \<open>
  C33: an upload outlives the server: a session whose state was written and has not expired is found again
  after a restart, with the same agent, path, sizes and position.
\<close>

theorem restart_resumes:
  assumes "up_writable st (session_path (ss_id s))" and "ss_id s \<noteq> []" and "now \<le> ss_expires s"
  shows "\<exists>st' a. acquire_session [] (ss_id s) (ss_uuid s) [] 0 0 now (restart (save_session s st)) = (st', Inr a) \<and>
    up_heap st' a = Some (s\<lparr>ss_slot := True\<rparr>) \<and> up_used st' = 1 \<and> up_table st' = [ss_id s \<mapsto> a]"
  using assms
  by (simp add: acquire_session_def find_session_def live_session_def restart_def started_def save_session_def
      restore_session_def load_session_def to_persisted_def from_persisted_def take_slot_def new_session_def
      max_concurrent_uploads_def Let_def)

theorem restart_resumes_witness:
  "\<exists>st' a. acquire_session [] ''u'' ''c'' [] 0 0 3 (restart (save_session sample_session sample_uploads)) = (st', Inr a) \<and>
     up_heap st' a = Some sample_session"
  using restart_resumes[of sample_uploads sample_session 3]
  by (simp add: sample_uploads_def sample_session_def) blast

definition all_expired :: "int \<Rightarrow> upload_state \<Rightarrow> bool" where
  "all_expired now st \<longleftrightarrow> (\<forall>i a s. up_table st i = Some a \<longrightarrow> up_heap st a = Some s \<longrightarrow> session_expired s now)"

lemma drop_heap: "up_heap (drop_entry i a st) b = Some s \<Longrightarrow> \<exists>t. up_heap st b = Some t \<and> ss_expires s = ss_expires t"
  by (auto simp: drop_entry_def release_slot_def split: option.splits if_splits)

lemma all_expired_step:
  assumes "sessions_inv st" and "all_expired now st"
  shows "all_expired now (fst (remove_expired i a now st))"
    and "up_table (fst (remove_expired i a now st)) = (if up_table st i = Some a then (up_table st)(i := None) else up_table st)"
proof -
  have run: "remove_expired i a now st =
      (if up_table st i = Some a then (remove_state i (drop_entry i a st), True) else (st, False))"
  proof (cases "up_table st i = Some a")
    case True
    then obtain s where "up_heap st a = Some s" "session_expired s now"
      using inv_entry[OF assms(1) True] assms(2) by (auto simp: all_expired_def)
    then show ?thesis using True by (simp add: remove_expired_def)
  qed (simp add: remove_expired_def split: option.split)
  have t: "up_table (drop_entry i a st) = (up_table st)(i := None)"
    by (simp add: drop_entry_def release_slot_def split: option.split)
  then show "up_table (fst (remove_expired i a now st)) = (if up_table st i = Some a then (up_table st)(i := None) else up_table st)"
    by (simp add: run same_tables)
  have "all_expired now (remove_state i (drop_entry i a st))"
    unfolding all_expired_def same_tables t
  proof (intro allI impI)
    fix j b s assume j: "((up_table st)(i := None)) j = Some b" and s: "up_heap (drop_entry i a st) b = Some s"
    obtain u where "up_heap st b = Some u" "ss_expires s = ss_expires u" using drop_heap[OF s] by blast
    moreover have "up_table st j = Some b" using j by (simp split: if_splits)
    ultimately show "session_expired s now" using assms(2) by (auto simp: all_expired_def session_expired_def)
  qed
  then show "all_expired now (fst (remove_expired i a now st))" using assms(2) by (simp add: run)
qed

lemma sweep_table:
  assumes "sessions_inv st" and "all_expired now st"
  shows "up_table (sweep_sessions now es st) i = (if \<exists>a. (i, a) \<in> set es \<and> up_table st i = Some a then None else up_table st i)"
  using assms
proof (induction now es st rule: sweep_sessions.induct)
  case (2 now j b rest st)
  then show ?case using all_expired_step[OF 2(2,3), of j b] remove_expired_inv[OF 2(2), of j b now] by auto
qed simp

text \<open>
  C34: abandoned uploads never block new ones for good: once every open session has expired, one pass of the
  cleanup empties the table, and the next valid request starts an upload.
\<close>

theorem uploads_recover:
  assumes "upload_reach st" and "all_expired now st" and "set entries = {(i, a). up_table st i = Some a}"
    and "trim_space path \<noteq> []" and "0 < sz" and "sz \<le> max_upload_size" and "0 < chunk" and "chunk \<le> max_transfer_chunk"
  shows "up_used (sweep_sessions now entries st) = 0 \<and>
    snd (init_upload fresh client (Some (path, sz, chunk)) None now (sweep_sessions now entries st)) =
      UpStarted fresh chunk ((sz + chunk - 1) div chunk)"
proof -
  let ?st = "sweep_sessions now entries st"
  note inv = upload_reach_inv[OF assms(1)]
  have "up_table ?st i = None" for i using sweep_table[OF inv assms(2), of entries i] assms(3) by (cases "up_table st i") auto
  then have "dom (up_table ?st) = {}" by auto
  then have "up_used ?st = 0" using inv_count[OF sweep_inv[OF inv]] by simp
  moreover from this have "snd (init_upload fresh client (Some (path, sz, chunk)) None now ?st) =
      UpStarted fresh chunk ((sz + chunk - 1) div chunk)"
    using assms(4-8) chunk_count_eq[OF assms(5-8)]
    by (simp add: init_upload_def acquire_session_def create_session_def take_slot_def new_session_def
        max_concurrent_uploads_def same_tables Let_def)
  ultimately show ?thesis by blast
qed

theorem uploads_recover_witness:
  "snd (init_upload ''v'' ''c'' (Some (''u'', 5, 2)) None 3 (sweep_sessions 3 [] (started (\<lambda>_. None) (\<lambda>_. True)))) =
     UpStarted ''v'' 2 3"
proof -
  have "all_expired 3 (started (\<lambda>_. None) (\<lambda>_. True))" by (simp add: all_expired_def started_def)
  then show ?thesis
    using uploads_recover[OF ur_start, of 3 "\<lambda>_. None" "\<lambda>_. True" "[]" "''u''" 5 2 "''v''" "''c''"] sample_trim
    by (simp add: started_def max_upload_size_def max_transfer_chunk_def)
qed

section \<open>What identifiers reach\<close>

text \<open>
  The identifier of a request is part of a path that is cleaned lexically, so an identifier with \<^verbatim>\<open>..\<close>
  names any JSON file; a file that decodes without an expiry time counts as expired, and is removed.
\<close>

lemma foreign_file_removed:
  assumes "up_table st ''x/../../../config'' = None" and "up_disk st ''config.json'' = Some (Some zero_persisted)" and "0 \<le> now"
  shows "up_disk (fst (merge_session client (Some ''x/../../../config'') committed found now st)) ''config.json'' = None"
proof -
  have "session_path ''x/../../../config'' = ''config.json''" by code_simp
  then show ?thesis
    using assms by (simp add: merge_session_def acquire_session_def find_session_def live_session_def
      restore_session_def load_session_def zero_persisted_def zero_time_def remove_state_def)
qed

text \<open>A chunk that ends after the upload was cancelled writes the state file of the upload again.\<close>

lemma cancelled_upload_returns:
  assumes "up_heap st a = Some s" and "up_writable st (session_path (ss_id s))" and "cj_session job = a"
  shows "\<exists>p. up_disk (fst (chunk_end job None None (finish_session a st))) (session_path (ss_id s)) = Some (Some p)"
proof -
  have "\<exists>t. up_heap (finish_session a st) a = Some t \<and> ss_id t = ss_id s"
    using assms(1) by (simp add: finish_session_def Let_def same_tables drop_entry_def release_slot_def)
  moreover have "up_writable (finish_session a st) = up_writable st"
    by (auto simp: finish_session_def Let_def drop_entry_def release_slot_def remove_state_def split: option.splits)
  ultimately show ?thesis using assms by (auto simp: chunk_end_def Let_def save_session_def)
qed

end
