(* ===== verification/File_Download.thy ===== *)
theory File_Download
  imports Stream_Relay
begin

text \<open>
  The download handler of \<^verbatim>\<open>web/filemanager/transfer.go\<close> with everything it calls: one chunk through a
  relay (\<^verbatim>\<open>streamDownloadChunk\<close>), the response headers, \<^verbatim>\<open>downloadFile\<close> from the answer of the agent to
  the end of the response, and the preview tokens that give access to one file without a login.  Parameters
  are the HTTP date parser, the table of media types, and what the network does: the bytes that arrive in
  the relay of each attempt, how many the browser takes, and the error of the agent's call.
\<close>

section \<open>One chunk\<close>

text \<open>
  Both goroutines of \<^verbatim>\<open>streamDownloadChunk\<close> have ended: the copy from the relay to the browser, and the call
  to the agent.
\<close>

definition stream_download_chunk ::
  "copier \<Rightarrow> nat \<Rightarrow> 'b reader \<Rightarrow> int \<Rightarrow> go_error option \<Rightarrow> 'b list \<times> send_result" where
  "stream_download_chunk blk room pipe len call_err =
     (let (written, e0) = copy_exact_stream blk room pipe len;
          n = int (length written);
          copy_err = (if e0 = None \<and> n \<noteq> len then Some (ended_after ''download stream '' n len) else e0);
          stream_err =
            (if copy_err = None \<and> n = len then None
             else case copy_err of
               Some ce \<Rightarrow> (case call_err of
                             Some e \<Rightarrow> if is_relay_pipe_error ce then Some e else Some ce
                           | None \<Rightarrow> Some ce)
             | None \<Rightarrow> (case call_err of Some e \<Rightarrow> Some e | None \<Rightarrow> if n \<noteq> len then Some (plain_error
                (''download stream returned '' @ show_int n @ '' of '' @ show_int len @ '' bytes'')) else None))
      in (written, \<lparr>sr_bytes = n, sr_copy_err = copy_err, sr_stream_err = stream_err\<rparr>))"

text \<open>The network as a whole: what each attempt meets.\<close>

record 'b network =
  net_pipe :: "nat \<Rightarrow> int \<Rightarrow> int \<Rightarrow> 'b reader"
  net_room :: "nat \<Rightarrow> nat"
  net_call :: "nat \<Rightarrow> go_error option"
  net_gone :: "nat \<Rightarrow> bool"

definition net_send :: "copier \<Rightarrow> 'b network \<Rightarrow> send_oracle" where
  "net_send blk net = (\<lambda>n off len. snd (stream_download_chunk blk (net_room net n) (net_pipe net n off len) len (net_call net n)))"

section \<open>The response\<close>

fun show_hex :: "nat \<Rightarrow> go_string" where
  "show_hex n =
     (let d = n mod 16; c = char_of (if d < 10 then 48 + d else 87 + d) in
      if n < 16 then [c] else show_hex (n div 16) @ [c])"

definition show_hex_int :: "int \<Rightarrow> go_string" where
  "show_hex_int z = (if z < 0 then CHR ''-'' # show_hex (nat (- z)) else show_hex (nat z))"

text \<open>The zero time has a wrapped number of nanoseconds.\<close>

definition unix_nano :: "int option \<Rightarrow> int" where
  "unix_nano t = (case t of Some n \<Rightarrow> wrap64 n | None \<Rightarrow> wrap64 (- 62135596800 * 1000000000))"

definition file_etag :: "file_info \<Rightarrow> go_string" where
  "file_etag info = CHR 0x22 # show_hex_int (fi_size info) @ ''-'' @ show_hex_int (unix_nano (fi_modified info)) @ [CHR 0x22]"

record download_request =
  dr_path :: go_string
  dr_head :: bool
  dr_range :: go_string
  dr_if_range :: go_string
  dr_inline :: go_string
  dr_chunk :: go_string
  dr_filename :: go_string
  dr_office :: bool

record download_headers =
  dh_status :: nat
  dh_type :: go_string
  dh_disposition :: "go_string \<times> go_string \<times> go_string option"
  dh_length :: int
  dh_range :: "(int \<times> int \<times> int) option"
  dh_etag :: go_string
  dh_modified :: "int option"

definition clean_filename :: "go_string \<Rightarrow> go_string" where
  "clean_filename name0 =
     (let n = go_base (to_slash name0) in if n = ''.'' \<or> n = [] \<or> n = ''/'' then ''download'' else n)"

text \<open>Kind, ASCII name, and the UTF-8 name of the second parameter where there is one.\<close>

definition content_disposition :: "go_string \<Rightarrow> go_string \<Rightarrow> bool \<Rightarrow> go_string \<times> go_string \<times> go_string option" where
  "content_disposition kind name0 office =
     (let name = clean_filename name0; fallback = ascii_download_filename name in
      (kind, fallback, if office \<or> fallback = name then None else Some name))"

definition download_headers_of ::
  "(go_string \<Rightarrow> go_string) \<Rightarrow> download_request \<Rightarrow> file_info \<Rightarrow> download_plan \<Rightarrow> download_headers" where
  "download_headers_of mime rq info plan =
     (let actual = (if fi_name info = [] then go_base (dr_path rq) else fi_name info);
          kind = (if dr_inline rq = ''1'' \<or> to_lower (dr_inline rq) = ''true'' then ''inline'' else ''attachment'');
          ty = mime (to_lower (go_ext actual))
      in \<lparr>dh_status = (if dp_partial plan then 206 else 200),
          dh_type = (if ty = [] then ''application/octet-stream'' else ty),
          dh_disposition = content_disposition kind (response_name actual (dr_filename rq)) (dr_office rq),
          dh_length = dp_length plan,
          dh_range = (if dp_partial plan then Some (dp_start plan, dp_end plan, fi_size info) else None),
          dh_etag = file_etag info, dh_modified = fi_modified info\<rparr>)"

datatype download_reply =
    DlError nat
  | DlHeaders download_headers
  | DlBody download_headers "(int \<times> int) list" "go_error option"

text \<open>
  \<open>stat\<close> is what the agent answers: an error, metadata that do not decode, or the metadata.  The headers are
  written with the first byte of the body, so an error before it still becomes a status.  (A response whose
  first write fails reaches nobody; it counts as an error before the first byte.)
\<close>

definition download_file ::
  "(go_string \<Rightarrow> int option) \<Rightarrow> (go_string \<Rightarrow> go_string) \<Rightarrow> copier \<Rightarrow> 'b network \<Rightarrow> go_string \<Rightarrow> download_request \<Rightarrow>
   go_error + file_info option \<Rightarrow> chunk_cache \<Rightarrow> (chunk_cache \<times> download_reply) option" where
  "download_file parse_time mime blk net client rq stat cache =
     (case stat of Inl e \<Rightarrow> Some (cache, DlError (transfer_status e))
      | Inr None \<Rightarrow> Some (cache, DlError 502)
      | Inr (Some info) \<Rightarrow>
          (case plan_download parse_time (file_etag info) (dr_range rq) (dr_if_range rq) info of
             Inl status \<Rightarrow> Some (cache, DlError status)
           | Inr plan \<Rightarrow>
               let chunk = chunk_size_for_request cache client (dr_chunk rq);
                   headers = download_headers_of mime rq info plan
               in if dr_head rq \<or> dp_length plan = 0
                  then Some (remember_chunk_size client chunk cache, DlHeaders headers)
                  else (case stream_download_relay (net_send blk net) (net_gone net) client (dp_start plan)
                               (dp_length plan) chunk cache of
                          None \<Rightarrow> None
                        | Some (run, None) \<Rightarrow> Some (rr_cache run, DlBody headers (rr_sent run) None)
                        | Some (run, Some e) \<Rightarrow>
                            Some (rr_cache run, if rr_sent run = [] then DlError (transfer_status e)
                                                else DlBody headers (rr_sent run) (Some e)))))"

definition download ::
  "(go_string \<Rightarrow> int option) \<Rightarrow> (go_string \<Rightarrow> go_string) \<Rightarrow> copier \<Rightarrow> 'b network \<Rightarrow> go_string \<Rightarrow> download_request \<Rightarrow>
   go_error + file_info option \<Rightarrow> chunk_cache \<Rightarrow> (chunk_cache \<times> download_reply) option" where
  "download parse_time mime blk net client rq stat cache =
     (let path = trim_space (dr_path rq) in
      if client = [] \<or> path = [] then Some (cache, DlError 400)
      else download_file parse_time mime blk net client (rq\<lparr>dr_path := path, dr_filename := [], dr_office := False\<rparr>) stat cache)"

section \<open>Preview tokens\<close>

record preview_token =
  pt_client :: go_string
  pt_path :: go_string
  pt_expires :: int

type_synonym preview_table = "go_string \<Rightarrow> preview_token option"

definition preview_token_ttl :: int where "preview_token_ttl = 10 * 60 * 1000000000"

definition create_preview_token ::
  "go_string \<Rightarrow> go_string \<Rightarrow> go_string \<Rightarrow> int \<Rightarrow> preview_table \<Rightarrow> preview_table \<times> (nat + go_string)" where
  "create_preview_token token client path0 now tokens =
     (let path = trim_space path0 in
      if client = [] \<or> path = [] then (tokens, Inl 400)
      else ((\<lambda>i. case tokens i of Some t \<Rightarrow> if now > pt_expires t then None else Some t | None \<Rightarrow> None)
              (token \<mapsto> \<lparr>pt_client = client, pt_path = path, pt_expires = now + preview_token_ttl\<rparr>), Inr token))"

text \<open>The file a preview request reads, with the name for the response.\<close>

definition preview_target ::
  "go_string \<Rightarrow> go_string \<Rightarrow> go_string \<Rightarrow> int \<Rightarrow> preview_table \<Rightarrow> preview_table \<times> (nat + go_string \<times> go_string)" where
  "preview_target client token0 filename0 now tokens =
     (let token = trim_space token0; filename = trim_space filename0 in
      if client = [] \<or> token = [] then (tokens, Inl 400)
      else case tokens token of
        None \<Rightarrow> (tokens, Inl 401)
      | Some t \<Rightarrow>
          if pt_client t \<noteq> client \<or> now > pt_expires t then (tokens(token := None), Inl 401)
          else (tokens, Inr (pt_path t, if filename = [] then ''komari-preview'' else filename)))"

definition preview_download ::
  "(go_string \<Rightarrow> int option) \<Rightarrow> (go_string \<Rightarrow> go_string) \<Rightarrow> copier \<Rightarrow> 'b network \<Rightarrow> go_string \<Rightarrow> go_string \<Rightarrow>
   int \<Rightarrow> download_request \<Rightarrow> (go_string \<Rightarrow> go_error + file_info option) \<Rightarrow> preview_table \<Rightarrow> chunk_cache \<Rightarrow>
   preview_table \<times> (chunk_cache \<times> download_reply) option" where
  "preview_download parse_time mime blk net client token now rq stat tokens cache =
     (case preview_target client token (dr_filename rq) now tokens of
        (tokens', Inl status) \<Rightarrow> (tokens', Some (cache, DlError status))
      | (tokens', Inr (path, filename)) \<Rightarrow>
          (tokens', download_file parse_time mime blk net client
             (rq\<lparr>dr_path := path, dr_filename := filename, dr_office := True\<rparr>) (stat path) cache))"

section \<open>The body is the announced part of the file\<close>

lemma chunk_sane:
  assumes "stream_download_chunk blk room pipe len call_err = (written, r)"
  shows "sr_bytes r = int (length written) \<and> sr_bytes r \<le> max 0 len"
proof -
  obtain w e where c: "copy_exact_stream blk room pipe len = (w, e)" by fastforce
  then show ?thesis using assms copied_length[OF c] by (auto simp: stream_download_chunk_def Let_def)
qed

lemma net_sane: "sane (net_send blk net)"
  unfolding sane_def
proof (intro allI conjI)
  fix n off len
  obtain w r where "stream_download_chunk blk (net_room net n) (net_pipe net n off len) len (net_call net n) = (w, r)" by fastforce
  then show "0 \<le> sr_bytes (net_send blk net n off len)" "0 \<le> len \<longrightarrow> sr_bytes (net_send blk net n off len) \<le> len"
    using chunk_sane[of blk "net_room net n" "net_pipe net n off len" len "net_call net n" w r] by (auto simp: net_send_def)
qed

text \<open>The first and the last byte the headers announce.\<close>

definition announced :: "file_info \<Rightarrow> download_headers \<Rightarrow> int \<times> int" where
  "announced info h = (case dh_range h of Some (a, b, _) \<Rightarrow> (a, b) | None \<Rightarrow> (0, fi_size info - 1))"

definition reply_ok :: "file_info \<Rightarrow> download_reply \<Rightarrow> bool" where
  "reply_ok info r = (case r of DlError s \<Rightarrow> 400 \<le> s \<and> s < 600
     | DlHeaders h \<Rightarrow> dh_status h = (if dh_range h = None then 200 else 206)
     | DlBody h sent err \<Rightarrow>
         (let (a, b) = announced info h in
          dh_status h = (if dh_range h = None then 200 else 206) \<and> 0 \<le> a \<and> b < fi_size info \<and> 0 < dh_length h \<and>
          dh_length h = b - a + 1 \<and> (\<exists>e. run_end a sent = Some e \<and> e \<le> b + 1 \<and> (err = None \<longrightarrow> e = b + 1))))"

lemma transfer_status_error: "400 \<le> transfer_status e \<and> transfer_status e < 600"
  by (simp add: transfer_status_def)

text \<open>
  C24: every download request is answered, whatever the network does: with an error status, with headers
  only, or with a body that is one gapless run of bytes beginning where the headers say and staying within
  what they say, all of it when the response ends without an error; the announced range lies in the file,
  has the announced length, and the status is 206 exactly for a partial response.
\<close>

theorem download_as_announced:
  "\<exists>cache' r. download_file parse_time mime blk net client rq (Inr (Some info)) cache = Some (cache', r) \<and> reply_ok info r"
proof (cases "plan_download parse_time (file_etag info) (dr_range rq) (dr_if_range rq) info")
  case (Inl status)
  then show ?thesis
    using plan_download_sound[where parse_time = parse_time and etag = "file_etag info" and range_header = "dr_range rq"
        and if_range = "dr_if_range rq" and info = info]
    by (auto simp: download_file_def reply_ok_def)
next
  case (Inr plan)
  have p: "0 \<le> dp_length plan" "dp_start plan + dp_length plan = dp_end plan + 1" "0 \<le> dp_start plan"
      "dp_end plan < max 1 (fi_size info)" "\<not> dp_partial plan \<longrightarrow> dp_start plan = 0 \<and> dp_length plan = fi_size info"
      "dp_partial plan \<longrightarrow> dp_end plan < fi_size info"
    using plan_download_sound[where parse_time = parse_time and etag = "file_etag info" and range_header = "dr_range rq"
        and if_range = "dr_if_range rq" and info = info] Inr
    by (auto split: if_splits)
  let ?h = "download_headers_of mime rq info plan"
  let ?chunk = "chunk_size_for_request cache client (dr_chunk rq)"
  have h: "dh_status ?h = (if dh_range ?h = None then 200 else 206)" "dh_length ?h = dp_length plan"
    by (simp_all add: download_headers_of_def Let_def)
  have ann: "announced info ?h = (dp_start plan, dp_start plan + dp_length plan - 1)"
    using p(2,5) by (auto simp: announced_def download_headers_of_def Let_def)
  show ?thesis
  proof (cases "dr_head rq \<or> dp_length plan = 0")
    case True
    then show ?thesis using Inr h by (auto simp: download_file_def reply_ok_def Let_def)
  next
    case False
    have c: "0 < ?chunk" "?chunk \<le> max_transfer_chunk"
      using chunk_size_for_request_bounds[of cache client "dr_chunk rq"] cached_chunk_size_bounds[of cache client]
      by (auto simp: min_transfer_chunk_def)
    have len: "0 < dp_length plan" using p(1) False by simp
    obtain run err e where run: "stream_download_relay (net_send blk net) (net_gone net) client (dp_start plan)
        (dp_length plan) ?chunk cache = Some (run, err)"
      "run_end (dp_start plan) (rr_sent run) = Some e" "e \<le> dp_start plan + dp_length plan"
      "err = None \<longrightarrow> e = dp_start plan + dp_length plan"
      using relay_delivers[OF net_sane len c, of blk net "net_gone net" client "dp_start plan" cache] by blast
    have inside: "dp_end plan < fi_size info" using p len by (cases "dp_partial plan") auto
    have body: "reply_ok info (DlBody ?h (rr_sent run) err)"
      using h p len run(2-4) inside by (simp add: reply_ok_def ann)
    show ?thesis
    proof (cases err)
      case None
      then show ?thesis using Inr False run(1) body by (simp add: download_file_def Let_def)
    next
      case (Some er)
      then show ?thesis
        using Inr False run(1) body transfer_status_error[of er]
        by (cases "rr_sent run = []") (simp_all add: download_file_def Let_def reply_ok_def)
    qed
  qed
qed

theorem download_as_announced_witness:
  "\<exists>cache' r. download_file (\<lambda>_. None) (\<lambda>_. []) \<lparr>cp_block = 1, cp_fail = plain_error ''closed''\<rparr>
     \<lparr>net_pipe = (\<lambda>n off len. \<lparr>rd_data = [7 :: nat], rd_err = None\<rparr>), net_room = (\<lambda>_. 9), net_call = (\<lambda>_. None), net_gone = (\<lambda>_. False)\<rparr>
     ''c'' \<lparr>dr_path = ''/f'', dr_head = False, dr_range = [], dr_if_range = [], dr_inline = [], dr_chunk = [],
       dr_filename = [], dr_office = False\<rparr>
     (Inr (Some \<lparr>fi_name = ''f'', fi_size = 1, fi_is_dir = False, fi_modified = None\<rparr>)) (\<lambda>_. None) = Some (cache', r) \<and>
   reply_ok \<lparr>fi_name = ''f'', fi_size = 1, fi_is_dir = False, fi_modified = None\<rparr> r"
  by (rule download_as_announced)

section \<open>Preview tokens open one file\<close>

text \<open>
  A token opens the file it was made for, for its agent, for ten minutes; any other agent's name or a later
  time is refused and destroys the token.
\<close>

lemma preview_token_bound:
  assumes "create_preview_token token client path now tokens = (tokens', Inr k)" and "trim_space token = token" and "token \<noteq> []"
  shows "k = token \<and> preview_target c token name t tokens' =
    (if c = [] then (tokens', Inl 400)
     else if c = client \<and> t \<le> now + preview_token_ttl
     then (tokens', Inr (trim_space path, if trim_space name = [] then ''komari-preview'' else trim_space name))
     else (tokens'(token := None), Inl 401))"
  using assms by (auto simp: create_preview_token_def preview_target_def Let_def split: if_splits)

section \<open>Lengths read as statuses\<close>

text \<open>
  The errors are classified by their text, and a short stream puts its length between two spaces: a chunk
  of 404 bytes that brings nothing is taken for a missing file and not tried again, one of 413 bytes for a
  request that is too large; one of 402 bytes is retried.
\<close>

lemma length_read_as_status:
  "is_non_retryable (ended_after ''stream '' 0 404)" "\<not> is_non_retryable (ended_after ''stream '' 0 402)"
  "transfer_status (ended_after ''stream '' 0 413) = 413" "transfer_status (ended_after ''stream '' 0 402) = 502"
  by code_simp+

end
