(* ===== verification/Metric_Raw.thy ===== *)
theory Metric_Raw
  imports Prelude "HOL-Library.Word"
begin

text \<open>
  The recent samples of the metric store, \<^verbatim>\<open>pkg/metric/raw_points.go\<close>: the byte encoding of old samples
  (variable-length integers of package \<^verbatim>\<open>encoding/binary\<close>, a value as its 64 bits), a series with its
  encoded and its directly searchable part, late and replacing samples, pruning, the table of label sets of
  a series and its compaction, and the write of a batch.  A time is in milliseconds; a series is addressed
  by metric, entity and the fingerprint of its tags.  What a write of the store means is the map from times
  to values and labels that it represents.
\<close>

section \<open>Variable-length integers\<close>

type_synonym octet = "8 word"

fun put_uvarint :: "nat \<Rightarrow> octet list" where
  "put_uvarint n = (if n < 128 then [of_nat n] else of_nat (n mod 128 + 128) # put_uvarint (n div 128))"

declare put_uvarint.simps [simp del]

text \<open>The argument counts the bytes already read; ten are too many, and the tenth is at most one.\<close>

fun get_uvarint :: "nat \<Rightarrow> octet list \<Rightarrow> (nat \<times> octet list) option" where
  "get_uvarint i [] = None"
| "get_uvarint i (b # bs) =
     (if i = 10 then None
      else if unat b < 128 then (if i = 9 \<and> unat b > 1 then None else Some (unat b, bs))
      else case get_uvarint (i + 1) bs of None \<Rightarrow> None | Some (v, r) \<Rightarrow> Some (unat b - 128 + 128 * v, r))"

definition put_varint :: "int \<Rightarrow> octet list" where
  "put_varint x = put_uvarint (nat (if x < 0 then - 2 * x - 1 else 2 * x))"

definition get_varint :: "octet list \<Rightarrow> (int \<times> octet list) option" where
  "get_varint bs = (case get_uvarint 0 bs of None \<Rightarrow> None
     | Some (u, r) \<Rightarrow> Some (if odd u then - int (u div 2) - 1 else int (u div 2), r))"

text \<open>Little-endian words of \<open>k\<close> bytes.\<close>

fun put_le :: "nat \<Rightarrow> nat \<Rightarrow> octet list" where
  "put_le 0 n = []"
| "put_le (Suc k) n = of_nat (n mod 256) # put_le k (n div 256)"

fun get_le :: "octet list \<Rightarrow> nat" where
  "get_le [] = 0"
| "get_le (b # bs) = unat b + 256 * get_le bs"

section \<open>Encoded samples\<close>

record raw_sample =
  rs_time :: int
  rs_value :: "64 word"
  rs_label :: nat

record compressed =
  cs_data :: "octet list"
  cs_count :: nat
  cs_last :: int

record decoder =
  de_data :: "octet list"
  de_index :: nat
  de_count :: nat
  de_previous :: int

definition empty_compressed :: compressed where
  "empty_compressed = \<lparr>cs_data = [], cs_count = 0, cs_last = 0\<rparr>"

definition new_decoder :: "compressed \<Rightarrow> decoder" where
  "new_decoder c = \<lparr>de_data = cs_data c, de_index = 0, de_count = cs_count c, de_previous = 0\<rparr>"

definition decoder_next :: "decoder \<Rightarrow> (raw_sample \<times> decoder) option" where
  "decoder_next d =
     (if de_index d = de_count d then None
      else case (if de_index d = 0 then get_varint (de_data d)
                 else case get_uvarint 0 (de_data d) of None \<Rightarrow> None
                      | Some (delta, r) \<Rightarrow> Some (wrap64 (de_previous d + wrap64 (int delta)), r)) of
        None \<Rightarrow> None
      | Some (t, r1) \<Rightarrow>
          (case get_uvarint 0 (drop 8 r1) of None \<Rightarrow> None
           | Some (label, r2) \<Rightarrow>
               Some (\<lparr>rs_time = t, rs_value = of_nat (get_le (take 8 r1)), rs_label = nat (int label mod 2 ^ 32)\<rparr>,
                     d\<lparr>de_data := r2, de_index := de_index d + 1, de_previous := t\<rparr>)))"

text \<open>A loop over a decoder visits at most the samples it counts.\<close>

fun decode_n :: "nat \<Rightarrow> decoder \<Rightarrow> raw_sample list" where
  "decode_n 0 d = []"
| "decode_n (Suc n) d = (case decoder_next d of None \<Rightarrow> [] | Some (s, d') \<Rightarrow> s # decode_n n d')"

definition decode_all :: "compressed \<Rightarrow> raw_sample list" where
  "decode_all c = decode_n (cs_count c) (new_decoder c)"

definition put_raw_sample :: "raw_sample \<Rightarrow> octet list" where
  "put_raw_sample s = put_le 8 (unat (rs_value s)) @ put_uvarint (rs_label s)"

definition append_sample :: "raw_sample \<Rightarrow> compressed \<Rightarrow> compressed" where
  "append_sample s c =
     \<lparr>cs_data = cs_data c @ (if cs_count c = 0 then put_varint (rs_time s)
                              else put_uvarint (nat ((rs_time s - cs_last c) mod 2 ^ 64))) @ put_raw_sample s,
      cs_count = cs_count c + 1, cs_last = rs_time s\<rparr>"

definition first_stamp :: "compressed \<Rightarrow> int" where
  "first_stamp c = (case get_varint (cs_data c) of None \<Rightarrow> 0 | Some (t, _) \<Rightarrow> t)"

definition append_all :: "raw_sample list \<Rightarrow> compressed \<Rightarrow> compressed" where
  "append_all ss c = foldl (\<lambda>c s. append_sample s c) c ss"

section \<open>A late sample, a merge, and pruning\<close>

definition replace_step ::
  "raw_sample \<Rightarrow> compressed \<times> bool \<times> raw_sample option \<Rightarrow> raw_sample \<Rightarrow> compressed \<times> bool \<times> raw_sample option" where
  "replace_step s acc cur =
     (case acc of (enc, inserted, old) \<Rightarrow>
        let (enc1, inserted1) =
              (if \<not> inserted \<and> rs_time s < rs_time cur then (append_sample s enc, True) else (enc, inserted))
        in if \<not> inserted1 \<and> rs_time s = rs_time cur then (append_sample s enc1, True, Some cur)
           else (append_sample cur enc1, inserted1, old))"

definition replace_compressed :: "raw_sample \<Rightarrow> compressed \<Rightarrow> compressed \<times> raw_sample option" where
  "replace_compressed s c =
     (case foldl (replace_step s) (empty_compressed, False, None) (decode_all c) of
        (enc, inserted, old) \<Rightarrow> (if inserted then enc else append_sample s enc, old))"

fun merge_samples :: "raw_sample list \<Rightarrow> raw_sample list \<Rightarrow> compressed \<Rightarrow> compressed" where
  "merge_samples [] [] acc = acc"
| "merge_samples [] (n # ns) acc = merge_samples [] ns (append_sample n acc)"
| "merge_samples (c # cs) [] acc = merge_samples cs [] (append_sample c acc)"
| "merge_samples (c # cs) (n # ns) acc =
     (if rs_time n < rs_time c then merge_samples (c # cs) ns (append_sample n acc)
      else if rs_time n = rs_time c then merge_samples cs ns (append_sample n acc)
      else merge_samples cs (n # ns) (append_sample c acc))"

definition compressed_append :: "raw_sample list \<Rightarrow> compressed \<Rightarrow> compressed" where
  "compressed_append ss c =
     (if ss = [] then c
      else if cs_count c > 0 \<and> rs_time (hd ss) \<le> cs_last c then merge_samples (decode_all c) ss empty_compressed
      else append_all ss c)"

definition prune_compressed :: "int \<Rightarrow> compressed \<Rightarrow> compressed \<times> nat" where
  "prune_compressed before c =
     (if cs_count c = 0 \<or> first_stamp c \<ge> before then (c, 0)
      else if cs_last c < before then (empty_compressed, cs_count c)
      else (append_all (filter (\<lambda>s. \<not> rs_time s < before) (decode_all c)) empty_compressed,
            length (filter (\<lambda>s. rs_time s < before) (decode_all c))))"

section \<open>Series\<close>

record raw_series =
  se_tags :: go_string
  se_ids :: "go_string \<Rightarrow> nat option"
  se_hashes :: "go_string list"
  se_jsons :: "go_string list"
  se_samples :: "raw_sample list"
  se_compressed :: compressed

text \<open>\<^verbatim>\<open>sort.Search\<close> over samples in time order.\<close>

definition search_time :: "int \<Rightarrow> raw_sample list \<Rightarrow> nat" where
  "search_time t ss = length (takeWhile (\<lambda>s. rs_time s < t) ss)"

definition compress_series :: "int \<Rightarrow> raw_series \<Rightarrow> raw_series" where
  "compress_series before se =
     (let i = search_time before (se_samples se) in
      if i = 0 then se
      else se\<lparr>se_compressed := compressed_append (take i (se_samples se)) (se_compressed se),
              se_samples := drop i (se_samples se)\<rparr>)"

definition relabel :: "(nat \<Rightarrow> nat) \<Rightarrow> raw_sample \<Rightarrow> raw_sample" where
  "relabel f s = s\<lparr>rs_label := f (rs_label s)\<rparr>"

definition compact_labels :: "raw_series \<Rightarrow> raw_series" where
  "compact_labels se =
     (if length (se_hashes se) \<le> 1 then se
      else
        let labels = map rs_label (decode_all (se_compressed se)) @ map rs_label (se_samples se);
            used = map (\<lambda>i. i \<in> set labels) [0..<length (se_hashes se)];
            kept = filter (\<lambda>i. used ! i) [0..<length (se_hashes se)]
        in if length kept = length used then se
           else
             let remap = (\<lambda>i. length (filter (\<lambda>j. used ! j) [0..<i]));
                 hashes = map (\<lambda>i. se_hashes se ! i) kept
             in se\<lparr>se_compressed := append_all (map (relabel remap) (decode_all (se_compressed se))) empty_compressed,
                   se_samples := map (relabel remap) (se_samples se),
                   se_hashes := hashes, se_jsons := map (\<lambda>i. se_jsons se ! i) kept,
                   se_ids := map_of (zip hashes [0..<length hashes])\<rparr>)"

definition prune_series :: "int \<Rightarrow> raw_series \<Rightarrow> raw_series option \<times> nat" where
  "prune_series before se =
     (let (c, gone) = prune_compressed before (se_compressed se);
          i = search_time before (se_samples se);
          se1 = se\<lparr>se_compressed := c, se_samples := drop i (se_samples se)\<rparr>
      in if cs_count c = 0 \<and> drop i (se_samples se) = [] then (None, gone + i)
         else (Some (if gone > 0 \<or> i > 0 then compact_labels se1 else se1), gone + i))"

section \<open>Writing a batch\<close>

type_synonym series_key = "go_string \<times> go_string \<times> go_string"

record prepared_point =
  pp_key :: series_key
  pp_tags :: go_string
  pp_labels_hash :: go_string
  pp_labels :: go_string
  pp_time :: int
  pp_value :: "64 word"

definition minute_ms :: int where "minute_ms = 60000"
definition direct_retention_ms :: int where "direct_retention_ms = 60000"
definition raw_retention_ms :: int where "raw_retention_ms = 600000"

definition bucket_start :: "int \<Rightarrow> int \<Rightarrow> int" where
  "bucket_start ts sz =
     (if sz \<le> 0 then ts
      else let q = go_div ts sz; q' = (if ts < 0 \<and> go_rem ts sz \<noteq> 0 then q - 1 else q) in q' * sz)"

definition raw_cutoff :: "int \<Rightarrow> int" where
  "raw_cutoff now = bucket_start (now - raw_retention_ms) minute_ms"

type_synonym hot_key = "series_key \<times> go_string \<times> int"
type_synonym raw_store = "series_key \<Rightarrow> raw_series option"

definition mark_rebuild :: "prepared_point \<Rightarrow> go_string \<Rightarrow> hot_key" where
  "mark_rebuild p h = (pp_key p, h, bucket_start (pp_time p) minute_ms)"

text \<open>The series of a point with an identifier for its label set.\<close>

definition series_for :: "prepared_point \<Rightarrow> raw_store \<Rightarrow> raw_series \<times> nat" where
  "series_for p st =
     (let se = (case st (pp_key p) of Some se \<Rightarrow> se
                | None \<Rightarrow> \<lparr>se_tags = pp_tags p, se_ids = (\<lambda>_. None), se_hashes = [], se_jsons = [],
                           se_samples = [], se_compressed = empty_compressed\<rparr>)
      in case se_ids se (pp_labels_hash p) of
           Some i \<Rightarrow> (se, i)
         | None \<Rightarrow> (se\<lparr>se_ids := (se_ids se)(pp_labels_hash p \<mapsto> length (se_jsons se)),
                       se_hashes := se_hashes se @ [pp_labels_hash p],
                       se_jsons := se_jsons se @ [pp_labels p]\<rparr>, length (se_jsons se)))"

text \<open>The sample at an index of the direct part is replaced, or the new one is put there.\<close>

definition place_direct :: "raw_sample \<Rightarrow> raw_series \<Rightarrow> raw_series \<times> raw_sample option" where
  "place_direct s se =
     (let i = search_time (rs_time s) (se_samples se) in
      if i < length (se_samples se) \<and> rs_time (se_samples se ! i) = rs_time s
      then (se\<lparr>se_samples := (se_samples se)[i := s]\<rparr>, Some (se_samples se ! i))
      else (se\<lparr>se_samples := take i (se_samples se) @ s # drop i (se_samples se)\<rparr>, None))"

text \<open>One sample into the part of the series it belongs to.\<close>

definition place_sample :: "bool \<Rightarrow> raw_sample \<Rightarrow> raw_series \<Rightarrow> raw_series \<times> raw_sample option" where
  "place_sample late s se =
     (if late then (case replace_compressed s (se_compressed se) of (c, old) \<Rightarrow> (se\<lparr>se_compressed := c\<rparr>, old))
      else place_direct s se)"

record write_state =
  ws_raw :: raw_store
  ws_rebuild :: "hot_key list"
  ws_dirty :: "series_key list"

definition write_point :: "int \<Rightarrow> int \<Rightarrow> write_state \<Rightarrow> prepared_point \<Rightarrow> write_state" where
  "write_point direct_cut raw_cut ws p =
     (if pp_time p < raw_cut then ws
      else
        let (se, label) = series_for p (ws_raw ws);
            s = \<lparr>rs_time = pp_time p, rs_value = pp_value p, rs_label = label\<rparr>;
            late = pp_time p < direct_cut;
            (se1, old) = place_sample late s se;
            marks = (case old of Some o' \<Rightarrow> [mark_rebuild p (se_hashes se ! rs_label o')] | None \<Rightarrow> []) @
                    (if late \<or> old \<noteq> None then [mark_rebuild p (pp_labels_hash p)] else []);
            dirty = (case old of Some o' \<Rightarrow> if rs_label o' \<noteq> label then [pp_key p] else [] | None \<Rightarrow> [])
        in \<lparr>ws_raw = (ws_raw ws)(pp_key p \<mapsto> se1), ws_rebuild = ws_rebuild ws @ marks, ws_dirty = ws_dirty ws @ dirty\<rparr>)"

definition compress_store :: "int \<Rightarrow> raw_store \<Rightarrow> raw_store" where
  "compress_store before st = (\<lambda>k. map_option (compress_series before) (st k))"

definition prune_store :: "int \<Rightarrow> raw_store \<Rightarrow> raw_store" where
  "prune_store before st = (\<lambda>k. case st k of None \<Rightarrow> None | Some se \<Rightarrow> fst (prune_series before se))"

definition compact_store :: "series_key list \<Rightarrow> raw_store \<Rightarrow> raw_store" where
  "compact_store ks st = (\<lambda>k. if k \<in> set ks then map_option compact_labels (st k) else st k)"

definition write_raw_points_at :: "prepared_point list \<Rightarrow> int \<Rightarrow> raw_store \<Rightarrow> raw_store \<times> hot_key list" where
  "write_raw_points_at points now st =
     (let direct_cut = now - direct_retention_ms; raw_cut = raw_cutoff now;
          st1 = prune_store raw_cut (compress_store direct_cut st);
          ws = foldl (write_point direct_cut raw_cut) \<lparr>ws_raw = st1, ws_rebuild = [], ws_dirty = []\<rparr> points
      in (compact_store (ws_dirty ws) (ws_raw ws), ws_rebuild ws))"

definition trim_raw_window :: "int \<Rightarrow> raw_store \<Rightarrow> raw_store" where
  "trim_raw_window now st = prune_store (raw_cutoff now) (compress_store (now - direct_retention_ms) st)"

section \<open>Reading and deleting\<close>

text \<open>
  The part of a series a query returns; \<open>None\<close> is the panic of a slice whose bounds are the wrong way round,
  which a query that lies before the visible window can meet.
\<close>

definition query_series :: "int \<Rightarrow> int \<Rightarrow> raw_series \<Rightarrow> raw_sample list option" where
  "query_series start stop se =
     (let c = se_compressed se; ss = se_samples se;
          i = search_time start ss;
          j = search_time (stop + 1) ss;
          old = (if cs_count c > 0 \<and> start \<le> cs_last c \<and> stop \<ge> first_stamp c
                 then filter (\<lambda>s. \<not> rs_time s < start) (takeWhile (\<lambda>s. \<not> rs_time s > stop) (decode_all c)) else [])
      in if i \<le> j then Some (old @ take (j - i) (drop i ss)) else None)"

definition visible_start :: "int \<Rightarrow> int \<Rightarrow> int" where
  "visible_start now start = (let c = now - raw_retention_ms in if start < c then c else start)"

definition query_raw :: "int \<Rightarrow> int \<Rightarrow> int \<Rightarrow> raw_series \<Rightarrow> raw_sample list option" where
  "query_raw now start stop se = query_series (visible_start now start) stop se"

text \<open>Whether a series has a sample in a range, as \<^verbatim>\<open>rawEntityIDs\<close> asks.\<close>

definition series_has :: "int \<Rightarrow> int \<Rightarrow> raw_series \<Rightarrow> bool" where
  "series_has start stop se =
     (let c = se_compressed se; ss = se_samples se; i = search_time start ss in
      (cs_count c > 0 \<and> start \<le> cs_last c \<and> stop \<ge> first_stamp c \<and>
         filter (\<lambda>s. \<not> rs_time s < start) (takeWhile (\<lambda>s. \<not> rs_time s > stop) (decode_all c)) \<noteq> []) \<or>
      (i < length ss \<and> rs_time (ss ! i) \<le> stop))"

definition delete_raw_before :: "go_string \<Rightarrow> int \<Rightarrow> raw_store \<Rightarrow> raw_store" where
  "delete_raw_before metric before st =
     (\<lambda>k. if metric \<noteq> [] \<and> fst k \<noteq> metric then st k
          else case st k of None \<Rightarrow> None | Some se \<Rightarrow> fst (prune_series before (compress_series before se)))"

definition delete_raw_points :: "(go_string \<Rightarrow> bool) \<Rightarrow> go_string \<Rightarrow> go_string \<Rightarrow> raw_store \<Rightarrow> raw_store" where
  "delete_raw_points match metric entity st =
     (\<lambda>k. case st k of None \<Rightarrow> None
      | Some se \<Rightarrow> if (metric \<noteq> [] \<and> fst k \<noteq> metric) \<or> (entity \<noteq> [] \<and> fst (snd k) \<noteq> entity) \<or> \<not> match (se_tags se)
                   then Some se else None)"

section \<open>Integers and samples come back\<close>

lemma unat_octet: "n < 256 \<Longrightarrow> unat (of_nat n :: octet) = n"
  by (simp add: unat_of_nat)

lemma get_put_uvarint: "n < 2 ^ (64 - 7 * i) \<Longrightarrow> i \<le> 9 \<Longrightarrow> get_uvarint i (put_uvarint n @ r) = Some (n, r)"
proof (induction n arbitrary: i rule: put_uvarint.induct)
  case (1 n)
  show ?case
  proof (cases "n < 128")
    case True
    have "i = 9 \<Longrightarrow> n < 2" using 1(2) by simp
    then have "i = 9 \<longrightarrow> \<not> Suc 0 < n" by auto
    then show ?thesis using True 1(3) by (simp add: put_uvarint.simps[of n] unat_octet)
  next
    case False
    have "i \<noteq> 9" using False 1(2) by auto
    then have i: "i < 9" using 1(3) by simp
    then have "64 - 7 * i = (64 - 7 * (i + 1)) + 7" by simp
    then have "(2::nat) ^ (64 - 7 * i) = 2 ^ (64 - 7 * (i + 1)) * 128" by (simp only: power_add) simp
    then have "n div 128 < 2 ^ (64 - 7 * (i + 1))" using 1(2) by (simp add: less_mult_imp_div_less)
    from 1(1)[OF False this] i
    have "get_uvarint (i + 1) (put_uvarint (n div 128) @ r) = Some (n div 128, r)" by simp
    moreover have "unat (of_nat (n mod 128 + 128) :: octet) = n mod 128 + 128" by (rule unat_octet) simp
    ultimately show ?thesis using False i by (simp add: put_uvarint.simps[of n])
  qed
qed

lemma get_put_varint: "in_int64 x \<Longrightarrow> get_varint (put_varint x @ r) = Some (x, r)"
proof -
  assume x: "in_int64 x"
  let ?u = "nat (if x < 0 then - 2 * x - 1 else 2 * x)"
  have "?u < 2 ^ (64 - 7 * 0)" using x by (auto simp: in_int64_def)
  from get_put_uvarint[OF this, of r]
  have "get_varint (put_varint x @ r) = Some (if odd ?u then - int (?u div 2) - 1 else int (?u div 2), r)"
    by (simp add: get_varint_def put_varint_def)
  moreover have "(if odd ?u then - int (?u div 2) - 1 else int (?u div 2)) = x"
  proof (cases "x < 0")
    case True
    then have "?u = 2 * nat (- x - 1) + 1" by simp
    then show ?thesis using True by simp
  next
    case False
    then have "?u = 2 * nat x" by simp
    then show ?thesis using False by simp
  qed
  ultimately show ?thesis by simp
qed

lemma length_put_le [simp]: "length (put_le k n) = k"
  by (induction k n rule: put_le.induct) simp_all

lemma get_put_le: "n < 256 ^ k \<Longrightarrow> get_le (put_le k n) = n"
proof (induction k n rule: put_le.induct)
  case (2 k n)
  then have "n div 256 < 256 ^ k" by (simp add: less_mult_imp_div_less mult.commute)
  then show ?case using 2 by (simp add: unat_octet)
qed simp

definition valid_sample :: "raw_sample \<Rightarrow> bool" where
  "valid_sample s \<longleftrightarrow> in_int64 (rs_time s) \<and> rs_label s < 2 ^ 32"

text \<open>The bytes of a list of samples, the first of them with its whole time.\<close>

fun encoding :: "bool \<Rightarrow> int \<Rightarrow> raw_sample list \<Rightarrow> octet list" where
  "encoding whole p [] = []"
| "encoding whole p (s # ss) =
     (if whole then put_varint (rs_time s) else put_uvarint (nat ((rs_time s - p) mod 2 ^ 64))) @
     put_raw_sample s @ encoding False (rs_time s) ss"

definition represents :: "compressed \<Rightarrow> raw_sample list \<Rightarrow> bool" where
  "represents c ss \<longleftrightarrow> c = \<lparr>cs_data = encoding True 0 ss, cs_count = length ss,
     cs_last = (if ss = [] then 0 else rs_time (last ss))\<rparr> \<and> (\<forall>s\<in>set ss. valid_sample s)"

lemma encoding_snoc:
  "encoding whole p (ss @ [s]) = encoding whole p ss @
     (if whole \<and> ss = [] then put_varint (rs_time s)
      else put_uvarint (nat ((rs_time s - (if ss = [] then p else rs_time (last ss))) mod 2 ^ 64))) @ put_raw_sample s"
  by (induction whole p ss rule: encoding.induct) simp_all

lemma represents_empty [simp]: "represents empty_compressed []"
  by (simp add: represents_def empty_compressed_def)

lemma represents_append: "represents c ss \<Longrightarrow> valid_sample s \<Longrightarrow> represents (append_sample s c) (ss @ [s])"
  by (simp add: represents_def append_sample_def encoding_snoc)

lemma represents_append_all:
  "represents c ss \<Longrightarrow> \<forall>s\<in>set ts. valid_sample s \<Longrightarrow> represents (append_all ts c) (ss @ ts)"
proof (induction ts arbitrary: c ss)
  case (Cons t ts)
  then have "represents (append_all ts (append_sample t c)) ((ss @ [t]) @ ts)"
    by (intro Cons.IH represents_append) simp_all
  then show ?case by (simp add: append_all_def)
qed (simp add: append_all_def)

lemma wrap64_delta: "in_int64 t \<Longrightarrow> wrap64 (p + wrap64 ((t - p) mod 2 ^ 64)) = t"
proof -
  assume t: "in_int64 t"
  have "wrap64 (p + wrap64 ((t - p) mod 2 ^ 64)) = wrap64 t"
    unfolding wrap64_def by (simp add: mod_simps algebra_simps)
  then show ?thesis using t by (simp add: wrap64_id)
qed

lemma decoder_next_encoding:
  assumes "valid_sample s" and "whole = (i = 0)" and "i < n"
  shows "decoder_next \<lparr>de_data = encoding whole p (s # ss) @ r, de_index = i, de_count = n, de_previous = p\<rparr> =
    Some (s, \<lparr>de_data = encoding False (rs_time s) ss @ r, de_index = i + 1, de_count = n, de_previous = rs_time s\<rparr>)"
proof -
  have v: "in_int64 (rs_time s)" "rs_label s < 2 ^ 32" using assms(1) by (simp_all add: valid_sample_def)
  let ?rest = "put_raw_sample s @ encoding False (rs_time s) ss @ r"
  have "get_varint (put_varint (rs_time s) @ ?rest) = Some (rs_time s, ?rest)" using v(1) by (rule get_put_varint)
  moreover have "get_uvarint 0 (put_uvarint (nat ((rs_time s - p) mod 2 ^ 64)) @ ?rest) = Some (nat ((rs_time s - p) mod 2 ^ 64), ?rest)"
    by (rule get_put_uvarint) (simp_all add: nat_less_iff)
  moreover have "get_uvarint 0 (drop 8 ?rest) = Some (rs_label s, encoding False (rs_time s) ss @ r)"
    using v(2) get_put_uvarint[of "rs_label s" 0 "encoding False (rs_time s) ss @ r"] by (simp add: put_raw_sample_def)
  moreover have "(of_nat (get_le (take 8 ?rest)) :: 64 word) = rs_value s"
  proof -
    have "unat (rs_value s) < 2 ^ LENGTH(64)" by (rule unsigned_less)
    then have "unat (rs_value s) < 256 ^ 8" by simp
    then have "get_le (put_le 8 (unat (rs_value s))) = unat (rs_value s)" by (rule get_put_le)
    then show ?thesis by (simp add: put_raw_sample_def)
  qed
  ultimately show ?thesis
    using assms(2,3) v wrap64_delta[OF v(1), of p] by (simp add: decoder_next_def)
qed

lemma decode_n_encoding:
  "\<forall>s\<in>set ss. valid_sample s \<Longrightarrow> whole = (i = 0) \<Longrightarrow>
   decode_n (length ss) \<lparr>de_data = encoding whole p ss @ r, de_index = i, de_count = i + length ss, de_previous = p\<rparr> = ss"
proof (induction ss arbitrary: whole p i)
  case (Cons s ss)
  have "decode_n (length ss) \<lparr>de_data = encoding False (rs_time s) ss @ r, de_index = i + 1,
      de_count = (i + 1) + length ss, de_previous = rs_time s\<rparr> = ss"
    using Cons.prems(1) by (intro Cons.IH) simp_all
  then show ?case
    using Cons.prems decoder_next_encoding[of s whole i "i + length (s # ss)" p ss r] by simp
qed simp

lemma decode_represents: "represents c ss \<Longrightarrow> decode_all c = ss"
  using decode_n_encoding[of ss True 0 0 "[]"] by (simp add: represents_def decode_all_def new_decoder_def)

lemma first_stamp_represents: "represents c (s # ss) \<Longrightarrow> first_stamp c = rs_time s"
  by (simp add: represents_def first_stamp_def get_put_varint valid_sample_def)

section \<open>Samples in time order\<close>

definition in_order :: "raw_sample list \<Rightarrow> bool" where
  "in_order ss \<longleftrightarrow> sorted_wrt (\<lambda>a b. rs_time a < rs_time b) ss"

definition look :: "raw_sample list \<Rightarrow> int \<Rightarrow> raw_sample option" where
  "look ss = map_of (map (\<lambda>s. (rs_time s, s)) ss)"

lemma look_simps [simp]: "look [] t = None" "look (s # ss) t = (if rs_time s = t then Some s else look ss t)"
  by (simp_all add: look_def)

lemma look_append: "look (as @ bs) t = (case look as t of Some s \<Rightarrow> Some s | None \<Rightarrow> look bs t)"
  by (induction as) simp_all

lemma look_Some: "look ss t = Some s \<Longrightarrow> s \<in> set ss \<and> rs_time s = t"
  by (induction ss) (auto split: if_splits)

lemma look_None: "look ss t = None \<longleftrightarrow> (\<forall>s\<in>set ss. rs_time s \<noteq> t)"
  by (induction ss) auto

lemma look_in: "in_order ss \<Longrightarrow> s \<in> set ss \<Longrightarrow> look ss (rs_time s) = Some s"
  by (induction ss) (auto simp: in_order_def)

lemma in_order_Cons: "in_order (s # ss) \<longleftrightarrow> (\<forall>t\<in>set ss. rs_time s < rs_time t) \<and> in_order ss"
  by (simp add: in_order_def)

lemma in_order_tail: "in_order (s # ss) \<Longrightarrow> in_order ss" "in_order (s # ss) \<Longrightarrow> d \<in> set ss \<Longrightarrow> rs_time s < rs_time d"
  by (simp_all add: in_order_Cons)

lemma in_order_append: "in_order (as @ bs) \<longleftrightarrow> in_order as \<and> in_order bs \<and> (\<forall>a\<in>set as. \<forall>b\<in>set bs. rs_time a < rs_time b)"
  by (simp add: in_order_def sorted_wrt_append)

lemma in_order_filter: "in_order ss \<Longrightarrow> in_order (filter P ss)"
  by (simp add: in_order_def sorted_wrt_filter)

lemma look_filter: "look (filter (\<lambda>s. P (rs_time s)) ss) t = (if P t then look ss t else None)"
  by (induction ss) auto

text \<open>The search splits a list in order at a time.\<close>

lemma search_split:
  "in_order ss \<Longrightarrow> take (search_time t ss) ss = filter (\<lambda>s. rs_time s < t) ss"
  "in_order ss \<Longrightarrow> drop (search_time t ss) ss = filter (\<lambda>s. \<not> rs_time s < t) ss"
proof -
  assume o: "in_order ss"
  have "takeWhile (\<lambda>s. rs_time s < t) ss = filter (\<lambda>s. rs_time s < t) ss \<and>
      dropWhile (\<lambda>s. rs_time s < t) ss = filter (\<lambda>s. \<not> rs_time s < t) ss"
    using o
  proof (induction ss)
    case (Cons s ss)
    show ?case
    proof (cases "rs_time s < t")
      case True
      then show ?thesis using Cons by (simp add: in_order_Cons)
    next
      case False
      then have "\<forall>d\<in>set ss. \<not> rs_time d < t" using Cons.prems by (fastforce simp: in_order_Cons)
      then have "filter (\<lambda>d. rs_time d < t) ss = [] \<and> filter (\<lambda>d. \<not> rs_time d < t) ss = ss"
        by (simp add: filter_empty_conv)
      then show ?thesis using False by simp
    qed
  qed simp
  then show "take (search_time t ss) ss = filter (\<lambda>s. rs_time s < t) ss" "drop (search_time t ss) ss = filter (\<lambda>s. \<not> rs_time s < t) ss"
    by (metis search_time_def takeWhile_eq_take, metis search_time_def dropWhile_eq_drop)
qed

text \<open>A sample put into its place.\<close>

definition put_sample :: "raw_sample \<Rightarrow> raw_sample list \<Rightarrow> raw_sample list" where
  "put_sample s ss = filter (\<lambda>c. rs_time c < rs_time s) ss @ s # filter (\<lambda>c. rs_time s < rs_time c) ss"

lemma put_sample_props:
  assumes "in_order ss"
  shows "in_order (put_sample s ss)" and "look (put_sample s ss) t = (if t = rs_time s then Some s else look ss t)"
    and "set (put_sample s ss) = insert s {c\<in>set ss. rs_time c \<noteq> rs_time s}"
proof -
  show "in_order (put_sample s ss)"
    using assms by (auto simp: put_sample_def in_order_append in_order_Cons in_order_filter)
  show "look (put_sample s ss) t = (if t = rs_time s then Some s else look ss t)"
    using look_filter[of "\<lambda>c. c < rs_time s" ss t] look_filter[of "\<lambda>c. rs_time s < c" ss t]
    by (auto simp: put_sample_def look_append split: option.split)
  show "set (put_sample s ss) = insert s {c\<in>set ss. rs_time c \<noteq> rs_time s}"
    by (auto simp: put_sample_def)
qed

lemma put_sample_Cons:
  assumes "in_order (c # ss)"
  shows "put_sample s (c # ss) = (if rs_time s < rs_time c then s # c # ss
    else if rs_time s = rs_time c then s # ss else c # put_sample s ss)"
proof -
  have late: "filter (\<lambda>d. rs_time d < rs_time s) ss = [] \<and> filter (\<lambda>d. rs_time s < rs_time d) ss = ss"
    if "rs_time s \<le> rs_time c"
    using assms that by (force simp: in_order_Cons filter_empty_conv intro: filter_True)
  then show ?thesis by (auto simp: put_sample_def)
qed

lemma replace_step_cases:
  "replace_step s (enc, True, old) c = (append_sample c enc, True, old)"
  "rs_time s < rs_time c \<Longrightarrow> replace_step s (enc, False, old) c = (append_sample c (append_sample s enc), True, old)"
  "rs_time s = rs_time c \<Longrightarrow> replace_step s (enc, False, old) c = (append_sample s enc, True, Some c)"
  "rs_time c < rs_time s \<Longrightarrow> replace_step s (enc, False, old) c = (append_sample c enc, False, old)"
  by (simp_all add: replace_step_def)

lemma replace_fold_done:
  "represents enc P \<Longrightarrow> \<forall>c\<in>set ss. valid_sample c \<Longrightarrow>
   \<exists>e. foldl (replace_step s) (enc, True, old) ss = (e, True, old) \<and> represents e (P @ ss)"
proof (induction ss arbitrary: enc P)
  case (Cons c ss)
  then have "represents (append_sample c enc) (P @ [c])" by (simp add: represents_append)
  from Cons.IH[OF this] Cons.prems(2) show ?case by (simp add: replace_step_cases)
qed simp

lemma replace_fold:
  "represents enc P \<Longrightarrow> \<forall>c\<in>set ss. valid_sample c \<Longrightarrow> valid_sample s \<Longrightarrow> in_order ss \<Longrightarrow>
   \<exists>e ins. foldl (replace_step s) (enc, False, None) ss = (e, ins, look ss (rs_time s)) \<and>
     represents (if ins then e else append_sample s e) (P @ put_sample s ss)"
proof (induction ss arbitrary: enc P)
  case Nil
  then show ?case
    by (intro exI[of _ enc] exI[of _ False]) (simp add: put_sample_def represents_append)
next
  case (Cons c ss)
  note o = Cons.prems(4)
  consider "rs_time s < rs_time c" | "rs_time s = rs_time c" | "rs_time c < rs_time s" by linarith
  then show ?case
  proof cases
    case 1
    then have "look ss (rs_time s) = None" using o by (force simp: in_order_Cons look_None)
    moreover have "represents (append_sample c (append_sample s enc)) (P @ [s, c])"
      using Cons.prems(1-3) represents_append[OF represents_append[of enc P s], of c] by simp
    moreover obtain e where "foldl (replace_step s) (append_sample c (append_sample s enc), True, None) ss = (e, True, None)"
        "represents e ((P @ [s, c]) @ ss)"
      using replace_fold_done[OF calculation(2)] Cons.prems(2) by fastforce
    ultimately show ?thesis
      using 1 by (intro exI[of _ e] exI[of _ True]) (simp add: replace_step_cases put_sample_Cons[OF o])
  next
    case 2
    have "represents (append_sample s enc) (P @ [s])" using Cons.prems(1,3) by (rule represents_append)
    then obtain e where "foldl (replace_step s) (append_sample s enc, True, Some c) ss = (e, True, Some c)"
        "represents e ((P @ [s]) @ ss)"
      using replace_fold_done[where enc = "append_sample s enc" and P = "P @ [s]"] Cons.prems(2) by fastforce
    then show ?thesis
      using 2 by (intro exI[of _ e] exI[of _ True]) (simp add: replace_step_cases put_sample_Cons[OF o])
  next
    case 3
    have "represents (append_sample c enc) (P @ [c])" using Cons.prems(1,2) by (simp add: represents_append)
    then obtain e ins where "foldl (replace_step s) (append_sample c enc, False, None) ss = (e, ins, look ss (rs_time s))"
        "represents (if ins then e else append_sample s e) ((P @ [c]) @ put_sample s ss)"
      using Cons.IH[of "append_sample c enc" "P @ [c]"] Cons.prems in_order_tail(1)[OF o] by auto
    then show ?thesis
      using 3 by (intro exI[of _ e] exI[of _ ins]) (simp add: replace_step_cases put_sample_Cons[OF o])
  qed
qed

text \<open>The walk over the encoded samples puts the late one into its place and finds the one it replaces.\<close>

lemma replace_compressed_represents:
  assumes "represents c ss" and "valid_sample s" and "in_order ss"
  shows "\<exists>c'. replace_compressed s c = (c', look ss (rs_time s)) \<and> represents c' (put_sample s ss)"
proof -
  have "\<forall>d\<in>set ss. valid_sample d" using assms(1) by (simp add: represents_def)
  from replace_fold[OF represents_empty this assms(2,3)]
  show ?thesis by (auto simp: replace_compressed_def decode_represents[OF assms(1)])
qed

fun merged :: "raw_sample list \<Rightarrow> raw_sample list \<Rightarrow> raw_sample list" where
  "merged [] ns = ns"
| "merged (c # cs) [] = c # cs"
| "merged (c # cs) (n # ns) =
     (if rs_time n < rs_time c then n # merged (c # cs) ns
      else if rs_time n = rs_time c then n # merged cs ns
      else c # merged cs (n # ns))"

lemma merge_samples_represents:
  "represents acc P \<Longrightarrow> \<forall>s\<in>set cs \<union> set ns. valid_sample s \<Longrightarrow> represents (merge_samples cs ns acc) (P @ merged cs ns)"
proof (induction cs ns acc arbitrary: P rule: merge_samples.induct)
  case (2 n ns acc)
  then have "represents (append_sample n acc) (P @ [n])" by (simp add: represents_append)
  from 2(1)[OF this] 2(3) show ?case by simp
next
  case (3 c cs acc)
  then have "represents (append_sample c acc) (P @ [c])" by (simp add: represents_append)
  from 3(1)[OF this] 3(3) show ?case by (cases cs) simp_all
next
  case (4 c cs n ns acc)
  have "represents (append_sample n acc) (P @ [n])" "represents (append_sample c acc) (P @ [c])"
    using 4(4,5) by (simp_all add: represents_append)
  then show ?case
    using 4(1)[of "P @ [n]"] 4(2)[of "P @ [n]"] 4(3)[of "P @ [c]"] 4(5) by simp
qed simp

lemma merged_set: "set (merged cs ns) \<subseteq> set cs \<union> set ns"
  by (induction cs ns rule: merged.induct) auto

lemma merged_in_order: "in_order cs \<Longrightarrow> in_order ns \<Longrightarrow> in_order (merged cs ns)"
proof (induction cs ns rule: merged.induct)
  case (3 c cs n ns)
  note t = in_order_tail(2)[OF 3(4)] in_order_tail(2)[OF 3(5)] in_order_tail(1)[OF 3(4)] in_order_tail(1)[OF 3(5)]
  consider "rs_time n < rs_time c" | "rs_time n = rs_time c" | "rs_time c < rs_time n" by linarith
  then show ?case
  proof cases
    case 1
    have "rs_time n < rs_time d" if "d \<in> set (merged (c # cs) ns)" for d
      using subsetD[OF merged_set that] t(1,2)[of d] 1 by auto
    then show ?thesis using 1 3(1)[OF 1 3(4) t(4)] by (simp add: in_order_Cons)
  next
    case 2
    have "rs_time n < rs_time d" if "d \<in> set (merged cs ns)" for d
      using subsetD[OF merged_set that] t(1,2)[of d] 2 by auto
    then show ?thesis using 2 3(2)[OF _ 2 t(3,4)] by (simp add: in_order_Cons)
  next
    case c: 3
    have "rs_time c < rs_time d" if "d \<in> set (merged cs (n # ns))" for d
      using subsetD[OF merged_set that] t(1,2)[of d] c by auto
    then show ?thesis using c 3(3)[OF _ _ t(3) 3(5)] by (simp add: in_order_Cons)
  qed
qed simp_all

lemma look_before: "in_order (s # ss) \<Longrightarrow> t \<le> rs_time s \<Longrightarrow> look ss t = None"
  by (force simp: in_order_Cons look_None)

lemma look_merged:
  "in_order cs \<Longrightarrow> in_order ns \<Longrightarrow> look (merged cs ns) t = (case look ns t of Some s \<Rightarrow> Some s | None \<Rightarrow> look cs t)"
proof (induction cs ns rule: merged.induct)
  case (3 c cs n ns)
  note t = in_order_tail(1)[OF 3(4)] in_order_tail(1)[OF 3(5)]
  consider "rs_time n < rs_time c" | "rs_time n = rs_time c" | "rs_time c < rs_time n" by linarith
  then show ?case
  proof cases
    case 1
    then show ?thesis using 3(1)[OF 1 3(4) t(2)] by simp
  next
    case 2
    then show ?thesis using 3(2)[OF _ 2 t] by (simp split: option.split)
  next
    case c: 3
    have "t = rs_time c \<Longrightarrow> look (n # ns) t = None" using c look_before[OF 3(5), of t] by simp
    then show ?thesis using c 3(3)[OF _ _ t(1) 3(5)] by (auto split: option.split)
  qed
qed (simp_all split: option.split)

lemma merged_Nil [simp]: "merged cs [] = cs"
  by (cases cs) simp_all

lemma merged_disjoint: "(\<forall>c\<in>set cs. rs_time c < rs_time n) \<Longrightarrow> merged cs (n # ns) = cs @ n # ns"
  by (induction cs) simp_all

lemma in_order_last: "in_order cs \<Longrightarrow> c \<in> set cs \<Longrightarrow> rs_time c \<le> rs_time (last cs)"
  by (induction cs rule: rev_induct) (auto simp: in_order_append)

lemma compressed_append_represents:
  assumes "represents c L" and "in_order L" and "in_order ss" and "\<forall>s\<in>set ss. valid_sample s"
  shows "represents (compressed_append ss c) (merged L ss)"
proof (cases ss)
  case Nil
  then show ?thesis using assms(1) by (simp add: compressed_append_def)
next
  case (Cons n ns)
  have d: "decode_all c = L" using assms(1) by (rule decode_represents)
  have v: "\<forall>s\<in>set L \<union> set ss. valid_sample s" using assms(1,4) by (auto simp: represents_def)
  have c: "cs_count c = length L" "L \<noteq> [] \<Longrightarrow> cs_last c = rs_time (last L)" using assms(1) by (simp_all add: represents_def)
  show ?thesis
  proof (cases "L \<noteq> [] \<and> rs_time n \<le> rs_time (last L)")
    case True
    then have "compressed_append ss c = merge_samples L ss empty_compressed"
      using c d Cons by (simp add: compressed_append_def)
    then show ?thesis using merge_samples_represents[OF represents_empty v] by simp
  next
    case False
    then have "compressed_append ss c = append_all ss c" using c Cons by (auto simp: compressed_append_def)
    moreover have "merged L ss = L @ ss"
    proof (cases "L = []")
      case False
      then have "rs_time (last L) < rs_time n" using \<open>\<not> (L \<noteq> [] \<and> _)\<close> by simp
      then have "\<forall>c\<in>set L. rs_time c < rs_time n" using in_order_last[OF assms(2)] by fastforce
      then show ?thesis using Cons by (simp add: merged_disjoint)
    qed simp
    ultimately show ?thesis using represents_append_all[OF assms(1,4)] by simp
  qed
qed

lemma prune_compressed_represents:
  assumes "represents c L" and "in_order L"
  shows "represents (fst (prune_compressed b c)) (filter (\<lambda>s. \<not> rs_time s < b) L) \<and>
    snd (prune_compressed b c) = length (filter (\<lambda>s. rs_time s < b) L)"
proof (cases L)
  case Nil
  then show ?thesis using assms(1) by (simp add: prune_compressed_def represents_def)
next
  case (Cons s L')
  have d: "decode_all c = L" using assms(1) by (rule decode_represents)
  have c: "cs_count c \<noteq> 0" "first_stamp c = rs_time s" "cs_last c = rs_time (last L)" "cs_count c = length L"
    using assms(1) first_stamp_represents[of c s L'] Cons by (simp_all add: represents_def)
  have bounds: "rs_time s \<le> rs_time d \<and> rs_time d \<le> rs_time (last L)" if "d \<in> set L" for d
    using that assms(2) in_order_last[OF assms(2) that] Cons in_order_tail(2)[of s L' d] by fastforce
  consider "b \<le> rs_time s" | "rs_time (last L) < b" | "\<not> b \<le> rs_time s" "\<not> rs_time (last L) < b" by linarith
  then show ?thesis
  proof cases
    case 1
    then have keep: "\<forall>d\<in>set L. \<not> rs_time d < b" using bounds by fastforce
    then have "filter (\<lambda>s. \<not> rs_time s < b) L = L" "filter (\<lambda>s. rs_time s < b) L = []"
      by (simp_all add: filter_empty_conv)
    then show ?thesis using 1 c assms(1) by (simp add: prune_compressed_def)
  next
    case 2
    then have "\<forall>d\<in>set L. rs_time d < b" using bounds by fastforce
    then have "filter (\<lambda>s. \<not> rs_time s < b) L = []" "filter (\<lambda>s. rs_time s < b) L = L"
      by (simp_all add: filter_empty_conv)
    moreover have "rs_time s < b" using 2 bounds[of s] Cons by simp
    ultimately show ?thesis using 2 c by (simp add: prune_compressed_def)
  next
    case 3
    have "represents (append_all (filter (\<lambda>s. \<not> rs_time s < b) L) empty_compressed) ([] @ filter (\<lambda>s. \<not> rs_time s < b) L)"
      by (rule represents_append_all[OF represents_empty]) (use assms(1) in \<open>auto simp: represents_def\<close>)
    then show ?thesis using 3 c d by (simp add: prune_compressed_def)
  qed
qed

section \<open>What a series stands for\<close>

definition all_samples :: "raw_series \<Rightarrow> raw_sample list" where
  "all_samples se = decode_all (se_compressed se) @ se_samples se"

definition labels_wf :: "raw_series \<Rightarrow> bool" where
  "labels_wf se \<longleftrightarrow> length (se_jsons se) = length (se_hashes se) \<and> distinct (se_hashes se) \<and>
     (\<forall>h i. se_ids se h = Some i \<longleftrightarrow> i < length (se_hashes se) \<and> se_hashes se ! i = h)"

definition series_wf :: "int \<Rightarrow> raw_series \<Rightarrow> bool" where
  "series_wf lim se \<longleftrightarrow> represents (se_compressed se) (decode_all (se_compressed se)) \<and> in_order (all_samples se) \<and>
     (\<forall>s\<in>set (decode_all (se_compressed se)). rs_time s < lim) \<and> (\<forall>s\<in>set (se_samples se). lim \<le> rs_time s) \<and>
     (\<forall>s\<in>set (all_samples se). valid_sample s \<and> rs_label s < length (se_hashes se)) \<and> labels_wf se"

definition series_view :: "raw_series \<Rightarrow> int \<Rightarrow> (64 word \<times> go_string) option" where
  "series_view se t = map_option (\<lambda>s. (rs_value s, se_hashes se ! rs_label s)) (look (all_samples se) t)"

lemma series_wfI:
  assumes "represents (se_compressed se) L" and "in_order (L @ se_samples se)"
    and "\<forall>s\<in>set L. rs_time s < lim" and "\<forall>s\<in>set (se_samples se). lim \<le> rs_time s"
    and "\<forall>s\<in>set (L @ se_samples se). valid_sample s \<and> rs_label s < length (se_hashes se)" and "labels_wf se"
  shows "series_wf lim se" and "all_samples se = L @ se_samples se"
  using assms decode_represents[OF assms(1)] by (simp_all add: series_wf_def all_samples_def)

lemma series_wfD:
  assumes "series_wf lim se"
  obtains L where "represents (se_compressed se) L" "in_order (L @ se_samples se)" "in_order L" "in_order (se_samples se)"
    "\<forall>s\<in>set L. rs_time s < lim" "\<forall>s\<in>set (se_samples se). lim \<le> rs_time s"
    "\<forall>s\<in>set (L @ se_samples se). valid_sample s \<and> rs_label s < length (se_hashes se)" "labels_wf se"
    "all_samples se = L @ se_samples se" "decode_all (se_compressed se) = L"
  using assms that[of "decode_all (se_compressed se)"] by (simp add: series_wf_def all_samples_def in_order_append)

text \<open>Encoding the older samples changes nothing a series stands for.\<close>

lemma compress_series_wf:
  assumes "series_wf lim se" and "lim \<le> lim'"
  shows "series_wf lim' (compress_series lim' se)" and "all_samples (compress_series lim' se) = all_samples se"
    and "se_hashes (compress_series lim' se) = se_hashes se"
proof -
  obtain L where L: "represents (se_compressed se) L" "in_order (L @ se_samples se)" "in_order L" "in_order (se_samples se)"
      "\<forall>s\<in>set L. rs_time s < lim" "\<forall>s\<in>set (se_samples se). lim \<le> rs_time s"
      "\<forall>s\<in>set (L @ se_samples se). valid_sample s \<and> rs_label s < length (se_hashes se)" "labels_wf se"
      "all_samples se = L @ se_samples se"
    using assms(1) by (rule series_wfD)
  let ?i = "search_time lim' (se_samples se)"
  note split = search_split[OF L(4), of lim']
  let ?old = "take ?i (se_samples se)" and ?new = "drop ?i (se_samples se)"
  define se' where "se' = se\<lparr>se_compressed := compressed_append ?old (se_compressed se), se_samples := ?new\<rparr>"
  have eq: "compress_series lim' se = se'"
    by (auto simp: compress_series_def Let_def se'_def compressed_append_def)
  have old: "in_order ?old" "\<forall>s\<in>set ?old. valid_sample s" "\<forall>s\<in>set ?old. rs_time s < lim'" "\<forall>s\<in>set ?new. lim' \<le> rs_time s"
    using L(4,7) by (auto simp: split in_order_filter)
  have "represents (se_compressed se') (merged L ?old)"
    using compressed_append_represents[OF L(1,3) old(1,2)] by (simp add: se'_def)
  moreover have "merged L ?old = L @ ?old"
  proof (cases ?old)
    case (Cons n ns)
    then have "n \<in> set (se_samples se)" by (metis list.set_intros(1) in_set_takeD)
    then have "\<forall>c\<in>set L. rs_time c < rs_time n" using L(2) by (simp add: in_order_append)
    then show ?thesis using Cons by (simp add: merged_disjoint)
  next
    case Nil
    then show ?thesis by (simp only: merged_Nil append_Nil2)
  qed
  ultimately have r: "represents (se_compressed se') (L @ ?old)" by simp
  have all: "(L @ ?old) @ se_samples se' = L @ se_samples se" by (simp add: se'_def)
  have early: "\<forall>s\<in>set (L @ ?old). rs_time s < lim'" using L(5) old(3) assms(2) by auto
  have lab: "labels_wf se'" using L(8) by (simp add: labels_wf_def se'_def)
  have "series_wf lim' se' \<and> all_samples se' = L @ se_samples se"
    using series_wfI[OF r, unfolded all, OF L(2) early _ _ lab] old(4) L(7) by (simp add: se'_def)
  then show "series_wf lim' (compress_series lim' se)" "all_samples (compress_series lim' se) = all_samples se"
    by (simp_all add: eq L(9))
  show "se_hashes (compress_series lim' se) = se_hashes se" by (simp add: eq se'_def)
qed

text \<open>Only the label sets in use stay, and every sample keeps its own.\<close>

lemma filter_index: "P i \<Longrightarrow> i < n \<Longrightarrow> filter P [0..<n] ! length (filter P [0..<i]) = i \<and> length (filter P [0..<i]) < length (filter P [0..<n])"
proof -
  assume "P i" "i < n"
  then have "[0..<n] = [0..<i] @ i # [Suc i..<n]"
    by (metis upt_add_eq_append upt_conv_Cons le_add_diff_inverse less_imp_le zero_le)
  then have "filter P [0..<n] = filter P [0..<i] @ i # filter P [Suc i..<n]" using \<open>P i\<close> by simp
  then show ?thesis by simp
qed

lemma look_relabel: "look (map (relabel f) ss) t = map_option (relabel f) (look ss t)"
  by (induction ss) (simp_all add: relabel_def)

lemma in_order_relabel: "in_order (map (relabel f) ss) = in_order ss"
  by (simp add: in_order_def sorted_wrt_map relabel_def)

lemma compact_labels_wf:
  assumes "series_wf lim se"
  shows "series_wf lim (compact_labels se)" and "series_view (compact_labels se) = series_view se"
proof -
  obtain L where L: "represents (se_compressed se) L" "in_order (L @ se_samples se)" "in_order L" "in_order (se_samples se)"
      "\<forall>s\<in>set L. rs_time s < lim" "\<forall>s\<in>set (se_samples se). lim \<le> rs_time s"
      "\<forall>s\<in>set (L @ se_samples se). valid_sample s \<and> rs_label s < length (se_hashes se)" "labels_wf se"
      "all_samples se = L @ se_samples se" "decode_all (se_compressed se) = L"
    using assms by (rule series_wfD)
  define n where "n = length (se_hashes se)"
  define used where "used = map (\<lambda>i. i \<in> set (map rs_label L @ map rs_label (se_samples se))) [0..<n]"
  define kept where "kept = filter (\<lambda>i. used ! i) [0..<n]"
  define remap where "remap = (\<lambda>i. length (filter (\<lambda>j. used ! j) [0..<i]))"
  define hashes where "hashes = map (\<lambda>i. se_hashes se ! i) kept"
  define se' where "se' = se\<lparr>se_compressed := append_all (map (relabel remap) L) empty_compressed,
      se_samples := map (relabel remap) (se_samples se), se_hashes := hashes, se_jsons := map (\<lambda>i. se_jsons se ! i) kept,
      se_ids := map_of (zip hashes [0..<length hashes])\<rparr>"
  have eq: "compact_labels se = (if n \<le> 1 \<or> length kept = length used then se else se')"
    unfolding compact_labels_def Let_def L(10) n_def[symmetric] used_def[symmetric] kept_def[symmetric]
      remap_def[symmetric] hashes_def[symmetric] se'_def by simp
  have keep: "hashes ! remap (rs_label s) = se_hashes se ! rs_label s \<and> remap (rs_label s) < length hashes \<and>
      valid_sample (relabel remap s)" if "s \<in> set (L @ se_samples se)" for s
  proof -
    have i: "rs_label s < n" "valid_sample s" using L(7) that by (auto simp: n_def)
    then have "used ! rs_label s" using that by (auto simp: used_def)
    from filter_index[of "\<lambda>i. used ! i", OF this i(1)]
    have k: "kept ! remap (rs_label s) = rs_label s" "remap (rs_label s) < length kept" by (simp_all add: kept_def remap_def)
    have "remap (rs_label s) \<le> rs_label s" unfolding remap_def using length_filter_le[of _ "[0..<rs_label s]"] by simp
    then show ?thesis using i k by (simp add: hashes_def valid_sample_def relabel_def)
  qed
  have jl: "length (se_jsons se') = length hashes" by (simp add: se'_def hashes_def)
  have dist: "distinct hashes"
    using L(8) by (auto simp: hashes_def kept_def distinct_map labels_wf_def n_def inj_on_def nth_eq_iff_index_eq)
  have ids: "(se_ids se' h = Some i) = (i < length hashes \<and> hashes ! i = h)" for h i
  proof -
    have "map_of (zip hashes [0..<length hashes]) h = Some i \<longleftrightarrow> (h, i) \<in> set (zip hashes [0..<length hashes])"
      using dist by (simp add: map_of_eq_Some_iff)
    then show ?thesis by (auto simp: se'_def in_set_zip)
  qed
  have lab: "labels_wf se'" using jl dist ids by (simp add: labels_wf_def) (simp add: se'_def)
  have "represents (append_all (map (relabel remap) L) empty_compressed) ([] @ map (relabel remap) L)"
    by (rule represents_append_all[OF represents_empty]) (use keep in auto)
  then have r: "represents (se_compressed se') (map (relabel remap) L)" by (simp add: se'_def)
  have all: "map (relabel remap) L @ se_samples se' = map (relabel remap) (L @ se_samples se)" by (simp add: se'_def)
  have o: "in_order (map (relabel remap) (L @ se_samples se))" using L(2) by (simp only: in_order_relabel)
  have times: "\<forall>s\<in>set (map (relabel remap) L). rs_time s < lim" "\<forall>s\<in>set (se_samples se'). lim \<le> rs_time s"
    using L(5,6) by (auto simp: relabel_def se'_def)
  have vals: "\<forall>s\<in>set (map (relabel remap) (L @ se_samples se)). valid_sample s \<and> rs_label s < length (se_hashes se')"
    using keep by (auto simp: se'_def relabel_def)
  note wf' = series_wfI[OF r, unfolded all, OF o times vals lab]
  have "series_view se' t = series_view se t" for t
  proof (cases "look (L @ se_samples se) t")
    case (Some s)
    then have "s \<in> set (L @ se_samples se)" using look_Some by blast
    then have k: "hashes ! remap (rs_label s) = se_hashes se ! rs_label s" using keep by blast
    have "look (all_samples se') t = Some (relabel remap s)" by (simp only: wf'(2) look_relabel Some option.map)
    then show ?thesis using Some k by (simp add: series_view_def L(9)) (simp add: se'_def relabel_def)
  next
    case None
    have "look (all_samples se') t = None" by (simp only: wf'(2) look_relabel None option.map)
    then show ?thesis using None by (simp add: series_view_def L(9))
  qed
  then have "series_view se' = series_view se" by (rule ext)
  then show "series_wf lim (compact_labels se)" "series_view (compact_labels se) = series_view se"
    using wf'(1) assms by (simp_all add: eq)
qed

text \<open>Pruning keeps exactly what is not older; a series with nothing left is dropped.\<close>

lemma prune_series_wf:
  assumes "series_wf lim se"
  shows "(case fst (prune_series b se) of
     None \<Rightarrow> \<forall>t. \<not> t < b \<longrightarrow> series_view se t = None
   | Some se' \<Rightarrow> series_wf lim se' \<and> (\<forall>t. series_view se' t = (if t < b then None else series_view se t)))"
proof -
  obtain L where L: "represents (se_compressed se) L" "in_order (L @ se_samples se)" "in_order L" "in_order (se_samples se)"
      "\<forall>s\<in>set L. rs_time s < lim" "\<forall>s\<in>set (se_samples se). lim \<le> rs_time s"
      "\<forall>s\<in>set (L @ se_samples se). valid_sample s \<and> rs_label s < length (se_hashes se)" "labels_wf se"
      "all_samples se = L @ se_samples se"
    using assms by (rule series_wfD)
  obtain c gone where p: "prune_compressed b (se_compressed se) = (c, gone)" by fastforce
  let ?K = "filter (\<lambda>s. \<not> rs_time s < b) L" and ?D = "drop (search_time b (se_samples se)) (se_samples se)"
  have rc: "represents c ?K" using prune_compressed_represents[OF L(1,3), of b] p by simp
  have D: "?D = filter (\<lambda>s. \<not> rs_time s < b) (se_samples se)" by (rule search_split(2)[OF L(4)])
  have all: "?K @ ?D = filter (\<lambda>s. \<not> rs_time s < b) (L @ se_samples se)" by (simp add: D)
  define se1 where "se1 = se\<lparr>se_compressed := c, se_samples := ?D\<rparr>"
  have r1: "represents (se_compressed se1) ?K" using rc by (simp add: se1_def)
  have s1: "?K @ se_samples se1 = filter (\<lambda>s. \<not> rs_time s < b) (L @ se_samples se)" by (simp add: se1_def all)
  have lab: "labels_wf se1" using L(8) by (simp add: se1_def labels_wf_def)
  have wf1: "series_wf lim se1" "all_samples se1 = filter (\<lambda>s. \<not> rs_time s < b) (L @ se_samples se)"
    using series_wfI[OF r1, unfolded s1, OF in_order_filter[OF L(2)] _ _ _ lab, of lim] L(5-7)
    by (auto simp: se1_def D)
  have view: "series_view se1 t = (if t < b then None else series_view se t)" for t
    using look_filter[of "\<lambda>x. \<not> x < b" "L @ se_samples se" t]
    by (simp add: series_view_def wf1(2) L(9) del: filter_append) (simp add: se1_def)
  show ?thesis
  proof (cases "cs_count c = 0 \<and> ?D = []")
    case True
    then have "?K = []" using rc by (simp add: represents_def)
    then have "?K @ ?D = []" using True by simp
    then have "all_samples se1 = []" by (simp only: wf1(2) all[symmetric])
    then have none: "series_view se1 t = None" for t by (simp add: series_view_def)
    have "series_view se t = None" if "\<not> t < b" for t using view[of t] none[of t] that by simp
    then show ?thesis using True p by (simp add: prune_series_def)
  next
    case False
    have "fst (prune_series b se) = Some (if gone > 0 \<or> search_time b (se_samples se) > 0 then compact_labels se1 else se1)"
      using False p by (auto simp: prune_series_def se1_def Let_def)
    then show ?thesis using wf1(1) view compact_labels_wf[OF wf1(1)] by simp
  qed
qed

section \<open>Writing points\<close>

text \<open>The series of a point, created if need be, with an identifier for its labels.\<close>

definition valid_point :: "prepared_point \<Rightarrow> bool" where
  "valid_point p \<longleftrightarrow> in_int64 (pp_time p)"

lemma labels_wf_new:
  assumes "labels_wf se" and "se_ids se h = None"
  shows "labels_wf (se\<lparr>se_ids := (se_ids se)(h \<mapsto> length (se_jsons se)), se_hashes := se_hashes se @ [h],
      se_jsons := se_jsons se @ [j]\<rparr>)"
proof -
  have "se_hashes se ! i \<noteq> h" if "i < length (se_hashes se)" for i
    using assms that unfolding labels_wf_def by (metis option.distinct(1))
  then have "h \<notin> set (se_hashes se)" by (auto simp: in_set_conv_nth)
  then show ?thesis using assms by (auto simp: labels_wf_def nth_append)
qed

lemma series_for_wf:
  assumes "\<And>se. st (pp_key p) = Some se \<Longrightarrow> series_wf lim se \<and> length (se_hashes se) < 2 ^ 32"
    and f: "series_for p st = (se, label)"
  shows "series_wf lim se" and "label < length (se_hashes se)" and "se_hashes se ! label = pp_labels_hash p"
    and "label < 2 ^ 32" and "length (se_hashes se) \<le> (case st (pp_key p) of Some s \<Rightarrow> length (se_hashes s) | None \<Rightarrow> 0) + 1"
    and "series_view se = (case st (pp_key p) of Some s \<Rightarrow> series_view s | None \<Rightarrow> (\<lambda>_. None))"
proof -
  define s0 where "s0 = (case st (pp_key p) of Some s \<Rightarrow> s
      | None \<Rightarrow> \<lparr>se_tags = pp_tags p, se_ids = (\<lambda>_. None), se_hashes = [], se_jsons = [], se_samples = [], se_compressed = empty_compressed\<rparr>)"
  have r0: "represents empty_compressed []" by simp
  have wf0: "series_wf lim s0 \<and> length (se_hashes s0) < 2 ^ 32"
  proof (cases "st (pp_key p)")
    case None
    then show ?thesis
      using series_wfI(1)[of s0 "[]" lim] r0 by (simp add: s0_def labels_wf_def in_order_def)
  qed (use assms(1) in \<open>simp add: s0_def\<close>)
  have len0: "(case st (pp_key p) of Some s \<Rightarrow> length (se_hashes s) | None \<Rightarrow> 0) = length (se_hashes s0)"
    and view0: "(case st (pp_key p) of Some s \<Rightarrow> series_view s | None \<Rightarrow> (\<lambda>_. None)) = series_view s0"
    using decode_represents[OF r0]
    by (auto simp: s0_def series_view_def all_samples_def split: option.split)
  obtain L where L: "represents (se_compressed s0) L" "in_order (L @ se_samples s0)" "in_order L" "in_order (se_samples s0)"
      "\<forall>s\<in>set L. rs_time s < lim" "\<forall>s\<in>set (se_samples s0). lim \<le> rs_time s"
      "\<forall>s\<in>set (L @ se_samples s0). valid_sample s \<and> rs_label s < length (se_hashes s0)" "labels_wf s0"
      "all_samples s0 = L @ se_samples s0"
    using conjunct1[OF wf0] by (rule series_wfD)
  have "series_wf lim se \<and> label < length (se_hashes se) \<and> se_hashes se ! label = pp_labels_hash p \<and> label < 2 ^ 32 \<and>
      length (se_hashes se) \<le> length (se_hashes s0) + 1 \<and> series_view se = series_view s0"
  proof (cases "se_ids s0 (pp_labels_hash p)")
    case (Some i)
    then have "se = s0" "label = i" using f by (simp_all add: series_for_def s0_def[symmetric])
    then show ?thesis using Some wf0 L(8) by (auto simp: labels_wf_def)
  next
    case None
    have len: "length (se_jsons s0) = length (se_hashes s0)" using L(8) by (simp add: labels_wf_def)
    have se: "se = s0\<lparr>se_ids := (se_ids s0)(pp_labels_hash p \<mapsto> length (se_jsons s0)),
        se_hashes := se_hashes s0 @ [pp_labels_hash p], se_jsons := se_jsons s0 @ [pp_labels p]\<rparr>"
      and lb: "label = length (se_jsons s0)"
      using f None by (auto simp: series_for_def s0_def[symmetric])
    have "\<forall>s\<in>set (L @ se_samples s0). valid_sample s \<and> rs_label s < length (se_hashes s0) + 1" using L(7) by fastforce
    then have r: "represents (se_compressed se) L" "in_order (L @ se_samples se)" "\<forall>s\<in>set (se_samples se). lim \<le> rs_time s"
        "\<forall>s\<in>set (L @ se_samples se). valid_sample s \<and> rs_label s < length (se_hashes se)" "labels_wf se"
      using L(1,2,6) labels_wf_new[OF L(8) None] by (simp_all add: se)
    note wf = series_wfI[OF r(1,2) L(5) r(3-5)]
    have all: "all_samples se = L @ se_samples s0" using wf(2) by (simp add: se)
    have hs: "se_hashes se = se_hashes s0 @ [pp_labels_hash p]" by (simp add: se)
    have "series_view se t = series_view s0 t" for t
    proof (cases "look (L @ se_samples s0) t")
      case (Some s)
      then have "rs_label s < length (se_hashes s0)" using look_Some[OF Some] L(7) by blast
      then show ?thesis using Some by (simp add: series_view_def all L(9) hs nth_append)
    qed (simp add: series_view_def all L(9))
    then show ?thesis using wf(1) wf0 len by (auto simp: se lb)
  qed
  then show "series_wf lim se" "label < length (se_hashes se)" "se_hashes se ! label = pp_labels_hash p" "label < 2 ^ 32"
    "length (se_hashes se) \<le> (case st (pp_key p) of Some s \<Rightarrow> length (se_hashes s) | None \<Rightarrow> 0) + 1"
    "series_view se = (case st (pp_key p) of Some s \<Rightarrow> series_view s | None \<Rightarrow> (\<lambda>_. None))"
    by (simp_all add: len0 view0)
qed

lemma place_direct_put:
  assumes o: "in_order (se_samples se)"
  shows "place_direct s se = (se\<lparr>se_samples := put_sample s (se_samples se)\<rparr>, look (se_samples se) (rs_time s))"
proof -
  let ?ss = "se_samples se" and ?i = "search_time (rs_time s) (se_samples se)"
  note split = search_split[OF o, of "rs_time s"]
  have od: "in_order (drop ?i ?ss)" using o by (simp add: split in_order_filter)
  show ?thesis
  proof (cases "?i < length ?ss \<and> rs_time (?ss ! ?i) = rs_time s")
    case True
    then have d: "drop ?i ?ss = ?ss ! ?i # drop (Suc ?i) ?ss" by (simp add: Cons_nth_drop_Suc)
    have later: "\<forall>c\<in>set (drop (Suc ?i) ?ss). rs_time s < rs_time c"
      using in_order_tail(2)[OF od[unfolded d]] True by simp
    have "filter (\<lambda>c. rs_time s < rs_time c) ?ss = filter (\<lambda>c. rs_time s < rs_time c) (filter (\<lambda>c. \<not> rs_time c < rs_time s) ?ss)"
      by (simp add: conj_commute) (rule filter_cong; auto)
    also have "\<dots> = drop (Suc ?i) ?ss"
      using later True by (simp add: split(2)[symmetric] d)
    finally have "put_sample s ?ss = ?ss[?i := s]"
      using True split(1) by (simp add: put_sample_def upd_conv_take_nth_drop)
    moreover have "look ?ss (rs_time s) = Some (?ss ! ?i)" using True look_in[OF o, of "?ss ! ?i"] by simp
    ultimately show ?thesis using True by (simp add: place_direct_def Let_def)
  next
    case False
    have none: "rs_time c \<noteq> rs_time s" if c: "c \<in> set ?ss" for c
    proof
      assume e: "rs_time c = rs_time s"
      then have "c \<in> set (drop ?i ?ss)" using c by (simp add: split)
      then obtain d ds where d: "drop ?i ?ss = d # ds" by (cases "drop ?i ?ss") auto
      then have i: "?i < length ?ss" "?ss ! ?i = d" by (simp_all add: nth_via_drop) (metis drop_all list.distinct(1) not_le)
      have "\<not> rs_time d < rs_time s" using split(2) d by (metis (mono_tags, lifting) list.set_intros(1) mem_Collect_eq set_filter)
      moreover have "rs_time d \<le> rs_time c" using od \<open>c \<in> set (drop ?i ?ss)\<close> in_order_tail(2)[of d ds c] by (auto simp: d)
      ultimately show False using False i e by simp
    qed
    then have "filter (\<lambda>c. rs_time s < rs_time c) ?ss = drop ?i ?ss"
      unfolding split(2) by (intro filter_cong) (auto simp: linorder_neq_iff)
    then have "put_sample s ?ss = take ?i ?ss @ s # drop ?i ?ss" by (simp add: put_sample_def split(1))
    moreover have "look ?ss (rs_time s) = None" using none by (simp add: look_None)
    ultimately show ?thesis using False by (auto simp: place_direct_def Let_def)
  qed
qed

lemma look_put: "in_order ss \<Longrightarrow> look (put_sample s ss) t = (if t = rs_time s then Some s else look ss t)"
  by (rule put_sample_props(2))

lemma place_sample_wf:
  assumes "series_wf lim se" and "valid_sample s" and "rs_label s < length (se_hashes se)"
    and "place_sample (rs_time s < lim) s se = (se1, old)"
  shows "series_wf lim se1" and "se_hashes se1 = se_hashes se"
    and "map_option (\<lambda>o'. (rs_value o', se_hashes se ! rs_label o')) old = series_view se (rs_time s)"
    and "series_view se1 = (series_view se)(rs_time s \<mapsto> (rs_value s, se_hashes se ! rs_label s))"
proof -
  obtain L where L: "represents (se_compressed se) L" "in_order (L @ se_samples se)" "in_order L" "in_order (se_samples se)"
      "\<forall>s\<in>set L. rs_time s < lim" "\<forall>s\<in>set (se_samples se). lim \<le> rs_time s"
      "\<forall>s\<in>set (L @ se_samples se). valid_sample s \<and> rs_label s < length (se_hashes se)" "labels_wf se"
      "all_samples se = L @ se_samples se"
    using assms(1) by (rule series_wfD)
  have "series_wf lim se1 \<and> se_hashes se1 = se_hashes se \<and> old = look (all_samples se) (rs_time s) \<and>
      (\<forall>t. look (all_samples se1) t = (if t = rs_time s then Some s else look (all_samples se) t))"
  proof (cases "rs_time s < lim")
    case True
    obtain c where c: "replace_compressed s (se_compressed se) = (c, look L (rs_time s))" "represents c (put_sample s L)"
      using replace_compressed_represents[OF L(1) assms(2) L(3)] by blast
    then have se1: "se1 = se\<lparr>se_compressed := c\<rparr>" "old = look L (rs_time s)"
      using assms(4) True by (auto simp: place_sample_def)
    note p = put_sample_props[OF L(3), of s]
    have "in_order (put_sample s L @ se_samples se)" using p L True by (auto simp: in_order_append)
    moreover have "\<forall>d\<in>set (put_sample s L). rs_time d < lim" using p(3) L(5) True by auto
    moreover have "\<forall>d\<in>set (put_sample s L @ se_samples se). valid_sample d \<and> rs_label d < length (se_hashes se)"
      using p(3) L(7) assms(2,3) by auto
    moreover have "labels_wf se1" using L(8) by (simp add: se1 labels_wf_def)
    ultimately have wf: "series_wf lim se1" "all_samples se1 = put_sample s L @ se_samples se1"
      using series_wfI[of se1 "put_sample s L" lim] c(2) L(6) by (simp_all add: se1)
    have "look (se_samples se) (rs_time s) = None" using L(6) True by (force simp: look_None)
    then show ?thesis
      using wf p(2) by (auto simp: se1 L(9) look_append split: option.splits)
  next
    case False
    then have se1: "se1 = se\<lparr>se_samples := put_sample s (se_samples se)\<rparr>" "old = look (se_samples se) (rs_time s)"
      using assms(4) place_direct_put[OF L(4), of s] by (simp_all add: place_sample_def)
    note p = put_sample_props[OF L(4), of s]
    have "in_order (L @ put_sample s (se_samples se))" using p L False by (auto simp: in_order_append)
    moreover have "\<forall>d\<in>set (put_sample s (se_samples se)). lim \<le> rs_time d" using p(3) L(6) False by auto
    moreover have "\<forall>d\<in>set (L @ put_sample s (se_samples se)). valid_sample d \<and> rs_label d < length (se_hashes se)"
      using p(3) L(7) assms(2,3) by auto
    moreover have "labels_wf se1" using L(8) by (simp add: se1 labels_wf_def)
    ultimately have wf: "series_wf lim se1" "all_samples se1 = L @ se_samples se1"
      using series_wfI[of se1 L lim] L(1,5) by (simp_all add: se1)
    have "look L (rs_time s) = None" using L(5) False by (force simp: look_None)
    then show ?thesis
      using wf p(2) by (auto simp: se1 L(9) look_append split: option.splits)
  qed
  then show "series_wf lim se1" "se_hashes se1 = se_hashes se"
    "map_option (\<lambda>o'. (rs_value o', se_hashes se ! rs_label o')) old = series_view se (rs_time s)"
    "series_view se1 = (series_view se)(rs_time s \<mapsto> (rs_value s, se_hashes se ! rs_label s))"
    by (auto simp: series_view_def fun_eq_iff)
qed

definition store_wf :: "int \<Rightarrow> nat \<Rightarrow> raw_store \<Rightarrow> bool" where
  "store_wf lim n st \<longleftrightarrow> (\<forall>k se. st k = Some se \<longrightarrow> series_wf lim se \<and> length (se_hashes se) \<le> n)"

definition store_view :: "raw_store \<Rightarrow> series_key \<Rightarrow> int \<Rightarrow> (64 word \<times> go_string) option" where
  "store_view st k = (case st k of Some se \<Rightarrow> series_view se | None \<Rightarrow> (\<lambda>_. None))"

type_synonym raw_view = "series_key \<Rightarrow> int \<Rightarrow> (64 word \<times> go_string) option"

definition view_write :: "int \<Rightarrow> raw_view \<Rightarrow> prepared_point \<Rightarrow> raw_view" where
  "view_write raw_cut v p =
     (if pp_time p < raw_cut then v
      else v(pp_key p := (v (pp_key p))(pp_time p \<mapsto> (pp_value p, pp_labels_hash p))))"

lemma store_wfD: "store_wf lim n st \<Longrightarrow> st k = Some se \<Longrightarrow> series_wf lim se \<and> length (se_hashes se) \<le> n"
  unfolding store_wf_def by blast

lemma store_wfI:
  "(\<And>k se. st k = Some se \<Longrightarrow> series_wf lim se \<and> length (se_hashes se) \<le> n) \<Longrightarrow> store_wf lim n st"
  unfolding store_wf_def by blast

lemma store_wf_mono: "store_wf lim n st \<Longrightarrow> n \<le> m \<Longrightarrow> store_wf lim m st"
  using store_wfD by (intro store_wfI) fastforce

text \<open>
  The minutes a point marks to be summed up again: its own when it came late, and when it takes the place of a
  sample its own and that sample's, which may have other labels.
\<close>

definition view_mark :: "int \<Rightarrow> int \<Rightarrow> raw_view \<Rightarrow> prepared_point \<Rightarrow> hot_key list" where
  "view_mark lim rc v p =
     (if pp_time p < rc then []
      else case v (pp_key p) (pp_time p) of
          Some x \<Rightarrow> [mark_rebuild p (snd x), mark_rebuild p (pp_labels_hash p)]
        | None \<Rightarrow> if pp_time p < lim then [mark_rebuild p (pp_labels_hash p)] else [])"

fun view_marks :: "int \<Rightarrow> int \<Rightarrow> raw_view \<Rightarrow> prepared_point list \<Rightarrow> hot_key list" where
  "view_marks lim rc v [] = []"
| "view_marks lim rc v (p # ps) = view_mark lim rc v p @ view_marks lim rc (view_write rc v p) ps"

lemma write_point_wf:
  assumes "store_wf lim n (ws_raw ws)" and "n < 2 ^ 32" and "valid_point p"
  shows "store_wf lim (n + 1) (ws_raw (write_point lim rc ws p))"
    and "store_view (ws_raw (write_point lim rc ws p)) = view_write rc (store_view (ws_raw ws)) p"
    and "ws_rebuild (write_point lim rc ws p) = ws_rebuild ws @ view_mark lim rc (store_view (ws_raw ws)) p"
proof -
  let ?ws = "write_point lim rc ws p"
  have all: "store_wf lim (n + 1) (ws_raw ?ws) \<and> store_view (ws_raw ?ws) = view_write rc (store_view (ws_raw ws)) p \<and>
      ws_rebuild ?ws = ws_rebuild ws @ view_mark lim rc (store_view (ws_raw ws)) p"
  proof (cases "pp_time p < rc")
    case True
    then show ?thesis using store_wf_mono[OF assms(1), of "n + 1"] by (simp add: write_point_def view_write_def view_mark_def)
  next
    case False
    obtain se label where f: "series_for p (ws_raw ws) = (se, label)" by fastforce
    have old: "series_wf lim s \<and> length (se_hashes s) < 2 ^ 32" if "ws_raw ws (pp_key p) = Some s" for s
      using store_wfD[OF assms(1) that] assms(2) by simp
    note sf = series_for_wf[OF old f]
    have len: "length (se_hashes se) \<le> n + 1"
      using sf(5) store_wfD[OF assms(1), of "pp_key p"] by (auto split: option.splits)
    have view: "series_view se = store_view (ws_raw ws) (pp_key p)" using sf(6) by (simp add: store_view_def split: option.splits)
    let ?s = "\<lparr>rs_time = pp_time p, rs_value = pp_value p, rs_label = label\<rparr>"
    obtain se1 o1 where ps: "place_sample (pp_time p < lim) ?s se = (se1, o1)" by fastforce
    have vs: "valid_sample ?s" using assms(3) sf(4) by (simp add: valid_sample_def valid_point_def)
    note pl = place_sample_wf[OF sf(1) vs, simplified, OF sf(2) ps]
    let ?marks = "(case o1 of Some o' \<Rightarrow> [mark_rebuild p (se_hashes se ! rs_label o')] | None \<Rightarrow> []) @
        (if pp_time p < lim \<or> o1 \<noteq> None then [mark_rebuild p (pp_labels_hash p)] else [])"
    have run: "ws_raw ?ws = (ws_raw ws)(pp_key p \<mapsto> se1) \<and> ws_rebuild ?ws = ws_rebuild ws @ ?marks"
      using False f ps by (simp add: write_point_def)
    have "store_wf lim (n + 1) (ws_raw ?ws)"
      using run pl(1,2) len store_wfD[OF store_wf_mono[OF assms(1), of "n + 1"]]
      by (intro store_wfI) (auto split: if_splits)
    moreover have "store_view (ws_raw ?ws) = view_write rc (store_view (ws_raw ws)) p"
      using run False pl(4) view sf(3) by (auto simp: store_view_def view_write_def fun_eq_iff)
    moreover have "?marks = view_mark lim rc (store_view (ws_raw ws)) p"
      using False by (cases o1) (simp_all add: view_mark_def view[symmetric] pl(3)[symmetric])
    ultimately show ?thesis using run by auto
  qed
  then show "store_wf lim (n + 1) (ws_raw ?ws)" "store_view (ws_raw ?ws) = view_write rc (store_view (ws_raw ws)) p"
    "ws_rebuild ?ws = ws_rebuild ws @ view_mark lim rc (store_view (ws_raw ws)) p" by blast+
qed

lemma write_points_wf:
  assumes "store_wf lim n (ws_raw ws)" and "n + length points \<le> 2 ^ 32" and "\<forall>p\<in>set points. valid_point p"
  shows "store_wf lim (n + length points) (ws_raw (foldl (write_point lim rc) ws points)) \<and>
    store_view (ws_raw (foldl (write_point lim rc) ws points)) = foldl (view_write rc) (store_view (ws_raw ws)) points \<and>
    ws_rebuild (foldl (write_point lim rc) ws points) = ws_rebuild ws @ view_marks lim rc (store_view (ws_raw ws)) points"
  using assms
proof (induction points arbitrary: ws n)
  case (Cons p points)
  have w: "store_wf lim (n + 1) (ws_raw (write_point lim rc ws p))"
      "store_view (ws_raw (write_point lim rc ws p)) = view_write rc (store_view (ws_raw ws)) p"
      "ws_rebuild (write_point lim rc ws p) = ws_rebuild ws @ view_mark lim rc (store_view (ws_raw ws)) p"
    using write_point_wf[OF Cons.prems(1), of p rc] Cons.prems(2,3) by auto
  from Cons.IH[OF w(1)] Cons.prems(2,3) show ?case by (simp add: w(2,3) add.assoc)
qed simp

lemma compact_labels_length: "length (se_hashes (compact_labels se)) \<le> length (se_hashes se)"
proof -
  have "length (filter P [0..<n]) \<le> n" for P n using length_filter_le[of P "[0..<n]"] by simp
  then show ?thesis by (simp add: compact_labels_def Let_def)
qed

lemma prune_series_length: "fst (prune_series b se) = Some se' \<Longrightarrow> length (se_hashes se') \<le> length (se_hashes se)"
  using compact_labels_length[of "se\<lparr>se_compressed := fst (prune_compressed b (se_compressed se)),
      se_samples := drop (search_time b (se_samples se)) (se_samples se)\<rparr>"]
  by (auto simp: prune_series_def Let_def split: prod.splits if_splits)

lemma compress_store_wf:
  assumes "store_wf lim n st" and "lim \<le> lim'"
  shows "store_wf lim' n (compress_store lim' st)" and "store_view (compress_store lim' st) = store_view st"
proof -
  have "series_view (compress_series lim' se) = series_view se" if "st k = Some se" for k se
    using compress_series_wf[of lim se lim'] store_wfD[OF assms(1) that] assms(2) by (simp add: series_view_def fun_eq_iff)
  then show "store_view (compress_store lim' st) = store_view st"
    by (auto simp: store_view_def compress_store_def fun_eq_iff split: option.split)
  show "store_wf lim' n (compress_store lim' st)"
    using store_wfD[OF assms(1)] compress_series_wf[of lim _ lim'] assms(2)
    by (intro store_wfI) (auto simp: compress_store_def)
qed

lemma prune_store_wf:
  assumes "store_wf lim n st"
  shows "store_wf lim n (prune_store b st)"
    and "store_view (prune_store b st) = (\<lambda>k t. if t < b then None else store_view st k t)"
proof -
  note p = prune_series_wf[of lim _ b]
  show "store_wf lim n (prune_store b st)"
  proof -
    have "series_wf lim se' \<and> length (se_hashes se') \<le> n" if "prune_store b st k = Some se'" for k se'
    proof -
      obtain se where se: "st k = Some se" "fst (prune_series b se) = Some se'"
        using \<open>prune_store b st k = Some se'\<close> by (auto simp: prune_store_def split: option.splits)
      then show ?thesis
        using p[of se] prune_series_length[OF se(2)] store_wfD[OF assms se(1)] by simp
    qed
    then show ?thesis by (rule store_wfI)
  qed
  have "store_view (prune_store b st) k t = (if t < b then None else store_view st k t)" for k t
  proof (cases "st k")
    case (Some se)
    then have "series_wf lim se" using store_wfD[OF assms] by blast
    from p[OF this] show ?thesis
      using Some by (cases "fst (prune_series b se)") (auto simp: store_view_def prune_store_def)
  qed (simp add: store_view_def prune_store_def)
  then show "store_view (prune_store b st) = (\<lambda>k t. if t < b then None else store_view st k t)" by blast
qed

lemma compact_store_wf:
  assumes "store_wf lim n st"
  shows "store_wf lim n (compact_store ks st)" and "store_view (compact_store ks st) = store_view st"
proof -
  have c: "series_wf lim (compact_labels se) \<and> series_view (compact_labels se) = series_view se \<and>
      length (se_hashes (compact_labels se)) \<le> n" if "st k = Some se" for k se
    using compact_labels_wf[of lim se] compact_labels_length[of se] store_wfD[OF assms that] by simp
  then show "store_wf lim n (compact_store ks st)"
    using store_wfD[OF assms] by (intro store_wfI) (auto simp: compact_store_def split: if_splits)
  show "store_view (compact_store ks st) = store_view st"
    using c by (auto simp: store_view_def compact_store_def fun_eq_iff split: option.split)
qed

lemma write_raw_at:
  assumes "store_wf lim n st" and "lim \<le> now - direct_retention_ms" and "n + length points \<le> 2 ^ 32"
    and "\<forall>p\<in>set points. valid_point p" and "write_raw_points_at points now st = (st', rebuild)"
  defines "v \<equiv> \<lambda>k t. if t < raw_cutoff now then None else store_view st k t"
  shows "store_wf (now - direct_retention_ms) (n + length points) st'"
    and "store_view st' = foldl (view_write (raw_cutoff now)) v points"
    and "rebuild = view_marks (now - direct_retention_ms) (raw_cutoff now) v points"
proof -
  let ?lim = "now - direct_retention_ms" and ?rc = "raw_cutoff now"
  let ?st1 = "prune_store ?rc (compress_store ?lim st)"
  let ?ws = "foldl (write_point ?lim ?rc) \<lparr>ws_raw = ?st1, ws_rebuild = [], ws_dirty = []\<rparr> points"
  have st': "st' = compact_store (ws_dirty ?ws) (ws_raw ?ws)" "rebuild = ws_rebuild ?ws"
    using assms(5) by (simp_all add: write_raw_points_at_def Let_def)
  note c = compress_store_wf[OF assms(1,2)]
  note p = prune_store_wf[OF c(1), of ?rc]
  have p1: "store_wf ?lim n (ws_raw \<lparr>ws_raw = ?st1, ws_rebuild = [], ws_dirty = []\<rparr>)" using p(1) by simp
  have v: "store_view ?st1 = v" by (simp only: p(2) c(2) v_def)
  have w: "store_wf ?lim (n + length points) (ws_raw ?ws)"
    "store_view (ws_raw ?ws) = foldl (view_write ?rc) v points" "ws_rebuild ?ws = view_marks ?lim ?rc v points"
    using write_points_wf[OF p1 assms(3,4), of ?rc] by (auto simp: v)
  note d = compact_store_wf[OF w(1), of "ws_dirty ?ws"]
  show "store_wf ?lim (n + length points) st'" "store_view st' = foldl (view_write ?rc) v points" "rebuild = view_marks ?lim ?rc v points"
    using d w(2,3) by (simp_all add: st')
qed

text \<open>
  C7: a write of the store is a write of the map from times to values and labels that it stands for: what is
  older than the window goes, and each point of the batch within the window replaces what its series had at
  that time, whether the old sample was encoded or direct and whatever its labels were.  Series stay in
  order, split at one minute, with their label tables consistent, and the minutes marked to be summed up again are
  exactly those of the points that came late or took the place of a sample, and those of the samples replaced.
\<close>

theorem raw_write_refines:
  assumes "store_wf lim n st" and "lim \<le> now - direct_retention_ms" and "n + length points \<le> 2 ^ 32"
    and "\<forall>p\<in>set points. valid_point p" and "write_raw_points_at points now st = (st', rebuild)"
  shows "store_wf (now - direct_retention_ms) (n + length points) st' \<and>
    store_view st' = foldl (view_write (raw_cutoff now)) (\<lambda>k t. if t < raw_cutoff now then None else store_view st k t) points \<and>
    rebuild = view_marks (now - direct_retention_ms) (raw_cutoff now) (\<lambda>k t. if t < raw_cutoff now then None else store_view st k t) points"
  using write_raw_at[OF assms] by blast

theorem raw_write_refines_witness:
  "let p = (\<lambda>t v h. \<lparr>pp_key = (''cpu'', ''a'', ''x''), pp_tags = [], pp_labels_hash = h, pp_labels = [], pp_time = t, pp_value = v\<rparr>);
       (st', rebuild) = write_raw_points_at [p 990000 7 ''l'', p 900000 8 ''l'', p 990000 9 ''m'', p 10 5 ''l''] 1000000 (\<lambda>_. None)
   in store_view st' (''cpu'', ''a'', ''x'') 990000 = Some (9, ''m'') \<and> store_view st' (''cpu'', ''a'', ''x'') 900000 = Some (8, ''l'') \<and>
      store_view st' (''cpu'', ''a'', ''x'') 10 = None"
proof -
  let ?p = "\<lambda>t v h. \<lparr>pp_key = (''cpu'', ''a'', ''x''), pp_tags = [], pp_labels_hash = h, pp_labels = [], pp_time = t, pp_value = v\<rparr>"
  let ?ps = "[?p 990000 7 ''l'', ?p 900000 8 ''l'', ?p 990000 9 ''m'', ?p 10 5 ''l'']"
  obtain st' rebuild where w: "write_raw_points_at ?ps 1000000 (\<lambda>_. None) = (st', rebuild)" by fastforce
  have rc: "raw_cutoff 1000000 = 360000" by code_simp
  have "store_wf 0 0 (\<lambda>_. None)" by (simp add: store_wf_def)
  moreover have "\<forall>q\<in>set ?ps. valid_point q" by (simp add: valid_point_def in_int64_def)
  ultimately have v: "store_view st' = foldl (view_write (raw_cutoff 1000000))
      (\<lambda>k t. if t < raw_cutoff 1000000 then None else store_view (\<lambda>_. None) k t) ?ps"
    using raw_write_refines[of 0 0 "\<lambda>_. None" 1000000 ?ps st' rebuild] w by (simp add: direct_retention_ms_def)
  have none: "store_view (\<lambda>_. None) k t = None" for k t by (simp add: store_view_def)
  show ?thesis using w by (simp add: v rc view_write_def none)
qed

text \<open>
  samples survive their byte encoding: whatever their order, decoding gives back the times, the 64 bits
  of each value and the label numbers, the first time and the number and last time kept beside the bytes
  are those of the samples.
\<close>

theorem raw_encoding_roundtrip:
  assumes "\<forall>s\<in>set ss. in_int64 (rs_time s) \<and> rs_label s < 2 ^ 32"
  shows "decode_all (append_all ss empty_compressed) = ss \<and> cs_count (append_all ss empty_compressed) = length ss \<and>
    (ss \<noteq> [] \<longrightarrow> first_stamp (append_all ss empty_compressed) = rs_time (hd ss) \<and>
      cs_last (append_all ss empty_compressed) = rs_time (last ss))"
proof -
  have r: "represents (append_all ss empty_compressed) ss"
    using represents_append_all[OF represents_empty, of ss] assms by (simp add: valid_sample_def)
  have "cs_count (append_all ss empty_compressed) = length ss"
    and "ss \<noteq> [] \<Longrightarrow> cs_last (append_all ss empty_compressed) = rs_time (last ss)"
    using r by (simp_all add: represents_def)
  moreover have "ss \<noteq> [] \<Longrightarrow> first_stamp (append_all ss empty_compressed) = rs_time (hd ss)"
    using first_stamp_represents[of _ "hd ss" "tl ss"] r by simp
  ultimately show ?thesis using decode_represents[OF r] by simp
qed

theorem raw_encoding_roundtrip_witness:
  "let ss = [\<lparr>rs_time = 5, rs_value = 0xFFFFFFFFFFFFFFFF, rs_label = 300\<rparr>, \<lparr>rs_time = -7, rs_value = 1, rs_label = 0\<rparr>]
   in decode_all (append_all ss empty_compressed) = ss"
  using raw_encoding_roundtrip[of "[\<lparr>rs_time = 5, rs_value = 0xFFFFFFFFFFFFFFFF, rs_label = 300\<rparr>,
    \<lparr>rs_time = -7, rs_value = 1, rs_label = 0\<rparr>]"]
  by (simp add: in_int64_def)

section \<open>What a query returns\<close>

lemma takeWhile_le:
  assumes "in_order ss"
  shows "takeWhile (\<lambda>s. \<not> rs_time s > t) ss = filter (\<lambda>s. rs_time s \<le> t) ss"
proof -
  have "takeWhile (\<lambda>s. \<not> rs_time s > t) ss = takeWhile (\<lambda>s. rs_time s < t + 1) ss"
    by (rule takeWhile_cong) auto
  also have "\<dots> = take (search_time (t + 1) ss) ss" unfolding search_time_def by (rule takeWhile_eq_take)
  also have "\<dots> = filter (\<lambda>s. rs_time s \<le> t) ss"
    unfolding search_split(1)[OF assms] by (rule filter_cong) auto
  finally show ?thesis .
qed

lemma search_time_length: "in_order ss \<Longrightarrow> search_time t ss = length (filter (\<lambda>s. rs_time s < t) ss)"
  using search_split(1)[of ss t] by (metis length_takeWhile_le length_take min_absorb2 search_time_def)

lemma count_between:
  fixes a b :: int
  assumes "a \<le> b"
  shows "length (filter (\<lambda>s. rs_time s < b) ss) =
    length (filter (\<lambda>s. rs_time s < a) ss) + length (filter (\<lambda>s. a \<le> rs_time s \<and> rs_time s < b) ss)"
  using assms by (induction ss) auto

lemma direct_range:
  assumes o: "in_order ss"
  shows "search_time start ss \<le> search_time (stop + 1) ss \<longleftrightarrow> \<not> (\<exists>s\<in>set ss. stop < rs_time s \<and> rs_time s < start)"
    and "search_time start ss \<le> search_time (stop + 1) ss \<Longrightarrow>
      take (search_time (stop + 1) ss - search_time start ss) (drop (search_time start ss) ss) =
      filter (\<lambda>s. start \<le> rs_time s \<and> rs_time s \<le> stop) ss"
proof -
  note len = search_time_length[OF o]
  show iff: "search_time start ss \<le> search_time (stop + 1) ss \<longleftrightarrow> \<not> (\<exists>s\<in>set ss. stop < rs_time s \<and> rs_time s < start)"
  proof (cases "start \<le> stop + 1")
    case True
    then show ?thesis using count_between[OF True, of ss] by (auto simp: len)
  next
    case False
    then have "stop + 1 \<le> start" by simp
    from count_between[OF this, of ss] show ?thesis by (auto simp: len filter_empty_conv)
  qed
  assume le: "search_time start ss \<le> search_time (stop + 1) ss"
  show "take (search_time (stop + 1) ss - search_time start ss) (drop (search_time start ss) ss) =
      filter (\<lambda>s. start \<le> rs_time s \<and> rs_time s \<le> stop) ss"
  proof (cases "start \<le> stop + 1")
    case True
    define D where "D = drop (search_time start ss) ss"
    have D: "D = filter (\<lambda>s. \<not> rs_time s < start) ss" unfolding D_def by (rule search_split(2)[OF o])
    have "in_order D" unfolding D by (rule in_order_filter[OF o])
    note sD = search_split(1)[OF this, of "stop + 1"] search_time_length[OF this, of "stop + 1"]
    have "search_time (stop + 1) ss - search_time start ss = search_time (stop + 1) D"
      using count_between[OF True, of ss] by (simp add: len sD(2)) (simp add: D conj_commute not_less)
    then have "take (search_time (stop + 1) ss - search_time start ss) D = filter (\<lambda>s. rs_time s < stop + 1) D" using sD(1) by simp
    also have "\<dots> = filter (\<lambda>s. start \<le> rs_time s \<and> rs_time s \<le> stop) ss" unfolding D by (simp, rule filter_cong) auto
    finally show ?thesis by (simp only: D_def)
  next
    case False
    then have "stop + 1 \<le> start" by simp
    from count_between[OF this, of ss] le have "search_time (stop + 1) ss = search_time start ss" by (simp add: len)
    moreover have "filter (\<lambda>s. start \<le> rs_time s \<and> rs_time s \<le> stop) ss = []" using False by (auto simp: filter_empty_conv)
    ultimately show ?thesis by simp
  qed
qed

lemma encoded_range:
  assumes "represents c L" and "in_order L"
  shows "(if cs_count c > 0 \<and> start \<le> cs_last c \<and> stop \<ge> first_stamp c
      then filter (\<lambda>s. \<not> rs_time s < start) (takeWhile (\<lambda>s. \<not> rs_time s > stop) L) else []) =
    filter (\<lambda>s. start \<le> rs_time s \<and> rs_time s \<le> stop) L"
proof (cases L)
  case Nil
  then show ?thesis by simp
next
  case (Cons s L')
  have c: "cs_count c > 0" "first_stamp c = rs_time s" "cs_last c = rs_time (last L)"
    using assms(1) first_stamp_represents[of c s L'] Cons by (simp_all add: represents_def)
  have bounds: "rs_time s \<le> rs_time d \<and> rs_time d \<le> rs_time (last L)" if "d \<in> set L" for d
    using that in_order_last[OF assms(2) that] assms(2) Cons in_order_tail(2)[of s L' d] by fastforce
  show ?thesis
  proof (cases "start \<le> rs_time (last L) \<and> stop \<ge> rs_time s")
    case True
    have "filter (\<lambda>s. \<not> rs_time s < start) (filter (\<lambda>s. rs_time s \<le> stop) L) =
        filter (\<lambda>s. start \<le> rs_time s \<and> rs_time s \<le> stop) L"
      by (simp, rule filter_cong) auto
    then show ?thesis using True c by (simp only: takeWhile_le[OF assms(2)]) simp
  next
    case False
    then have "filter (\<lambda>s. start \<le> rs_time s \<and> rs_time s \<le> stop) L = []"
      using bounds by (fastforce simp: filter_empty_conv)
    then show ?thesis using False c by auto
  qed
qed

text \<open>
  C21: a query returns exactly the samples of its range, in the order of time, from both parts of a series;
  it panics exactly when a direct sample lies strictly between the end and the start of the range.
\<close>

theorem raw_query_exact:
  assumes "series_wf lim se"
  shows "query_series start stop se =
    (if \<exists>s\<in>set (se_samples se). stop < rs_time s \<and> rs_time s < start then None
     else Some (filter (\<lambda>s. start \<le> rs_time s \<and> rs_time s \<le> stop) (all_samples se)))"
proof -
  obtain L where L: "represents (se_compressed se) L" "in_order L" "in_order (se_samples se)"
      "all_samples se = L @ se_samples se" "decode_all (se_compressed se) = L"
    using assms by (rule series_wfD)
  show ?thesis
    unfolding query_series_def Let_def L(5) encoded_range[OF L(1,2)] L(4)
    using direct_range[OF L(3), of start stop] by simp
qed

theorem raw_query_exact_witness:
  "query_series 5 9 \<lparr>se_tags = [], se_ids = [''l'' \<mapsto> 0], se_hashes = [''l''], se_jsons = [[]],
     se_samples = [\<lparr>rs_time = 7, rs_value = 1, rs_label = 0\<rparr>, \<lparr>rs_time = 10, rs_value = 2, rs_label = 0\<rparr>],
     se_compressed = empty_compressed\<rparr> = Some [\<lparr>rs_time = 7, rs_value = 1, rs_label = 0\<rparr>]"
proof -
  let ?se = "\<lparr>se_tags = [], se_ids = [''l'' \<mapsto> 0], se_hashes = [''l''], se_jsons = [[]],
     se_samples = [\<lparr>rs_time = 7, rs_value = 1, rs_label = 0\<rparr>, \<lparr>rs_time = 10, rs_value = 2, rs_label = 0\<rparr>],
     se_compressed = empty_compressed\<rparr>"
  have "series_wf 0 ?se"
    by (rule series_wfI(1)[where L = "[]"])
      (auto simp: in_order_def labels_wf_def valid_sample_def in_int64_def)
  from raw_query_exact[OF this, of 5 9] show ?thesis
    by (simp add: all_samples_def decode_all_def empty_compressed_def)
qed

text \<open>What a query asks of a series and what deleting leaves of it.\<close>

lemma series_has_range: "series_wf lim se \<Longrightarrow> series_has start stop se = (\<exists>s\<in>set (all_samples se). start \<le> rs_time s \<and> rs_time s \<le> stop)"
proof -
  assume "series_wf lim se"
  then obtain L where L: "represents (se_compressed se) L" "in_order L" "in_order (se_samples se)"
      "all_samples se = L @ se_samples se" "decode_all (se_compressed se) = L"
    by (rule series_wfD)
  let ?ss = "se_samples se" and ?i = "search_time start (se_samples se)"
  have "(?i < length ?ss \<and> rs_time (?ss ! ?i) \<le> stop) = (\<exists>s\<in>set ?ss. start \<le> rs_time s \<and> rs_time s \<le> stop)"
  proof (cases "drop ?i ?ss")
    case Nil
    then have "filter (\<lambda>s. \<not> rs_time s < start) ?ss = []" using search_split(2)[OF L(3), of start] by simp
    then show ?thesis using Nil by (auto simp: filter_empty_conv)
  next
    case (Cons d ds)
    then have i: "?i < length ?ss" "?ss ! ?i = d" by (auto simp: nth_via_drop) (metis drop_all list.distinct(1) not_le)
    have F: "d # ds = filter (\<lambda>s. \<not> rs_time s < start) ?ss" using search_split(2)[OF L(3), of start] Cons by simp
    have od: "in_order (d # ds)" unfolding F by (rule in_order_filter[OF L(3)])
    have m: "s \<in> set (d # ds) \<longleftrightarrow> s \<in> set ?ss \<and> start \<le> rs_time s" for s unfolding F by auto
    have "rs_time d \<le> rs_time s" if "s \<in> set (d # ds)" for s using in_order_tail(2)[OF od, of s] that by auto
    moreover have "d \<in> set ?ss" "start \<le> rs_time d" using m[of d] by simp_all
    ultimately show ?thesis using i m by (metis order.trans)
  qed
  moreover have "(cs_count (se_compressed se) > 0 \<and> start \<le> cs_last (se_compressed se) \<and> stop \<ge> first_stamp (se_compressed se) \<and>
      filter (\<lambda>s. \<not> rs_time s < start) (takeWhile (\<lambda>s. \<not> rs_time s > stop) L) \<noteq> []) =
      (\<exists>s\<in>set L. start \<le> rs_time s \<and> rs_time s \<le> stop)"
  proof -
    have "(\<exists>s\<in>set L. start \<le> rs_time s \<and> rs_time s \<le> stop) = (filter (\<lambda>s. start \<le> rs_time s \<and> rs_time s \<le> stop) L \<noteq> [])"
      by (simp add: filter_empty_conv)
    then show ?thesis unfolding encoded_range[OF L(1,2), symmetric] by (auto split: if_splits)
  qed
  ultimately show ?thesis unfolding series_has_def Let_def L(4,5) by auto
qed

end
