(* ===== verification/Agent_Reports.thy ===== *)
theory Agent_Reports
  imports Prelude "HOL-Library.Word" "HOL-Library.Multiset"
begin

text \<open>
  What agents report and what the hub remembers of it while it runs: the report of the wire protocol
  (protocol/v2/jsonrpc.go) and the tables of web/agent/connections.go, which hold the open connections, the
  agents that speak the second protocol, the newest report of each agent, the reports of the last minute and
  the presence of agents that report without a connection.  Every function runs under the one mutex of the
  file, so each is one step.  Instants are nanoseconds since 1970; a 64-bit float is its bit pattern; a
  connection (a pointer in the code) is a number.
\<close>

section \<open>Reports\<close>

type_synonym instant = int
type_synonym float64 = "64 word"

definition zero_time :: instant where "zero_time = - 62135596800 * 1000000000"
definition second :: int where "second = 1000000000"

record cpu_report = cpu_name :: go_string  cpu_cores :: int  cpu_arch :: go_string  cpu_usage :: float64
record ram_report = ram_total :: int  ram_used :: int
record load_report = load_1 :: float64  load_5 :: float64  load_15 :: float64
record disk_report = disk_total :: int  disk_used :: int
record network_report = net_up :: int  net_down :: int  net_total_up :: int  net_total_down :: int
record connections_report = conn_tcp :: int  conn_udp :: int

record gpu_device =
  gd_name :: go_string
  gd_memory_total :: int
  gd_memory_used :: int
  gd_utilization :: float64
  gd_temperature :: int

record gpu_report = gpu_count :: int  gpu_average :: float64  gpu_devices :: "gpu_device list"

record mining_report =
  mn_algorithm :: go_string
  mn_pool :: go_string
  mn_wallet :: go_string
  mn_hashrate_1min :: float64
  mn_hashrate_1hr :: float64
  mn_power :: float64
  mn_temperature :: float64
  mn_fan :: float64
  mn_shares_total :: int
  mn_shares_valid :: int
  mn_shares_stale :: int
  mn_shares_invalid :: int
  mn_hw_errors :: int
  mn_pool_latency :: int

record disk_io_report =
  io_device :: go_string
  io_mountpoint :: go_string
  io_read_bytes :: float64
  io_write_bytes :: float64
  io_read_iops :: float64
  io_write_iops :: float64

record report =
  rp_uuid :: go_string
  rp_cpu :: cpu_report
  rp_ram :: ram_report
  rp_swap :: ram_report
  rp_load :: load_report
  rp_disk :: disk_report
  rp_network :: network_report
  rp_connections :: connections_report
  rp_gpu :: "gpu_report option"
  rp_mining :: "mining_report option"
  rp_disk_io :: "disk_io_report list"
  rp_uptime :: int
  rp_process :: int
  rp_message :: go_string
  rp_method :: go_string
  rp_time :: instant

section \<open>The tables\<close>

record agent_tables =
  ag_connected :: "go_string \<rightharpoonup> int"
  ag_v2 :: "go_string set"
  ag_latest :: "go_string \<rightharpoonup> report"
  ag_recent :: "go_string \<rightharpoonup> report list"
  ag_presence :: "go_string \<rightharpoonup> int \<times> instant"

definition no_agents :: agent_tables where
  "no_agents = \<lparr>ag_connected = Map.empty, ag_v2 = {}, ag_latest = Map.empty, ag_recent = Map.empty, ag_presence = Map.empty\<rparr>"

definition recent_report_retention :: int where "recent_report_retention = 60 * second"
definition default_presence_ttl :: int where "default_presence_ttl = 20 * second"

definition get_connected_client :: "go_string \<Rightarrow> agent_tables \<Rightarrow> int option" where
  "get_connected_client uuid st = ag_connected st uuid"

definition set_connected_clients :: "go_string \<Rightarrow> int \<Rightarrow> agent_tables \<Rightarrow> agent_tables" where
  "set_connected_clients uuid conn st = st\<lparr>ag_connected := (ag_connected st)(uuid \<mapsto> conn)\<rparr>"

definition mark_v2_client :: "go_string \<Rightarrow> agent_tables \<Rightarrow> agent_tables" where
  "mark_v2_client uuid st = st\<lparr>ag_v2 := insert uuid (ag_v2 st)\<rparr>"

definition is_v2_client :: "go_string \<Rightarrow> agent_tables \<Rightarrow> bool" where
  "is_v2_client uuid st = (uuid \<in> ag_v2 st)"

definition delete_connected_clients :: "go_string \<Rightarrow> agent_tables \<Rightarrow> agent_tables" where
  "delete_connected_clients uuid st = st\<lparr>ag_connected := (ag_connected st)(uuid := None), ag_v2 := ag_v2 st - {uuid}\<rparr>"

definition delete_client_conditionally :: "go_string \<Rightarrow> int \<Rightarrow> agent_tables \<Rightarrow> agent_tables" where
  "delete_client_conditionally uuid conn st =
     (if ag_connected st uuid = Some conn then delete_connected_clients uuid st else st)"

definition keep_alive_presence :: "go_string \<Rightarrow> int \<Rightarrow> int \<Rightarrow> instant \<Rightarrow> agent_tables \<Rightarrow> agent_tables" where
  "keep_alive_presence uuid conn ttl now st = st\<lparr>ag_presence := (ag_presence st)(uuid \<mapsto> (conn, now + ttl))\<rparr>"

definition set_presence :: "go_string \<Rightarrow> int \<Rightarrow> bool \<Rightarrow> instant \<Rightarrow> agent_tables \<Rightarrow> agent_tables" where
  "set_presence uuid conn present now st =
     (if present then keep_alive_presence uuid conn default_presence_ttl now st
      else case ag_presence st uuid of
        Some (i, e) \<Rightarrow> if i = conn then st\<lparr>ag_presence := (ag_presence st)(uuid := None)\<rparr> else st
      | None \<Rightarrow> st)"

definition online_uuids :: "instant \<Rightarrow> agent_tables \<Rightarrow> go_string set" where
  "online_uuids now st =
     dom (ag_connected st) \<union> {uuid \<in> dom (ag_presence st). case ag_presence st uuid of Some (i, e) \<Rightarrow> e > now | None \<Rightarrow> False}"

definition get_latest_report :: "agent_tables \<Rightarrow> (go_string \<rightharpoonup> report)" where
  "get_latest_report st = ag_latest st"

text \<open>A slice keeps its tail from the first report that is not before the cutoff; a missing slice is empty.\<close>

definition reports_after :: "report list \<Rightarrow> instant \<Rightarrow> report list" where
  "reports_after rs cutoff = dropWhile (\<lambda>r. rp_time r < cutoff) rs"

definition recent_of :: "go_string \<Rightarrow> agent_tables \<Rightarrow> report list" where
  "recent_of uuid st = (case ag_recent st uuid of None \<Rightarrow> [] | Some rs \<Rightarrow> rs)"

text \<open>The two readings of the clock are \<open>now1\<close> (only for a report without a time) and \<open>now2\<close>.\<close>

definition stamp_report :: "instant \<Rightarrow> report \<Rightarrow> report" where
  "stamp_report now r = (if rp_time r = zero_time then r\<lparr>rp_time := now\<rparr> else r)"

definition insert_report :: "report \<Rightarrow> report list \<Rightarrow> report list" where
  "insert_report r rs = (let i = length (takeWhile (\<lambda>x. \<not> rp_time x > rp_time r) rs) in take i rs @ r # drop i rs)"

definition note_latest :: "report \<Rightarrow> agent_tables \<Rightarrow> agent_tables" where
  "note_latest r st =
     (case ag_latest st (rp_uuid r) of
        Some l \<Rightarrow> if rp_time r < rp_time l then st else st\<lparr>ag_latest := (ag_latest st)(rp_uuid r \<mapsto> r)\<rparr>
      | None \<Rightarrow> st\<lparr>ag_latest := (ag_latest st)(rp_uuid r \<mapsto> r)\<rparr>)"

definition record_report :: "report \<Rightarrow> instant \<Rightarrow> instant \<Rightarrow> agent_tables \<Rightarrow> agent_tables" where
  "record_report r0 now1 now2 st =
     (if rp_uuid r0 = [] then st
      else
        let r = stamp_report now1 r0; uuid = rp_uuid r;
            st1 = note_latest r st;
            cutoff = now2 - recent_report_retention;
            rs = reports_after (recent_of uuid st1) cutoff
        in st1\<lparr>ag_recent := (ag_recent st1)(uuid \<mapsto> if rp_time r < cutoff then rs else insert_report r rs)\<rparr>)"

definition get_recent_reports :: "go_string \<Rightarrow> instant \<Rightarrow> agent_tables \<Rightarrow> agent_tables \<times> report list" where
  "get_recent_reports uuid now st =
     (let rs = reports_after (recent_of uuid st) (now - recent_report_retention)
      in if rs = [] then (st\<lparr>ag_recent := (ag_recent st)(uuid := None)\<rparr>, [])
         else (st\<lparr>ag_recent := (ag_recent st)(uuid \<mapsto> rs)\<rparr>, rs))"

definition delete_latest_report :: "go_string \<Rightarrow> agent_tables \<Rightarrow> agent_tables" where
  "delete_latest_report uuid st =
     st\<lparr>ag_latest := (ag_latest st)(uuid := None), ag_recent := (ag_recent st)(uuid := None)\<rparr>"

section \<open>The reports of the last minute\<close>

text \<open>The code keeps each slice in the order of time by binary search; a stable sort is the reference.\<close>

definition stamped :: "go_string \<Rightarrow> (report \<times> instant \<times> instant) list \<Rightarrow> report list" where
  "stamped uuid calls = map (\<lambda>(r, n1, n2). stamp_report n1 r) (filter (\<lambda>(r, n1, n2). rp_uuid r = uuid) calls)"

definition run_reports :: "(report \<times> instant \<times> instant) list \<Rightarrow> agent_tables \<Rightarrow> agent_tables" where
  "run_reports calls st = foldl (\<lambda>st (r, n1, n2). record_report r n1 n2 st) st calls"

lemma stamp_report_sel [simp]: "rp_uuid (stamp_report n r) = rp_uuid r"
  by (simp add: stamp_report_def)

lemma stamped_simps [simp]:
  "stamped uuid [] = []"
  "stamped uuid (calls @ [(r, n1, n2)]) = (if rp_uuid r = uuid then stamped uuid calls @ [stamp_report n1 r] else stamped uuid calls)"
  by (simp_all add: stamped_def)

lemma run_reports_snoc [simp]:
  "run_reports [] st = st" "run_reports (calls @ [(r, n1, n2)]) st = record_report r n1 n2 (run_reports calls st)"
  by (simp_all add: run_reports_def)

lemma sort_snoc:
  assumes "sorted (map f xs)"
  shows "sort_key f (xs @ [r]) = takeWhile (\<lambda>x. f x \<le> f r) xs @ r # dropWhile (\<lambda>x. f x \<le> f r) xs"
proof (rule properties_for_sort_key)
  let ?A = "takeWhile (\<lambda>x. f x \<le> f r) xs" and ?B = "dropWhile (\<lambda>x. f x \<le> f r) xs"
  have xs: "xs = ?A @ ?B" by simp
  have sB: "sorted (map f ?B)" using assms by (metis sorted_append map_append xs)
  have B: "f r < f b" if "b \<in> set ?B" for b
  proof (cases ?B)
    case (Cons c cs)
    then have "\<not> f c \<le> f r" by (metis dropWhile_eq_Cons_conv)
    moreover have "f c \<le> f b" using that sB Cons by auto
    ultimately show ?thesis by simp
  next
    case Nil
    then show ?thesis using that by (metis empty_iff list.set(1))
  qed
  have "mset ?A + mset ?B = mset xs" by (metis mset_append xs)
  then show "mset (?A @ r # ?B) = mset (xs @ [r])" by simp
  show "filter (\<lambda>x. f k = f x) (?A @ r # ?B) = filter (\<lambda>x. f k = f x) (xs @ [r])" for k
  proof (cases "f k = f r")
    case True
    then have "filter (\<lambda>x. f k = f x) ?B = []" using B by (fastforce simp: filter_empty_conv)
    moreover from this have "filter (\<lambda>x. f k = f x) xs = filter (\<lambda>x. f k = f x) ?A"
      by (metis append_Nil2 filter_append xs)
    ultimately show ?thesis using True by simp
  next
    case False
    have "filter (\<lambda>x. f k = f x) xs = filter (\<lambda>x. f k = f x) ?A @ filter (\<lambda>x. f k = f x) ?B"
      by (metis filter_append xs)
    then show ?thesis using False by simp
  qed
  have "sorted (map f ?A)" using assms by (metis sorted_append map_append xs)
  moreover have "f a \<le> f r" if "a \<in> set ?A" for a using that by (rule set_takeWhileD[THEN conjunct2])
  ultimately show "sorted (map f (?A @ r # ?B))"
    using sB B by (auto simp: sorted_append intro: less_imp_le order_trans) (meson less_imp_le order_trans)
qed

lemma insert_report_sort: "sorted (map rp_time rs) \<Longrightarrow> insert_report r rs = sort_key rp_time (rs @ [r])"
  by (simp add: sort_snoc insert_report_def Let_def not_less takeWhile_eq_take[symmetric] dropWhile_eq_drop[symmetric])

lemma sort_sort_snoc: "sort_key f (sort_key f xs @ [r]) = sort_key f (xs @ [r])"
proof (rule properties_for_sort_key[symmetric])
  show "filter (\<lambda>x. f k = f x) (sort_key f (sort_key f xs @ [r])) = filter (\<lambda>x. f k = f x) (xs @ [r])" for k
    using sort_key_stable[of f "f k"] by (simp add: eq_commute[of "f k"])
qed simp_all

lemma reports_after_filter:
  assumes "sorted (map rp_time rs)"
  shows "reports_after rs cutoff = filter (\<lambda>r. cutoff \<le> rp_time r) rs"
  using assms unfolding reports_after_def
  by (induction rs) (auto simp: not_less intro!: filter_True[symmetric] intro: order_trans)


text \<open>A slice is in order and agrees with the reference on all that can still be asked for.\<close>

definition kept_reports :: "instant \<Rightarrow> report list \<Rightarrow> report list \<Rightarrow> bool" where
  "kept_reports cutoff L rs =
     (sorted (map rp_time rs) \<and> (\<forall>c \<ge> cutoff. filter (\<lambda>r. c \<le> rp_time r) rs = filter (\<lambda>r. c \<le> rp_time r) (sort_key rp_time L)))"

lemma kept_reports_mono: "kept_reports c L rs \<Longrightarrow> c \<le> c' \<Longrightarrow> kept_reports c' L rs"
  by (simp add: kept_reports_def)

lemma kept_reports_after:
  assumes "kept_reports c L rs" "c \<le> c'"
  shows "reports_after rs c' = filter (\<lambda>r. c' \<le> rp_time r) (sort_key rp_time L)" "kept_reports c' L (reports_after rs c')"
proof -
  have s: "sorted (map rp_time rs)" using assms by (simp add: kept_reports_def)
  show "reports_after rs c' = filter (\<lambda>r. c' \<le> rp_time r) (sort_key rp_time L)"
    using assms reports_after_filter[OF s] by (simp add: kept_reports_def)
  show "kept_reports c' L (reports_after rs c')"
    using assms unfolding reports_after_filter[OF s] kept_reports_def
    by (auto simp: sorted_filter intro!: filter_cong)
qed

lemma kept_reports_insert:
  assumes "kept_reports c L rs"
  shows "kept_reports c (L @ [r]) (insert_report r rs)"
proof -
  have s: "sorted (map rp_time rs)" using assms by (simp add: kept_reports_def)
  have "filter (\<lambda>x. d \<le> rp_time x) (sort_key rp_time (rs @ [r])) = filter (\<lambda>x. d \<le> rp_time x) (sort_key rp_time (L @ [r]))"
    if "c \<le> d" for d
  proof -
    have "sort_key rp_time (filter (\<lambda>x. d \<le> rp_time x) rs @ X) =
        sort_key rp_time (filter (\<lambda>x. d \<le> rp_time x) L @ X)" if "length X \<le> 1" for X
    proof (cases X)
      case (Cons y ys)
      then have X: "X = [y]" using that by simp
      have "filter (\<lambda>x. d \<le> rp_time x) rs = sort_key rp_time (filter (\<lambda>x. d \<le> rp_time x) L)"
        using assms \<open>c \<le> d\<close> by (simp add: kept_reports_def filter_sort)
      then show ?thesis unfolding X by (simp add: sort_sort_snoc)
    next
      case Nil
      have "filter (\<lambda>x. d \<le> rp_time x) rs = sort_key rp_time (filter (\<lambda>x. d \<le> rp_time x) L)"
        using assms \<open>c \<le> d\<close> by (simp add: kept_reports_def filter_sort)
      then show ?thesis unfolding Nil append_Nil2 by (metis (no_types) sort_key_id_if_sorted sorted_sort_key)
    qed
    from this[of "filter (\<lambda>x. d \<le> rp_time x) [r]"] show ?thesis by (simp add: filter_sort)
  qed
  then show ?thesis by (simp add: kept_reports_def insert_report_sort[OF s])
qed

lemma kept_reports_old:
  assumes "kept_reports c L rs" "rp_time r < c"
  shows "kept_reports c (L @ [r]) rs"
  using assms by (simp add: kept_reports_def filter_sort)

lemma note_latest_recent [simp]: "ag_recent (note_latest r st) = ag_recent st"
  by (simp add: note_latest_def split: option.split)

lemma recent_of_record:
  "recent_of uuid (record_report r n1 n2 st) =
     (if rp_uuid r = uuid \<and> uuid \<noteq> []
      then let rs = reports_after (recent_of uuid st) (n2 - recent_report_retention)
           in if rp_time (stamp_report n1 r) < n2 - recent_report_retention then rs else insert_report (stamp_report n1 r) rs
      else recent_of uuid st)"
  by (simp add: record_report_def Let_def recent_of_def)

lemma record_report_kept:
  assumes "kept_reports (n2 - recent_report_retention) (stamped uuid calls) (recent_of uuid st)" "uuid \<noteq> []"
  shows "kept_reports (n2 - recent_report_retention) (stamped uuid (calls @ [(r, n1, n2)])) (recent_of uuid (record_report r n1 n2 st))"
proof -
  note k = kept_reports_after(2)[OF assms(1) order_refl]
  show ?thesis using assms kept_reports_insert[OF k] kept_reports_old[OF k] by (simp add: recent_of_record Let_def)
qed

lemma run_reports_kept:
  assumes "sorted (map (\<lambda>(r, n1, n2). n2) calls)" "uuid \<noteq> []" "\<forall>(r, n1, n2)\<in>set calls. n2 - recent_report_retention \<le> c"
  shows "kept_reports c (stamped uuid calls) (recent_of uuid (run_reports calls no_agents))"
  using assms
proof (induction calls arbitrary: c rule: rev_induct)
  case Nil
  then show ?case by (simp add: kept_reports_def recent_of_def no_agents_def)
next
  case (snoc x calls)
  obtain r n1 n2 where x: "x = (r, n1, n2)" by (cases x)
  have "kept_reports (n2 - recent_report_retention) (stamped uuid calls) (recent_of uuid (run_reports calls no_agents))"
    by (rule snoc.IH) (use snoc.prems x in \<open>auto simp: sorted_append\<close>)
  from kept_reports_mono[OF record_report_kept[OF this snoc.prems(2)]] show ?case
    using snoc.prems(3) by (simp add: x)
qed

lemma sorted_le_last: "sorted ys \<Longrightarrow> y \<in> set ys \<Longrightarrow> y \<le> last ys"
  by (induction ys) auto

lemma reports_after_idem: "reports_after (reports_after rs c) c = reports_after rs c"
  by (induction rs) (auto simp: reports_after_def)

lemma sort_snoc_last:
  fixes f :: "'a \<Rightarrow> int"
  shows "last (sort_key f (xs @ [r])) = (if xs \<noteq> [] \<and> f r < f (last (sort_key f xs)) then last (sort_key f xs) else r)"
proof -
  let ?L = "sort_key f xs"
  have s: "sorted (map f ?L)" by simp
  have e: "sort_key f (xs @ [r]) = takeWhile (\<lambda>x. f x \<le> f r) ?L @ r # dropWhile (\<lambda>x. f x \<le> f r) ?L"
    using sort_snoc[OF s] by (simp add: sort_sort_snoc)
  show ?thesis
  proof (cases "xs = []")
    case False
    then have L: "?L \<noteq> []" by (metis length_0_conv length_sort)
    have le: "f x \<le> f (last ?L)" if "x \<in> set ?L" for x
      using sorted_le_last[OF s, of "f x"] that L by (simp add: last_map)
    show ?thesis
    proof (cases "f r < f (last ?L)")
      case True
      then have "last ?L \<in> set (dropWhile (\<lambda>x. f x \<le> f r) ?L)"
        using L by (metis UnE last_in_set not_le set_append set_takeWhileD takeWhile_dropWhile_id)
      then have "dropWhile (\<lambda>x. f x \<le> f r) ?L \<noteq> []" by (metis empty_iff list.set(1))
      then show ?thesis unfolding e using True False
        by (metis last_ConsR last_appendR list.distinct(1) takeWhile_dropWhile_id)
    next
      case lt: False
      then have "dropWhile (\<lambda>x. f x \<le> f r) ?L = []" using le by fastforce
      then show ?thesis unfolding e using lt by simp
    qed
  qed (simp add: e)
qed

lemma run_reports_latest:
  "uuid \<noteq> [] \<Longrightarrow> ag_latest (run_reports calls no_agents) uuid =
     (if stamped uuid calls = [] then None else Some (last (sort_key rp_time (stamped uuid calls))))"
proof (induction calls rule: rev_induct)
  case (snoc x calls)
  obtain r n1 n2 where x: "x = (r, n1, n2)" by (cases x)
  show ?case using snoc
    by (auto simp: x record_report_def Let_def note_latest_def sort_snoc_last not_less split: option.split)
qed (simp add: no_agents_def)

text \<open>
  C35: as long as the clock does not run backwards, the reports of the last minute are exactly those received
  that are not older, in the order of their times and equal times in the order of arrival, in whatever order
  they came; and the newest report is the last of all received, in that order.  Asking does not change the answer.
\<close>

theorem recent_reports_exact:
  assumes "sorted (map (\<lambda>(r, n1, n2). n2) calls)" and "\<forall>(r, n1, n2)\<in>set calls. n2 \<le> now" and "uuid \<noteq> []"
    and "get_recent_reports uuid now (run_reports calls no_agents) = (st, rs)"
  shows "rs = filter (\<lambda>r. now - recent_report_retention \<le> rp_time r) (sort_key rp_time (stamped uuid calls)) \<and>
    get_latest_report st uuid = (if stamped uuid calls = [] then None else Some (last (sort_key rp_time (stamped uuid calls)))) \<and>
    snd (get_recent_reports uuid now st) = rs"
proof -
  let ?c = "now - recent_report_retention"
  have k: "kept_reports ?c (stamped uuid calls) (recent_of uuid (run_reports calls no_agents))"
    by (rule run_reports_kept[OF assms(1,3)]) (use assms(2) in auto)
  note a = kept_reports_after[OF k order_refl]
  have rs: "rs = reports_after (recent_of uuid (run_reports calls no_agents)) ?c"
    and st: "ag_latest st = ag_latest (run_reports calls no_agents)" "recent_of uuid st = rs"
    using assms(4) by (auto simp: get_recent_reports_def recent_of_def Let_def split: if_splits)
  have "reports_after rs ?c = rs" unfolding rs by (rule reports_after_idem)
  then have "snd (get_recent_reports uuid now st) = rs" by (simp add: get_recent_reports_def Let_def st)
  then show ?thesis using a(1) rs st run_reports_latest[OF assms(3)] by (simp add: get_latest_report_def)
qed


text \<open>The zero value of a report, with an agent, a time and the counters of its network.\<close>

definition blank_report :: "go_string \<Rightarrow> instant \<Rightarrow> int \<Rightarrow> int \<Rightarrow> report" where
  "blank_report uuid t up down =
     \<lparr>rp_uuid = uuid, rp_cpu = \<lparr>cpu_name = [], cpu_cores = 0, cpu_arch = [], cpu_usage = 0\<rparr>,
      rp_ram = \<lparr>ram_total = 0, ram_used = 0\<rparr>, rp_swap = \<lparr>ram_total = 0, ram_used = 0\<rparr>,
      rp_load = \<lparr>load_1 = 0, load_5 = 0, load_15 = 0\<rparr>, rp_disk = \<lparr>disk_total = 0, disk_used = 0\<rparr>,
      rp_network = \<lparr>net_up = 0, net_down = 0, net_total_up = up, net_total_down = down\<rparr>,
      rp_connections = \<lparr>conn_tcp = 0, conn_udp = 0\<rparr>, rp_gpu = None, rp_mining = None, rp_disk_io = [],
      rp_uptime = 0, rp_process = 0, rp_message = [], rp_method = [], rp_time = t\<rparr>"

lemma blank_report_sel [simp]:
  "rp_uuid (blank_report u t a b) = u" "rp_time (blank_report u t a b) = t"
  "net_total_up (rp_network (blank_report u t a b)) = a" "net_total_down (rp_network (blank_report u t a b)) = b"
  by (simp_all add: blank_report_def)

theorem recent_reports_exact_witness:
  "let calls = [(blank_report ''a'' 50000000000 1 1, 0, 60000000000), (blank_report ''a'' 40000000000 2 2, 0, 61000000000)];
       (st, rs) = get_recent_reports ''a'' 105000000000 (run_reports calls no_agents)
   in map rp_time rs = [50000000000] \<and> map_option rp_time (get_latest_report st ''a'') = Some 50000000000"
proof -
  let ?c = "[(blank_report ''a'' 50000000000 1 1, 0, 60000000000), (blank_report ''a'' 40000000000 2 2, 0, 61000000000)]
    :: (report \<times> instant \<times> instant) list"
  obtain st rs where g: "get_recent_reports ''a'' 105000000000 (run_reports ?c no_agents) = (st, rs)" by fastforce
  from recent_reports_exact[OF _ _ _ g] show ?thesis
    using g by (simp add: stamped_def stamp_report_def zero_time_def recent_report_retention_def second_def)
qed

end
