(* ===== verification/Agent_Events.thy ===== *)
theory Agent_Events
  imports Agent_Reports
begin

text \<open>
  The queues of events for agents, web/agent/v2_events.go: an event that cannot be written to an open
  connection waits in the queue of its agent until it is acknowledged or expires; a later request for the
  same terminal or the same ping task takes the place of the earlier one, and a queue holds at most 128
  events.  A long poll waits on a channel that the next event closes; a channel is a number, and the closed
  ones are kept in a set.  The two readers of event parameters (JSON) are arguments: \<open>bt\<close> gives the request
  identifier of a terminal request, \<open>bp\<close> the task of a ping, \<open>None\<close> when the parameters cannot be read.
\<close>

section \<open>Queues\<close>

record 'p event =
  ev_id :: go_string
  ev_method :: go_string
  ev_params :: 'p
  ev_created :: instant
  ev_expires :: instant

record 'p event_queue =
  eq_events :: "'p event list"
  eq_signal :: nat

record 'p event_state =
  es_queues :: "go_string \<rightharpoonup> 'p event_queue"
  es_next :: nat
  es_closed :: "nat set"

definition no_events :: "'p event_state" where
  "no_events = \<lparr>es_queues = Map.empty, es_next = 0, es_closed = {}\<rparr>"

definition v2_event_queue_limit :: nat where "v2_event_queue_limit = 128"
definition v2_event_ttl :: int where "v2_event_ttl = 5 * 60 * second"
definition v2_ping_event_ttl :: int where "v2_ping_event_ttl = 3 * second"
definition v2_file_event_ttl :: int where "v2_file_event_ttl = 2 * 60 * second"

definition method_agent_ping :: go_string where "method_agent_ping = ''agent.ping''"
definition method_agent_terminal :: go_string where "method_agent_terminal = ''agent.terminal.request''"
definition method_agent_file :: go_string where "method_agent_file = ''agent.file''"

definition event_ttl :: "go_string \<Rightarrow> int" where
  "event_ttl meth = (if meth = method_agent_ping then v2_ping_event_ttl
     else if meth = method_agent_file then v2_file_event_ttl else v2_event_ttl)"

text \<open>A new channel takes the next number.\<close>

definition get_queue :: "go_string \<Rightarrow> 'p event_state \<Rightarrow> 'p event_state \<times> 'p event_queue" where
  "get_queue uuid st =
     (case es_queues st uuid of
        Some q \<Rightarrow> (st, q)
      | None \<Rightarrow> let q = \<lparr>eq_events = [], eq_signal = es_next st\<rparr>
                in (st\<lparr>es_queues := (es_queues st)(uuid \<mapsto> q), es_next := Suc (es_next st)\<rparr>, q))"

definition put_events :: "go_string \<Rightarrow> 'p event list \<Rightarrow> 'p event_state \<Rightarrow> 'p event_state" where
  "put_events uuid evs st =
     (case es_queues st uuid of None \<Rightarrow> st
      | Some q \<Rightarrow> st\<lparr>es_queues := (es_queues st)(uuid \<mapsto> q\<lparr>eq_events := evs\<rparr>)\<rparr>)"

definition prune_expired :: "instant \<Rightarrow> 'p event list \<Rightarrow> 'p event list" where
  "prune_expired now evs = filter (\<lambda>e. ev_expires e = zero_time \<or> ev_expires e > now) evs"

definition coalesce_key :: "('p \<Rightarrow> go_string option) \<Rightarrow> ('p \<Rightarrow> nat option) \<Rightarrow> 'p event \<Rightarrow> go_string" where
  "coalesce_key bt bp e =
     (if ev_method e = method_agent_terminal then
        (case bt (ev_params e) of Some r \<Rightarrow> if r \<noteq> [] then ev_method e @ '':'' @ r else [] | None \<Rightarrow> [])
      else if ev_method e \<noteq> method_agent_ping then []
      else (case bp (ev_params e) of None \<Rightarrow> []
            | Some t \<Rightarrow> if t = 0 then [] else ev_method e @ '':'' @ show_nat t))"

definition coalesce :: "('p \<Rightarrow> go_string option) \<Rightarrow> ('p \<Rightarrow> nat option) \<Rightarrow> 'p event \<Rightarrow> 'p event list \<Rightarrow> 'p event list" where
  "coalesce bt bp e evs =
     (let key = coalesce_key bt bp e
      in if key = [] then evs else filter (\<lambda>x. coalesce_key bt bp x \<noteq> key) evs)"

definition ack_events :: "go_string list \<Rightarrow> 'p event list \<Rightarrow> 'p event list" where
  "ack_events ids evs = (if ids = [] \<or> evs = [] then evs else filter (\<lambda>e. ev_id e \<notin> set ids) evs)"

definition take_locked :: "int \<Rightarrow> 'p event list \<Rightarrow> 'p event list" where
  "take_locked limit evs =
     (let n = (if limit \<le> 0 \<or> limit > int (length evs) then int (length evs) else limit) in take (nat n) evs)"

definition keep_newest :: "'p event list \<Rightarrow> 'p event list" where
  "keep_newest evs = (if length evs > v2_event_queue_limit then drop (length evs - v2_event_queue_limit) evs else evs)"

definition new_event :: "go_string \<Rightarrow> go_string \<Rightarrow> 'p \<Rightarrow> instant \<Rightarrow> 'p event" where
  "new_event i meth params now =
     \<lparr>ev_id = i, ev_method = meth, ev_params = params, ev_created = now, ev_expires = now + event_ttl meth\<rparr>"

text \<open>The random identifier \<open>i\<close> and the two readings of the clock are arguments.\<close>

definition enqueue_event ::
  "('p \<Rightarrow> go_string option) \<Rightarrow> ('p \<Rightarrow> nat option) \<Rightarrow> go_string \<Rightarrow> go_string \<Rightarrow> 'p \<Rightarrow> go_string \<Rightarrow> instant \<Rightarrow> instant
    \<Rightarrow> 'p event_state \<Rightarrow> 'p event_state" where
  "enqueue_event bt bp uuid meth params i now now2 st =
     (let e = new_event i meth params now;
          (st1, q) = get_queue uuid st;
          evs = keep_newest (coalesce bt bp e (prune_expired now2 (eq_events q)) @ [e])
      in st1\<lparr>es_queues := (es_queues st1)(uuid \<mapsto> \<lparr>eq_events = evs, eq_signal = es_next st1\<rparr>),
             es_next := Suc (es_next st1), es_closed := insert (eq_signal q) (es_closed st1)\<rparr>)"

definition take_events :: "go_string \<Rightarrow> go_string list \<Rightarrow> int \<Rightarrow> instant \<Rightarrow> 'p event_state \<Rightarrow> 'p event_state \<times> 'p event list" where
  "take_events uuid ids limit now st =
     (let (st1, q) = get_queue uuid st; evs = prune_expired now (ack_events ids (eq_events q))
      in (put_events uuid evs st1, take_locked limit evs))"

definition ack_v2_events :: "go_string \<Rightarrow> go_string list \<Rightarrow> 'p event_state \<Rightarrow> 'p event_state" where
  "ack_v2_events uuid ids st =
     (if ids = [] then st
      else case es_queues st uuid of None \<Rightarrow> st | Some q \<Rightarrow> put_events uuid (ack_events ids (eq_events q)) st)"

text \<open>
  A long poll answers at once when there are events or no time to wait; otherwise it waits for the channel
  it has read, or the timeout, and then takes what there is.
\<close>

definition wait_begin ::
  "go_string \<Rightarrow> go_string list \<Rightarrow> int \<Rightarrow> instant \<Rightarrow> 'p event_state \<Rightarrow> 'p event_state \<times> ('p event list + nat)" where
  "wait_begin uuid ids timeout now st =
     (let (st1, q) = get_queue uuid st; evs = prune_expired now (ack_events ids (eq_events q));
          st2 = put_events uuid evs st1; taken = take_locked (int v2_event_queue_limit) evs
      in if taken \<noteq> [] \<or> timeout \<le> 0 then (st2, Inl taken) else (st2, Inr (eq_signal q)))"

definition wait_woken :: "nat \<Rightarrow> instant \<Rightarrow> instant \<Rightarrow> 'p event_state \<Rightarrow> bool" where
  "wait_woken sig deadline now st = (sig \<in> es_closed st \<or> deadline \<le> now)"

definition wait_end :: "go_string \<Rightarrow> instant \<Rightarrow> 'p event_state \<Rightarrow> 'p event_state \<times> 'p event list" where
  "wait_end uuid now st = take_events uuid [] (int v2_event_queue_limit) now st"

text \<open>
  Sending to an agent: over its connection when it has one and the write succeeds (\<open>write\<close> tells for each
  connection), else through its queue when it speaks the protocol.
\<close>

definition dispatch_v2_event ::
  "('p \<Rightarrow> go_string option) \<Rightarrow> ('p \<Rightarrow> nat option) \<Rightarrow> (int \<Rightarrow> bool) \<Rightarrow> agent_tables \<Rightarrow> go_string \<Rightarrow> go_string \<Rightarrow> 'p \<Rightarrow>
    go_string \<Rightarrow> instant \<Rightarrow> instant \<Rightarrow> 'p event_state \<Rightarrow> 'p event_state \<times> bool" where
  "dispatch_v2_event bt bp write ag uuid meth params i now now2 st =
     (if (case get_connected_client uuid ag of None \<Rightarrow> False | Some conn \<Rightarrow> write conn) then (st, True)
      else if \<not> is_v2_client uuid ag then (st, False)
      else (enqueue_event bt bp uuid meth params i now now2 st, True))"

definition dispatch_ping ::
  "('p \<Rightarrow> go_string option) \<Rightarrow> ('p \<Rightarrow> nat option) \<Rightarrow> (int \<Rightarrow> bool) \<Rightarrow> agent_tables \<Rightarrow> go_string \<Rightarrow> 'p \<Rightarrow>
    go_string \<Rightarrow> instant \<Rightarrow> instant \<Rightarrow> 'p event_state \<Rightarrow> 'p event_state \<times> bool" where
  "dispatch_ping bt bp write ag uuid params i now now2 st =
     (if (case get_connected_client uuid ag of None \<Rightarrow> False | Some conn \<Rightarrow> write conn) then (st, True)
      else if \<not> is_v2_client uuid ag then (st, False)
      else (enqueue_event bt bp uuid method_agent_ping params i now now2 st, True))"

definition is_agent_online :: "go_string \<Rightarrow> agent_tables \<Rightarrow> bool" where
  "is_agent_online uuid ag = (get_connected_client uuid ag \<noteq> None \<or> is_v2_client uuid ag)"

text \<open>
  When a connection opens, the queued events are written to it one after the other; those written are
  acknowledged, also when a later write fails (\<open>ok n\<close> tells whether the n-th write succeeds).
\<close>

definition push_queued :: "(nat \<Rightarrow> bool) \<Rightarrow> go_string \<Rightarrow> instant \<Rightarrow> 'p event_state \<Rightarrow> 'p event_state \<times> 'p event list \<times> bool" where
  "push_queued ok uuid now st =
     (let (st1, evs) = take_events uuid [] 0 now st
      in if evs = [] then (st1, [], True)
         else let sent = map fst (takeWhile (\<lambda>(e, n). ok n) (zip evs [0..<length evs]))
              in (ack_v2_events uuid (map ev_id sent) st1, sent, length sent = length evs))"

section \<open>Queues through time\<close>

datatype 'p event_op =
    Enqueue go_string go_string 'p go_string instant instant
  | Take go_string "go_string list" int instant
  | Ack go_string "go_string list"
  | Poll go_string "go_string list" int instant
  | Push "nat \<Rightarrow> bool" go_string instant

fun do_event :: "('p \<Rightarrow> go_string option) \<Rightarrow> ('p \<Rightarrow> nat option) \<Rightarrow> 'p event_op \<Rightarrow> 'p event_state \<Rightarrow> 'p event_state" where
  "do_event bt bp (Enqueue u m p i n1 n2) st = enqueue_event bt bp u m p i n1 n2 st"
| "do_event bt bp (Take u ids limit now) st = fst (take_events u ids limit now st)"
| "do_event bt bp (Ack u ids) st = ack_v2_events u ids st"
| "do_event bt bp (Poll u ids timeout now) st = fst (wait_begin u ids timeout now st)"
| "do_event bt bp (Push ok u now) st = fst (push_queued ok u now st)"

definition run_ops :: "('p \<Rightarrow> go_string option) \<Rightarrow> ('p \<Rightarrow> nat option) \<Rightarrow> 'p event_op list \<Rightarrow> 'p event_state \<Rightarrow> 'p event_state" where
  "run_ops bt bp ops st = fold (do_event bt bp) ops st"

definition events_of :: "go_string \<Rightarrow> 'p event_state \<Rightarrow> 'p event list" where
  "events_of u st = (case es_queues st u of None \<Rightarrow> [] | Some q \<Rightarrow> eq_events q)"

lemma filter_set_Nil: "filter (\<lambda>e. f e \<notin> set []) xs = xs" by simp

lemma ack_events_filter: "ack_events ids evs = filter (\<lambda>e. ev_id e \<notin> set ids) evs"
  by (auto simp: ack_events_def filter_empty_conv)

lemma take_locked_prefix: "take_locked limit evs = take (if limit \<le> 0 then length evs else nat limit) evs"
  by (auto simp: take_locked_def Let_def)

lemma get_queue_events:
  "get_queue u st = (st1, q) \<Longrightarrow> eq_events q = events_of u st \<and> es_queues st1 u = Some q \<and>
     (\<forall>v. v \<noteq> u \<longrightarrow> es_queues st1 v = es_queues st v) \<and> es_closed st1 = es_closed st"
  by (auto simp: get_queue_def events_of_def Let_def split: option.splits)

lemma events_put:
  "es_queues st u = Some q \<Longrightarrow> events_of v (put_events u evs st) = (if v = u then evs else events_of v st)"
  by (simp add: put_events_def events_of_def)

lemma events_ack: "events_of v (ack_v2_events u ids st) = (if v = u then ack_events ids (events_of u st) else events_of v st)"
  by (auto simp: ack_v2_events_def events_of_def put_events_def ack_events_filter split: option.split)

lemma events_other: "get_queue u st = (st1, q) \<Longrightarrow> v \<noteq> u \<Longrightarrow> events_of v st1 = events_of v st"
  using get_queue_events[of u st st1 q] by (simp add: events_of_def)

lemma events_take:
  "events_of v (fst (take_events u ids limit now st)) =
     (if v = u then prune_expired now (ack_events ids (events_of u st)) else events_of v st)"
  "snd (take_events u ids limit now st) = take_locked limit (prune_expired now (ack_events ids (events_of u st)))"
proof -
  obtain st1 q where g: "get_queue u st = (st1, q)" by fastforce
  note e = get_queue_events[OF g] events_other[OF g, of v]
  show "events_of v (fst (take_events u ids limit now st)) =
     (if v = u then prune_expired now (ack_events ids (events_of u st)) else events_of v st)"
    using e events_put[of st1 u q] by (simp add: take_events_def g Let_def)
  show "snd (take_events u ids limit now st) = take_locked limit (prune_expired now (ack_events ids (events_of u st)))"
    using e by (simp add: take_events_def g Let_def)
qed

lemma events_wait:
  "events_of v (fst (wait_begin u ids timeout now st)) =
     (if v = u then prune_expired now (ack_events ids (events_of u st)) else events_of v st)"
proof -
  obtain st1 q where g: "get_queue u st = (st1, q)" by fastforce
  show ?thesis
    using get_queue_events[OF g] events_other[OF g, of v] events_put[of st1 u q] by (simp add: wait_begin_def g Let_def)
qed

lemma events_enqueue:
  "events_of v (enqueue_event bt bp u m p i n1 n2 st) =
     (if v = u then keep_newest (coalesce bt bp (new_event i m p n1) (prune_expired n2 (events_of u st)) @ [new_event i m p n1])
      else events_of v st)"
proof -
  obtain st1 q where g: "get_queue u st = (st1, q)" by fastforce
  note e = get_queue_events[OF g] events_other[OF g, of v]
  show ?thesis using e by (cases "v = u") (simp_all add: enqueue_event_def g Let_def events_of_def)
qed

definition push_sent :: "(nat \<Rightarrow> bool) \<Rightarrow> 'p event list \<Rightarrow> 'p event list" where
  "push_sent ok evs = map fst (takeWhile (\<lambda>(e, n). ok n) (zip evs [0..<length evs]))"

lemma events_push:
  "events_of v (fst (push_queued ok u now st)) =
     (if v = u then let evs = prune_expired now (events_of u st)
        in ack_events (map ev_id (push_sent ok evs)) evs else events_of v st)"
proof -
  obtain st1 evs where t: "take_events u [] 0 now st = (st1, evs)" by fastforce
  have a: "ack_events [] xs = xs" for xs :: "'p event list" by (simp add: ack_events_def)
  have e: "events_of w st1 = (if w = u then prune_expired now (events_of u st) else events_of w st)"
    "evs = prune_expired now (events_of u st)" for w
    using events_take(1)[of w u "[]" 0 now st] events_take(2)[of u "[]" 0 now st] by (simp_all add: t a take_locked_def)
  show ?thesis
    by (auto simp: push_queued_def t Let_def e events_ack push_sent_def ack_events_def)
qed

lemma events_do_other:
  "(case x of Enqueue u m p i n1 n2 \<Rightarrow> u | Take u ids l now \<Rightarrow> u | Ack u ids \<Rightarrow> u | Poll u ids t now \<Rightarrow> u | Push ok u now \<Rightarrow> u) \<noteq> v
    \<Longrightarrow> events_of v (do_event bt bp x st) = events_of v st"
  by (cases x) (auto simp: events_enqueue events_take events_wait events_ack events_push)

text \<open>A queue is bounded, and holds one event for each key.\<close>

definition queue_ok :: "('p \<Rightarrow> go_string option) \<Rightarrow> ('p \<Rightarrow> nat option) \<Rightarrow> 'p event list \<Rightarrow> bool" where
  "queue_ok bt bp evs = (length evs \<le> v2_event_queue_limit \<and>
     distinct (filter (\<lambda>k. k \<noteq> []) (map (coalesce_key bt bp) evs)))"

lemma queue_ok_filter: "queue_ok bt bp evs \<Longrightarrow> queue_ok bt bp (filter P evs)"
proof -
  have "distinct (filter (\<lambda>k. k \<noteq> []) (map f xs)) \<Longrightarrow> distinct (filter (\<lambda>k. k \<noteq> []) (map f (filter P xs)))" for f and xs
    by (induction xs) auto
  then show "queue_ok bt bp evs \<Longrightarrow> queue_ok bt bp (filter P evs)"
    by (auto simp: queue_ok_def intro: le_trans[OF length_filter_le])
qed

lemma queue_ok_enqueue:
  assumes "queue_ok bt bp evs"
  shows "queue_ok bt bp (keep_newest (coalesce bt bp e evs @ [e]))"
proof -
  let ?K = "\<lambda>evs. filter (\<lambda>k. k \<noteq> []) (map (coalesce_key bt bp) evs)"
  have "queue_ok bt bp (coalesce bt bp e evs)" using assms by (simp add: coalesce_def Let_def queue_ok_filter)
  moreover have "coalesce_key bt bp e \<noteq> [] \<Longrightarrow> coalesce_key bt bp e \<notin> set (map (coalesce_key bt bp) (coalesce bt bp e evs))"
    by (auto simp: coalesce_def Let_def)
  ultimately have d: "distinct (?K (coalesce bt bp e evs @ [e]))" by (auto simp: queue_ok_def)
  have "?K (keep_newest xs) = drop (length (?K xs) - length (?K (keep_newest xs))) (?K xs)" for xs :: "'a event list"
  proof -
    have "xs = take (length xs - v2_event_queue_limit) xs @ keep_newest xs" by (simp add: keep_newest_def)
    then have "?K xs = ?K (take (length xs - v2_event_queue_limit) xs) @ ?K (keep_newest xs)"
      by (metis filter_append map_append)
    then show ?thesis by simp
  qed
  then have "distinct (?K (keep_newest (coalesce bt bp e evs @ [e])))" by (metis d distinct_drop)
  moreover have "length (keep_newest xs) \<le> v2_event_queue_limit" for xs :: "'a event list" by (simp add: keep_newest_def)
  ultimately show ?thesis by (simp add: queue_ok_def)
qed

lemma do_event_ok:
  assumes "\<forall>u. queue_ok bt bp (events_of u st)"
  shows "queue_ok bt bp (events_of v (do_event bt bp x st))"
  using assms
  by (cases x) (simp_all add: events_enqueue events_take events_wait events_ack events_push Let_def prune_expired_def
      ack_events_filter queue_ok_filter queue_ok_enqueue)

lemma run_ops_ok: "(\<forall>u. queue_ok bt bp (events_of u st)) \<Longrightarrow> queue_ok bt bp (events_of v (run_ops bt bp ops st))"
  unfolding run_ops_def by (induction ops arbitrary: st) (simp_all add: do_event_ok)

lemma events_of_none: "events_of u no_events = []"
  by (simp add: events_of_def no_events_def)

lemma no_events_ok: "queue_ok bt bp (events_of u no_events)"
  by (simp add: queue_ok_def events_of_def no_events_def)

section \<open>An event waits until it is dealt with\<close>

definition waiting :: "'p event \<Rightarrow> nat \<Rightarrow> 'p event list \<Rightarrow> bool" where
  "waiting e n evs = (\<exists>xs ys. evs = xs @ e # ys \<and> length ys \<le> n)"

fun is_enqueue :: "go_string \<Rightarrow> 'p event_op \<Rightarrow> bool" where
  "is_enqueue u (Enqueue v m p i n1 n2) = (v = u)"
| "is_enqueue u _ = False"

text \<open>What an operation must not do to the event: acknowledge it, supersede it, or come after its end.\<close>

fun spares :: "('p \<Rightarrow> go_string option) \<Rightarrow> ('p \<Rightarrow> nat option) \<Rightarrow> go_string \<Rightarrow> 'p event \<Rightarrow> 'p event_op \<Rightarrow> bool" where
  "spares bt bp u e (Enqueue v m p i n1 n2) =
     (v = u \<longrightarrow> n2 < ev_expires e \<and> (coalesce_key bt bp e = [] \<or> coalesce_key bt bp (new_event i m p n1) \<noteq> coalesce_key bt bp e))"
| "spares bt bp u e (Take v ids limit now) = (v = u \<longrightarrow> ev_id e \<notin> set ids \<and> now < ev_expires e)"
| "spares bt bp u e (Ack v ids) = (v = u \<longrightarrow> ev_id e \<notin> set ids)"
| "spares bt bp u e (Poll v ids timeout now) = (v = u \<longrightarrow> ev_id e \<notin> set ids \<and> now < ev_expires e)"
| "spares bt bp u e (Push ok v now) = (v = u \<longrightarrow> now < ev_expires e \<and> (\<forall>n. \<not> ok n))"

lemma waiting_filter: "waiting e n evs \<Longrightarrow> P e \<Longrightarrow> waiting e n (filter P evs)"
proof -
  assume "waiting e n evs" "P e"
  then obtain xs ys where "evs = xs @ e # ys" "length ys \<le> n" by (auto simp: waiting_def)
  then have "filter P evs = filter P xs @ e # filter P ys" "length (filter P ys) \<le> n"
    using \<open>P e\<close> by (auto intro: le_trans[OF length_filter_le])
  then show ?thesis unfolding waiting_def by blast
qed

lemma waiting_snoc: "waiting e n evs \<Longrightarrow> waiting e (Suc n) (evs @ [x])"
  unfolding waiting_def by fastforce

lemma waiting_keep:
  assumes "waiting e n evs" "n < v2_event_queue_limit"
  shows "waiting e n (keep_newest evs)"
proof -
  obtain xs ys where e: "evs = xs @ e # ys" "length ys \<le> n" using assms(1) by (auto simp: waiting_def)
  let ?k = "length evs - v2_event_queue_limit"
  have "?k \<le> length xs" using e assms(2) by simp
  then have "drop ?k evs = drop ?k xs @ e # ys" by (simp add: e)
  then show ?thesis unfolding keep_newest_def waiting_def using e by auto
qed

lemma waiting_in: "waiting e n evs \<Longrightarrow> e \<in> set evs"
  by (auto simp: waiting_def)

lemma waiting_prune: "waiting e n evs \<Longrightarrow> now < ev_expires e \<Longrightarrow> waiting e n (prune_expired now evs)"
  unfolding prune_expired_def by (rule waiting_filter) auto

lemma waiting_ack: "waiting e n evs \<Longrightarrow> ev_id e \<notin> set ids \<Longrightarrow> waiting e n (ack_events ids evs)"
  unfolding ack_events_filter by (rule waiting_filter)

lemma waiting_coalesce:
  "waiting e n evs \<Longrightarrow> coalesce_key bt bp e = [] \<or> coalesce_key bt bp x \<noteq> coalesce_key bt bp e \<Longrightarrow> waiting e n (coalesce bt bp x evs)"
  unfolding coalesce_def Let_def by (auto intro: waiting_filter)

lemma push_sent_none: "\<forall>n. \<not> ok n \<Longrightarrow> push_sent ok evs = []"
  by (cases "zip evs [0..<length evs]") (auto simp: push_sent_def)

lemma spares_op:
  assumes "waiting e n (events_of u st)" "spares bt bp u e x" "n + (if is_enqueue u x then 1 else 0) < v2_event_queue_limit"
  shows "waiting e (n + (if is_enqueue u x then 1 else 0)) (events_of u (do_event bt bp x st))"
proof (cases x)
  case (Enqueue v m p i n1 n2)
  show ?thesis
  proof (cases "v = u")
    case True
    then have "waiting e n (coalesce bt bp (new_event i m p n1) (prune_expired n2 (events_of u st)))"
      using assms(1,2) Enqueue by (intro waiting_coalesce waiting_prune) auto
    from waiting_keep[OF waiting_snoc[OF this, of "new_event i m p n1"]] show ?thesis
      using True assms(3) Enqueue by (simp add: events_enqueue)
  qed (use assms(1) Enqueue in \<open>simp add: events_enqueue\<close>)
next
  case (Push ok v now)
  show ?thesis
    using assms by (auto simp: Push events_push Let_def push_sent_none ack_events_def intro!: waiting_prune)
qed (use assms in \<open>auto simp: events_take events_wait events_ack intro!: waiting_prune waiting_ack\<close>)

lemma spares_ops:
  "waiting e n (events_of u st) \<Longrightarrow> \<forall>x\<in>set ops. spares bt bp u e x \<Longrightarrow>
     n + length (filter (is_enqueue u) ops) < v2_event_queue_limit \<Longrightarrow>
     waiting e (n + length (filter (is_enqueue u) ops)) (events_of u (run_ops bt bp ops st))"
proof (induction ops arbitrary: n st)
  case (Cons x ops)
  then have "waiting e (n + (if is_enqueue u x then 1 else 0)) (events_of u (do_event bt bp x st))"
    by (intro spares_op) auto
  from Cons.IH[OF this] show ?case using Cons.prems(2,3) by (auto simp: run_ops_def split: if_splits)
qed (simp add: run_ops_def)

lemma enqueue_waiting: "waiting (new_event i m p n1) 0 (events_of u (enqueue_event bt bp u m p i n1 n2 st))"
proof -
  have "waiting (new_event i m p n1) 0 (xs @ [new_event i m p n1])" for xs by (auto simp: waiting_def)
  from waiting_keep[OF this] show ?thesis by (simp add: events_enqueue v2_event_queue_limit_def)
qed




section \<open>Polls wake up\<close>

definition signals_ok :: "'p event_state \<Rightarrow> bool" where
  "signals_ok st =
     ((\<forall>u q. es_queues st u = Some q \<longrightarrow> eq_signal q < es_next st \<and> eq_signal q \<notin> es_closed st) \<and>
      (\<forall>u v q r. es_queues st u = Some q \<and> es_queues st v = Some r \<and> eq_signal q = eq_signal r \<longrightarrow> u = v) \<and>
      (\<forall>c\<in>es_closed st. c < es_next st))"

text \<open>A signal belongs to an agent when it is the current one of its queue or was one that is now closed.\<close>

definition signal_of :: "go_string \<Rightarrow> 'p event_state \<Rightarrow> nat option" where
  "signal_of u st = map_option eq_signal (es_queues st u)"

lemma signals_ok_alt:
  "signals_ok st \<longleftrightarrow>
     (\<forall>u s. signal_of u st = Some s \<longrightarrow> s < es_next st \<and> s \<notin> es_closed st) \<and>
     (\<forall>u v s. signal_of u st = Some s \<and> signal_of v st = Some s \<longrightarrow> u = v) \<and>
     (\<forall>c\<in>es_closed st. c < es_next st)"
  unfolding signals_ok_def signal_of_def map_option_eq_Some by (smt (verit))

lemma get_queue_signals:
  assumes "signals_ok st" "get_queue u st = (st1, q)"
  shows "signals_ok st1" "signal_of u st1 = Some (eq_signal q)" "es_closed st1 = es_closed st"
    "\<forall>v s. signal_of v st = Some s \<longrightarrow> signal_of v st1 = Some s"
  using assms unfolding signals_ok_alt get_queue_def
  by (auto simp: Let_def signal_of_def split: option.splits if_splits) (metis less_irrefl less_SucI)+

lemma put_events_signals [simp]:
  "signal_of v (put_events u evs st) = signal_of v st" "es_closed (put_events u evs st) = es_closed st"
  "es_next (put_events u evs st) = es_next st"
  by (auto simp: put_events_def signal_of_def split: option.splits)

lemma signals_ok_put: "signals_ok (put_events u evs st) = signals_ok st"
  by (simp add: signals_ok_alt)

lemma take_signals:
  assumes "signals_ok st"
  shows "signals_ok (fst (take_events u ids limit now st))" "es_closed (fst (take_events u ids limit now st)) = es_closed st"
    "signal_of v st = Some s \<Longrightarrow> signal_of v (fst (take_events u ids limit now st)) = Some s"
proof -
  obtain st1 q where g: "get_queue u st = (st1, q)" by fastforce
  note s = get_queue_signals[OF assms g]
  show "signals_ok (fst (take_events u ids limit now st))" "es_closed (fst (take_events u ids limit now st)) = es_closed st"
    "signal_of v st = Some s \<Longrightarrow> signal_of v (fst (take_events u ids limit now st)) = Some s"
    using s by (simp_all add: take_events_def g Let_def signals_ok_put)
qed

lemma wait_signals:
  assumes "signals_ok st"
  shows "signals_ok (fst (wait_begin u ids timeout now st))" "es_closed (fst (wait_begin u ids timeout now st)) = es_closed st"
    "signal_of v st = Some s \<Longrightarrow> signal_of v (fst (wait_begin u ids timeout now st)) = Some s"
    "snd (wait_begin u ids timeout now st) = Inr sig \<Longrightarrow> signal_of u (fst (wait_begin u ids timeout now st)) = Some sig"
proof -
  obtain st1 q where g: "get_queue u st = (st1, q)" by fastforce
  note s = get_queue_signals[OF assms g]
  show "signals_ok (fst (wait_begin u ids timeout now st))" "es_closed (fst (wait_begin u ids timeout now st)) = es_closed st"
    "signal_of v st = Some s \<Longrightarrow> signal_of v (fst (wait_begin u ids timeout now st)) = Some s"
    "snd (wait_begin u ids timeout now st) = Inr sig \<Longrightarrow> signal_of u (fst (wait_begin u ids timeout now st)) = Some sig"
    using s by (simp_all add: wait_begin_def g Let_def signals_ok_put split: if_splits)
qed

lemma ack_signals [simp]:
  "signals_ok (ack_v2_events u ids st) = signals_ok st" "es_closed (ack_v2_events u ids st) = es_closed st"
  "signal_of v (ack_v2_events u ids st) = signal_of v st"
  by (auto simp: ack_v2_events_def signals_ok_put split: option.splits)

lemma enqueue_signals:
  assumes "signals_ok st"
  shows "signals_ok (enqueue_event bt bp u m p i n1 n2 st)" "es_closed st \<subseteq> es_closed (enqueue_event bt bp u m p i n1 n2 st)"
    "signal_of u st = Some s \<Longrightarrow> s \<in> es_closed (enqueue_event bt bp u m p i n1 n2 st)"
    "v \<noteq> u \<Longrightarrow> signal_of v st = Some s \<Longrightarrow> signal_of v (enqueue_event bt bp u m p i n1 n2 st) = Some s"
proof -
  obtain st1 q where g: "get_queue u st = (st1, q)" by fastforce
  note s = get_queue_signals[OF assms g]
  have q: "signal_of v (enqueue_event bt bp u m p i n1 n2 st) = (if v = u then Some (es_next st1) else signal_of v st1)"
    "es_closed (enqueue_event bt bp u m p i n1 n2 st) = insert (eq_signal q) (es_closed st1)"
    "es_next (enqueue_event bt bp u m p i n1 n2 st) = Suc (es_next st1)" for v
    by (simp_all add: enqueue_event_def g Let_def signal_of_def)
  show "signals_ok (enqueue_event bt bp u m p i n1 n2 st)"
    using s(1,2) unfolding signals_ok_alt q by (auto split: if_splits) (metis less_SucI less_irrefl)+
  show "es_closed st \<subseteq> es_closed (enqueue_event bt bp u m p i n1 n2 st)" using s(3) q(2) by auto
  show "signal_of u st = Some s \<Longrightarrow> s \<in> es_closed (enqueue_event bt bp u m p i n1 n2 st)"
    using s(2,4) q(2) by auto
  show "v \<noteq> u \<Longrightarrow> signal_of v st = Some s \<Longrightarrow> signal_of v (enqueue_event bt bp u m p i n1 n2 st) = Some s"
    using s(4) q(1) by auto
qed

lemma do_event_signals:
  assumes "signals_ok st"
  shows "signals_ok (do_event bt bp x st) \<and> es_closed st \<subseteq> es_closed (do_event bt bp x st) \<and>
    (signal_of u st = Some s \<longrightarrow> (if is_enqueue u x then s \<in> es_closed (do_event bt bp x st) else signal_of u (do_event bt bp x st) = Some s))"
proof (cases x)
  case (Enqueue v m p i n1 n2)
  then show ?thesis using enqueue_signals[OF assms] by auto
next
  case (Push ok v now)
  obtain st1 evs where t: "take_events v [] 0 now st = (st1, evs)" by fastforce
  have "signals_ok st1" "es_closed st1 = es_closed st" "signal_of u st = Some s \<Longrightarrow> signal_of u st1 = Some s"
    using take_signals[OF assms, where u = v and ids = "[]" and limit = 0 and now = now] by (simp_all add: t)
  then show ?thesis by (simp add: Push push_queued_def t Let_def)
qed (use take_signals[OF assms] wait_signals[OF assms] assms in auto)

lemma run_ops_signals:
  assumes "signals_ok st"
  shows "signals_ok (run_ops bt bp ops st) \<and> es_closed st \<subseteq> es_closed (run_ops bt bp ops st) \<and>
    (signal_of u st = Some s \<longrightarrow> (if \<exists>x\<in>set ops. is_enqueue u x then s \<in> es_closed (run_ops bt bp ops st)
       else signal_of u (run_ops bt bp ops st) = Some s))"
  using assms
proof (induction ops arbitrary: st)
  case (Cons x ops)
  note d = do_event_signals[OF Cons.prems, where bt = bt and bp = bp and x = x and u = u and s = s]
  have r: "run_ops bt bp (x # ops) st = run_ops bt bp ops (do_event bt bp x st)" by (simp add: run_ops_def)
  have "signals_ok (do_event bt bp x st)" using d by blast
  from Cons.IH[OF this] d show ?case unfolding r by (auto split: if_splits)
qed (simp add: run_ops_def)

lemma no_events_signals: "signals_ok no_events"
  by (simp add: signals_ok_def no_events_def)

text \<open>
  a long poll that finds nothing is woken by its signal exactly when an event for its agent has been queued
  since, whatever else happens to the queues in between: no event is missed, and no event of another agent
  wakes it; once woken, it answers with every event that waits.
\<close>

theorem poll_wakes:
  assumes "wait_begin u ids timeout t (run_ops bt bp earlier no_events) = (st, Inr sig)" and "now < deadline"
  shows "wait_woken sig deadline now (run_ops bt bp ops st) = (\<exists>x\<in>set ops. is_enqueue u x) \<and>
    snd (wait_end u now (run_ops bt bp ops st)) =
      filter (\<lambda>e. ev_expires e = zero_time \<or> now < ev_expires e) (events_of u (run_ops bt bp ops st))"
proof -
  have ok0: "signals_ok (run_ops bt bp earlier no_events)" using run_ops_signals[OF no_events_signals] by blast
  have st: "signals_ok st" "signal_of u st = Some sig"
    using wait_signals[OF ok0, where u = u and ids = ids and timeout = timeout and now = t] assms(1) by simp_all
  note r = run_ops_signals[OF st(1), where bt = bt and bp = bp and ops = ops and u = u and s = sig]
  have "sig \<in> es_closed (run_ops bt bp ops st) \<longleftrightarrow> (\<exists>x\<in>set ops. is_enqueue u x)"
    using r st(2) unfolding signals_ok_alt by (auto split: if_splits)
  moreover have "length (filter P (events_of u (run_ops bt bp ops st))) \<le> v2_event_queue_limit" for P
  proof -
    have "st = run_ops bt bp [Poll u ids timeout t] (run_ops bt bp earlier no_events)"
      using assms(1) by (simp add: run_ops_def[of _ _ "[Poll u ids timeout t]"])
    then have "run_ops bt bp ops st = run_ops bt bp (earlier @ Poll u ids timeout t # ops) no_events" by (simp add: run_ops_def)
    then have "length (events_of u (run_ops bt bp ops st)) \<le> v2_event_queue_limit"
      using run_ops_ok[OF allI[OF no_events_ok]] by (metis queue_ok_def)
    then show ?thesis using length_filter_le order_trans by blast
  qed
  ultimately show ?thesis using assms(2)
    by (simp add: wait_woken_def wait_end_def events_take take_locked_prefix ack_events_def prune_expired_def v2_event_queue_limit_def)
qed

theorem poll_wakes_witness:
  "let bt = (\<lambda>p::unit. None); bp = (\<lambda>p::unit. None);
       st = fst (wait_begin ''a'' [] 25 0 (run_ops bt bp [] no_events))
   in snd (wait_begin ''a'' [] 25 0 (run_ops bt bp [] no_events)) = Inr 0 \<and>
      \<not> wait_woken 0 25 8 (run_ops bt bp [Enqueue ''b'' ''m'' () ''e1'' 7 7] st) \<and>
      wait_woken 0 25 8 (run_ops bt bp [Enqueue ''b'' ''m'' () ''e1'' 7 7, Enqueue ''a'' ''m'' () ''e2'' 7 7] st)"
proof -
  let ?b = "\<lambda>p::unit. None"
  have w: "wait_begin ''a'' [] 25 0 (run_ops ?b ?b [] no_events) = (fst (wait_begin ''a'' [] 25 0 (run_ops ?b ?b [] no_events)), Inr 0)"
    by (simp add: wait_begin_def run_ops_def get_queue_def no_events_def Let_def take_locked_def ack_events_def prune_expired_def)
  have w2: "snd (wait_begin ''a'' [] 25 0 (run_ops ?b ?b [] no_events)) = Inr 0" by (subst w) simp
  show ?thesis unfolding Let_def using w2 poll_wakes[OF w, where now = 8 and deadline = 25] by simp
qed

end
