(* ===== verification/Agent_Presence.thy ===== *)
theory Agent_Presence
  imports Agent_Events
begin

text \<open>
  When an agent counts as online, and when the administrator is told: the offline and online notifications of
  utils/notifier/offline.go, the sessions of agents that report over HTTP (web/api/client/presence.go), the
  life of an agent's connection (WebSocketV2RPC of web/api/client/report_v2.go) and the intake of a report
  (web/api/client/ingest.go).  The functions run in goroutines; a step of the hub is one region between two
  points where another goroutine can run: a region under a lock, or one that touches a single table.  What
  the database and the settings say (whether the agent is known, whether notifications are on, the grace
  period) is an argument of each step, as are clock readings.  A connection identifier is the time in
  nanoseconds at which the connection was made; two connections never get the same one.
\<close>

section \<open>Notification state of an agent\<close>

text \<open>\<open>ns_pending\<close> is the time the agent went away, \<open>None\<close> for the zero time.\<close>

record notify_state =
  ns_pending :: "instant option"
  ns_first :: bool
  ns_exists :: bool
  ns_conn :: int

type_synonym notify_states = "go_string \<rightharpoonup> notify_state"

definition new_notify_state :: notify_state where
  "new_notify_state = \<lparr>ns_pending = None, ns_first = True, ns_exists = False, ns_conn = 0\<rparr>"

definition state_of :: "go_string \<Rightarrow> notify_states \<Rightarrow> notify_state" where
  "state_of u sts = (case sts u of Some s \<Rightarrow> s | None \<Rightarrow> new_notify_state)"

definition update_online_state :: "go_string \<Rightarrow> int \<Rightarrow> notify_states \<Rightarrow> notify_states \<times> bool" where
  "update_online_state u i sts =
     (let s = (state_of u sts)\<lparr>ns_conn := i\<rparr> in
      if ns_first s then (sts(u \<mapsto> s\<lparr>ns_first := False, ns_pending := None, ns_exists := True\<rparr>), False)
      else
        let was_pending = ns_pending s \<noteq> None; s1 = s\<lparr>ns_pending := None\<rparr> in
        if was_pending then (sts(u \<mapsto> s1), False)
        else if ns_exists s1 then (sts(u \<mapsto> s1), False)
        else (sts(u \<mapsto> s1\<lparr>ns_exists := True\<rparr>), True))"

definition grace_period :: "int \<Rightarrow> int" where
  "grace_period secs = (let d = wrap64 (secs * second) in if d \<le> 0 then 5 * 60 * second else d)"

text \<open>Marking an agent as gone: \<open>None\<close> when the connection is not the recorded one or the agent is already marked.\<close>

definition mark_offline :: "go_string \<Rightarrow> int \<Rightarrow> instant \<Rightarrow> notify_states \<Rightarrow> notify_states \<times> bool" where
  "mark_offline u i now sts =
     (let s = state_of u sts in
      if ns_pending s \<noteq> None \<or> ns_conn s \<noteq> i then (sts(u \<mapsto> s), False)
      else (sts(u \<mapsto> s\<lparr>ns_pending := Some now\<rparr>), True))"

text \<open>What the goroutine does after the grace period; the flag tells whether a notification is sent.\<close>

definition offline_due :: "go_string \<Rightarrow> int \<Rightarrow> notify_states \<Rightarrow> notify_states \<times> bool" where
  "offline_due u i sts =
     (let s = state_of u sts in
      if ns_pending s = None \<or> ns_conn s \<noteq> i then (sts, False)
      else (sts(u \<mapsto> s\<lparr>ns_pending := None, ns_exists := False\<rparr>), True))"

section \<open>The hub\<close>

record post_entry =
  pe_conn :: int
  pe_generation :: nat

record post_timer =
  pt_uuid :: go_string
  pt_conn :: int
  pt_generation :: nat
  pt_deadline :: instant

record sleeper =
  sl_uuid :: go_string
  sl_conn :: int
  sl_wake :: instant

text \<open>
  What has happened: \<open>Seen\<close> a connection was recorded, \<open>Gone\<close> its end was, with the grace period, \<open>Alerted\<close>
  the administrator was told that the agent is offline, \<open>Returned\<close> that it is online again; newest first.
\<close>

datatype hub_event =
    Seen instant go_string int
  | Gone instant go_string int int
  | Alerted instant go_string
  | Returned instant go_string

record hub =
  hb_clock :: instant
  hb_agents :: agent_tables
  hb_posts :: "go_string \<rightharpoonup> post_entry"
  hb_timers :: "post_timer list"
  hb_fired :: "post_timer list"
  hb_states :: notify_states
  hb_open :: "(go_string \<times> int) list"
  hb_online :: "(go_string \<times> int) list"
  hb_clearing :: "(go_string \<times> int) list"
  hb_offline :: "(go_string \<times> int) list"
  hb_sleep :: "sleeper list"
  hb_used :: "int set"
  hb_log :: "hub_event list"

definition new_hub :: "instant \<Rightarrow> hub" where
  "new_hub t = \<lparr>hb_clock = t, hb_agents = no_agents, hb_posts = Map.empty, hb_timers = [], hb_fired = [],
     hb_states = Map.empty, hb_open = [], hb_online = [], hb_clearing = [], hb_offline = [], hb_sleep = [],
     hb_used = {}, hb_log = []\<rparr>"

definition post_presence_ttl :: int where "post_presence_ttl = 35 * second"

text \<open>OnlineNotification: the recorded connection, and a notification when it is due and enabled.\<close>

definition online_notification :: "bool \<Rightarrow> bool \<Rightarrow> go_string \<Rightarrow> int \<Rightarrow> hub \<Rightarrow> hub" where
  "online_notification known enabled u i h =
     (if \<not> known then h
      else let (sts, notify) = update_online_state u i (hb_states h);
               log = Seen (hb_clock h) u i # hb_log h
           in h\<lparr>hb_states := sts, hb_log := if notify \<and> enabled then Returned (hb_clock h) u # log else log\<rparr>)"

text \<open>OfflineNotification up to the goroutine that sleeps, and that goroutine.\<close>

definition offline_notification :: "bool \<Rightarrow> bool \<Rightarrow> int \<Rightarrow> instant \<Rightarrow> go_string \<Rightarrow> int \<Rightarrow> hub \<Rightarrow> hub" where
  "offline_notification known enabled secs now u i h =
     (if \<not> known \<or> \<not> enabled then h
      else let (sts, marked) = mark_offline u i now (hb_states h); g = grace_period secs
           in if marked then h\<lparr>hb_states := sts, hb_log := Gone (hb_clock h) u i g # hb_log h,
                hb_sleep := \<lparr>sl_uuid = u, sl_conn = i, sl_wake = hb_clock h + g\<rparr> # hb_sleep h\<rparr>
              else h\<lparr>hb_states := sts\<rparr>)"

definition offline_wake :: "sleeper \<Rightarrow> hub \<Rightarrow> hub" where
  "offline_wake sl h =
     (let (sts, sent) = offline_due (sl_uuid sl) (sl_conn sl) (hb_states h)
      in h\<lparr>hb_states := sts, hb_sleep := remove1 sl (hb_sleep h),
           hb_log := if sent then Alerted (hb_clock h) (sl_uuid sl) # hb_log h else hb_log h\<rparr>)"

text \<open>
  The session of an agent that reports over HTTP.  Stopping a timer has no effect once its function has
  started (\<open>hb_fired\<close>).  \<open>fresh\<close> is the identifier of a session that is new.
\<close>

definition refresh_post_presence :: "go_string \<Rightarrow> int \<Rightarrow> hub \<Rightarrow> hub" where
  "refresh_post_presence u fresh h =
     (case hb_posts h u of
        Some e \<Rightarrow>
          let gen = pe_generation e + 1
          in h\<lparr>hb_posts := (hb_posts h)(u \<mapsto> e\<lparr>pe_generation := gen\<rparr>),
               hb_timers := \<lparr>pt_uuid = u, pt_conn = pe_conn e, pt_generation = gen, pt_deadline = hb_clock h + post_presence_ttl\<rparr> #
                 filter (\<lambda>t. \<not> (pt_uuid t = u \<and> pt_conn t = pe_conn e)) (hb_timers h),
               hb_agents := keep_alive_presence u (pe_conn e) post_presence_ttl (hb_clock h) (hb_agents h)\<rparr>
      | None \<Rightarrow>
          h\<lparr>hb_posts := (hb_posts h)(u \<mapsto> \<lparr>pe_conn = fresh, pe_generation = 0\<rparr>),
            hb_timers := \<lparr>pt_uuid = u, pt_conn = fresh, pt_generation = 0, pt_deadline = hb_clock h + post_presence_ttl\<rparr> # hb_timers h,
            hb_agents := mark_v2_client u (keep_alive_presence u fresh post_presence_ttl (hb_clock h) (hb_agents h)),
            hb_online := (u, fresh) # hb_online h, hb_used := insert fresh (hb_used h)\<rparr>)"

definition post_presence_expired :: "post_timer \<Rightarrow> hub \<Rightarrow> hub" where
  "post_presence_expired t h =
     (let u = pt_uuid t; h1 = h\<lparr>hb_fired := remove1 t (hb_fired h)\<rparr> in
      case hb_posts h u of None \<Rightarrow> h1
      | Some e \<Rightarrow> if pe_conn e \<noteq> pt_conn t \<or> pe_generation e \<noteq> pt_generation t then h1
          else h1\<lparr>hb_posts := (hb_posts h)(u := None), hb_clearing := (u, pt_conn t) # hb_clearing h\<rparr>)"

definition clear_presence :: "go_string \<Rightarrow> int \<Rightarrow> hub \<Rightarrow> hub" where
  "clear_presence u i h =
     h\<lparr>hb_clearing := remove1 (u, i) (hb_clearing h), hb_offline := (u, i) # hb_offline h,
       hb_agents := set_presence u i False (hb_clock h) (hb_agents h)\<rparr>"

text \<open>The handler of a connection from the upgrade to its loop, and its deferred end.\<close>

definition ws_connect :: "go_string \<Rightarrow> int \<Rightarrow> hub \<Rightarrow> hub" where
  "ws_connect u i h =
     h\<lparr>hb_agents := mark_v2_client u (set_connected_clients u i (hb_agents h)),
       hb_open := (u, i) # hb_open h, hb_online := (u, i) # hb_online h, hb_used := insert i (hb_used h)\<rparr>"

definition ws_close :: "go_string \<Rightarrow> int \<Rightarrow> hub \<Rightarrow> hub" where
  "ws_close u i h =
     h\<lparr>hb_agents := delete_client_conditionally u i (hb_agents h),
       hb_open := remove1 (u, i) (hb_open h), hb_offline := (u, i) # hb_offline h\<rparr>"

text \<open>
  A report that was verified and written (\<open>saved\<close>) is recorded; every report, also one that came over a
  connection, refreshes the HTTP session, since handleV2RPC passes \<open>markPresence = true\<close> for both.
\<close>

definition ingest_report :: "bool \<Rightarrow> go_string \<Rightarrow> report option \<Rightarrow> int \<Rightarrow> hub \<Rightarrow> hub" where
  "ingest_report mark_presence u saved fresh h =
     (case saved of None \<Rightarrow> h
      | Some r \<Rightarrow>
          let h1 = h\<lparr>hb_agents := mark_v2_client u (record_report r (hb_clock h) (hb_clock h) (hb_agents h))\<rparr>
          in if mark_presence then refresh_post_presence u fresh h1 else h1)"

definition handle_report :: "go_string \<Rightarrow> report option \<Rightarrow> int \<Rightarrow> hub \<Rightarrow> hub" where
  "handle_report u saved fresh h = ingest_report True u saved fresh h"

definition handle_pull :: "go_string \<Rightarrow> int \<Rightarrow> hub \<Rightarrow> hub" where
  "handle_pull u fresh h =
     (let h1 = refresh_post_presence u fresh h in h1\<lparr>hb_agents := mark_v2_client u (hb_agents h1)\<rparr>)"

inductive hub_next :: "hub \<Rightarrow> hub \<Rightarrow> bool" where
  tick: "hb_clock h \<le> t \<Longrightarrow> hub_next h (h\<lparr>hb_clock := t\<rparr>)"
| connect: "i \<notin> hb_used h \<Longrightarrow> i \<noteq> 0 \<Longrightarrow> hub_next h (ws_connect u i h)"
| close: "(u, i) \<in> set (hb_open h) \<Longrightarrow> hub_next h (ws_close u i h)"
| report: "i \<notin> hb_used h \<Longrightarrow> i \<noteq> 0 \<Longrightarrow> hub_next h (handle_report u saved i h)"
| pull: "i \<notin> hb_used h \<Longrightarrow> i \<noteq> 0 \<Longrightarrow> hub_next h (handle_pull u i h)"
| fire: "t \<in> set (hb_timers h) \<Longrightarrow> pt_deadline t \<le> hb_clock h \<Longrightarrow>
    hub_next h (h\<lparr>hb_timers := remove1 t (hb_timers h), hb_fired := t # hb_fired h\<rparr>)"
| expire: "t \<in> set (hb_fired h) \<Longrightarrow> hub_next h (post_presence_expired t h)"
| clear: "(u, i) \<in> set (hb_clearing h) \<Longrightarrow> hub_next h (clear_presence u i h)"
| online: "(u, i) \<in> set (hb_online h) \<Longrightarrow>
    hub_next h (online_notification known enabled u i (h\<lparr>hb_online := remove1 (u, i) (hb_online h)\<rparr>))"
| offline: "(u, i) \<in> set (hb_offline h) \<Longrightarrow> now \<le> hb_clock h \<Longrightarrow>
    hub_next h (offline_notification known enabled secs now u i (h\<lparr>hb_offline := remove1 (u, i) (hb_offline h)\<rparr>))"
| wake: "sl \<in> set (hb_sleep h) \<Longrightarrow> sl_wake sl \<le> hb_clock h \<Longrightarrow> hub_next h (offline_wake sl h)"

inductive hub_reach :: "hub \<Rightarrow> bool" where
  hub_start: "hub_reach (new_hub t)"
| hub_more: "hub_reach h \<Longrightarrow> hub_next h h' \<Longrightarrow> hub_reach h'"

inductive_cases hub_nextE: "hub_next h h'"

section \<open>Each connection ends once\<close>

definition tokens :: "hub \<Rightarrow> (go_string \<times> int) list" where
  "tokens h = hb_open h @ hb_clearing h @ hb_offline h @ map (\<lambda>sl. (sl_uuid sl, sl_conn sl)) (hb_sleep h)"

definition tokens_ok :: "hub \<Rightarrow> bool" where
  "tokens_ok h = (distinct (tokens h) \<and> (\<forall>x\<in>set (tokens h). snd x \<in> hb_used h) \<and>
     (\<forall>u e. hb_posts h u = Some e \<longrightarrow> pe_conn e \<in> hb_used h \<and> (u, pe_conn e) \<notin> set (tokens h)))"

lemma refresh_sel [simp]:
  "hb_clock (refresh_post_presence u i h) = hb_clock h" "hb_states (refresh_post_presence u i h) = hb_states h"
  "hb_sleep (refresh_post_presence u i h) = hb_sleep h" "hb_log (refresh_post_presence u i h) = hb_log h"
  "hb_open (refresh_post_presence u i h) = hb_open h" "hb_clearing (refresh_post_presence u i h) = hb_clearing h"
  "hb_offline (refresh_post_presence u i h) = hb_offline h"
  "hb_used (refresh_post_presence u i h) = (if hb_posts h u = None then insert i (hb_used h) else hb_used h)"
  "hb_posts (refresh_post_presence u i h) = (hb_posts h)(u \<mapsto> case hb_posts h u of
      Some e \<Rightarrow> e\<lparr>pe_generation := pe_generation e + 1\<rparr> | None \<Rightarrow> \<lparr>pe_conn = i, pe_generation = 0\<rparr>)"
  by (auto simp: refresh_post_presence_def Let_def split: option.splits)

lemma expired_sel [simp]:
  "hb_clock (post_presence_expired t h) = hb_clock h" "hb_states (post_presence_expired t h) = hb_states h"
  "hb_sleep (post_presence_expired t h) = hb_sleep h" "hb_log (post_presence_expired t h) = hb_log h"
  by (auto simp: post_presence_expired_def Let_def split: option.splits)

lemma tokens_refresh [simp]: "tokens (refresh_post_presence u i h) = tokens h"
  by (simp add: tokens_def)

lemma tokens_ok_refresh:
  assumes "tokens_ok h" "i \<notin> hb_used h"
  shows "tokens_ok (refresh_post_presence u i h)"
proof -
  have "(u, i) \<notin> set (tokens h)" using assms by (auto simp: tokens_ok_def)
  then show ?thesis using assms unfolding tokens_ok_def by (auto split: option.splits)
qed

lemma tokens_ok_same:
  "tokens_ok h \<Longrightarrow> tokens h' = tokens h \<Longrightarrow> hb_used h' = hb_used h \<Longrightarrow> hb_posts h' = hb_posts h \<Longrightarrow> tokens_ok h'"
  by (simp add: tokens_ok_def)

lemma distinct_mset_sub:
  assumes "distinct xs" "mset ys \<subseteq># mset xs"
  shows "distinct ys" "set ys \<subseteq> set xs"
proof -
  obtain M where "mset xs = mset ys + M" using assms(2) by (metis mset_subset_eq_exists_conv)
  moreover obtain zs where "mset zs = M" using ex_mset by blast
  ultimately have m: "mset xs = mset (ys @ zs)" by simp
  show "distinct ys" using mset_eq_imp_distinct_iff[OF m] assms(1) by simp
  show "set ys \<subseteq> set xs" using mset_eq_setD[OF m] by auto
qed

lemma tokens_ok_move:
  assumes "tokens_ok h" "mset (tokens h') \<subseteq># mset (tokens h)" "hb_used h' = hb_used h" "hb_posts h' = hb_posts h"
  shows "tokens_ok h'"
proof -
  have d: "distinct (tokens h)" using assms(1) by (simp add: tokens_ok_def)
  have "set (tokens h') \<subseteq> set (tokens h)" by (rule distinct_mset_sub(2)[OF d assms(2)])
  then show ?thesis using assms(1) distinct_mset_sub(1)[OF d assms(2)] unfolding tokens_ok_def assms(3,4) by (auto dest: subsetD)
qed

lemma mset_move: "x \<in> set xs \<Longrightarrow> add_mset x (mset (remove1 x xs)) = mset xs"
  by simp

lemma tokens_ok_next:
  assumes "hub_next h h'" "tokens_ok h"
  shows "tokens_ok h'"
  using assms
proof (cases rule: hub_next.cases)
  case (connect i u)
  have "(u, i) \<notin> set (tokens h)" using assms(2) connect(2) by (auto simp: tokens_ok_def)
  moreover have "tokens (ws_connect u i h) = (u, i) # tokens h" by (simp add: tokens_def ws_connect_def)
  ultimately show ?thesis using assms(2) connect(2) unfolding connect(1) tokens_ok_def by (auto simp: ws_connect_def)
next
  case (close u i)
  have "mset (tokens (ws_close u i h)) = mset (tokens h)"
    using close(2) by (simp add: tokens_def ws_close_def)
  then show ?thesis unfolding close(1) by (intro tokens_ok_move[OF assms(2)]) (simp_all add: ws_close_def)
next
  case (report i u saved)
  show ?thesis
  proof (cases saved)
    case (Some r)
    let ?h = "h\<lparr>hb_agents := mark_v2_client u (record_report r (hb_clock h) (hb_clock h) (hb_agents h))\<rparr>"
    have "tokens_ok ?h" by (rule tokens_ok_same[OF assms(2)]) (simp_all add: tokens_def)
    then show ?thesis using report Some tokens_ok_refresh[of ?h i u] by (simp add: handle_report_def ingest_report_def Let_def)
  qed (use report assms(2) in \<open>simp add: handle_report_def ingest_report_def\<close>)
next
  case (pull i u)
  show ?thesis unfolding pull(1) handle_pull_def Let_def
    by (rule tokens_ok_same[OF tokens_ok_refresh[OF assms(2) pull(2)]]) (simp_all add: tokens_def)
next
  case (expire t)
  show ?thesis
  proof (cases "hb_posts h (pt_uuid t)")
    case (Some e)
    then have e: "(pt_uuid t, pe_conn e) \<notin> set (tokens h)" "pe_conn e \<in> hb_used h" using assms(2) by (auto simp: tokens_ok_def)
    show ?thesis
    proof (cases "pe_conn e \<noteq> pt_conn t \<or> pe_generation e \<noteq> pt_generation t")
      case False
      let ?x = "(pt_uuid t, pe_conn e)"
      have h': "hb_used h' = hb_used h" "hb_posts h' = (hb_posts h)(pt_uuid t := None)"
        "mset (tokens h') = mset (?x # tokens h)"
        using False Some by (simp_all add: expire(1) post_presence_expired_def Let_def tokens_def)
      have "distinct (tokens h')" "set (tokens h') = insert ?x (set (tokens h))"
        using h'(3) e(1) assms(2) mset_eq_imp_distinct_iff[OF h'(3)] mset_eq_setD[OF h'(3)] by (auto simp: tokens_ok_def)
      then show ?thesis using assms(2) e(2) h' unfolding tokens_ok_def by auto
    qed (use assms(2) Some in \<open>simp add: expire(1) post_presence_expired_def Let_def tokens_ok_def tokens_def\<close>)
  qed (use assms(2) in \<open>simp add: expire(1) post_presence_expired_def Let_def tokens_ok_def tokens_def\<close>)
next
  case (clear u i)
  have "mset (tokens (clear_presence u i h)) = mset (tokens h)"
    using clear(2) by (simp add: tokens_def clear_presence_def)
  then show ?thesis unfolding clear(1) by (intro tokens_ok_move[OF assms(2)]) (simp_all add: clear_presence_def)
next
  case (online u i known enabled)
  show ?thesis unfolding online(1)
    by (rule tokens_ok_same[OF assms(2)])
      (auto simp: online_notification_def Let_def tokens_def split: prod.split)
next
  case (offline u i now known enabled secs)
  have "mset (tokens h') \<subseteq># mset (tokens h)"
    using mset_move[OF offline(2)] unfolding offline(1)
    by (auto simp: offline_notification_def Let_def tokens_def split: prod.split simp flip: add_mset_add_single)
  then show ?thesis
    by (rule tokens_ok_move[OF assms(2)])
      (auto simp: offline(1) offline_notification_def Let_def split: prod.split)
next
  case (wake sl)
  have "mset (map (\<lambda>sl. (sl_uuid sl, sl_conn sl)) (remove1 sl (hb_sleep h))) \<subseteq># mset (map (\<lambda>sl. (sl_uuid sl, sl_conn sl)) (hb_sleep h))"
    by (simp add: image_mset_subseteq_mono)
  then have "mset (tokens h') \<subseteq># mset (tokens h)"
    unfolding wake(1) by (auto simp: offline_wake_def tokens_def split: prod.split)
  then show ?thesis
    by (rule tokens_ok_move[OF assms(2)]) (auto simp: wake(1) offline_wake_def split: prod.split)
qed (auto simp: tokens_ok_def tokens_def)

section \<open>What the administrator is told\<close>

definition quiet :: "go_string \<Rightarrow> hub_event list \<Rightarrow> bool" where
  "quiet u L = (\<forall>x\<in>set L. (\<forall>c i. x \<noteq> Seen c u i) \<and> (\<forall>c. x \<noteq> Alerted c u))"

text \<open>
  \<open>gone_since\<close>: the last thing of note that happened to the agent is the end of connection \<open>i\<close>, whose grace
  period is over at \<open>w\<close>.  \<open>told_offline\<close>: its last notification said that it is offline.
\<close>

definition gone_since :: "go_string \<Rightarrow> int \<Rightarrow> instant \<Rightarrow> hub_event list \<Rightarrow> bool" where
  "gone_since u i w L = (\<exists>recent g gr earlier. L = recent @ Gone g u i gr # earlier \<and> quiet u recent \<and> 0 < gr \<and> g + gr \<le> w)"

definition told_offline :: "go_string \<Rightarrow> hub_event list \<Rightarrow> bool" where
  "told_offline u L = (\<exists>recent c earlier. L = recent @ Alerted c u # earlier \<and> (\<forall>c. Returned c u \<notin> set recent))"

fun log_ok :: "hub_event list \<Rightarrow> bool" where
  "log_ok [] = True"
| "log_ok (Alerted c u # L) = ((\<exists>i. gone_since u i c L) \<and> log_ok L)"
| "log_ok (Returned c u # L) = ((\<exists>i L'. L = Seen c u i # L' \<and> told_offline u L') \<and> log_ok L)"
| "log_ok (_ # L) = log_ok L"

definition sleep_ok :: "hub \<Rightarrow> bool" where
  "sleep_ok h = (\<forall>sl\<in>set (hb_sleep h). let s = state_of (sl_uuid sl) (hb_states h) in
     ns_pending s \<noteq> None \<and> ns_conn s = sl_conn sl \<longrightarrow> gone_since (sl_uuid sl) (sl_conn sl) (sl_wake sl) (hb_log h))"

definition absent_ok :: "hub \<Rightarrow> bool" where
  "absent_ok h = (\<forall>u s. hb_states h u = Some s \<and> \<not> ns_exists s \<and> \<not> ns_first s \<longrightarrow> told_offline u (hb_log h))"

definition alerts_ok :: "hub \<Rightarrow> bool" where
  "alerts_ok h = (sleep_ok h \<and> absent_ok h \<and> log_ok (hb_log h))"

lemma quiet_Cons: "quiet u (x # L) \<longleftrightarrow> (\<forall>c i. x \<noteq> Seen c u i) \<and> (\<forall>c. x \<noteq> Alerted c u) \<and> quiet u L"
  by (auto simp: quiet_def)

lemma gone_since_Cons:
  "gone_since u i w L \<Longrightarrow> (\<forall>c i. x \<noteq> Seen c u i) \<Longrightarrow> (\<forall>c. x \<noteq> Alerted c u) \<Longrightarrow> gone_since u i w (x # L)"
  unfolding gone_since_def by (metis append_Cons quiet_Cons)

lemma gone_since_now: "0 < gr \<Longrightarrow> g + gr \<le> w \<Longrightarrow> gone_since u i w (Gone g u i gr # L)"
  unfolding gone_since_def quiet_def by (metis append_Nil empty_iff list.set(1))

lemma gone_since_later: "gone_since u i w L \<Longrightarrow> w \<le> w' \<Longrightarrow> gone_since u i w' L"
  unfolding gone_since_def by (elim exE conjE) (intro exI conjI, assumption+, simp)

lemma told_offline_Cons: "told_offline u L \<Longrightarrow> (\<forall>c. x \<noteq> Returned c u) \<Longrightarrow> told_offline u (x # L)"
  unfolding told_offline_def by (metis append_Cons set_ConsD)

lemma told_offline_now: "told_offline u (Alerted c u # L)"
  unfolding told_offline_def by (metis append_Nil empty_iff list.set(1))

lemma grace_period_pos: "0 < grace_period secs"
  by (simp add: grace_period_def Let_def second_def)

lemma state_of_upd [simp]: "state_of v (sts(u \<mapsto> s)) = (if v = u then s else state_of v sts)"
  by (simp add: state_of_def)

lemma state_of_first: "ns_first (state_of u sts) = False \<Longrightarrow> sts u = Some (state_of u sts)"
  by (auto simp: state_of_def new_notify_state_def split: option.splits)

lemma alerts_ok_same:
  "alerts_ok h \<Longrightarrow> hb_states h' = hb_states h \<Longrightarrow> hb_log h' = hb_log h \<Longrightarrow> hb_sleep h' = hb_sleep h \<Longrightarrow> alerts_ok h'"
  by (simp add: alerts_ok_def sleep_ok_def absent_ok_def)

lemma update_online_cases:
  assumes "update_online_state u i sts = (sts', notify)"
  shows "\<exists>s. sts' = sts(u \<mapsto> s) \<and> ns_pending s = None \<and> ns_conn s = i \<and>
    (\<not> ns_exists s \<and> \<not> ns_first s \<longrightarrow> (\<exists>s0. sts u = Some s0 \<and> \<not> ns_exists s0 \<and> \<not> ns_first s0)) \<and>
    (notify \<longrightarrow> ns_exists s \<and> (\<exists>s0. sts u = Some s0 \<and> \<not> ns_exists s0 \<and> \<not> ns_first s0))"
proof -
  have "\<exists>s0. sts u = Some s0 \<and> \<not> ns_exists s0 \<and> \<not> ns_first s0"
    if "\<not> ns_first (state_of u sts)" "\<not> ns_exists (state_of u sts)"
    using state_of_first[of u sts] that by auto
  then show ?thesis using assms by (auto simp: update_online_state_def Let_def split: if_splits)
qed

lemma absent_okD: "absent_ok h \<Longrightarrow> hb_states h u = Some s \<Longrightarrow> \<not> ns_exists s \<Longrightarrow> \<not> ns_first s \<Longrightarrow> told_offline u (hb_log h)"
  by (auto simp: absent_ok_def)

lemma sleep_okD:
  "sleep_ok h \<Longrightarrow> sl \<in> set (hb_sleep h) \<Longrightarrow> ns_pending (state_of (sl_uuid sl) (hb_states h)) \<noteq> None \<Longrightarrow>
   ns_conn (state_of (sl_uuid sl) (hb_states h)) = sl_conn sl \<Longrightarrow> gone_since (sl_uuid sl) (sl_conn sl) (sl_wake sl) (hb_log h)"
  by (auto simp: sleep_ok_def Let_def)

lemma sleep_okI:
  "(\<And>sl. sl \<in> set (hb_sleep h) \<Longrightarrow> ns_pending (state_of (sl_uuid sl) (hb_states h)) \<noteq> None \<Longrightarrow>
     ns_conn (state_of (sl_uuid sl) (hb_states h)) = sl_conn sl \<Longrightarrow> gone_since (sl_uuid sl) (sl_conn sl) (sl_wake sl) (hb_log h)) \<Longrightarrow>
   sleep_ok h"
  by (auto simp: sleep_ok_def Let_def)

lemma absent_okI:
  "(\<And>u s. hb_states h u = Some s \<Longrightarrow> \<not> ns_exists s \<Longrightarrow> \<not> ns_first s \<Longrightarrow> told_offline u (hb_log h)) \<Longrightarrow> absent_ok h"
  by (auto simp: absent_ok_def)

lemma alerts_ok_online:
  assumes "alerts_ok h"
  shows "alerts_ok (online_notification known enabled u i h)"
proof (cases known)
  case True
  obtain sts notify where o: "update_online_state u i (hb_states h) = (sts, notify)" by fastforce
  let ?log = "Seen (hb_clock h) u i # hb_log h"
  let ?log' = "if notify \<and> enabled then Returned (hb_clock h) u # ?log else ?log"
  have h': "online_notification known enabled u i h = h\<lparr>hb_states := sts, hb_log := ?log'\<rparr>"
    using True o by (simp add: online_notification_def Let_def)
  obtain s where s: "sts = (hb_states h)(u \<mapsto> s)" "ns_pending s = None"
    "\<not> ns_exists s \<and> \<not> ns_first s \<longrightarrow> (\<exists>s0. hb_states h u = Some s0 \<and> \<not> ns_exists s0 \<and> \<not> ns_first s0)"
    "notify \<longrightarrow> ns_exists s \<and> (\<exists>s0. hb_states h u = Some s0 \<and> \<not> ns_exists s0 \<and> \<not> ns_first s0)"
    using update_online_cases[OF o] by blast
  have ok: "sleep_ok h" "absent_ok h" "log_ok (hb_log h)" using assms by (simp_all add: alerts_ok_def)
  show ?thesis unfolding h' alerts_ok_def
  proof (intro conjI sleep_okI absent_okI)
    fix sl
    assume sl: "sl \<in> set (hb_sleep (h\<lparr>hb_states := sts, hb_log := ?log'\<rparr>))"
      "ns_pending (state_of (sl_uuid sl) (hb_states (h\<lparr>hb_states := sts, hb_log := ?log'\<rparr>))) \<noteq> None"
      "ns_conn (state_of (sl_uuid sl) (hb_states (h\<lparr>hb_states := sts, hb_log := ?log'\<rparr>))) = sl_conn sl"
    then have u: "sl_uuid sl \<noteq> u" using s(1,2) by auto
    then have "gone_since (sl_uuid sl) (sl_conn sl) (sl_wake sl) (hb_log h)" using sleep_okD[OF ok(1), of sl] sl s(1) by simp
    then show "gone_since (sl_uuid sl) (sl_conn sl) (sl_wake sl) (hb_log (h\<lparr>hb_states := sts, hb_log := ?log'\<rparr>))"
      using u by (auto intro!: gone_since_Cons)
  next
    fix v t
    assume "hb_states (h\<lparr>hb_states := sts, hb_log := ?log'\<rparr>) v = Some t" "\<not> ns_exists t" "\<not> ns_first t"
    then have "told_offline v (hb_log h) \<and> (v = u \<longrightarrow> \<not> notify)"
      using s absent_okD[OF ok(2)] by (cases "v = u") auto
    then show "told_offline v (hb_log (h\<lparr>hb_states := sts, hb_log := ?log'\<rparr>))" by (auto intro!: told_offline_Cons)
  next
    show "log_ok (hb_log (h\<lparr>hb_states := sts, hb_log := ?log'\<rparr>))" using ok(3) s(4) absent_okD[OF ok(2)] by auto
  qed
qed (use assms in \<open>simp add: online_notification_def\<close>)

lemma alerts_ok_offline:
  assumes "alerts_ok h" "\<forall>sl\<in>set (hb_sleep h). (sl_uuid sl, sl_conn sl) \<noteq> (u, i)"
  shows "alerts_ok (offline_notification known enabled secs now u i h)"
proof (cases "known \<and> enabled")
  case True
  let ?s = "state_of u (hb_states h)"
  have ok: "sleep_ok h" "absent_ok h" "log_ok (hb_log h)" using assms by (simp_all add: alerts_ok_def)
  have new: "\<not> ns_first s \<Longrightarrow> \<not> ns_exists s \<Longrightarrow> hb_states h u = Some s" if "s = ?s" for s
    using that state_of_first[of u "hb_states h"] by auto
  show ?thesis
  proof (cases "ns_pending ?s \<noteq> None \<or> ns_conn ?s \<noteq> i")
    case same: True
    then have h': "offline_notification known enabled secs now u i h = h\<lparr>hb_states := (hb_states h)(u \<mapsto> ?s)\<rparr>" (is "_ = ?h'")
      using True by (simp add: offline_notification_def mark_offline_def Let_def)
    have "sleep_ok ?h'" by (rule sleep_okI) (use sleep_okD[OF ok(1)] in \<open>auto split: if_splits\<close>)
    moreover have "absent_ok ?h'" by (rule absent_okI) (use absent_okD[OF ok(2)] new in \<open>auto split: if_splits\<close>)
    ultimately show ?thesis unfolding h' alerts_ok_def using ok(3) by simp
  next
    case False
    let ?sl = "\<lparr>sl_uuid = u, sl_conn = i, sl_wake = hb_clock h + grace_period secs\<rparr>"
    let ?log = "Gone (hb_clock h) u i (grace_period secs) # hb_log h"
    have h': "offline_notification known enabled secs now u i h =
        h\<lparr>hb_states := (hb_states h)(u \<mapsto> ?s\<lparr>ns_pending := Some now\<rparr>), hb_log := ?log, hb_sleep := ?sl # hb_sleep h\<rparr>" (is "_ = ?h'")
      using True False by (simp add: offline_notification_def mark_offline_def Let_def)
    have "sleep_ok ?h'"
    proof (rule sleep_okI)
      fix sl
      assume sl: "sl \<in> set (hb_sleep ?h')" "ns_pending (state_of (sl_uuid sl) (hb_states ?h')) \<noteq> None"
        "ns_conn (state_of (sl_uuid sl) (hb_states ?h')) = sl_conn sl"
      show "gone_since (sl_uuid sl) (sl_conn sl) (sl_wake sl) (hb_log ?h')"
      proof (cases "sl = ?sl")
        case True
        then show ?thesis by (simp add: gone_since_now grace_period_pos)
      next
        case old: False
        then have "sl \<in> set (hb_sleep h)" using sl(1) by simp
        moreover from this have u: "sl_uuid sl \<noteq> u" using sl(3) assms(2) False by auto
        ultimately show ?thesis using sleep_okD[OF ok(1), of sl] sl by (auto intro!: gone_since_Cons)
      qed
    qed
    moreover have "absent_ok ?h'"
      by (rule absent_okI) (use absent_okD[OF ok(2)] new in \<open>auto intro!: told_offline_Cons split: if_splits\<close>)
    ultimately show ?thesis unfolding h' alerts_ok_def using ok(3) by simp
  qed
qed (use assms in \<open>simp add: offline_notification_def\<close>)

lemma alerts_ok_wake:
  assumes "alerts_ok h" "sl \<in> set (hb_sleep h)" "sl_wake sl \<le> hb_clock h"
  shows "alerts_ok (offline_wake sl h)"
proof -
  let ?u = "sl_uuid sl" and ?s = "state_of (sl_uuid sl) (hb_states h)"
  have ok: "sleep_ok h" "absent_ok h" "log_ok (hb_log h)" using assms by (simp_all add: alerts_ok_def)
  show ?thesis
  proof (cases "ns_pending ?s = None \<or> ns_conn ?s \<noteq> sl_conn sl")
    case True
    then have h': "offline_wake sl h = h\<lparr>hb_sleep := remove1 sl (hb_sleep h)\<rparr>"
      by (auto simp: offline_wake_def offline_due_def Let_def)
    have "sleep_ok (h\<lparr>hb_sleep := remove1 sl (hb_sleep h)\<rparr>)"
    proof (rule sleep_okI, goal_cases)
      case (1 x)
      then show ?case using sleep_okD[OF ok(1), of x] subsetD[OF set_remove1_subset, of x sl "hb_sleep h"] by simp
    qed
    then show ?thesis unfolding h' alerts_ok_def using ok by (simp add: absent_ok_def)
  next
    case False
    let ?log = "Alerted (hb_clock h) ?u # hb_log h"
    have h': "offline_wake sl h = h\<lparr>hb_states := (hb_states h)(?u \<mapsto> ?s\<lparr>ns_pending := None, ns_exists := False\<rparr>),
        hb_sleep := remove1 sl (hb_sleep h), hb_log := ?log\<rparr>" (is "_ = ?h'")
      using False by (auto simp: offline_wake_def offline_due_def Let_def)
    have g: "gone_since ?u (sl_conn sl) (hb_clock h) (hb_log h)"
      using sleep_okD[OF ok(1) assms(2)] False gone_since_later[OF _ assms(3)] by auto
    have "sleep_ok ?h'"
    proof (rule sleep_okI, goal_cases)
      case (1 x)
      then have u: "sl_uuid x \<noteq> ?u" by auto
      then have "gone_since (sl_uuid x) (sl_conn x) (sl_wake x) (hb_log h)"
        using 1 sleep_okD[OF ok(1), of x] subsetD[OF set_remove1_subset, of x sl "hb_sleep h"] by simp
      then show ?case using u by (auto intro!: gone_since_Cons)
    qed
    moreover have "absent_ok ?h'"
      by (rule absent_okI) (use absent_okD[OF ok(2)] told_offline_now in \<open>auto intro!: told_offline_Cons split: if_splits\<close>)
    ultimately show ?thesis unfolding h' alerts_ok_def using ok(3) g by auto
  qed
qed

lemma alerts_ok_next:
  assumes "hub_next h h'" "tokens_ok h" "alerts_ok h"
  shows "alerts_ok h'"
  using assms(1)
proof (cases rule: hub_next.cases)
  case (report i u saved)
  then show ?thesis
    by (intro alerts_ok_same[OF assms(3)]) (auto simp: handle_report_def ingest_report_def Let_def split: option.split)
next
  case (online u i known enabled)
  have "alerts_ok (h\<lparr>hb_online := remove1 (u, i) (hb_online h)\<rparr>)" by (rule alerts_ok_same[OF assms(3)]) simp_all
  then show ?thesis unfolding online(1) by (rule alerts_ok_online)
next
  case (offline u i now known enabled secs)
  have "alerts_ok (h\<lparr>hb_offline := remove1 (u, i) (hb_offline h)\<rparr>)" by (rule alerts_ok_same[OF assms(3)]) simp_all
  moreover have "(u, i) \<notin> (\<lambda>sl. (sl_uuid sl, sl_conn sl)) ` set (hb_sleep h)"
    using assms(2) offline(2) by (auto simp: tokens_ok_def tokens_def)
  ultimately show ?thesis unfolding offline(1) by (intro alerts_ok_offline) auto
next
  case (wake sl)
  then show ?thesis using alerts_ok_wake[OF assms(3)] by simp
qed (use alerts_ok_same[OF assms(3)] in \<open>auto simp: ws_connect_def ws_close_def handle_pull_def Let_def clear_presence_def\<close>)

lemma hub_reach_ok: "hub_reach h \<Longrightarrow> tokens_ok h \<and> alerts_ok h"
proof (induction rule: hub_reach.induct)
  case (hub_start t)
  show ?case by (simp add: tokens_ok_def tokens_def alerts_ok_def sleep_ok_def absent_ok_def new_hub_def)
next
  case (hub_more h h')
  then show ?case using tokens_ok_next alerts_ok_next by blast
qed

lemma log_ok_alerted: "log_ok (new @ Alerted c u # old) \<Longrightarrow> \<exists>i. gone_since u i c old"
  by (induction new rule: log_ok.induct) auto

lemma log_ok_returned: "log_ok (new @ Returned c u # old) \<Longrightarrow> \<exists>i old'. old = Seen c u i # old' \<and> told_offline u old'"
  by (induction new rule: log_ok.induct) auto

text \<open>
  C5: in every interleaving of connections, reports, their goroutines and timers, an administrator is told
  that an agent is offline only when its last recorded connection ended at least one grace period earlier
  and no connection of the agent was recorded since, and at most once for each end; and that it is online
  again only for the connection just recorded and when the last thing told of the agent was that it is offline.
\<close>

theorem alerts_exact:
  assumes "hub_reach h"
  shows "(\<forall>new c u old. hb_log h = new @ Alerted c u # old \<longrightarrow>
      (\<exists>i recent g gr earlier. old = recent @ Gone g u i gr # earlier \<and> quiet u recent \<and> 0 < gr \<and> g + gr \<le> c)) \<and>
    (\<forall>new c u old. hb_log h = new @ Returned c u # old \<longrightarrow>
      (\<exists>i old' recent c' earlier. old = Seen c u i # old' \<and> old' = recent @ Alerted c' u # earlier \<and> (\<forall>c. Returned c u \<notin> set recent)))"
proof -
  have ok: "log_ok (hb_log h)" using hub_reach_ok[OF assms] by (simp add: alerts_ok_def)
  have "\<exists>i. gone_since u i c old" if "hb_log h = new @ Alerted c u # old" for new c u old
    using log_ok_alerted ok that by metis
  moreover have "\<exists>i old'. old = Seen c u i # old' \<and> told_offline u old'" if "hb_log h = new @ Returned c u # old" for new c u old
    using log_ok_returned ok that by metis
  ultimately show ?thesis unfolding gone_since_def told_offline_def by blast
qed

section \<open>Agents that report over HTTP\<close>

definition post_ok :: "hub \<Rightarrow> bool" where
  "post_ok h =
     ((\<forall>t\<in>set (hb_timers h @ hb_fired h). pt_conn t \<in> hb_used h \<and>
        (\<forall>e. hb_posts h (pt_uuid t) = Some e \<and> pt_conn t = pe_conn e \<longrightarrow> pt_generation t \<le> pe_generation e \<and>
          (pt_generation t = pe_generation e \<longrightarrow> ag_presence (hb_agents h) (pt_uuid t) = Some (pe_conn e, pt_deadline t)))) \<and>
      (\<forall>u e. hb_posts h u = Some e \<longrightarrow>
        (\<exists>t\<in>set (hb_timers h @ hb_fired h). pt_uuid t = u \<and> pt_conn t = pe_conn e \<and> pt_generation t = pe_generation e)) \<and>
      (\<forall>t\<in>set (hb_fired h). pt_deadline t \<le> hb_clock h))"

lemma presence_sel [simp]:
  "ag_presence (mark_v2_client u st) = ag_presence st" "ag_presence (set_connected_clients u i st) = ag_presence st"
  "ag_presence (delete_client_conditionally u i st) = ag_presence st"
  "ag_presence (keep_alive_presence u i ttl now st) = (ag_presence st)(u \<mapsto> (i, now + ttl))"
  "ag_presence (note_latest r st) = ag_presence st" "ag_presence (record_report r n1 n2 st) = ag_presence st"
  by (auto simp: mark_v2_client_def set_connected_clients_def delete_client_conditionally_def delete_connected_clients_def
      keep_alive_presence_def note_latest_def record_report_def Let_def split: option.split)

lemma post_okI:
  assumes "\<And>t. t \<in> set (hb_timers h @ hb_fired h) \<Longrightarrow> pt_conn t \<in> hb_used h"
    "\<And>t e. t \<in> set (hb_timers h @ hb_fired h) \<Longrightarrow> hb_posts h (pt_uuid t) = Some e \<Longrightarrow> pt_conn t = pe_conn e \<Longrightarrow>
      pt_generation t \<le> pe_generation e \<and>
      (pt_generation t = pe_generation e \<longrightarrow> ag_presence (hb_agents h) (pt_uuid t) = Some (pe_conn e, pt_deadline t))"
    "\<And>u e. hb_posts h u = Some e \<Longrightarrow>
      \<exists>t\<in>set (hb_timers h @ hb_fired h). pt_uuid t = u \<and> pt_conn t = pe_conn e \<and> pt_generation t = pe_generation e"
    "\<And>t. t \<in> set (hb_fired h) \<Longrightarrow> pt_deadline t \<le> hb_clock h"
  shows "post_ok h"
  using assms unfolding post_ok_def by blast

lemma post_okD:
  assumes "post_ok h"
  shows "t \<in> set (hb_timers h @ hb_fired h) \<Longrightarrow> pt_conn t \<in> hb_used h"
    "t \<in> set (hb_timers h @ hb_fired h) \<Longrightarrow> hb_posts h (pt_uuid t) = Some e \<Longrightarrow> pt_conn t = pe_conn e \<Longrightarrow>
      pt_generation t \<le> pe_generation e \<and>
      (pt_generation t = pe_generation e \<longrightarrow> ag_presence (hb_agents h) (pt_uuid t) = Some (pe_conn e, pt_deadline t))"
    "hb_posts h u = Some e \<Longrightarrow>
      \<exists>t\<in>set (hb_timers h @ hb_fired h). pt_uuid t = u \<and> pt_conn t = pe_conn e \<and> pt_generation t = pe_generation e"
    "t \<in> set (hb_fired h) \<Longrightarrow> pt_deadline t \<le> hb_clock h"
  using assms unfolding post_ok_def by blast+

lemma post_ok_same:
  assumes "post_ok h" "hb_timers h' = hb_timers h" "hb_fired h' = hb_fired h" "hb_posts h' = hb_posts h"
    "hb_used h \<subseteq> hb_used h'" "ag_presence (hb_agents h') = ag_presence (hb_agents h)" "hb_clock h \<le> hb_clock h'"
  shows "post_ok h'"
proof (rule post_okI)
  note D = post_okD[OF assms(1)]
  show "pt_conn t \<in> hb_used h'" if "t \<in> set (hb_timers h' @ hb_fired h')" for t using D(1)[of t] that assms by auto
  show "pt_deadline t \<le> hb_clock h'" if "t \<in> set (hb_fired h')" for t using D(4)[of t] that assms by auto
qed (use post_okD[OF assms(1)] assms(2-4,6) in auto)

lemma post_ok_refresh:
  assumes "post_ok h" "tokens_ok h" "i \<notin> hb_used h"
  shows "post_ok (refresh_post_presence u i h)"
proof (cases "hb_posts h u")
  case None
  let ?t = "\<lparr>pt_uuid = u, pt_conn = i, pt_generation = 0, pt_deadline = hb_clock h + post_presence_ttl\<rparr>"
  note D = post_okD[OF assms(1)]
  have old: "pt_conn t \<noteq> i" if "t \<in> set (hb_timers h @ hb_fired h)" for t using D(1)[OF that] assms(3) by auto
  have h': "hb_timers (refresh_post_presence u i h) = ?t # hb_timers h" "hb_fired (refresh_post_presence u i h) = hb_fired h"
    "ag_presence (hb_agents (refresh_post_presence u i h)) = (ag_presence (hb_agents h))(u \<mapsto> (i, hb_clock h + post_presence_ttl))"
    using None by (simp_all add: refresh_post_presence_def)
  show ?thesis
  proof (rule post_okI)
    fix t e
    assume t: "t \<in> set (hb_timers (refresh_post_presence u i h) @ hb_fired (refresh_post_presence u i h))"
      "hb_posts (refresh_post_presence u i h) (pt_uuid t) = Some e" "pt_conn t = pe_conn e"
    show "pt_generation t \<le> pe_generation e \<and> (pt_generation t = pe_generation e \<longrightarrow>
        ag_presence (hb_agents (refresh_post_presence u i h)) (pt_uuid t) = Some (pe_conn e, pt_deadline t))"
    proof (cases "pt_uuid t = u")
      case True
      then have "t = ?t" using t None old[of t] h' by auto
      then show ?thesis using t None h' by auto
    next
      case False
      then show ?thesis using t h' D(2)[of t e] by auto
    qed
  next
    fix v e
    assume "hb_posts (refresh_post_presence u i h) v = Some e"
    then show "\<exists>t\<in>set (hb_timers (refresh_post_presence u i h) @ hb_fired (refresh_post_presence u i h)).
        pt_uuid t = v \<and> pt_conn t = pe_conn e \<and> pt_generation t = pe_generation e"
      using None h' D(3)[of v e] by (auto split: if_splits)
  qed (use D None h' in auto)
next
  case (Some e0)
  let ?t = "\<lparr>pt_uuid = u, pt_conn = pe_conn e0, pt_generation = pe_generation e0 + 1, pt_deadline = hb_clock h + post_presence_ttl\<rparr>"
  note D = post_okD[OF assms(1)]
  have h': "hb_timers (refresh_post_presence u i h) = ?t # filter (\<lambda>t. \<not> (pt_uuid t = u \<and> pt_conn t = pe_conn e0)) (hb_timers h)"
    "hb_fired (refresh_post_presence u i h) = hb_fired h"
    "ag_presence (hb_agents (refresh_post_presence u i h)) = (ag_presence (hb_agents h))(u \<mapsto> (pe_conn e0, hb_clock h + post_presence_ttl))"
    using Some by (simp_all add: refresh_post_presence_def Let_def)
  have e0: "pe_conn e0 \<in> hb_used h" using assms(2) Some by (auto simp: tokens_ok_def)
  show ?thesis
  proof (rule post_okI)
    fix t e
    assume t: "t \<in> set (hb_timers (refresh_post_presence u i h) @ hb_fired (refresh_post_presence u i h))"
      "hb_posts (refresh_post_presence u i h) (pt_uuid t) = Some e" "pt_conn t = pe_conn e"
    show "pt_generation t \<le> pe_generation e \<and> (pt_generation t = pe_generation e \<longrightarrow>
        ag_presence (hb_agents (refresh_post_presence u i h)) (pt_uuid t) = Some (pe_conn e, pt_deadline t))"
    proof (cases "pt_uuid t = u")
      case True
      have e: "e = e0\<lparr>pe_generation := pe_generation e0 + 1\<rparr>" using True t Some by simp
      consider "t = ?t" | "t \<in> set (hb_timers h @ hb_fired h)" using t(1) h' by auto
      then show ?thesis
      proof cases
        case 2
        then have "pt_generation t \<le> pe_generation e0" using D(2)[OF 2, of e0] True Some t(3) e by simp
        then show ?thesis using e by simp
      qed (use e h' in simp)
    next
      case False
      then show ?thesis using t h' D(2)[of t e] by auto
    qed
  next
    fix v e
    assume e: "hb_posts (refresh_post_presence u i h) v = Some e"
    show "\<exists>t\<in>set (hb_timers (refresh_post_presence u i h) @ hb_fired (refresh_post_presence u i h)).
        pt_uuid t = v \<and> pt_conn t = pe_conn e \<and> pt_generation t = pe_generation e"
    proof (cases "v = u")
      case False
      then show ?thesis using Some h' e D(3)[of v e] by auto
    qed (use e Some h' in auto)
  qed (use D Some h' e0 in auto)
qed

lemma post_ok_drop:
  assumes "post_ok h" "set (hb_timers h' @ hb_fired h') \<subseteq> set (hb_timers h @ hb_fired h)" "set (hb_fired h') \<subseteq> set (hb_fired h)"
    "\<And>v e. hb_posts h' v = Some e \<Longrightarrow> hb_posts h v = Some e"
    "\<And>v e t. hb_posts h' v = Some e \<Longrightarrow> t \<in> set (hb_timers h @ hb_fired h) \<Longrightarrow> pt_uuid t = v \<Longrightarrow> pt_conn t = pe_conn e \<Longrightarrow>
      pt_generation t = pe_generation e \<Longrightarrow> t \<in> set (hb_timers h' @ hb_fired h')"
    "hb_used h' = hb_used h" "\<And>v e. hb_posts h' v = Some e \<Longrightarrow> ag_presence (hb_agents h') v = ag_presence (hb_agents h) v"
    "hb_clock h' = hb_clock h"
  shows "post_ok h'"
proof -
  note D = post_okD[OF assms(1)]
  show ?thesis
  proof (rule post_okI)
    show "pt_conn t \<in> hb_used h'" if "t \<in> set (hb_timers h' @ hb_fired h')" for t using D(1) assms(2,6) that by blast
    show "pt_deadline t \<le> hb_clock h'" if "t \<in> set (hb_fired h')" for t using D(4) assms(3,8) that by (metis subsetD)
    show "pt_generation t \<le> pe_generation e \<and>
        (pt_generation t = pe_generation e \<longrightarrow> ag_presence (hb_agents h') (pt_uuid t) = Some (pe_conn e, pt_deadline t))"
      if "t \<in> set (hb_timers h' @ hb_fired h')" "hb_posts h' (pt_uuid t) = Some e" "pt_conn t = pe_conn e" for t e
      using D(2)[of t e] assms(2,4,7) that by (metis subsetD)
    show "\<exists>t\<in>set (hb_timers h' @ hb_fired h'). pt_uuid t = u \<and> pt_conn t = pe_conn e \<and> pt_generation t = pe_generation e"
      if "hb_posts h' u = Some e" for u e using D(3)[of u e] assms(4,5) that by metis
  qed
qed

lemma post_ok_next:
  assumes "hub_next h h'" "tokens_ok h" "post_ok h"
  shows "post_ok h'"
  using assms(1)
proof (cases rule: hub_next.cases)
  case (report i u saved)
  show ?thesis
  proof (cases saved)
    case (Some r)
    let ?h = "h\<lparr>hb_agents := mark_v2_client u (record_report r (hb_clock h) (hb_clock h) (hb_agents h))\<rparr>"
    have "tokens_ok ?h" by (rule tokens_ok_same[OF assms(2)]) (simp_all add: tokens_def)
    moreover have "post_ok ?h" by (rule post_ok_same[OF assms(3)]) simp_all
    ultimately show ?thesis using report Some post_ok_refresh[of ?h i u] by (simp add: handle_report_def ingest_report_def Let_def)
  qed (use report assms(3) in \<open>simp add: handle_report_def ingest_report_def\<close>)
next
  case (pull i u)
  show ?thesis unfolding pull(1) handle_pull_def Let_def
    by (rule post_ok_same[OF post_ok_refresh[OF assms(3,2) pull(2)]]) simp_all
next
  case (fire t)
  have s: "x \<in> set (t # remove1 t (hb_timers h)) \<longleftrightarrow> x \<in> set (hb_timers h)" for x
    using fire(2) by (metis in_set_remove1 list.set_intros(1) notin_set_remove1 set_ConsD list.set_intros(2))
  have same: "set (hb_timers h' @ hb_fired h') = set (hb_timers h @ hb_fired h)"
    using s unfolding fire(1) by auto
  have eqs: "hb_posts h' = hb_posts h" "hb_used h' = hb_used h" "hb_agents h' = hb_agents h" "hb_clock h' = hb_clock h"
    "hb_fired h' = t # hb_fired h" by (simp_all add: fire(1))
  show ?thesis using assms(3) fire(3) unfolding post_ok_def same eqs(1-4) by (simp add: eqs(5))
next
  case (expire t)
  show ?thesis
  proof (cases "\<exists>e. hb_posts h (pt_uuid t) = Some e \<and> pe_conn e = pt_conn t \<and> pe_generation e = pt_generation t")
    case True
    then have h': "hb_posts h' = (hb_posts h)(pt_uuid t := None)" "hb_timers h' = hb_timers h" "hb_fired h' = remove1 t (hb_fired h)"
      "hb_used h' = hb_used h" "hb_agents h' = hb_agents h" "hb_clock h' = hb_clock h"
      by (auto simp: expire(1) post_presence_expired_def Let_def)
    show ?thesis
      by (rule post_ok_drop[OF assms(3)]) (use set_remove1_subset[of t "hb_fired h"] h' in \<open>auto split: if_splits intro: in_set_remove1[THEN iffD2]\<close>)
  next
    case False
    then have h': "hb_posts h' = hb_posts h" "hb_timers h' = hb_timers h" "hb_fired h' = remove1 t (hb_fired h)"
      "hb_used h' = hb_used h" "hb_agents h' = hb_agents h" "hb_clock h' = hb_clock h"
      by (auto simp: expire(1) post_presence_expired_def Let_def split: option.splits)
    have other: "x \<in> set (remove1 t (hb_fired h))" if "x \<in> set (hb_fired h)" "x \<noteq> t" for x using that by simp
    show ?thesis
    proof (rule post_ok_drop[OF assms(3)], goal_cases)
      case (4 v e x)
      then have "x \<noteq> t" using False h' by auto
      then show ?case using 4 h' other[of x] by auto
    qed (use set_remove1_subset[of t "hb_fired h"] h' in auto)
  qed
next
  case (clear u i)
  have "pe_conn e \<noteq> i" if "hb_posts h u = Some e" for e
    using that assms(2) clear(2) by (auto simp: tokens_ok_def tokens_def)
  moreover have "ag_presence (hb_agents h) u = Some (pe_conn e, d)" if "hb_posts h u = Some e"
    "t \<in> set (hb_timers h @ hb_fired h)" "pt_uuid t = u" "pt_conn t = pe_conn e" "pt_generation t = pe_generation e" "d = pt_deadline t" for e t d
    using post_okD(2)[OF assms(3), of t e] that by simp
  ultimately have "ag_presence (hb_agents h') v = ag_presence (hb_agents h) v" if "hb_posts h v = Some e" for v e
    using that post_okD(3)[OF assms(3), of v e] unfolding clear(1)
    by (cases "v = u") (fastforce simp: clear_presence_def set_presence_def split: option.splits)+
  then show ?thesis by (intro post_ok_drop[OF assms(3)]) (auto simp: clear(1) clear_presence_def)
next
  case (online u i known enabled)
  show ?thesis unfolding online(1)
    by (rule post_ok_same[OF assms(3)]) (auto simp: online_notification_def Let_def split: prod.split)
next
  case (offline u i now known enabled secs)
  show ?thesis unfolding offline(1)
    by (rule post_ok_same[OF assms(3)]) (auto simp: offline_notification_def Let_def split: prod.split)
next
  case (wake sl)
  show ?thesis unfolding wake(1)
    by (rule post_ok_same[OF assms(3)]) (auto simp: offline_wake_def split: prod.split)
qed (auto intro!: post_ok_same[OF assms(3)] simp: ws_connect_def ws_close_def)

lemma hub_reach_post_ok: "hub_reach h \<Longrightarrow> post_ok h"
proof (induction rule: hub_reach.induct)
  case (hub_start t)
  show ?case by (simp add: post_ok_def new_hub_def)
next
  case (hub_more h h')
  then show ?case using post_ok_next hub_reach_ok by blast
qed

lemma hub_start_run: "hub_next\<^sup>*\<^sup>* h h' \<Longrightarrow> hub_next h' h'' \<Longrightarrow> hub_next\<^sup>*\<^sup>* h h''"
  by (rule rtranclp.rtrancl_into_rtrancl)

lemma expire_drops:
  assumes "t \<in> set (hb_fired h)" "hb_posts h (pt_uuid t) = Some e" "pt_conn t = pe_conn e" "pt_generation t = pe_generation e"
  shows "hub_next h (post_presence_expired t h)" "hb_posts (post_presence_expired t h) (pt_uuid t) = None"
    "(pt_uuid t, pe_conn e) \<in> set (hb_clearing (post_presence_expired t h))"
  by (rule hub_next.expire[OF assms(1)]) (use assms in \<open>simp_all add: post_presence_expired_def Let_def\<close>)

text \<open>
  an agent that reports over HTTP counts as present for 35 seconds after its last request: no timer, not
  even one that has fired while a request came in, ends its session before, and from every state the session
  does end, at that very time, when no further request comes.
\<close>

theorem http_session_exact:
  assumes "hub_reach h" and "hb_posts h u = Some e"
  shows "\<exists>d. ag_presence (hb_agents h) u = Some (pe_conn e, d) \<and>
    (\<forall>t\<in>set (hb_fired h). hb_posts (post_presence_expired t h) u = None \<longrightarrow> d \<le> hb_clock h) \<and>
    ag_presence (hb_agents (refresh_post_presence u i h)) u = Some (pe_conn e, hb_clock h + post_presence_ttl) \<and>
    (\<exists>h'. hub_next\<^sup>*\<^sup>* h h' \<and> hb_posts h' u = None \<and> (u, pe_conn e) \<in> set (hb_clearing h') \<and>
      hb_clock h' = max d (hb_clock h))"
proof -
  have ok: "post_ok h" by (rule hub_reach_post_ok[OF assms(1)])
  note D = post_okD[OF ok]
  obtain t where t: "t \<in> set (hb_timers h @ hb_fired h)" "pt_uuid t = u" "pt_conn t = pe_conn e" "pt_generation t = pe_generation e"
    using D(3)[OF assms(2)] by blast
  let ?d = "pt_deadline t"
  have p: "ag_presence (hb_agents h) u = Some (pe_conn e, ?d)" using D(2)[of t e] t assms(2) by simp
  have "?d \<le> hb_clock h" if "x \<in> set (hb_fired h)" "hb_posts (post_presence_expired x h) u = None" for x
  proof -
    have x: "pt_uuid x = u" "pt_conn x = pe_conn e" "pt_generation x = pe_generation e"
      using that(2) assms(2) by (auto simp: post_presence_expired_def Let_def split: option.splits if_splits)
    then have "pt_deadline x = ?d" using D(2)[of x e] p assms(2) that(1) by simp
    then show ?thesis using D(4)[OF that(1)] by simp
  qed
  moreover have "ag_presence (hb_agents (refresh_post_presence u i h)) u = Some (pe_conn e, hb_clock h + post_presence_ttl)"
    using assms(2) by (simp add: refresh_post_presence_def Let_def)
  moreover have "\<exists>h'. hub_next\<^sup>*\<^sup>* h h' \<and> hb_posts h' u = None \<and> (u, pe_conn e) \<in> set (hb_clearing h') \<and>
      hb_clock h' = max ?d (hb_clock h)"
  proof (cases "t \<in> set (hb_fired h)")
    case True
    then show ?thesis using expire_drops[of t h e] t assms(2) D(4)[OF True] by (intro exI[of _ "post_presence_expired t h"]) auto
  next
    case False
    let ?h1 = "h\<lparr>hb_clock := max ?d (hb_clock h)\<rparr>"
    let ?h2 = "?h1\<lparr>hb_timers := remove1 t (hb_timers ?h1), hb_fired := t # hb_fired ?h1\<rparr>"
    have "hub_next h ?h1" by (rule hub_next.tick) simp
    moreover have "hub_next ?h1 ?h2" by (rule hub_next.fire) (use t(1) False in auto)
    moreover note x = expire_drops[of t ?h2 e]
    ultimately have "hub_next\<^sup>*\<^sup>* h (post_presence_expired t ?h2)"
      using t assms(2) by (auto intro: rtranclp.rtrancl_into_rtrancl)
    then show ?thesis using x t assms(2) by (intro exI[of _ "post_presence_expired t ?h2"]) auto
  qed
  ultimately show ?thesis using p by blast
qed

lemma run_start: "hub_reach (new_hub 0)" by (rule hub_start)

theorem http_session_exact_witness:
  "let h = handle_report ''a'' (Some (blank_report ''a'' 5 1 1)) 7 (new_hub 0)
   in hub_reach h \<and> ag_presence (hb_agents h) ''a'' = Some (7, 35000000000) \<and>
      (\<exists>h'. hub_next\<^sup>*\<^sup>* h h' \<and> hb_posts h' ''a'' = None \<and> hb_clock h' = 35000000000)"
proof -
  let ?h = "handle_report ''a'' (Some (blank_report ''a'' 5 1 1)) 7 (new_hub 0)"
  have r: "hub_reach ?h" by (rule hub_more[OF run_start hub_next.report]) (simp_all add: new_hub_def)
  have e: "hb_posts ?h ''a'' = Some \<lparr>pe_conn = 7, pe_generation = 0\<rparr>"
    by (simp add: handle_report_def ingest_report_def Let_def new_hub_def)
  have p: "ag_presence (hb_agents ?h) ''a'' = Some (7, 35000000000)"
    by (simp add: handle_report_def ingest_report_def Let_def new_hub_def refresh_post_presence_def post_presence_ttl_def second_def)
  have c: "hb_clock ?h = 0" by (simp add: handle_report_def ingest_report_def Let_def new_hub_def)
  show ?thesis unfolding Let_def using r p http_session_exact[OF r e, of 0] c by auto
qed

section \<open>Runs of the hub\<close>

lemmas hub_ops = new_hub_def ws_connect_def ws_close_def online_notification_def offline_notification_def offline_wake_def
  update_online_state_def mark_offline_def offline_due_def state_of_def new_notify_state_def grace_period_def wrap64_def second_def

text \<open>An agent connects, leaves, is reported offline after five minutes, comes back and is reported online.\<close>

definition outage_run :: hub where
  "outage_run =
     (let h2 = online_notification True True ''a'' 1 ((ws_connect ''a'' 1 (new_hub 0))\<lparr>hb_online := []\<rparr>);
          h4 = offline_notification True True 0 0 ''a'' 1 ((ws_close ''a'' 1 h2)\<lparr>hb_offline := []\<rparr>);
          h6 = offline_wake \<lparr>sl_uuid = ''a'', sl_conn = 1, sl_wake = 300000000000\<rparr> (h4\<lparr>hb_clock := 300000000000\<rparr>)
      in online_notification True True ''a'' 2 ((ws_connect ''a'' 2 h6)\<lparr>hb_online := []\<rparr>))"

lemma outage_reach: "hub_reach outage_run"
proof -
  let ?h1 = "ws_connect ''a'' 1 (new_hub 0)"
  have r1: "hub_reach ?h1" by (rule hub_more[OF run_start hub_next.connect]) (simp_all add: hub_ops)
  let ?h2 = "online_notification True True ''a'' 1 (?h1\<lparr>hb_online := remove1 (''a'', 1) (hb_online ?h1)\<rparr>)"
  have r2: "hub_reach ?h2" by (rule hub_more[OF r1 hub_next.online]) (simp add: hub_ops)
  let ?h3 = "ws_close ''a'' 1 ?h2"
  have r3: "hub_reach ?h3" by (rule hub_more[OF r2 hub_next.close]) (simp add: hub_ops)
  let ?h4 = "offline_notification True True 0 0 ''a'' 1 (?h3\<lparr>hb_offline := remove1 (''a'', 1) (hb_offline ?h3)\<rparr>)"
  have r4: "hub_reach ?h4" by (rule hub_more[OF r3 hub_next.offline]) (simp_all add: hub_ops)
  let ?h5 = "?h4\<lparr>hb_clock := 300000000000\<rparr>"
  have r5: "hub_reach ?h5" by (rule hub_more[OF r4 hub_next.tick]) (simp add: hub_ops)
  let ?h6 = "offline_wake \<lparr>sl_uuid = ''a'', sl_conn = 1, sl_wake = 300000000000\<rparr> ?h5"
  have r6: "hub_reach ?h6" by (rule hub_more[OF r5 hub_next.wake]) (simp_all add: hub_ops)
  let ?h7 = "ws_connect ''a'' 2 ?h6"
  have r7: "hub_reach ?h7" by (rule hub_more[OF r6 hub_next.connect]) (simp_all add: hub_ops)
  let ?h8 = "online_notification True True ''a'' 2 (?h7\<lparr>hb_online := remove1 (''a'', 2) (hb_online ?h7)\<rparr>)"
  have r8: "hub_reach ?h8" by (rule hub_more[OF r7 hub_next.online]) (simp add: hub_ops)
  have "outage_run = ?h8" by (simp add: outage_run_def hub_ops Let_def)
  then show ?thesis using r8 by simp
qed

lemma outage_log:
  "hb_log outage_run = [Returned 300000000000 ''a'', Seen 300000000000 ''a'' 2, Alerted 300000000000 ''a'',
     Gone 0 ''a'' 1 300000000000, Seen 0 ''a'' 1]"
  by (simp add: outage_run_def hub_ops Let_def)

theorem alerts_exact_witness:
  "hub_reach outage_run \<and> (\<exists>new old. hb_log outage_run = new @ Alerted 300000000000 ''a'' # old \<and>
     (\<exists>i recent g gr earlier. old = recent @ Gone g ''a'' i gr # earlier \<and> g + gr \<le> 300000000000))"
proof -
  have "hb_log outage_run = [Returned 300000000000 ''a'', Seen 300000000000 ''a'' 2] @ Alerted 300000000000 ''a'' #
      [Gone 0 ''a'' 1 300000000000, Seen 0 ''a'' 1]" by (simp add: outage_log)
  then show ?thesis using outage_reach alerts_exact[OF outage_reach] by metis
qed

text \<open>
  A connection that ends before the goroutine of its start has run is recorded as open for ever: the end is
  ignored, since it is not the recorded connection, the start is then recorded, and nothing is left that
  would tell that the agent is gone.
\<close>

theorem quick_disconnect_missed:
  "\<exists>h. hub_reach h \<and> hb_open h = [] \<and> hb_online h = [] \<and> hb_offline h = [] \<and> hb_clearing h = [] \<and> hb_sleep h = [] \<and>
     hb_posts h ''a'' = None \<and> hb_timers h = [] \<and> hb_fired h = [] \<and> ns_exists (state_of ''a'' (hb_states h)) \<and>
     ns_pending (state_of ''a'' (hb_states h)) = None \<and> (\<forall>c. Alerted c ''a'' \<notin> set (hb_log h))"
proof -
  let ?h1 = "ws_connect ''a'' 1 (new_hub 0)"
  have r1: "hub_reach ?h1" by (rule hub_more[OF run_start hub_next.connect]) (simp_all add: hub_ops)
  let ?h2 = "ws_close ''a'' 1 ?h1"
  have r2: "hub_reach ?h2" by (rule hub_more[OF r1 hub_next.close]) (simp add: hub_ops)
  let ?h3 = "offline_notification True True 0 0 ''a'' 1 (?h2\<lparr>hb_offline := remove1 (''a'', 1) (hb_offline ?h2)\<rparr>)"
  have r3: "hub_reach ?h3" by (rule hub_more[OF r2 hub_next.offline]) (simp_all add: hub_ops)
  let ?h4 = "online_notification True True ''a'' 1 (?h3\<lparr>hb_online := remove1 (''a'', 1) (hb_online ?h3)\<rparr>)"
  have r4: "hub_reach ?h4" by (rule hub_more[OF r3 hub_next.online]) (simp add: hub_ops)
  show ?thesis by (rule exI[of _ ?h4]) (use r4 in \<open>simp add: hub_ops Let_def\<close>)
qed

text \<open>
  A report over a connection starts an HTTP session for the agent, whose identifier replaces that of the
  connection: when the connection closes, its end is ignored, and the agent is listed as online for the rest
  of the 35 seconds, after which only the grace period begins.
\<close>

theorem report_shadows_connection:
  "\<exists>h. hub_reach h \<and> hb_open h = [] \<and> hb_offline h = [] \<and> hb_sleep h = [] \<and> ag_connected (hb_agents h) ''a'' = None \<and>
     ''a'' \<in> online_uuids (hb_clock h) (hb_agents h) \<and> (\<forall>c i g. Gone c ''a'' i g \<notin> set (hb_log h))"
proof -
  note defs = hub_ops handle_report_def ingest_report_def refresh_post_presence_def Let_def
  let ?h1 = "ws_connect ''a'' 1 (new_hub 0)"
  have r1: "hub_reach ?h1" by (rule hub_more[OF run_start hub_next.connect]) (simp_all add: hub_ops)
  let ?h2 = "online_notification True True ''a'' 1 (?h1\<lparr>hb_online := remove1 (''a'', 1) (hb_online ?h1)\<rparr>)"
  have r2: "hub_reach ?h2" by (rule hub_more[OF r1 hub_next.online]) (simp add: hub_ops)
  let ?h3 = "handle_report ''a'' (Some (blank_report ''a'' 5 1 1)) 2 ?h2"
  have r3: "hub_reach ?h3" by (rule hub_more[OF r2 hub_next.report]) (simp_all add: hub_ops Let_def)
  let ?h4 = "online_notification True True ''a'' 2 (?h3\<lparr>hb_online := remove1 (''a'', 2) (hb_online ?h3)\<rparr>)"
  have r4: "hub_reach ?h4" by (rule hub_more[OF r3 hub_next.online]) (simp add: defs)
  let ?h5 = "ws_close ''a'' 1 ?h4"
  have r5: "hub_reach ?h5" by (rule hub_more[OF r4 hub_next.close]) (simp add: defs)
  let ?h6 = "offline_notification True True 0 0 ''a'' 1 (?h5\<lparr>hb_offline := remove1 (''a'', 1) (hb_offline ?h5)\<rparr>)"
  have r6: "hub_reach ?h6" by (rule hub_more[OF r5 hub_next.offline]) (simp_all add: defs)
  show ?thesis
    by (rule exI[of _ ?h6]) (use r6 in \<open>simp add: defs online_uuids_def keep_alive_presence_def mark_v2_client_def record_report_def
        note_latest_def no_agents_def set_connected_clients_def delete_client_conditionally_def delete_connected_clients_def
        post_presence_ttl_def dom_def\<close>)
qed

end
