(* ===== verification/Report_Batcher.thy ===== *)
theory Report_Batcher
  imports Agent_Reports
begin

text \<open>
  How reports reach the metric store: the points of a report and the traffic between two reports
  (internal/metricstore/report_mapping.go), ping records (ping_records.go), and the worker that collects
  reports and ping results in bounded queues and writes them in batches (report_batcher.go).  The store
  itself is an argument: whether a write succeeds, and what the last counter before an instant was.
  A value is either the bits of a 64-bit float or the conversion of an integer to one.
\<close>

section \<open>Points of a report\<close>

datatype metric_value = Bits float64 | OfInt int

record metric_point =
  mp_metric :: go_string
  mp_entity :: go_string
  mp_time :: instant
  mp_value :: metric_value
  mp_tags :: "(go_string \<times> go_string) list"

definition entity_point :: "report \<Rightarrow> go_string \<Rightarrow> metric_value \<Rightarrow> metric_point" where
  "entity_point r name v = \<lparr>mp_metric = name, mp_entity = rp_uuid r, mp_time = rp_time r, mp_value = v, mp_tags = []\<rparr>"

definition tagged_points :: "report \<Rightarrow> (go_string \<times> go_string) list \<Rightarrow> (go_string \<times> metric_value) list \<Rightarrow> metric_point list" where
  "tagged_points r tags vs =
     map (\<lambda>(name, v). \<lparr>mp_metric = name, mp_entity = rp_uuid r, mp_time = rp_time r, mp_value = v, mp_tags = tags\<rparr>) vs"

definition entity_points :: "report \<Rightarrow> int \<Rightarrow> int \<Rightarrow> metric_point list" where
  "entity_points r up down =
     [entity_point r ''cpu.usage'' (Bits (cpu_usage (rp_cpu r))),
      entity_point r ''memory.used'' (OfInt (ram_used (rp_ram r))),
      entity_point r ''swap.used'' (OfInt (ram_used (rp_swap r))),
      entity_point r ''load.average'' (Bits (load_1 (rp_load r))),
      entity_point r ''disk.used'' (OfInt (disk_used (rp_disk r))),
      entity_point r ''net.in.rate'' (OfInt (net_down (rp_network r))),
      entity_point r ''net.out.rate'' (OfInt (net_up (rp_network r))),
      entity_point r ''net.total.up'' (OfInt (net_total_up (rp_network r))),
      entity_point r ''net.total.down'' (OfInt (net_total_down (rp_network r))),
      entity_point r ''traffic.up'' (OfInt up),
      entity_point r ''traffic.down'' (OfInt down),
      entity_point r ''process.count'' (OfInt (rp_process r)),
      entity_point r ''connections.tcp'' (OfInt (conn_tcp (rp_connections r))),
      entity_point r ''connections.udp'' (OfInt (conn_udp (rp_connections r)))]"

definition disk_io_points :: "report \<Rightarrow> disk_io_report \<Rightarrow> metric_point list" where
  "disk_io_points r d =
     tagged_points r [(''device'', io_device d), (''mountpoint'', io_mountpoint d)]
       [(''disk_io.read_bytes'', Bits (io_read_bytes d)), (''disk_io.write_bytes'', Bits (io_write_bytes d)),
        (''disk_io.read_iops'', Bits (io_read_iops d)), (''disk_io.write_iops'', Bits (io_write_iops d))]"

definition mining_points :: "report \<Rightarrow> mining_report \<Rightarrow> metric_point list" where
  "mining_points r m =
     tagged_points r [(''rig'', mn_wallet m), (''algorithm'', mn_algorithm m), (''pool'', mn_pool m)]
       [(''mining.hashrate'', Bits (mn_hashrate_1min m)), (''mining.power'', Bits (mn_power m)),
        (''mining.temperature'', Bits (mn_temperature m)), (''mining.fan'', Bits (mn_fan m)),
        (''mining.shares.valid'', OfInt (mn_shares_valid m)), (''mining.shares.stale'', OfInt (mn_shares_stale m)),
        (''mining.shares.invalid'', OfInt (mn_shares_invalid m)), (''mining.hw_errors'', OfInt (mn_hw_errors m)),
        (''mining.pool_latency'', OfInt (mn_pool_latency m))]"

definition gpu_points :: "report \<Rightarrow> gpu_report \<Rightarrow> metric_point list" where
  "gpu_points r g =
     entity_point r ''gpu.usage'' (Bits (gpu_average g)) #
     concat (map (\<lambda>(i, d). tagged_points r [(''device_index'', show_nat i), (''device_name'', gd_name d)]
       [(''gpu.memory.used'', OfInt (gd_memory_used d)), (''gpu.memory.total'', OfInt (gd_memory_total d)),
        (''gpu.device.usage'', Bits (gd_utilization d)), (''gpu.temperature'', OfInt (gd_temperature d))])
       (enumerate 0 (gpu_devices g)))"

definition report_metric_points :: "report \<Rightarrow> int \<Rightarrow> int \<Rightarrow> metric_point list" where
  "report_metric_points r up down =
     entity_points r up down @ concat (map (disk_io_points r) (rp_disk_io r)) @
     (case rp_mining r of None \<Rightarrow> [] | Some m \<Rightarrow> mining_points r m) @
     (case rp_gpu r of None \<Rightarrow> [] | Some g \<Rightarrow> gpu_points r g)"

definition max_reset_aware_delta :: int where "max_reset_aware_delta = 64 * 2 ^ 30"

definition traffic_counter_delta :: "int \<Rightarrow> int \<Rightarrow> int" where
  "traffic_counter_delta current previous =
     (if current < 0 \<or> previous < 0 then 0
      else if current \<ge> previous then current - previous
      else if current > max_reset_aware_delta then 0 else current)"

section \<open>Writing a batch of reports\<close>

record traffic_values =
  tv_initialized :: bool
  tv_time :: instant
  tv_has_up :: bool
  tv_total_up :: int
  tv_has_down :: bool
  tv_total_down :: int

type_synonym traffic_states = "go_string \<rightharpoonup> traffic_values"

definition no_traffic :: traffic_values where
  "no_traffic = \<lparr>tv_initialized = False, tv_time = zero_time, tv_has_up = False, tv_total_up = 0, tv_has_down = False, tv_total_down = 0\<rparr>"

datatype batch_error = StoreBusy | StoreDisabled | WriteFailed | NoUuid | NoTime | QueueFull | Stopped | ContextDone

text \<open>
  What the store knows of a counter before an instant: \<open>latest metric agent t\<close>; the lookup may fail, or find
  nothing.
\<close>

datatype lookup = LookupFailed | NoCounter | Counter int

type_synonym counters = "go_string \<Rightarrow> go_string \<Rightarrow> instant \<Rightarrow> lookup"

definition restore_values :: "counters \<Rightarrow> report \<Rightarrow> traffic_values \<Rightarrow> traffic_values" where
  "restore_values latest r v =
     (if tv_initialized v then v
      else
        let v1 = (case latest ''net.total.up'' (rp_uuid r) (rp_time r) of
                    LookupFailed \<Rightarrow> v | NoCounter \<Rightarrow> v\<lparr>tv_total_up := 0, tv_has_up := False\<rparr>
                  | Counter n \<Rightarrow> v\<lparr>tv_total_up := n, tv_has_up := True\<rparr>);
            v2 = (case latest ''net.total.down'' (rp_uuid r) (rp_time r) of
                    LookupFailed \<Rightarrow> v1 | NoCounter \<Rightarrow> v1\<lparr>tv_total_down := 0, tv_has_down := False\<rparr>
                  | Counter n \<Rightarrow> v1\<lparr>tv_total_down := n, tv_has_down := True\<rparr>)
        in v2\<lparr>tv_initialized := True\<rparr>)"

definition millisecond :: int where "millisecond = 1000000"

definition after_last :: "traffic_values \<Rightarrow> report \<Rightarrow> report" where
  "after_last v r = (if tv_time v \<noteq> zero_time \<and> \<not> rp_time r > tv_time v then r\<lparr>rp_time := tv_time v + millisecond\<rparr> else r)"

definition prepare_report :: "counters \<Rightarrow> report \<Rightarrow> traffic_states \<Rightarrow> traffic_states \<times> report \<times> metric_point list" where
  "prepare_report latest r0 sts =
     (let v = restore_values latest r0 (case sts (rp_uuid r0) of Some v \<Rightarrow> v | None \<Rightarrow> no_traffic);
          r = after_last v r0; net = rp_network r;
          up = (if tv_has_up v then traffic_counter_delta (net_total_up net) (tv_total_up v) else 0);
          down = (if tv_has_down v then traffic_counter_delta (net_total_down net) (tv_total_down v) else 0)
      in (sts(rp_uuid r \<mapsto> v\<lparr>tv_time := rp_time r, tv_has_up := True, tv_total_up := net_total_up net,
            tv_has_down := True, tv_total_down := net_total_down net\<rparr>), r, report_metric_points r up down))"

fun prepare_reports :: "counters \<Rightarrow> report list \<Rightarrow> traffic_states \<Rightarrow> traffic_states \<times> report list \<times> metric_point list" where
  "prepare_reports latest [] sts = (sts, [], [])"
| "prepare_reports latest (r # rs) sts =
     (let (sts1, p, pts) = prepare_report latest r sts;
          (sts2, ps, ptss) = prepare_reports latest rs sts1
      in (sts2, p # ps, pts @ ptss))"

text \<open>
  \<open>shared\<close>: the gate of store operations was passed; \<open>enabled\<close>: there is a store; \<open>ok\<close>: its write succeeds.
  The traffic states are kept even when the write fails.  The points written are part of the result.
\<close>

record write_env =
  we_shared :: bool
  we_enabled :: bool
  we_ok :: bool
  we_latest :: counters

definition write_report_batch ::
  "write_env \<Rightarrow> report list \<Rightarrow> traffic_states \<Rightarrow> traffic_states \<times> (batch_error + report list) \<times> metric_point list" where
  "write_report_batch env rs sts =
     (if rs = [] then (sts, Inr [], [])
      else if \<not> we_shared env then (sts, Inl StoreBusy, [])
      else if \<not> we_enabled env then (sts, Inl StoreDisabled, [])
      else let (sts1, prepared, pts) = prepare_reports (we_latest env) rs sts
           in if we_ok env then (sts1, Inr prepared, pts) else (sts1, Inl WriteFailed, []))"

section \<open>Ping results\<close>

record ping_record =
  pr_client :: go_string
  pr_task :: nat
  pr_value :: int
  pr_time :: instant

definition ping_points :: "ping_record \<Rightarrow> metric_point list" where
  "ping_points p =
     (let tags = [(''task_id'', show_nat (pr_task p))] in
      [\<lparr>mp_metric = ''ping.latency_ms'', mp_entity = pr_client p, mp_time = pr_time p, mp_value = OfInt (pr_value p), mp_tags = tags\<rparr>,
       \<lparr>mp_metric = ''ping.loss'', mp_entity = pr_client p, mp_time = pr_time p,
        mp_value = OfInt (if pr_value p < 0 then 1 else 0), mp_tags = tags\<rparr>])"

definition write_ping_records :: "write_env \<Rightarrow> ping_record list \<Rightarrow> batch_error option \<times> metric_point list" where
  "write_ping_records env ps =
     (if \<not> we_enabled env then (Some StoreDisabled, [])
      else if ps = [] then (None, [])
      else if we_ok env then (None, concat (map ping_points ps)) else (Some WriteFailed, []))"

section \<open>The worker\<close>

definition report_batch_queue_size :: nat where "report_batch_queue_size = 4096"
definition ping_batch_max_records :: nat where "ping_batch_max_records = 512"

text \<open>
  A request for the worker is a number with the flag of a stop; an answer tells whether the request was a
  stop and whether everything was written.  The channel of requests holds one.  \<open>wk_accepted\<close> and \<open>wk_saved\<close> record all reports accepted and all written.
\<close>

record worker =
  wk_queue :: "report list"
  wk_pings :: "ping_record list"
  wk_requests :: "(nat \<times> bool) list"
  wk_stopping :: bool
  wk_done :: bool
  wk_pending :: "report list"
  wk_pending_pings :: "ping_record list"
  wk_traffic :: traffic_states
  wk_answers :: "nat \<rightharpoonup> bool \<times> bool"
  wk_next :: nat
  wk_accepted :: "report list"
  wk_saved :: "report list"
  wk_points :: "metric_point list"

definition new_worker :: "traffic_states \<Rightarrow> worker" where
  "new_worker sts =
     \<lparr>wk_queue = [], wk_pings = [], wk_requests = [], wk_stopping = False, wk_done = False, wk_pending = [], wk_pending_pings = [],
      wk_traffic = sts, wk_answers = Map.empty, wk_next = 0, wk_accepted = [], wk_saved = [], wk_points = []\<rparr>"

definition enqueue_report :: "bool \<Rightarrow> report \<Rightarrow> worker \<Rightarrow> worker \<times> batch_error option" where
  "enqueue_report ctx_ok r w =
     (if wk_stopping w then (w, Some Stopped)
      else if \<not> ctx_ok then (w, Some ContextDone)
      else if length (wk_queue w) < report_batch_queue_size
      then (w\<lparr>wk_queue := wk_queue w @ [r], wk_accepted := wk_accepted w @ [r]\<rparr>, None)
      else (w, Some QueueFull))"

definition enqueue_ping :: "bool \<Rightarrow> ping_record \<Rightarrow> worker \<Rightarrow> worker \<times> batch_error option" where
  "enqueue_ping ctx_ok p w =
     (if wk_stopping w then (w, Some Stopped)
      else if \<not> ctx_ok then (w, Some ContextDone)
      else if length (wk_pings w) < report_batch_queue_size
      then (w\<lparr>wk_pings := wk_pings w @ [p]\<rparr>, None)
      else (w, Some QueueFull))"

text \<open>WriteReport: through the worker when there is one (\<open>Inl\<close>), else directly.\<close>

definition write_report :: "write_env \<Rightarrow> bool \<Rightarrow> report \<Rightarrow> worker option \<Rightarrow> traffic_states \<Rightarrow>
    worker option \<times> traffic_states \<times> (batch_error + report)" where
  "write_report env ctx_ok r wo sts =
     (if rp_uuid r = [] then (wo, sts, Inl NoUuid)
      else if rp_time r = zero_time then (wo, sts, Inl NoTime)
      else if \<not> we_enabled env then (wo, sts, Inl StoreDisabled)
      else case wo of
        Some w \<Rightarrow> (case enqueue_report ctx_ok r w of (w1, None) \<Rightarrow> (Some w1, sts, Inr r) | (w1, Some e) \<Rightarrow> (Some w1, sts, Inl e))
      | None \<Rightarrow> (case write_report_batch env [r] sts of
                   (sts1, Inr saved, _) \<Rightarrow> (None, sts1, Inr (hd saved)) | (sts1, Inl e, _) \<Rightarrow> (None, sts1, Inl e)))"

definition drain_queue :: "nat \<Rightarrow> 'a list \<Rightarrow> 'a list \<times> 'a list" where
  "drain_queue limit q = (take limit q, drop limit q)"

text \<open>
  Writing what is pending.  The first batch of reports has all of them, so that the loop of the code runs at
  most once; pings go in batches of 512, the n-th of which has the outcome \<open>env n\<close>.
\<close>

definition write_pending_reports :: "write_env \<Rightarrow> worker \<Rightarrow> worker \<times> batch_error option" where
  "write_pending_reports env w =
     (if wk_pending w = [] then (w, None)
      else case write_report_batch env (wk_pending w) (wk_traffic w) of
        (sts, Inl e, _) \<Rightarrow> (w\<lparr>wk_traffic := sts\<rparr>, Some e)
      | (sts, Inr prepared, pts) \<Rightarrow>
          (w\<lparr>wk_traffic := sts, wk_saved := wk_saved w @ wk_pending w, wk_points := wk_points w @ pts, wk_pending := []\<rparr>, None))"

function write_pings :: "(nat \<Rightarrow> write_env) \<Rightarrow> nat \<Rightarrow> ping_record list \<Rightarrow> ping_record list \<times> metric_point list \<times> batch_error option" where
  "write_pings env n ps =
     (if ps = [] then ([], [], None)
      else case write_ping_records (env n) (take ping_batch_max_records ps) of
        (Some e, _) \<Rightarrow> (ps, [], Some e)
      | (None, pts) \<Rightarrow>
          (case write_pings env (n + 1) (drop ping_batch_max_records ps) of (rest, pts2, e) \<Rightarrow> (rest, pts @ pts2, e)))"
  by pat_completeness auto
termination
  by (relation "measure (\<lambda>(env, n, ps). length ps)") (auto simp: ping_batch_max_records_def)

declare write_pings.simps [simp del]

definition write_pending_ping_records :: "(nat \<Rightarrow> write_env) \<Rightarrow> worker \<Rightarrow> worker \<times> batch_error option" where
  "write_pending_ping_records env w =
     (case write_pings env 0 (wk_pending_pings w) of
        (rest, pts, e) \<Rightarrow> (w\<lparr>wk_pending_pings := rest, wk_points := wk_points w @ pts\<rparr>, e))"

definition drain_reports :: "worker \<Rightarrow> worker" where
  "drain_reports w = (let (batch, rest) = drain_queue report_batch_queue_size (wk_queue w)
     in w\<lparr>wk_pending := wk_pending w @ batch, wk_queue := rest\<rparr>)"

definition drain_pings :: "worker \<Rightarrow> worker" where
  "drain_pings w = (let (batch, rest) = drain_queue report_batch_queue_size (wk_pings w)
     in w\<lparr>wk_pending_pings := wk_pending_pings w @ batch, wk_pings := rest\<rparr>)"

text \<open>One turn of the loop of \<open>run\<close>: on a tick, or with a request; nothing once it is done.\<close>

definition worker_tick :: "write_env \<Rightarrow> (nat \<Rightarrow> write_env) \<Rightarrow> worker \<Rightarrow> worker" where
  "worker_tick env penv w =
     fst (write_pending_reports env (drain_reports (fst (write_pending_ping_records penv (drain_pings w)))))"

definition worker_request :: "write_env \<Rightarrow> (nat \<Rightarrow> write_env) \<Rightarrow> worker \<Rightarrow> worker" where
  "worker_request env penv w =
     (case wk_requests w of [] \<Rightarrow> w
      | (k, stop) # rest \<Rightarrow>
          let (w1, e1) = write_pending_reports env (drain_pings (drain_reports (w\<lparr>wk_requests := rest\<rparr>)));
              (w2, e2) = write_pending_ping_records penv w1
          in w2\<lparr>wk_answers := (wk_answers w2)(k \<mapsto> (stop, e1 = None \<and> e2 = None)), wk_done := wk_done w2 \<or> stop\<rparr>)"

text \<open>
  The callers: StopReportBatcher marks the worker before it sends its request; FlushReportBatch looks at the
  mark before it does.  A request is numbered when it is sent; a caller that gave up sends nothing.
\<close>

definition begin_stop :: "worker \<Rightarrow> worker" where "begin_stop w = w\<lparr>wk_stopping := True\<rparr>"

definition send_request :: "bool \<Rightarrow> worker \<Rightarrow> worker option" where
  "send_request stop w =
     (if length (wk_requests w) < 1
      then Some (w\<lparr>wk_requests := wk_requests w @ [(wk_next w, stop)], wk_next := Suc (wk_next w)\<rparr>) else None)"

definition begin_flush :: "worker \<Rightarrow> batch_error option" where
  "begin_flush w = (if wk_stopping w then Some Stopped else None)"

text \<open>A flush that has passed \<open>begin_flush\<close> is counted by \<open>flushers\<close> until it sends; likewise a stop.\<close>

record batcher =
  bb_worker :: worker
  bb_flushers :: nat
  bb_stoppers :: nat

inductive batch_next :: "batcher \<Rightarrow> batcher \<Rightarrow> bool" where
  enqueue: "batch_next b (b\<lparr>bb_worker := fst (enqueue_report ctx_ok r (bb_worker b))\<rparr>)"
| ping: "batch_next b (b\<lparr>bb_worker := fst (enqueue_ping ctx_ok p (bb_worker b))\<rparr>)"
| tick: "\<not> wk_done (bb_worker b) \<Longrightarrow> batch_next b (b\<lparr>bb_worker := worker_tick env penv (bb_worker b)\<rparr>)"
| serve: "\<not> wk_done (bb_worker b) \<Longrightarrow> batch_next b (b\<lparr>bb_worker := worker_request env penv (bb_worker b)\<rparr>)"
| stop: "batch_next b (b\<lparr>bb_worker := begin_stop (bb_worker b), bb_stoppers := bb_stoppers b + 1\<rparr>)"
| send_stop: "0 < bb_stoppers b \<Longrightarrow> send_request True (bb_worker b) = Some w \<Longrightarrow>
    batch_next b (b\<lparr>bb_worker := w, bb_stoppers := bb_stoppers b - 1\<rparr>)"
| flush: "begin_flush (bb_worker b) = None \<Longrightarrow> batch_next b (b\<lparr>bb_flushers := bb_flushers b + 1\<rparr>)"
| send_flush: "0 < bb_flushers b \<Longrightarrow> send_request False (bb_worker b) = Some w \<Longrightarrow>
    batch_next b (b\<lparr>bb_worker := w, bb_flushers := bb_flushers b - 1\<rparr>)"

inductive batch_reach :: "batcher \<Rightarrow> bool" where
  batch_start: "batch_reach \<lparr>bb_worker = new_worker sts, bb_flushers = 0, bb_stoppers = 0\<rparr>"
| batch_more: "batch_reach b \<Longrightarrow> batch_next b b' \<Longrightarrow> batch_reach b'"

inductive_cases batch_nextE: "batch_next b b'"

section \<open>No report is lost\<close>

definition kept :: "worker \<Rightarrow> bool" where
  "kept w = (wk_accepted w = wk_saved w @ wk_pending w @ wk_queue w \<and> length (wk_queue w) \<le> report_batch_queue_size)"

definition settled :: "worker \<Rightarrow> bool" where
  "settled w = ((wk_done w \<longrightarrow> wk_stopping w \<and> wk_queue w = []) \<and>
     (\<forall>(k, stop)\<in>set (wk_requests w). stop \<longrightarrow> wk_stopping w) \<and>
     (\<forall>k ok. wk_answers w k = Some (True, ok) \<longrightarrow> wk_done w \<and> (ok \<longrightarrow> wk_pending w = [])))"

lemma write_pending_reports_cases:
  "write_pending_reports env w = (w', e) \<Longrightarrow>
    (e = None \<and> (\<exists>sts pts. w' = w\<lparr>wk_traffic := sts, wk_saved := wk_saved w @ wk_pending w, wk_points := pts, wk_pending := []\<rparr>)) \<or>
    (e \<noteq> None \<and> (\<exists>sts. w' = w\<lparr>wk_traffic := sts\<rparr>))"
  by (auto simp: write_pending_reports_def split: if_splits prod.splits sum.splits)
    (metis append_Nil2 worker.surjective worker.update_convs(6) worker.update_convs(8) worker.update_convs(12) worker.update_convs(13))+

lemma write_pending_pings_same:
  "wk_queue (fst (write_pending_ping_records penv w)) = wk_queue w" "wk_pending (fst (write_pending_ping_records penv w)) = wk_pending w"
  "wk_accepted (fst (write_pending_ping_records penv w)) = wk_accepted w" "wk_saved (fst (write_pending_ping_records penv w)) = wk_saved w"
  "wk_stopping (fst (write_pending_ping_records penv w)) = wk_stopping w" "wk_done (fst (write_pending_ping_records penv w)) = wk_done w"
  "wk_requests (fst (write_pending_ping_records penv w)) = wk_requests w" "wk_answers (fst (write_pending_ping_records penv w)) = wk_answers w"
  by (simp_all add: write_pending_ping_records_def split: prod.split)

lemma write_pending_reports_kept:
  assumes "write_pending_reports env w = (w', e)" "wk_accepted w = wk_saved w @ wk_pending w @ wk_queue w"
  shows "wk_accepted w' = wk_saved w' @ wk_pending w' @ wk_queue w'" "wk_queue w' = wk_queue w" "wk_stopping w' = wk_stopping w"
    "wk_done w' = wk_done w" "wk_requests w' = wk_requests w" "wk_answers w' = wk_answers w" "e = None \<Longrightarrow> wk_pending w' = []"
    "wk_accepted w' = wk_accepted w"
  using write_pending_reports_cases[OF assms(1)] assms(2) by auto

lemma drain_reports_kept:
  "wk_accepted w = wk_saved w @ wk_pending w @ wk_queue w \<Longrightarrow>
     wk_accepted (drain_reports w) = wk_saved (drain_reports w) @ wk_pending (drain_reports w) @ wk_queue (drain_reports w)"
  "length (wk_queue w) \<le> report_batch_queue_size \<Longrightarrow> wk_queue (drain_reports w) = []"
  "wk_accepted (drain_reports w) = wk_accepted w" "wk_stopping (drain_reports w) = wk_stopping w" "wk_done (drain_reports w) = wk_done w"
  "wk_requests (drain_reports w) = wk_requests w" "wk_answers (drain_reports w) = wk_answers w"
  by (simp_all add: drain_reports_def drain_queue_def)

lemma drain_pings_same [simp]:
  "wk_queue (drain_pings w) = wk_queue w" "wk_pending (drain_pings w) = wk_pending w" "wk_accepted (drain_pings w) = wk_accepted w"
  "wk_saved (drain_pings w) = wk_saved w" "wk_stopping (drain_pings w) = wk_stopping w" "wk_done (drain_pings w) = wk_done w"
  "wk_requests (drain_pings w) = wk_requests w" "wk_answers (drain_pings w) = wk_answers w"
  by (simp_all add: drain_pings_def drain_queue_def)

lemma tick_kept:
  assumes "kept w" "settled w" "\<not> wk_done w"
  shows "kept (worker_tick env penv w)" "settled (worker_tick env penv w)"
proof -
  let ?w1 = "fst (write_pending_ping_records penv (drain_pings w))"
  obtain w' e where w: "write_pending_reports env (drain_reports ?w1) = (w', e)" by fastforce
  have k: "wk_accepted ?w1 = wk_saved ?w1 @ wk_pending ?w1 @ wk_queue ?w1" "length (wk_queue ?w1) \<le> report_batch_queue_size"
    using assms(1) by (simp_all add: kept_def write_pending_pings_same)
  note d = drain_reports_kept(1)[OF k(1)] drain_reports_kept(2)[OF k(2)] drain_reports_kept(3-7)[of ?w1]
  note r = write_pending_reports_kept[OF w d(1)]
  have t: "worker_tick env penv w = w'" by (simp add: worker_tick_def w)
  show "kept (worker_tick env penv w)" unfolding t kept_def using r d by (simp add: report_batch_queue_size_def)
  show "settled (worker_tick env penv w)" unfolding t settled_def
    using assms(2,3) r(3-6) d by (simp add: settled_def write_pending_pings_same)
qed

lemma request_kept:
  assumes "kept w" "settled w" "\<not> wk_done w"
  shows "kept (worker_request env penv w) \<and> settled (worker_request env penv w) \<and>
    (\<forall>k stop rest. wk_requests w = (k, stop) # rest \<longrightarrow>
       (\<exists>ok. wk_answers (worker_request env penv w) k = Some (stop, ok) \<and>
          (ok \<longrightarrow> wk_saved (worker_request env penv w) = wk_accepted (worker_request env penv w))))"
proof (cases "wk_requests w")
  case Nil
  then show ?thesis using assms by (simp add: worker_request_def)
next
  case (Cons q rest0)
  obtain k0 stop0 where q: "q = (k0, stop0)" by (cases q)
  let ?w0 = "drain_pings (drain_reports (w\<lparr>wk_requests := rest0\<rparr>))"
  obtain w1 e1 where w1: "write_pending_reports env ?w0 = (w1, e1)" by fastforce
  obtain w2 e2 where w2: "write_pending_ping_records penv w1 = (w2, e2)" by fastforce
  have k0: "wk_accepted (w\<lparr>wk_requests := rest0\<rparr>) = wk_saved (w\<lparr>wk_requests := rest0\<rparr>) @ wk_pending (w\<lparr>wk_requests := rest0\<rparr>) @ wk_queue (w\<lparr>wk_requests := rest0\<rparr>)"
    "length (wk_queue (w\<lparr>wk_requests := rest0\<rparr>)) \<le> report_batch_queue_size"
    using assms(1) by (simp_all add: kept_def)
  note d = drain_reports_kept(1)[OF k0(1)] drain_reports_kept(2)[OF k0(2)] drain_reports_kept(3-7)[of "w\<lparr>wk_requests := rest0\<rparr>"]
  have k1: "wk_accepted ?w0 = wk_saved ?w0 @ wk_pending ?w0 @ wk_queue ?w0" using d(1) by simp
  note r = write_pending_reports_kept[OF w1 k1]
  have p: "wk_queue w2 = wk_queue w1" "wk_pending w2 = wk_pending w1" "wk_accepted w2 = wk_accepted w1" "wk_saved w2 = wk_saved w1"
    "wk_stopping w2 = wk_stopping w1" "wk_done w2 = wk_done w1" "wk_requests w2 = wk_requests w1" "wk_answers w2 = wk_answers w1"
    using write_pending_pings_same[of penv w1] by (simp_all add: w2)
  have w': "worker_request env penv w = w2\<lparr>wk_answers := (wk_answers w2)(k0 \<mapsto> (stop0, e1 = None \<and> e2 = None)), wk_done := wk_done w2 \<or> stop0\<rparr>"
    by (simp add: worker_request_def Cons q w1 w2 Let_def)
  have q0: "wk_queue w1 = []" using r(2) d(2) by simp
  have "kept (worker_request env penv w)" unfolding w' kept_def using r(1) q0 p by (simp add: report_batch_queue_size_def)
  moreover have "settled (worker_request env penv w)"
    unfolding w' settled_def using assms(2,3) r q0 p d Cons q by (auto simp: settled_def)
  moreover have "\<exists>ok. wk_answers (worker_request env penv w) k0 = Some (stop0, ok) \<and>
      (ok \<longrightarrow> wk_saved (worker_request env penv w) = wk_accepted (worker_request env penv w))"
    unfolding w' using r(1,7) q0 p by auto
  ultimately show ?thesis using Cons q by auto
qed

lemma write_pending_reports_same:
  "wk_stopping (fst (write_pending_reports env w)) = wk_stopping w" "wk_accepted (fst (write_pending_reports env w)) = wk_accepted w"
  using write_pending_reports_cases[of env w] by (cases "write_pending_reports env w"; auto)+

lemma worker_same [simp]:
  "wk_stopping (worker_tick env penv w) = wk_stopping w" "wk_stopping (worker_request env penv w) = wk_stopping w"
  "wk_accepted (worker_request env penv w) = wk_accepted w"
  by (simp_all add: worker_tick_def worker_request_def case_prod_beta Let_def write_pending_reports_same write_pending_pings_same
      drain_reports_kept(3,4) split: list.split)

lemma batch_reach_kept:
  "batch_reach b \<Longrightarrow> kept (bb_worker b) \<and> settled (bb_worker b) \<and> (0 < bb_stoppers b \<longrightarrow> wk_stopping (bb_worker b))"
proof (induction rule: batch_reach.induct)
  case (batch_start sts)
  show ?case by (simp add: kept_def settled_def new_worker_def)
next
  case (batch_more b b')
  let ?w = "bb_worker b"
  have k: "kept ?w" "settled ?w" and st: "0 < bb_stoppers b \<longrightarrow> wk_stopping ?w" using batch_more.IH by simp_all
  from batch_more(2) show ?case
  proof (cases rule: batch_next.cases)
    case (tick env penv)
    then show ?thesis using tick_kept[OF k] st by simp
  next
    case (serve env penv)
    then show ?thesis using request_kept[OF k] st by simp
  next
    case (send_stop w)
    then show ?thesis using k st by (auto simp: send_request_def kept_def settled_def split: if_splits)
  next
    case (send_flush w)
    then show ?thesis using k st by (auto simp: send_request_def kept_def settled_def split: if_splits)
  qed (use k st in \<open>auto simp: kept_def settled_def enqueue_report_def enqueue_ping_def begin_stop_def split: if_splits\<close>)
qed


lemma start_worker: "batch_reach \<lparr>bb_worker = new_worker sts, bb_flushers = 0, bb_stoppers = 0\<rparr>" by (rule batch_start)

definition good_store :: write_env where
  "good_store = \<lparr>we_shared = True, we_enabled = True, we_ok = True, we_latest = (\<lambda>_ _ _. NoCounter)\<rparr>"

definition failing_store :: write_env where "failing_store = good_store\<lparr>we_ok := False\<rparr>"

lemma pings_none: "wk_pending_pings w = [] \<Longrightarrow> write_pending_ping_records penv w = (w, None)"
  by (simp add: write_pending_ping_records_def write_pings.simps)


section \<open>Traffic\<close>

definition traffic_of :: "go_string \<Rightarrow> go_string \<Rightarrow> metric_point list \<Rightarrow> int" where
  "traffic_of u name pts =
     sum_list (map (\<lambda>p. if mp_entity p = u \<and> mp_metric p = name then (case mp_value p of OfInt n \<Rightarrow> n | Bits _ \<Rightarrow> 0) else 0) pts)"

lemma traffic_of_simps [simp]:
  "traffic_of u name [] = 0" "traffic_of u name (p @ q) = traffic_of u name p + traffic_of u name q"
  "traffic_of u name (x # q) = (if mp_entity x = u \<and> mp_metric x = name then (case mp_value x of OfInt n \<Rightarrow> n | Bits _ \<Rightarrow> 0) else 0) + traffic_of u name q"
  by (simp_all add: traffic_of_def)

lemma traffic_of_concat: "(\<And>x. x \<in> set xs \<Longrightarrow> traffic_of u name (f x) = 0) \<Longrightarrow> traffic_of u name (concat (map f xs)) = 0"
  by (induction xs) auto

lemma traffic_of_gpu: "name \<in> {''traffic.up'', ''traffic.down''} \<Longrightarrow> traffic_of u name (gpu_points r g) = 0"
  unfolding gpu_points_def by (auto simp: entity_point_def tagged_points_def intro!: traffic_of_concat)

lemma traffic_of_tagged:
  "name \<in> {''traffic.up'', ''traffic.down''} \<Longrightarrow> traffic_of u name (concat (map (disk_io_points r) ds)) = 0"
  "name \<in> {''traffic.up'', ''traffic.down''} \<Longrightarrow> traffic_of u name (mining_points r m) = 0"
  unfolding disk_io_points_def mining_points_def by (auto simp: tagged_points_def intro!: traffic_of_concat)

lemma traffic_of_report:
  "traffic_of u ''traffic.up'' (report_metric_points r up down) = (if rp_uuid r = u then up else 0)"
  "traffic_of u ''traffic.down'' (report_metric_points r up down) = (if rp_uuid r = u then down else 0)"
  unfolding report_metric_points_def
  by (auto simp: entity_points_def entity_point_def traffic_of_gpu traffic_of_tagged split: option.split)

abbreviation up_of :: "report \<Rightarrow> int" where "up_of r \<equiv> net_total_up (rp_network r)"
abbreviation down_of :: "report \<Rightarrow> int" where "down_of r \<equiv> net_total_down (rp_network r)"

definition known_traffic :: "traffic_values \<Rightarrow> bool" where
  "known_traffic v = (tv_initialized v \<and> tv_has_up v \<and> tv_has_down v \<and> 0 \<le> tv_total_up v \<and> 0 \<le> tv_total_down v \<and> zero_time < tv_time v)"

lemma prepare_known:
  assumes "sts u = Some v" "known_traffic v" "prepare_report latest r sts = (sts', p, pts)"
  shows "rp_uuid r \<noteq> u \<Longrightarrow> sts' u = Some v \<and> traffic_of u ''traffic.up'' pts = 0 \<and> traffic_of u ''traffic.down'' pts = 0 \<and> rp_uuid p = rp_uuid r"
    "rp_uuid r = u \<Longrightarrow> tv_total_up v \<le> up_of r \<Longrightarrow> tv_total_down v \<le> down_of r \<Longrightarrow>
       \<exists>v'. sts' u = Some v' \<and> known_traffic v' \<and> tv_total_up v' = up_of r \<and> tv_total_down v' = down_of r \<and> tv_time v' = rp_time p \<and>
         tv_time v < rp_time p \<and> rp_uuid p = u \<and>
         traffic_of u ''traffic.up'' pts = up_of r - tv_total_up v \<and> traffic_of u ''traffic.down'' pts = down_of r - tv_total_down v"
proof -
  show "rp_uuid r \<noteq> u \<Longrightarrow> sts' u = Some v \<and> traffic_of u ''traffic.up'' pts = 0 \<and> traffic_of u ''traffic.down'' pts = 0 \<and> rp_uuid p = rp_uuid r"
    using assms by (auto simp: prepare_report_def Let_def traffic_of_report after_last_def)
  show "rp_uuid r = u \<Longrightarrow> tv_total_up v \<le> up_of r \<Longrightarrow> tv_total_down v \<le> down_of r \<Longrightarrow>
       \<exists>v'. sts' u = Some v' \<and> known_traffic v' \<and> tv_total_up v' = up_of r \<and> tv_total_down v' = down_of r \<and> tv_time v' = rp_time p \<and>
         tv_time v < rp_time p \<and> rp_uuid p = u \<and>
         traffic_of u ''traffic.up'' pts = up_of r - tv_total_up v \<and> traffic_of u ''traffic.down'' pts = down_of r - tv_total_down v"
    using assms by (auto simp: prepare_report_def Let_def traffic_of_report after_last_def restore_values_def known_traffic_def
        traffic_counter_delta_def millisecond_def)
qed

lemma prepare_all_known:
  assumes "prepare_reports latest rs sts = (sts', ps, pts)" "sts u = Some v" "known_traffic v"
    "sorted (tv_total_up v # map up_of (filter (\<lambda>r. rp_uuid r = u) rs))"
    "sorted (tv_total_down v # map down_of (filter (\<lambda>r. rp_uuid r = u) rs))"
  shows "traffic_of u ''traffic.up'' pts = last (tv_total_up v # map up_of (filter (\<lambda>r. rp_uuid r = u) rs)) - tv_total_up v \<and>
    traffic_of u ''traffic.down'' pts = last (tv_total_down v # map down_of (filter (\<lambda>r. rp_uuid r = u) rs)) - tv_total_down v \<and>
    sorted_wrt (<) (tv_time v # map rp_time (filter (\<lambda>r. rp_uuid r = u) ps))"
  using assms
proof (induction rs arbitrary: sts v ps pts)
  case (Cons r rs)
  obtain sts1 p pts1 where p: "prepare_report latest r sts = (sts1, p, pts1)" by (metis prod_cases3)
  obtain sts2 ps2 pts2 where q: "prepare_reports latest rs sts1 = (sts2, ps2, pts2)" by (metis prod_cases3)
  have e: "sts' = sts2" "ps = p # ps2" "pts = pts1 @ pts2" using Cons.prems(1) by (auto simp: p q)
  note k = prepare_known[OF Cons.prems(2,3) p]
  show ?case
  proof (cases "rp_uuid r = u")
    case False
    then show ?thesis using Cons.IH[of sts1 ps2 pts2 v] k(1) Cons.prems(3-5) q e by simp
  next
    case True
    then obtain v' where v': "sts1 u = Some v'" "known_traffic v'" "tv_total_up v' = up_of r" "tv_total_down v' = down_of r"
      "tv_time v' = rp_time p" "tv_time v < rp_time p" "rp_uuid p = u"
      "traffic_of u ''traffic.up'' pts1 = up_of r - tv_total_up v" "traffic_of u ''traffic.down'' pts1 = down_of r - tv_total_down v"
      using k(2) Cons.prems(4,5) by auto
    have "sts2 = sts'" using e by simp
    then show ?thesis using Cons.IH[of sts1 ps2 pts2 v'] v' Cons.prems(4,5) q e True by auto
  qed
qed simp

text \<open>
  C15: when batches are written, the traffic recorded for an agent over any number of reports is exactly the
  growth of its counters since the last report before them, in both directions, whatever other agents report
  in the same batch, and the times under which the agent's reports are stored strictly increase, so that none
  overwrites another.
\<close>

theorem traffic_conserved:
  assumes "sts u = Some v" and "known_traffic v" and "we_ok env"
    and "write_report_batch env rs sts = (sts', Inr saved, pts)"
    and "sorted (tv_total_up v # map up_of (filter (\<lambda>r. rp_uuid r = u) rs))"
    and "sorted (tv_total_down v # map down_of (filter (\<lambda>r. rp_uuid r = u) rs))"
  shows "traffic_of u ''traffic.up'' pts = last (tv_total_up v # map up_of (filter (\<lambda>r. rp_uuid r = u) rs)) - tv_total_up v \<and>
    traffic_of u ''traffic.down'' pts = last (tv_total_down v # map down_of (filter (\<lambda>r. rp_uuid r = u) rs)) - tv_total_down v \<and>
    sorted_wrt (<) (tv_time v # map rp_time (filter (\<lambda>r. rp_uuid r = u) saved))"
proof (cases "rs = []")
  case False
  then have "prepare_reports (we_latest env) rs sts = (sts', saved, pts)"
    using assms(3,4) by (auto simp: write_report_batch_def split: if_splits prod.splits)
  from prepare_all_known[OF this assms(1,2,5,6)] show ?thesis .
qed (use assms in \<open>simp add: write_report_batch_def\<close>)

definition some_traffic :: traffic_values where
  "some_traffic = \<lparr>tv_initialized = True, tv_time = 5, tv_has_up = True, tv_total_up = 50, tv_has_down = True, tv_total_down = 0\<rparr>"

theorem traffic_conserved_witness:
  "let rs = [blank_report ''a'' 6 100 0, blank_report ''b'' 6 9 9, blank_report ''a'' 6 200 0];
       (sts', saved, pts) = write_report_batch good_store rs [''a'' \<mapsto> some_traffic]
   in traffic_of ''a'' ''traffic.up'' pts = 150"
proof -
  let ?rs = "[blank_report ''a'' 6 100 0, blank_report ''b'' 6 9 9, blank_report ''a'' 6 200 0]"
  obtain sts' saved pts where w: "write_report_batch good_store ?rs [''a'' \<mapsto> some_traffic] = (sts', Inr saved, pts)"
    by (simp add: write_report_batch_def good_store_def case_prod_beta Let_def del: prepare_reports.simps)
  have "known_traffic some_traffic" "we_ok good_store" by (simp_all add: known_traffic_def some_traffic_def zero_time_def good_store_def)
  then have "traffic_of ''a'' ''traffic.up'' pts = 150"
    using traffic_conserved[OF _ _ _ w, of "''a''" some_traffic] by (simp add: some_traffic_def)
  then show ?thesis unfolding Let_def w by simp
qed

text \<open>
  When a write fails, the counters of its reports are kept as the last ones, so that writing the same reports
  again compares them with later counters: after one failure two reports that grow from 50 to 200 are
  recorded as 200, not 150, the first counter being taken for one that was reset.
\<close>

theorem failed_batch_recounts:
  "let rs = [blank_report ''a'' 6 100 0, blank_report ''a'' 7 200 0];
       (sts1, _, _) = write_report_batch failing_store rs [''a'' \<mapsto> some_traffic];
       (sts2, _, pts) = write_report_batch good_store rs sts1
   in traffic_of ''a'' ''traffic.up'' pts = 200"
  by (simp add: write_report_batch_def good_store_def failing_store_def prepare_report_def Let_def restore_values_def some_traffic_def
      after_last_def zero_time_def traffic_counter_delta_def max_reset_aware_delta_def traffic_of_report millisecond_def)

text \<open>
  A flush that has seen a running worker, and sends its request when the worker has served a stop, is never
  answered: the request stays in the channel, and no step takes it out.
\<close>

lemma done_stays:
  assumes "batch_next b b'" "wk_done (bb_worker b)"
  shows "wk_done (bb_worker b') \<and> wk_answers (bb_worker b') = wk_answers (bb_worker b)"
  using assms by (cases rule: batch_next.cases) (auto simp: enqueue_report_def enqueue_ping_def begin_stop_def send_request_def split: if_splits)

lemma done_stays_run:
  assumes "batch_next\<^sup>*\<^sup>* b b'" "wk_done (bb_worker b)"
  shows "wk_answers (bb_worker b') = wk_answers (bb_worker b)"
proof -
  have "wk_done (bb_worker b') \<and> wk_answers (bb_worker b') = wk_answers (bb_worker b)"
    using assms(1) by (induction rule: rtranclp_induct) (use assms(2) done_stays in auto)
  then show ?thesis by simp
qed

theorem flush_unanswered:
  "\<exists>b. batch_reach b \<and> wk_done (bb_worker b) \<and> wk_requests (bb_worker b) = [(1, False)] \<and>
     (\<forall>b'. batch_next\<^sup>*\<^sup>* b b' \<longrightarrow> wk_answers (bb_worker b') 1 = None)"
proof -
  let ?good = "\<lambda>_. good_store"
  define w0 where "w0 = new_worker Map.empty"
  define w1 where "w1 = begin_stop w0"
  define w2 where "w2 = w1\<lparr>wk_requests := [(0, True)], wk_next := 1\<rparr>"
  define w3 where "w3 = worker_request good_store ?good w2"
  define w4 where "w4 = w3\<lparr>wk_requests := [(1, False)], wk_next := 2\<rparr>"
  have w0: "\<not> wk_stopping w0" by (simp add: w0_def new_worker_def)
  have w2: "\<not> wk_done w2" "send_request True w1 = Some w2"
    by (simp_all add: w2_def w1_def w0_def begin_stop_def new_worker_def send_request_def)
  have w3: "wk_done w3" "wk_requests w3 = []" "wk_next w3 = 1" "wk_answers w3 1 = None"
    by (simp_all add: w3_def w2_def w1_def w0_def worker_request_def begin_stop_def new_worker_def drain_pings_def drain_reports_def
        drain_queue_def pings_none write_pending_reports_def)
  have "batch_reach \<lparr>bb_worker = w0, bb_flushers = 0, bb_stoppers = 0\<rparr>" unfolding w0_def by (rule batch_start)
  from batch_more[OF this batch_next.flush] have "batch_reach \<lparr>bb_worker = w0, bb_flushers = 1, bb_stoppers = 0\<rparr>"
    using w0 by (simp add: begin_flush_def)
  from batch_more[OF this batch_next.stop] have "batch_reach \<lparr>bb_worker = w1, bb_flushers = 1, bb_stoppers = 1\<rparr>"
    by (simp add: w1_def)
  from batch_more[OF this batch_next.send_stop, of w2] have "batch_reach \<lparr>bb_worker = w2, bb_flushers = 1, bb_stoppers = 0\<rparr>"
    using w2 by simp
  from batch_more[OF this batch_next.serve, of good_store ?good] have "batch_reach \<lparr>bb_worker = w3, bb_flushers = 1, bb_stoppers = 0\<rparr>"
    using w2 by (simp add: w3_def)
  from batch_more[OF this batch_next.send_flush, of w4] have r: "batch_reach \<lparr>bb_worker = w4, bb_flushers = 0, bb_stoppers = 0\<rparr>"
    using w3 by (simp add: send_request_def w4_def)
  have "wk_done w4" "wk_answers w4 1 = None" "wk_requests w4 = [(1, False)]" using w3 by (simp_all add: w4_def)
  then show ?thesis using r done_stays_run by (intro exI[of _ "\<lparr>bb_worker = w4, bb_flushers = 0, bb_stoppers = 0\<rparr>"]) auto
qed

end
