(* ===== verification/Accounts.thy ===== *)
theory Accounts
  imports Prelude Interfaces "HOL-Library.List_Lexorder" "HOL-Library.Char_ord"
begin

text \<open>
  Users and login sessions: \<^verbatim>\<open>database/accounts\<close> (the tables and their operations), the handlers
  \<^verbatim>\<open>Login\<close>, \<^verbatim>\<open>Logout\<close> (\<^verbatim>\<open>web/api/public/login.go\<close>) and \<^verbatim>\<open>OAuthCallback\<close> (\<^verbatim>\<open>oauth.go\<close>), the session methods
  of \<^verbatim>\<open>admin.misc.go\<close> and the commands \<^verbatim>\<open>chpasswd\<close> and \<^verbatim>\<open>disable-2fa\<close>.  Tables are lists of rows; a query
  that may fail takes its outcome as a flag.  The digest of passwords (SHA-256 in Base64), the check of a
  one-time code and the token drawn for a session are arguments.  Notifications and the audit log,
  which change nothing here, and the columns \<^verbatim>\<open>created_at\<close>, \<^verbatim>\<open>updated_at\<close> are left out.  Times are absolute,
  in seconds.
\<close>

section \<open>Data\<close>

record user =
  u_uuid :: go_string
  u_name :: go_string
  u_passwd :: go_string
  u_sso_type :: go_string
  u_sso_id :: go_string
  u_two_factor :: go_string

record login_session =
  ses_user :: go_string
  ses_token :: go_string
  ses_agent :: go_string
  ses_ip :: go_string
  ses_method :: go_string
  ses_online :: int
  ses_last_agent :: go_string
  ses_last_ip :: go_string
  ses_expires :: int

record accounts_db =
  users :: "user list"
  sessions :: "login_session list"

definition zero_user :: user where
  "zero_user = \<lparr>u_uuid = [], u_name = [], u_passwd = [], u_sso_type = [], u_sso_id = [], u_two_factor = []\<rparr>"

text \<open>\<^verbatim>\<open>First\<close> takes the matching row with the least primary key; a failed query finds none.\<close>

definition first_user :: "bool \<Rightarrow> (user \<Rightarrow> bool) \<Rightarrow> accounts_db \<Rightarrow> user option" where
  "first_user ok P db = (if ok then (case sort_key u_uuid (filter P (users db)) of [] \<Rightarrow> None | u # _ \<Rightarrow> Some u)
     else None)"

definition first_session :: "bool \<Rightarrow> go_string \<Rightarrow> accounts_db \<Rightarrow> login_session option" where
  "first_session ok tok db = (if ok then find (\<lambda>s. ses_token s = tok) (sessions db) else None)"

definition update_users :: "bool \<Rightarrow> (user \<Rightarrow> bool) \<Rightarrow> (user \<Rightarrow> user) \<Rightarrow> accounts_db \<Rightarrow> accounts_db" where
  "update_users ok P f db =
     (if ok then db\<lparr>users := map (\<lambda>u. if P u then f u else u) (users db)\<rparr> else db)"

definition delete_sessions :: "bool \<Rightarrow> (login_session \<Rightarrow> bool) \<Rightarrow> accounts_db \<Rightarrow> accounts_db" where
  "delete_sessions ok P db = (if ok then db\<lparr>sessions := filter (\<lambda>s. \<not> P s) (sessions db)\<rparr> else db)"

section \<open>Accounts\<close>

definition constant_salt :: go_string where "constant_salt = ''06Wm4Jv1Hkxx''"

definition hash_passwd :: "(go_string \<Rightarrow> go_string) \<Rightarrow> go_string \<Rightarrow> go_string" where
  "hash_passwd digest pw = digest (pw @ constant_salt)"

definition check_password ::
  "(go_string \<Rightarrow> go_string) \<Rightarrow> bool \<Rightarrow> go_string \<Rightarrow> go_string \<Rightarrow> accounts_db \<Rightarrow> go_string \<times> bool" where
  "check_password digest ok name pw db = (case first_user ok (\<lambda>u. u_name u = name) db of
       None \<Rightarrow> ([], False)
     | Some u \<Rightarrow> if hash_passwd digest pw \<noteq> u_passwd u then ([], False) else (u_uuid u, True))"

definition force_reset_password ::
  "(go_string \<Rightarrow> go_string) \<Rightarrow> bool \<Rightarrow> go_string \<Rightarrow> go_string \<Rightarrow> accounts_db \<Rightarrow> bool \<times> accounts_db" where
  "force_reset_password digest ok name pw db =
     (ok \<and> (\<exists>u\<in>set (users db). u_name u = name),
      update_users ok (\<lambda>u. u_name u = name) (\<lambda>u. u\<lparr>u_passwd := hash_passwd digest pw\<rparr>) db)"

definition create_account ::
  "(go_string \<Rightarrow> go_string) \<Rightarrow> bool \<Rightarrow> go_string \<Rightarrow> go_string \<Rightarrow> go_string \<Rightarrow> accounts_db \<Rightarrow> user option \<times> accounts_db" where
  "create_account digest ok uuid name pw db =
     (let u = zero_user\<lparr>u_uuid := uuid, u_name := name, u_passwd := hash_passwd digest pw\<rparr> in
      if ok \<and> uuid \<notin> u_uuid ` set (users db) \<and> name \<notin> u_name ` set (users db)
      then (Some u, db\<lparr>users := users db @ [u]\<rparr>) else (None, db))"

definition delete_account :: "bool \<Rightarrow> go_string \<Rightarrow> accounts_db \<Rightarrow> accounts_db" where
  "delete_account ok name db =
     (if ok then db\<lparr>users := filter (\<lambda>u. u_name u \<noteq> name) (users db)\<rparr> else db)"

definition get_user_by_uuid :: "bool \<Rightarrow> go_string \<Rightarrow> accounts_db \<Rightarrow> user option" where
  "get_user_by_uuid ok uuid db = first_user ok (\<lambda>u. u_uuid u = uuid) db"

definition get_user_by_sso :: "bool \<Rightarrow> go_string \<Rightarrow> accounts_db \<Rightarrow> user option" where
  "get_user_by_sso ok sso db = first_user ok (\<lambda>u. u_sso_id u = sso) db"

definition set_sso :: "bool \<Rightarrow> go_string \<Rightarrow> go_string \<Rightarrow> accounts_db \<Rightarrow> accounts_db" where
  "set_sso ok uuid sso db = update_users ok (\<lambda>u. u_uuid u = uuid) (\<lambda>u. u\<lparr>u_sso_id := sso\<rparr>) db"

definition unbind_sso :: "bool \<Rightarrow> go_string \<Rightarrow> accounts_db \<Rightarrow> accounts_db" where
  "unbind_sso ok uuid db = set_sso ok uuid [] db"

definition set_two_factor :: "bool \<Rightarrow> go_string \<Rightarrow> go_string \<Rightarrow> accounts_db \<Rightarrow> accounts_db" where
  "set_two_factor ok uuid secret db =
     update_users ok (\<lambda>u. u_uuid u = uuid) (\<lambda>u. u\<lparr>u_two_factor := secret\<rparr>) db"

definition disable_2fa :: "bool \<Rightarrow> go_string \<Rightarrow> accounts_db \<Rightarrow> accounts_db" where
  "disable_2fa ok uuid db = set_two_factor ok uuid [] db"

text \<open>\<^verbatim>\<open>Verify2Fa\<close>: \<open>None\<close> is an error of the database; \<open>totp\<close> checks a code against a secret.\<close>

definition verify_2fa ::
  "(int \<Rightarrow> go_string \<Rightarrow> go_string \<Rightarrow> bool) \<Rightarrow> bool \<Rightarrow> int \<Rightarrow> go_string \<Rightarrow> go_string \<Rightarrow> accounts_db \<Rightarrow> bool option" where
  "verify_2fa totp ok now uuid code db = (case get_user_by_uuid ok uuid db of
       None \<Rightarrow> None
     | Some u \<Rightarrow> if u_two_factor u = [] then Some False else Some (totp now code (u_two_factor u)))"

section \<open>Sessions\<close>

definition create_login_session ::
  "bool \<Rightarrow> int \<Rightarrow> go_string \<Rightarrow> go_string \<Rightarrow> int \<Rightarrow> go_string \<Rightarrow> go_string \<Rightarrow> go_string \<Rightarrow> accounts_db
     \<Rightarrow> go_string option \<times> accounts_db" where
  "create_login_session ok now tok uuid expires agent ip meth db =
     (let s = \<lparr>ses_user = uuid, ses_token = tok, ses_agent = agent, ses_ip = ip, ses_method = meth,
               ses_online = now, ses_last_agent = [], ses_last_ip = [], ses_expires = now + expires\<rparr> in
      if ok \<and> tok \<notin> ses_token ` set (sessions db) then (Some tok, db\<lparr>sessions := sessions db @ [s]\<rparr>)
      else (None, db))"

definition delete_session :: "bool \<Rightarrow> go_string \<Rightarrow> accounts_db \<Rightarrow> accounts_db" where
  "delete_session ok tok db = delete_sessions ok (\<lambda>s. ses_token s = tok) db"

definition delete_all_sessions :: "bool \<Rightarrow> accounts_db \<Rightarrow> accounts_db" where
  "delete_all_sessions ok db = delete_sessions ok (\<lambda>s. True) db"

definition remove_expired_sessions :: "bool \<Rightarrow> int \<Rightarrow> accounts_db \<Rightarrow> accounts_db" where
  "remove_expired_sessions ok now db = delete_sessions ok (\<lambda>s. ses_expires s < now) db"

text \<open>An expired session is deleted when it is looked up; \<open>find_ok\<close> and \<open>del_ok\<close> are the two queries.\<close>

definition get_session :: "bool \<Rightarrow> bool \<Rightarrow> int \<Rightarrow> go_string \<Rightarrow> accounts_db \<Rightarrow> go_string option \<times> accounts_db" where
  "get_session find_ok del_ok now tok db = (case first_session find_ok tok db of
       None \<Rightarrow> (None, db)
     | Some s \<Rightarrow> if now > ses_expires s then (None, delete_session del_ok tok db)
                else (Some (ses_user s), db))"

definition get_user_by_session :: "bool \<Rightarrow> bool \<Rightarrow> go_string \<Rightarrow> accounts_db \<Rightarrow> user option" where
  "get_user_by_session find_ok user_ok tok db = (case first_session find_ok tok db of
       None \<Rightarrow> None | Some s \<Rightarrow> get_user_by_uuid user_ok (ses_user s) db)"

definition update_latest :: "bool \<Rightarrow> int \<Rightarrow> go_string \<Rightarrow> go_string \<Rightarrow> go_string \<Rightarrow> accounts_db \<Rightarrow> accounts_db" where
  "update_latest ok now tok agent ip db =
     (if ok then db\<lparr>sessions := map (\<lambda>s. if ses_token s = tok
        then s\<lparr>ses_online := now, ses_last_agent := agent, ses_last_ip := ip\<rparr> else s) (sessions db)\<rparr>
      else db)"

text \<open>
  \<^verbatim>\<open>UpdateUser\<close>: the name is unique, so a name in use makes the update fail.  A new password ends every
  session; the result of that deletion (\<open>del_ok\<close>) is not looked at.
\<close>

definition apply_user_updates ::
  "(go_string \<Rightarrow> go_string) \<Rightarrow> go_string option \<Rightarrow> go_string option \<Rightarrow> go_string option \<Rightarrow> user \<Rightarrow> user" where
  "apply_user_updates digest name pw sso u =
     u\<lparr>u_name := (case name of None \<Rightarrow> u_name u | Some n \<Rightarrow> n),
       u_passwd := (case pw of None \<Rightarrow> u_passwd u | Some p \<Rightarrow> hash_passwd digest p),
       u_sso_type := (case sso of None \<Rightarrow> u_sso_type u | Some t \<Rightarrow> t)\<rparr>"

definition name_taken :: "go_string \<Rightarrow> go_string option \<Rightarrow> accounts_db \<Rightarrow> bool" where
  "name_taken uuid name db \<longleftrightarrow> (case name of None \<Rightarrow> False
     | Some n \<Rightarrow> \<exists>u\<in>set (users db). u_uuid u \<noteq> uuid \<and> u_name u = n)"

definition update_user ::
  "(go_string \<Rightarrow> go_string) \<Rightarrow> bool \<Rightarrow> bool \<Rightarrow> bool \<Rightarrow> go_string \<Rightarrow> go_string option \<Rightarrow> go_string option
     \<Rightarrow> go_string option \<Rightarrow> accounts_db \<Rightarrow> bool \<times> accounts_db" where
  "update_user digest find_ok upd_ok del_ok uuid name pw sso db =
     (case get_user_by_uuid find_ok uuid db of None \<Rightarrow> (False, db)
      | Some _ \<Rightarrow>
        if \<not> upd_ok \<or> name_taken uuid name db then (False, db)
        else let db' = update_users True (\<lambda>u. u_uuid u = uuid) (apply_user_updates digest name pw sso) db in
             (True, if pw \<noteq> None then delete_all_sessions del_ok db' else db'))"

section \<open>Handlers\<close>

text \<open>An HTTP answer: its status and message, and the value set as session cookie.\<close>

record reply =
  ans_status :: int
  ans_message :: go_string
  ans_cookie :: "go_string option"

definition answer :: "int \<Rightarrow> go_string \<Rightarrow> reply" where
  "answer st msg = \<lparr>ans_status = st, ans_message = msg, ans_cookie = None\<rparr>"

definition session_cookie_max_age :: int where "session_cookie_max_age = 2592000"

record login_request =
  lr_name :: go_string
  lr_passwd :: go_string
  lr_code :: go_string

record login_queries =
  lq_find :: bool
  lq_load :: bool
  lq_verify :: bool
  lq_create :: bool

definition login ::
  "(go_string \<Rightarrow> go_string) \<Rightarrow> (int \<Rightarrow> go_string \<Rightarrow> go_string \<Rightarrow> bool) \<Rightarrow> bool \<Rightarrow> login_queries \<Rightarrow> int
     \<Rightarrow> go_string + login_request \<Rightarrow> go_string \<Rightarrow> go_string \<Rightarrow> go_string \<Rightarrow> accounts_db \<Rightarrow> reply \<times> accounts_db" where
  "login digest totp disabled q now body tok agent ip db =
     (if disabled then (answer 403 ''Password login is disabled'', db)
      else case body of Inl e \<Rightarrow> (answer 400 (''Invalid request body: '' @ e), db)
      | Inr d \<Rightarrow>
        if lr_name d = [] \<or> lr_passwd d = []
        then (answer 400 ''Invalid request body: Username and password are required'', db)
        else case check_password digest (lq_find q) (lr_name d) (lr_passwd d) db of (uuid, success) \<Rightarrow>
          if \<not> success then (answer 401 ''Invalid credentials'', db)
          else let u = (case get_user_by_uuid (lq_load q) uuid db of None \<Rightarrow> zero_user | Some u \<Rightarrow> u) in
            if u_two_factor u \<noteq> [] \<and> lr_code d = [] then (answer 401 ''2FA code is required'', db)
            else if u_two_factor u \<noteq> [] \<and> verify_2fa totp (lq_verify q) now uuid (lr_code d) db \<noteq> Some True
            then (answer 401 ''Invalid 2FA code'', db)
            else case create_login_session (lq_create q) now tok uuid session_cookie_max_age agent ip ''password'' db of
                (None, db') \<Rightarrow> (answer 500 ''Failed to create session: '', db')
              | (Some s, db') \<Rightarrow> ((answer 200 [])\<lparr>ans_cookie := Some s\<rparr>, db'))"

definition logout :: "bool \<Rightarrow> go_string \<Rightarrow> accounts_db \<Rightarrow> reply \<times> accounts_db" where
  "logout ok tok db = ((answer 302 ''/'')\<lparr>ans_cookie := Some []\<rparr>, delete_session ok tok db)"

text \<open>
  \<^verbatim>\<open>OAuthCallback\<close>: \<open>prov\<close> is the name of the provider, \<open>oidc\<close> its answer (an error text or the user's
  identifier); cookies that are missing are empty.
\<close>

record oauth_request =
  oa_state_cookie :: go_string
  oa_state_query :: go_string
  oa_binding :: go_string
  oa_session :: go_string

record oauth_queries =
  oq_session :: bool
  oq_user :: bool
  oq_bind :: bool
  oq_sso :: bool
  oq_create :: bool

definition oauth_state_ok :: "go_string \<Rightarrow> oauth_request \<Rightarrow> bool" where
  "oauth_state_ok prov r \<longleftrightarrow> oa_state_cookie r \<noteq> [] \<and> (prov = ''qq'' \<or> oa_state_cookie r = oa_state_query r)"

definition sso_id_of :: "go_string \<Rightarrow> go_string \<Rightarrow> go_string" where
  "sso_id_of prov uid = prov @ ''_'' @ uid"

definition oauth_callback ::
  "oauth_queries \<Rightarrow> int \<Rightarrow> go_string \<Rightarrow> go_string + go_string \<Rightarrow> oauth_request \<Rightarrow> go_string \<Rightarrow> go_string \<Rightarrow> go_string
     \<Rightarrow> accounts_db \<Rightarrow> reply \<times> accounts_db" where
  "oauth_callback q now prov oidc r tok agent ip db =
     (if \<not> oauth_state_ok prov r then (answer 400 ''Invalid state'', db)
      else case oidc of Inl e \<Rightarrow> (answer 500 (''Failed to get user info: '' @ e), db)
      | Inr uid \<Rightarrow>
        if oa_binding r \<noteq> [] then
          (case get_user_by_session (oq_session q) (oq_user q) (oa_session r) db of
             None \<Rightarrow> (answer 500 ''Binding failed'', db)
           | Some u \<Rightarrow>
             if u_uuid u \<noteq> oa_binding r \<or> \<not> oq_bind q then (answer 500 ''Binding failed'', db)
             else (answer 302 ''/admin/dashboard'', set_sso True (u_uuid u) (sso_id_of prov uid) db))
        else (case get_user_by_sso (oq_sso q) (sso_id_of prov uid) db of
             None \<Rightarrow> (answer 401 ''please log in and bind your external account first.'', db)
           | Some u \<Rightarrow>
             (case create_login_session (oq_create q) now tok (u_uuid u) session_cookie_max_age agent ip ''oauth'' db of
                (None, db') \<Rightarrow> (answer 500 [], db')
              | (Some s, db') \<Rightarrow> ((answer 302 ''/admin/dashboard'')\<lparr>ans_cookie := Some s\<rparr>, db'))))"

definition admin_delete_session :: "bool \<Rightarrow> go_string \<Rightarrow> accounts_db \<Rightarrow> bool \<times> accounts_db" where
  "admin_delete_session ok tok db = (if tok = [] then (False, db) else (ok, delete_session ok tok db))"

definition admin_delete_all_sessions :: "bool \<Rightarrow> accounts_db \<Rightarrow> bool \<times> accounts_db" where
  "admin_delete_all_sessions ok db = (ok, delete_all_sessions ok db)"

text \<open>\<^verbatim>\<open>Enable2FA\<close> takes the secret from a cookie of the request, and does not ask for the current code.\<close>

definition enable_2fa_request ::
  "(int \<Rightarrow> go_string \<Rightarrow> go_string \<Rightarrow> bool) \<Rightarrow> bool \<Rightarrow> int \<Rightarrow> go_string \<Rightarrow> go_string \<Rightarrow> go_string \<Rightarrow> accounts_db
     \<Rightarrow> reply \<times> accounts_db" where
  "enable_2fa_request totp ok now uuid secret code db =
     (if secret = [] \<or> code = [] then (answer 400 ''2FA secret or code not provided'', db)
      else if \<not> totp now code secret then (answer 400 ''Invalid 2FA code'', db)
      else if \<not> ok then (answer 500 ''Failed to enable 2FA: '', db)
      else (answer 200 [], set_two_factor True uuid secret db))"

definition disable_2fa_request :: "bool \<Rightarrow> go_string \<Rightarrow> accounts_db \<Rightarrow> reply \<times> accounts_db" where
  "disable_2fa_request ok uuid db =
     (if \<not> ok then (answer 500 ''Failed to disable 2FA: '', db) else (answer 200 [], disable_2fa True uuid db))"

text \<open>The commands: \<^verbatim>\<open>chpasswd\<close> acts on the first user, and an error stops it before the sessions are ended.\<close>

definition chpasswd_cmd :: "(go_string \<Rightarrow> go_string) \<Rightarrow> bool \<Rightarrow> bool \<Rightarrow> go_string \<Rightarrow> accounts_db \<Rightarrow> accounts_db" where
  "chpasswd_cmd digest reset_ok del_ok pw db =
     (if pw = [] then db
      else let u = (case first_user True (\<lambda>u. True) db of None \<Rightarrow> zero_user | Some u \<Rightarrow> u) in
        case force_reset_password digest reset_ok (u_name u) pw db of (done, db') \<Rightarrow>
          if \<not> done then db' else delete_all_sessions del_ok db')"

definition disable_2fa_cmd :: "bool \<Rightarrow> accounts_db \<Rightarrow> accounts_db" where
  "disable_2fa_cmd ok db = update_users ok (\<lambda>u. u_two_factor u \<noteq> []) (\<lambda>u. u\<lparr>u_two_factor := []\<rparr>) db"

end
