(* ===== verification/Session_History.thy ===== *)
theory Session_History
  imports Accounts
begin

text \<open>
  Histories of the operations on accounts and sessions.  The specification says when an operation issues
  a session (a login whose credentials hold, an external login of a bound account) and when it revokes
  one; the table of \<^verbatim>\<open>database/accounts\<close> is shown to implement it, whatever queries fail and
  whenever expired rows are deleted.
\<close>

section \<open>Operations and histories\<close>

datatype account_op =
    OpLogin bool login_queries "go_string + login_request" go_string go_string go_string
  | OpOAuth oauth_queries go_string "go_string + go_string" oauth_request go_string go_string go_string
  | OpLogout bool go_string
  | OpDeleteSession bool go_string
  | OpDeleteAll bool
  | OpLookup bool bool go_string
  | OpTouch bool go_string go_string go_string
  | OpSweep bool
  | OpUpdateUser bool bool bool go_string "go_string option" "go_string option" "go_string option"
  | OpUnbind bool go_string
  | OpEnable2fa bool go_string go_string go_string
  | OpDisable2fa bool go_string
  | OpCreateAccount bool go_string go_string go_string
  | OpDeleteAccount bool go_string
  | OpChpasswd bool bool go_string
  | OpDisable2faCmd bool

fun do_account ::
  "(go_string \<Rightarrow> go_string) \<Rightarrow> (int \<Rightarrow> go_string \<Rightarrow> go_string \<Rightarrow> bool) \<Rightarrow> int \<Rightarrow> account_op \<Rightarrow> accounts_db \<Rightarrow> accounts_db" where
  "do_account dg totp now (OpLogin dis q body tok agent ip) db = snd (login dg totp dis q now body tok agent ip db)"
| "do_account dg totp now (OpOAuth q prov oidc r tok agent ip) db =
     snd (oauth_callback q now prov oidc r tok agent ip db)"
| "do_account dg totp now (OpLogout ok tok) db = snd (logout ok tok db)"
| "do_account dg totp now (OpDeleteSession ok tok) db = snd (admin_delete_session ok tok db)"
| "do_account dg totp now (OpDeleteAll ok) db = snd (admin_delete_all_sessions ok db)"
| "do_account dg totp now (OpLookup fok dok tok) db = snd (get_session fok dok now tok db)"
| "do_account dg totp now (OpTouch ok tok agent ip) db = update_latest ok now tok agent ip db"
| "do_account dg totp now (OpSweep ok) db = remove_expired_sessions ok now db"
| "do_account dg totp now (OpUpdateUser fok uok dok uuid name pw sso) db =
     snd (update_user dg fok uok dok uuid name pw sso db)"
| "do_account dg totp now (OpUnbind ok uuid) db = unbind_sso ok uuid db"
| "do_account dg totp now (OpEnable2fa ok uuid secret code) db =
     snd (enable_2fa_request totp ok now uuid secret code db)"
| "do_account dg totp now (OpDisable2fa ok uuid) db = snd (disable_2fa_request ok uuid db)"
| "do_account dg totp now (OpCreateAccount ok uuid name pw) db = snd (create_account dg ok uuid name pw db)"
| "do_account dg totp now (OpDeleteAccount ok name) db = delete_account ok name db"
| "do_account dg totp now (OpChpasswd rok dok pw) db = chpasswd_cmd dg rok dok pw db"
| "do_account dg totp now (OpDisable2faCmd ok) db = disable_2fa_cmd ok db"

section \<open>What a history promises\<close>

text \<open>
  A password login is granted to the user whose name and password it gives, if the second factor
  holds: none is set, or the code is right.  The handler takes a user that cannot be loaded for one
  without a second factor (\<open>\<not> lq_load q\<close>).
\<close>

definition password_login ::
  "(go_string \<Rightarrow> go_string) \<Rightarrow> (int \<Rightarrow> go_string \<Rightarrow> go_string \<Rightarrow> bool) \<Rightarrow> login_queries \<Rightarrow> int \<Rightarrow> go_string + login_request
     \<Rightarrow> accounts_db \<Rightarrow> user \<Rightarrow> bool" where
  "password_login dg totp q now body db u \<longleftrightarrow> (\<exists>d. body = Inr d \<and> lq_find q \<and> lr_name d \<noteq> [] \<and> lr_passwd d \<noteq> [] \<and>
     u \<in> set (users db) \<and> u_name u = lr_name d \<and> u_passwd u = hash_passwd dg (lr_passwd d) \<and>
     (\<not> lq_load q \<or> u_two_factor u = [] \<or>
      lr_code d \<noteq> [] \<and> lq_verify q \<and> totp now (lr_code d) (u_two_factor u)))"

definition external_login ::
  "oauth_queries \<Rightarrow> go_string \<Rightarrow> go_string + go_string \<Rightarrow> oauth_request \<Rightarrow> accounts_db \<Rightarrow> user \<Rightarrow> bool" where
  "external_login q prov oidc r db u \<longleftrightarrow> (\<exists>uid. oidc = Inr uid \<and> oauth_state_ok prov r \<and> oa_binding r = [] \<and>
     first_user (oq_sso q) (\<lambda>u. u_sso_id u = sso_id_of prov uid) db = Some u)"

definition fresh_row :: "bool \<Rightarrow> go_string \<Rightarrow> go_string \<Rightarrow> accounts_db \<Rightarrow> bool" where
  "fresh_row ok tok k db \<longleftrightarrow> ok \<and> k = tok \<and> tok \<notin> ses_token ` set (sessions db)"

fun session_issue ::
  "(go_string \<Rightarrow> go_string) \<Rightarrow> (int \<Rightarrow> go_string \<Rightarrow> go_string \<Rightarrow> bool) \<Rightarrow> int \<Rightarrow> account_op \<Rightarrow> accounts_db \<Rightarrow> go_string
     \<Rightarrow> (go_string \<times> int) option" where
  "session_issue dg totp now (OpLogin dis q body tok agent ip) db k =
     (case filter (password_login dg totp q now body db) (users db) of
        u # _ \<Rightarrow> if \<not> dis \<and> fresh_row (lq_create q) tok k db then Some (u_uuid u, now + session_cookie_max_age) else None
      | [] \<Rightarrow> None)"
| "session_issue dg totp now (OpOAuth q prov oidc r tok agent ip) db k =
     (case filter (external_login q prov oidc r db) (users db) of
        u # _ \<Rightarrow> if fresh_row (oq_create q) tok k db then Some (u_uuid u, now + session_cookie_max_age) else None
      | [] \<Rightarrow> None)"
| "session_issue dg totp now _ db k = None"

fun session_revoke ::
  "(go_string \<Rightarrow> go_string) \<Rightarrow> (int \<Rightarrow> go_string \<Rightarrow> go_string \<Rightarrow> bool) \<Rightarrow> int \<Rightarrow> account_op \<Rightarrow> accounts_db \<Rightarrow> go_string \<Rightarrow> bool" where
  "session_revoke dg totp now (OpLogout ok tok) db k = (ok \<and> tok = k)"
| "session_revoke dg totp now (OpDeleteSession ok tok) db k = (ok \<and> tok = k \<and> tok \<noteq> [])"
| "session_revoke dg totp now (OpDeleteAll ok) db k = ok"
| "session_revoke dg totp now (OpUpdateUser fok uok dok uuid name pw sso) db k =
     (fok \<and> uok \<and> dok \<and> pw \<noteq> None \<and> uuid \<in> u_uuid ` set (users db) \<and> \<not> name_taken uuid name db)"
| "session_revoke dg totp now (OpChpasswd rok dok pw) db k = (pw \<noteq> [] \<and> rok \<and> dok \<and> users db \<noteq> [])"
| "session_revoke dg totp now _ db k = False"

section \<open>The tables stay well-formed\<close>

definition accounts_wf :: "accounts_db \<Rightarrow> bool" where
  "accounts_wf db \<longleftrightarrow> distinct (map u_uuid (users db)) \<and> distinct (map u_name (users db)) \<and>
     distinct (map ses_token (sessions db))"

definition session_row :: "accounts_db \<Rightarrow> go_string \<Rightarrow> (go_string \<times> int) option" where
  "session_row db k = map_option (\<lambda>s. (ses_user s, ses_expires s)) (find (\<lambda>s. ses_token s = k) (sessions db))"

lemma users_update [simp]:
  "sessions (update_users ok P f db) = sessions db"
  "users (delete_sessions ok Q db) = users db"
  "users (update_latest ok now tok agent ip db) = users db"
  by (simp_all add: update_users_def delete_sessions_def update_latest_def)

lemma comp_same: "(\<And>x. g (f x) = g x) \<Longrightarrow> g \<circ> (\<lambda>x. if P x then f x else x) = g"
  by auto

lemma update_users_wf:
  assumes "accounts_wf db" "\<And>u. u_uuid (f u) = u_uuid u" "\<And>u. u_name (f u) = u_name u"
  shows "accounts_wf (update_users ok P f db)"
  using assms(1) by (simp add: accounts_wf_def update_users_def comp_same[of u_uuid f P, OF assms(2)]
      comp_same[of u_name f P, OF assms(3)])

lemma delete_sessions_wf: "accounts_wf db \<Longrightarrow> accounts_wf (delete_sessions ok P db)"
  by (auto simp: accounts_wf_def delete_sessions_def distinct_map_filter)

lemma create_login_session_wf:
  "accounts_wf db \<Longrightarrow> accounts_wf (snd (create_login_session ok now tok uuid x agent ip meth db))"
  by (auto simp: accounts_wf_def create_login_session_def Let_def)

lemma update_latest_wf: "accounts_wf db \<Longrightarrow> accounts_wf (update_latest ok now tok agent ip db)"
  using comp_same[of "ses_token :: login_session \<Rightarrow> go_string" "\<lambda>s. s\<lparr>ses_online := now, ses_last_agent := agent, ses_last_ip := ip\<rparr>"
      "\<lambda>s. ses_token s = tok"]
  by (simp add: accounts_wf_def update_latest_def)

text \<open>Renaming one row to a name no other row has keeps the names distinct.\<close>

lemma distinct_rename:
  assumes "distinct (map u_uuid us)" "distinct (map u_name us)"
    "\<And>u. u \<in> set us \<Longrightarrow> u_uuid u \<noteq> k \<Longrightarrow> u_name u \<noteq> n"
    "\<And>u. u_name (f u) = n \<or> u_name (f u) = u_name u"
  shows "distinct (map (u_name \<circ> (\<lambda>u. if u_uuid u = k then f u else u)) us)"
proof -
  have inj: "inj_on u_uuid (set us)" "inj_on u_name (set us)"
    using assms(1,2) by (simp_all add: distinct_map)
  have ids: "u_uuid x = u_uuid y \<Longrightarrow> x = y" and names: "u_name x = u_name y \<Longrightarrow> x = y"
    if "x \<in> set us" "y \<in> set us" for x y
    using inj_onD[OF inj(1), of x y] inj_onD[OF inj(2), of x y] that by simp_all
  let ?h = "\<lambda>u. if u_uuid u = k then f u else u"
  have "x = y" if xy: "x \<in> set us" "y \<in> set us" and e: "u_name (?h x) = u_name (?h y)" for x y
  proof (cases "u_uuid x = k"; cases "u_uuid y = k")
    assume "u_uuid x = k" "u_uuid y = k"
    then have "u_uuid x = u_uuid y" by simp
    then show ?thesis by (rule ids[OF xy])
  next
    assume "u_uuid x = k" "u_uuid y \<noteq> k"
    have "u_name (f x) = u_name y" using e \<open>u_uuid x = k\<close> \<open>u_uuid y \<noteq> k\<close> by simp
    moreover have "u_name y \<noteq> n" using assms(3)[OF xy(2)] \<open>u_uuid y \<noteq> k\<close> by simp
    ultimately have "u_name x = u_name y" using assms(4)[of x] by metis
    then show ?thesis by (rule names[OF xy])
  next
    assume "u_uuid x \<noteq> k" "u_uuid y = k"
    have "u_name x = u_name (f y)" using e \<open>u_uuid y = k\<close> \<open>u_uuid x \<noteq> k\<close> by simp
    moreover have "u_name x \<noteq> n" using assms(3)[OF xy(1)] \<open>u_uuid x \<noteq> k\<close> by simp
    ultimately have "u_name x = u_name y" using assms(4)[of y] by metis
    then show ?thesis by (rule names[OF xy])
  next
    assume "u_uuid x \<noteq> k" "u_uuid y \<noteq> k"
    with e have "u_name x = u_name y" by simp
    then show ?thesis by (rule names[OF xy])
  qed
  then have "inj_on (u_name \<circ> ?h) (set us)" unfolding inj_on_def comp_def by blast
  then show ?thesis using assms(1) by (simp add: distinct_map)
qed

lemma update_user_wf:
  assumes "accounts_wf db"
  shows "accounts_wf (snd (update_user dg fok uok dok uuid name pw sso db))"
proof -
  have "accounts_wf (update_users True (\<lambda>u. u_uuid u = uuid) (apply_user_updates dg name pw sso) db)"
    if "\<not> name_taken uuid name db"
  proof (cases name)
    case None
    then show ?thesis by (intro update_users_wf[OF assms]) (simp_all add: apply_user_updates_def)
  next
    case (Some n)
    have "u_name u \<noteq> n" if "u \<in> set (users db)" "u_uuid u \<noteq> uuid" for u
      using that \<open>\<not> name_taken uuid name db\<close> by (auto simp: name_taken_def Some)
    then have "distinct (map (u_name \<circ> (\<lambda>u. if u_uuid u = uuid then apply_user_updates dg name pw sso u else u)) (users db))"
      using assms by (intro distinct_rename[where n = n]) (auto simp: accounts_wf_def apply_user_updates_def Some)
    moreover have "u_uuid \<circ> (\<lambda>u. if u_uuid u = uuid then apply_user_updates dg name pw sso u else u) = u_uuid"
      by (rule comp_same) (simp add: apply_user_updates_def)
    ultimately show ?thesis using assms by (simp add: accounts_wf_def update_users_def)
  qed
  then show ?thesis
    using assms by (auto simp: update_user_def Let_def delete_all_sessions_def delete_sessions_wf split: option.splits)
qed

lemma snd_case_created [simp]:
  "snd (case p of (None, d) \<Rightarrow> (f, d) | (Some x, d) \<Rightarrow> (g x, d)) = snd p"
  by (auto split: prod.splits option.splits)

lemma login_cases:
  "snd (login dg totp dis q now body tok agent ip db) = db \<or>
   (\<exists>uuid. snd (login dg totp dis q now body tok agent ip db) =
      snd (create_login_session (lq_create q) now tok uuid session_cookie_max_age agent ip ''password'' db))"
  by (cases body; cases "check_password dg (lq_find q) (lr_name (projr body)) (lr_passwd (projr body)) db")
    (auto simp: login_def Let_def)

lemma oauth_cases:
  "snd (oauth_callback q now prov oidc r tok agent ip db) = db \<or>
   (\<exists>uuid sso. snd (oauth_callback q now prov oidc r tok agent ip db) = set_sso True uuid sso db) \<or>
   (\<exists>uuid. snd (oauth_callback q now prov oidc r tok agent ip db) =
      snd (create_login_session (oq_create q) now tok uuid session_cookie_max_age agent ip ''oauth'' db))"
  by (cases "oauth_state_ok prov r"; cases oidc; cases "oa_binding r = []")
    (auto simp: oauth_callback_def split: option.splits)

lemma two_factor_wf: "accounts_wf db \<Longrightarrow> accounts_wf (set_two_factor ok uuid secret db)"
  by (auto simp: set_two_factor_def intro!: update_users_wf)

lemma set_sso_wf: "accounts_wf db \<Longrightarrow> accounts_wf (set_sso ok uuid sso db)"
  by (auto simp: set_sso_def intro!: update_users_wf)

lemma chpasswd_wf: "accounts_wf db \<Longrightarrow> accounts_wf (chpasswd_cmd dg rok dok pw db)"
  by (auto simp: chpasswd_cmd_def Let_def force_reset_password_def delete_all_sessions_def
      intro!: delete_sessions_wf update_users_wf)

lemma do_account_wf:
  assumes "accounts_wf db"
  shows "accounts_wf (do_account dg totp now e db)"
proof (cases e)
  case (OpLogin dis q body tok agent ip)
  then show ?thesis
    using login_cases[of dg totp dis q now body tok agent ip db] assms by (auto intro: create_login_session_wf)
next
  case (OpOAuth q prov oidc r tok agent ip)
  then show ?thesis
    using oauth_cases[of q now prov oidc r tok agent ip db] assms by (auto intro: create_login_session_wf set_sso_wf)
next
  case (OpCreateAccount ok uuid name pw)
  then show ?thesis using assms by (auto simp: create_account_def accounts_wf_def Let_def zero_user_def)
next
  case (OpDeleteAccount ok name)
  then show ?thesis using assms by (auto simp: delete_account_def accounts_wf_def distinct_map_filter)
next
  case (OpEnable2fa ok uuid secret code)
  then show ?thesis using assms by (auto simp: enable_2fa_request_def two_factor_wf)
next
  case (OpDisable2fa ok uuid)
  then show ?thesis using assms by (auto simp: disable_2fa_request_def disable_2fa_def two_factor_wf)
next
  case (OpLookup fok dok tok)
  then show ?thesis
    using assms by (auto simp: get_session_def delete_session_def delete_sessions_wf split: option.splits)
next
  case (OpDisable2faCmd ok)
  then show ?thesis using assms by (auto simp: disable_2fa_cmd_def intro!: update_users_wf)
qed (use assms in \<open>auto simp: logout_def delete_session_def delete_sessions_wf admin_delete_session_def
    admin_delete_all_sessions_def delete_all_sessions_def remove_expired_sessions_def update_latest_wf
    update_user_wf unbind_sso_def set_sso_wf chpasswd_wf\<close>)

section \<open>The table implements the specification\<close>

lemma filter_unique:
  assumes "distinct (map f xs)" "u \<in> set xs" "\<And>x. x \<in> set xs \<Longrightarrow> P x \<Longrightarrow> f x = f u"
  shows "filter P xs = (if P u then [u] else [])"
  using assms
proof (induction xs)
  case (Cons a xs)
  show ?case
  proof (cases "a = u")
    case True
    then have "\<not> P x" if "x \<in> set xs" for x
      using Cons.prems(1) Cons.prems(3)[of x] that by (auto simp: image_iff)
    then show ?thesis using True by (simp add: filter_empty_conv)
  next
    case False
    then have u: "u \<in> set xs" using Cons.prems(2) by simp
    then have "\<not> P a" using Cons.prems(1) Cons.prems(3)[of a] by (auto simp: image_iff)
    then show ?thesis using Cons.IH[OF _ u] Cons.prems by simp
  qed
qed simp

lemma first_user_name:
  assumes "accounts_wf db" "u \<in> set (users db)"
  shows "first_user ok (\<lambda>v. u_name v = u_name u) db = (if ok then Some u else None)"
  using filter_unique[of u_name "users db" u "\<lambda>v. u_name v = u_name u"] assms
  by (simp add: first_user_def accounts_wf_def)

lemma first_user_uuid:
  assumes "accounts_wf db" "u \<in> set (users db)"
  shows "get_user_by_uuid ok (u_uuid u) db = (if ok then Some u else None)"
  using filter_unique[of u_uuid "users db" u "\<lambda>v. u_uuid v = u_uuid u"] assms
  by (simp add: get_user_by_uuid_def first_user_def accounts_wf_def)

lemma first_user_Some: "first_user ok P db = Some u \<Longrightarrow> u \<in> set (users db) \<and> P u"
proof -
  assume "first_user ok P db = Some u"
  then obtain us where "sort_key u_uuid (filter P (users db)) = u # us"
    by (auto simp: first_user_def split: if_splits list.splits)
  then have "u \<in> set (sort_key u_uuid (filter P (users db)))" by simp
  then show ?thesis by simp
qed

lemma password_login_filter:
  assumes "accounts_wf db" "u \<in> set (users db)" "u_name u = lr_name d"
  shows "filter (password_login dg totp q now (Inr d) db) (users db) =
    (if password_login dg totp q now (Inr d) db u then [u] else [])"
  using assms by (intro filter_unique[where f = u_name]) (auto simp: accounts_wf_def password_login_def)

lemma no_password_login:
  "\<not> lq_find q \<or> lr_name d = [] \<or> lr_passwd d = [] \<or> (\<forall>u\<in>set (users db). u_name u \<noteq> lr_name d) \<Longrightarrow>
   filter (password_login dg totp q now (Inr d) db) (users db) = []"
  by (auto simp: filter_empty_conv password_login_def)

lemma first_user_down [simp]: "first_user False P db = None"
  by (simp add: first_user_def)

lemma check_password_none:
  "\<not> ok \<or> (\<forall>u\<in>set (users db). u_name u \<noteq> n) \<Longrightarrow> check_password dg ok n pw db = ([], False)"
proof (cases "first_user ok (\<lambda>u. u_name u = n) db")
  case (Some u)
  moreover assume "\<not> ok \<or> (\<forall>u\<in>set (users db). u_name u \<noteq> n)"
  ultimately show ?thesis using first_user_Some[OF Some] by auto
qed (simp add: check_password_def)

lemma login_spec:
  assumes wf: "accounts_wf db"
  shows "snd (login dg totp dis q now body tok agent ip db) =
    (case filter (password_login dg totp q now body db) (users db) of
       [] \<Rightarrow> db
     | u # _ \<Rightarrow> if dis then db
        else snd (create_login_session (lq_create q) now tok (u_uuid u) session_cookie_max_age agent ip ''password'' db))"
proof (cases body)
  case (Inl e)
  then show ?thesis by (simp add: login_def password_login_def)
next
  case (Inr d)
  consider "\<not> lq_find q \<or> lr_name d = [] \<or> lr_passwd d = [] \<or> (\<forall>u\<in>set (users db). u_name u \<noteq> lr_name d)"
    | u where "lq_find q" "lr_name d \<noteq> []" "lr_passwd d \<noteq> []" "u \<in> set (users db)" "u_name u = lr_name d"
    by blast
  then show ?thesis
  proof cases
    case 1
    then show ?thesis
      using check_password_none[of "lq_find q" db "lr_name d" dg "lr_passwd d"]
      by (auto simp: Inr login_def no_password_login)
  next
    case (2 u)
    note wu = password_login_filter[OF wf 2(4,5), of dg totp q now]
    show ?thesis
    proof (cases "hash_passwd dg (lr_passwd d) = u_passwd u")
      case False
      then show ?thesis
        using 2 first_user_name[OF wf 2(4), of True]
        by (simp add: Inr login_def wu password_login_def check_password_def)
    next
      case True
      then have c: "check_password dg True (lr_name d) (lr_passwd d) db = (u_uuid u, True)"
        using 2 first_user_name[OF wf 2(4), of True] by (simp add: check_password_def)
      have p: "password_login dg totp q now (Inr d) db u \<longleftrightarrow>
          \<not> lq_load q \<or> u_two_factor u = [] \<or> lr_code d \<noteq> [] \<and> lq_verify q \<and> totp now (lr_code d) (u_two_factor u)"
        using 2 True by (simp add: password_login_def)
      have v: "verify_2fa totp (lq_verify q) now (u_uuid u) (lr_code d) db = Some True \<longleftrightarrow>
          lq_verify q \<and> u_two_factor u \<noteq> [] \<and> totp now (lr_code d) (u_two_factor u)"
        using first_user_uuid[OF wf 2(4), of "lq_verify q"] by (simp add: verify_2fa_def)
      show ?thesis
        using 2 c v first_user_uuid[OF wf 2(4), of True]
        by (cases "lq_load q"; cases "lq_verify q")
          (simp_all add: Inr login_def wu p zero_user_def Let_def get_user_by_uuid_def)
    qed
  qed
qed

lemma oauth_spec:
  "sessions (snd (oauth_callback q now prov oidc r tok agent ip db)) =
    (case filter (external_login q prov oidc r db) (users db) of
       u # _ \<Rightarrow> sessions (snd (create_login_session (oq_create q) now tok (u_uuid u) session_cookie_max_age agent ip ''oauth'' db))
     | [] \<Rightarrow> sessions db)"
proof (cases "\<exists>u. external_login q prov oidc r db u")
  case True
  then obtain u uid where u: "external_login q prov oidc r db u" "oidc = Inr uid" "oauth_state_ok prov r"
      "oa_binding r = []" "first_user (oq_sso q) (\<lambda>u. u_sso_id u = sso_id_of prov uid) db = Some u"
    by (auto simp: external_login_def)
  have "v = u" if "external_login q prov oidc r db v" for v
    using that u by (simp add: external_login_def)
  then have e: "external_login q prov oidc r db = (\<lambda>v. v = u)" using u(1) by blast
  have "u \<in> set (users db)" using first_user_Some[OF u(5)] by simp
  then have "filter (\<lambda>v. v = u) (users db) \<noteq> []" by (auto simp: filter_empty_conv)
  then obtain v vs where f: "filter (\<lambda>v. v = u) (users db) = v # vs" by (cases "filter (\<lambda>v. v = u) (users db)") auto
  then have "v \<in> set (filter (\<lambda>v. v = u) (users db))" by simp
  then have "v = u" by simp
  then show ?thesis using u f unfolding e by (simp add: oauth_callback_def get_user_by_sso_def)
next
  case False
  then have f: "filter (external_login q prov oidc r db) (users db) = []" by simp
  have "get_user_by_sso (oq_sso q) (sso_id_of prov uid) db = None"
    if "oidc = Inr uid" "oauth_state_ok prov r" "oa_binding r = []" for uid
    using False that by (cases "get_user_by_sso (oq_sso q) (sso_id_of prov uid) db")
      (auto simp: external_login_def get_user_by_sso_def)
  then show ?thesis
    unfolding f by (cases oidc) (auto simp: oauth_callback_def set_sso_def split: option.splits)
qed

section \<open>Rows\<close>

lemma find_filter_distinct:
  "distinct (map f xs) \<Longrightarrow> find (\<lambda>x. f x = k) (filter P xs) =
     (case find (\<lambda>x. f x = k) xs of None \<Rightarrow> None | Some x \<Rightarrow> if P x then Some x else None)"
proof (induction xs)
  case (Cons a xs)
  show ?case
  proof (cases "f a = k")
    case True
    then have "find (\<lambda>x. f x = k) (filter P xs) = None"
      using Cons.prems by (auto simp: find_None_iff image_iff)
    then show ?thesis using True by simp
  next
    case False
    then show ?thesis using Cons by simp
  qed
qed simp

lemma session_row_cong: "sessions db' = sessions db \<Longrightarrow> session_row db' k = session_row db k"
  by (simp add: session_row_def)

lemma session_row_delete:
  assumes "accounts_wf db"
  shows "session_row (delete_sessions ok P db) k =
    (if ok \<and> (\<exists>s. find (\<lambda>s. ses_token s = k) (sessions db) = Some s \<and> P s) then None else session_row db k)"
  using assms find_filter_distinct[of ses_token "sessions db" k "\<lambda>s. \<not> P s"]
  by (simp add: session_row_def delete_sessions_def accounts_wf_def split: option.splits)

lemma find_key: "find (\<lambda>s. f s = k) xs = Some s \<Longrightarrow> f s = k"
  by (auto simp: find_Some_iff)

lemma session_row_delete_token:
  assumes "accounts_wf db"
  shows "session_row (delete_session ok tok db) k = (if ok \<and> tok = k then None else session_row db k)"
  using session_row_delete[OF assms, of ok "\<lambda>s. ses_token s = tok" k]
  by (cases "find (\<lambda>s. ses_token s = k) (sessions db)")
    (auto simp: delete_session_def session_row_def dest: find_key)

lemma session_row_delete_all:
  "accounts_wf db \<Longrightarrow> session_row (delete_all_sessions ok db) k = (if ok then None else session_row db k)"
  using session_row_delete[of db ok "\<lambda>s. True" k]
  by (auto simp: delete_all_sessions_def session_row_def split: option.splits)

lemma session_row_create:
  "session_row (snd (create_login_session ok now tok uuid x agent ip meth db)) k =
    (if fresh_row ok tok k db then Some (uuid, now + x) else session_row db k)"
proof -
  have "find (\<lambda>s. ses_token s = k) (ss @ [r]) =
      (if ses_token r = k \<and> k \<notin> ses_token ` set ss then Some r else find (\<lambda>s. ses_token s = k) ss)" for ss and r :: login_session
    by (induction ss) auto
  then show ?thesis by (auto simp: session_row_def create_login_session_def Let_def fresh_row_def)
qed

lemma session_row_touch: "session_row (update_latest ok now tok agent ip db) k = session_row db k"
proof -
  let ?f = "\<lambda>s. if ses_token s = tok then s\<lparr>ses_online := now, ses_last_agent := agent, ses_last_ip := ip\<rparr> else s"
  have "map_option (\<lambda>s. (ses_user s, ses_expires s)) (find (\<lambda>s. ses_token s = k) (map ?f ss)) =
      map_option (\<lambda>s. (ses_user s, ses_expires s)) (find (\<lambda>s. ses_token s = k) ss)" for ss :: "login_session list"
    by (induction ss) auto
  then show ?thesis by (simp add: session_row_def update_latest_def)
qed

lemma fresh_row_none: "fresh_row ok tok k db \<Longrightarrow> session_row db k = None"
  by (auto simp: fresh_row_def session_row_def find_None_iff image_iff)

lemma issue_fresh: "session_issue dg totp now e db k = Some r \<Longrightarrow> session_row db k = None"
  by (cases e) (auto split: list.splits if_splits intro: fresh_row_none)

text \<open>What one operation does to the row of a token.\<close>

definition row_change :: "int \<Rightarrow> (go_string \<times> int) option \<Rightarrow> bool \<Rightarrow> (go_string \<times> int) option \<Rightarrow> (go_string \<times> int) option \<Rightarrow> bool" where
  "row_change now iss ended r r' \<longleftrightarrow> (case iss of Some i \<Rightarrow> r' = Some i \<and> \<not> ended
     | None \<Rightarrow> if ended then r' = None else r' = r \<or> r' = None \<and> (\<exists>u x. r = Some (u, x) \<and> x < now))"

lemma row_change_same [simp]: "row_change now None False r r"
  by (simp add: row_change_def)

lemma row_change_created:
  assumes "accounts_wf db" "sessions (do_account dg totp now e db) =
      (case us of [] \<Rightarrow> sessions db | u # _ \<Rightarrow> if dis then sessions db else
         sessions (snd (create_login_session ok now tok (u_uuid u) session_cookie_max_age agent ip meth db)))"
    "session_issue dg totp now e db k = (case us of
        u # _ \<Rightarrow> if \<not> dis \<and> fresh_row ok tok k db then Some (u_uuid u, now + session_cookie_max_age) else None
      | [] \<Rightarrow> None)"
    "\<not> session_revoke dg totp now e db k"
  shows "row_change now (session_issue dg totp now e db k) (session_revoke dg totp now e db k)
    (session_row db k) (session_row (do_account dg totp now e db) k)"
proof (cases us)
  case Nil
  then show ?thesis using assms(2-4) by (simp add: session_row_def)
next
  case (Cons u vs)
  show ?thesis
  proof (cases dis)
    case True
    then show ?thesis using assms(2-4) by (simp add: Cons session_row_def)
  next
    case False
    then have "session_row (do_account dg totp now e db) k =
        session_row (snd (create_login_session ok now tok (u_uuid u) session_cookie_max_age agent ip meth db)) k"
      using assms(2) by (intro session_row_cong) (simp add: Cons)
    then show ?thesis using assms(3,4) False by (simp add: Cons session_row_create row_change_def)
  qed
qed

lemma update_user_row:
  assumes "accounts_wf db"
  shows "session_row (snd (update_user dg fok uok dok uuid name pw sso db)) k =
    (if session_revoke dg totp now (OpUpdateUser fok uok dok uuid name pw sso) db k then None else session_row db k)"
proof (cases "get_user_by_uuid fok uuid db")
  case None
  have "\<not> fok \<or> uuid \<notin> u_uuid ` set (users db)"
    using None first_user_uuid[OF assms, of _ True] by auto
  then show ?thesis using None by (auto simp: update_user_def)
next
  case (Some u)
  have u: "u \<in> set (users db)" "u_uuid u = uuid" "fok"
    using Some first_user_Some[of fok _ db u] by (auto simp: get_user_by_uuid_def split: if_splits)
      (metis first_user_down option.distinct(1))
  let ?db = "update_users True (\<lambda>u. u_uuid u = uuid) (apply_user_updates dg name pw sso) db"
  have r: "session_row ?db k = session_row db k" by (simp add: session_row_def)
  have d: "session_row (delete_all_sessions dok ?db) k = (if dok then None else session_row db k)"
    using r by (auto simp: session_row_def delete_all_sessions_def delete_sessions_def)
  show ?thesis using Some u r d by (auto simp: update_user_def Let_def image_iff)
qed

lemma chpasswd_row:
  assumes "accounts_wf db"
  shows "session_row (chpasswd_cmd dg rok dok pw db) k =
    (if session_revoke dg totp now (OpChpasswd rok dok pw) db k then None else session_row db k)"
proof -
  have "first_user True (\<lambda>u. True) db = None \<longleftrightarrow> users db = []"
    by (auto simp: first_user_def filter_empty_conv split: list.splits)
      (metis length_0_conv length_sort list.size(3))
  then consider "users db = []" "first_user True (\<lambda>u. True) db = None"
    | u where "first_user True (\<lambda>u. True) db = Some u" "u \<in> set (users db)"
    using first_user_Some[of True "\<lambda>u. True" db] by (cases "first_user True (\<lambda>u. True) db") auto
  then show ?thesis
    by cases (auto simp: chpasswd_cmd_def Let_def force_reset_password_def session_row_def
      delete_all_sessions_def delete_sessions_def)
qed

lemma lookup_row:
  assumes "accounts_wf db"
  shows "row_change now None False (session_row db k) (session_row (snd (get_session fok dok now tok db)) k)"
proof (cases "first_session fok tok db")
  case (Some s)
  then have f: "find (\<lambda>s. ses_token s = tok) (sessions db) = Some s" by (simp add: first_session_def split: if_splits)
  show ?thesis
  proof (cases "now > ses_expires s")
    case True
    then show ?thesis using Some f session_row_delete_token[OF assms, of dok tok k]
      by (auto simp: get_session_def row_change_def session_row_def)
  qed (use Some in \<open>simp add: get_session_def\<close>)
qed (simp add: get_session_def)

lemma sweep_row:
  assumes "accounts_wf db"
  shows "row_change now None False (session_row db k) (session_row (remove_expired_sessions ok now db) k)"
  using session_row_delete[OF assms, of ok "\<lambda>s. ses_expires s < now" k]
  by (auto simp: remove_expired_sessions_def row_change_def session_row_def)

lemma row_step:
  assumes wf: "accounts_wf db"
  shows "row_change now (session_issue dg totp now e db k) (session_revoke dg totp now e db k)
    (session_row db k) (session_row (do_account dg totp now e db) k)"
proof (cases e)
  case (OpLogin dis q body tok agent ip)
  show ?thesis
    by (rule row_change_created[OF wf, where us = "filter (password_login dg totp q now body db) (users db)"
          and dis = dis and ok = "lq_create q" and tok = tok and agent = agent and ip = ip and meth = "''password''"])
      (auto simp: OpLogin login_spec[OF wf] split: list.splits)
next
  case (OpOAuth q prov oidc r tok agent ip)
  show ?thesis
    by (rule row_change_created[OF wf, where us = "filter (external_login q prov oidc r db) (users db)"
          and dis = False and ok = "oq_create q" and tok = tok and agent = agent and ip = ip and meth = "''oauth''"])
      (auto simp: OpOAuth oauth_spec split: list.splits)
next
  case (OpLogout ok tok)
  then show ?thesis using session_row_delete_token[OF wf] by (simp add: logout_def row_change_def)
next
  case (OpDeleteSession ok tok)
  then show ?thesis using session_row_delete_token[OF wf] by (simp add: admin_delete_session_def row_change_def)
next
  case (OpDeleteAll ok)
  then show ?thesis using session_row_delete_all[OF wf] by (simp add: admin_delete_all_sessions_def row_change_def)
next
  case (OpLookup fok dok tok)
  then show ?thesis using lookup_row[OF wf] by simp
next
  case (OpTouch ok tok agent ip)
  then show ?thesis by (simp add: session_row_touch)
next
  case (OpSweep ok)
  then show ?thesis using sweep_row[OF wf] by simp
next
  case (OpUpdateUser fok uok dok uuid name pw sso)
  then show ?thesis using update_user_row[OF wf, of dg fok uok dok uuid name pw sso k totp now]
    by (simp add: row_change_def del: session_revoke.simps)
next
  case (OpChpasswd rok dok pw)
  then show ?thesis using chpasswd_row[OF wf, of dg rok dok pw k totp now]
    by (simp add: row_change_def del: session_revoke.simps)
qed (simp_all add: session_row_def unbind_sso_def set_sso_def enable_2fa_request_def set_two_factor_def
    disable_2fa_request_def disable_2fa_def create_account_def Let_def delete_account_def disable_2fa_cmd_def)

interpretation sessions: token_ledger accounts_wf session_row "do_account dg totp" "session_issue dg totp" "session_revoke dg totp"
  for dg totp
proof
  fix s t e k r u x
  assume s: "accounts_wf s"
  show "accounts_wf (do_account dg totp t e s)" using s by (rule do_account_wf)
  note step = row_step[OF s, of t dg totp e k]
  show "session_issue dg totp t e s k = Some r \<Longrightarrow> session_row s k = None \<and> session_row (do_account dg totp t e s) k = Some r"
    using step issue_fresh by (auto simp: row_change_def)
  show "session_issue dg totp t e s k = None \<Longrightarrow> session_row (do_account dg totp t e s) k = Some r \<Longrightarrow>
      session_row s k = Some r \<and> \<not> session_revoke dg totp t e s k"
    using step by (auto simp: row_change_def split: if_splits)
  show "\<not> session_revoke dg totp t e s k \<Longrightarrow> session_row s k = Some (u, x) \<Longrightarrow> t \<le> x \<Longrightarrow>
      session_row (do_account dg totp t e s) k = Some (u, x)"
    using step issue_fresh[of dg totp t e s k] by (auto simp: row_change_def split: option.splits)
qed

section \<open>Properties\<close>

text \<open>
  C1: whatever operations have run, in any order and with any failing queries, a token identifies a user
  at a given time exactly when some login issued it for that user (with the right password, and second
  factor where one is set and could be read, or through a bound external account), it has not expired,
  and no logout, deletion or change of password has revoked it since.
\<close>

theorem sessions_exact:
  assumes "accounts_wf db" "sessions db = []" "\<forall>(t, e)\<in>set log. t \<le> now"
  shows "fst (get_session True dok now tok (run_log (do_account dg totp) log db)) = Some u \<longleftrightarrow>
    (\<exists>x. now \<le> x \<and> credited (do_account dg totp) (session_issue dg totp) (session_revoke dg totp) log db tok (u, x))"
proof -
  let ?db = "run_log (do_account dg totp) log db"
  have "session_row db tok = None" using assms(2) by (simp add: session_row_def)
  moreover have "t \<le> now" if "(t, e) \<in> set log" for t e using assms(3) that by auto
  ultimately have exact: "session_row ?db tok = Some (u, x) \<longleftrightarrow>
      credited (do_account dg totp) (session_issue dg totp) (session_revoke dg totp) log db tok (u, x)"
    if "now \<le> x" for x
    using sessions.row_exact[OF assms(1)] that by blast
  have "fst (get_session True dok now tok ?db) = Some u \<longleftrightarrow> (\<exists>x. now \<le> x \<and> session_row ?db tok = Some (u, x))"
    by (auto simp: get_session_def first_session_def session_row_def split: option.splits)
  also have "\<dots> \<longleftrightarrow> (\<exists>x. now \<le> x \<and> credited (do_account dg totp) (session_issue dg totp) (session_revoke dg totp) log db tok (u, x))"
    using exact by blast
  finally show ?thesis .
qed

definition sample_accounts :: accounts_db where
  "sample_accounts = \<lparr>users = [\<lparr>u_uuid = ''u1'', u_name = ''admin'', u_passwd = ''pw06Wm4Jv1Hkxx'', u_sso_type = [],
     u_sso_id = [], u_two_factor = ''secret''\<rparr>], sessions = []\<rparr>"

definition sample_login :: "login_queries \<Rightarrow> go_string \<Rightarrow> account_op" where
  "sample_login q code = OpLogin False q (Inr \<lparr>lr_name = ''admin'', lr_passwd = ''pw'', lr_code = code\<rparr>) ''tok'' [] []"

abbreviation sample_run :: "(int \<times> account_op) list \<Rightarrow> accounts_db" where
  "sample_run log \<equiv> run_log (do_account (\<lambda>s. s) (\<lambda>t c s. c = ''123456'')) log sample_accounts"

definition all_up :: login_queries where
  "all_up = \<lparr>lq_find = True, lq_load = True, lq_verify = True, lq_create = True\<rparr>"

lemma sample_wf: "accounts_wf sample_accounts" "sessions sample_accounts = []"
  by (simp_all add: sample_accounts_def accounts_wf_def)

lemmas login_eval = run_log_def sample_accounts_def sample_login_def all_up_def login_def check_password_def
  hash_passwd_def constant_salt_def first_user_def get_user_by_uuid_def verify_2fa_def create_login_session_def
  zero_user_def answer_def session_cookie_max_age_def Let_def

theorem sessions_exact_witness:
  "\<exists>x\<ge>10. credited (do_account (\<lambda>s. s) (\<lambda>t c s. c = ''123456'')) (session_issue (\<lambda>s. s) (\<lambda>t c s. c = ''123456''))
     (session_revoke (\<lambda>s. s) (\<lambda>t c s. c = ''123456'')) [(5, sample_login all_up ''123456'')] sample_accounts ''tok'' (''u1'', x)"
proof -
  have "fst (get_session True True 10 ''tok'' (sample_run [(5, sample_login all_up ''123456'')])) = Some ''u1''"
    by (simp add: login_eval get_session_def first_session_def)
  then show ?thesis
    using sessions_exact[OF sample_wf, of "[(5, sample_login all_up ''123456'')]" 10 True "''tok''" "\<lambda>s. s"
        "\<lambda>t c s. c = ''123456''" "''u1''"] by simp
qed



text \<open>
  A login whose second query for the user fails is granted without the code of the second factor: the
  error of \<^verbatim>\<open>GetUserByUUID\<close> is dropped, and an empty user has no second factor.
\<close>

theorem login_skips_second_factor:
  "fst (get_session True True 10 ''tok'' (sample_run [(5, sample_login (all_up\<lparr>lq_load := False\<rparr>) [])])) = Some ''u1'' \<and>
   fst (get_session True True 10 ''tok'' (sample_run [(5, sample_login all_up [])])) = None"
  by (simp add: login_eval get_session_def first_session_def)

end
