(* ===== verification/Web_Auth.thy ===== *)
theory Web_Auth
  imports Session_History Rpc_Acl
begin

text \<open>
  Who is calling: \<^verbatim>\<open>web/api/principal.go\<close>, the middlewares of \<^verbatim>\<open>web/api/Auth.go\<close> and \<^verbatim>\<open>AuthSensitive.go\<close>,
  and the handler \<^verbatim>\<open>UpdateUser\<close> (\<^verbatim>\<open>web/api/admin/update.go\<close>).  A request is its method, path, headers,
  cookies, query and the string members of the JSON object in its body; a configuration value is
  \<open>None\<close> when it cannot be read.  A middleware lets a request pass or answers it.
\<close>

section \<open>Requests and configuration\<close>

record http_request =
  rq_method :: go_string
  rq_path :: go_string
  rq_auth :: go_string
  rq_agent :: go_string
  rq_ip :: go_string
  rq_header :: "go_string \<Rightarrow> go_string"
  rq_cookie :: "go_string \<Rightarrow> go_string option"
  rq_query :: "go_string \<Rightarrow> go_string"
  rq_body :: "go_string \<Rightarrow> go_string option"

record settings =
  cf_api_key :: "go_string option"
  cf_private_site :: "bool option"
  cf_temp_token :: "go_string option"
  cf_temp_expire :: "int option"

record hub_access =
  ha_db :: accounts_db
  ha_agents :: "(go_string \<times> go_string) list"
  ha_conf :: settings

text \<open>Which of the queries of one request succeed.\<close>

record access_queries =
  xq_session :: bool
  xq_drop :: bool
  xq_agent :: bool
  xq_touch :: bool
  xq_user :: bool
  xq_verify :: bool

definition nonempty :: "go_string option \<Rightarrow> go_string option" where
  "nonempty v = (case v of None \<Rightarrow> None | Some s \<Rightarrow> if s = [] then None else Some s)"

section \<open>Identity\<close>

definition is_api_key_valid :: "settings \<Rightarrow> go_string \<Rightarrow> bool" where
  "is_api_key_valid cf auth = (case cf_api_key cf of None \<Rightarrow> False
     | Some k \<Rightarrow> if k = [] \<or> length k < 12 then False else auth = ''Bearer '' @ k)"

definition extract_client_token :: "http_request \<Rightarrow> go_string" where
  "extract_client_token r =
     (if rq_query r ''token'' \<noteq> [] then rq_query r ''token''
      else if rq_query r ''Authorization'' \<noteq> [] then rq_query r ''Authorization''
      else if rq_method r \<noteq> ''GET'' then (case nonempty (rq_body r ''token'') of Some t \<Rightarrow> t | None \<Rightarrow> [])
      else [])"

definition check_token :: "bool \<Rightarrow> (go_string \<times> go_string) list \<Rightarrow> go_string \<Rightarrow> go_string option" where
  "check_token ok agents tok = (if ok then nonempty (map_of agents tok) else None)"

definition identify_principal ::
  "access_queries \<Rightarrow> int \<Rightarrow> http_request \<Rightarrow> hub_access \<Rightarrow> principal \<times> hub_access" where
  "identify_principal q now r st =
     (if is_api_key_valid (ha_conf st) (rq_auth r) then (new_api_key_principal, st)
      else case (case nonempty (rq_cookie r ''session_token'') of None \<Rightarrow> (None, ha_db st)
                 | Some tok \<Rightarrow> get_session (xq_session q) (xq_drop q) now tok (ha_db st)) of (found, db) \<Rightarrow>
        (case nonempty found of
           Some uuid \<Rightarrow> (new_user_principal uuid, st\<lparr>ha_db := db\<rparr>)
         | None \<Rightarrow>
           (case (if extract_client_token r = [] then None
                  else check_token (xq_agent q) (ha_agents st) (extract_client_token r)) of
              Some uuid \<Rightarrow> (new_agent_principal uuid, st\<lparr>ha_db := db\<rparr>)
            | None \<Rightarrow> (new_anonymous_principal, st\<lparr>ha_db := db\<rparr>))))"

text \<open>The keys a request context carries.\<close>

record gin_context =
  gc_principal :: "principal option"
  gc_role :: "go_string option"
  gc_api_key :: "go_string option"
  gc_uuid :: "go_string option"
  gc_session :: "go_string option"
  gc_client_uuid :: "go_string option"
  gc_code :: "go_string option"
  gc_verified :: bool

definition empty_context :: gin_context where
  "empty_context = \<lparr>gc_principal = None, gc_role = None, gc_api_key = None, gc_uuid = None, gc_session = None,
     gc_client_uuid = None, gc_code = None, gc_verified = False\<rparr>"

definition identity_middleware ::
  "access_queries \<Rightarrow> int \<Rightarrow> http_request \<Rightarrow> gin_context \<Rightarrow> hub_access \<Rightarrow> gin_context \<times> hub_access" where
  "identity_middleware q now r c st =
     (case identify_principal q now r st of (p, st') \<Rightarrow>
      let c' = c\<lparr>gc_principal := Some p, gc_role := Some (primary_role (Some p))\<rparr> in
      case p_type p of
        PrincipalAPIKey \<Rightarrow>
          (c'\<lparr>gc_api_key := Some (drop 7 (rq_auth r)), gc_uuid := Some ''00000000-0000-0000-0000-000000000000''\<rparr>, st')
      | PrincipalUser \<Rightarrow>
          (case nonempty (rq_cookie r ''session_token'') of
             Some tok \<Rightarrow> (c'\<lparr>gc_session := Some tok, gc_uuid := Some (user_uuid p)\<rparr>,
                          st'\<lparr>ha_db := update_latest (xq_touch q) now tok (rq_agent r) (rq_ip r) (ha_db st')\<rparr>)
           | None \<Rightarrow> (c'\<lparr>gc_uuid := Some (user_uuid p)\<rparr>, st'))
      | PrincipalAgent \<Rightarrow> (c'\<lparr>gc_client_uuid := Some (client_uuid p)\<rparr>, st')
      | PrincipalAnonymous \<Rightarrow> (c', st'))"

definition get_role :: "gin_context \<Rightarrow> go_string" where
  "get_role c = (case gc_role c of None \<Rightarrow> role_guest | Some r \<Rightarrow> r)"

section \<open>Admission\<close>

text \<open>A middleware passes (\<open>None\<close>) or answers with a status and a message.\<close>

type_synonym refusal = "(int \<times> go_string) option"

definition require_role :: "go_string list \<Rightarrow> gin_context \<Rightarrow> refusal" where
  "require_role allowed c = (if get_role c \<in> set allowed then None else Some (401, ''Unauthorized.''))"

definition public_paths :: "go_string list" where
  "public_paths = [''/ping'', ''/api/public'', ''/api/login'', ''/api/me'', ''/api/oauth'', ''/api/oauth_callback'',
     ''/api/version'', ''/api/recent'', ''/api/admin'', ''/api/clients/'', ''/api/preview/'']"

definition has_temp_access :: "settings \<Rightarrow> int \<Rightarrow> http_request \<Rightarrow> bool" where
  "has_temp_access cf now r = (case rq_cookie r ''temp_key'' of None \<Rightarrow> False
     | Some key \<Rightarrow> (case cf_temp_expire cf of None \<Rightarrow> False
        | Some x \<Rightarrow> (case cf_temp_token cf of None \<Rightarrow> False
           | Some tok \<Rightarrow> if tok = [] \<or> key \<noteq> tok then False else now \<le> x)))"

definition private_site_middleware :: "settings \<Rightarrow> int \<Rightarrow> http_request \<Rightarrow> gin_context \<Rightarrow> refusal" where
  "private_site_middleware cf now r c =
     (if get_role c \<noteq> role_guest then None
      else if list_ex (\<lambda>p. has_prefix (rq_path r) p) public_paths then None
      else if \<not> has_prefix (rq_path r) ''/api'' then None
      else case cf_private_site cf of
          None \<Rightarrow> Some (500, ''Failed to get configuration.'')
        | Some False \<Rightarrow> None
        | Some True \<Rightarrow> if has_temp_access cf now r then None
            else Some (401, ''Private site is enabled, please login first.''))"

section \<open>The second factor of sensitive operations\<close>

datatype sensitive_error = CodeRequired | CodeInvalid | SensitiveDbError

definition verify_sensitive_core ::
  "(int \<Rightarrow> go_string \<Rightarrow> go_string \<Rightarrow> bool) \<Rightarrow> access_queries \<Rightarrow> int \<Rightarrow> go_string \<Rightarrow> go_string \<Rightarrow> bool \<Rightarrow> accounts_db
     \<Rightarrow> sensitive_error option" where
  "verify_sensitive_core totp q now uuid code is_key db =
     (if is_key then None
      else if uuid = [] then Some CodeRequired
      else case get_user_by_uuid (xq_user q) uuid db of None \<Rightarrow> Some SensitiveDbError
        | Some u \<Rightarrow>
          if u_two_factor u = [] then None
          else if code = [] then Some CodeRequired
          else case verify_2fa totp (xq_verify q) now uuid code db of
              None \<Rightarrow> Some SensitiveDbError
            | Some valid \<Rightarrow> if \<not> valid then Some CodeInvalid else None)"

fun first_nonempty :: "(go_string \<Rightarrow> go_string) \<Rightarrow> go_string list \<Rightarrow> go_string" where
  "first_nonempty f [] = []"
| "first_nonempty f (k # ks) = (if f k \<noteq> [] then f k else first_nonempty f ks)"

definition code_keys :: "go_string list" where
  "code_keys = [''2fa_code'', ''two_factor_code'', ''otp'']"

definition header_or_query_code :: "http_request \<Rightarrow> go_string" where
  "header_or_query_code r =
     (if rq_header r ''X-2FA-Code'' \<noteq> [] then rq_header r ''X-2FA-Code''
      else if rq_header r ''X-Two-Factor-Code'' \<noteq> [] then rq_header r ''X-Two-Factor-Code''
      else first_nonempty (rq_query r) code_keys)"

definition get_2fa_code :: "gin_context \<Rightarrow> http_request \<Rightarrow> go_string" where
  "get_2fa_code c r = (case nonempty (gc_code c) of Some code \<Rightarrow> code
     | None \<Rightarrow>
       if header_or_query_code r \<noteq> [] then header_or_query_code r
       else if rq_method r = ''GET'' then []
       else first_nonempty (\<lambda>k. case rq_body r k of None \<Rightarrow> [] | Some v \<Rightarrow> v) code_keys)"

definition verify_sensitive ::
  "(int \<Rightarrow> go_string \<Rightarrow> go_string \<Rightarrow> bool) \<Rightarrow> access_queries \<Rightarrow> int \<Rightarrow> http_request \<Rightarrow> gin_context \<Rightarrow> accounts_db
     \<Rightarrow> sensitive_error option" where
  "verify_sensitive totp q now r c db =
     verify_sensitive_core totp q now (case gc_uuid c of None \<Rightarrow> [] | Some u \<Rightarrow> u) (get_2fa_code c r)
       (gc_api_key c \<noteq> None) db"

definition sensitive_message :: "sensitive_error \<Rightarrow> go_string" where
  "sensitive_message e = (case e of CodeRequired \<Rightarrow> ''2FA code is required'' | CodeInvalid \<Rightarrow> ''Invalid 2FA code''
     | SensitiveDbError \<Rightarrow> ''record not found'')"

definition require_sensitive_2fa ::
  "(int \<Rightarrow> go_string \<Rightarrow> go_string \<Rightarrow> bool) \<Rightarrow> access_queries \<Rightarrow> int \<Rightarrow> http_request \<Rightarrow> gin_context \<Rightarrow> accounts_db
     \<Rightarrow> (int \<times> go_string) + gin_context" where
  "require_sensitive_2fa totp q now r c db = (case verify_sensitive totp q now r c db of
       Some e \<Rightarrow> Inl (401, sensitive_message e)
     | None \<Rightarrow> Inr (c\<lparr>gc_verified := True\<rparr>))"

section \<open>Changing an account\<close>

record user_update =
  uu_uuid :: go_string
  uu_name :: "go_string option"
  uu_passwd :: "go_string option"
  uu_sso :: "go_string option"
  uu_code :: go_string

definition update_user_request ::
  "(go_string \<Rightarrow> go_string) \<Rightarrow> (int \<Rightarrow> go_string \<Rightarrow> go_string \<Rightarrow> bool) \<Rightarrow> access_queries \<Rightarrow> bool \<Rightarrow> bool \<Rightarrow> int
     \<Rightarrow> http_request \<Rightarrow> gin_context \<Rightarrow> go_string + user_update \<Rightarrow> accounts_db \<Rightarrow> reply \<times> accounts_db" where
  "update_user_request dg totp q upd_ok del_ok now r c body db = (case body of
       Inl e \<Rightarrow> (answer 400 (''Invalid or missing request body: '' @ e), db)
     | Inr d \<Rightarrow>
       if uu_uuid d = [] then (answer 400 ''Invalid or missing request body: '', db)
       else if uu_passwd d = None \<and> uu_name d = None
       then (answer 400 ''At least one field (username or password) must be provided'', db)
       else if uu_name d \<noteq> None \<and> length (the (uu_name d)) < 3
       then (answer 400 ''Username must be at least 3 characters long'', db)
       else if uu_passwd d \<noteq> None \<and> length (the (uu_passwd d)) < 6
       then (answer 400 ''Password must be at least 6 characters long'', db)
       else let refused = (if uu_passwd d = None then None
              else verify_sensitive totp q now r (c\<lparr>gc_code := Some (uu_code d)\<rparr>) db) in
         case refused of Some e \<Rightarrow> (answer 401 (sensitive_message e), db)
         | None \<Rightarrow>
           (case update_user dg (xq_user q) upd_ok del_ok (uu_uuid d) (uu_name d) (uu_passwd d) (uu_sso d) db of
              (False, db') \<Rightarrow> (answer 500 ''Failed to update user: '', db')
            | (True, db') \<Rightarrow> (answer 200 [], db')))"

section \<open>Lemmas\<close>

text \<open>The user a valid session cookie names, and the agent a token names.\<close>

definition session_user :: "access_queries \<Rightarrow> int \<Rightarrow> http_request \<Rightarrow> hub_access \<Rightarrow> go_string option" where
  "session_user q now r st = nonempty (case nonempty (rq_cookie r ''session_token'') of None \<Rightarrow> None
     | Some tok \<Rightarrow> fst (get_session (xq_session q) (xq_drop q) now tok (ha_db st)))"

definition token_agent :: "access_queries \<Rightarrow> http_request \<Rightarrow> hub_access \<Rightarrow> go_string option" where
  "token_agent q r st = (if extract_client_token r = [] then None
     else check_token (xq_agent q) (ha_agents st) (extract_client_token r))"

lemma nonempty_simps [simp]: "nonempty None = None" "nonempty (Some []) = None" "s \<noteq> [] \<Longrightarrow> nonempty (Some s) = Some s"
  by (simp_all add: nonempty_def)

lemma nonempty_Some: "nonempty v = Some s \<longleftrightarrow> v = Some s \<and> s \<noteq> []"
  by (auto simp: nonempty_def split: option.splits)

lemma identify_cases:
  "fst (identify_principal q now r st) =
    (if is_api_key_valid (ha_conf st) (rq_auth r) then new_api_key_principal
     else case session_user q now r st of Some u \<Rightarrow> new_user_principal u
     | None \<Rightarrow> (case token_agent q r st of Some u \<Rightarrow> new_agent_principal u | None \<Rightarrow> new_anonymous_principal))"
  by (auto simp: identify_principal_def session_user_def token_agent_def split: option.splits prod.splits)

lemma identify_keeps:
  "ha_conf (snd (identify_principal q now r st)) = ha_conf st"
  "ha_agents (snd (identify_principal q now r st)) = ha_agents st"
  "users (ha_db (snd (identify_principal q now r st))) = users (ha_db st)"
  by (auto simp: identify_principal_def get_session_def delete_session_def split: option.splits prod.splits)

lemma primary_roles [simp]:
  "primary_role (Some (new_user_principal u)) = role_admin" "primary_role (Some new_api_key_principal) = role_admin"
  "primary_role (Some (new_agent_principal u)) = role_client" "primary_role (Some new_anonymous_principal) = role_guest"
  by (simp_all add: primary_role_def)

lemma principal_fields [simp]:
  "p_type (new_user_principal u) = PrincipalUser" "p_type new_api_key_principal = PrincipalAPIKey"
  "p_type (new_agent_principal u) = PrincipalAgent" "p_type new_anonymous_principal = PrincipalAnonymous"
  "user_uuid (new_user_principal u) = u" "user_uuid new_api_key_principal = []" "user_uuid (new_agent_principal u) = []"
  "user_uuid new_anonymous_principal = []" "client_uuid (new_agent_principal u) = u"
  "is_api_key new_api_key_principal" "\<not> is_api_key (new_user_principal u)" "\<not> is_api_key (new_agent_principal u)"
  "\<not> is_api_key new_anonymous_principal"
  by (simp_all add: new_user_principal_def new_api_key_principal_def new_agent_principal_def new_anonymous_principal_def)

lemma middleware_fields:
  assumes "identity_middleware q now r empty_context st = (c, st')"
  shows "gc_principal c = Some (fst (identify_principal q now r st))"
    "get_role c = primary_role (Some (fst (identify_principal q now r st)))"
    "ha_conf st' = ha_conf st" "users (ha_db st') = users (ha_db st)" "\<not> gc_verified c" "gc_code c = None"
    "gc_api_key c \<noteq> None \<longleftrightarrow> p_type (fst (identify_principal q now r st)) = PrincipalAPIKey"
    "p_type (fst (identify_principal q now r st)) = PrincipalUser \<Longrightarrow>
      gc_uuid c = Some (user_uuid (fst (identify_principal q now r st)))"
    "p_type (fst (identify_principal q now r st)) \<in> {PrincipalAgent, PrincipalAnonymous} \<Longrightarrow> gc_uuid c = None"
  using assms identify_keeps[of q now r st]
  by (auto simp: identity_middleware_def get_role_def empty_context_def Let_def split: prod.splits principal_type.splits option.splits)

lemma verify_core_ok:
  assumes "verify_sensitive_core totp q now uuid code is_key db = None"
  shows "is_key \<or> uuid \<noteq> [] \<and> (\<exists>u\<in>set (users db). u_uuid u = uuid \<and>
      (u_two_factor u = [] \<or> code \<noteq> [] \<and> totp now code (u_two_factor u)))"
proof (cases is_key)
  case False
  with assms obtain u where u: "get_user_by_uuid (xq_user q) uuid db = Some u"
    by (auto simp: verify_sensitive_core_def split: option.splits if_splits)
  then have m: "u \<in> set (users db)" "u_uuid u = uuid"
    using first_user_Some[of "xq_user q" "\<lambda>u. u_uuid u = uuid" db u] by (auto simp: get_user_by_uuid_def)
  have "get_user_by_uuid True uuid db = Some u"
    using u by (cases "xq_user q") (simp_all add: get_user_by_uuid_def)
  then have "u_two_factor u = [] \<or> code \<noteq> [] \<and> totp now code (u_two_factor u)"
    using assms False u by (cases "xq_verify q")
      (auto simp: verify_sensitive_core_def verify_2fa_def get_user_by_uuid_def split: if_splits)
  moreover have "uuid \<noteq> []" using assms False by (auto simp: verify_sensitive_core_def)
  ultimately show ?thesis using m by blast
qed simp

end
