(* ===== verification/Rpc_Transport.thy ===== *)
theory Rpc_Transport
  imports Web_Auth Rpc_Registry
begin

text \<open>
  JSON-RPC over HTTP and WebSocket, \<^verbatim>\<open>web/rpc/jsonrpc\<close>: \<^verbatim>\<open>transport.go\<close>, \<^verbatim>\<open>dispatch.go\<close> and the bridge from
  routes to methods, \<^verbatim>\<open>bridge.go\<close>.  Methods are run by the registry's \<open>call\<close>; an external handler sees
  the caller's data (\<open>context_meta\<close>) and acts on a world \<open>'w\<close>.  \<open>rpc_env\<close> collects what is fixed while a
  request runs: the rules, the registry, the handlers, the binding of parameters by reflection
  (\<open>en_bind\<close>, and \<open>en_param\<close> for \<^verbatim>\<open>GetParamAs[string]\<close>) and the check of one-time codes.
\<close>

section \<open>Data\<close>

abbreviation invalid_params :: int where "invalid_params \<equiv> -32602"
abbreviation permission_denied :: int where "permission_denied \<equiv> -32041"
abbreviation unauthenticated :: int where "unauthenticated \<equiv> -32040"
abbreviation not_found :: int where "not_found \<equiv> -32044"
abbreviation already_exists :: int where "already_exists \<equiv> -32045"
abbreviation cancelled_code :: int where "cancelled_code \<equiv> -32010"
abbreviation deadline_exceeded :: int where "deadline_exceeded \<equiv> -32011"
abbreviation unimplemented :: int where "unimplemented \<equiv> -32050"
abbreviation unavailable :: int where "unavailable \<equiv> -32051"

record context_meta =
  cm_principal :: "principal option"
  cm_permission :: go_string
  cm_user :: "user option"
  cm_user_uuid :: go_string
  cm_client_token :: go_string
  cm_client_uuid :: go_string
  cm_session_token :: go_string
  cm_remote_ip :: go_string
  cm_user_agent :: go_string
  cm_temp_share :: bool

definition empty_meta :: context_meta where
  "empty_meta = \<lparr>cm_principal = None, cm_permission = [], cm_user = None, cm_user_uuid = [], cm_client_token = [],
     cm_client_uuid = [], cm_session_token = [], cm_remote_ip = [], cm_user_agent = [], cm_temp_share = False\<rparr>"

record ('h, 'v, 'w) rpc_env =
  en_acl :: "acl_rule list"
  en_registry :: "'h registry"
  en_run :: "context_meta \<Rightarrow> ('h, 'v, 'w) ext_run"
  en_bind :: "'v rpc_request \<Rightarrow> bool \<times> go_string"
  en_param :: "'v rpc_request \<Rightarrow> go_string \<Rightarrow> go_string option"
  en_totp :: "int \<Rightarrow> go_string \<Rightarrow> go_string \<Rightarrow> bool"

section \<open>Dispatch\<close>

definition private_whitelist :: "go_string list" where
  "private_whitelist = [''public:getMe'', ''public:getPublicSettings'', ''public:getVersion'', ''public:recordVisitorEvent'']"

text \<open>The caller of a request: the principal of its data, or one made from its role.\<close>

definition complete_meta :: "context_meta option \<Rightarrow> context_meta" where
  "complete_meta meta =
     (let m = (case meta of None \<Rightarrow> empty_meta\<lparr>cm_principal := Some new_anonymous_principal\<rparr> | Some m \<Rightarrow> m);
          m1 = (case cm_principal m of Some _ \<Rightarrow> m
             | None \<Rightarrow> m\<lparr>cm_principal := Some (if cm_permission m \<noteq> [] then principal_from_role (cm_permission m)
                                             else new_anonymous_principal)\<rparr>)
      in if cm_permission m1 = [] then m1\<lparr>cm_permission := primary_role (cm_principal m1)\<rparr> else m1)"

definition caller :: "context_meta option \<Rightarrow> principal" where
  "caller meta = the (cm_principal (complete_meta meta))"

definition dispatch ::
  "('h, 'v, 'w) rpc_env \<Rightarrow> settings \<Rightarrow> context_meta option \<Rightarrow> 'v rpc_request \<Rightarrow> 'w \<Rightarrow> 'v rpc_response \<times> 'w" where
  "dispatch env cf meta req w =
     (let m = complete_meta meta in
      if p_type (caller meta) = PrincipalAnonymous \<and> r_method req \<notin> set private_whitelist \<and>
         \<not> cm_temp_share m \<and> cf_private_site cf = Some True
      then (error_response (r_id req) permission_denied ''Private site enabled, please login first'' None, w)
      else if \<not> check_principal (en_acl env) (cm_principal m) (r_method req)
      then (error_response (r_id req) permission_denied ''Permission denied'' None, w)
      else call (en_run env m) (en_bind env) (en_registry env) (r_id req) (r_method req) (r_params req) w)"

definition on_internal_request ::
  "('h, 'v, 'w) rpc_env \<Rightarrow> settings \<Rightarrow> go_string \<Rightarrow> go_string \<Rightarrow> 'v anyval option \<Rightarrow> 'w \<Rightarrow> 'v rpc_response \<times> 'w" where
  "on_internal_request env cf grp meth params w =
     dispatch env cf (Some (empty_meta\<lparr>cm_permission := grp\<rparr>)) (new_request None meth params) w"

section \<open>Sensitive methods\<close>

definition request_code :: "('h, 'v, 'w) rpc_env \<Rightarrow> 'v rpc_request \<Rightarrow> go_string" where
  "request_code env req = first_nonempty (\<lambda>k. case en_param env req k of None \<Rightarrow> [] | Some v \<Rightarrow> v) code_keys"

text \<open>\<open>http\<close> is the request and its context, where there is one.\<close>

definition sensitive_code ::
  "('h, 'v, 'w) rpc_env \<Rightarrow> (http_request \<times> gin_context) option \<Rightarrow> 'v rpc_request \<Rightarrow> go_string" where
  "sensitive_code env http req =
     (if request_code env req \<noteq> [] then request_code env req
      else case http of None \<Rightarrow> [] | Some (r, c) \<Rightarrow> header_or_query_code r)"

definition already_verified :: "(http_request \<times> gin_context) option \<Rightarrow> bool" where
  "already_verified http \<longleftrightarrow> (case http of None \<Rightarrow> False | Some (r, c) \<Rightarrow> gc_verified c)"

definition dispatch_with_sensitive ::
  "('h, 'v, 'w) rpc_env \<Rightarrow> access_queries \<Rightarrow> int \<Rightarrow> hub_access \<Rightarrow> (http_request \<times> gin_context) option
     \<Rightarrow> context_meta option \<Rightarrow> 'v rpc_request \<Rightarrow> 'w \<Rightarrow> 'v rpc_response \<times> 'w" where
  "dispatch_with_sensitive env q now st http meta req w =
     (case (case meta of None \<Rightarrow> None | Some m \<Rightarrow> cm_principal m) of
        None \<Rightarrow> dispatch env (ha_conf st) meta req w
      | Some p \<Rightarrow>
        if \<not> already_verified http \<and> is_sensitive (en_registry env) (r_method req) \<and>
           check_principal (en_acl env) (Some p) (r_method req)
        then (case verify_sensitive_core (en_totp env) q now (user_uuid p) (sensitive_code env http req)
                     (is_api_key p) (ha_db st) of
                Some e \<Rightarrow> (error_response (r_id req) permission_denied (sensitive_message e) None, w)
              | None \<Rightarrow> dispatch env (ha_conf st) meta req w)
        else dispatch env (ha_conf st) meta req w)"

section \<open>Transports\<close>

definition has_temp_share_access :: "settings \<Rightarrow> int \<Rightarrow> http_request \<Rightarrow> bool" where
  "has_temp_share_access cf now r = (case rq_cookie r ''temp_key'' of None \<Rightarrow> False
     | Some key \<Rightarrow> if key = [] then False
       else (case cf_temp_expire cf of None \<Rightarrow> False
        | Some x \<Rightarrow> (case cf_temp_token cf of None \<Rightarrow> False
           | Some tok \<Rightarrow> if tok = [] \<or> key \<noteq> tok then False else now \<le> x)))"

text \<open>\<open>sq\<close> are the two queries that read the user of a session.\<close>

definition build_context_meta ::
  "access_queries \<Rightarrow> bool \<times> bool \<Rightarrow> int \<Rightarrow> http_request \<Rightarrow> gin_context \<Rightarrow> hub_access \<Rightarrow> context_meta \<times> hub_access" where
  "build_context_meta q sq now r c st =
     (case (case gc_principal c of Some p \<Rightarrow> (p, st) | None \<Rightarrow> identify_principal q now r st) of (p, st') \<Rightarrow>
      let m = empty_meta\<lparr>cm_principal := Some p, cm_permission := primary_role (Some p), cm_remote_ip := rq_ip r,
                 cm_user_agent := rq_agent r, cm_temp_share := has_temp_share_access (ha_conf st) now r\<rparr> in
      (case p_type p of
         PrincipalUser \<Rightarrow>
           let m1 = m\<lparr>cm_user_uuid := user_uuid p\<rparr> in
           (case nonempty (rq_cookie r ''session_token'') of None \<Rightarrow> m1
            | Some tok \<Rightarrow> m1\<lparr>cm_session_token := tok,
                cm_user := get_user_by_session (fst sq) (snd sq) tok (ha_db st')\<rparr>)
       | PrincipalAgent \<Rightarrow>
           let m1 = m\<lparr>cm_client_uuid := client_uuid p\<rparr> in
           if rq_query r ''Authorization'' \<noteq> [] then m1\<lparr>cm_client_token := rq_query r ''Authorization''\<rparr>
           else if length (rq_auth r) > 7 then m1\<lparr>cm_client_token := drop 7 (rq_auth r)\<rparr> else m1
       | _ \<Rightarrow> m, st'))"

definition call_from_gin ::
  "('h, 'v, 'w) rpc_env \<Rightarrow> access_queries \<Rightarrow> bool \<times> bool \<Rightarrow> int \<Rightarrow> http_request \<Rightarrow> gin_context \<Rightarrow> hub_access
     \<Rightarrow> go_string \<Rightarrow> 'v anyval option \<Rightarrow> 'w \<Rightarrow> 'v rpc_response \<times> hub_access \<times> 'w" where
  "call_from_gin env q sq now r c st meth params w =
     (case build_context_meta q sq now r c st of (m, st') \<Rightarrow>
      case dispatch_with_sensitive env q now st' (Some (r, c)) (Some m) (new_request None meth params) w of
        (resp, w') \<Rightarrow> (resp, st', w'))"

fun serve_requests ::
  "('h, 'v, 'w) rpc_env \<Rightarrow> access_queries \<Rightarrow> int \<Rightarrow> hub_access \<Rightarrow> http_request \<times> gin_context \<Rightarrow> context_meta
     \<Rightarrow> 'v rpc_request list \<Rightarrow> 'w \<Rightarrow> 'v rpc_response list \<times> 'w" where
  "serve_requests env q now st http m [] w = ([], w)"
| "serve_requests env q now st http m (req # reqs) w =
     (case dispatch_with_sensitive env q now st (Some http) (Some m) req w of (resp, w1) \<Rightarrow>
      case serve_requests env q now st http m reqs w1 of (resps, w2) \<Rightarrow> (resp # resps, w2))"

text \<open>The body of an answer: an object for one response, an array for several.\<close>

datatype 'v rpc_body = OneResponse "'v rpc_response" | ResponseArray "'v rpc_response list"

definition serve_post ::
  "('h, 'v, 'w) rpc_env \<Rightarrow> (go_string \<Rightarrow> go_string + 'v rpc_request) \<Rightarrow> (go_string \<Rightarrow> go_string + 'v rpc_request list)
     \<Rightarrow> access_queries \<Rightarrow> bool \<times> bool \<Rightarrow> int \<Rightarrow> http_request \<Rightarrow> gin_context \<Rightarrow> hub_access \<Rightarrow> go_string + go_string \<Rightarrow> 'w
     \<Rightarrow> int \<times> 'v rpc_body \<times> hub_access \<times> 'w" where
  "serve_post env dec dec_list q sq now r c st body w = (case body of
       Inl e \<Rightarrow> (400, OneResponse (error_response None parse_error ''read body error'' (Some (VStr e))), st, w)
     | Inr data \<Rightarrow> (case parse_requests dec dec_list data of
         Inl e \<Rightarrow> (400, OneResponse (response_with_id e None), st, w)
       | Inr reqs \<Rightarrow>
         (case build_context_meta q sq now r c st of (m, st') \<Rightarrow>
          case serve_requests env q now st' (r, c) m reqs w of (resps, w') \<Rightarrow>
            (200, if length resps = 1 then OneResponse (hd resps) else ResponseArray resps, st', w'))))"

text \<open>
  A WebSocket connection: the caller's data is built once, when it opens; every message is served with
  the state of the hub (\<open>st\<close>) at its own time.
\<close>

datatype 'v frame = FrameBad go_string | FrameEnd | FrameRequest "'v rpc_request"

fun serve_frames ::
  "('h, 'v, 'w) rpc_env \<Rightarrow> http_request \<times> gin_context \<Rightarrow> context_meta
     \<Rightarrow> ('v frame \<times> int \<times> access_queries \<times> hub_access) list \<Rightarrow> 'w \<Rightarrow> 'v rpc_response list \<times> 'w" where
  "serve_frames env http m [] w = ([], w)"
| "serve_frames env http m ((f, now, q, st) # fs) w = (case f of
       FrameEnd \<Rightarrow> ([], w)
     | FrameBad e \<Rightarrow> (case serve_frames env http m fs w of (rs, w') \<Rightarrow>
         (error_response None invalid_request (''bad request: '' @ e) None # rs, w'))
     | FrameRequest req \<Rightarrow> (case validate (Some req) of
         Some e \<Rightarrow> (case serve_frames env http m fs w of (rs, w') \<Rightarrow> (response_with_id e (r_id req) # rs, w'))
       | None \<Rightarrow>
         (case dispatch_with_sensitive env q now st (Some http) (Some m) req w of (resp, w1) \<Rightarrow>
          case serve_frames env http m fs w1 of (rs, w2) \<Rightarrow> (resp # rs, w2))))"

definition serve_web_socket ::
  "('h, 'v, 'w) rpc_env \<Rightarrow> access_queries \<Rightarrow> bool \<times> bool \<Rightarrow> int \<Rightarrow> http_request \<Rightarrow> gin_context \<Rightarrow> hub_access
     \<Rightarrow> ('v frame \<times> int \<times> access_queries \<times> hub_access) list \<Rightarrow> 'w \<Rightarrow> 'v rpc_response list \<times> 'w" where
  "serve_web_socket env q sq now r c st frames w =
     (case build_context_meta q sq now r c st of (m, _) \<Rightarrow> serve_frames env (r, c) m frames w)"

section \<open>Routes bound to methods\<close>

datatype render_kind = RenderStandard | RenderFlat | RenderRaw

record bind_config =
  bc_render :: render_kind
  bc_message :: go_string
  bc_path :: "go_string list"
  bc_query :: "go_string list"

definition plain_bind :: bind_config where
  "plain_bind = \<lparr>bc_render = RenderStandard, bc_message = [], bc_path = [], bc_query = []\<rparr>"

definition with_flat :: "bind_config \<Rightarrow> bind_config" where "with_flat b = b\<lparr>bc_render := RenderFlat\<rparr>"
definition with_raw :: "bind_config \<Rightarrow> bind_config" where "with_raw b = b\<lparr>bc_render := RenderRaw\<rparr>"
definition with_message :: "go_string \<Rightarrow> bind_config \<Rightarrow> bind_config" where "with_message msg b = b\<lparr>bc_message := msg\<rparr>"
definition with_path :: "go_string list \<Rightarrow> bind_config \<Rightarrow> bind_config" where
  "with_path names b = b\<lparr>bc_path := bc_path b @ names\<rparr>"
definition with_query :: "go_string list \<Rightarrow> bind_config \<Rightarrow> bind_config" where
  "with_query names b = b\<lparr>bc_query := bc_query b @ names\<rparr>"

text \<open>The decoded body of a request, and the parameters a route makes of it.\<close>

datatype 'j body_value = BodyNone | BodyBad | BodyArray 'j | BodyObject "go_string \<rightharpoonup> 'j" | BodyOther

datatype 'j params = ArrayParams 'j | ObjectParams "go_string \<rightharpoonup> 'j"

definition put_strings ::
  "(go_string \<Rightarrow> 'j) \<Rightarrow> (go_string \<Rightarrow> go_string) \<Rightarrow> go_string list \<Rightarrow> (go_string \<rightharpoonup> 'j) \<Rightarrow> (go_string \<rightharpoonup> 'j)" where
  "put_strings str get names m = fold (\<lambda>n m. if get n \<noteq> [] then m(n \<mapsto> str (get n)) else m) names m"

definition assemble_params ::
  "(go_string \<Rightarrow> 'j) \<Rightarrow> bind_config \<Rightarrow> http_request \<Rightarrow> (go_string \<Rightarrow> go_string) \<Rightarrow> 'j body_value \<Rightarrow> 'j params option" where
  "assemble_params str b r path_param body = (case body of BodyBad \<Rightarrow> None
     | _ \<Rightarrow> Some (case body of
         BodyArray a \<Rightarrow> if bc_path b = [] \<and> bc_query b = [] then ArrayParams a
           else ObjectParams (put_strings str (rq_query r) (bc_query b) (put_strings str path_param (bc_path b) Map.empty))
       | BodyObject m \<Rightarrow> ObjectParams (put_strings str (rq_query r) (bc_query b) (put_strings str path_param (bc_path b) m))
       | _ \<Rightarrow> ObjectParams (put_strings str (rq_query r) (bc_query b) (put_strings str path_param (bc_path b) Map.empty))))"

definition rpc_error_status :: "int \<Rightarrow> int" where
  "rpc_error_status code =
     (if code \<in> {invalid_params, invalid_request, parse_error} then 400
      else if code \<in> {permission_denied, unauthenticated} then 401
      else if code = not_found then 404
      else if code = already_exists then 409
      else if code = deadline_exceeded then 504
      else if code = unavailable then 503
      else if code = unimplemented then 501
      else if code = cancelled_code then 408
      else 500)"

text \<open>\<open>as_map\<close> is the type assertion of a result to an object.\<close>

datatype 'v rendered =
    RError go_string
  | RRaw "'v anyval option"
  | RFlat "(go_string \<rightharpoonup> 'v) option"
  | RStandard go_string "'v anyval option"

definition render_response :: "('v anyval \<Rightarrow> (go_string \<rightharpoonup> 'v) option) \<Rightarrow> bind_config \<Rightarrow> 'v rpc_response \<Rightarrow> int \<times> 'v rendered" where
  "render_response as_map b resp = (case s_error resp of
       Some e \<Rightarrow> (rpc_error_status (e_code e), RError (e_message e))
     | None \<Rightarrow> (200, (case bc_render b of
         RenderRaw \<Rightarrow> RRaw (s_result resp)
       | RenderFlat \<Rightarrow> RFlat (case s_result resp of None \<Rightarrow> None | Some v \<Rightarrow> as_map v)
       | RenderStandard \<Rightarrow> RStandard (bc_message b) (s_result resp))))"

definition bound_route ::
  "('h, 'v, 'w) rpc_env \<Rightarrow> ('v params \<Rightarrow> 'v anyval) \<Rightarrow> ('v anyval \<Rightarrow> (go_string \<rightharpoonup> 'v) option) \<Rightarrow> (go_string \<Rightarrow> 'v)
     \<Rightarrow> go_string \<Rightarrow> bind_config \<Rightarrow> access_queries \<Rightarrow> bool \<times> bool \<Rightarrow> int \<Rightarrow> http_request \<Rightarrow> (go_string \<Rightarrow> go_string)
     \<Rightarrow> 'v body_value \<Rightarrow> gin_context \<Rightarrow> hub_access \<Rightarrow> 'w \<Rightarrow> (int \<times> 'v rendered) \<times> hub_access \<times> 'w" where
  "bound_route env pack as_map str meth b q sq now r path_param body c st w =
     (case assemble_params str b r path_param body of
        None \<Rightarrow> ((400, RError ''Invalid or missing request body''), st, w)
      | Some ps \<Rightarrow> (case call_from_gin env q sq now r c st meth (Some (pack ps)) w of (resp, st', w') \<Rightarrow>
          (render_response as_map b resp, st', w')))"

section \<open>Lemmas\<close>

lemma complete_principal:
  "cm_principal (complete_meta meta) = Some (caller meta)"
  by (auto simp: caller_def complete_meta_def empty_meta_def Let_def split: option.splits)

lemma caller_Some [simp]: "cm_principal m = Some p \<Longrightarrow> caller (Some m) = p"
  by (simp add: caller_def complete_meta_def Let_def)

lemma complete_temp_share [simp]: "cm_temp_share (complete_meta (Some m)) = cm_temp_share m"
  by (auto simp: complete_meta_def Let_def split: option.splits)

text \<open>A method that is not permitted, or not open on a private site, is not run.\<close>

lemma dispatch_refused:
  "\<not> check_principal (en_acl env) (Some (caller meta)) (r_method req) \<Longrightarrow> snd (dispatch env cf meta req w) = w"
  by (simp add: dispatch_def Let_def complete_principal)

lemma dispatch_private:
  assumes "cm_principal m = Some p" "p_type p = PrincipalAnonymous" "\<not> cm_temp_share m" "cf_private_site cf = Some True"
    "r_method req \<notin> set private_whitelist"
  shows "dispatch env cf (Some m) req w =
    (error_response (r_id req) permission_denied ''Private site enabled, please login first'' None, w)"
  using assms by (simp add: dispatch_def Let_def)

text \<open>A sensitive method runs only for a caller who has shown the second factor.\<close>

definition second_factor ::
  "(int \<Rightarrow> go_string \<Rightarrow> go_string \<Rightarrow> bool) \<Rightarrow> int \<Rightarrow> accounts_db \<Rightarrow> principal \<Rightarrow> go_string \<Rightarrow> bool" where
  "second_factor totp now db p code \<longleftrightarrow> is_api_key p \<or>
     user_uuid p \<noteq> [] \<and> (\<exists>u\<in>set (users db). u_uuid u = user_uuid p \<and>
        (u_two_factor u = [] \<or> code \<noteq> [] \<and> totp now code (u_two_factor u)))"

lemma sensitive_runs:
  assumes "is_sensitive (en_registry env) (r_method req)" "cm_principal m = Some p"
    "snd (dispatch_with_sensitive env q now st http (Some m) req w) \<noteq> w" "\<not> already_verified http"
  shows "second_factor (en_totp env) now (ha_db st) p (sensitive_code env http req)"
proof (cases "check_principal (en_acl env) (Some p) (r_method req)")
  case True
  with assms have "verify_sensitive_core (en_totp env) q now (user_uuid p) (sensitive_code env http req)
      (is_api_key p) (ha_db st) = None"
    by (auto simp: dispatch_with_sensitive_def split: option.splits)
  then show ?thesis using verify_core_ok by (auto simp: second_factor_def)
next
  case False
  then have "snd (dispatch env (ha_conf st) (Some m) req w) = w"
    using assms(2) by (intro dispatch_refused) simp
  then show ?thesis using assms False by (simp add: dispatch_with_sensitive_def)
qed

lemma temp_share_same: "has_temp_share_access cf now r = has_temp_access cf now r"
  by (auto simp: has_temp_share_access_def has_temp_access_def split: option.splits)

lemma build_meta_fields:
  assumes "build_context_meta q sq now r c st = (m, st')" "gc_principal c = Some p"
  shows "cm_principal m = Some p" "st' = st" "cm_temp_share m = has_temp_access (ha_conf st) now r"
  using assms by (auto simp: build_context_meta_def Let_def temp_share_same empty_meta_def split: principal_type.splits option.splits if_splits)

lemma call_from_gin_world:
  assumes "gc_principal c = Some p"
  obtains m where "cm_principal m = Some p" "cm_temp_share m = has_temp_access (ha_conf st) now r"
    "snd (snd (call_from_gin env q sq now r c st meth params w)) =
       snd (dispatch_with_sensitive env q now st (Some (r, c)) (Some m) (new_request None meth params) w)"
proof -
  obtain m st' where b: "build_context_meta q sq now r c st = (m, st')" by fastforce
  show ?thesis
    by (rule that[of m]) (use build_meta_fields[OF b assms] in \<open>auto simp: call_from_gin_def b split: prod.splits\<close>)
qed

lemma dispatch_sensitive_private:
  assumes "cm_principal m = Some p" "p_type p = PrincipalAnonymous" "\<not> cm_temp_share m"
    "cf_private_site (ha_conf st) = Some True" "r_method req \<notin> set private_whitelist"
  shows "snd (dispatch_with_sensitive env q now st http (Some m) req w) = w"
  using assms by (simp add: dispatch_with_sensitive_def dispatch_private split: option.splits)

end
