(* ===== verification/Web_Routes.thy ===== *)
theory Web_Routes
  imports Rpc_Transport
begin

text \<open>
  The routes of the hub, \<^verbatim>\<open>web/router/router.go\<close>, with the middlewares in front of them in the order of
  \<^verbatim>\<open>internal/server/runtime.go\<close>: identity, private site, the role of the group, the second factor.  Which
  route serves a request is gin's choice, an argument here: any route of the table whose pattern matches
  the path.  A REST handler is its name; the profiling routes, the static frontend, plugins and CORS are
  left out.
\<close>

section \<open>The table\<close>

datatype target = Bind go_string bind_config | Rpc2 | Rest go_string

record route =
  rt_method :: go_string
  rt_pattern :: go_string
  rt_roles :: "go_string list option"
  rt_sensitive :: bool
  rt_target :: target

definition open_route :: "go_string \<Rightarrow> go_string \<Rightarrow> target \<Rightarrow> route" where
  "open_route meth pat t = \<lparr>rt_method = meth, rt_pattern = pat, rt_roles = None, rt_sensitive = False, rt_target = t\<rparr>"

definition agent_route :: "go_string \<Rightarrow> go_string \<Rightarrow> target \<Rightarrow> route" where
  "agent_route meth pat t = (open_route meth pat t)\<lparr>rt_roles := Some [role_admin, role_client]\<rparr>"

definition admin_route :: "go_string \<Rightarrow> go_string \<Rightarrow> target \<Rightarrow> route" where
  "admin_route meth pat t = (open_route meth pat t)\<lparr>rt_roles := Some [role_admin]\<rparr>"

definition sensitive_route :: "go_string \<Rightarrow> go_string \<Rightarrow> target \<Rightarrow> route" where
  "sensitive_route meth pat t = (admin_route meth pat t)\<lparr>rt_sensitive := True\<rparr>"

definition public_routes :: "route list" where
  "public_routes = [
     open_route ''Any'' ''/ping'' (Rest ''ping''),
     open_route ''POST'' ''/api/login'' (Rest ''Login''),
     open_route ''GET'' ''/api/logout'' (Rest ''Logout''),
     open_route ''GET'' ''/api/oauth'' (Rest ''OAuth''),
     open_route ''GET'' ''/api/oauth_callback'' (Rest ''OAuthCallback''),
     open_route ''GET'' ''/api/plugin/:short/*filepath'' (Rest ''ServePluginFile''),
     open_route ''GET'' ''/api/preview/client/:uuid/file/download'' (Rest ''PreviewDownload''),
     open_route ''HEAD'' ''/api/preview/client/:uuid/file/download'' (Rest ''PreviewDownload''),
     open_route ''GET'' ''/api/clients'' (Rest ''GetClients''),
     open_route ''GET'' ''/api/me'' (Bind ''public:getMe'' (with_raw plain_bind)),
     open_route ''GET'' ''/api/nodes'' (Bind ''public:getNodesInformation'' plain_bind),
     open_route ''GET'' ''/api/public'' (Bind ''public:getPublicSettings'' plain_bind),
     open_route ''GET'' ''/api/version'' (Bind ''public:getVersion'' plain_bind),
     open_route ''GET'' ''/api/recent/:uuid'' (Bind ''public:getClientRecentRecords'' (with_path [''uuid''] plain_bind)),
     open_route ''GET'' ''/api/records/load'' (Bind ''public:getRecordsByUUID'' (with_query [''uuid'', ''load_type'', ''hours''] plain_bind)),
     open_route ''GET'' ''/api/records/ping'' (Bind ''public:getPingRecords'' (with_query [''uuid'', ''task_id'', ''hours''] plain_bind)),
     open_route ''GET'' ''/api/task/ping'' (Bind ''public:getPublicPingTasks'' plain_bind),
     open_route ''GET'' ''/api/rpc2'' Rpc2,
     open_route ''POST'' ''/api/rpc2'' Rpc2]"

definition agent_routes :: "route list" where
  "agent_routes = [
     open_route ''POST'' ''/api/clients/register'' (Rest ''RegisterClient''),
     agent_route ''GET'' ''/api/clients/v2/rpc'' (Rest ''WebSocketV2RPC''),
     agent_route ''POST'' ''/api/clients/v2/rpc'' (Rest ''UploadV2RPC''),
     agent_route ''GET'' ''/api/clients/transfer/:id'' (Rest ''AgentTransfer''),
     agent_route ''POST'' ''/api/clients/transfer/:id'' (Rest ''AgentTransfer''),
     agent_route ''GET'' ''/api/clients/terminal'' (Rest ''EstablishConnection'')]"

definition admin_rest_routes :: "route list" where
  "admin_rest_routes = [
     admin_route ''GET'' ''/api/admin/download/backup'' (Rest ''DownloadBackup''),
     admin_route ''POST'' ''/api/admin/upload/init'' (Rest ''Init''),
     admin_route ''POST'' ''/api/admin/upload/chunk'' (Rest ''Chunk''),
     admin_route ''POST'' ''/api/admin/upload/merge'' (Rest ''Merge''),
     admin_route ''POST'' ''/api/admin/upload/cancel'' (Rest ''Cancel''),
     admin_route ''GET'' ''/api/admin/test/geoip'' (Bind ''admin:testGeoip'' (with_query [''ip''] plain_bind)),
     admin_route ''POST'' ''/api/admin/test/sendMessage'' (Bind ''admin:testSendMessage'' plain_bind),
     admin_route ''POST'' ''/api/admin/update/mmdb'' (Rest ''UpdateMmdbGeoIP''),
     admin_route ''POST'' ''/api/admin/update/user'' (Rest ''UpdateUser''),
     admin_route ''PUT'' ''/api/admin/update/favicon'' (Rest ''UploadFavicon''),
     admin_route ''POST'' ''/api/admin/update/favicon'' (Rest ''DeleteFavicon''),
     admin_route ''GET'' ''/api/admin/theme/list'' (Rest ''ListThemes''),
     admin_route ''POST'' ''/api/admin/theme/delete'' (Rest ''DeleteTheme''),
     admin_route ''GET'' ''/api/admin/theme/set'' (Rest ''SetTheme''),
     admin_route ''POST'' ''/api/admin/theme/update'' (Rest ''UpdateTheme''),
     admin_route ''POST'' ''/api/admin/theme/import'' (Rest ''ImportTheme''),
     admin_route ''POST'' ''/api/admin/theme/settings'' (Rest ''UpdateThemeSettings''),
     admin_route ''GET'' ''/api/admin/theme/market/sources'' (Rest ''ListThemeMarketSources''),
     admin_route ''POST'' ''/api/admin/theme/market/sources'' (Rest ''CreateThemeMarketSource''),
     admin_route ''PUT'' ''/api/admin/theme/market/sources/:id'' (Rest ''UpdateThemeMarketSource''),
     admin_route ''DELETE'' ''/api/admin/theme/market/sources/:id'' (Rest ''DeleteThemeMarketSource''),
     admin_route ''GET'' ''/api/admin/theme/market/catalog'' (Rest ''ListThemeMarketCatalog''),
     admin_route ''POST'' ''/api/admin/theme/market/install'' (Rest ''InstallThemeFromMarket''),
     admin_route ''GET'' ''/api/admin/2fa/generate'' (Rest ''Generate2FA''),
     admin_route ''POST'' ''/api/admin/2fa/enable'' (Rest ''Enable2FA''),
     sensitive_route ''POST'' ''/api/admin/2fa/disable'' (Rest ''Disable2FA''),
     admin_route ''GET'' ''/api/admin/oauth2/bind'' (Rest ''BindingExternalAccount''),
     admin_route ''POST'' ''/api/admin/oauth2/unbind'' (Rest ''UnbindExternalAccount'')]"

definition admin_rpc_routes :: "route list" where
  "admin_rpc_routes = [
     admin_route ''GET'' ''/api/admin/task/all'' (Bind ''admin:getTasks'' plain_bind),
     sensitive_route ''POST'' ''/api/admin/task/exec'' (Bind ''admin:exec'' plain_bind),
     admin_route ''GET'' ''/api/admin/task/:task_id'' (Bind ''admin:getTaskById'' (with_path [''task_id''] plain_bind)),
     admin_route ''GET'' ''/api/admin/task/:task_id/result'' (Bind ''admin:getTaskResultsByTaskId'' (with_path [''task_id''] plain_bind)),
     admin_route ''GET'' ''/api/admin/task/:task_id/result/:uuid'' (Bind ''admin:getSpecificTaskResult'' (with_path [''task_id'', ''uuid''] plain_bind)),
     admin_route ''GET'' ''/api/admin/task/client/:uuid'' (Bind ''admin:getTasksByClientId'' (with_path [''uuid''] plain_bind)),
     admin_route ''GET'' ''/api/admin/settings/'' (Bind ''admin:getSettings'' plain_bind),
     admin_route ''POST'' ''/api/admin/settings/'' (Bind ''admin:editSettings'' plain_bind),
     admin_route ''GET'' ''/api/admin/settings/xtermjs'' (Bind ''admin:getXtermjsSettings'' plain_bind),
     admin_route ''POST'' ''/api/admin/settings/xtermjs'' (Bind ''admin:setXtermjsSettings'' (with_message ''settings saved'' plain_bind)),
     admin_route ''POST'' ''/api/admin/settings/oidc'' (Bind ''admin:setOidcProvider'' plain_bind),
     admin_route ''GET'' ''/api/admin/settings/oidc'' (Bind ''admin:getOidcProvider'' (with_query [''provider''] plain_bind)),
     admin_route ''POST'' ''/api/admin/settings/message-sender'' (Bind ''admin:setMessageSenderProvider'' plain_bind),
     admin_route ''GET'' ''/api/admin/settings/message-sender'' (Bind ''admin:getMessageSenderProvider'' (with_query [''provider''] plain_bind)),
     admin_route ''GET'' ''/api/admin/database/size'' (Bind ''admin:getDatabaseSize'' plain_bind),
     admin_route ''POST'' ''/api/admin/database/vacuum'' (Bind ''admin:vacuumDatabase'' plain_bind),
     admin_route ''POST'' ''/api/admin/client/add'' (Bind ''admin:addClient'' (with_flat plain_bind)),
     admin_route ''GET'' ''/api/admin/client/list'' (Bind ''admin:listClients'' (with_raw plain_bind)),
     admin_route ''GET'' ''/api/admin/client/:uuid'' (Bind ''admin:getClient'' (with_raw (with_path [''uuid''] plain_bind))),
     admin_route ''POST'' ''/api/admin/client/:uuid/edit'' (Bind ''admin:editClient'' (with_path [''uuid''] plain_bind)),
     admin_route ''POST'' ''/api/admin/client/:uuid/remove'' (Bind ''admin:removeClient'' (with_path [''uuid''] plain_bind)),
     admin_route ''GET'' ''/api/admin/client/:uuid/token'' (Bind ''admin:getClientToken'' (with_flat (with_path [''uuid''] plain_bind))),
     admin_route ''POST'' ''/api/admin/client/order'' (Bind ''admin:orderClients'' plain_bind),
     admin_route ''GET'' ''/api/admin/client/:uuid/terminal'' (Rest ''RequestTerminal''),
     admin_route ''POST'' ''/api/admin/client/:uuid/file/upload'' (Rest ''Upload''),
     admin_route ''GET'' ''/api/admin/client/:uuid/file/download'' (Rest ''Download''),
     admin_route ''HEAD'' ''/api/admin/client/:uuid/file/download'' (Rest ''Download''),
     admin_route ''GET'' ''/api/admin/client/:uuid/file/preview-token'' (Rest ''CreatePreviewToken''),
     admin_route ''POST'' ''/api/admin/record/clear'' (Bind ''admin:clearRecords'' plain_bind),
     admin_route ''POST'' ''/api/admin/record/clear/all'' (Bind ''admin:clearAllRecords'' plain_bind),
     admin_route ''GET'' ''/api/admin/session/get'' (Bind ''admin:getSessions'' (with_flat plain_bind)),
     admin_route ''POST'' ''/api/admin/session/remove'' (Bind ''admin:deleteSession'' plain_bind),
     admin_route ''POST'' ''/api/admin/session/remove/all'' (Bind ''admin:deleteAllSessions'' plain_bind),
     admin_route ''GET'' ''/api/admin/logs'' (Bind ''admin:getLogs'' (with_query [''limit'', ''page''] plain_bind)),
     admin_route ''GET'' ''/api/admin/clipboard/:id'' (Bind ''admin:getClipboard'' (with_path [''id''] plain_bind)),
     admin_route ''GET'' ''/api/admin/clipboard'' (Bind ''admin:listClipboard'' plain_bind),
     admin_route ''POST'' ''/api/admin/clipboard'' (Bind ''admin:createClipboard'' plain_bind),
     admin_route ''POST'' ''/api/admin/clipboard/:id'' (Bind ''admin:updateClipboard'' (with_path [''id''] plain_bind)),
     admin_route ''POST'' ''/api/admin/clipboard/remove'' (Bind ''admin:batchDeleteClipboard'' plain_bind),
     admin_route ''POST'' ''/api/admin/clipboard/:id/remove'' (Bind ''admin:deleteClipboard'' (with_path [''id''] plain_bind)),
     admin_route ''GET'' ''/api/admin/plugin/list'' (Bind ''admin:listPlugins'' plain_bind),
     admin_route ''POST'' ''/api/admin/plugin/enabled'' (Bind ''admin:setPluginEnabled'' plain_bind),
     admin_route ''GET'' ''/api/admin/plugin/logs'' (Bind ''admin:getPluginLogs'' (with_query [''short''] plain_bind)),
     admin_route ''GET'' ''/api/admin/plugin/market/sources'' (Rest ''ListPluginMarketSources''),
     admin_route ''POST'' ''/api/admin/plugin/market/sources'' (Rest ''CreatePluginMarketSource''),
     admin_route ''PUT'' ''/api/admin/plugin/market/sources/:id'' (Rest ''UpdatePluginMarketSource''),
     admin_route ''DELETE'' ''/api/admin/plugin/market/sources/:id'' (Rest ''DeletePluginMarketSource''),
     admin_route ''GET'' ''/api/admin/plugin/market/catalog'' (Rest ''ListPluginMarketCatalog''),
     admin_route ''POST'' ''/api/admin/plugin/market/install'' (Rest ''InstallPluginFromMarket''),
     admin_route ''POST'' ''/api/admin/plugin/delete'' (Bind ''admin:deletePlugin'' plain_bind),
     admin_route ''GET'' ''/api/admin/plugin/configuration'' (Bind ''admin:getPluginConfiguration'' (with_query [''short''] plain_bind)),
     admin_route ''POST'' ''/api/admin/plugin/configuration'' (Bind ''admin:setPluginConfiguration'' plain_bind),
     admin_route ''GET'' ''/api/admin/plugin/:short/*filepath'' (Rest ''ServePluginFile''),
     admin_route ''GET'' ''/api/admin/notification/offline'' (Bind ''admin:listOfflineNotifications'' plain_bind),
     admin_route ''POST'' ''/api/admin/notification/offline/edit'' (Bind ''admin:editOfflineNotification'' plain_bind),
     admin_route ''POST'' ''/api/admin/notification/offline/enable'' (Bind ''admin:enableOfflineNotification'' plain_bind),
     admin_route ''POST'' ''/api/admin/notification/offline/disable'' (Bind ''admin:disableOfflineNotification'' plain_bind),
     admin_route ''GET'' ''/api/admin/notification/load/'' (Bind ''admin:getAllLoadNotifications'' plain_bind),
     admin_route ''POST'' ''/api/admin/notification/load/add'' (Bind ''admin:addLoadNotification'' plain_bind),
     admin_route ''POST'' ''/api/admin/notification/load/delete'' (Bind ''admin:deleteLoadNotification'' plain_bind),
     admin_route ''POST'' ''/api/admin/notification/load/edit'' (Bind ''admin:editLoadNotification'' plain_bind),
     admin_route ''GET'' ''/api/admin/ping/'' (Bind ''admin:getAllPingTasks'' plain_bind),
     admin_route ''POST'' ''/api/admin/ping/add'' (Bind ''admin:addPingTask'' plain_bind),
     admin_route ''POST'' ''/api/admin/ping/delete'' (Bind ''admin:deletePingTask'' plain_bind),
     admin_route ''POST'' ''/api/admin/ping/edit'' (Bind ''admin:editPingTask'' plain_bind),
     admin_route ''POST'' ''/api/admin/ping/order'' (Bind ''admin:orderPingTask'' plain_bind)]"

definition route_table :: "route list" where
  "route_table = public_routes @ agent_routes @ admin_rest_routes @ admin_rpc_routes"

text \<open>Patterns: a segment \<^verbatim>\<open>:name\<close> matches any segment, a last one \<^verbatim>\<open>*name\<close> the rest of the path.\<close>

fun seg_match :: "go_string list \<Rightarrow> go_string list \<Rightarrow> bool" where
  "seg_match [] ss = (ss = [])"
| "seg_match (p # ps) [] = False"
| "seg_match (p # ps) (s # ss) =
     (if has_prefix p ''*'' then True
      else if has_prefix p '':'' then s \<noteq> [] \<and> seg_match ps ss
      else p = s \<and> seg_match ps ss)"

definition route_matches :: "route \<Rightarrow> go_string \<Rightarrow> bool" where
  "route_matches rt path = seg_match (split_on CHR ''/'' (rt_pattern rt)) (split_on CHR ''/'' path)"

section \<open>Serving a request\<close>

definition admit ::
  "(int \<Rightarrow> go_string \<Rightarrow> go_string \<Rightarrow> bool) \<Rightarrow> access_queries \<Rightarrow> int \<Rightarrow> route \<Rightarrow> http_request \<Rightarrow> hub_access
     \<Rightarrow> ((int \<times> go_string) + gin_context) \<times> hub_access" where
  "admit totp q now rt r st = (case identity_middleware q now r empty_context st of (c, st') \<Rightarrow>
     case private_site_middleware (ha_conf st') now r c of Some e \<Rightarrow> (Inl e, st')
     | None \<Rightarrow> (case (case rt_roles rt of None \<Rightarrow> None | Some rs \<Rightarrow> require_role rs c) of
         Some e \<Rightarrow> (Inl e, st')
       | None \<Rightarrow> if rt_sensitive rt then (require_sensitive_2fa totp q now r c (ha_db st'), st')
                else (Inr c, st')))"

record ('v) payload =
  pl_json :: "'v body_value"
  pl_raw :: "go_string + go_string"
  pl_frames :: "('v frame \<times> int \<times> access_queries \<times> hub_access) list"
  pl_path :: "go_string \<Rightarrow> go_string"

record 'v codec =
  cd_request :: "go_string \<Rightarrow> go_string + 'v rpc_request"
  cd_batch :: "go_string \<Rightarrow> go_string + 'v rpc_request list"
  cd_pack :: "'v params \<Rightarrow> 'v anyval"
  cd_map :: "'v anyval \<Rightarrow> (go_string \<rightharpoonup> 'v) option"
  cd_string :: "go_string \<Rightarrow> 'v"

datatype 'v served =
    Refused int go_string
  | Rendered int "'v rendered"
  | RpcAnswer int "'v rpc_body"
  | SocketAnswers "'v rpc_response list"
  | Handed go_string gin_context

definition on_rpc_request ::
  "('h, 'v, 'w) rpc_env \<Rightarrow> 'v codec \<Rightarrow> access_queries \<Rightarrow> bool \<times> bool \<Rightarrow> int \<Rightarrow> http_request \<Rightarrow> 'v payload \<Rightarrow> gin_context
     \<Rightarrow> hub_access \<Rightarrow> 'w \<Rightarrow> 'v served \<times> hub_access \<times> 'w" where
  "on_rpc_request env cd q sq now r pl c st w =
     (if rq_method r = ''GET''
      then (case serve_web_socket env q sq now r c st (pl_frames pl) w of (rs, w') \<Rightarrow> (SocketAnswers rs, st, w'))
      else if rq_method r \<noteq> ''POST'' then (Refused 405 ''method not allowed'', st, w)
      else (case serve_post env (cd_request cd) (cd_batch cd) q sq now r c st (pl_raw pl) w of
          (code, body, st', w') \<Rightarrow> (RpcAnswer code body, st', w')))"

definition serve ::
  "('h, 'v, 'w) rpc_env \<Rightarrow> 'v codec \<Rightarrow> access_queries \<Rightarrow> bool \<times> bool \<Rightarrow> int \<Rightarrow> route \<Rightarrow> http_request \<Rightarrow> 'v payload
     \<Rightarrow> hub_access \<Rightarrow> 'w \<Rightarrow> 'v served \<times> hub_access \<times> 'w" where
  "serve env cd q sq now rt r pl st w =
     (case admit (en_totp env) q now rt r st of
        (Inl (code, msg), st') \<Rightarrow> (Refused code msg, st', w)
      | (Inr c, st') \<Rightarrow>
        (case rt_target rt of
           Rest name \<Rightarrow> (Handed name c, st', w)
         | Rpc2 \<Rightarrow> on_rpc_request env cd q sq now r pl c st' w
         | Bind meth b \<Rightarrow>
           (case bound_route env (cd_pack cd) (cd_map cd) (cd_string cd) meth b q sq now r (pl_path pl) (pl_json pl) c st' w of
              ((code, out), st'', w') \<Rightarrow> (Rendered code out, st'', w'))))"

section \<open>Facts of the table\<close>

definition in_admin :: "route \<Rightarrow> bool" where
  "in_admin rt \<longleftrightarrow> has_prefix (rt_pattern rt) ''/api/admin''"

definition admin_rpc :: "route \<Rightarrow> bool" where
  "admin_rpc rt \<longleftrightarrow> (case rt_target rt of Bind m b \<Rightarrow> has_prefix m ''admin:'' | _ \<Rightarrow> False)"

text \<open>The REST handlers a caller without any credential reaches on a private site.\<close>

definition open_handlers :: "go_string list" where
  "open_handlers = [''ping'', ''Login'', ''OAuth'', ''OAuthCallback'', ''PreviewDownload'', ''RegisterClient'']"

definition closed_patterns :: "go_string list" where
  "closed_patterns = [''/api/logout'', ''/api/clients'', ''/api/rpc2'', ''/api/plugin/:short/*filepath'']"

definition route_ok :: "route \<Rightarrow> bool" where
  "route_ok rt \<longleftrightarrow> (in_admin rt \<longleftrightarrow> rt_roles rt = Some [role_admin]) \<and>
     (rt_roles rt = None \<or> rt_roles rt = Some [role_admin] \<or> rt_roles rt = Some [role_admin, role_client]) \<and>
     (admin_rpc rt \<longrightarrow> in_admin rt) \<and>
     (case rt_target rt of Bind m b \<Rightarrow> m \<noteq> ''public:recordVisitorEvent''
      | Rpc2 \<Rightarrow> rt_pattern rt = ''/api/rpc2''
      | Rest n \<Rightarrow> rt_roles rt \<noteq> None \<or> n \<in> set open_handlers \<or> rt_pattern rt \<in> set closed_patterns)"

lemmas route_defs = route_ok_def in_admin_def admin_rpc_def open_handlers_def closed_patterns_def open_route_def
  agent_route_def admin_route_def sensitive_route_def

lemma public_ok: "list_all route_ok public_routes"
  by (simp add: public_routes_def route_defs)

lemma agent_ok: "list_all route_ok agent_routes"
  by (simp add: agent_routes_def route_defs)

lemma admin_rest_ok: "list_all route_ok admin_rest_routes"
  by (simp add: admin_rest_routes_def route_defs)

lemma admin_rpc_ok: "list_all route_ok admin_rpc_routes"
  by (simp add: admin_rpc_routes_def route_defs)

lemma table_ok: "rt \<in> set route_table \<Longrightarrow> route_ok rt"
  using public_ok agent_ok admin_rest_ok admin_rpc_ok by (auto simp: route_table_def list_all_iff)

lemma seg_match_cases:
  "seg_match (p # ps) ss \<longleftrightarrow> (\<exists>t ts. ss = t # ts \<and> (has_prefix p ''*'' \<or>
     \<not> has_prefix p ''*'' \<and> (if has_prefix p '':'' then t \<noteq> [] \<and> seg_match ps ts else p = t \<and> seg_match ps ts)))"
  by (cases ss) auto

lemma closed_path:
  assumes "route_matches rt path" "rt_pattern rt \<in> set closed_patterns"
  shows "\<not> list_ex (\<lambda>p. has_prefix path p) public_paths \<and> has_prefix path ''/api''"
proof -
  have path: "path = join_with ''/'' (split_on CHR ''/'' path)" by (simp add: join_split_on)
  consider "path = ''/api/logout''" | "path = ''/api/clients''" | "path = ''/api/rpc2''"
    | rest where "path = ''/api/plugin/'' @ rest"
    using assms path by (auto simp: route_matches_def closed_patterns_def seg_match_cases)
  then show ?thesis
  proof cases
    case 4
    then show ?thesis by (simp add: public_paths_def)
  qed (simp_all add: public_paths_def)
qed

lemma private_site_refuses:
  assumes "route_matches rt (rq_path r)" "rt_pattern rt \<in> set closed_patterns" "cf_private_site cf = Some True"
    "get_role c = role_guest" "\<not> has_temp_access cf now r"
  shows "private_site_middleware cf now r c = Some (401, ''Private site is enabled, please login first.'')"
  using closed_path[OF assms(1,2)] assms(3-) by (simp add: private_site_middleware_def)

definition admin_caller :: "access_queries \<Rightarrow> int \<Rightarrow> http_request \<Rightarrow> hub_access \<Rightarrow> bool" where
  "admin_caller q now r st \<longleftrightarrow> is_api_key_valid (ha_conf st) (rq_auth r) \<or> session_user q now r st \<noteq> None"

lemma admin_role:
  "primary_role (Some (fst (identify_principal q now r st))) = role_admin \<longleftrightarrow> admin_caller q now r st"
  by (auto simp: identify_cases admin_caller_def split: option.splits)

text \<open>The same in terms of its two gates.\<close>

definition gates :: "int \<Rightarrow> route \<Rightarrow> http_request \<Rightarrow> gin_context \<Rightarrow> hub_access \<Rightarrow> refusal" where
  "gates now rt r c st = (case private_site_middleware (ha_conf st) now r c of Some e \<Rightarrow> Some e
     | None \<Rightarrow> (case rt_roles rt of None \<Rightarrow> None | Some rs \<Rightarrow> require_role rs c))"

lemma admit_gates:
  assumes "identity_middleware q now r empty_context st = (c, st')"
  shows "admit totp q now rt r st = (case gates now rt r c st' of Some e \<Rightarrow> (Inl e, st')
     | None \<Rightarrow> if rt_sensitive rt then (require_sensitive_2fa totp q now r c (ha_db st'), st') else (Inr c, st'))"
  by (simp add: admit_def assms gates_def split: option.splits)

lemma gates_None:
  "gates now rt r c st = None \<longleftrightarrow> private_site_middleware (ha_conf st) now r c = None \<and>
     (case rt_roles rt of None \<Rightarrow> True | Some rs \<Rightarrow> get_role c \<in> set rs)"
  by (simp add: gates_def require_role_def split: option.splits)

lemma admit_context:
  assumes "admit totp q now rt r st = (Inr c, st')"
  obtains c0 where "identity_middleware q now r empty_context st = (c0, st')" "gates now rt r c0 st' = None"
    "gc_principal c = gc_principal c0" "gc_role c = gc_role c0" "gc_api_key c = gc_api_key c0" "gc_uuid c = gc_uuid c0"
    "gc_code c = gc_code c0"
    "gc_verified c \<longrightarrow> verify_sensitive totp q now r c0 (ha_db st') = None" "gc_verified c = rt_sensitive rt"
proof -
  obtain c0 st0 where m: "identity_middleware q now r empty_context st = (c0, st0)" by fastforce
  have v: "\<not> gc_verified c0" using middleware_fields(5)[OF m] .
  have g: "gates now rt r c0 st0 = None"
    using assms unfolding admit_gates[OF m] by (cases "gates now rt r c0 st0") simp_all
  show ?thesis
  proof (cases "rt_sensitive rt")
    case True
    then have "require_sensitive_2fa totp q now r c0 (ha_db st0) = Inr c \<and> st0 = st'"
      using assms unfolding admit_gates[OF m] g by (auto simp: True)
    then have s: "st0 = st'" and "require_sensitive_2fa totp q now r c0 (ha_db st0) = Inr c" by (rule conjunct2, rule conjunct1)
    then have "verify_sensitive totp q now r c0 (ha_db st0) = None" "c = c0\<lparr>gc_verified := True\<rparr>"
      by (cases "verify_sensitive totp q now r c0 (ha_db st0)"; simp add: require_sensitive_2fa_def)+
    with that[of c0] m g s True show ?thesis by simp
  next
    case False
    then have "c = c0" "st0 = st'" using assms unfolding admit_gates[OF m] g by simp_all
    with that[of c0] m g v False show ?thesis by simp
  qed
qed

section \<open>Properties\<close>

text \<open>
  C2: every route under \<^verbatim>\<open>/api/admin\<close> is closed to everyone but a caller with the API key or an unexpired
  session, every method of the namespace \<^verbatim>\<open>admin:\<close> that a route runs is behind such a route, and such a
  caller is refused only where the second factor is asked for.
\<close>

theorem admin_gate:
  assumes "rt \<in> set route_table" "in_admin rt \<or> admin_rpc rt"
  shows "in_admin rt \<and> (case fst (admit totp q now rt r st) of
     Inr c \<Rightarrow> admin_caller q now r st \<and> get_role c = role_admin
   | Inl e \<Rightarrow> admin_caller q now r st \<longrightarrow> rt_sensitive rt)"
proof (intro conjI)
  have ok: "route_ok rt" using table_ok assms(1) .
  then show "in_admin rt" using assms(2) by (auto simp: route_ok_def)
  then have roles: "rt_roles rt = Some [role_admin]" using ok by (simp add: route_ok_def)
  obtain c0 st' where m: "identity_middleware q now r empty_context st = (c0, st')" by fastforce
  have role: "get_role c0 = role_admin \<longleftrightarrow> admin_caller q now r st"
    using middleware_fields(2)[OF m] admin_role[of q now r st] by simp
  have g: "gates now rt r c0 st' = None \<longleftrightarrow> admin_caller q now r st"
    unfolding gates_None role[symmetric] by (auto simp: roles private_site_middleware_def)
  have "c = c0 \<or> c = c0\<lparr>gc_verified := True\<rparr>" if "require_sensitive_2fa totp q now r c0 (ha_db st') = Inr c" for c
    using that by (simp add: require_sensitive_2fa_def split: option.splits)
  then have "get_role c = get_role c0" if "require_sensitive_2fa totp q now r c0 (ha_db st') = Inr c" for c
    using that by (auto simp: get_role_def)
  then show "case fst (admit totp q now rt r st) of Inr c \<Rightarrow> admin_caller q now r st \<and> get_role c = role_admin
      | Inl e \<Rightarrow> admin_caller q now r st \<longrightarrow> rt_sensitive rt"
    using g role unfolding admit_gates[OF m] by (auto split: option.splits sum.splits)
qed

text \<open>A request with nothing: no header, cookie, query or body.\<close>

definition bare_request :: "go_string \<Rightarrow> go_string \<Rightarrow> http_request" where
  "bare_request meth path = \<lparr>rq_method = meth, rq_path = path, rq_auth = [], rq_agent = [], rq_ip = [],
     rq_header = (\<lambda>_. []), rq_cookie = (\<lambda>_. None), rq_query = (\<lambda>_. []), rq_body = (\<lambda>_. None)\<rparr>"

definition private_settings :: settings where
  "private_settings = \<lparr>cf_api_key = Some ''0123456789abcdef'', cf_private_site = Some True, cf_temp_token = Some [],
     cf_temp_expire = Some 0\<rparr>"

definition private_hub :: hub_access where
  "private_hub = \<lparr>ha_db = sample_accounts, ha_agents = [(''t0'', ''agent'')], ha_conf = private_settings\<rparr>"

definition queries_up :: access_queries where
  "queries_up = \<lparr>xq_session = True, xq_drop = True, xq_agent = True, xq_touch = True, xq_user = True, xq_verify = True\<rparr>"

definition exec_route :: route where
  "exec_route = sensitive_route ''POST'' ''/api/admin/task/exec'' (Bind ''admin:exec'' plain_bind)"

lemma exec_in_table: "exec_route \<in> set route_table" "in_admin exec_route"
  by (simp_all add: exec_route_def route_table_def admin_rpc_routes_def route_defs)

theorem admin_gate_witness:
  "\<exists>e. fst (admit (\<lambda>_ _ _. False) queries_up 0 exec_route (bare_request ''POST'' ''/api/admin/task/exec'') private_hub) = Inl e"
  using admin_gate[OF exec_in_table(1), where totp = "\<lambda>_ _ _. False" and q = queries_up and now = 0
      and r = "bare_request ''POST'' ''/api/admin/task/exec''" and st = private_hub] exec_in_table(2)
  by (auto simp: admin_caller_def is_api_key_valid_def session_user_def bare_request_def private_hub_def
      private_settings_def split: sum.splits)

text \<open>
  C4: on a private site a caller without any credential causes nothing to run but the methods the login
  page needs, and is handed to no handler but those that log in, register an agent or serve a preview;
  whatever the request, and though the route table is wider.
\<close>

lemma bound_route_world:
  assumes "gc_principal c = Some p" "p_type p = PrincipalAnonymous" "\<not> has_temp_access (ha_conf st) now r"
    "cf_private_site (ha_conf st) = Some True" "meth \<notin> set private_whitelist"
  shows "snd (snd (bound_route env pack as_map str meth b q sq now r pp body c st w)) = w"
proof (cases "assemble_params str b r pp body")
  case (Some ps)
  obtain m where m: "cm_principal m = Some p" "cm_temp_share m = has_temp_access (ha_conf st) now r"
    "snd (snd (call_from_gin env q sq now r c st meth (Some (pack ps)) w)) =
       snd (dispatch_with_sensitive env q now st (Some (r, c)) (Some m) (new_request None meth (Some (pack ps))) w)"
    by (rule call_from_gin_world[OF assms(1)])
  have "snd (snd (call_from_gin env q sq now r c st meth (Some (pack ps)) w)) = w"
    unfolding m(3) using m(1,2) assms by (intro dispatch_sensitive_private) (simp_all add: new_request_def)
  then show ?thesis
    by (cases "call_from_gin env q sq now r c st meth (Some (pack ps)) w") (simp add: bound_route_def Some)
qed (simp add: bound_route_def)

theorem private_site_closed:
  assumes "rt \<in> set route_table" "route_matches rt (rq_path r)" "cf_private_site (ha_conf st) = Some True"
    "fst (identify_principal q now r st) = new_anonymous_principal" "\<not> has_temp_access (ha_conf st) now r"
    "serve env cd q sq now rt r pl st w = (out, st', w')"
  shows "(w' = w \<or> (\<exists>m b. rt_target rt = Bind m b \<and> m \<in> set private_whitelist)) \<and>
    (\<forall>name c. out = Handed name c \<longrightarrow> name \<in> set open_handlers)"
proof -
  obtain x st1 where a: "admit (en_totp env) q now rt r st = (x, st1)" by fastforce
  show ?thesis
  proof (cases x)
    case (Inl e)
    then show ?thesis using assms(6) a by (cases e) (auto simp: serve_def)
  next
    case (Inr c)
    obtain c0 where c0: "identity_middleware q now r empty_context st = (c0, st1)" "gates now rt r c0 st1 = None"
        "gc_principal c = gc_principal c0"
      by (rule admit_context[OF a[unfolded Inr]])
    have role: "get_role c0 = role_guest" and conf: "ha_conf st1 = ha_conf st"
      and p: "gc_principal c = Some new_anonymous_principal"
      using middleware_fields[OF c0(1)] assms(4) c0(3) by simp_all
    have ok: "route_ok rt" using table_ok assms(1) .
    have open_rt: "rt_roles rt = None"
      using c0(2) ok role by (auto simp: gates_None route_ok_def split: option.splits)
    have open_pat: "rt_pattern rt \<notin> set closed_patterns"
      using private_site_refuses[OF assms(2) _ assms(3) role assms(5)] c0(2) conf by (auto simp: gates_None)
    show ?thesis
    proof (cases "rt_target rt")
      case (Bind m b)
      have "w' = w" if "m \<notin> set private_whitelist"
        using bound_route_world[of c new_anonymous_principal st1 now r m env "cd_pack cd" "cd_map cd" "cd_string cd" b q sq
            "pl_path pl" "pl_json pl" w] that p assms(3,5,6) conf
        by (auto simp: serve_def a Inr Bind split: prod.splits)
      then show ?thesis using assms(6) Bind by (auto simp: serve_def a Inr split: prod.splits)
    next
      case Rpc2
      then show ?thesis using ok open_pat by (simp add: route_ok_def closed_patterns_def)
    next
      case (Rest n)
      then show ?thesis using ok open_pat open_rt assms(6) by (auto simp: route_ok_def serve_def a Inr)
    qed
  qed
qed

text \<open>A world of log lines: running a method appends its name.\<close>

definition log_env :: "(go_string, nat, go_string list) rpc_env" where
  "log_env = \<lparr>en_acl = default_acl,
     en_registry = mark_sensitive ''admin:exec'' \<lparr>handlers = [(''admin:exec'', External ''exec''), (''public:getNodesInformation'', External ''nodes''),
        (''admin:getLogs'', External ''logs'')], metas = [], sensitive = []\<rparr>,
     en_run = (\<lambda>m h req w. ((None, None), w @ [h])), en_bind = (\<lambda>_. (False, [])), en_param = (\<lambda>_ _. None),
     en_totp = (\<lambda>_ code secret. code = secret)\<rparr>"

definition plain_codec :: "nat codec" where
  "plain_codec = \<lparr>cd_request = (\<lambda>_. Inl []), cd_batch = (\<lambda>_. Inl []), cd_pack = (\<lambda>_. VStr []), cd_map = (\<lambda>_. None),
     cd_string = (\<lambda>_. 0)\<rparr>"

definition empty_payload :: "nat payload" where
  "empty_payload = \<lparr>pl_json = BodyNone, pl_raw = Inr [], pl_frames = [], pl_path = (\<lambda>_. [])\<rparr>"

definition nodes_route :: route where
  "nodes_route = open_route ''GET'' ''/api/recent/:uuid'' (Bind ''public:getClientRecentRecords'' (with_path [''uuid''] plain_bind))"

theorem private_site_closed_witness:
  "snd (snd (serve log_env plain_codec queries_up (True, True) 0 nodes_route (bare_request ''GET'' ''/api/recent/x'') empty_payload
     private_hub [])) = []"
proof -
  obtain out st' w' where s: "serve log_env plain_codec queries_up (True, True) 0 nodes_route (bare_request ''GET'' ''/api/recent/x'')
      empty_payload private_hub [] = (out, st', w')" by (cases "serve log_env plain_codec queries_up (True, True) 0 nodes_route
      (bare_request ''GET'' ''/api/recent/x'') empty_payload private_hub []") auto
  have "nodes_route \<in> set route_table"
    by (simp add: nodes_route_def route_table_def public_routes_def)
  moreover have "route_matches nodes_route (rq_path (bare_request ''GET'' ''/api/recent/x''))"
    by (simp add: nodes_route_def open_route_def route_matches_def bare_request_def)
  moreover have "fst (identify_principal queries_up 0 (bare_request ''GET'' ''/api/recent/x'') private_hub) = new_anonymous_principal"
    by (simp add: identify_cases is_api_key_valid_def session_user_def token_agent_def extract_client_token_def
        bare_request_def private_hub_def private_settings_def)
  moreover have "\<not> has_temp_access (ha_conf private_hub) 0 (bare_request ''GET'' ''/api/recent/x'')"
    by (simp add: has_temp_access_def bare_request_def)
  moreover have "cf_private_site (ha_conf private_hub) = Some True"
    by (simp add: private_hub_def private_settings_def)
  ultimately have "w' = [] \<or> (\<exists>m b. rt_target nodes_route = Bind m b \<and> m \<in> set private_whitelist)"
    using private_site_closed[OF _ _ _ _ _ s] by blast
  then have "w' = []" by (simp add: nodes_route_def open_route_def private_whitelist_def)
  then show ?thesis using s by simp
qed


definition rpc_route :: route where
  "rpc_route = open_route ''POST'' ''/api/rpc2'' Rpc2"

definition user_request :: http_request where
  "user_request = (bare_request ''POST'' ''/api/rpc2'')\<lparr>
     rq_cookie := (\<lambda>k. if k = ''session_token'' then Some ''tok'' else None),
     rq_header := (\<lambda>k. if k = ''X-2FA-Code'' then ''secret'' else [])\<rparr>"

definition user_hub :: hub_access where
  "user_hub = private_hub\<lparr>ha_db := sample_accounts\<lparr>sessions := [\<lparr>ses_user = ''u1'', ses_token = ''tok'', ses_agent = [],
     ses_ip = [], ses_method = ''password'', ses_online = 0, ses_last_agent = [], ses_last_ip = [], ses_expires = 100\<rparr>]\<rparr>\<rparr>"

lemma user_session: "session_user queries_up now user_request user_hub = (if now \<le> 100 then Some ''u1'' else None)"
  by (simp add: session_user_def user_request_def bare_request_def user_hub_def private_hub_def get_session_def
      first_session_def queries_up_def sample_accounts_def)

lemma user_no_key: "\<not> is_api_key_valid (ha_conf user_hub) (rq_auth user_request)"
  by (simp add: user_hub_def private_hub_def private_settings_def user_request_def bare_request_def is_api_key_valid_def)

lemma user_identity: "now \<le> 100 \<Longrightarrow> fst (identify_principal queries_up now user_request user_hub) = new_user_principal ''u1''"
  by (simp add: identify_cases user_session user_no_key)


section \<open>What the code does not mean to do\<close>

text \<open>
  \<^verbatim>\<open>POST /api/admin/2fa/enable\<close> replaces the secret of a user without asking for a code of the old one, and
  takes the new secret from the request: whoever holds a session, and knows no second factor, passes the
  check of sensitive methods after one request.
\<close>

lemma set_two_factor_user:
  assumes "accounts_wf db" "u \<in> set (users db)"
  shows "get_user_by_uuid True (u_uuid u) (set_two_factor True (u_uuid u) secret db) = Some (u\<lparr>u_two_factor := secret\<rparr>)"
proof -
  let ?db = "set_two_factor True (u_uuid u) secret db"
  have "u\<lparr>u_two_factor := secret\<rparr> \<in> set (users ?db)"
    using assms(2) by (force simp: set_two_factor_def update_users_def)
  from first_user_uuid[OF two_factor_wf[OF assms(1)] this, of True] show ?thesis by simp
qed

theorem second_factor_replaced:
  assumes "accounts_wf db" "u \<in> set (users db)" "u_uuid u \<noteq> []" "secret \<noteq> []" "code \<noteq> []" "totp now code secret"
  shows "\<not> rt_sensitive (admin_route ''POST'' ''/api/admin/2fa/enable'' (Rest ''Enable2FA'')) \<and>
    verify_sensitive_core totp queries_up now (u_uuid u) code False
      (snd (enable_2fa_request totp True now (u_uuid u) secret code db)) = None"
  using assms set_two_factor_user[OF assms(1,2), of secret]
  by (simp add: admin_route_def open_route_def enable_2fa_request_def verify_sensitive_core_def verify_2fa_def queries_up_def)

theorem second_factor_replaced_witness:
  "verify_sensitive_core (\<lambda>t c s. c = s) queries_up 0 ''u1'' ''mine'' False
     (snd (enable_2fa_request (\<lambda>t c s. c = s) True 0 ''u1'' ''mine'' ''mine'' sample_accounts)) = None"
  using second_factor_replaced[OF sample_wf(1), of "hd (users sample_accounts)" "''mine''" "''mine''" "\<lambda>t c s. c = s" 0]
  by (simp add: sample_accounts_def)

text \<open>
  A WebSocket keeps the caller it was opened by: the answer to a message that is not sensitive depends on
  neither the time nor the state of the hub, so a logout, a change of password or the end of the session
  does not take the rights of an open connection away.
\<close>

theorem socket_keeps_rights:
  assumes "cm_principal m = Some p" "p_type p \<noteq> PrincipalAnonymous" "\<not> is_sensitive (en_registry env) (r_method req)"
  shows "serve_frames env http m [(FrameRequest req, now, q, st)] w = serve_frames env http m [(FrameRequest req, now', q', st')] w"
proof -
  have "dispatch_with_sensitive env q now st (Some http) (Some m) req w = dispatch_with_sensitive env q' now' st' (Some http) (Some m) req w"
    using assms by (simp add: dispatch_with_sensitive_def dispatch_def Let_def)
  then show ?thesis by (simp split: option.splits)
qed

theorem socket_keeps_rights_witness:
  "serve_frames log_env (user_request, empty_context) (empty_meta\<lparr>cm_principal := Some (new_user_principal ''u1'')\<rparr>)
     [(FrameRequest (new_request None ''admin:getLogs'' None), 10, queries_up, user_hub)] [] =
   serve_frames log_env (user_request, empty_context) (empty_meta\<lparr>cm_principal := Some (new_user_principal ''u1'')\<rparr>)
     [(FrameRequest (new_request None ''admin:getLogs'' None), 1000, queries_up, private_hub)] []"
  by (rule socket_keeps_rights[where p = "new_user_principal ''u1''"])
    (simp_all add: log_env_def is_sensitive_def mark_sensitive_def new_request_def)

text \<open>
  The methods that stay open on a private site are not reachable over \<^verbatim>\<open>/api/rpc2\<close>, which the private-site
  middleware refuses before they are looked at; \<^verbatim>\<open>public:recordVisitorEvent\<close> has no other route.
\<close>

theorem whitelist_refused:
  assumes "rt \<in> set route_table" "rt_target rt = Rpc2" "route_matches rt (rq_path r)"
    "cf_private_site (ha_conf st) = Some True" "fst (identify_principal q now r st) = new_anonymous_principal"
    "\<not> has_temp_access (ha_conf st) now r"
  shows "fst (admit totp q now rt r st) = Inl (401, ''Private site is enabled, please login first.'') \<and>
    (\<forall>t\<in>set route_table. \<forall>b. rt_target t \<noteq> Bind ''public:recordVisitorEvent'' b)"
proof -
  obtain c st' where m: "identity_middleware q now r empty_context st = (c, st')" by fastforce
  have "rt_pattern rt = ''/api/rpc2''" using table_ok[OF assms(1)] assms(2) by (simp add: route_ok_def)
  then have closed: "rt_pattern rt \<in> set closed_patterns" by (simp add: closed_patterns_def)
  have "get_role c = role_guest" "ha_conf st' = ha_conf st"
    using middleware_fields(2,3)[OF m] assms(5) by simp_all
  then have "private_site_middleware (ha_conf st') now r c = Some (401, ''Private site is enabled, please login first.'')"
    using assms(4,6) by (intro private_site_refuses[OF assms(3) closed]) simp_all
  then have "fst (admit totp q now rt r st) = Inl (401, ''Private site is enabled, please login first.'')"
    by (simp add: admit_gates[OF m] gates_def)
  moreover have "\<forall>t\<in>set route_table. \<forall>b. rt_target t \<noteq> Bind ''public:recordVisitorEvent'' b"
    by (auto dest!: table_ok simp: route_ok_def)
  ultimately show ?thesis by simp
qed

theorem whitelist_refused_witness:
  "fst (admit (\<lambda>_ _ _. False) queries_up 0 rpc_route (bare_request ''POST'' ''/api/rpc2'') private_hub) =
     Inl (401, ''Private site is enabled, please login first.'')"
proof -
  have "rpc_route \<in> set route_table" by (simp add: rpc_route_def route_table_def public_routes_def)
  moreover have "fst (identify_principal queries_up 0 (bare_request ''POST'' ''/api/rpc2'') private_hub) = new_anonymous_principal"
    by (simp add: identify_cases is_api_key_valid_def session_user_def token_agent_def extract_client_token_def
        bare_request_def private_hub_def private_settings_def)
  ultimately show ?thesis
    using whitelist_refused[of rpc_route "bare_request ''POST'' ''/api/rpc2''" private_hub queries_up 0 "\<lambda>_ _ _. False"]
    by (simp add: rpc_route_def open_route_def route_matches_def bare_request_def private_hub_def private_settings_def
        has_temp_access_def)
qed

end
