(* ===== verification/Terminal.thy ===== *)
theory Terminal
  imports Prelude "HOL-Library.AList"
begin

text \<open>
  Remote terminals, \<^verbatim>\<open>web/api/terminal\<close>: the session table, its cleanup timers, the handlers that attach a
  browser (\<^verbatim>\<open>request.go\<close>) and an agent (\<^verbatim>\<open>establish.go\<close>), and the relay between them (\<^verbatim>\<open>forward.go\<close>).  What
  runs under the mutex of the table is one step; what a handler or goroutine still has to do is a task,
  and tasks, timers and requests interleave in any order.  A session object and a connection are numbers
  that are never used again; \<open>tm_browsers\<close> and \<open>tm_agents\<close> record who a connection was admitted for, \<open>tm_ids\<close>
  the client and the user every identifier was drawn for.  Outcomes of the
  environment (the client exists, the upgrade works, the agent is online) are arguments.  Left out: the
  texts written to the browser and the audit log.
\<close>

section \<open>State\<close>

record term_session =
  ts_uuid :: go_string
  ts_user :: go_string
  ts_browser :: "nat option"
  ts_agent :: "nat option"
  ts_ip :: go_string
  ts_forwarding :: bool
  ts_timer :: "nat option"

record term_timer =
  tt_id :: nat
  tt_session :: go_string
  tt_object :: nat
  tt_due :: int

text \<open>The user, or the API key, a browser was admitted for, and the client a terminal connection was authenticated as.\<close>

record browser_info =
  bi_user :: go_string
  bi_key :: bool

datatype term_task =
    Dispatch go_string nat
  | Attach go_string go_string go_string bool nat
  | Redispatch go_string nat
  | MaybeForward go_string
  | AttachAgent go_string nat
  | Forward go_string nat nat
  | Up go_string nat nat
  | Down go_string nat nat
  | Await go_string nat nat
  | EndRelay go_string nat nat

datatype direction = ToAgent | ToBrowser

record terminal_state =
  tm_now :: int
  tm_table :: "(go_string \<times> nat) list"
  tm_heap :: "(nat \<times> term_session) list"
  tm_next :: nat
  tm_conns :: nat
  tm_browsers :: "(nat \<times> browser_info) list"
  tm_agents :: "(nat \<times> go_string option) list"
  tm_armed :: "term_timer list"
  tm_fired :: "term_timer list"
  tm_tasks :: "term_task list"
  tm_closed :: "nat list"
  tm_ids :: "(go_string \<times> go_string \<times> go_string) list"
  tm_relayed :: "(go_string \<times> nat \<times> nat \<times> direction) list"
  tm_lost :: "(go_string \<times> nat \<times> nat) list"

definition terminal_start :: terminal_state where
  "terminal_start = \<lparr>tm_now = 0, tm_table = [], tm_heap = [], tm_next = 0, tm_conns = 0, tm_browsers = [], tm_agents = [],
     tm_armed = [], tm_fired = [], tm_tasks = [], tm_closed = [], tm_ids = [], tm_relayed = [], tm_lost = []\<rparr>"

definition session_at :: "terminal_state \<Rightarrow> go_string \<Rightarrow> (nat \<times> term_session) option" where
  "session_at st i = (case map_of (tm_table st) i of None \<Rightarrow> None
     | Some p \<Rightarrow> map_option (\<lambda>s. (p, s)) (map_of (tm_heap st) p))"

definition put_object :: "nat \<Rightarrow> term_session \<Rightarrow> terminal_state \<Rightarrow> terminal_state" where
  "put_object p s st = st\<lparr>tm_heap := AList.update p s (tm_heap st)\<rparr>"

definition drop_session :: "go_string \<Rightarrow> terminal_state \<Rightarrow> terminal_state" where
  "drop_session i st = st\<lparr>tm_table := AList.delete i (tm_table st)\<rparr>"

definition close_conns :: "nat option list \<Rightarrow> terminal_state \<Rightarrow> terminal_state" where
  "close_conns cs st = st\<lparr>tm_closed := tm_closed st @ map the (filter (\<lambda>c. c \<noteq> None) cs)\<rparr>"

definition add_task :: "term_task \<Rightarrow> terminal_state \<Rightarrow> terminal_state" where
  "add_task t st = st\<lparr>tm_tasks := tm_tasks st @ [t]\<rparr>"

section \<open>Timers\<close>

definition terminal_retention :: int where "terminal_retention = 300"

text \<open>\<^verbatim>\<open>Stop\<close> keeps a timer from firing, but does not reach one that has fired and waits for the mutex.\<close>

definition disarm :: "nat option \<Rightarrow> terminal_state \<Rightarrow> terminal_state" where
  "disarm t st = st\<lparr>tm_armed := filter (\<lambda>x. t \<noteq> Some (tt_id x)) (tm_armed st)\<rparr>"

definition schedule_cleanup :: "go_string \<Rightarrow> nat \<Rightarrow> term_session \<Rightarrow> terminal_state \<Rightarrow> terminal_state" where
  "schedule_cleanup i p s st =
     (let st1 = disarm (ts_timer s) st;
          t = \<lparr>tt_id = tm_next st1, tt_session = i, tt_object = p, tt_due = tm_now st1 + terminal_retention\<rparr>
      in put_object p (s\<lparr>ts_timer := Some (tt_id t)\<rparr>)
           (st1\<lparr>tm_armed := tm_armed st1 @ [t], tm_next := tm_next st1 + 1\<rparr>))"

definition stop_cleanup :: "nat \<Rightarrow> term_session \<Rightarrow> terminal_state \<Rightarrow> terminal_state" where
  "stop_cleanup p s st = (case ts_timer s of None \<Rightarrow> put_object p s st
     | Some _ \<Rightarrow> put_object p (s\<lparr>ts_timer := None\<rparr>) (disarm (ts_timer s) st))"

definition cleanup :: "term_timer \<Rightarrow> terminal_state \<Rightarrow> terminal_state" where
  "cleanup t st = (case session_at st (tt_session t) of None \<Rightarrow> st
     | Some (p, s) \<Rightarrow> if p \<noteq> tt_object t then st
        else close_conns [ts_browser s, ts_agent s] (drop_session (tt_session t) st))"

section \<open>Sessions\<close>

definition suspend_session :: "go_string \<Rightarrow> nat option \<Rightarrow> nat option \<Rightarrow> terminal_state \<Rightarrow> terminal_state" where
  "suspend_session i b a st = (case session_at st i of None \<Rightarrow> st
     | Some (p, s) \<Rightarrow>
       if b \<noteq> None \<and> ts_browser s \<noteq> b \<or> a \<noteq> None \<and> ts_agent s \<noteq> a then st
       else close_conns [ts_browser s, ts_agent s]
         (schedule_cleanup i p (s\<lparr>ts_browser := None, ts_agent := None, ts_forwarding := False\<rparr>) st))"

definition close_session :: "go_string \<Rightarrow> terminal_state \<Rightarrow> terminal_state" where
  "close_session i st = (case session_at st i of None \<Rightarrow> st
     | Some (p, s) \<Rightarrow> close_conns [ts_browser s, ts_agent s] (drop_session i (stop_cleanup p s st)))"

definition attach_browser :: "go_string \<Rightarrow> go_string \<Rightarrow> bool \<Rightarrow> nat \<Rightarrow> terminal_state \<Rightarrow> (term_session option) \<times> terminal_state" where
  "attach_browser i usr key c st = (case session_at st i of None \<Rightarrow> (None, st)
     | Some (p, s) \<Rightarrow>
       if \<not> key \<and> ts_user s \<noteq> usr then (None, st)
       else let s1 = s\<lparr>ts_browser := Some c, ts_forwarding := False\<rparr>;
                st1 = (if ts_agent s \<noteq> None then stop_cleanup p s1 st else put_object p s1 st)
            in (Some s1, if ts_browser s \<noteq> Some c then close_conns [ts_browser s] st1 else st1))"

definition attach_agent :: "go_string \<Rightarrow> nat \<Rightarrow> terminal_state \<Rightarrow> bool \<times> terminal_state" where
  "attach_agent i c st = (case session_at st i of None \<Rightarrow> (False, st)
     | Some (p, s) \<Rightarrow>
       let s1 = s\<lparr>ts_agent := Some c, ts_forwarding := False\<rparr>;
           st1 = (if ts_browser s \<noteq> None then stop_cleanup p s1 st else put_object p s1 st)
       in (True, if ts_agent s \<noteq> Some c then close_conns [ts_agent s] st1 else st1))"

definition maybe_start_forwarding :: "go_string \<Rightarrow> terminal_state \<Rightarrow> terminal_state" where
  "maybe_start_forwarding i st = (case session_at st i of None \<Rightarrow> st
     | Some (p, s) \<Rightarrow> (case (ts_browser s, ts_agent s) of
         (Some b, Some a) \<Rightarrow> if ts_forwarding s then st
           else add_task (Forward i b a) (put_object p (s\<lparr>ts_forwarding := True\<rparr>) st)
       | _ \<Rightarrow> st))"

text \<open>The start of \<^verbatim>\<open>ForwardTerminal\<close>: it ends at once when the session has changed or has no address.\<close>

definition forward_start :: "go_string \<Rightarrow> nat \<Rightarrow> nat \<Rightarrow> terminal_state \<Rightarrow> terminal_state" where
  "forward_start i b a st = (case session_at st i of None \<Rightarrow> st
     | Some (p, s) \<Rightarrow>
       if ts_browser s = Some b \<and> ts_agent s = Some a \<and> ts_ip s \<noteq> [] then foldr add_task [Up i b a, Down i b a, Await i b a] st else st)"

section \<open>Handlers\<close>

text \<open>\<^verbatim>\<open>RequestTerminal\<close> without an identifier: \<open>known\<close>, \<open>code_ok\<close> and \<open>upgraded\<close> are its checks.\<close>

definition request_new ::
  "bool \<Rightarrow> bool \<Rightarrow> bool \<Rightarrow> go_string \<Rightarrow> go_string \<Rightarrow> bool \<Rightarrow> go_string \<Rightarrow> go_string \<Rightarrow> terminal_state \<Rightarrow> terminal_state" where
  "request_new known code_ok upgraded uuid usr key ip i st =
     (if \<not> (known \<and> code_ok \<and> upgraded) \<or> i \<in> fst ` set (tm_ids st) then st
      else let c = tm_conns st; p = tm_next st;
               s = \<lparr>ts_uuid = uuid, ts_user = usr, ts_browser = Some c, ts_agent = None, ts_ip = ip,
                    ts_forwarding = False, ts_timer = None\<rparr>;
               st1 = st\<lparr>tm_conns := c + 1, tm_next := p + 1, tm_browsers := (c, \<lparr>bi_user = usr, bi_key = key\<rparr>) # tm_browsers st,
                        tm_table := AList.update i p (tm_table st), tm_ids := (i, uuid, usr) # tm_ids st\<rparr>
           in add_task (Dispatch i c) (schedule_cleanup i p s st1))"

definition request_existing ::
  "bool \<Rightarrow> bool \<Rightarrow> go_string \<Rightarrow> go_string \<Rightarrow> bool \<Rightarrow> go_string \<Rightarrow> terminal_state \<Rightarrow> terminal_state" where
  "request_existing known upgraded uuid usr key i st = (case session_at st i of None \<Rightarrow> st
     | Some (p, s) \<Rightarrow>
       if \<not> known \<or> ts_uuid s \<noteq> uuid \<or> \<not> (key \<or> ts_user s = usr) \<or> \<not> upgraded then st
       else let c = tm_conns st in
         add_task (Attach i uuid usr key c)
           (st\<lparr>tm_conns := c + 1, tm_browsers := (c, \<lparr>bi_user = usr, bi_key = key\<rparr>) # tm_browsers st\<rparr>))"

text \<open>\<^verbatim>\<open>EstablishConnection\<close>: \<open>auth\<close> is the client the caller was identified as, if any.\<close>

definition establish :: "bool \<Rightarrow> bool \<Rightarrow> go_string option \<Rightarrow> go_string \<Rightarrow> terminal_state \<Rightarrow> terminal_state" where
  "establish ws upgraded auth i st = (case session_at st i of None \<Rightarrow> st
     | Some (p, s) \<Rightarrow>
       if ts_browser s = None \<or> (auth \<noteq> None \<and> auth \<noteq> Some [] \<and> auth \<noteq> Some (ts_uuid s)) \<or> \<not> ws then st
       else if \<not> upgraded then close_session i st
       else let c = tm_conns st in
         add_task (AttachAgent i c) (st\<lparr>tm_conns := c + 1, tm_agents := (c, auth) # tm_agents st\<rparr>))"

text \<open>
  The next part of a task with the outcome of the environment: a step works (\<open>Done\<close>) or fails, and the
  browser may send a message that is a heartbeat or asks to close.  The first of the two relays that
  ends wakes the goroutine that waits for them.
\<close>

datatype term_outcome = Done | Failed | Heartbeat | CloseMessage

definition relay_ends :: "go_string \<Rightarrow> nat \<Rightarrow> nat \<Rightarrow> terminal_state \<Rightarrow> terminal_state" where
  "relay_ends i b a st = (if Await i b a \<in> set (tm_tasks st)
     then add_task (EndRelay i b a) (st\<lparr>tm_tasks := remove1 (Await i b a) (tm_tasks st)\<rparr>) else st)"

definition is_open :: "nat \<Rightarrow> terminal_state \<Rightarrow> bool" where
  "is_open c st \<longleftrightarrow> c \<notin> set (tm_closed st)"

definition relay_up :: "term_outcome \<Rightarrow> go_string \<Rightarrow> nat \<Rightarrow> nat \<Rightarrow> terminal_state \<Rightarrow> terminal_state" where
  "relay_up out i b a st =
     (if \<not> is_open b st \<or> out = Failed then relay_ends i b a st
      else if out = Heartbeat then add_task (Up i b a) st
      else if out = CloseMessage then relay_ends i b a (close_session i st)
      else if \<not> is_open a st then relay_ends i b a st
      else add_task (Up i b a) (st\<lparr>tm_relayed := tm_relayed st @ [(i, b, a, ToAgent)]\<rparr>))"

definition relay_down :: "term_outcome \<Rightarrow> go_string \<Rightarrow> nat \<Rightarrow> nat \<Rightarrow> terminal_state \<Rightarrow> terminal_state" where
  "relay_down out i b a st =
     (if \<not> is_open a st \<or> out \<noteq> Done then relay_ends i b a st
      else if \<not> is_open b st then relay_ends i b a (st\<lparr>tm_lost := tm_lost st @ [(i, b, a)]\<rparr>)
      else add_task (Down i b a) (st\<lparr>tm_relayed := tm_relayed st @ [(i, b, a, ToBrowser)]\<rparr>))"

fun run_task :: "term_outcome \<Rightarrow> term_task \<Rightarrow> terminal_state \<Rightarrow> terminal_state" where
  "run_task out (Dispatch i c) st = (if out = Done then st else close_session i (close_conns [Some c] st))"
| "run_task out (Attach i uuid usr key c) st = (case attach_browser i usr key c st of
       (None, st1) \<Rightarrow> close_conns [Some c] st1
     | (Some s, st1) \<Rightarrow> if ts_uuid s \<noteq> uuid then close_conns [Some c] st1 else add_task (Redispatch i c) st1)"
| "run_task out (Redispatch i c) st = (if out = Done then add_task (MaybeForward i) st else close_session i st)"
| "run_task out (MaybeForward i) st = maybe_start_forwarding i st"
| "run_task out (AttachAgent i c) st = (case attach_agent i c st of
       (False, st1) \<Rightarrow> close_conns [Some c] st1
     | (True, st1) \<Rightarrow> add_task (MaybeForward i) st1)"
| "run_task out (Forward i b a) st = forward_start i b a st"
| "run_task out (Up i b a) st = relay_up out i b a st"
| "run_task out (Down i b a) st = relay_down out i b a st"
| "run_task out (Await i b a) st = add_task (Await i b a) st"
| "run_task out (EndRelay i b a) st = suspend_session i (Some b) (Some a) st"

section \<open>Runs\<close>

datatype term_act =
    RequestNew bool bool bool go_string go_string bool go_string go_string
  | RequestExisting bool bool go_string go_string bool go_string
  | Establish bool bool "go_string option" go_string
  | RunTask term_outcome term_task
  | BrowserClosed go_string nat
  | AgentClosed go_string nat
  | Fire term_timer
  | Cleanup term_timer
  | Pass int

text \<open>A step; an action that is not enabled changes nothing.\<close>

fun term_do :: "term_act \<Rightarrow> terminal_state \<Rightarrow> terminal_state" where
  "term_do (RequestNew known code_ok up uuid usr key ip i) st = request_new known code_ok up uuid usr key ip i st"
| "term_do (RequestExisting known up uuid usr key i) st = request_existing known up uuid usr key i st"
| "term_do (Establish ws up auth i) st = establish ws up auth i st"
| "term_do (RunTask out t) st =
     (if t \<in> set (tm_tasks st) then run_task out t (st\<lparr>tm_tasks := remove1 t (tm_tasks st)\<rparr>) else st)"
| "term_do (BrowserClosed i c) st = suspend_session i (Some c) None st"
| "term_do (AgentClosed i c) st = suspend_session i None (Some c) st"
| "term_do (Fire t) st =
     (if t \<in> set (tm_armed st) \<and> tt_due t \<le> tm_now st
      then st\<lparr>tm_armed := filter (\<lambda>x. x \<noteq> t) (tm_armed st), tm_fired := tm_fired st @ [t]\<rparr> else st)"
| "term_do (Cleanup t) st =
     (if t \<in> set (tm_fired st) then cleanup t (st\<lparr>tm_fired := remove1 t (tm_fired st)\<rparr>) else st)"
| "term_do (Pass d) st = (if 0 \<le> d then st\<lparr>tm_now := tm_now st + d\<rparr> else st)"

definition term_run :: "term_act list \<Rightarrow> terminal_state" where
  "term_run acts = foldl (\<lambda>st a. term_do a st) terminal_start acts"

section \<open>What the code does not mean to do\<close>

definition session_is :: "go_string \<Rightarrow> (term_session \<Rightarrow> bool) \<Rightarrow> terminal_state \<Rightarrow> bool" where
  "session_is i P st = (case session_at st i of None \<Rightarrow> False | Some (p, s) \<Rightarrow> P s)"

definition stale_timer :: term_timer where
  "stale_timer = \<lparr>tt_id = 1, tt_session = ''s1'', tt_object = 0, tt_due = 300\<rparr>"

definition open_acts :: "term_act list" where
  "open_acts = [RequestNew True True True ''c1'' ''u1'' False ''1.2.3.4'' ''s1'', RunTask Done (Dispatch ''s1'' 0),
     Establish True True (Some ''c1'') ''s1'']"

definition late_agent_acts :: "term_act list" where
  "late_agent_acts = open_acts @ [Pass 300, Fire stale_timer, RunTask Done (AttachAgent ''s1'' 1), RunTask Done (MaybeForward ''s1'')]"

definition reattach_acts :: "term_act list" where
  "reattach_acts = open_acts @ [RunTask Done (AttachAgent ''s1'' 1), RunTask Done (MaybeForward ''s1''), RunTask Done (Forward ''s1'' 0 1),
     RequestExisting True True ''c1'' ''u1'' False ''s1'', RunTask Done (Attach ''s1'' ''c1'' ''u1'' False 2),
     RunTask Done (Redispatch ''s1'' 2), RunTask Done (MaybeForward ''s1''), RunTask Done (Forward ''s1'' 2 1),
     RunTask Done (Down ''s1'' 0 1)]"

text \<open>
  A timer that has fired cannot be stopped: an agent that attaches before the timer's goroutine gets the
  mutex is connected, and then the session is removed under it.
\<close>

theorem stale_timer_closes:
  "session_is ''s1'' (\<lambda>s. ts_browser s = Some 0 \<and> ts_agent s = Some 1 \<and> ts_timer s = None) (term_run late_agent_acts) \<and>
   session_at (term_run (late_agent_acts @ [Cleanup stale_timer])) ''s1'' = None \<and>
   tm_closed (term_run (late_agent_acts @ [Cleanup stale_timer])) = [0, 1]"
  by code_simp

text \<open>
  A browser that reattaches while its agent is connected gets a relay of its own next to the old one, which
  goes on reading from the agent: its next output is lost, though the session is connected.
\<close>

theorem reattach_loses_output:
  "session_is ''s1'' (\<lambda>s. ts_browser s = Some 2 \<and> ts_agent s = Some 1 \<and> ts_forwarding s) (term_run reattach_acts) \<and>
   is_open 1 (term_run reattach_acts) \<and> is_open 2 (term_run reattach_acts) \<and> tm_lost (term_run reattach_acts) = [(''s1'', 0, 1)]"
  by code_simp

section \<open>The table\<close>

definition term_wf :: "terminal_state \<Rightarrow> bool" where
  "term_wf st \<longleftrightarrow> distinct (map fst (tm_table st)) \<and> distinct (map snd (tm_table st)) \<and>
     (\<forall>(i, p)\<in>set (tm_table st). p < tm_next st \<and> map_of (tm_heap st) p \<noteq> None \<and> i \<in> fst ` set (tm_ids st)) \<and>
     distinct (map fst (tm_ids st))"

lemma session_at_put:
  assumes "term_wf st" "session_at st i = Some (p, s)"
  shows "session_at (put_object p s' st) j = (if j = i then Some (p, s') else session_at st j)"
proof -
  have i: "map_of (tm_table st) i = Some p" using assms(2) by (auto simp: session_at_def split: option.splits)
  have "j = i" if "map_of (tm_table st) j = Some p"
  proof -
    have "(j, p) \<in> set (tm_table st)" "(i, p) \<in> set (tm_table st)" using that i by (auto dest: map_of_SomeD)
    moreover have "inj_on snd (set (tm_table st))" using assms(1) by (simp add: term_wf_def distinct_map)
    ultimately show ?thesis using inj_onD[of snd "set (tm_table st)" "(j, p)" "(i, p)"] by simp
  qed
  then have "j \<noteq> i \<Longrightarrow> map_of (tm_table st) j \<noteq> Some p" by blast
  then show ?thesis
    by (cases "j = i"; cases "map_of (tm_table st) j") (use i in \<open>simp_all add: session_at_def put_object_def update_conv'\<close>)
qed

lemma session_at_drop: "session_at (drop_session i st) j = (if j = i then None else session_at st j)"
  by (auto simp: session_at_def drop_session_def delete_conv' split: option.splits)

lemma session_at_cong:
  "tm_table st' = tm_table st \<Longrightarrow> tm_heap st' = tm_heap st \<Longrightarrow> session_at st' i = session_at st i"
  by (auto simp: session_at_def split: option.splits)

lemma term_wf_put: "term_wf st \<Longrightarrow> term_wf (put_object p s st)"
  by (auto simp: term_wf_def put_object_def update_conv')

lemma term_wf_drop: "term_wf st \<Longrightarrow> term_wf (drop_session i st)"
  by (auto simp: term_wf_def drop_session_def AList.delete_eq distinct_map_filter)

lemma term_wf_same:
  "term_wf st \<Longrightarrow> tm_table st' = tm_table st \<Longrightarrow> tm_heap st' = tm_heap st \<Longrightarrow> tm_next st \<le> tm_next st' \<Longrightarrow>
   tm_ids st' = tm_ids st \<Longrightarrow> term_wf st'"
  by (fastforce simp: term_wf_def)

lemma session_in_ids: "term_wf st \<Longrightarrow> session_at st i = Some (p, s) \<Longrightarrow> p < tm_next st"
  by (auto simp: session_at_def term_wf_def dest!: map_of_SomeD split: option.splits)

lemma term_fields [simp]:
  "tm_ids (put_object p s st) = tm_ids st" "tm_browsers (put_object p s st) = tm_browsers st"
  "tm_agents (put_object p s st) = tm_agents st" "tm_tasks (put_object p s st) = tm_tasks st"
  "tm_relayed (put_object p s st) = tm_relayed st" "tm_armed (put_object p s st) = tm_armed st"
  "tm_fired (put_object p s st) = tm_fired st" "tm_now (put_object p s st) = tm_now st" "tm_next (put_object p s st) = tm_next st"
  "tm_ids (drop_session i st) = tm_ids st" "tm_browsers (drop_session i st) = tm_browsers st"
  "tm_agents (drop_session i st) = tm_agents st" "tm_tasks (drop_session i st) = tm_tasks st"
  "tm_relayed (drop_session i st) = tm_relayed st" "tm_armed (drop_session i st) = tm_armed st"
  "tm_fired (drop_session i st) = tm_fired st" "tm_now (drop_session i st) = tm_now st" "tm_next (drop_session i st) = tm_next st"
  "tm_ids (close_conns cs st) = tm_ids st" "tm_browsers (close_conns cs st) = tm_browsers st"
  "tm_agents (close_conns cs st) = tm_agents st" "tm_tasks (close_conns cs st) = tm_tasks st"
  "tm_relayed (close_conns cs st) = tm_relayed st" "tm_armed (close_conns cs st) = tm_armed st"
  "tm_fired (close_conns cs st) = tm_fired st" "tm_now (close_conns cs st) = tm_now st" "tm_next (close_conns cs st) = tm_next st"
  "tm_ids (add_task t st) = tm_ids st" "tm_browsers (add_task t st) = tm_browsers st"
  "tm_agents (add_task t st) = tm_agents st" "tm_tasks (add_task t st) = tm_tasks st @ [t]"
  "tm_relayed (add_task t st) = tm_relayed st" "tm_armed (add_task t st) = tm_armed st"
  "tm_fired (add_task t st) = tm_fired st" "tm_now (add_task t st) = tm_now st" "tm_next (add_task t st) = tm_next st"
  "tm_ids (disarm n st) = tm_ids st" "tm_browsers (disarm n st) = tm_browsers st"
  "tm_agents (disarm n st) = tm_agents st" "tm_tasks (disarm n st) = tm_tasks st"
  "tm_relayed (disarm n st) = tm_relayed st" "tm_armed (disarm n st) = filter (\<lambda>x. n \<noteq> Some (tt_id x)) (tm_armed st)"
  "tm_fired (disarm n st) = tm_fired st" "tm_now (disarm n st) = tm_now st" "tm_next (disarm n st) = tm_next st"
  by (simp_all add: put_object_def drop_session_def close_conns_def add_task_def disarm_def)

lemma session_at_same [simp]:
  "session_at (close_conns cs st) i = session_at st i" "session_at (add_task t st) i = session_at st i"
  "session_at (disarm n st) i = session_at st i"
  by (intro session_at_cong; simp add: close_conns_def add_task_def disarm_def)+

lemma term_wf_parts [simp]:
  "term_wf (close_conns cs st) = term_wf st" "term_wf (add_task t st) = term_wf st" "term_wf (disarm n st) = term_wf st"
  by (simp_all add: term_wf_def close_conns_def add_task_def disarm_def)

text \<open>What an operation leaves of the others: who is attached, and the tasks.\<close>

definition shrinks :: "terminal_state \<Rightarrow> terminal_state \<Rightarrow> bool" where
  "shrinks st st' \<longleftrightarrow> tm_ids st' = tm_ids st \<and> tm_browsers st' = tm_browsers st \<and> tm_agents st' = tm_agents st \<and>
     tm_tasks st' = tm_tasks st \<and> tm_relayed st' = tm_relayed st \<and> (term_wf st \<longrightarrow> term_wf st' \<and>
     (\<forall>i p s'. session_at st' i = Some (p, s') \<longrightarrow> (\<exists>s. session_at st i = Some (p, s) \<and> ts_uuid s' = ts_uuid s \<and>
        ts_user s' = ts_user s \<and> ts_browser s' \<in> {None, ts_browser s} \<and> ts_agent s' \<in> {None, ts_agent s})))"

lemma shrinks_refl [simp]: "shrinks st st"
  by (simp add: shrinks_def)

lemma shrinks_close [simp]: "shrinks st (close_conns cs st') = shrinks st st'"
  by (simp add: shrinks_def)

lemma shrinks_drop: "shrinks st st' \<Longrightarrow> shrinks st (drop_session i st')"
  by (auto simp: shrinks_def session_at_drop intro: term_wf_drop)

lemma shrinks_put:
  assumes "session_at st i = Some (p, s)" "ts_uuid s' = ts_uuid s" "ts_user s' = ts_user s"
    "ts_browser s' \<in> {None, ts_browser s}" "ts_agent s' \<in> {None, ts_agent s}"
  shows "shrinks st (put_object p s' st)"
  using assms session_at_put[OF _ assms(1), of s'] by (auto simp: shrinks_def term_wf_put split: if_splits)

definition timer_bump :: "term_timer list \<Rightarrow> terminal_state \<Rightarrow> terminal_state" where
  "timer_bump ts st = st\<lparr>tm_armed := ts, tm_next := tm_next st + 1\<rparr>"

lemma timer_bump_fields [simp]:
  "tm_ids (timer_bump ts st) = tm_ids st" "tm_browsers (timer_bump ts st) = tm_browsers st"
  "tm_agents (timer_bump ts st) = tm_agents st" "tm_tasks (timer_bump ts st) = tm_tasks st"
  "tm_relayed (timer_bump ts st) = tm_relayed st" "tm_armed (timer_bump ts st) = ts"
  "tm_fired (timer_bump ts st) = tm_fired st" "tm_now (timer_bump ts st) = tm_now st"
  "tm_next (timer_bump ts st) = Suc (tm_next st)" "session_at (timer_bump ts st) i = session_at st i"
  by (simp_all add: timer_bump_def) (rule session_at_cong; simp)

lemma timer_bump_wf: "term_wf st \<Longrightarrow> term_wf (timer_bump ts st)"
  by (rule term_wf_same[of st]) (simp_all add: timer_bump_def)

definition new_timer :: "go_string \<Rightarrow> nat \<Rightarrow> terminal_state \<Rightarrow> term_timer" where
  "new_timer i p st = \<lparr>tt_id = tm_next st, tt_session = i, tt_object = p, tt_due = tm_now st + terminal_retention\<rparr>"

lemma schedule_alt:
  "schedule_cleanup i p s st = put_object p (s\<lparr>ts_timer := Some (tm_next st)\<rparr>)
     (timer_bump (tm_armed (disarm (ts_timer s) st) @ [new_timer i p st]) (disarm (ts_timer s) st))"
  by (simp add: schedule_cleanup_def timer_bump_def new_timer_def Let_def)

lemma shrinks_bump: "shrinks st st' \<Longrightarrow> shrinks st (timer_bump ts st')"
  by (auto simp: shrinks_def timer_bump_wf)

lemma shrinks_disarm: "shrinks st st' \<Longrightarrow> shrinks st (disarm n st')"
  by (simp add: shrinks_def)

lemma shrinks_trans: "shrinks st st1 \<Longrightarrow> shrinks st1 st2 \<Longrightarrow> shrinks st st2"
  unfolding shrinks_def by (simp; metis insert_iff singletonD)

lemma shrinks_schedule:
  assumes "session_at st i = Some (p, s)" "ts_uuid s' = ts_uuid s" "ts_user s' = ts_user s"
    "ts_browser s' \<in> {None, ts_browser s}" "ts_agent s' \<in> {None, ts_agent s}"
  shows "shrinks st (schedule_cleanup i p s' st)"
  unfolding schedule_alt
  by (rule shrinks_trans[OF shrinks_bump[OF shrinks_disarm[OF shrinks_refl]] shrinks_put]) (use assms in auto)

lemma shrinks_stop:
  assumes "session_at st i = Some (p, s)" "ts_uuid s' = ts_uuid s" "ts_user s' = ts_user s"
    "ts_browser s' \<in> {None, ts_browser s}" "ts_agent s' \<in> {None, ts_agent s}"
  shows "shrinks st (stop_cleanup p s' st)"
  unfolding stop_cleanup_def
  by (cases "ts_timer s'")
    (use assms in \<open>auto intro: shrinks_put shrinks_trans[OF shrinks_disarm[OF shrinks_refl] shrinks_put]\<close>)

lemma shrinks_suspend: "shrinks st (suspend_session i b a st)"
  by (auto simp: suspend_session_def intro!: shrinks_schedule split: option.splits)

lemma shrinks_close_session: "shrinks st (close_session i st)"
  by (auto simp: close_session_def intro!: shrinks_drop shrinks_stop split: option.splits)

lemma shrinks_cleanup: "shrinks st (cleanup t st)"
  by (auto simp: cleanup_def intro!: shrinks_drop split: option.splits)

section \<open>Who is connected to whom\<close>

definition browser_ok :: "terminal_state \<Rightarrow> go_string \<Rightarrow> nat \<Rightarrow> bool" where
  "browser_ok st i b \<longleftrightarrow> (\<exists>uuid usr inf. (i, uuid, usr) \<in> set (tm_ids st) \<and> (b, inf) \<in> set (tm_browsers st) \<and>
     (bi_key inf \<or> bi_user inf = usr))"

definition agent_ok :: "terminal_state \<Rightarrow> go_string \<Rightarrow> nat \<Rightarrow> bool" where
  "agent_ok st i a \<longleftrightarrow> (\<exists>uuid usr auth. (i, uuid, usr) \<in> set (tm_ids st) \<and> (a, auth) \<in> set (tm_agents st) \<and>
     auth \<in> {None, Some [], Some uuid})"

definition task_ok :: "terminal_state \<Rightarrow> term_task \<Rightarrow> bool" where
  "task_ok st t = (case t of Attach i uuid usr key c \<Rightarrow> (c, \<lparr>bi_user = usr, bi_key = key\<rparr>) \<in> set (tm_browsers st)
     | AttachAgent i c \<Rightarrow> agent_ok st i c
     | Forward i b a \<Rightarrow> browser_ok st i b \<and> agent_ok st i a | Up i b a \<Rightarrow> browser_ok st i b \<and> agent_ok st i a
     | Down i b a \<Rightarrow> browser_ok st i b \<and> agent_ok st i a | _ \<Rightarrow> True)"

definition object_ok :: "terminal_state \<Rightarrow> go_string \<Rightarrow> term_session \<Rightarrow> bool" where
  "object_ok st i s \<longleftrightarrow> (i, ts_uuid s, ts_user s) \<in> set (tm_ids st) \<and>
     (\<forall>b. ts_browser s = Some b \<longrightarrow> browser_ok st i b) \<and> (\<forall>a. ts_agent s = Some a \<longrightarrow> agent_ok st i a)"

definition linked :: "terminal_state \<Rightarrow> bool" where
  "linked st \<longleftrightarrow> term_wf st \<and> (\<forall>i p s. session_at st i = Some (p, s) \<longrightarrow> object_ok st i s) \<and>
     (\<forall>t\<in>set (tm_tasks st). task_ok st t) \<and>
     (\<forall>(i, b, a, d)\<in>set (tm_relayed st). browser_ok st i b \<and> agent_ok st i a)"

definition grows :: "terminal_state \<Rightarrow> terminal_state \<Rightarrow> bool" where
  "grows st st' \<longleftrightarrow> set (tm_ids st) \<subseteq> set (tm_ids st') \<and> set (tm_browsers st) \<subseteq> set (tm_browsers st') \<and>
     set (tm_agents st) \<subseteq> set (tm_agents st')"

lemma ok_mono:
  assumes "grows st st'"
  shows "browser_ok st i b \<Longrightarrow> browser_ok st' i b" "agent_ok st i a \<Longrightarrow> agent_ok st' i a"
    "task_ok st t \<Longrightarrow> task_ok st' t" "object_ok st i s \<Longrightarrow> object_ok st' i s"
proof -
  show b: "browser_ok st i b \<Longrightarrow> browser_ok st' i b" for i b
    using assms unfolding browser_ok_def grows_def by blast
  show a: "agent_ok st i a \<Longrightarrow> agent_ok st' i a" for i a
    using assms unfolding agent_ok_def grows_def by blast
  show "task_ok st t \<Longrightarrow> task_ok st' t"
    using a b assms by (cases t) (auto simp: task_ok_def grows_def)
  show "object_ok st i s \<Longrightarrow> object_ok st' i s"
    using a b assms by (auto simp: object_ok_def grows_def)
qed

lemma linked_wf: "linked st \<Longrightarrow> term_wf st"
  by (simp add: linked_def)

lemma ok_same:
  assumes "tm_ids st' = tm_ids st" "tm_browsers st' = tm_browsers st" "tm_agents st' = tm_agents st"
  shows "browser_ok st' i b = browser_ok st i b" "agent_ok st' i a = agent_ok st i a" "task_ok st' t = task_ok st t"
    "object_ok st' i s = object_ok st i s"
proof -
  have g: "grows st st'" "grows st' st" using assms by (simp_all add: grows_def)
  show "browser_ok st' i b = browser_ok st i b" "agent_ok st' i a = agent_ok st i a" "task_ok st' t = task_ok st t"
      "object_ok st' i s = object_ok st i s"
    using ok_mono[OF g(1)] ok_mono[OF g(2)] by blast+
qed

lemmas ok_parts [simp] = ok_same[of "add_task x st" st for x st, simplified] ok_same[of "close_conns x st" st for x st, simplified]
  ok_same[of "disarm x st" st for x st, simplified] ok_same[of "put_object p x st" st for p x st, simplified]

lemma linkedI:
  assumes "linked st" "term_wf st'" "grows st st'"
    "\<And>i p s. session_at st' i = Some (p, s) \<Longrightarrow> object_ok st' i s"
    "\<And>t. t \<in> set (tm_tasks st') \<Longrightarrow> t \<in> set (tm_tasks st) \<or> task_ok st' t"
    "\<And>i b a d. (i, b, a, d) \<in> set (tm_relayed st') \<Longrightarrow> (i, b, a, d) \<in> set (tm_relayed st) \<or> browser_ok st' i b \<and> agent_ok st' i a"
  shows "linked st'"
  using assms(1,2,4-) ok_mono[OF assms(3)] unfolding linked_def by fast

lemma linked_object: "linked st \<Longrightarrow> session_at st i = Some (p, s) \<Longrightarrow> object_ok st i s"
  unfolding linked_def by blast

lemma linked_shrinks:
  assumes "linked st" "shrinks st st'"
  shows "linked st'"
proof -
  have eqs: "tm_ids st' = tm_ids st" "tm_browsers st' = tm_browsers st" "tm_agents st' = tm_agents st"
      "tm_tasks st' = tm_tasks st" "tm_relayed st' = tm_relayed st"
    using assms(2) by (simp_all add: shrinks_def)
  note ok = ok_same[OF eqs(1-3)]
  have "object_ok st' i s'" if s': "session_at st' i = Some (p, s')" for i p s'
  proof -
    obtain s where s: "session_at st i = Some (p, s)" "ts_uuid s' = ts_uuid s" "ts_user s' = ts_user s"
        "ts_browser s' \<in> {None, ts_browser s}" "ts_agent s' \<in> {None, ts_agent s}"
      using assms(2) linked_wf[OF assms(1)] s' unfolding shrinks_def by blast
    have "object_ok st i s" using linked_object[OF assms(1) s(1)] .
    then have "object_ok st i s'" using s(2-) by (auto simp: object_ok_def)
    then show ?thesis by (simp add: ok)
  qed
  moreover have "term_wf st'" using assms(2) linked_wf[OF assms(1)] by (simp add: shrinks_def)
  ultimately show ?thesis using assms(1) unfolding linked_def eqs ok by blast
qed

lemma linked_add_task: "linked st \<Longrightarrow> task_ok st t \<Longrightarrow> linked (add_task t st)"
  unfolding linked_def by (simp add: ball_Un)

lemma linked_fewer:
  assumes "linked st" "set (tm_tasks st') \<subseteq> set (tm_tasks st)" "tm_ids st' = tm_ids st" "tm_browsers st' = tm_browsers st"
    "tm_agents st' = tm_agents st" "tm_table st' = tm_table st" "tm_heap st' = tm_heap st" "tm_next st' = tm_next st"
    "tm_relayed st' = tm_relayed st"
  shows "linked st'"
proof (rule linkedI[OF assms(1)])
  show wf: "term_wf st'" by (rule term_wf_same[OF linked_wf[OF assms(1)]]) (use assms in auto)
  show g: "grows st st'" using assms by (simp add: grows_def)
  fix i p s assume "session_at st' i = Some (p, s)"
  then have "session_at st i = Some (p, s)" using session_at_cong[of st' st i] assms by simp
  then show "object_ok st' i s" using linked_object[OF assms(1)] ok_mono(4)[OF g] by blast
qed (use assms(2,9) in auto)

lemma linked_close [simp]: "linked (close_conns cs st) = linked st"
  by (simp add: linked_def)

text \<open>Attaching changes one end of one session.\<close>

lemma linked_put:
  assumes "linked st" "session_at st i = Some (p, s)" "object_ok st i s'"
  shows "linked (put_object p s' st)"
proof (rule linkedI[OF assms(1)])
  have wf: "term_wf st" using assms(1) by (rule linked_wf)
  then show "term_wf (put_object p s' st)" by (rule term_wf_put)
  show g: "grows st (put_object p s' st)" by (simp add: grows_def)
  fix j q r assume "session_at (put_object p s' st) j = Some (q, r)"
  then have "object_ok st j r"
    using assms(3) linked_object[OF assms(1)] by (auto simp: session_at_put[OF wf assms(2)] split: if_splits)
  then show "object_ok (put_object p s' st) j r" using ok_mono(4)[OF g] by simp
qed auto

lemma linked_stop:
  assumes "linked st" "session_at st i = Some (p, s)" "object_ok st i s'"
  shows "linked (stop_cleanup p s' st)"
proof (cases "ts_timer s'")
  case None
  then show ?thesis using linked_put[OF assms] by (simp add: stop_cleanup_def)
next
  case (Some n)
  have "linked (disarm (Some n) st)" using assms(1) by (rule linked_shrinks) (simp add: shrinks_disarm)
  moreover have "object_ok (disarm (Some n) st) i (s'\<lparr>ts_timer := None\<rparr>)"
    using assms(3) by (simp add: object_ok_def)
  ultimately show ?thesis
    using linked_put[of "disarm (Some n) st" i p s] assms(2) Some by (simp add: stop_cleanup_def)
qed

lemma linked_attach_browser:
  assumes "linked st" "(c, \<lparr>bi_user = usr, bi_key = key\<rparr>) \<in> set (tm_browsers st)"
  shows "linked (snd (attach_browser i usr key c st))"
proof (cases "session_at st i")
  case None
  then show ?thesis using assms(1) by (simp add: attach_browser_def)
next
  case (Some ps)
  obtain p s where ps: "ps = (p, s)" by force
  have s: "session_at st i = Some (p, s)" using Some ps by simp
  have o: "object_ok st i s" using linked_object[OF assms(1) s] .
  have "object_ok st i (s\<lparr>ts_browser := Some c, ts_forwarding := False\<rparr>)" if "key \<or> ts_user s = usr"
    using o assms(2) that unfolding object_ok_def browser_ok_def by fastforce
  then show ?thesis
    using assms(1) linked_stop[OF assms(1) s] linked_put[OF assms(1) s] by (auto simp: attach_browser_def s Let_def)
qed

lemma attach_browser_same:
  "tm_browsers (snd (attach_browser i usr key c st)) = tm_browsers st" "tm_ids (snd (attach_browser i usr key c st)) = tm_ids st"
  "tm_agents (snd (attach_browser i usr key c st)) = tm_agents st"
  by (auto simp: attach_browser_def stop_cleanup_def Let_def split: option.splits)

lemma linked_attach_agent:
  assumes "linked st" "agent_ok st i c"
  shows "linked (snd (attach_agent i c st))"
proof (cases "session_at st i")
  case None
  then show ?thesis using assms(1) by (simp add: attach_agent_def)
next
  case (Some ps)
  obtain p s where ps: "ps = (p, s)" by force
  have s: "session_at st i = Some (p, s)" using Some ps by simp
  have "object_ok st i (s\<lparr>ts_agent := Some c, ts_forwarding := False\<rparr>)"
    using linked_object[OF assms(1) s] assms(2) by (simp add: object_ok_def)
  then show ?thesis
    using linked_stop[OF assms(1) s] linked_put[OF assms(1) s] by (auto simp: attach_agent_def s Let_def)
qed

lemma linked_maybe_start:
  assumes "linked st"
  shows "linked (maybe_start_forwarding i st)"
proof (cases "session_at st i")
  case None
  then show ?thesis using assms by (simp add: maybe_start_forwarding_def)
next
  case (Some ps)
  obtain p s where ps: "ps = (p, s)" by force
  have s: "session_at st i = Some (p, s)" using Some ps by simp
  have o: "object_ok st i s" using linked_object[OF assms s] .
  then have "object_ok st i (s\<lparr>ts_forwarding := True\<rparr>)" by (simp add: object_ok_def)
  then have put: "linked (put_object p (s\<lparr>ts_forwarding := True\<rparr>) st)" by (rule linked_put[OF assms s])
  have "task_ok (put_object p (s\<lparr>ts_forwarding := True\<rparr>) st) (Forward i b a)" if "ts_browser s = Some b" "ts_agent s = Some a" for b a
    using o that by (simp add: object_ok_def task_ok_def)
  then show ?thesis
    using assms linked_add_task[OF put] by (auto simp: maybe_start_forwarding_def s split: option.splits)
qed

lemma linked_forward_start:
  assumes "linked st" "browser_ok st i b" "agent_ok st i a"
  shows "linked (forward_start i b a st)"
proof -
  have "task_ok st (Up i b a)" "task_ok st (Down i b a)" "task_ok st (Await i b a)" using assms by (simp_all add: task_ok_def)
  then have "linked (foldr add_task [Up i b a, Down i b a, Await i b a] st)" using assms(1) by (simp add: linked_add_task)
  then show ?thesis using assms(1) by (auto simp: forward_start_def split: option.splits)
qed

lemma linked_relay_ends:
  assumes "linked st"
  shows "linked (relay_ends i b a st)"
proof -
  have "linked (st\<lparr>tm_tasks := remove1 (Await i b a) (tm_tasks st)\<rparr>)"
    using assms by (rule linked_fewer) (simp_all add: set_remove1_subset)
  then show ?thesis using assms by (auto simp: relay_ends_def task_ok_def intro: linked_add_task)
qed

lemma linked_relayed:
  assumes "linked st" "browser_ok st i b" "agent_ok st i a"
  shows "linked (st\<lparr>tm_relayed := tm_relayed st @ [(i, b, a, d)]\<rparr>)"
proof (rule linkedI[OF assms(1)])
  let ?st = "st\<lparr>tm_relayed := tm_relayed st @ [(i, b, a, d)]\<rparr>"
  show "term_wf ?st" by (rule term_wf_same[OF linked_wf[OF assms(1)]]) auto
  show g: "grows st ?st" by (simp add: grows_def)
  fix j p s assume "session_at ?st j = Some (p, s)"
  then have "session_at st j = Some (p, s)" using session_at_cong[of ?st st j] by simp
  then show "object_ok ?st j s" using linked_object[OF assms(1)] ok_mono(4)[OF g] by blast
next
  fix j b' a' e assume "(j, b', a', e) \<in> set (tm_relayed (st\<lparr>tm_relayed := tm_relayed st @ [(i, b, a, d)]\<rparr>))"
  moreover have "browser_ok (st\<lparr>tm_relayed := tm_relayed st @ [(i, b, a, d)]\<rparr>) i b = browser_ok st i b"
      "agent_ok (st\<lparr>tm_relayed := tm_relayed st @ [(i, b, a, d)]\<rparr>) i a = agent_ok st i a" by (rule ok_same; simp)+
  ultimately show "(j, b', a', e) \<in> set (tm_relayed st) \<or> browser_ok (st\<lparr>tm_relayed := tm_relayed st @ [(i, b, a, d)]\<rparr>) j b' \<and>
      agent_ok (st\<lparr>tm_relayed := tm_relayed st @ [(i, b, a, d)]\<rparr>) j a'" using assms(2,3) by auto
qed simp

lemma grows_tasks: "task_ok (st\<lparr>tm_relayed := r\<rparr>) t = task_ok st t" "task_ok (st\<lparr>tm_lost := l\<rparr>) t = task_ok st t"
  by (rule ok_same; simp)+

lemma linked_relay_up:
  assumes "linked st" "browser_ok st i b" "agent_ok st i a"
  shows "linked (relay_up out i b a st)"
proof -
  have "linked (close_session i st)" using assms(1) shrinks_close_session by (rule linked_shrinks)
  moreover have "task_ok st (Up i b a)" using assms by (simp add: task_ok_def)
  ultimately show ?thesis
    using assms linked_relayed[OF assms]
    by (auto simp: relay_up_def grows_tasks intro!: linked_add_task linked_relay_ends)
qed

lemma linked_relay_down:
  assumes "linked st" "browser_ok st i b" "agent_ok st i a"
  shows "linked (relay_down out i b a st)"
proof -
  have "linked (st\<lparr>tm_lost := l\<rparr>)" for l using assms(1) by (rule linked_fewer) simp_all
  moreover have "task_ok st (Down i b a)" using assms by (simp add: task_ok_def)
  ultimately show ?thesis
    using assms linked_relayed[OF assms]
    by (auto simp: relay_down_def grows_tasks intro!: linked_add_task linked_relay_ends)
qed

lemma linked_run_task:
  assumes "linked st" "task_ok st t"
  shows "linked (run_task out t st)"
proof (cases t)
  case (Attach i uuid usr key c)
  have "linked (snd (attach_browser i usr key c st))"
    by (rule linked_attach_browser) (use assms Attach in \<open>simp_all add: task_ok_def\<close>)
  then show ?thesis
    by (cases "attach_browser i usr key c st") (simp add: Attach linked_add_task task_ok_def split: option.split)
next
  case (AttachAgent i c)
  have "linked (snd (attach_agent i c st))"
    by (rule linked_attach_agent) (use assms AttachAgent in \<open>simp_all add: task_ok_def\<close>)
  then show ?thesis
    by (cases "attach_agent i c st") (simp add: AttachAgent linked_add_task task_ok_def split: bool.split)
next
  case (EndRelay i b a)
  show ?thesis using linked_shrinks[OF assms(1) shrinks_suspend] by (simp add: EndRelay)
next
  case (Dispatch i c)
  have "linked (close_conns [Some c] st)" using assms(1) by simp
  then show ?thesis using assms(1) linked_shrinks[OF _ shrinks_close_session] by (simp add: Dispatch)
next
  case (Redispatch i c)
  have "linked (close_session i st)" using assms(1) shrinks_close_session by (rule linked_shrinks)
  then show ?thesis using assms(1) by (simp add: Redispatch linked_add_task task_ok_def)
qed (use assms in \<open>simp_all add: linked_maybe_start linked_forward_start linked_relay_up linked_relay_down task_ok_def linked_add_task\<close>)

lemma update_fresh: "k \<notin> fst ` set al \<Longrightarrow> AList.update k v al = al @ [(k, v)]"
  by (induction al) auto

text \<open>A new session, and a new connection of an existing one.\<close>

lemma linked_new_session:
  assumes "linked st" "i \<notin> fst ` set (tm_ids st)"
  shows "linked (st\<lparr>tm_conns := tm_conns st + 1, tm_next := tm_next st + 1,
    tm_browsers := (tm_conns st, \<lparr>bi_user = usr, bi_key = key\<rparr>) # tm_browsers st,
    tm_table := AList.update i (tm_next st) (tm_table st), tm_ids := (i, uuid, usr) # tm_ids st,
    tm_heap := AList.update (tm_next st) \<lparr>ts_uuid = uuid, ts_user = usr, ts_browser = Some (tm_conns st), ts_agent = None,
      ts_ip = ip, ts_forwarding = False, ts_timer = None\<rparr> (tm_heap st)\<rparr>)" (is "linked ?st")
proof (rule linkedI[OF assms(1)])
  have wf: "term_wf st" using assms(1) by (rule linked_wf)
  have fresh: "map_of (tm_table st) i = None" "tm_next st \<notin> snd ` set (tm_table st)"
    using wf assms(2) by (force simp: term_wf_def map_of_eq_None_iff)+
  then have upd: "AList.update i (tm_next st) (tm_table st) = tm_table st @ [(i, tm_next st)]"
    by (simp add: update_fresh map_of_eq_None_iff)
  show "term_wf ?st"
    using wf assms(2) fresh(2) fresh(1)[unfolded map_of_eq_None_iff] unfolding term_wf_def upd
    by (auto simp: update_conv')
  show g: "grows st ?st" by (auto simp: grows_def)
  fix j p s assume j: "session_at ?st j = Some (p, s)"
  show "object_ok ?st j s"
  proof (cases "j = i")
    case True
    then show ?thesis using j fresh by (fastforce simp: session_at_def update_conv' object_ok_def browser_ok_def)
  next
    case False
    then have "map_of (tm_table st) j = Some p" using j by (auto simp: session_at_def update_conv' split: option.splits)
    then have "p \<noteq> tm_next st" using fresh(2) by (force dest: map_of_SomeD)
    then have "session_at st j = Some (p, s)" using j False by (auto simp: session_at_def update_conv' split: option.splits)
    then show ?thesis using linked_object[OF assms(1)] ok_mono(4)[OF g] by blast
  qed
qed simp_all

lemma linked_new_conn:
  assumes "linked st" "tm_ids st' = tm_ids st" "tm_table st' = tm_table st" "tm_heap st' = tm_heap st" "tm_next st' = tm_next st"
    "tm_tasks st' = tm_tasks st" "tm_relayed st' = tm_relayed st" "grows st st'"
  shows "linked st'"
proof (rule linkedI[OF assms(1) _ assms(8)])
  show "term_wf st'" by (rule term_wf_same[OF linked_wf[OF assms(1)]]) (use assms in auto)
  fix i p s assume "session_at st' i = Some (p, s)"
  then have "session_at st i = Some (p, s)" using session_at_cong[OF assms(3,4)] by simp
  then show "object_ok st' i s" using linked_object[OF assms(1)] ok_mono(4)[OF assms(8)] by blast
qed (use assms in auto)

lemma linked_schedule_new:
  assumes "linked (st\<lparr>tm_heap := AList.update p s (tm_heap st)\<rparr>)" "map_of (tm_table st) i = Some p" "ts_timer s = None"
  shows "linked (schedule_cleanup i p s st)"
proof -
  let ?st = "put_object p s st"
  have put: "linked ?st" using assms(1) by (simp add: put_object_def)
  have s: "session_at ?st i = Some (p, s)" using assms(2) by (simp add: session_at_def put_object_def update_conv')
  have eq: "schedule_cleanup i p s st = schedule_cleanup i p s ?st"
    by (simp add: schedule_cleanup_def put_object_def disarm_def Let_def)
  show ?thesis unfolding eq by (rule linked_shrinks[OF put shrinks_schedule[OF s]]) auto
qed

lemma linked_request_new:
  assumes "linked st"
  shows "linked (request_new known code_ok up uuid usr key ip i st)"
proof (cases "known \<and> code_ok \<and> up \<and> i \<notin> fst ` set (tm_ids st)")
  case True
  then show ?thesis
    using linked_new_session[OF assms, where i = i and usr = usr and key = key and uuid = uuid and ip = ip]
    by (auto simp: request_new_def Let_def update_conv' task_ok_def intro!: linked_add_task linked_schedule_new)
next
  case False
  then show ?thesis using assms by (auto simp: request_new_def)
qed

lemma linked_request_existing:
  assumes "linked st"
  shows "linked (request_existing known up uuid usr key i st)"
proof -
  have "linked (st\<lparr>tm_conns := n, tm_browsers := (c, inf) # tm_browsers st\<rparr>)" for n c inf
    using assms by (rule linked_new_conn) (auto simp: grows_def)
  then show ?thesis
    using assms by (auto simp: request_existing_def Let_def task_ok_def intro!: linked_add_task split: option.splits)
qed

lemma linked_establish:
  assumes "linked st"
  shows "linked (establish ws up auth i st)"
proof (cases "session_at st i")
  case None
  then show ?thesis using assms by (simp add: establish_def)
next
  case (Some ps)
  obtain p s where ps: "ps = (p, s)" by force
  have s: "session_at st i = Some (p, s)" using Some ps by simp
  have grown: "linked (st\<lparr>tm_conns := n, tm_agents := (c, auth) # tm_agents st\<rparr>)" for n c
    using assms by (rule linked_new_conn) (auto simp: grows_def)
  have "(i, ts_uuid s, ts_user s) \<in> set (tm_ids st)" using linked_object[OF assms s] by (simp add: object_ok_def)
  then have "auth \<in> {None, Some [], Some (ts_uuid s)} \<Longrightarrow>
      agent_ok (st\<lparr>tm_conns := n, tm_agents := (c, auth) # tm_agents st\<rparr>) i c" for n c
    unfolding agent_ok_def by (simp; blast)
  then show ?thesis
    using assms grown linked_shrinks[OF assms shrinks_close_session]
    by (auto simp: establish_def s Let_def task_ok_def intro!: linked_add_task)
qed

lemma linked_do:
  assumes "linked st"
  shows "linked (term_do a st)"
proof (cases a)
  case (RunTask out t)
  let ?st = "st\<lparr>tm_tasks := remove1 t (tm_tasks st)\<rparr>"
  have "linked ?st" using assms by (rule linked_fewer) (simp_all add: set_remove1_subset)
  moreover have "task_ok ?st t" if "t \<in> set (tm_tasks st)"
  proof -
    have "task_ok st t" using that assms unfolding linked_def by blast
    then show ?thesis using ok_same(3)[of ?st st t] by simp
  qed
  ultimately show ?thesis using assms by (simp add: RunTask linked_run_task)
next
  case (Cleanup t)
  have "linked (st\<lparr>tm_fired := remove1 t (tm_fired st)\<rparr>)" using assms by (rule linked_fewer) simp_all
  then show ?thesis using assms by (simp add: Cleanup linked_shrinks[OF _ shrinks_cleanup])
next
  case (Fire t)
  have "linked (st\<lparr>tm_armed := x, tm_fired := y\<rparr>)" for x y using assms by (rule linked_fewer) simp_all
  then show ?thesis using assms by (simp add: Fire)
next
  case (Pass d)
  have "linked (st\<lparr>tm_now := x\<rparr>)" for x using assms by (rule linked_fewer) simp_all
  then show ?thesis using assms by (simp add: Pass)
next
  case (BrowserClosed i c)
  show ?thesis using linked_shrinks[OF assms shrinks_suspend] by (simp add: BrowserClosed)
next
  case (AgentClosed i c)
  show ?thesis using linked_shrinks[OF assms shrinks_suspend] by (simp add: AgentClosed)
qed (use assms in \<open>simp_all add: linked_request_new linked_request_existing linked_establish\<close>)

lemma linked_run: "linked (term_run acts)"
proof -
  have "linked terminal_start" by (simp add: linked_def term_wf_def terminal_start_def session_at_def)
  then have "linked (foldl (\<lambda>st a. term_do a st) terminal_start acts)"
    by (induction acts rule: rev_induct) (simp_all add: linked_do)
  then show ?thesis by (simp add: term_run_def)
qed

section \<open>Sessions that wait are removed\<close>

definition pending :: "terminal_state \<Rightarrow> term_timer set" where
  "pending st = set (tm_armed st) \<union> set (tm_fired st)"

definition waiting :: "term_session \<Rightarrow> bool" where
  "waiting s \<longleftrightarrow> ts_browser s = None \<or> ts_agent s = None"

text \<open>The timer of a session is its own, and a session with a missing end has one.\<close>

definition own_timer :: "terminal_state \<Rightarrow> nat \<Rightarrow> term_session \<Rightarrow> bool" where
  "own_timer st p s \<longleftrightarrow> (\<forall>n. ts_timer s = Some n \<longrightarrow> n < tm_next st \<and> (\<forall>t\<in>pending st. tt_id t = n \<longrightarrow> tt_object t = p))"

definition watched :: "terminal_state \<Rightarrow> go_string \<Rightarrow> nat \<Rightarrow> term_session \<Rightarrow> bool" where
  "watched st i p s \<longleftrightarrow> own_timer st p s \<and>
     (waiting s \<longrightarrow> (\<exists>t\<in>pending st. tt_session t = i \<and> tt_object t = p \<and> ts_timer s = Some (tt_id t)))"

definition guarded :: "go_string set \<Rightarrow> terminal_state \<Rightarrow> bool" where
  "guarded X st \<longleftrightarrow> (\<forall>t\<in>pending st. tt_id t < tm_next st) \<and> (\<forall>t\<in>set (tm_armed st). tt_due t \<le> tm_now st + terminal_retention) \<and>
     (\<forall>i p s. i \<notin> X \<longrightarrow> session_at st i = Some (p, s) \<longrightarrow> watched st i p s)"

lemma guarded_session: "guarded X st \<Longrightarrow> i \<notin> X \<Longrightarrow> session_at st i = Some (p, s) \<Longrightarrow> watched st i p s"
  unfolding guarded_def by blast

lemma watched_same:
  "pending st' = pending st \<Longrightarrow> tm_next st' = tm_next st \<Longrightarrow> watched st' i p s = watched st i p s"
  "pending st' = pending st \<Longrightarrow> tm_next st' = tm_next st \<Longrightarrow> own_timer st' p s = own_timer st p s"
  by (simp_all add: watched_def own_timer_def)

lemma pending_parts [simp]:
  "pending (put_object p s st) = pending st" "pending (drop_session i st) = pending st" "pending (close_conns cs st) = pending st"
  "pending (add_task x st) = pending st"
  by (simp_all add: pending_def)

lemma watched_parts [simp]:
  "watched (put_object p r st) = watched st" "watched (drop_session i st) = watched st" "watched (close_conns cs st) = watched st"
  "watched (add_task x st) = watched st" "own_timer (put_object p r st) = own_timer st"
  by (intro ext; rule watched_same; simp)+

lemma guarded_same [simp]:
  "guarded X (close_conns cs st) = guarded X st" "guarded X (add_task x st) = guarded X st"
  by (simp_all add: guarded_def)

lemma guarded_cong:
  assumes "guarded X st" "\<And>i. session_at st' i = session_at st i" "pending st' = pending st" "tm_next st' = tm_next st"
    "\<And>t. t \<in> set (tm_armed st') \<Longrightarrow> tt_due t \<le> tm_now st' + terminal_retention"
  shows "guarded X st'"
proof -
  have "watched st' i p s" if "i \<notin> X" "session_at st' i = Some (p, s)" for i p s
    using guarded_session[OF assms(1) that(1)] that(2) assms(2) watched_same(1)[OF assms(3,4)] by simp
  moreover have "\<forall>t\<in>pending st'. tt_id t < tm_next st'" using assms(1) unfolding guarded_def assms(3,4) by blast
  ultimately show ?thesis using assms(5) unfolding guarded_def by blast
qed

lemma guarded_plain:
  assumes "guarded X st" "tm_table st' = tm_table st" "tm_heap st' = tm_heap st" "tm_next st' = tm_next st" "tm_armed st' = tm_armed st"
    "tm_fired st' = tm_fired st" "tm_now st \<le> tm_now st'"
  shows "guarded X st'"
proof (rule guarded_cong[OF assms(1)])
  show "session_at st' i = session_at st i" for i using session_at_cong[OF assms(2,3)] .
  show "pending st' = pending st" using assms by (simp add: pending_def)
  show "tt_due t \<le> tm_now st' + terminal_retention" if "t \<in> set (tm_armed st')" for t
    using that assms unfolding guarded_def by fastforce
qed (rule assms(4))

lemma guarded_drop: "guarded X st \<Longrightarrow> X \<subseteq> {i} \<Longrightarrow> guarded {} (drop_session i st)"
  unfolding guarded_def by (auto simp: session_at_drop)

lemma guarded_put:
  assumes "term_wf st" "guarded X st" "session_at st i = Some (p, s)"
  shows "X \<subseteq> {i} \<Longrightarrow> watched st i p s' \<Longrightarrow> guarded {} (put_object p s' st)" "guarded (insert i X) (put_object p s' st)"
  using assms(2) unfolding guarded_def by (auto simp: session_at_put[OF assms(1,3)])

lemma pending_disarm: "pending (disarm n st) = {t. t \<in> pending st \<and> (n = Some (tt_id t) \<longrightarrow> t \<in> set (tm_fired st))}"
  by (auto simp: pending_def)

lemma other_object:
  assumes "term_wf st" "session_at st i = Some (p, s)" "session_at st j = Some (q, r)" "j \<noteq> i"
  shows "q \<noteq> p"
  using session_at_put[OF assms(1,2), of "s\<lparr>ts_forwarding := \<not> ts_forwarding s\<rparr>" j] assms(2-)
  by (auto simp: session_at_def put_object_def update_conv' split: option.splits if_splits dest: arg_cong[of _ _ ts_forwarding])

lemma guarded_disarm:
  assumes "term_wf st" "guarded X st" "X \<subseteq> {i}" "session_at st i = Some (p, s)" "own_timer st p s"
  shows "guarded {i} (disarm (ts_timer s) st)"
proof -
  have "watched (disarm (ts_timer s) st) j q r" if j: "j \<noteq> i" "session_at st j = Some (q, r)" for j q r
  proof -
    have ne: "q \<noteq> p" using other_object[OF assms(1,4) j(2,1)] .
    have w: "watched st j q r" using guarded_session[OF assms(2) _ j(2)] j(1) assms(3) by blast
    have "\<exists>t\<in>pending (disarm (ts_timer s) st). tt_session t = j \<and> tt_object t = q \<and> ts_timer r = Some (tt_id t)" if wt: "waiting r"
    proof -
      obtain t where t: "t \<in> pending st" "tt_session t = j" "tt_object t = q" "ts_timer r = Some (tt_id t)"
        using w wt unfolding watched_def by blast
      then have "ts_timer s \<noteq> Some (tt_id t)" using assms(5) ne by (auto simp: own_timer_def)
      then show ?thesis using t by (auto simp: pending_disarm)
    qed
    then show ?thesis using w by (auto simp: watched_def own_timer_def pending_disarm)
  qed
  then show ?thesis using assms(2) unfolding guarded_def by (auto simp: pending_disarm)
qed

lemma guarded_bump:
  assumes "guarded {i} st"
  shows "guarded {i} (timer_bump (tm_armed st @ [new_timer i p st]) st)"
proof -
  let ?t = "new_timer i p st" and ?st = "timer_bump (tm_armed st @ [new_timer i p st]) st"
  have pend: "pending ?st = insert ?t (pending st)" by (auto simp: pending_def)
  have "watched ?st j q r" if j: "j \<noteq> i" "session_at st j = Some (q, r)" for j q r
  proof -
    have "watched st j q r" using guarded_session[OF assms _ j(2)] j(1) by simp
    then have own: "own_timer st q r" and
      wait: "waiting r \<longrightarrow> (\<exists>t\<in>pending st. tt_session t = j \<and> tt_object t = q \<and> ts_timer r = Some (tt_id t))"
      unfolding watched_def by blast+
    from own have "own_timer ?st q r" by (cases "ts_timer r") (auto simp: own_timer_def pend, simp add: new_timer_def)
    with wait show ?thesis unfolding watched_def pend by blast
  qed
  moreover have "\<forall>t\<in>pending ?st. tt_id t < tm_next ?st"
    using assms by (auto simp: guarded_def pend less_Suc_eq, simp add: new_timer_def)
  moreover have "\<forall>t\<in>set (tm_armed ?st). tt_due t \<le> tm_now ?st + terminal_retention"
    using assms by (auto simp: guarded_def new_timer_def)
  ultimately show ?thesis unfolding guarded_def timer_bump_fields(10) by blast
qed

lemma guarded_schedule:
  assumes "term_wf st" "guarded X st" "X \<subseteq> {i}" "session_at st i = Some (p, s)" "own_timer st p s" "ts_timer s' = ts_timer s"
  shows "guarded {} (schedule_cleanup i p s' st)"
proof -
  let ?d = "disarm (ts_timer s') st" and ?s = "s'\<lparr>ts_timer := Some (tm_next st)\<rparr>"
  let ?t = "new_timer i p ?d"
  let ?b = "timer_bump (tm_armed ?d @ [?t]) ?d"
  have eq: "schedule_cleanup i p s' st = put_object p ?s ?b" by (simp add: schedule_alt new_timer_def)
  have d: "guarded {i} ?d" unfolding assms(6) by (rule guarded_disarm[OF assms(1-5)])
  then have b: "guarded {i} ?b" by (rule guarded_bump)
  have old: "tt_id t < tm_next st" if "t \<in> pending ?d" for t using d that by (auto simp: guarded_def)
  have "pending ?b = insert ?t (pending ?d)" by (auto simp: pending_def)
  then have "watched ?b i p ?s" using old by (fastforce simp: watched_def own_timer_def new_timer_def)
  then show ?thesis unfolding eq
    by (intro guarded_put[OF timer_bump_wf b, where s = s]) (use assms(1,4) in simp_all)
qed

lemma guarded_stop:
  assumes "term_wf st" "guarded {} st" "session_at st i = Some (p, s)" "ts_timer s' = ts_timer s"
  shows "guarded {i} (stop_cleanup p s' st)" "\<not> waiting s' \<Longrightarrow> guarded {} (stop_cleanup p s' st)"
proof -
  have own: "own_timer st p s" using guarded_session[OF assms(2) _ assms(3)] by (simp add: watched_def)
  then have own': "own_timer st p s'" using assms(4) by (simp add: own_timer_def)
  have d: "guarded {i} (disarm (ts_timer s') st)"
    unfolding assms(4) by (rule guarded_disarm[OF assms(1,2) _ assms(3) own]) simp
  note put = guarded_put[OF _ d, where i = i and p = p and s = s]
  note put' = guarded_put[OF assms(1-3)]
  have off: "watched (disarm (ts_timer s') st) i p (s'\<lparr>ts_timer := None\<rparr>)" if "\<not> waiting s'"
    using that by (simp add: watched_def own_timer_def waiting_def)
  show "guarded {i} (stop_cleanup p s' st)"
    using put(2) put'(2) assms(1,3) by (cases "ts_timer s'") (simp_all add: stop_cleanup_def)
  show "guarded {} (stop_cleanup p s' st)" if "\<not> waiting s'"
    using put(1) put'(1) off[OF that] own' that assms(1,3)
    by (cases "ts_timer s'") (simp_all add: stop_cleanup_def watched_def)
qed

lemma guarded_suspend:
  assumes "term_wf st" "guarded {} st"
  shows "guarded {} (suspend_session i b a st)"
proof (cases "session_at st i")
  case None
  then show ?thesis using assms by (simp add: suspend_session_def)
next
  case (Some ps)
  obtain p s where ps: "ps = (p, s)" by force
  have s: "session_at st i = Some (p, s)" using Some ps by simp
  have "own_timer st p s" using guarded_session[OF assms(2) _ s] by (simp add: watched_def)
  then have "guarded {} (schedule_cleanup i p (s\<lparr>ts_browser := None, ts_agent := None, ts_forwarding := False\<rparr>) st)"
    by (intro guarded_schedule[OF assms _ s]) simp_all
  then show ?thesis using assms by (simp add: suspend_session_def s)
qed

lemma guarded_close_session:
  assumes "term_wf st" "guarded {} st"
  shows "guarded {} (close_session i st)"
  using assms guarded_drop[OF guarded_stop(1)[OF assms]]
  by (auto simp: close_session_def split: option.splits)

lemma guarded_cleanup:
  assumes "guarded {} st"
  shows "guarded {} (cleanup t (st\<lparr>tm_fired := remove1 t (tm_fired st)\<rparr>))"
proof -
  let ?st = "st\<lparr>tm_fired := remove1 t (tm_fired st)\<rparr>"
  have same: "session_at ?st i = session_at st i" for i by (rule session_at_cong) simp_all
  have pend: "pending ?st \<subseteq> pending st" "pending st \<subseteq> insert t (pending ?st)"
    by (auto simp: pending_def)
  have keep: "watched ?st i p s" if i: "session_at st i = Some (p, s)" "tt_session t = i \<longrightarrow> tt_object t \<noteq> p" for i p s
  proof -
    have w: "watched st i p s" using guarded_session[OF assms _ i(1)] by simp
    have "own_timer ?st p s" using w pend(1) unfolding watched_def own_timer_def by auto
    moreover have "\<exists>t\<in>pending ?st. tt_session t = i \<and> tt_object t = p \<and> ts_timer s = Some (tt_id t)" if "waiting s"
      using w that i(2) pend(2) unfolding watched_def by blast
    ultimately show ?thesis unfolding watched_def by blast
  qed
  have rest: "\<forall>t\<in>pending ?st. tt_id t < tm_next ?st" "\<forall>t\<in>set (tm_armed ?st). tt_due t \<le> tm_now ?st + terminal_retention"
    using assms pend(1) by (auto simp: guarded_def)
  have others: "guarded {tt_session t} ?st" using keep rest unfolding guarded_def same by blast
  have "guarded {} ?st" if "\<And>p s. session_at st (tt_session t) = Some (p, s) \<Longrightarrow> p \<noteq> tt_object t"
    using keep rest that unfolding guarded_def same by blast
  then show ?thesis
    using guarded_drop[OF others] by (auto simp: cleanup_def same split: option.splits)
qed

lemma guarded_attach:
  assumes "term_wf st" "guarded {} st"
  shows "guarded {} (snd (attach_browser i usr key c st))" "guarded {} (snd (attach_agent i c st))"
proof -
  have put: "guarded {} (put_object p s' st)" if "session_at st i = Some (p, s)" "ts_timer s' = ts_timer s" "waiting s" for p s s'
  proof (rule guarded_put(1)[OF assms that(1)])
    show "watched st i p s'"
      using guarded_session[OF assms(2) _ that(1)] that(2,3) by (simp add: watched_def own_timer_def)
  qed simp
  show "guarded {} (snd (attach_browser i usr key c st))"
    using assms(2) put guarded_stop(2)[OF assms]
    by (auto simp: attach_browser_def waiting_def Let_def split: option.splits)
  show "guarded {} (snd (attach_agent i c st))"
    using assms(2) put guarded_stop(2)[OF assms]
    by (auto simp: attach_agent_def waiting_def Let_def split: option.splits)
qed

lemma guarded_maybe_start:
  assumes "term_wf st" "guarded {} st"
  shows "guarded {} (maybe_start_forwarding i st)"
proof -
  have "guarded {} (put_object p (s\<lparr>ts_forwarding := True\<rparr>) st)" if s: "session_at st i = Some (p, s)" for p s
  proof (rule guarded_put(1)[OF assms s])
    show "watched st i p (s\<lparr>ts_forwarding := True\<rparr>)"
      using guarded_session[OF assms(2) _ s] by (simp add: watched_def own_timer_def waiting_def)
  qed simp
  then show ?thesis using assms(2) by (auto simp: maybe_start_forwarding_def split: option.splits)
qed

lemma guarded_relay_ends: "guarded {} st \<Longrightarrow> guarded {} (relay_ends i b a st)"
  by (auto simp: relay_ends_def intro: guarded_plain)

lemma guarded_relay:
  assumes "term_wf st" "guarded {} st"
  shows "guarded {} (relay_up out i b a st)" "guarded {} (relay_down out i b a st)" "guarded {} (forward_start i b a st)"
proof -
  have log: "guarded {} (st\<lparr>tm_relayed := r\<rparr>)" "guarded {} (st\<lparr>tm_lost := l\<rparr>)" for r l
    using assms(2) by (rule guarded_plain; simp)+
  show "guarded {} (relay_up out i b a st)" "guarded {} (relay_down out i b a st)"
    using assms log guarded_close_session[OF assms] by (simp_all add: relay_up_def relay_down_def guarded_relay_ends)
  show "guarded {} (forward_start i b a st)" using assms(2) by (auto simp: forward_start_def split: option.splits)
qed

lemma guarded_run_task:
  assumes "term_wf st" "guarded {} st"
  shows "guarded {} (run_task out t st)"
proof (cases t)
  case (Attach i uuid usr key c)
  then show ?thesis using guarded_attach(1)[OF assms, of i usr key c]
    by (cases "attach_browser i usr key c st") (auto split: option.split)
next
  case (AttachAgent i c)
  then show ?thesis using guarded_attach(2)[OF assms, of i c]
    by (cases "attach_agent i c st") (auto split: bool.split)
qed (use assms in \<open>simp_all add: guarded_close_session guarded_maybe_start guarded_relay guarded_suspend\<close>)

lemma guarded_establish:
  assumes "term_wf st" "guarded {} st"
  shows "guarded {} (establish ws up auth i st)"
proof -
  have "guarded {} (st\<lparr>tm_conns := n, tm_agents := x\<rparr>)" for n x using assms(2) by (rule guarded_plain) simp_all
  then show ?thesis
    using assms(2) guarded_close_session[OF assms] by (auto simp: establish_def Let_def split: option.splits)
qed

lemma guarded_request_existing: "guarded {} st \<Longrightarrow> guarded {} (request_existing known up uuid usr key i st)"
  by (auto simp: request_existing_def Let_def intro: guarded_plain split: option.splits)

lemma guarded_new_session:
  assumes "guarded {} st" "term_wf (put_object p s st')" "tm_table st' = AList.update i p (tm_table st)" "tm_heap st' = tm_heap st"
    "p = tm_next st" "tm_next st' = Suc (tm_next st)" "tm_armed st' = tm_armed st" "tm_fired st' = tm_fired st" "tm_now st' = tm_now st"
    "term_wf st" "ts_timer s = None"
  shows "guarded {} (schedule_cleanup i p s st')"
proof -
  let ?st = "put_object p s st'"
  have pend: "pending ?st = pending st" using assms(7,8) by (simp add: pending_def)
  have s: "session_at ?st i = Some (p, s)" by (simp add: session_at_def put_object_def assms(3) update_conv')
  have at: "session_at ?st j = session_at st j" if "j \<noteq> i" for j
  proof (cases "map_of (tm_table st) j")
    case (Some q)
    then have "q < tm_next st" using assms(10) by (auto simp: term_wf_def dest!: map_of_SomeD)
    then show ?thesis using that Some assms(3-5) by (simp add: session_at_def put_object_def update_conv')
  qed (use that assms(3) in \<open>simp add: session_at_def put_object_def update_conv'\<close>)
  have "watched ?st j q r" if "j \<noteq> i" "session_at ?st j = Some (q, r)" for j q r
  proof -
    have w: "watched st j q r" using guarded_session[OF assms(1)] that at by simp
    then have "own_timer ?st q r" unfolding watched_def own_timer_def pend using assms(6) by (simp add: less_SucI)
    then show ?thesis using w unfolding watched_def pend by blast
  qed
  moreover have "\<forall>t\<in>pending ?st. tt_id t < tm_next ?st" using assms(1,6) unfolding pend guarded_def by (simp add: less_SucI)
  moreover have "\<forall>t\<in>set (tm_armed ?st). tt_due t \<le> tm_now ?st + terminal_retention"
    using assms(1,7,9) by (simp add: guarded_def)
  ultimately have g: "guarded {i} ?st" unfolding guarded_def by blast
  have eq: "schedule_cleanup i p s st' = schedule_cleanup i p s ?st"
    by (simp add: schedule_cleanup_def put_object_def disarm_def Let_def)
  show ?thesis unfolding eq
    by (rule guarded_schedule[OF assms(2) g _ s]) (use assms(11) in \<open>simp_all add: own_timer_def\<close>)
qed

lemma guarded_request_new:
  assumes "linked st" "guarded {} st"
  shows "guarded {} (request_new known code_ok up uuid usr key ip i st)"
proof (cases "known \<and> code_ok \<and> up \<and> i \<notin> fst ` set (tm_ids st)")
  case True
  note new = linked_wf[OF linked_new_session[OF assms(1), where i = i and usr = usr and key = key and uuid = uuid and ip = ip]]
  show ?thesis
    using True new linked_wf[OF assms(1)]
    by (auto simp: request_new_def Let_def put_object_def intro!: guarded_new_session[OF assms(2)])
next
  case False
  then show ?thesis using assms by (auto simp: request_new_def)
qed

lemma guarded_do:
  assumes "linked st" "guarded {} st"
  shows "guarded {} (term_do a st)"
proof (cases a)
  case (RunTask out t)
  have "term_wf (st\<lparr>tm_tasks := x\<rparr>)" "guarded {} (st\<lparr>tm_tasks := x\<rparr>)" for x
    by (rule term_wf_same[OF linked_wf[OF assms(1)]] guarded_plain[OF assms(2)]; simp)+
  then show ?thesis using assms(2) by (simp add: RunTask guarded_run_task)
next
  case (Fire t)
  have "guarded {} (st\<lparr>tm_armed := filter (\<lambda>x. x \<noteq> t) (tm_armed st), tm_fired := tm_fired st @ [t]\<rparr>)" if "t \<in> set (tm_armed st)"
  proof (rule guarded_cong[OF assms(2)])
    show "session_at (st\<lparr>tm_armed := filter (\<lambda>x. x \<noteq> t) (tm_armed st), tm_fired := tm_fired st @ [t]\<rparr>) i = session_at st i" for i
      by (rule session_at_cong) simp_all
  qed (use that assms(2) in \<open>auto simp: pending_def guarded_def\<close>)
  then show ?thesis using assms(2) by (simp add: Fire)
next
  case (Pass d)
  have "guarded {} (st\<lparr>tm_now := tm_now st + d\<rparr>)" if "0 \<le> d" using assms(2) by (rule guarded_plain) (use that in simp_all)
  then show ?thesis using assms(2) by (simp add: Pass)
qed (use assms linked_wf in \<open>simp_all add: guarded_request_new guarded_request_existing guarded_establish guarded_suspend guarded_cleanup\<close>)

lemma guarded_run: "guarded {} (term_run acts)"
proof -
  have "guarded {} terminal_start" by (simp add: guarded_def pending_def terminal_start_def session_at_def)
  then have "guarded {} (term_run acts)"
    by (induction acts rule: rev_induct) (use linked_run in \<open>simp_all add: term_run_def guarded_do\<close>)
  then show ?thesis .
qed

text \<open>Connections are numbered in order, so each was admitted once.\<close>

definition numbered :: "nat \<times> (nat \<times> browser_info) list \<times> (nat \<times> go_string option) list \<Rightarrow> bool" where
  "numbered x \<longleftrightarrow> (case x of (n, bs, as) \<Rightarrow> distinct (map fst bs @ map fst as) \<and> (\<forall>c\<in>set (map fst bs @ map fst as). c < n))"

definition admitted :: "terminal_state \<Rightarrow> nat \<times> (nat \<times> browser_info) list \<times> (nat \<times> go_string option) list" where
  "admitted st = (tm_conns st, tm_browsers st, tm_agents st)"

lemma admitted_parts [simp]:
  "admitted (put_object p s st) = admitted st" "admitted (drop_session i st) = admitted st" "admitted (close_conns cs st) = admitted st"
  "admitted (add_task t st) = admitted st" "admitted (disarm n st) = admitted st"
  "admitted (st\<lparr>tm_armed := x, tm_next := m\<rparr>) = admitted st" "admitted (st\<lparr>tm_tasks := ts\<rparr>) = admitted st"
  "admitted (st\<lparr>tm_relayed := r\<rparr>) = admitted st" "admitted (st\<lparr>tm_lost := l\<rparr>) = admitted st"
  "admitted (st\<lparr>tm_fired := f\<rparr>) = admitted st" "admitted (st\<lparr>tm_armed := x\<rparr>) = admitted st" "admitted (st\<lparr>tm_armed := x, tm_fired := f\<rparr>) = admitted st"
  "admitted (st\<lparr>tm_now := d\<rparr>) = admitted st"
  by (simp_all add: admitted_def put_object_def drop_session_def close_conns_def add_task_def disarm_def)

lemma admitted_kept:
  "admitted (schedule_cleanup i p s st) = admitted st" "admitted (stop_cleanup p s st) = admitted st"
  "admitted (suspend_session i b a st) = admitted st" "admitted (close_session i st) = admitted st" "admitted (cleanup u st) = admitted st"
  "admitted (snd (attach_browser i usr key c st)) = admitted st" "admitted (snd (attach_agent i c st)) = admitted st"
  "admitted (maybe_start_forwarding i st) = admitted st" "admitted (forward_start i n m st) = admitted st"
  "admitted (relay_ends i n m st) = admitted st"
  by (auto simp: schedule_cleanup_def stop_cleanup_def suspend_session_def close_session_def cleanup_def attach_browser_def
      attach_agent_def maybe_start_forwarding_def forward_start_def relay_ends_def Let_def split: option.splits)

lemma admitted_task: "admitted (run_task out t st) = admitted st"
proof (cases t)
  case (Attach i uuid usr key c)
  then show ?thesis using admitted_kept(6)[of i usr key c st]
    by (cases "attach_browser i usr key c st") (auto split: option.split)
next
  case (AttachAgent i c)
  then show ?thesis using admitted_kept(7)[of i c st] by (cases "attach_agent i c st") (auto split: bool.split)
qed (simp_all add: admitted_kept relay_up_def relay_down_def)

lemma numbered_more:
  assumes "numbered (admitted st)"
  shows "numbered (tm_conns st + 1, (tm_conns st, nfo) # tm_browsers st, tm_agents st)"
    "numbered (tm_conns st + 1, tm_browsers st, (tm_conns st, auth) # tm_agents st)"
proof -
  have "tm_conns st \<notin> fst ` set (tm_browsers st) \<union> fst ` set (tm_agents st)"
    using assms by (force simp: numbered_def admitted_def)
  then show "numbered (tm_conns st + 1, (tm_conns st, nfo) # tm_browsers st, tm_agents st)"
      "numbered (tm_conns st + 1, tm_browsers st, (tm_conns st, auth) # tm_agents st)"
    using assms by (auto simp: numbered_def admitted_def ball_Un less_SucI)
qed

lemma numbered_do: "numbered (admitted st) \<Longrightarrow> numbered (admitted (term_do a st))"
proof (cases a)
  case (RequestNew known code_ok up uuid usr key ip i)
  assume "numbered (admitted st)"
  then show ?thesis using numbered_more
    by (auto simp: RequestNew request_new_def admitted_kept Let_def) (auto simp: admitted_def)
next
  case (RequestExisting known up uuid usr key i)
  assume "numbered (admitted st)"
  then show ?thesis using numbered_more
    by (auto simp: RequestExisting request_existing_def Let_def split: option.splits) (auto simp: admitted_def)
next
  case (Establish ws up auth i)
  assume "numbered (admitted st)"
  then show ?thesis using numbered_more
    by (auto simp: Establish establish_def admitted_kept Let_def split: option.splits) (auto simp: admitted_def)
qed (simp_all add: admitted_task admitted_kept)

lemma numbered_run: "numbered (admitted (term_run acts))"
proof -
  have "numbered (admitted terminal_start)" by (simp add: numbered_def admitted_def terminal_start_def)
  then show ?thesis by (induction acts rule: rev_induct) (simp_all add: term_run_def numbered_do)
qed

section \<open>What the sessions guarantee\<close>

text \<open>
  C13: Whatever browsers, agents, timers and relays do in any order, a message is relayed in a session only
  between a browser that was admitted for the user the session was opened by, or with the API key, and an agent connection that was
  authenticated as the client the session was opened for, or carried no client identity of its own.
\<close>

theorem terminal_isolated:
  assumes "(i, b, a, d) \<in> set (tm_relayed (term_run acts))"
  shows "\<exists>uuid usr inf auth. map_of (tm_ids (term_run acts)) i = Some (uuid, usr) \<and>
    map_of (tm_browsers (term_run acts)) b = Some inf \<and> (bi_key inf \<or> bi_user inf = usr) \<and>
    map_of (tm_agents (term_run acts)) a = Some auth \<and> auth \<in> {None, Some [], Some uuid}"
proof -
  let ?st = "term_run acts"
  have "browser_ok ?st i b" "agent_ok ?st i a" using assms linked_run[of acts] unfolding linked_def by blast+
  then obtain uuid usr inf uuid' usr' auth where
      e: "(i, uuid, usr) \<in> set (tm_ids ?st)" "(i, uuid', usr') \<in> set (tm_ids ?st)" "(b, inf) \<in> set (tm_browsers ?st)"
        "(a, auth) \<in> set (tm_agents ?st)" "bi_key inf \<or> bi_user inf = usr" "auth \<in> {None, Some [], Some uuid'}"
    unfolding browser_ok_def agent_ok_def by blast
  have "distinct (map fst (tm_ids ?st))" using linked_wf[OF linked_run[of acts]] by (simp add: term_wf_def)
  note ids = map_of_is_SomeI[OF this e(1)] map_of_is_SomeI[OF this e(2)]
  have "distinct (map fst (tm_browsers ?st))" "distinct (map fst (tm_agents ?st))"
    using numbered_run[of acts] by (simp_all add: numbered_def admitted_def)
  then have "map_of (tm_browsers ?st) b = Some inf" "map_of (tm_agents ?st) a = Some auth" using e by simp_all
  then show ?thesis using ids e(5,6) by auto
qed

definition relay_acts :: "term_act list" where
  "relay_acts = open_acts @ [RunTask Done (AttachAgent ''s1'' 1), RunTask Done (MaybeForward ''s1''), RunTask Done (Forward ''s1'' 0 1),
     RunTask Done (Up ''s1'' 0 1)]"

theorem terminal_isolated_witness:
  "map_of (tm_ids (term_run relay_acts)) ''s1'' = Some (''c1'', ''u1'') \<and>
   (\<exists>nfo auth. map_of (tm_browsers (term_run relay_acts)) 0 = Some nfo \<and> map_of (tm_agents (term_run relay_acts)) 1 = Some auth)"
proof -
  have "tm_relayed (term_run relay_acts) = [(''s1'', 0, 1, ToAgent)]" by code_simp
  then have "(''s1'', 0, 1, ToAgent) \<in> set (tm_relayed (term_run relay_acts))" by simp
  note r = terminal_isolated[OF this]
  have "tm_ids (term_run relay_acts) = [(''s1'', ''c1'', ''u1'')]" by code_simp
  then show ?thesis using r by auto
qed

text \<open>
  C18: No session is left behind: in every reachable state a session whose browser or agent is missing has a
  cleanup timer, due within five minutes, and running it removes the session from the table.
\<close>

theorem terminal_no_leak:
  assumes "session_at (term_run acts) i = Some (p, s)" "ts_browser s = None \<or> ts_agent s = None"
  shows "\<exists>t. (t \<in> set (tm_armed (term_run acts)) \<and> tt_due t \<le> tm_now (term_run acts) + 300 \<or> t \<in> set (tm_fired (term_run acts))) \<and>
    session_at (term_run (acts @ [Pass 300, Fire t, Cleanup t])) i = None"
proof -
  let ?st = "term_run acts"
  have g: "guarded {} ?st" by (rule guarded_run)
  obtain t where t: "t \<in> pending ?st" "tt_session t = i" "tt_object t = p"
    using guarded_session[OF g _ assms(1)] assms(2) unfolding watched_def waiting_def by blast
  have due: "tt_due t \<le> tm_now ?st + 300" if "t \<in> set (tm_armed ?st)"
    using g that unfolding guarded_def terminal_retention_def by blast
  let ?f = "term_do (Fire t) (term_do (Pass 300) ?st)"
  have same: "session_at ?f i = Some (p, s)"
    using assms(1) session_at_cong[of ?f ?st i] by simp
  have fired: "t \<in> set (tm_fired ?f)" using t(1) due by (auto simp: pending_def)
  have "session_at (st\<lparr>tm_fired := f\<rparr>) i = session_at st i" for st f by (rule session_at_cong) simp_all
  then have "session_at (term_do (Cleanup t) ?f) i = None"
    using same fired t(2,3) by (simp only: term_do.simps if_True) (simp add: cleanup_def session_at_drop)
  then have "session_at (term_run (acts @ [Pass 300, Fire t, Cleanup t])) i = None" by (simp only: term_run_def foldl_append foldl.simps)
  then show ?thesis using t(1) due by (auto simp only: pending_def)
qed

theorem terminal_no_leak_witness:
  "\<exists>t. session_at (term_run (open_acts @ [Pass 300, Fire t, Cleanup t])) ''s1'' = None"
proof -
  have "session_is ''s1'' (\<lambda>s. ts_agent s = None) (term_run open_acts)" by code_simp
  then obtain p s where "session_at (term_run open_acts) ''s1'' = Some (p, s)" "ts_agent s = None"
    by (auto simp: session_is_def split: option.splits)
  then show ?thesis using terminal_no_leak[of open_acts "''s1''" p s] by blast
qed

end
