(* ===== verification/Plugin_Manager.thy ===== *)
theory Plugin_Manager
  imports Plugin_Manifest "HOL-Library.AList"
begin

text \<open>
  The life of plugins, \<^verbatim>\<open>internal/plugin\<close>: the plugin_manager's tables (\<^verbatim>\<open>plugin.go\<close>), the persisted state
  (\<^verbatim>\<open>state.go\<close>), what a script registers with the hub (\<^verbatim>\<open>server.go\<close>, \<^verbatim>\<open>rpc.go\<close>, \<^verbatim>\<open>cron.go\<close>) and the reinstall of a
  package (\<^verbatim>\<open>install.go\<close>).  One step is what runs under one lock, or one access to the disk; the rest of an
  administrator's call is a task, and tasks and the calls of scripts interleave in any order.  An instance
  (a pointer in the code) is a number that is never used again.  A function registered by a script is the
  number of the instance whose script it is.  Outcomes of the environment (a script throws, a write
  fails, the router has the path already) are arguments of the steps.
\<close>

section \<open>State\<close>

datatype plugin_error =
    BadManifest | WrongVersion | NoEntry | AlreadyLoaded | NoStorage | InitFailed | LoadFailed | UnloadedMeanwhile
  | ApprovalRequired | NotLoaded | UnloadFailed | BadShort | NotInstalled | FilesFailed

record plugin_state =
  ps_enabled :: bool
  ps_hash :: go_string
  ps_error :: "plugin_error option"

definition no_state :: plugin_state where
  "no_state = \<lparr>ps_enabled = False, ps_hash = [], ps_error = None\<rparr>"

text \<open>What is on disk for a plugin: the manifest, its version constraint, whether the entry can be read.\<close>

record package =
  pk_info :: plugin_info
  pk_komari :: go_string
  pk_entry :: bool

record plugin_inst =
  pi_info :: plugin_info
  pi_runtime :: bool
  pi_host :: bool
  pi_open :: bool
  pi_handlers :: "(go_string \<times> nat) list"
  pi_statics :: "go_string list"
  pi_methods :: "go_string list"
  pi_jobs :: "nat list"

datatype hook_kind = HookRequest | HookResponse | HookConnect | HookMessage | HookSend | HookClose

text \<open>A hook: the plugin it is registered for, whose function it is, and whose event loop it runs on.\<close>

record hook_entry =
  he_short :: go_string
  he_kind :: hook_kind
  he_fn :: nat
  he_host :: nat

datatype after_load = ToEnable plugin_state | ToRestart plugin_state | ToStart plugin_state

datatype after_unload = ToDisable plugin_state | ToReload | ToDelete | ToReinstall package | ToClose

datatype manager_task =
    Disable go_string
  | Enable go_string plugin_info bool
  | MarkEnabled go_string
  | Approve go_string plugin_info bool
  | SaveThenLoad go_string plugin_state
  | Save go_string plugin_state
  | Load go_string after_load
  | Insert go_string plugin_info after_load
  | Prepare go_string nat after_load
  | Evaluate go_string nat after_load
  | CallLoad go_string nat after_load
  | CheckLoaded go_string nat after_load
  | Unload go_string after_unload
  | CallUnload go_string nat bool after_unload
  | Cleanup go_string nat bool "plugin_error option" after_unload
  | CloseRuntime go_string nat bool "plugin_error option" after_unload
  | ReadRestart go_string
  | CheckRestart go_string plugin_state after_load
  | DeleteFiles go_string
  | DeleteState go_string
  | Extract go_string package
  | CheckEnabled go_string
  | StartOne go_string

record plugin_manager =
  pm_current :: go_string
  pm_disk :: "(go_string \<times> package) list"
  pm_state :: "(go_string \<times> plugin_state) list"
  pm_instances :: "(go_string \<times> nat) list"
  pm_heap :: "(nat \<times> plugin_inst) list"
  pm_next :: nat
  pm_routes :: "(go_string \<times> go_string) list"
  pm_hooks :: "hook_entry list"
  pm_injects :: "(go_string \<times> nat) list"
  pm_rpc :: "(go_string \<times> go_string option) list"
  pm_jobs :: "(nat \<times> go_string) list"
  pm_seq :: nat
  pm_tasks :: "manager_task list"
  pm_approved :: "(go_string \<times> go_string) list"

text \<open>\<open>pm_rpc\<close> is the registry of methods: those of the hub itself have no plugin.  \<open>pm_approved\<close> records what an
  administrator has approved; the code does not keep it.\<close>

definition inst_at :: "nat \<Rightarrow> plugin_manager \<Rightarrow> plugin_inst option" where
  "inst_at n st = map_of (pm_heap st) n"

definition put_inst :: "nat \<Rightarrow> plugin_inst \<Rightarrow> plugin_manager \<Rightarrow> plugin_manager" where
  "put_inst n i st = st\<lparr>pm_heap := AList.update n i (pm_heap st)\<rparr>"

definition on_inst :: "nat \<Rightarrow> (plugin_inst \<Rightarrow> plugin_inst) \<Rightarrow> plugin_manager \<Rightarrow> plugin_manager" where
  "on_inst n f st = (case inst_at n st of None \<Rightarrow> st | Some i \<Rightarrow> put_inst n (f i) st)"

definition instance_for :: "go_string \<Rightarrow> plugin_manager \<Rightarrow> nat option" where
  "instance_for s st = map_of (pm_instances st) s"

definition push_task :: "manager_task \<Rightarrow> plugin_manager \<Rightarrow> plugin_manager" where
  "push_task t st = st\<lparr>pm_tasks := pm_tasks st @ [t]\<rparr>"

section \<open>The persisted state\<close>

definition state_get :: "go_string \<Rightarrow> plugin_manager \<Rightarrow> plugin_state" where
  "state_get s st = (case map_of (pm_state st) s of None \<Rightarrow> no_state | Some x \<Rightarrow> x)"

definition state_set :: "go_string \<Rightarrow> plugin_state \<Rightarrow> plugin_manager \<Rightarrow> plugin_manager" where
  "state_set s x st = st\<lparr>pm_state := AList.update s x (pm_state st)\<rparr>"

definition state_delete :: "go_string \<Rightarrow> plugin_manager \<Rightarrow> plugin_manager" where
  "state_delete s st = st\<lparr>pm_state := AList.delete s (pm_state st)\<rparr>"

text \<open>\<^verbatim>\<open>approvalPermissionsHash\<close> is a digest of the seven permissions; the digest itself is an argument.\<close>

definition permission_bits :: "permissions \<Rightarrow> bool list" where
  "permission_bits p = [allow_system_rpc p, allow_routes p, allow_hooks p, allow_html_inject p, allow_exec p, allow_listen p,
     allow_all_file_access p]"

definition approval_hash :: "(bool list \<Rightarrow> go_string) \<Rightarrow> permissions \<Rightarrow> go_string" where
  "approval_hash digest p = ''sha256:'' @ digest (permission_bits p)"

definition read_manifest :: "go_string \<Rightarrow> plugin_manager \<Rightarrow> plugin_info option" where
  "read_manifest s st = (case map_of (pm_disk st) s of None \<Rightarrow> None
     | Some k \<Rightarrow> (case validate_manifest (pk_info k) of Inl _ \<Rightarrow> None | Inr i \<Rightarrow> Some i))"

section \<open>What a script registers\<close>

definition add_once :: "'a \<Rightarrow> 'a list \<Rightarrow> 'a list" where
  "add_once x xs = (if x \<in> set xs then xs else xs @ [x])"

text \<open>\<open>free\<close>: the router takes the path; otherwise it panics, which the code recovers.\<close>

definition register_route :: "bool \<Rightarrow> go_string \<Rightarrow> go_string \<Rightarrow> nat \<Rightarrow> plugin_manager \<Rightarrow> bool \<times> plugin_manager" where
  "register_route free s key fn st = (case instance_for s st of None \<Rightarrow> (False, st)
     | Some n \<Rightarrow> (case inst_at n st of None \<Rightarrow> (False, st)
       | Some i \<Rightarrow>
         if (s, key) \<in> set (pm_routes st) then (True, put_inst n (i\<lparr>pi_handlers := AList.update key fn (pi_handlers i)\<rparr>) st)
         else if map_of (pi_handlers i) key \<noteq> None then (True, st)
         else if free then (True, put_inst n (i\<lparr>pi_handlers := AList.update key fn (pi_handlers i)\<rparr>)
           (st\<lparr>pm_routes := (s, key) # pm_routes st\<rparr>))
         else (False, put_inst n (i\<lparr>pi_handlers := AList.delete key (pi_handlers i)\<rparr>) st)))"

definition register_static :: "bool \<Rightarrow> bool \<Rightarrow> go_string \<Rightarrow> go_string \<Rightarrow> plugin_manager \<Rightarrow> bool \<times> plugin_manager" where
  "register_static dir_ok free s mount st = (case instance_for s st of None \<Rightarrow> (False, st)
     | Some n \<Rightarrow> (case inst_at n st of None \<Rightarrow> (False, st)
       | Some i \<Rightarrow>
         if \<not> dir_ok then (False, st)
         else let key = ''STATIC '' @ mount in
           if (s, key) \<in> set (pm_routes st) then (True, put_inst n (i\<lparr>pi_statics := add_once mount (pi_statics i)\<rparr>) st)
           else if free then (True, put_inst n (i\<lparr>pi_statics := add_once mount (pi_statics i)\<rparr>)
             (st\<lparr>pm_routes := (s, key) # pm_routes st\<rparr>))
           else (False, put_inst n (i\<lparr>pi_statics := removeAll mount (pi_statics i)\<rparr>) st)))"

definition register_hook :: "go_string \<Rightarrow> hook_kind \<Rightarrow> nat \<Rightarrow> plugin_manager \<Rightarrow> plugin_manager" where
  "register_hook s kind fn st = (case instance_for s st of None \<Rightarrow> st
     | Some n \<Rightarrow> st\<lparr>pm_hooks := pm_hooks st @ [\<lparr>he_short = s, he_kind = kind, he_fn = fn, he_host = n\<rparr>]\<rparr>)"

definition register_inject :: "go_string \<Rightarrow> nat \<Rightarrow> plugin_manager \<Rightarrow> plugin_manager" where
  "register_inject s fn st = (case instance_for s st of None \<Rightarrow> st
     | Some n \<Rightarrow> st\<lparr>pm_injects := pm_injects st @ [(s, fn)]\<rparr>)"

text \<open>\<open>spec_ok\<close>: the scheduler can parse the expression.\<close>

definition register_cron :: "bool \<Rightarrow> go_string \<Rightarrow> plugin_manager \<Rightarrow> bool \<times> plugin_manager" where
  "register_cron spec_ok s st = (case instance_for s st of None \<Rightarrow> (False, st)
     | Some n \<Rightarrow> (case inst_at n st of None \<Rightarrow> (False, st)
       | Some i \<Rightarrow>
         if \<not> pi_runtime i \<or> \<not> pi_host i then (False, st)
         else let j = pm_seq st + 1; st1 = st\<lparr>pm_seq := j\<rparr> in
           if \<not> spec_ok then (False, st1)
           else (True, put_inst n (i\<lparr>pi_jobs := pi_jobs i @ [j]\<rparr>) (st1\<lparr>pm_jobs := (j, s) # pm_jobs st1\<rparr>))))"

definition register_rpc :: "go_string \<Rightarrow> go_string \<Rightarrow> plugin_manager \<Rightarrow> bool \<times> plugin_manager" where
  "register_rpc s meth st =
     (let m = trim_space meth in
      if m = [] \<or> has_prefix m ''rpc.'' then (False, st)
      else case instance_for s st of None \<Rightarrow> (False, st)
      | Some n \<Rightarrow> (case inst_at n st of None \<Rightarrow> (False, st)
        | Some i \<Rightarrow>
          if m \<in> set (pi_methods i) then (True, st)
          else if map_of (pm_rpc st) m \<noteq> None then (False, st)
          else (True, put_inst n (i\<lparr>pi_methods := pi_methods i @ [m]\<rparr>) (st\<lparr>pm_rpc := (m, Some s) # pm_rpc st\<rparr>))))"

text \<open>The module \<^verbatim>\<open>server\<close> a script sees: the permissions and the short name are those of its own instance.\<close>

datatype script_call =
    CallRoute bool go_string
  | CallStatic bool bool go_string
  | CallHook hook_kind
  | CallInject
  | CallCron bool
  | CallRegister go_string

definition script_calls :: "nat \<Rightarrow> script_call \<Rightarrow> plugin_manager \<Rightarrow> bool \<times> plugin_manager" where
  "script_calls n c st = (case inst_at n st of None \<Rightarrow> (False, st)
     | Some i \<Rightarrow>
       if \<not> pi_open i then (False, st)
       else let s = pl_short (pi_info i); p = pl_permissions (pi_info i) in
       (case c of
          CallRoute free key \<Rightarrow> if allow_routes p then register_route free s key n st else (False, st)
        | CallStatic dir_ok free mount \<Rightarrow> if allow_routes p then register_static dir_ok free s mount st else (False, st)
        | CallHook kind \<Rightarrow> if allow_hooks p then (True, register_hook s kind n st) else (False, st)
        | CallInject \<Rightarrow> if allow_html_inject p then (True, register_inject s n st) else (False, st)
        | CallCron spec_ok \<Rightarrow> register_cron spec_ok s st
        | CallRegister meth \<Rightarrow> register_rpc s meth st))"

section \<open>Leaving\<close>

definition remove_methods :: "go_string list \<Rightarrow> (go_string \<times> go_string option) list \<Rightarrow> (go_string \<times> go_string option) list" where
  "remove_methods ms r = filter (\<lambda>(m, _). m \<notin> set ms) r"

text \<open>The cleanup both \<^verbatim>\<open>dropInstance\<close> and \<^verbatim>\<open>unload\<close> do under the lock of the plugin_manager.\<close>

definition detach :: "go_string \<Rightarrow> nat \<Rightarrow> plugin_manager \<Rightarrow> plugin_manager" where
  "detach s n st = (case inst_at n st of None \<Rightarrow> st
     | Some i \<Rightarrow> put_inst n (i\<lparr>pi_runtime := False, pi_host := False, pi_handlers := [], pi_statics := [], pi_methods := [], pi_jobs := []\<rparr>)
         (st\<lparr>pm_rpc := remove_methods (pi_methods i) (pm_rpc st),
             pm_jobs := filter (\<lambda>(j, _). j \<notin> set (pi_jobs i)) (pm_jobs st),
             pm_hooks := filter (\<lambda>h. he_short h \<noteq> s) (pm_hooks st),
             pm_injects := filter (\<lambda>(t, _). t \<noteq> s) (pm_injects st)\<rparr>))"

definition drop_instance :: "go_string \<Rightarrow> nat \<Rightarrow> plugin_manager \<Rightarrow> plugin_manager" where
  "drop_instance s n st = (if instance_for s st \<noteq> Some n then st
     else detach s n (st\<lparr>pm_instances := AList.delete s (pm_instances st)\<rparr>))"

definition close_runtime :: "nat \<Rightarrow> plugin_manager \<Rightarrow> plugin_manager" where
  "close_runtime n st = on_inst n (\<lambda>i. i\<lparr>pi_open := False\<rparr>) st"

section \<open>Tasks\<close>

text \<open>\<open>load\<close> ends: what its callers do with the result.\<close>

definition loaded :: "go_string \<Rightarrow> plugin_error option \<Rightarrow> after_load \<Rightarrow> plugin_manager \<Rightarrow> plugin_manager" where
  "loaded s err k st = (case k of
       ToEnable x \<Rightarrow> push_task (Save s (case err of None \<Rightarrow> x\<lparr>ps_enabled := True, ps_error := None\<rparr>
         | Some e \<Rightarrow> x\<lparr>ps_enabled := False, ps_error := Some e\<rparr>)) st
     | ToRestart x \<Rightarrow> push_task (Save s (case err of None \<Rightarrow> x\<lparr>ps_enabled := True, ps_error := None\<rparr>
         | Some e \<Rightarrow> x\<lparr>ps_enabled := False, ps_error := Some e\<rparr>)) st
     | ToStart x \<Rightarrow> (case err of None \<Rightarrow> st
         | Some e \<Rightarrow> push_task (Save s (x\<lparr>ps_enabled := False, ps_error := Some e\<rparr>)) st))"

definition unloaded :: "go_string \<Rightarrow> plugin_error option \<Rightarrow> after_unload \<Rightarrow> plugin_manager \<Rightarrow> plugin_manager" where
  "unloaded s err k st =
     (let hard = (case err of None \<Rightarrow> False | Some e \<Rightarrow> e \<noteq> NotLoaded) in
      case k of
        ToDisable x \<Rightarrow> push_task (Save s (if hard then x\<lparr>ps_error := err\<rparr> else x)) st
      | ToReload \<Rightarrow> if hard then st else push_task (ReadRestart s) st
      | ToDelete \<Rightarrow> if hard then st else push_task (DeleteFiles s) st
      | ToReinstall pk \<Rightarrow> if hard then st else push_task (Extract s pk) st
      | ToClose \<Rightarrow> st)"

definition load_files :: "go_string \<Rightarrow> after_load \<Rightarrow> plugin_manager \<Rightarrow> plugin_manager" where
  "load_files s k st = (case read_manifest s st of None \<Rightarrow> loaded s (Some BadManifest) k st
     | Some i \<Rightarrow> (case map_of (pm_disk st) s of None \<Rightarrow> loaded s (Some BadManifest) k st
       | Some pk \<Rightarrow>
         if check_komari_version (pm_current st) (pk_komari pk) \<noteq> None then loaded s (Some WrongVersion) k st
         else if \<not> pk_entry pk then loaded s (Some NoEntry) k st
         else push_task (Insert s i k) st))"

definition insert_instance :: "go_string \<Rightarrow> plugin_info \<Rightarrow> after_load \<Rightarrow> plugin_manager \<Rightarrow> plugin_manager" where
  "insert_instance s i k st =
     (if instance_for s st \<noteq> None then loaded s (Some AlreadyLoaded) k st
      else let n = pm_next st in
        push_task (Prepare s n k) (put_inst n \<lparr>pi_info = i, pi_runtime = False, pi_host = False, pi_open = False, pi_handlers = [],
          pi_statics = [], pi_methods = [], pi_jobs = []\<rparr>
          (st\<lparr>pm_instances := AList.update s n (pm_instances st), pm_next := n + 1\<rparr>)))"

definition claim :: "go_string \<Rightarrow> after_unload \<Rightarrow> plugin_manager \<Rightarrow> plugin_manager" where
  "claim s k st = (case instance_for s st of None \<Rightarrow> unloaded s (Some NotLoaded) k st
     | Some n \<Rightarrow> push_task (CallUnload s n (case inst_at n st of None \<Rightarrow> False | Some i \<Rightarrow> pi_runtime i) k)
         (st\<lparr>pm_instances := AList.delete s (pm_instances st)\<rparr>))"

definition needs_approval :: "(bool list \<Rightarrow> go_string) \<Rightarrow> plugin_info \<Rightarrow> plugin_state \<Rightarrow> bool" where
  "needs_approval digest i x \<longleftrightarrow> permissions_require_approval (pl_permissions i) \<and>
     ps_hash x \<noteq> approval_hash digest (pl_permissions i)"

definition approve_then_load :: "(bool list \<Rightarrow> go_string) \<Rightarrow> go_string \<Rightarrow> plugin_info \<Rightarrow> bool \<Rightarrow> plugin_manager \<Rightarrow> plugin_manager" where
  "approve_then_load digest s i approved st =
     (let h = approval_hash digest (pl_permissions i); x = state_get s st in
      if needs_approval digest i x then
        (if \<not> approved then st
         else push_task (SaveThenLoad s (x\<lparr>ps_hash := h\<rparr>)) (st\<lparr>pm_approved := (s, h) # pm_approved st\<rparr>))
      else push_task (Load s (ToEnable x)) st)"

definition check_restart :: "(bool list \<Rightarrow> go_string) \<Rightarrow> go_string \<Rightarrow> plugin_state \<Rightarrow> after_load \<Rightarrow> plugin_manager \<Rightarrow> plugin_manager" where
  "check_restart digest s x k st = (case read_manifest s st of
       None \<Rightarrow> push_task (Save s (x\<lparr>ps_enabled := False, ps_error := Some BadManifest\<rparr>)) st
     | Some i \<Rightarrow> if needs_approval digest i x then push_task (Save s (x\<lparr>ps_enabled := False, ps_error := Some ApprovalRequired\<rparr>)) st
         else push_task (Load s k) st)"

definition prepare :: "bool \<Rightarrow> go_string \<Rightarrow> nat \<Rightarrow> after_load \<Rightarrow> plugin_manager \<Rightarrow> plugin_manager" where
  "prepare ok s n k st =
     (if ok then push_task (Evaluate s n k) (on_inst n (\<lambda>i. i\<lparr>pi_host := True, pi_open := True\<rparr>) st)
      else loaded s (Some NoStorage) k (drop_instance s n st))"

definition evaluate :: "bool \<Rightarrow> go_string \<Rightarrow> nat \<Rightarrow> after_load \<Rightarrow> plugin_manager \<Rightarrow> plugin_manager" where
  "evaluate ok s n k st =
     (if ok then push_task (CallLoad s n k) (on_inst n (\<lambda>i. i\<lparr>pi_runtime := True\<rparr>) st)
      else loaded s (Some InitFailed) k (drop_instance s n (close_runtime n st)))"

definition check_loaded :: "go_string \<Rightarrow> nat \<Rightarrow> after_load \<Rightarrow> plugin_manager \<Rightarrow> plugin_manager" where
  "check_loaded s n k st =
     (if instance_for s st = Some n then loaded s None k st
      else loaded s (Some UnloadedMeanwhile) k (close_runtime n st))"

definition delete_files :: "bool \<Rightarrow> go_string \<Rightarrow> plugin_manager \<Rightarrow> plugin_manager" where
  "delete_files ok s st =
     (if \<not> valid_short s \<or> map_of (pm_disk st) s = None \<or> \<not> ok then st
      else push_task (DeleteState s) (st\<lparr>pm_disk := AList.delete s (pm_disk st)\<rparr>))"

text \<open>A package that cannot be unpacked, or has no entry script, leaves no directory.\<close>

definition extract_package :: "bool \<Rightarrow> go_string \<Rightarrow> package \<Rightarrow> plugin_manager \<Rightarrow> plugin_manager" where
  "extract_package ok s pk st =
     (if ok \<and> pk_entry pk then push_task (CheckEnabled s) (st\<lparr>pm_disk := AList.update s pk (pm_disk st)\<rparr>)
      else st\<lparr>pm_disk := AList.delete s (pm_disk st)\<rparr>)"

definition start_one :: "go_string \<Rightarrow> plugin_manager \<Rightarrow> plugin_manager" where
  "start_one s st =
     (let x = state_get s st in
      if \<not> ps_enabled x \<or> instance_for s st \<noteq> None then st else push_task (CheckRestart s x (ToStart x)) st)"

lemmas task_defs [simp] = prepare_def evaluate_def check_loaded_def delete_files_def extract_package_def start_one_def

text \<open>\<open>ok\<close> is the outcome of what the step asks of the environment.\<close>

fun manager_step :: "(bool list \<Rightarrow> go_string) \<Rightarrow> bool \<Rightarrow> manager_task \<Rightarrow> plugin_manager \<Rightarrow> plugin_manager" where
  "manager_step digest ok (Disable s) st = push_task (Unload s (ToDisable ((state_get s st)\<lparr>ps_enabled := False\<rparr>))) st"
| "manager_step digest ok (Enable s i approved) st =
     (if instance_for s st \<noteq> None then push_task (MarkEnabled s) st else push_task (Approve s i approved) st)"
| "manager_step digest ok (MarkEnabled s) st =
     push_task (Save s ((state_get s st)\<lparr>ps_enabled := True, ps_error := None\<rparr>)) st"
| "manager_step digest ok (Approve s i approved) st = approve_then_load digest s i approved st"
| "manager_step digest ok (SaveThenLoad s x) st = push_task (Load s (ToEnable x)) (state_set s x st)"
| "manager_step digest ok (Save s x) st = state_set s x st"
| "manager_step digest ok (Load s k) st = load_files s k st"
| "manager_step digest ok (Insert s i k) st = insert_instance s i k st"
| "manager_step digest ok (Prepare s n k) st = prepare ok s n k st"
| "manager_step digest ok (Evaluate s n k) st = evaluate ok s n k st"
| "manager_step digest ok (CallLoad s n k) st =
     (if ok then push_task (CheckLoaded s n k) st
      else loaded s (Some LoadFailed) k (drop_instance s n (close_runtime n st)))"
| "manager_step digest ok (CheckLoaded s n k) st = check_loaded s n k st"
| "manager_step digest ok (Unload s k) st = claim s k st"
| "manager_step digest ok (CallUnload s n rt k) st =
     push_task (Cleanup s n rt (if rt \<and> \<not> ok then Some UnloadFailed else None) k) st"
| "manager_step digest ok (Cleanup s n rt err k) st = push_task (CloseRuntime s n rt err k) (detach s n st)"
| "manager_step digest ok (CloseRuntime s n rt err k) st = unloaded s err k (if rt then close_runtime n st else st)"
| "manager_step digest ok (ReadRestart s) st = (let x = state_get s st in push_task (CheckRestart s x (ToRestart x)) st)"
| "manager_step digest ok (CheckRestart s x k) st = check_restart digest s x k st"
| "manager_step digest ok (DeleteFiles s) st = delete_files ok s st"
| "manager_step digest ok (DeleteState s) st = state_delete s st"
| "manager_step digest ok (Extract s pk) st = extract_package ok s pk st"
| "manager_step digest ok (CheckEnabled s) st = (if ps_enabled (state_get s st) then push_task (ReadRestart s) st else st)"
| "manager_step digest ok (StartOne s) st = start_one s st"

section \<open>Runs\<close>

datatype plugin_act =
    SetEnabled go_string bool bool
  | Reload go_string
  | Delete go_string
  | InstallZip package
  | LoadAll
  | CloseAll
  | RunTask bool manager_task
  | Script nat script_call

definition set_enabled :: "go_string \<Rightarrow> bool \<Rightarrow> bool \<Rightarrow> plugin_manager \<Rightarrow> plugin_manager" where
  "set_enabled s enabled approved st = (case read_manifest s st of None \<Rightarrow> st
     | Some i \<Rightarrow> push_task (if enabled then Enable s i approved else Disable s) st)"

definition reload_plugin :: "go_string \<Rightarrow> plugin_manager \<Rightarrow> plugin_manager" where
  "reload_plugin s st = (if ps_enabled (state_get s st) then push_task (Unload s ToReload) st else st)"

definition install_zip :: "package \<Rightarrow> plugin_manager \<Rightarrow> plugin_manager" where
  "install_zip pk st = (case validate_manifest (pk_info pk) of Inl _ \<Rightarrow> st
     | Inr i \<Rightarrow> if check_komari_version (pm_current st) (pk_komari pk) \<noteq> None then st
         else push_task (Unload (pl_short i) (ToReinstall pk)) st)"

text \<open>\<^verbatim>\<open>loadAll\<close> and \<^verbatim>\<open>closeAll\<close> take the plugins one after the other; here each is a task of its own.\<close>

definition load_all :: "plugin_manager \<Rightarrow> plugin_manager" where
  "load_all st = foldl (\<lambda>st s. push_task (StartOne s) st) st (map fst (pm_disk st))"

definition close_all :: "plugin_manager \<Rightarrow> plugin_manager" where
  "close_all st = foldl (\<lambda>st s. push_task (Unload s ToClose) st) st (map fst (pm_instances st))"

lemmas call_defs [simp] = set_enabled_def reload_plugin_def install_zip_def load_all_def close_all_def

text \<open>The calls of an administrator, one region of a task, or a call of a script; a task that is not there is not run.\<close>

fun plugin_do :: "(bool list \<Rightarrow> go_string) \<Rightarrow> plugin_act \<Rightarrow> plugin_manager \<Rightarrow> plugin_manager" where
  "plugin_do digest (SetEnabled s enabled approved) st = set_enabled s enabled approved st"
| "plugin_do digest (Reload s) st = reload_plugin s st"
| "plugin_do digest (Delete s) st = push_task (Unload s ToDelete) st"
| "plugin_do digest (InstallZip pk) st = install_zip pk st"
| "plugin_do digest LoadAll st = load_all st"
| "plugin_do digest CloseAll st = close_all st"
| "plugin_do digest (RunTask ok t) st =
     (if t \<in> set (pm_tasks st) then manager_step digest ok t (st\<lparr>pm_tasks := remove1 t (pm_tasks st)\<rparr>) else st)"
| "plugin_do digest (Script n c) st = snd (script_calls n c st)"

text \<open>A hub starts with the files and the state it finds, the methods of its own, and nothing loaded.\<close>

definition manager_start :: "go_string \<Rightarrow> (go_string \<times> package) list \<Rightarrow> (go_string \<times> plugin_state) list \<Rightarrow> go_string list \<Rightarrow> plugin_manager" where
  "manager_start current disk state own = \<lparr>pm_current = current, pm_disk = disk, pm_state = state, pm_instances = [], pm_heap = [],
     pm_next = 0, pm_routes = [], pm_hooks = [], pm_injects = [], pm_rpc = map (\<lambda>m. (m, None)) own, pm_jobs = [], pm_seq = 0,
     pm_tasks = [], pm_approved = map (\<lambda>(s, x). (s, ps_hash x)) state\<rparr>"

definition plugin_run :: "(bool list \<Rightarrow> go_string) \<Rightarrow> plugin_act list \<Rightarrow> plugin_manager \<Rightarrow> plugin_manager" where
  "plugin_run digest acts st = foldl (\<lambda>st a. plugin_do digest a st) st acts"

section \<open>Who holds what\<close>

text \<open>An instance is held by its short name while it is loaded, and by a call of \<open>unload\<close> until the cleanup.\<close>

definition held :: "manager_task \<Rightarrow> (go_string \<times> nat) set" where
  "held t = (case t of CallUnload s n rt k \<Rightarrow> {(s, n)} | Cleanup s n rt e k \<Rightarrow> {(s, n)} | _ \<Rightarrow> {})"

definition leaving :: "plugin_manager \<Rightarrow> (go_string \<times> nat) set" where
  "leaving st = (\<Union>t\<in>set (pm_tasks st). held t)"

definition holders :: "plugin_manager \<Rightarrow> (go_string \<times> nat) set" where
  "holders st = {(s, n). instance_for s st = Some n} \<union> leaving st"

definition methods_of :: "plugin_manager \<Rightarrow> nat \<Rightarrow> go_string set" where
  "methods_of st n = (case inst_at n st of None \<Rightarrow> {} | Some i \<Rightarrow> set (pi_methods i))"

definition jobs_of :: "plugin_manager \<Rightarrow> nat \<Rightarrow> nat set" where
  "jobs_of st n = (case inst_at n st of None \<Rightarrow> {} | Some i \<Rightarrow> set (pi_jobs i))"

definition tidy :: "plugin_manager \<Rightarrow> bool" where
  "tidy st \<longleftrightarrow> (\<forall>(s, n)\<in>holders st. n < pm_next st) \<and>
     (\<forall>h\<in>set (pm_hooks st). he_short h \<in> fst ` holders st) \<and> (\<forall>(s, f)\<in>set (pm_injects st). s \<in> fst ` holders st) \<and>
     (\<forall>m s. (m, Some s) \<in> set (pm_rpc st) \<longrightarrow> (\<exists>n. (s, n) \<in> holders st \<and> m \<in> methods_of st n)) \<and>
     (\<forall>(j, s)\<in>set (pm_jobs st). \<exists>n. (s, n) \<in> holders st \<and> j \<in> jobs_of st n)"

lemma tidy_mono:
  assumes "tidy st" "\<And>s n. (s, n) \<in> holders st' \<Longrightarrow> n < pm_next st'" "holders st \<subseteq> holders st'"
    "\<And>s n. (s, n) \<in> holders st \<Longrightarrow> methods_of st n \<subseteq> methods_of st' n \<and> jobs_of st n \<subseteq> jobs_of st' n"
    "set (pm_hooks st') \<subseteq> set (pm_hooks st)" "set (pm_injects st') \<subseteq> set (pm_injects st)"
    "set (pm_rpc st') \<subseteq> set (pm_rpc st)" "set (pm_jobs st') \<subseteq> set (pm_jobs st)"
  shows "tidy st'"
proof -
  have f: "fst ` holders st \<subseteq> fst ` holders st'" using assms(3) by blast
  have "\<exists>n. (s, n) \<in> holders st' \<and> m \<in> methods_of st' n" if m: "(m, Some s) \<in> set (pm_rpc st')" for m s
  proof -
    have "(m, Some s) \<in> set (pm_rpc st)" using m assms(7) by blast
    then obtain n where "(s, n) \<in> holders st" "m \<in> methods_of st n" using assms(1) unfolding tidy_def by blast
    then show ?thesis using assms(3,4) by blast
  qed
  moreover have "\<exists>n. (s, n) \<in> holders st' \<and> j \<in> jobs_of st' n" if j: "(j, s) \<in> set (pm_jobs st')" for j s
  proof -
    have "(j, s) \<in> set (pm_jobs st)" using j assms(8) by blast
    then obtain n where "(s, n) \<in> holders st" "j \<in> jobs_of st n" using assms(1) unfolding tidy_def by blast
    then show ?thesis using assms(3,4) by blast
  qed
  moreover have "\<forall>h\<in>set (pm_hooks st'). he_short h \<in> fst ` holders st'" using assms(1,5) f unfolding tidy_def by blast
  moreover have "\<forall>(s, f)\<in>set (pm_injects st'). s \<in> fst ` holders st'" using assms(1,6) f unfolding tidy_def by blast
  ultimately show ?thesis using assms(2) unfolding tidy_def by auto
qed

lemma inst_at_put: "inst_at k (put_inst n i st) = (if k = n then Some i else inst_at k st)"
  by (simp add: inst_at_def put_inst_def update_conv')

lemma manager_fields [simp]:
  "pm_instances (put_inst n i st) = pm_instances st" "pm_next (put_inst n i st) = pm_next st" "pm_hooks (put_inst n i st) = pm_hooks st"
  "pm_injects (put_inst n i st) = pm_injects st" "pm_rpc (put_inst n i st) = pm_rpc st" "pm_jobs (put_inst n i st) = pm_jobs st"
  "pm_tasks (put_inst n i st) = pm_tasks st" "pm_disk (put_inst n i st) = pm_disk st" "pm_state (put_inst n i st) = pm_state st"
  "pm_approved (put_inst n i st) = pm_approved st"
  "pm_instances (push_task t st) = pm_instances st" "pm_next (push_task t st) = pm_next st" "pm_hooks (push_task t st) = pm_hooks st"
  "pm_injects (push_task t st) = pm_injects st" "pm_rpc (push_task t st) = pm_rpc st" "pm_jobs (push_task t st) = pm_jobs st"
  "pm_tasks (push_task t st) = pm_tasks st @ [t]" "pm_disk (push_task t st) = pm_disk st" "pm_state (push_task t st) = pm_state st"
  "pm_approved (push_task t st) = pm_approved st" "inst_at k (push_task t st) = inst_at k st"
  by (simp_all add: put_inst_def push_task_def inst_at_def)

lemma held_simps [simp]:
  "held (CallUnload s n rt k) = {(s, n)}" "held (Cleanup s n rt e k) = {(s, n)}" "held (Save s x) = {}" "held (ReadRestart s) = {}"
  "held (DeleteFiles s) = {}" "held (Extract s pk) = {}" "held (Load s l) = {}" "held (Insert s i l) = {}" "held (Prepare s n l) = {}"
  "held (Evaluate s n l) = {}" "held (CallLoad s n l) = {}" "held (CheckLoaded s n l) = {}" "held (Unload s k) = {}"
  "held (CloseRuntime s n rt e k) = {}" "held (CheckRestart s x l) = {}" "held (DeleteState s) = {}" "held (CheckEnabled s) = {}"
  "held (StartOne s) = {}" "held (Disable s) = {}" "held (Enable s i ap) = {}" "held (MarkEnabled s) = {}" "held (Approve s i ap) = {}"
  "held (SaveThenLoad s x) = {}"
  by (simp_all add: held_def)

lemma instance_for_push [simp]: "instance_for s (push_task t st) = instance_for s st"
  by (simp add: instance_for_def)

lemma instance_for_put [simp]: "instance_for s (put_inst n i st) = instance_for s st"
  by (simp add: instance_for_def)

lemma holders_push [simp]: "holders (push_task t st) = holders st \<union> held t"
  by (auto simp: holders_def leaving_def)

lemma holders_put [simp]: "holders (put_inst n i st) = holders st"
  by (simp add: holders_def leaving_def)

lemma of_push [simp]: "methods_of (push_task t st) n = methods_of st n" "jobs_of (push_task t st) n = jobs_of st n"
  by (simp_all add: methods_of_def jobs_of_def)

lemma of_put:
  "methods_of (put_inst n i st) k = (if k = n then set (pi_methods i) else methods_of st k)"
  "jobs_of (put_inst n i st) k = (if k = n then set (pi_jobs i) else jobs_of st k)"
  by (simp_all add: methods_of_def jobs_of_def inst_at_put)

lemma holder_next: "tidy st \<Longrightarrow> (s, n) \<in> holders st \<Longrightarrow> n < pm_next st"
  unfolding tidy_def by blast

lemma tidy_entry:
  "tidy st \<Longrightarrow> h \<in> set (pm_hooks st) \<Longrightarrow> he_short h \<in> fst ` holders st"
  "tidy st \<Longrightarrow> (s, f) \<in> set (pm_injects st) \<Longrightarrow> s \<in> fst ` holders st"
  unfolding tidy_def by blast+

lemma tidy_push: "tidy st \<Longrightarrow> (\<And>s n. (s, n) \<in> held t \<Longrightarrow> n < pm_next st) \<Longrightarrow> tidy (push_task t st)"
  by (rule tidy_mono[of st]) (auto dest: holder_next)

lemma tidy_plain: "tidy st \<Longrightarrow> held t = {} \<Longrightarrow> tidy (push_task t st)"
  by (rule tidy_push) simp_all

lemma tidy_put:
  assumes "tidy st" "inst_at n st = Some i" "set (pi_methods i) \<subseteq> set (pi_methods i')" "set (pi_jobs i) \<subseteq> set (pi_jobs i')"
  shows "tidy (put_inst n i' st)"
proof (rule tidy_mono[OF assms(1)])
  show "k < pm_next (put_inst n i' st)" if "(s, k) \<in> holders (put_inst n i' st)" for s k
    using that holder_next[OF assms(1)] by simp
  show "methods_of st k \<subseteq> methods_of (put_inst n i' st) k \<and> jobs_of st k \<subseteq> jobs_of (put_inst n i' st) k" for k
    using assms(2-) by (simp add: of_put) (simp add: methods_of_def jobs_of_def)
qed simp_all

lemma tidy_on_inst:
  "tidy st \<Longrightarrow> (\<And>i. set (pi_methods i) \<subseteq> set (pi_methods (f i))) \<Longrightarrow> (\<And>i. set (pi_jobs i) \<subseteq> set (pi_jobs (f i))) \<Longrightarrow> tidy (on_inst n f st)"
  by (cases "inst_at n st") (simp_all add: on_inst_def tidy_put)

lemma tidy_same:
  assumes "tidy st" "pm_instances st' = pm_instances st" "leaving st' = leaving st" "pm_heap st' = pm_heap st" "pm_next st' = pm_next st"
    "pm_hooks st' = pm_hooks st" "pm_injects st' = pm_injects st" "pm_rpc st' = pm_rpc st" "pm_jobs st' = pm_jobs st"
  shows "tidy st'"
proof -
  have "holders st' = holders st" using assms(2,3) by (simp add: holders_def instance_for_def)
  moreover have "methods_of st' = methods_of st" "jobs_of st' = jobs_of st"
    using assms(4) by (auto simp: methods_of_def jobs_of_def inst_at_def)
  ultimately show ?thesis using assms(1,5-) unfolding tidy_def by simp
qed

lemma tidy_ends:
  assumes "tidy st"
  shows "tidy (loaded s err k st)" "tidy (unloaded s err q st)"
  using assms by (auto simp: loaded_def unloaded_def Let_def tidy_plain split: after_load.splits after_unload.splits option.splits)

lemma tidy_detach:
  assumes "tidy st" "holders st \<subseteq> insert (s, n) (holders st')" "holders st' \<subseteq> holders st" "inst_at n st \<noteq> None"
    "pm_heap st' = pm_heap st" "pm_next st' = pm_next st"
    "pm_hooks st' = pm_hooks st" "pm_injects st' = pm_injects st" "pm_rpc st' = pm_rpc st" "pm_jobs st' = pm_jobs st"
  shows "tidy (detach s n st')"
proof -
  obtain i where i: "inst_at n st' = Some i" using assms(4,5) by (auto simp: inst_at_def)
  have at: "inst_at k st' = inst_at k st" for k using assms(5) by (simp add: inst_at_def)
  let ?d = "detach s n st'"
  have d: "holders ?d = holders st'" by (simp add: detach_def i holders_def leaving_def instance_for_def)
  have of_d: "methods_of ?d k = (if k = n then {} else methods_of st k)" "jobs_of ?d k = (if k = n then {} else jobs_of st k)" for k
    by (simp_all add: detach_def i of_put) (simp_all add: methods_of_def jobs_of_def inst_at_def assms(5))
  have gone: "methods_of st n = set (pi_methods i)" "jobs_of st n = set (pi_jobs i)" using i at by (simp_all add: methods_of_def jobs_of_def)
  have "\<exists>k. (t, k) \<in> holders ?d \<and> m \<in> methods_of ?d k" if m: "(m, Some t) \<in> set (pm_rpc ?d)" for m t
  proof -
    have "(m, Some t) \<in> set (pm_rpc st)" "m \<notin> set (pi_methods i)"
      using m assms(9) by (auto simp: detach_def i remove_methods_def)
    then obtain k where k: "(t, k) \<in> holders st" "m \<in> methods_of st k" "k \<noteq> n"
      using assms(1) gone unfolding tidy_def by blast
    then show ?thesis using assms(2) d of_d by auto
  qed
  moreover have "\<exists>k. (t, k) \<in> holders ?d \<and> j \<in> jobs_of ?d k" if j: "(j, t) \<in> set (pm_jobs ?d)" for j t
  proof -
    have "(j, t) \<in> set (pm_jobs st)" "j \<notin> set (pi_jobs i)" using j assms(10) by (auto simp: detach_def i)
    then obtain k where k: "(t, k) \<in> holders st" "j \<in> jobs_of st k" "k \<noteq> n"
      using assms(1) gone unfolding tidy_def by blast
    then show ?thesis using assms(2) d of_d by auto
  qed
  moreover have stay: "t \<in> fst ` holders ?d" if "t \<in> fst ` holders st" "t \<noteq> s" for t
    using that assms(2) unfolding d by auto
  moreover have "he_short h \<in> fst ` holders ?d" if "h \<in> set (pm_hooks ?d)" for h
    by (rule stay[OF tidy_entry(1)[OF assms(1)]]) (use that assms(7) in \<open>auto simp: detach_def i\<close>)
  moreover have "t \<in> fst ` holders ?d" if "(t, f) \<in> set (pm_injects ?d)" for t f
    by (rule stay[OF tidy_entry(2)[OF assms(1), of t f]]) (use that assms(8) in \<open>auto simp: detach_def i\<close>)
  moreover have "\<forall>(t, k)\<in>holders ?d. k < pm_next ?d" using assms(1,3,6) unfolding d tidy_def by (auto simp: detach_def i)
  ultimately show ?thesis unfolding tidy_def by blast
qed

lemma tidy_drop:
  assumes "tidy st" "\<And>k. instance_for s st = Some k \<Longrightarrow> inst_at k st \<noteq> None"
  shows "tidy (drop_instance s n st)"
proof (cases "instance_for s st = Some n")
  case True
  let ?st = "st\<lparr>pm_instances := AList.delete s (pm_instances st)\<rparr>"
  have "holders st \<subseteq> insert (s, n) (holders ?st)" "holders ?st \<subseteq> holders st"
    using True by (auto simp: holders_def leaving_def instance_for_def delete_conv' split: if_splits)
  then show ?thesis using tidy_detach[OF assms(1), of s n ?st] assms(2) True by (simp add: drop_instance_def)
qed (use assms in \<open>simp add: drop_instance_def\<close>)

text \<open>Every held instance is in the heap.\<close>

definition grounded :: "plugin_manager \<Rightarrow> bool" where
  "grounded st \<longleftrightarrow> (\<forall>(s, n)\<in>holders st. inst_at n st \<noteq> None)"

lemma tidy_extend:
  assumes "tidy st" "instance_for s st = Some n" "inst_at n st = Some i"
    "set (pi_methods i) \<subseteq> set (pi_methods i')" "set (pi_jobs i) \<subseteq> set (pi_jobs i')" "pm_instances st' = pm_instances st"
    "pm_tasks st' = pm_tasks st" "pm_heap st' = pm_heap st" "pm_next st' = pm_next st"
    "set (pm_hooks st') \<subseteq> set (pm_hooks st) \<union> {h. he_short h = s}" "set (pm_injects st') \<subseteq> set (pm_injects st) \<union> {x. fst x = s}"
    "set (pm_rpc st') \<subseteq> set (pm_rpc st) \<union> {(m, Some s) | m. m \<in> set (pi_methods i')}"
    "set (pm_jobs st') \<subseteq> set (pm_jobs st) \<union> {(j, s) | j. j \<in> set (pi_jobs i')}"
  shows "tidy (put_inst n i' st')"
proof -
  let ?st = "put_inst n i' st'"
  have h: "holders ?st = holders st" using assms(6,7) by (simp add: holders_def leaving_def instance_for_def)
  have s: "(s, n) \<in> holders st" using assms(2) by (simp add: holders_def)
  have at: "inst_at k st' = inst_at k st" for k using assms(8) by (simp add: inst_at_def)
  have more: "methods_of st k \<subseteq> methods_of ?st k" "jobs_of st k \<subseteq> jobs_of ?st k" for k
    using assms(3-5) by (auto simp: of_put) (auto simp: methods_of_def jobs_of_def at)
  have "\<exists>k. (t, k) \<in> holders ?st \<and> m \<in> methods_of ?st k" if m: "(m, Some t) \<in> set (pm_rpc ?st)" for m t
  proof (cases "(m, Some t) \<in> set (pm_rpc st)")
    case True
    then show ?thesis using assms(1) more(1) unfolding h tidy_def by blast
  next
    case False
    then have "t = s" "m \<in> set (pi_methods i')" using m assms(12) by auto
    then show ?thesis using s unfolding h by (auto simp: of_put)
  qed
  moreover have "\<exists>k. (t, k) \<in> holders ?st \<and> j \<in> jobs_of ?st k" if j: "(j, t) \<in> set (pm_jobs ?st)" for j t
  proof (cases "(j, t) \<in> set (pm_jobs st)")
    case True
    then show ?thesis using assms(1) more(2) unfolding h tidy_def by blast
  next
    case False
    then have "t = s" "j \<in> set (pi_jobs i')" using j assms(13) by auto
    then show ?thesis using s unfolding h by (auto simp: of_put)
  qed
  moreover have own: "s \<in> fst ` holders ?st" using s unfolding h by force
  moreover have "he_short e \<in> fst ` holders ?st" if "e \<in> set (pm_hooks ?st)" for e
  proof (cases "he_short e = s")
    case False
    then have "e \<in> set (pm_hooks st)" using that assms(10) by auto
    then show ?thesis unfolding h by (rule tidy_entry(1)[OF assms(1)])
  qed (use own in simp)
  moreover have "t \<in> fst ` holders ?st" if "(t, f) \<in> set (pm_injects ?st)" for t f
  proof (cases "t = s")
    case False
    then have "(t, f) \<in> set (pm_injects st)" using that assms(11) by auto
    then show ?thesis unfolding h by (rule tidy_entry(2)[OF assms(1)])
  qed (use own in simp)
  moreover have "\<forall>(t, k)\<in>holders ?st. k < pm_next ?st" using assms(1,9) unfolding h tidy_def by auto
  ultimately show ?thesis unfolding tidy_def by blast
qed

lemma put_inst_same: "inst_at n st = Some i \<Longrightarrow> put_inst n i st = st"
  by (simp add: put_inst_def inst_at_def update_triv)

lemma tidy_registers:
  assumes "tidy st"
  shows "tidy (snd (register_route free s key fn st))" "tidy (snd (register_static dir_ok free s mount st))"
    "tidy (snd (register_cron spec_ok s st))" "tidy (snd (register_rpc s meth st))"
proof -
  note ext = tidy_extend[OF assms]
  have seq: "tidy (st\<lparr>pm_seq := n\<rparr>)" for n using assms by (rule tidy_same) (simp_all add: leaving_def)
  show "tidy (snd (register_route free s key fn st))" "tidy (snd (register_static dir_ok free s mount st))"
    using assms by (auto simp: register_route_def register_static_def Let_def intro!: ext split: option.split)
  show "tidy (snd (register_cron spec_ok s st))"
    using assms seq by (auto simp: register_cron_def Let_def intro!: ext split: option.split)
  show "tidy (snd (register_rpc s meth st))"
    using assms by (auto simp: register_rpc_def Let_def intro!: ext split: option.split)
qed

lemma tidy_lists:
  assumes "tidy st" "instance_for s st = Some n" "grounded st"
    "set hs \<subseteq> set (pm_hooks st) \<union> {h. he_short h = s}" "set js \<subseteq> set (pm_injects st) \<union> {x. fst x = s}"
  shows "tidy (st\<lparr>pm_hooks := hs, pm_injects := js\<rparr>)"
proof -
  have "(s, n) \<in> holders st" using assms(2) by (simp add: holders_def)
  then obtain i where i: "inst_at n st = Some i" using assms(3) unfolding grounded_def by auto
  let ?st = "st\<lparr>pm_hooks := hs, pm_injects := js\<rparr>"
  have "tidy (put_inst n i ?st)" by (rule tidy_extend[OF assms(1,2) i]) (use assms(4,5) in auto)
  moreover have "inst_at n ?st = Some i" using i by (simp add: inst_at_def)
  ultimately show ?thesis by (simp add: put_inst_same)
qed

lemma tidy_hooks:
  assumes "tidy st" "grounded st"
  shows "tidy (register_hook s kind fn st)" "tidy (register_inject s fn st)"
proof -
  have "tidy (st\<lparr>pm_hooks := hs\<rparr>)" if "instance_for s st = Some n" "set hs \<subseteq> set (pm_hooks st) \<union> {h. he_short h = s}" for n hs
    using tidy_lists[OF assms(1) that(1) assms(2) that(2), of "pm_injects st"] by simp
  then show "tidy (register_hook s kind fn st)"
    using assms(1) by (auto simp: register_hook_def split: option.split)
  have "tidy (st\<lparr>pm_injects := js\<rparr>)" if "instance_for s st = Some n" "set js \<subseteq> set (pm_injects st) \<union> {x. fst x = s}" for n js
    using tidy_lists[OF assms(1) that(1) assms(2) _ that(2), of "pm_hooks st"] by simp
  then show "tidy (register_inject s fn st)"
    using assms(1) by (auto simp: register_inject_def split: option.split)
qed

lemma tidy_script: "tidy st \<Longrightarrow> grounded st \<Longrightarrow> tidy (snd (script_calls n c st))"
  by (auto simp: script_calls_def Let_def tidy_registers tidy_hooks split: option.splits script_call.splits)

lemma grounded_mono:
  assumes "grounded st" "holders st' \<subseteq> holders st" "\<And>n. inst_at n st \<noteq> None \<Longrightarrow> inst_at n st' \<noteq> None"
  shows "grounded st'"
  using assms unfolding grounded_def by blast

lemma grounded_holder: "grounded st \<Longrightarrow> instance_for s st = Some n \<Longrightarrow> inst_at n st \<noteq> None"
  unfolding grounded_def holders_def by blast

lemma grounded_push: "grounded st \<Longrightarrow> (\<And>s n. (s, n) \<in> held t \<Longrightarrow> inst_at n st \<noteq> None) \<Longrightarrow> grounded (push_task t st)"
  unfolding grounded_def by auto

lemma grounded_plain: "grounded st \<Longrightarrow> held t = {} \<Longrightarrow> grounded (push_task t st)"
  by (rule grounded_push) simp_all

lemma grounded_put: "grounded st \<Longrightarrow> grounded (put_inst n i st)"
  by (rule grounded_mono) (auto simp: inst_at_put)

lemma grounded_same:
  "grounded st \<Longrightarrow> pm_instances st' = pm_instances st \<Longrightarrow> pm_tasks st' = pm_tasks st \<Longrightarrow> pm_heap st' = pm_heap st \<Longrightarrow> grounded st'"
  by (rule grounded_mono) (simp_all add: holders_def leaving_def instance_for_def inst_at_def)

lemma grounded_on_inst: "grounded st \<Longrightarrow> grounded (on_inst n f st)"
  by (simp add: on_inst_def grounded_put split: option.split)

lemma grounded_ends: "grounded st \<Longrightarrow> grounded (loaded s err k st)" "grounded st \<Longrightarrow> grounded (unloaded s err q st)"
  by (auto simp: loaded_def unloaded_def Let_def intro!: grounded_push split: after_load.splits after_unload.splits option.splits)

lemma grounded_detach: "grounded st \<Longrightarrow> grounded (detach s n st)"
  by (cases "inst_at n st") (auto simp: detach_def intro!: grounded_put elim: grounded_same)

lemma grounded_forget:
  assumes "grounded st"
  shows "grounded (st\<lparr>pm_instances := AList.delete s (pm_instances st)\<rparr>)"
  using assms by (rule grounded_mono)
    (auto simp: holders_def leaving_def instance_for_def delete_conv' inst_at_def split: if_splits)

lemma grounded_drop: "grounded st \<Longrightarrow> grounded (drop_instance s n st)"
  by (simp add: drop_instance_def grounded_detach grounded_forget)

lemma grounded_script:
  assumes "grounded st"
  shows "grounded (snd (script_calls n c st))"
proof -
  have lists: "grounded (st\<lparr>pm_hooks := hs\<rparr>)" "grounded (st\<lparr>pm_injects := js\<rparr>)" "grounded (st\<lparr>pm_seq := q\<rparr>)"
      "grounded (st\<lparr>pm_routes := r\<rparr>)" "grounded (st\<lparr>pm_rpc := m\<rparr>)" "grounded (st\<lparr>pm_seq := q, pm_jobs := x\<rparr>)" for hs js q r m x
    by (rule grounded_same[OF assms]; simp)+
  show ?thesis
    using assms lists
    by (auto simp: script_calls_def register_route_def register_static_def register_hook_def register_inject_def register_cron_def
        register_rpc_def Let_def intro!: grounded_put split: option.splits script_call.splits)
qed

definition sound :: "plugin_manager \<Rightarrow> bool" where
  "sound st \<longleftrightarrow> tidy st \<and> grounded st"

lemma sound_plain: "sound st \<Longrightarrow> held t = {} \<Longrightarrow> sound (push_task t st)"
  by (simp add: sound_def tidy_plain grounded_plain)

lemma sound_same:
  assumes "sound st" "pm_instances st' = pm_instances st" "pm_tasks st' = pm_tasks st" "pm_heap st' = pm_heap st" "pm_next st' = pm_next st"
    "pm_hooks st' = pm_hooks st" "pm_injects st' = pm_injects st" "pm_rpc st' = pm_rpc st" "pm_jobs st' = pm_jobs st"
  shows "sound st'"
proof -
  have "tidy st'" by (rule tidy_same[of st]) (use assms in \<open>simp_all add: sound_def leaving_def\<close>)
  moreover have "grounded st'" by (rule grounded_same[of st]) (use assms in \<open>simp_all add: sound_def\<close>)
  ultimately show ?thesis by (simp add: sound_def)
qed

lemma sound_ends: "sound st \<Longrightarrow> sound (loaded s err k st)" "sound st \<Longrightarrow> sound (unloaded s err q st)"
  by (simp_all add: sound_def tidy_ends grounded_ends)

lemma sound_drop: "sound st \<Longrightarrow> sound (drop_instance s n st)"
  using grounded_holder by (auto simp: sound_def tidy_drop grounded_drop)

lemma sound_close: "sound st \<Longrightarrow> sound (close_runtime n st)"
  by (auto simp: sound_def close_runtime_def intro: tidy_on_inst grounded_on_inst)

lemma sound_insert:
  assumes "sound st"
  shows "sound (insert_instance s i k st)"
proof (cases "instance_for s st")
  case None
  let ?new = "\<lparr>pi_info = i, pi_runtime = False, pi_host = False, pi_open = False, pi_handlers = [], pi_statics = [], pi_methods = [], pi_jobs = []\<rparr>"
  let ?st = "put_inst (pm_next st) ?new (st\<lparr>pm_instances := AList.update s (pm_next st) (pm_instances st), pm_next := pm_next st + 1\<rparr>)"
  have h: "holders ?st = insert (s, pm_next st) (holders st)"
    using None by (auto simp: holders_def leaving_def instance_for_def update_conv' split: if_splits)
  have old: "n < pm_next st" if "(t, n) \<in> holders st" for t n using assms that holder_next by (simp add: sound_def)
  have at: "inst_at n ?st = inst_at n st" if "n < pm_next st" for n
    using that by (simp add: inst_at_put) (simp add: inst_at_def)
  have "tidy ?st"
  proof (rule tidy_mono[of st])
    show "n < pm_next ?st" if "(t, n) \<in> holders ?st" for t n using that old unfolding h by (force simp: less_SucI)
    show "methods_of st n \<subseteq> methods_of ?st n \<and> jobs_of st n \<subseteq> jobs_of ?st n" if "(t, n) \<in> holders st" for t n
      using at[OF old[OF that]] by (simp add: methods_of_def jobs_of_def)
  qed (use assms h in \<open>auto simp: sound_def\<close>)
  moreover have "grounded ?st"
    using assms old at unfolding grounded_def sound_def h by (force simp: inst_at_put)
  ultimately have "sound ?st" by (simp only: sound_def)
  then show ?thesis using None sound_plain[of ?st "Prepare s (pm_next st) k"] by (simp add: insert_instance_def Let_def)
qed (use assms in \<open>simp add: insert_instance_def sound_ends\<close>)

lemma sound_take:
  assumes "sound st" "held t = {}"
  shows "sound (st\<lparr>pm_tasks := remove1 t (pm_tasks st)\<rparr>)"
proof -
  let ?st = "st\<lparr>pm_tasks := remove1 t (pm_tasks st)\<rparr>"
  have "leaving ?st = leaving st"
  proof (intro equalityI subsetI)
    fix x assume "x \<in> leaving ?st"
    then show "x \<in> leaving st" using set_remove1_subset[of t "pm_tasks st"] by (auto simp: leaving_def)
  next
    fix x assume "x \<in> leaving st"
    then obtain u where "u \<in> set (pm_tasks st)" "x \<in> held u" by (auto simp: leaving_def)
    moreover then have "u \<noteq> t" using assms(2) by auto
    ultimately show "x \<in> leaving ?st" by (auto simp: leaving_def)
  qed
  then have h: "holders ?st = holders st" by (simp add: holders_def instance_for_def)
  have "tidy ?st" by (rule tidy_same[of st]) (use assms(1) \<open>leaving ?st = leaving st\<close> in \<open>simp_all add: sound_def\<close>)
  moreover have "grounded ?st" using assms(1) h by (simp add: sound_def grounded_def inst_at_def)
  ultimately show ?thesis by (simp add: sound_def)
qed

lemma sound_claim:
  assumes "sound st"
  shows "sound (claim s k st)"
proof (cases "instance_for s st")
  case (Some n)
  let ?t = "CallUnload s n (case inst_at n st of None \<Rightarrow> False | Some i \<Rightarrow> pi_runtime i) k"
  let ?st = "push_task ?t (st\<lparr>pm_instances := AList.delete s (pm_instances st)\<rparr>)"
  have h: "holders ?st = holders st"
    using Some by (auto simp: holders_def leaving_def instance_for_def delete_conv' split: if_splits)
  have at: "inst_at m ?st = inst_at m st" for m by (simp add: inst_at_def push_task_def)
  have "tidy ?st"
  proof (rule tidy_mono[of st])
    show "m < pm_next ?st" if "(t, m) \<in> holders ?st" for t m using that assms holder_next unfolding h by (simp add: sound_def)
  qed (use assms h at in \<open>simp_all add: sound_def methods_of_def jobs_of_def\<close>)
  moreover have "grounded ?st" using assms unfolding sound_def grounded_def h at by blast
  ultimately show ?thesis using Some by (simp add: claim_def sound_def)
qed (use assms in \<open>simp add: claim_def sound_ends\<close>)

text \<open>The two tasks that hold an instance pass it on, and let it go with the cleanup.\<close>

lemma sound_pass:
  assumes "sound st" "CallUnload s n rt k \<in> set (pm_tasks st)"
  shows "sound (push_task (Cleanup s n rt e k) (st\<lparr>pm_tasks := remove1 (CallUnload s n rt k) (pm_tasks st)\<rparr>))"
proof -
  let ?t = "CallUnload s n rt k"
  let ?st = "push_task (Cleanup s n rt e k) (st\<lparr>pm_tasks := remove1 ?t (pm_tasks st)\<rparr>)"
  have "leaving st = leaving ?st"
  proof (intro equalityI subsetI)
    fix x assume "x \<in> leaving st"
    then obtain u where u: "u \<in> set (pm_tasks st)" "x \<in> held u" by (auto simp: leaving_def)
    then show "x \<in> leaving ?st" by (cases "u = ?t") (auto simp: leaving_def)
  next
    fix x assume "x \<in> leaving ?st"
    then obtain u where "u \<in> set (pm_tasks st)" "x \<in> held u"
      using set_remove1_subset[of ?t "pm_tasks st"] assms(2) by (fastforce simp: leaving_def)
    then show "x \<in> leaving st" by (auto simp: leaving_def)
  qed
  then have h: "holders ?st = holders st" by (simp add: holders_def instance_for_def)
  have "tidy ?st" by (rule tidy_same[of st]) (use assms(1) \<open>leaving st = leaving ?st\<close> in \<open>simp_all add: sound_def push_task_def\<close>)
  moreover have "grounded ?st" using assms(1) h by (simp add: sound_def grounded_def) (simp add: inst_at_def)
  ultimately show ?thesis by (simp add: sound_def)
qed

lemma sound_cleanup:
  assumes "sound st" "Cleanup s n rt e k \<in> set (pm_tasks st)"
  shows "sound (push_task (CloseRuntime s n rt e k) (detach s n (st\<lparr>pm_tasks := remove1 (Cleanup s n rt e k) (pm_tasks st)\<rparr>)))"
proof -
  let ?t = "Cleanup s n rt e k"
  let ?st = "st\<lparr>pm_tasks := remove1 ?t (pm_tasks st)\<rparr>"
  have sub: "leaving ?st \<subseteq> leaving st" "leaving st \<subseteq> insert (s, n) (leaving ?st)"
  proof -
    show "leaving ?st \<subseteq> leaving st" using set_remove1_subset[of ?t "pm_tasks st"] by (auto simp: leaving_def)
    show "leaving st \<subseteq> insert (s, n) (leaving ?st)"
    proof
      fix x assume "x \<in> leaving st"
      then obtain u where u: "u \<in> set (pm_tasks st)" "x \<in> held u" by (auto simp: leaving_def)
      then show "x \<in> insert (s, n) (leaving ?st)" by (cases "u = ?t") (auto simp: leaving_def)
    qed
  qed
  have h: "holders st \<subseteq> insert (s, n) (holders ?st)" "holders ?st \<subseteq> holders st"
    using sub by (auto simp: holders_def instance_for_def)
  have "(s, n) \<in> holders st" using assms(2) by (auto simp: holders_def leaving_def intro!: bexI[of _ ?t])
  then have "inst_at n st \<noteq> None" using assms(1) by (auto simp: sound_def grounded_def)
  then have "tidy (detach s n ?st)" by (intro tidy_detach[OF _ h]) (use assms(1) in \<open>simp_all add: sound_def\<close>)
  moreover have "grounded ?st" using assms(1) h(2) by (auto simp: sound_def grounded_def inst_at_def)
  ultimately show ?thesis by (simp add: sound_def tidy_plain grounded_plain grounded_detach)
qed

lemma sound_load_files: "sound st \<Longrightarrow> sound (load_files s k st)"
  by (simp add: load_files_def sound_ends sound_plain split: option.split)

lemma sound_on_inst:
  "sound st \<Longrightarrow> sound (on_inst n (\<lambda>i. i\<lparr>pi_host := True, pi_open := True\<rparr>) st)" "sound st \<Longrightarrow> sound (on_inst n (\<lambda>i. i\<lparr>pi_runtime := True\<rparr>) st)"
  by (auto simp: sound_def intro: tidy_on_inst grounded_on_inst)

lemma sound_tables:
  "sound st \<Longrightarrow> sound (st\<lparr>pm_state := x\<rparr>)" "sound st \<Longrightarrow> sound (st\<lparr>pm_disk := d\<rparr>)" "sound st \<Longrightarrow> sound (st\<lparr>pm_approved := a\<rparr>)"
  by (rule sound_same; simp)+

lemma sound_step:
  assumes "sound st" "held t = {}"
  shows "sound (manager_step digest ok t st)"
proof (cases t)
  case (Approve s i approved)
  then show ?thesis using assms(1) by (simp add: approve_then_load_def Let_def sound_plain sound_tables)
next
  case (CheckRestart s x k)
  then show ?thesis using assms(1) by (simp add: check_restart_def sound_plain split: option.split)
qed (use assms in \<open>simp_all add: sound_plain sound_tables sound_on_inst sound_ends sound_drop sound_close sound_claim sound_insert
  sound_load_files state_set_def state_delete_def Let_def\<close>)

lemma sound_do:
  assumes "sound st"
  shows "sound (plugin_do digest a st)"
proof (cases a)
  case (RunTask ok t)
  consider "held t = {}" | s n rt k where "t = CallUnload s n rt k" | s n rt e k where "t = Cleanup s n rt e k"
    by (cases t) auto
  then show ?thesis
  proof cases
    case 1
    then show ?thesis using assms by (simp add: RunTask sound_step sound_take)
  next
    case 2
    then show ?thesis using assms by (simp add: RunTask sound_pass)
  next
    case 3
    then show ?thesis using assms by (simp add: RunTask sound_cleanup)
  qed
next
  case (Script n c)
  then show ?thesis using assms by (simp add: sound_def tidy_script grounded_script)
next
  case LoadAll
  have "sound (foldl (\<lambda>st s. push_task (StartOne s) st) st xs)" for xs
    using assms by (induction xs rule: rev_induct) (simp_all add: sound_plain)
  then show ?thesis by (simp add: LoadAll)
next
  case CloseAll
  have "sound (foldl (\<lambda>st s. push_task (Unload s ToClose) st) st xs)" for xs
    using assms by (induction xs rule: rev_induct) (simp_all add: sound_plain)
  then show ?thesis by (simp add: CloseAll)
qed (use assms in \<open>simp_all add: sound_plain split: option.split sum.split\<close>)

lemma sound_run: "sound st \<Longrightarrow> sound (plugin_run digest acts st)"
  by (induction acts rule: rev_induct) (simp_all add: plugin_run_def sound_do)

lemma sound_start: "sound (manager_start current disk state own)"
  by (auto simp: sound_def tidy_def grounded_def holders_def leaving_def manager_start_def instance_for_def)

section \<open>Methods of the hub\<close>

definition own_methods :: "go_string set \<Rightarrow> plugin_manager \<Rightarrow> bool" where
  "own_methods M st \<longleftrightarrow> (\<forall>m\<in>M. map_of (pm_rpc st) m = Some None \<and> (\<forall>n. m \<notin> methods_of st n))"

lemma own_same: "own_methods M st \<Longrightarrow> pm_rpc st' = pm_rpc st \<Longrightarrow> pm_heap st' = pm_heap st \<Longrightarrow> own_methods M st'"
  by (simp add: own_methods_def methods_of_def inst_at_def)

lemma own_push [simp]: "own_methods M (push_task t st) = own_methods M st"
  by (simp add: own_methods_def)

lemma own_put: "own_methods M st \<Longrightarrow> (\<And>m. m \<in> M \<Longrightarrow> m \<notin> set (pi_methods i)) \<Longrightarrow> own_methods M (put_inst n i st)"
  by (auto simp: own_methods_def of_put)

lemma own_none: "own_methods M st \<Longrightarrow> inst_at n st = Some i \<Longrightarrow> m \<in> set (pi_methods i) \<Longrightarrow> m \<notin> M"
  by (force simp: own_methods_def methods_of_def split: option.splits)

lemma own_on_inst: "own_methods M st \<Longrightarrow> (\<And>i. pi_methods (f i) = pi_methods i) \<Longrightarrow> own_methods M (on_inst n f st)"
  by (cases "inst_at n st") (auto simp: on_inst_def intro!: own_put dest: own_none)

lemma own_ends [simp]: "own_methods M (loaded s err k st) = own_methods M st" "own_methods M (unloaded s err q st) = own_methods M st"
  by (simp_all add: loaded_def unloaded_def Let_def split: after_load.split after_unload.split option.split)

lemma own_filter:
  assumes "m \<notin> set ms"
  shows "map_of (remove_methods ms r) m = map_of r m"
  using assms by (induction r) (auto simp: remove_methods_def)

lemma own_detach:
  assumes "own_methods M st"
  shows "own_methods M (detach s n st)"
proof (cases "inst_at n st")
  case (Some i)
  have "map_of (remove_methods (pi_methods i) (pm_rpc st)) m = Some None" if "m \<in> M" for m
    using assms own_filter[of m "pi_methods i" "pm_rpc st"] own_none[OF assms Some, of m] that by (auto simp: own_methods_def)
  then have "own_methods M (st\<lparr>pm_rpc := remove_methods (pi_methods i) (pm_rpc st), pm_jobs := js, pm_hooks := hs, pm_injects := xs\<rparr>)" for js hs xs
    using assms by (simp add: own_methods_def methods_of_def inst_at_def)
  then show ?thesis using Some by (simp add: detach_def own_put)
qed (use assms in \<open>simp add: detach_def\<close>)

lemma own_drop: "own_methods M st \<Longrightarrow> own_methods M (drop_instance s n st)"
  by (simp add: drop_instance_def own_detach own_same[of M st])

lemma own_claim: "own_methods M st \<Longrightarrow> own_methods M (claim s k st)"
  by (auto simp: claim_def elim: own_same split: option.split)

lemma own_insert: "own_methods M st \<Longrightarrow> own_methods M (insert_instance s i k st)"
  by (auto simp: insert_instance_def Let_def intro!: own_put elim: own_same)

lemma own_script:
  assumes "own_methods M st"
  shows "own_methods M (snd (script_calls n c st))"
proof -
  have lists: "own_methods M (st\<lparr>pm_hooks := hs\<rparr>)" "own_methods M (st\<lparr>pm_injects := js\<rparr>)" "own_methods M (st\<lparr>pm_seq := q\<rparr>)"
      "own_methods M (st\<lparr>pm_routes := r\<rparr>)" "own_methods M (st\<lparr>pm_seq := q, pm_jobs := x\<rparr>)" for hs js q r x
    by (rule own_same[OF assms]; simp)+
  have free: "m \<notin> M" if "map_of (pm_rpc st) m = None" for m using assms that by (auto simp: own_methods_def)
  have "own_methods M (st\<lparr>pm_rpc := (m, Some s) # pm_rpc st\<rparr>)" if "map_of (pm_rpc st) m = None" for m s
    using assms that by (auto simp: own_methods_def methods_of_def inst_at_def)
  then show ?thesis
    using assms lists free
    by (auto dest: own_none[OF assms] simp: script_calls_def register_route_def register_static_def register_hook_def register_inject_def register_cron_def
        register_rpc_def Let_def intro!: own_put split: option.splits script_call.splits)
qed

lemma own_step: "own_methods M st \<Longrightarrow> own_methods M (manager_step digest ok t st)"
proof -
  assume own: "own_methods M st"
  have tables: "own_methods M (st\<lparr>pm_state := x\<rparr>)" "own_methods M (st\<lparr>pm_disk := d\<rparr>)" "own_methods M (st\<lparr>pm_approved := a\<rparr>)" for x d a
    by (rule own_same[OF own]; simp)+
  show ?thesis
    by (cases t) (use own tables in \<open>simp_all add: own_on_inst own_drop own_claim own_insert own_detach close_runtime_def load_files_def
      state_set_def state_delete_def approve_then_load_def check_restart_def Let_def split: option.split\<close>)
qed

lemma own_do: "own_methods M st \<Longrightarrow> own_methods M (plugin_do digest a st)"
proof (cases a)
  case LoadAll
  assume own: "own_methods M st"
  have "own_methods M (foldl (\<lambda>st s. push_task (StartOne s) st) st xs)" for xs
    using own by (induction xs rule: rev_induct) simp_all
  then show ?thesis by (simp add: LoadAll)
next
  case CloseAll
  assume own: "own_methods M st"
  have "own_methods M (foldl (\<lambda>st s. push_task (Unload s ToClose) st) st xs)" for xs
    using own by (induction xs rule: rev_induct) simp_all
  then show ?thesis by (simp add: CloseAll)
next
  case (RunTask ok t)
  assume own: "own_methods M st"
  have "own_methods M (st\<lparr>pm_tasks := x\<rparr>)" for x by (rule own_same[OF own]; simp)
  then show ?thesis using own by (simp add: RunTask own_step)
qed (simp_all add: own_script split: option.split sum.split)

end
