(* ===== verification/Plugin_Lifecycle.thy ===== *)
theory Plugin_Lifecycle
  imports Plugin_Manager
begin

text \<open>
  What the manager of plugins guarantees whatever administrators and scripts do in any order: a plugin that
  has been unloaded leaves nothing behind, no plugin takes a method of the hub, and a plugin that needs an
  approval runs only with permissions that were approved.  Then the runs in which calls that overlap
  do what the code does not mean to do.
\<close>

section \<open>Approval\<close>

definition vetted :: "(bool list \<Rightarrow> go_string) \<Rightarrow> plugin_manager \<Rightarrow> go_string \<Rightarrow> plugin_info \<Rightarrow> bool" where
  "vetted digest st s i \<longleftrightarrow> (permissions_require_approval (pl_permissions i) \<longrightarrow>
     (s, approval_hash digest (pl_permissions i)) \<in> set (pm_approved st))"

definition fine :: "plugin_manager \<Rightarrow> go_string \<Rightarrow> plugin_state \<Rightarrow> bool" where
  "fine st s x \<longleftrightarrow> ps_hash x = [] \<or> (s, ps_hash x) \<in> set (pm_approved st)"

definition fine_load :: "plugin_manager \<Rightarrow> go_string \<Rightarrow> after_load \<Rightarrow> bool" where
  "fine_load st s k = (case k of ToEnable x \<Rightarrow> fine st s x | ToRestart x \<Rightarrow> fine st s x | ToStart x \<Rightarrow> fine st s x)"

definition fine_unload :: "plugin_manager \<Rightarrow> go_string \<Rightarrow> after_unload \<Rightarrow> bool" where
  "fine_unload st s k = (case k of ToDisable x \<Rightarrow> fine st s x | _ \<Rightarrow> True)"

definition disk_vetted :: "(bool list \<Rightarrow> go_string) \<Rightarrow> plugin_manager \<Rightarrow> go_string \<Rightarrow> bool" where
  "disk_vetted digest st s \<longleftrightarrow> (\<forall>i. read_manifest s st = Some i \<longrightarrow> vetted digest st s i)"

definition task_vetted :: "(bool list \<Rightarrow> go_string) \<Rightarrow> plugin_manager \<Rightarrow> manager_task \<Rightarrow> bool" where
  "task_vetted digest st t = (case t of
       Save s x \<Rightarrow> fine st s x
     | SaveThenLoad s x \<Rightarrow> fine st s x \<and> disk_vetted digest st s
     | Load s k \<Rightarrow> fine_load st s k \<and> disk_vetted digest st s
     | Insert s i k \<Rightarrow> fine_load st s k \<and> vetted digest st s i
     | Prepare s n k \<Rightarrow> fine_load st s k | Evaluate s n k \<Rightarrow> fine_load st s k
     | CallLoad s n k \<Rightarrow> fine_load st s k | CheckLoaded s n k \<Rightarrow> fine_load st s k
     | Unload s k \<Rightarrow> fine_unload st s k | CallUnload s n rt k \<Rightarrow> fine_unload st s k
     | Cleanup s n rt e k \<Rightarrow> fine_unload st s k | CloseRuntime s n rt e k \<Rightarrow> fine_unload st s k
     | CheckRestart s x k \<Rightarrow> fine st s x \<and> fine_load st s k
     | Enable s i a \<Rightarrow> read_manifest s st \<in> {None, Some i} | Approve s i a \<Rightarrow> read_manifest s st \<in> {None, Some i}
     | _ \<Rightarrow> True)"

definition info_at :: "plugin_manager \<Rightarrow> nat \<Rightarrow> plugin_info option" where
  "info_at st n = map_option pi_info (inst_at n st)"

definition all_vetted :: "(bool list \<Rightarrow> go_string) \<Rightarrow> plugin_manager \<Rightarrow> bool" where
  "all_vetted digest st \<longleftrightarrow> (\<forall>s. fine st s (state_get s st)) \<and> (\<forall>t\<in>set (pm_tasks st). task_vetted digest st t) \<and>
     (\<forall>s n i. instance_for s st = Some n \<longrightarrow> info_at st n = Some i \<longrightarrow> vetted digest st s i)"

lemma vetted_mono:
  assumes "set (pm_approved st) \<subseteq> set (pm_approved st')"
  shows "vetted digest st s i \<Longrightarrow> vetted digest st' s i" "fine st s x \<Longrightarrow> fine st' s x"
    "fine_load st s k \<Longrightarrow> fine_load st' s k" "fine_unload st s q \<Longrightarrow> fine_unload st' s q"
  using assms by (auto simp: vetted_def fine_def fine_load_def fine_unload_def split: after_load.splits after_unload.splits)

lemma task_vetted_mono:
  assumes "set (pm_approved st) \<subseteq> set (pm_approved st')" "\<And>s. read_manifest s st' \<in> {None, read_manifest s st}" "task_vetted digest st t"
  shows "task_vetted digest st' t"
proof -
  note m = vetted_mono[OF assms(1)]
  have d: "disk_vetted digest st' s" if "disk_vetted digest st s" for s
    using that assms(2)[of s] m(1) by (auto simp: disk_vetted_def)
  have e: "read_manifest s st' \<in> {None, Some i}" if "read_manifest s st \<in> {None, Some i}" for s i
    using that assms(2)[of s] by auto
  show ?thesis using assms(3) m d e by (cases t) (simp_all add: task_vetted_def)
qed

lemma all_vettedI:
  assumes "all_vetted digest st" "set (pm_approved st) \<subseteq> set (pm_approved st')" "\<And>s. read_manifest s st' \<in> {None, read_manifest s st}"
    "\<And>s. state_get s st' = state_get s st \<or> fine st' s (state_get s st')"
    "\<And>t. t \<in> set (pm_tasks st') \<Longrightarrow> t \<in> set (pm_tasks st) \<or> task_vetted digest st' t"
    "\<And>s n i. instance_for s st' = Some n \<Longrightarrow> info_at st' n = Some i \<Longrightarrow>
       instance_for s st = Some n \<and> info_at st n = Some i \<or> vetted digest st' s i"
  shows "all_vetted digest st'"
proof -
  note m = vetted_mono[OF assms(2)] task_vetted_mono[OF assms(2,3)]
  have "fine st' s (state_get s st')" for s using assms(1) assms(4)[of s] m(2) by (auto simp: all_vetted_def)
  moreover have "task_vetted digest st' t" if "t \<in> set (pm_tasks st')" for t
    using assms(5)[OF that] assms(1) m(5) unfolding all_vetted_def by blast
  moreover have "vetted digest st' s i" if "instance_for s st' = Some n" "info_at st' n = Some i" for s n i
    using assms(6)[OF that] assms(1) m(1) unfolding all_vetted_def by blast
  ultimately show ?thesis unfolding all_vetted_def by blast
qed

definition same_outline :: "plugin_manager \<Rightarrow> plugin_manager \<Rightarrow> bool" where
  "same_outline st st' \<longleftrightarrow> pm_disk st' = pm_disk st \<and> pm_state st' = pm_state st \<and> pm_approved st' = pm_approved st \<and>
     pm_instances st' = pm_instances st \<and> info_at st' = info_at st"

lemma outline_reads:
  assumes "same_outline st st'"
  shows "read_manifest s st' = read_manifest s st" "state_get s st' = state_get s st" "instance_for s st' = instance_for s st"
    "info_at st' n = info_at st n" "vetted digest st' t i = vetted digest st t i" "fine st' t x = fine st t x"
    "task_vetted digest st' u = task_vetted digest st u"
proof -
  show r: "read_manifest s st' = read_manifest s st" for s using assms by (simp add: same_outline_def read_manifest_def)
  show "state_get s st' = state_get s st" "instance_for s st' = instance_for s st"
    using assms by (simp_all add: same_outline_def state_get_def instance_for_def)
  show "info_at st' n = info_at st n" using assms by (simp add: same_outline_def)
  have a: "set (pm_approved st) \<subseteq> set (pm_approved st')" "set (pm_approved st') \<subseteq> set (pm_approved st)"
    using assms by (simp_all add: same_outline_def)
  show "vetted digest st' t i = vetted digest st t i" "fine st' t x = fine st t x"
    using vetted_mono[OF a(1)] vetted_mono[OF a(2)] by blast+
  show "task_vetted digest st' u = task_vetted digest st u"
    using task_vetted_mono[OF a(1), of digest u] task_vetted_mono[OF a(2), of digest u] r by auto
qed

lemma all_vetted_outline:
  assumes "all_vetted digest st" "same_outline st st'"
    "\<And>t. t \<in> set (pm_tasks st') \<Longrightarrow> t \<in> set (pm_tasks st) \<or> task_vetted digest st t"
  shows "all_vetted digest st'"
  by (rule all_vettedI[OF assms(1)]) (use assms(2,3) outline_reads[OF assms(2)] in \<open>auto simp: same_outline_def\<close>)

lemma outline_refl: "same_outline st st" "same_outline st (push_task t st)" "same_outline st (st\<lparr>pm_tasks := ts\<rparr>)"
  by (auto simp: same_outline_def info_at_def inst_at_def push_task_def)

lemma outline_put: "inst_at n st = Some i \<Longrightarrow> pi_info i' = pi_info i \<Longrightarrow> same_outline st (put_inst n i' st)"
  by (auto simp: same_outline_def info_at_def inst_at_put)

lemma outline_trans: "same_outline st st1 \<Longrightarrow> same_outline st1 st2 \<Longrightarrow> same_outline st st2"
  by (simp add: same_outline_def)

lemma outline_on_inst: "(\<And>i. pi_info (f i) = pi_info i) \<Longrightarrow> same_outline st (on_inst n f st)"
  by (cases "inst_at n st") (simp_all add: on_inst_def outline_refl outline_put)

lemma outline_tables:
  "same_outline st (st\<lparr>pm_hooks := hs\<rparr>)" "same_outline st (st\<lparr>pm_injects := js\<rparr>)" "same_outline st (st\<lparr>pm_seq := q\<rparr>)"
  "same_outline st (st\<lparr>pm_routes := r\<rparr>)" "same_outline st (st\<lparr>pm_seq := q, pm_jobs := x\<rparr>)" "same_outline st (st\<lparr>pm_rpc := m\<rparr>)"
  "same_outline st (st\<lparr>pm_rpc := m, pm_jobs := x, pm_hooks := hs, pm_injects := js\<rparr>)"
  by (simp_all add: same_outline_def info_at_def inst_at_def fun_eq_iff)

lemma outline_put_tables:
  assumes "inst_at n st = Some i" "pi_info i' = pi_info i" "same_outline st st'" "pm_heap st' = pm_heap st"
  shows "same_outline st (put_inst n i' st')"
  by (rule outline_trans[OF assms(3) outline_put]) (use assms in \<open>auto simp: inst_at_def\<close>)

lemma outline_script: "same_outline st (snd (script_calls n c st)) \<and> pm_tasks (snd (script_calls n c st)) = pm_tasks st"
  by (auto simp: script_calls_def register_route_def register_static_def register_hook_def register_inject_def register_cron_def
      register_rpc_def Let_def intro!: outline_refl outline_tables outline_put_tables split: option.splits script_call.splits)

lemma outline_detach: "same_outline st (detach s n st) \<and> pm_tasks (detach s n st) = pm_tasks st"
  by (auto simp: detach_def intro!: outline_refl outline_tables outline_put_tables split: option.split)

lemma outline_close: "same_outline st (close_runtime n st)" "pm_tasks (close_runtime n st) = pm_tasks st"
  by (simp_all add: close_runtime_def outline_on_inst) (simp add: on_inst_def split: option.split)

lemma vetted_drop:
  assumes "all_vetted digest st"
  shows "all_vetted digest (drop_instance s n st)"
proof -
  let ?st = "st\<lparr>pm_instances := AList.delete s (pm_instances st)\<rparr>"
  have "all_vetted digest ?st"
    by (rule all_vettedI[OF assms])
      (auto simp: read_manifest_def state_get_def instance_for_def delete_conv' info_at_def inst_at_def split: if_splits)
  then have "all_vetted digest (detach s n ?st)" using outline_detach[of ?st s n] by (auto intro: all_vetted_outline)
  then show ?thesis using assms by (simp add: drop_instance_def)
qed

lemma vetted_close: "all_vetted digest st \<Longrightarrow> all_vetted digest (close_runtime n st)"
  by (rule all_vetted_outline[OF _ outline_close(1)]) (simp_all add: outline_close)

lemma vetted_push: "all_vetted digest st \<Longrightarrow> task_vetted digest st t \<Longrightarrow> all_vetted digest (push_task t st)"
  by (rule all_vetted_outline[OF _ outline_refl(2)]) auto

lemma vetted_loaded:
  assumes "all_vetted digest st" "fine_load st s k"
  shows "all_vetted digest (loaded s err k st)"
  using assms by (auto simp: loaded_def fine_load_def fine_def task_vetted_def intro!: vetted_push split: after_load.splits option.splits)

lemma vetted_unloaded:
  assumes "all_vetted digest st" "fine_unload st s k"
  shows "all_vetted digest (unloaded s err k st)"
  using assms
  by (auto simp: unloaded_def Let_def fine_unload_def fine_def task_vetted_def intro!: vetted_push split: after_unload.splits option.splits)

text \<open>Between the check of the permissions and the reading of the files to load, the files must not be replaced.\<close>

definition loading :: "go_string \<Rightarrow> manager_task \<Rightarrow> bool" where
  "loading s t = (case t of Enable r i a \<Rightarrow> r = s | Approve r i a \<Rightarrow> r = s | SaveThenLoad r x \<Rightarrow> r = s | Load r k \<Rightarrow> r = s | _ \<Rightarrow> False)"

definition not_loading :: "go_string \<Rightarrow> plugin_manager \<Rightarrow> bool" where
  "not_loading s st \<longleftrightarrow> list_all (\<lambda>t. \<not> loading s t) (pm_tasks st)"

lemma vetted_disk:
  assumes "all_vetted digest st" "\<And>r. r \<noteq> s \<Longrightarrow> map_of d r = map_of (pm_disk st) r" "map_of d s = None \<or> not_loading s st"
  shows "all_vetted digest (st\<lparr>pm_disk := d\<rparr>)"
proof -
  let ?st = "st\<lparr>pm_disk := d\<rparr>"
  have other: "read_manifest r ?st = read_manifest r st" if "r \<noteq> s" for r using assms(2)[OF that] by (simp add: read_manifest_def)
  have "task_vetted digest ?st t" if t: "t \<in> set (pm_tasks st)" for t
  proof -
    have v: "task_vetted digest st t" using assms(1) t by (simp add: all_vetted_def)
    show ?thesis
    proof (cases "map_of d s")
      case None
      then have "read_manifest r ?st \<in> {None, read_manifest r st}" for r using other by (cases "r = s") (simp_all add: read_manifest_def)
      then show ?thesis by (intro task_vetted_mono[OF _ _ v]) simp_all
    next
      case (Some pk)
      then have nl: "\<not> loading s t" using assms(3) t by (auto simp: not_loading_def list_all_iff)
      have "vetted digest ?st = vetted digest st" "fine ?st = fine st" by (auto simp: vetted_def fine_def fun_eq_iff)
      then show ?thesis using v nl other
        by (cases t) (auto simp: task_vetted_def loading_def disk_vetted_def fine_load_def fine_unload_def split: after_load.splits after_unload.splits)
    qed
  qed
  moreover have "vetted digest ?st = vetted digest st" "fine ?st = fine st" by (auto simp: vetted_def fine_def fun_eq_iff)
  moreover have "state_get r ?st = state_get r st" "instance_for r ?st = instance_for r st" "info_at ?st m = info_at st m" for r m
    by (simp_all add: state_get_def instance_for_def info_at_def inst_at_def)
  ultimately show ?thesis using assms(1) by (simp add: all_vetted_def)
qed

lemma vetted_state:
  assumes "all_vetted digest st" "\<And>r. state_get r (st\<lparr>pm_state := x\<rparr>) = state_get r st \<or> fine st r (state_get r (st\<lparr>pm_state := x\<rparr>))"
  shows "all_vetted digest (st\<lparr>pm_state := x\<rparr>)"
proof -
  have f: "fine (st\<lparr>pm_state := x\<rparr>) = fine st" by (auto simp: fine_def fun_eq_iff)
  show ?thesis
    by (rule all_vettedI[OF assms(1)])
      (use assms(2) in \<open>simp_all add: f read_manifest_def instance_for_def info_at_def inst_at_def\<close>)
qed

lemma vetted_save:
  assumes "all_vetted digest st" "fine st s x"
  shows "all_vetted digest (state_set s x st)"
  unfolding state_set_def
  by (rule vetted_state[OF assms(1)]) (use assms(2) in \<open>auto simp: state_get_def update_conv'\<close>)

lemma vetted_forget:
  assumes "all_vetted digest st"
  shows "all_vetted digest (state_delete s st)"
  unfolding state_delete_def
  by (rule vetted_state[OF assms]) (auto simp: state_get_def delete_conv' fine_def no_state_def)

definition numbered :: "plugin_manager \<Rightarrow> bool" where
  "numbered st \<longleftrightarrow> (\<forall>s n. instance_for s st = Some n \<longrightarrow> n < pm_next st)"

lemma vetted_insert:
  assumes "all_vetted digest st" "numbered st" "vetted digest st s i" "fine_load st s k"
  shows "all_vetted digest (insert_instance s i k st)"
proof (cases "instance_for s st")
  case None
  let ?new = "\<lparr>pi_info = i, pi_runtime = False, pi_host = False, pi_open = False, pi_handlers = [], pi_statics = [], pi_methods = [], pi_jobs = []\<rparr>"
  let ?st = "put_inst (pm_next st) ?new (st\<lparr>pm_instances := AList.update s (pm_next st) (pm_instances st), pm_next := pm_next st + 1\<rparr>)"
  have same: "vetted digest ?st = vetted digest st" "fine ?st = fine st" by (auto simp: vetted_def fine_def fun_eq_iff)
  have old: "n < pm_next st" if "instance_for t st = Some n" for t n
    using assms(2) that by (simp add: numbered_def)
  have "all_vetted digest ?st"
  proof (rule all_vettedI[OF assms(1)])
    fix t n j assume n: "instance_for t ?st = Some n" "info_at ?st n = Some j"
    show "instance_for t st = Some n \<and> info_at st n = Some j \<or> vetted digest ?st t j"
    proof (cases "t = s")
      case True
      then have "j = i" using n by (auto simp: instance_for_def update_conv' info_at_def inst_at_put)
      then show ?thesis using True assms(3) same(1) by (simp only: simp_thms)
    next
      case False
      then have t: "instance_for t st = Some n" using n by (simp add: instance_for_def update_conv')
      then show ?thesis using n(2) old[OF t] by (simp add: info_at_def inst_at_put) (simp add: inst_at_def)
    qed
  qed (simp_all add: read_manifest_def state_get_def)
  then have "all_vetted digest (push_task (Prepare s (pm_next st) k) ?st)"
    by (rule vetted_push) (use assms(4) same(2) in \<open>simp add: task_vetted_def fine_load_def split: after_load.splits\<close>)
  then show ?thesis using None by (simp add: insert_instance_def Let_def)
qed (use assms in \<open>simp add: insert_instance_def vetted_loaded\<close>)

lemma vetted_approve:
  assumes "all_vetted digest st" "read_manifest s st \<in> {None, Some i}"
  shows "all_vetted digest (approve_then_load digest s i a st)"
proof -
  let ?h = "approval_hash digest (pl_permissions i)" and ?x = "state_get s st"
  have x: "fine st s ?x" using assms(1) by (simp add: all_vetted_def)
  have "all_vetted digest (push_task (Load s (ToEnable ?x)) st)" if "\<not> needs_approval digest i ?x"
  proof (rule vetted_push[OF assms(1)])
    have "vetted digest st s i" using that x by (auto simp: needs_approval_def vetted_def fine_def approval_hash_def)
    then show "task_vetted digest st (Load s (ToEnable ?x))" using x assms(2) by (auto simp: task_vetted_def fine_load_def disk_vetted_def)
  qed
  moreover have "all_vetted digest (push_task (SaveThenLoad s (?x\<lparr>ps_hash := ?h\<rparr>)) (st\<lparr>pm_approved := (s, ?h) # pm_approved st\<rparr>))"
  proof (rule vetted_push)
    show "all_vetted digest (st\<lparr>pm_approved := (s, ?h) # pm_approved st\<rparr>)"
      by (rule all_vettedI[OF assms(1)]) (auto simp: read_manifest_def state_get_def instance_for_def info_at_def inst_at_def)
    show "task_vetted digest (st\<lparr>pm_approved := (s, ?h) # pm_approved st\<rparr>) (SaveThenLoad s (?x\<lparr>ps_hash := ?h\<rparr>))"
      using assms(2) by (auto simp: task_vetted_def fine_def disk_vetted_def vetted_def read_manifest_def)
  qed
  ultimately show ?thesis using assms(1) by (simp add: approve_then_load_def Let_def)
qed

lemma vetted_restart:
  assumes "all_vetted digest st" "fine st s x" "fine_load st s k"
  shows "all_vetted digest (check_restart digest s x k st)"
proof (cases "read_manifest s st")
  case None
  have "task_vetted digest st (Save s (x\<lparr>ps_enabled := False, ps_error := e\<rparr>))" for e
    using assms(2) by (simp add: task_vetted_def fine_def)
  then show ?thesis using None assms(1) by (simp add: check_restart_def vetted_push)
next
  case (Some i)
  have save: "task_vetted digest st (Save s (x\<lparr>ps_enabled := False, ps_error := e\<rparr>))" for e
    using assms(2) by (simp add: task_vetted_def fine_def)
  have "task_vetted digest st (Load s k)" if "\<not> needs_approval digest i x"
    using that assms(2,3) Some
    by (auto simp: task_vetted_def disk_vetted_def needs_approval_def vetted_def fine_def approval_hash_def)
  then show ?thesis using Some assms(1) save by (simp add: check_restart_def vetted_push)
qed

lemma vetted_load_files:
  assumes "all_vetted digest st" "fine_load st s k" "disk_vetted digest st s"
  shows "all_vetted digest (load_files s k st)"
  using assms
  by (auto simp: load_files_def disk_vetted_def task_vetted_def intro!: vetted_loaded vetted_push split: option.split)

lemma vetted_claim:
  assumes "all_vetted digest st" "fine_unload st s k"
  shows "all_vetted digest (claim s k st)"
proof (cases "instance_for s st")
  case (Some n)
  let ?st = "st\<lparr>pm_instances := AList.delete s (pm_instances st)\<rparr>"
  have "all_vetted digest ?st"
    by (rule all_vettedI[OF assms(1)])
      (auto simp: read_manifest_def state_get_def instance_for_def delete_conv' info_at_def inst_at_def split: if_splits)
  then have "all_vetted digest (push_task (CallUnload s n rt k) ?st)" for rt
    by (rule vetted_push) (use assms(2) in \<open>simp add: task_vetted_def fine_unload_def fine_def split: after_unload.splits\<close>)
  then show ?thesis using Some by (simp add: claim_def)
qed (use assms in \<open>simp add: claim_def vetted_unloaded\<close>)

lemma fine_moves:
  "fine_load (drop_instance s n st) t k = fine_load st t k" "fine_load (close_runtime n st) t k = fine_load st t k"
  "fine_load (on_inst n f st) t k = fine_load st t k" "fine_unload (close_runtime n st) t q = fine_unload st t q"
  "fine_unload (detach s n st) t q = fine_unload st t q"
proof -
  have d: "pm_approved (detach s n st) = pm_approved st" "pm_approved (on_inst n f st) = pm_approved st" for s n st f
    by (simp_all add: detach_def on_inst_def split: option.split)
  show "fine_load (drop_instance s n st) t k = fine_load st t k" "fine_load (close_runtime n st) t k = fine_load st t k"
    "fine_load (on_inst n f st) t k = fine_load st t k" "fine_unload (close_runtime n st) t q = fine_unload st t q"
    "fine_unload (detach s n st) t q = fine_unload st t q"
    by (simp_all add: fine_load_def fine_unload_def fine_def drop_instance_def close_runtime_def d split: after_load.split after_unload.split)
qed

lemma vetted_step:
  assumes "all_vetted digest st" "numbered st" "task_vetted digest st t" "\<And>s pk. t = Extract s pk \<Longrightarrow> not_loading s st"
  shows "all_vetted digest (manager_step digest ok t st)"
proof -
  have state: "fine st s (state_get s st)" for s using assms(1) by (simp add: all_vetted_def)
  have on: "all_vetted digest (on_inst n (\<lambda>i. i\<lparr>pi_host := True, pi_open := True\<rparr>) st)"
      "all_vetted digest (on_inst n (\<lambda>i. i\<lparr>pi_runtime := True\<rparr>) st)" for n
    by (rule all_vetted_outline[OF assms(1) outline_on_inst]; simp add: on_inst_def split: option.splits)+
  show ?thesis
  proof (cases t)
    case (Disable s)
    then show ?thesis using assms(1) state[of s] by (auto simp: task_vetted_def fine_unload_def fine_def intro!: vetted_push)
  next
    case (Enable s i a)
    then show ?thesis using assms(1,3) by (auto simp: task_vetted_def intro!: vetted_push)
  next
    case (MarkEnabled s)
    then show ?thesis using assms(1) state[of s] by (auto simp: task_vetted_def fine_def intro!: vetted_push)
  next
    case (SaveThenLoad s x)
    have f: "fine st s x" "disk_vetted digest st s" using assms(3) by (simp_all add: SaveThenLoad task_vetted_def)
    have "task_vetted digest (state_set s x st) (Load s (ToEnable x))"
      using f by (simp add: task_vetted_def fine_load_def fine_def disk_vetted_def vetted_def read_manifest_def state_set_def)
    then show ?thesis using vetted_save[OF assms(1) f(1)] by (simp add: SaveThenLoad vetted_push)
  next
    case (Cleanup s n rt e k)
    have o: "same_outline st (detach s n st)" "pm_tasks (detach s n st) = pm_tasks st" using outline_detach by simp_all
    have "all_vetted digest (detach s n st)" by (rule all_vetted_outline[OF assms(1) o(1)]) (simp add: o(2))
    moreover have "task_vetted digest (detach s n st) (CloseRuntime s n rt e k)"
      using assms(3) by (simp add: Cleanup task_vetted_def fine_moves)
    ultimately show ?thesis by (simp add: Cleanup vetted_push)
  next
    case (ReadRestart s)
    then show ?thesis using assms(1) state[of s] by (auto simp: task_vetted_def fine_load_def Let_def intro!: vetted_push)
  next
    case (StartOne s)
    then show ?thesis using assms(1) state[of s] by (auto simp: task_vetted_def fine_load_def Let_def intro!: vetted_push)
  next
    case (DeleteFiles s)
    have "all_vetted digest (st\<lparr>pm_disk := AList.delete s (pm_disk st)\<rparr>)"
      by (rule vetted_disk[OF assms(1), of s]) (simp_all add: delete_conv')
    then show ?thesis using assms(1) by (auto simp: DeleteFiles task_vetted_def intro!: vetted_push)
  next
    case (Extract s pk)
    have "all_vetted digest (st\<lparr>pm_disk := AList.delete s (pm_disk st)\<rparr>)"
      by (rule vetted_disk[OF assms(1), of s]) (simp_all add: delete_conv')
    moreover have "all_vetted digest (st\<lparr>pm_disk := AList.update s pk (pm_disk st)\<rparr>)"
      by (rule vetted_disk[OF assms(1), of s]) (use assms(4)[OF Extract] in \<open>simp_all add: update_conv'\<close>)
    ultimately show ?thesis by (auto simp: Extract task_vetted_def intro!: vetted_push)
  next
    case (Prepare s n k)
    then show ?thesis using assms(1,3) on(1)[of n]
      by (auto simp: task_vetted_def fine_moves intro!: vetted_push vetted_loaded vetted_drop)
  next
    case (Evaluate s n k)
    then show ?thesis using assms(1,3) on(2)[of n]
      by (auto simp: task_vetted_def fine_moves intro!: vetted_push vetted_loaded vetted_drop vetted_close)
  next
    case (CallLoad s n k)
    then show ?thesis using assms(1,3)
      by (auto simp: task_vetted_def fine_moves intro!: vetted_push vetted_loaded vetted_drop vetted_close)
  next
    case (CheckEnabled s)
    then show ?thesis using assms(1) by (auto simp: task_vetted_def intro!: vetted_push)
  next
    case (CallUnload s n rt k)
    then show ?thesis using assms(1,3) by (auto simp: task_vetted_def intro!: vetted_push)
  qed (use assms in \<open>auto simp: task_vetted_def fine_moves vetted_save vetted_forget vetted_insert vetted_approve vetted_restart
    vetted_load_files vetted_claim vetted_loaded vetted_unloaded vetted_close\<close>)
qed

text \<open>No package is unpacked over a plugin between the check of its permissions and the reading of its files.\<close>

fun no_swap :: "(bool list \<Rightarrow> go_string) \<Rightarrow> plugin_act list \<Rightarrow> plugin_manager \<Rightarrow> bool" where
  "no_swap digest [] st \<longleftrightarrow> True"
| "no_swap digest (a # as) st \<longleftrightarrow> (case a of RunTask ok (Extract s pk) \<Rightarrow> not_loading s st | _ \<Rightarrow> True) \<and>
     no_swap digest as (plugin_do digest a st)"

lemma vetted_do:
  assumes "all_vetted digest st" "sound st" "no_swap digest [a] st"
  shows "all_vetted digest (plugin_do digest a st)"
proof (cases a)
  case (RunTask ok t)
  let ?st = "st\<lparr>pm_tasks := remove1 t (pm_tasks st)\<rparr>"
  have o: "same_outline st ?st" by (rule outline_refl)
  have sub: "set (pm_tasks ?st) \<subseteq> set (pm_tasks st)" by (simp add: set_remove1_subset)
  have v: "all_vetted digest ?st" by (rule all_vetted_outline[OF assms(1) o]) (use sub in blast)
  have n: "numbered ?st"
    using assms(2) holder_next[of st] by (auto simp: numbered_def instance_for_def sound_def holders_def)
  show ?thesis
  proof (cases "t \<in> set (pm_tasks st)")
    case True
    have "task_vetted digest ?st t" using assms(1) True outline_reads(7)[OF o] by (simp add: all_vetted_def)
    moreover have "not_loading s ?st" if "t = Extract s pk" for s pk
    proof -
      have "not_loading s st" using assms(3) that by (simp add: RunTask)
      then show ?thesis using sub unfolding not_loading_def list_all_iff by blast
    qed
    ultimately show ?thesis using True vetted_step[OF v n] by (simp add: RunTask)
  qed (use assms in \<open>simp add: RunTask\<close>)
next
  case (Script n c)
  have o: "same_outline st (snd (script_calls n c st))" "pm_tasks (snd (script_calls n c st)) = pm_tasks st"
    using outline_script by simp_all
  show ?thesis unfolding Script plugin_do.simps by (rule all_vetted_outline[OF assms(1) o(1)]) (simp add: o(2))
next
  case LoadAll
  have "all_vetted digest (foldl (\<lambda>st s. push_task (StartOne s) st) st xs)" for xs
    using assms(1) by (induction xs rule: rev_induct) (simp_all add: vetted_push task_vetted_def)
  then show ?thesis by (simp add: LoadAll)
next
  case CloseAll
  have "all_vetted digest (foldl (\<lambda>st s. push_task (Unload s ToClose) st) st xs)" for xs
    using assms(1) by (induction xs rule: rev_induct) (simp_all add: vetted_push task_vetted_def fine_unload_def)
  then show ?thesis by (simp add: CloseAll)
next
  case (SetEnabled s enabled approved)
  then show ?thesis using assms(1) by (auto simp: task_vetted_def intro!: vetted_push split: option.split)
qed (use assms(1) in \<open>auto simp: task_vetted_def fine_unload_def intro!: vetted_push split: sum.split\<close>)

lemma no_swap_append: "no_swap digest (as @ bs) st \<longleftrightarrow> no_swap digest as st \<and> no_swap digest bs (plugin_run digest as st)"
  by (induction as arbitrary: st) (simp_all add: plugin_run_def)

lemma vetted_run:
  assumes "no_swap digest acts st" "all_vetted digest st" "sound st"
  shows "all_vetted digest (plugin_run digest acts st)"
  using assms(1)
proof (induction acts rule: rev_induct)
  case (snoc a acts)
  then have "all_vetted digest (plugin_run digest acts st)" "no_swap digest [a] (plugin_run digest acts st)"
    by (simp_all add: no_swap_append)
  then have "all_vetted digest (plugin_do digest a (plugin_run digest acts st))" using sound_run[OF assms(3)] by (intro vetted_do)
  then show ?case by (simp add: plugin_run_def)
qed (use assms(2) in \<open>simp add: plugin_run_def\<close>)

lemma vetted_start: "all_vetted digest (manager_start current disk state own)"
proof -
  have "fine (manager_start current disk state own) s (state_get s (manager_start current disk state own))" for s
  proof (cases "map_of state s")
    case None
    then show ?thesis by (simp add: fine_def state_get_def manager_start_def no_state_def)
  next
    case (Some x)
    then have "(s, x) \<in> set state" by (rule map_of_SomeD)
    then have "(s, ps_hash x) \<in> (\<lambda>(s, x). (s, ps_hash x)) ` set state" by force
    then show ?thesis using Some by (simp add: fine_def state_get_def manager_start_def)
  qed
  then show ?thesis unfolding all_vetted_def by (simp add: manager_start_def instance_for_def)
qed

section \<open>Who approved\<close>

text \<open>
  \<open>A\<close> are the plugins for which an administrator asked for an enabling with approval, \<open>B\<close> the approvals found at
  the start.
\<close>

definition wants :: "go_string set \<Rightarrow> manager_task \<Rightarrow> bool" where
  "wants A t = (case t of Enable s i a \<Rightarrow> a \<longrightarrow> s \<in> A | Approve s i a \<Rightarrow> a \<longrightarrow> s \<in> A | _ \<Rightarrow> True)"

definition wanted :: "go_string set \<Rightarrow> (go_string \<times> go_string) set \<Rightarrow> plugin_manager \<Rightarrow> bool" where
  "wanted A B st \<longleftrightarrow> (\<forall>(s, h)\<in>set (pm_approved st). (s, h) \<in> B \<or> s \<in> A) \<and> (\<forall>t\<in>set (pm_tasks st). wants A t)"

lemma wanted_push [simp]: "wanted A B (push_task t st) \<longleftrightarrow> wanted A B st \<and> wants A t"
  by (auto simp: wanted_def push_task_def)

lemma wanted_same: "wanted A B st \<Longrightarrow> pm_approved st' = pm_approved st \<Longrightarrow> pm_tasks st' = pm_tasks st \<Longrightarrow> wanted A B st'"
  by (simp add: wanted_def)

lemma wanted_outline: "wanted A B st \<Longrightarrow> same_outline st st' \<Longrightarrow> pm_tasks st' = pm_tasks st \<Longrightarrow> wanted A B st'"
  by (erule wanted_same) (simp_all add: same_outline_def)

lemma wanted_on_inst: "wanted A B st \<Longrightarrow> wanted A B (on_inst n f st)"
  by (erule wanted_same) (simp_all add: on_inst_def split: option.split)

lemma wanted_detach: "wanted A B st \<Longrightarrow> wanted A B (detach s n st)"
  by (erule wanted_outline) (simp_all add: outline_detach)

lemma wanted_close: "wanted A B st \<Longrightarrow> wanted A B (close_runtime n st)"
  by (simp add: close_runtime_def wanted_on_inst)

lemma wanted_drop: "wanted A B st \<Longrightarrow> wanted A B (drop_instance s n st)"
  by (simp add: drop_instance_def wanted_detach wanted_same[of A B st])

lemma wanted_results:
  assumes "wanted A B st"
  shows "wanted A B (loaded s e k st)" "wanted A B (unloaded s e q st)"
  using assms by (auto simp: loaded_def unloaded_def wants_def Let_def split: after_load.split after_unload.split option.split)

lemma wanted_claim: "wanted A B st \<Longrightarrow> wanted A B (claim s k st)"
  by (auto simp: claim_def wants_def wanted_results split: option.split intro: wanted_same)

lemma wanted_insert: "wanted A B st \<Longrightarrow> wanted A B (insert_instance s i k st)"
  by (auto simp: insert_instance_def wants_def wanted_results Let_def intro: wanted_same)

lemma wanted_approve: "wanted A B st \<Longrightarrow> (a \<longrightarrow> s \<in> A) \<Longrightarrow> wanted A B (approve_then_load digest s i a st)"
  by (auto simp: approve_then_load_def wants_def wanted_def Let_def push_task_def)

lemma wanted_step: "wanted A B st \<Longrightarrow> wants A t \<Longrightarrow> wanted A B (manager_step digest ok t st)"
proof -
  assume w: "wanted A B st" and t: "wants A t"
  have tables: "wanted A B (st\<lparr>pm_state := x\<rparr>)" "wanted A B (st\<lparr>pm_disk := d\<rparr>)" for x d
    by (rule wanted_same[OF w]; simp)+
  show ?thesis
    by (cases t) (use w t tables in \<open>simp_all add: wants_def wanted_on_inst wanted_drop wanted_claim wanted_insert wanted_detach
      wanted_close wanted_results wanted_approve load_files_def state_set_def state_delete_def check_restart_def Let_def split: option.split\<close>)
qed

definition asked_by :: "plugin_act \<Rightarrow> go_string set" where
  "asked_by a = (case a of SetEnabled s enabled approved \<Rightarrow> if enabled \<and> approved then {s} else {} | _ \<Rightarrow> {})"

lemma wanted_do:
  assumes "wanted A B st" "asked_by a \<subseteq> A"
  shows "wanted A B (plugin_do digest a st)"
proof (cases a)
  case (RunTask ok t)
  have "wanted A B (st\<lparr>pm_tasks := remove1 t (pm_tasks st)\<rparr>)"
    using assms(1) set_remove1_subset[of t "pm_tasks st"] by (auto simp: wanted_def)
  moreover have "wants A t" if "t \<in> set (pm_tasks st)" using assms(1) that by (simp add: wanted_def)
  ultimately show ?thesis using assms(1) by (simp add: RunTask wanted_step)
next
  case (Script n c)
  then show ?thesis using wanted_outline[OF assms(1)] outline_script by simp
next
  case LoadAll
  have "wanted A B (foldl (\<lambda>st s. push_task (StartOne s) st) st xs)" for xs
    using assms(1) by (induction xs rule: rev_induct) (simp_all add: wants_def)
  then show ?thesis by (simp add: LoadAll)
next
  case CloseAll
  have "wanted A B (foldl (\<lambda>st s. push_task (Unload s ToClose) st) st xs)" for xs
    using assms(1) by (induction xs rule: rev_induct) (simp_all add: wants_def)
  then show ?thesis by (simp add: CloseAll)
qed (use assms in \<open>auto simp: wants_def asked_by_def split: option.split sum.split\<close>)

lemma wanted_run:
  assumes "wanted A B st" "\<forall>a\<in>set acts. asked_by a \<subseteq> A"
  shows "wanted A B (plugin_run digest acts st)"
  using assms(2) by (induction acts rule: rev_induct) (use assms(1) in \<open>simp_all add: plugin_run_def wanted_do\<close>)

lemma approved_asked:
  assumes "(s, h) \<in> set (pm_approved (plugin_run digest acts (manager_start current disk state own)))"
  shows "(\<exists>x. (s, x) \<in> set state \<and> h = ps_hash x) \<or> SetEnabled s True True \<in> set acts"
proof -
  let ?A = "{s. SetEnabled s True True \<in> set acts}" and ?B = "{(s, h). \<exists>x. (s, x) \<in> set state \<and> h = ps_hash x}"
  have "wanted ?A ?B (manager_start current disk state own)" by (auto simp: wanted_def manager_start_def)
  then have "wanted ?A ?B (plugin_run digest acts (manager_start current disk state own))"
    by (rule wanted_run) (auto simp: asked_by_def split: plugin_act.splits)
  then show ?thesis using assms unfolding wanted_def by blast
qed

section \<open>A plugin to try\<close>

definition demo_digest :: "bool list \<Rightarrow> go_string" where
  "demo_digest bs = map (\<lambda>b. if b then CHR ''1'' else CHR ''0'') bs"

definition demo_permissions :: "bool \<Rightarrow> bool \<Rightarrow> permissions" where
  "demo_permissions hooks exec = \<lparr>allow_system_rpc = False, allow_routes = False, allow_hooks = hooks, allow_html_inject = False,
     allow_exec = exec, allow_listen = False, allow_all_file_access = False\<rparr>"

definition demo_info :: "bool \<Rightarrow> bool \<Rightarrow> plugin_info" where
  "demo_info hooks exec = \<lparr>pl_name = JString ''Demo'', pl_short = ''demo'', pl_icon = [], pl_entry = ''script.js'',
     pl_permissions = demo_permissions hooks exec, pl_pages = []\<rparr>"

definition demo_package :: "bool \<Rightarrow> bool \<Rightarrow> package" where
  "demo_package hooks exec = \<lparr>pk_info = demo_info hooks exec, pk_komari = [], pk_entry = True\<rparr>"

definition demo_start :: "package \<Rightarrow> plugin_manager" where
  "demo_start pk = manager_start ''1.0.0'' [(''demo'', pk)] [] [''rpc.help'']"

definition approved_state :: "plugin_info \<Rightarrow> plugin_state" where
  "approved_state i = no_state\<lparr>ps_hash := approval_hash demo_digest (pl_permissions i)\<rparr>"

definition load_steps :: "nat \<Rightarrow> plugin_info \<Rightarrow> after_load \<Rightarrow> script_call list \<Rightarrow> plugin_act list" where
  "load_steps n i k calls = [RunTask True (Load ''demo'' k), RunTask True (Insert ''demo'' i k), RunTask True (Prepare ''demo'' n k)] @
     map (Script n) calls @ [RunTask True (Evaluate ''demo'' n k), RunTask True (CallLoad ''demo'' n k), RunTask True (CheckLoaded ''demo'' n k)]"

definition enable_steps :: "plugin_info \<Rightarrow> script_call list \<Rightarrow> plugin_act list" where
  "enable_steps i calls = [SetEnabled ''demo'' True True, RunTask True (Enable ''demo'' i True), RunTask True (Approve ''demo'' i True),
     RunTask True (SaveThenLoad ''demo'' (approved_state i))] @ load_steps 0 i (ToEnable (approved_state i)) calls @
     [RunTask True (Save ''demo'' ((approved_state i)\<lparr>ps_enabled := True, ps_error := None\<rparr>))]"

section \<open>What the manager guarantees\<close>

text \<open>
  C14: Nothing of a plugin stays behind: in every state the calls of administrators and scripts can reach, a plugin that is
  not loaded and that no call is unloading has no hook, no HTML fragment, no RPC method and no
  scheduled job left.
\<close>

theorem plugin_leaves_nothing:
  assumes "instance_for s (plugin_run digest acts (manager_start current disk state own)) = None"
    "\<forall>t\<in>set (pm_tasks (plugin_run digest acts (manager_start current disk state own))).
       (\<nexists>n rt k. t = CallUnload s n rt k) \<and> (\<nexists>n rt e k. t = Cleanup s n rt e k)"
  shows "(\<forall>h\<in>set (pm_hooks (plugin_run digest acts (manager_start current disk state own))). he_short h \<noteq> s) \<and>
    s \<notin> fst ` set (pm_injects (plugin_run digest acts (manager_start current disk state own))) \<and>
    (\<forall>m. (m, Some s) \<notin> set (pm_rpc (plugin_run digest acts (manager_start current disk state own)))) \<and>
    s \<notin> snd ` set (pm_jobs (plugin_run digest acts (manager_start current disk state own)))"
proof -
  let ?st = "plugin_run digest acts (manager_start current disk state own)"
  have tidy: "tidy ?st" using sound_run[OF sound_start] by (simp add: sound_def)
  have "(s, n) \<notin> held t" if "t \<in> set (pm_tasks ?st)" for n t
    using bspec[OF assms(2) that] by (cases t) auto
  then have none: "(s, n) \<notin> holders ?st" for n using assms(1) by (auto simp: holders_def leaving_def)
  then have "s \<notin> fst ` holders ?st" by force
  then have "he_short h \<noteq> s" if "h \<in> set (pm_hooks ?st)" for h using tidy_entry(1)[OF tidy that] by blast
  moreover have "s \<notin> fst ` set (pm_injects ?st)" using \<open>s \<notin> fst ` holders ?st\<close> tidy_entry(2)[OF tidy] by force
  moreover have "(m, Some s) \<notin> set (pm_rpc ?st)" for m using tidy none unfolding tidy_def by blast
  moreover have "s \<notin> snd ` set (pm_jobs ?st)" using tidy none unfolding tidy_def by fastforce
  ultimately show ?thesis by blast
qed

definition gone_steps :: "plugin_act list" where
  "gone_steps = enable_steps (demo_info True False) [CallHook HookRequest, CallRegister ''demo:hello''] @ [Delete ''demo'',
     RunTask True (Unload ''demo'' ToDelete), RunTask True (CallUnload ''demo'' 0 True ToDelete), RunTask True (Cleanup ''demo'' 0 True None ToDelete)]"

theorem plugin_leaves_nothing_witness:
  "pm_hooks (plugin_run demo_digest (enable_steps (demo_info True False) [CallHook HookRequest]) (demo_start (demo_package True False))) \<noteq> [] \<and>
   (\<forall>m. (m, Some ''demo'') \<notin> set (pm_rpc (plugin_run demo_digest gone_steps (demo_start (demo_package True False)))))"
proof -
  have tasks: "pm_tasks (plugin_run demo_digest gone_steps (demo_start (demo_package True False))) = [CloseRuntime ''demo'' 0 True None ToDelete]"
    by code_simp
  have "instance_for ''demo'' (plugin_run demo_digest gone_steps (demo_start (demo_package True False))) = None" by code_simp
  note r = plugin_leaves_nothing[OF this[unfolded demo_start_def]]
  have "pm_hooks (plugin_run demo_digest (enable_steps (demo_info True False) [CallHook HookRequest]) (demo_start (demo_package True False))) \<noteq> []"
    by code_simp
  then show ?thesis using r tasks unfolding demo_start_def by simp
qed

text \<open>
  C37: No plugin can take over or remove a method of the hub: whatever plugins register and however they are loaded,
  unloaded and reinstalled, every method the hub registered at its start stays its own.
\<close>

theorem hub_methods_kept:
  assumes "m \<in> set own"
  shows "map_of (pm_rpc (plugin_run digest acts (manager_start current disk state own))) m = Some None"
proof -
  have "map_of (map (\<lambda>m. (m, None :: go_string option)) own) x = Some None" if "x \<in> set own" for x using that by (induction own) auto
  then have "own_methods (set own) (manager_start current disk state own)"
    by (simp add: own_methods_def manager_start_def methods_of_def inst_at_def)
  then have "own_methods (set own) (plugin_run digest acts (manager_start current disk state own))"
    by (induction acts rule: rev_induct) (simp_all add: plugin_run_def own_do)
  then show ?thesis using assms by (simp add: own_methods_def)
qed

theorem hub_methods_kept_witness:
  "map_of (pm_rpc (plugin_run demo_digest (enable_steps (demo_info True False) [CallRegister ''rpc.help''])
     (manager_start ''1.0.0'' [(''demo'', demo_package True False)] [] [''rpc.help'']))) ''rpc.help'' = Some None"
  by (rule hub_methods_kept) simp

text \<open>
  C12: A plugin whose manifest asks for a permission that needs an approval runs only with permissions that were approved (by an
  administrator, or in the state found at the start), in every run in which no package is unpacked over the plugin
  between the check of its manifest and the reading of its files.  An approval is one of the state found, or follows
  a call that enables this plugin and approves.
\<close>

theorem only_approved_run:
  assumes "no_swap digest acts (manager_start current disk state own)"
    "instance_for s (plugin_run digest acts (manager_start current disk state own)) = Some n"
    "inst_at n (plugin_run digest acts (manager_start current disk state own)) = Some i"
    "permissions_require_approval (pl_permissions (pi_info i))"
  shows "(s, approval_hash digest (pl_permissions (pi_info i))) \<in> set (pm_approved (plugin_run digest acts (manager_start current disk state own))) \<and>
    ((\<exists>x. (s, x) \<in> set state \<and> ps_hash x = approval_hash digest (pl_permissions (pi_info i))) \<or> SetEnabled s True True \<in> set acts)"
proof -
  have "all_vetted digest (plugin_run digest acts (manager_start current disk state own))"
    by (rule vetted_run[OF assms(1) vetted_start sound_start])
  then have "vetted digest (plugin_run digest acts (manager_start current disk state own)) s (pi_info i)"
    using assms(2,3) by (simp add: all_vetted_def info_at_def)
  then have a: "(s, approval_hash digest (pl_permissions (pi_info i))) \<in> set (pm_approved (plugin_run digest acts (manager_start current disk state own)))"
    using assms(4) by (simp add: vetted_def)
  then show ?thesis using approved_asked[OF a] by metis
qed

definition running :: "go_string \<Rightarrow> (plugin_inst \<Rightarrow> bool) \<Rightarrow> plugin_manager \<Rightarrow> bool" where
  "running s P st = (case instance_for s st of None \<Rightarrow> False | Some n \<Rightarrow> (case inst_at n st of None \<Rightarrow> False | Some i \<Rightarrow> pi_runtime i \<and> P i))"

theorem only_approved_run_witness:
  "\<exists>i :: plugin_inst. permissions_require_approval (pl_permissions (pi_info i)) \<and> (''demo'', approval_hash demo_digest (pl_permissions (pi_info i)))
     \<in> set (pm_approved (plugin_run demo_digest (enable_steps (demo_info True False) []) (demo_start (demo_package True False))))"
proof -
  let ?st = "plugin_run demo_digest (enable_steps (demo_info True False) []) (demo_start (demo_package True False))"
  have "running ''demo'' (\<lambda>i. permissions_require_approval (pl_permissions (pi_info i))) ?st" by code_simp
  then obtain n i where n: "instance_for ''demo'' ?st = Some n" "inst_at n ?st = Some i" "permissions_require_approval (pl_permissions (pi_info i))"
    by (auto simp: running_def split: option.splits)
  have "no_swap demo_digest (enable_steps (demo_info True False) []) (demo_start (demo_package True False))" by code_simp
  from only_approved_run[OF this[unfolded demo_start_def] n[unfolded demo_start_def]] n(3) show ?thesis
    unfolding demo_start_def by blast
qed

section \<open>What the code does not mean to do\<close>

text \<open>
  Two calls that enable a plugin at the same time: the second finds no instance, and its \<open>load\<close> then finds the
  first one's.  It disables the plugin, which runs on.
\<close>

definition twice_steps :: "plugin_act list" where
  "twice_steps = (let i = demo_info True False; x = approved_state i; k = ToEnable x in
     [SetEnabled ''demo'' True True, SetEnabled ''demo'' True True, RunTask True (Enable ''demo'' i True), RunTask True (Enable ''demo'' i True),
      RunTask True (Approve ''demo'' i True), RunTask True (Approve ''demo'' i True), RunTask True (SaveThenLoad ''demo'' x)] @
     load_steps 0 i k [] @ [RunTask True (Save ''demo'' (x\<lparr>ps_enabled := True, ps_error := None\<rparr>)),
      RunTask True (SaveThenLoad ''demo'' x), RunTask True (Load ''demo'' k), RunTask True (Insert ''demo'' i k),
      RunTask True (Save ''demo'' (x\<lparr>ps_enabled := False, ps_error := Some AlreadyLoaded\<rparr>))])"

theorem second_enable_disables:
  "running ''demo'' pi_open (plugin_run demo_digest twice_steps (demo_start (demo_package True False))) \<and>
   pm_tasks (plugin_run demo_digest twice_steps (demo_start (demo_package True False))) = [] \<and>
   \<not> ps_enabled (state_get ''demo'' (plugin_run demo_digest twice_steps (demo_start (demo_package True False))))"
  by code_simp

text \<open>
  A plugin that is disabled and enabled again while its \<open>unload\<close> hook runs: the cleanup goes by the short name and
  drops the hooks the new instance has registered.
\<close>

definition late_cleanup_steps :: "plugin_act list" where
  "late_cleanup_steps = (let i = demo_info True False; x = (approved_state i)\<lparr>ps_enabled := True, ps_error := None\<rparr>;
       off = ToDisable (x\<lparr>ps_enabled := False\<rparr>) in
     enable_steps i [CallHook HookRequest] @
     [SetEnabled ''demo'' False False, RunTask True (Disable ''demo''), RunTask True (Unload ''demo'' off),
      SetEnabled ''demo'' True False, RunTask True (Enable ''demo'' i False), RunTask True (Approve ''demo'' i False)] @
     load_steps 1 i (ToEnable x) [CallHook HookRequest] @ [RunTask True (Save ''demo'' x),
      RunTask True (CallUnload ''demo'' 0 True off), RunTask True (Cleanup ''demo'' 0 True None off)])"

theorem late_cleanup_drops_hooks:
  "instance_for ''demo'' (plugin_run demo_digest late_cleanup_steps (demo_start (demo_package True False))) = Some 1 \<and>
   running ''demo'' pi_open (plugin_run demo_digest late_cleanup_steps (demo_start (demo_package True False))) \<and>
   pm_hooks (plugin_run demo_digest late_cleanup_steps (demo_start (demo_package True False))) = []"
  by code_simp

text \<open>
  A plugin whose \<open>unload\<close> throws when it is reloaded: the reload stops there, the plugin does not run, and the state
  says that it is enabled and has no error.
\<close>

definition failed_reload_steps :: "plugin_act list" where
  "failed_reload_steps = enable_steps (demo_info True False) [] @ [Reload ''demo'', RunTask True (Unload ''demo'' ToReload),
     RunTask False (CallUnload ''demo'' 0 True ToReload), RunTask True (Cleanup ''demo'' 0 True (Some UnloadFailed) ToReload),
     RunTask True (CloseRuntime ''demo'' 0 True (Some UnloadFailed) ToReload)]"

theorem failed_reload_forgets:
  "instance_for ''demo'' (plugin_run demo_digest failed_reload_steps (demo_start (demo_package True False))) = None \<and>
   pm_tasks (plugin_run demo_digest failed_reload_steps (demo_start (demo_package True False))) = [] \<and>
   ps_enabled (state_get ''demo'' (plugin_run demo_digest failed_reload_steps (demo_start (demo_package True False)))) \<and>
   ps_error (state_get ''demo'' (plugin_run demo_digest failed_reload_steps (demo_start (demo_package True False)))) = None"
  by code_simp

text \<open>A package unpacked between the check and the load runs with permissions nobody approved.\<close>

definition swap_steps :: "plugin_act list" where
  "swap_steps = (let i = demo_info False False; j = demo_info False True; pk = demo_package False True; k = ToEnable no_state in
     [SetEnabled ''demo'' True False, RunTask True (Enable ''demo'' i False), RunTask True (Approve ''demo'' i False),
      InstallZip pk, RunTask True (Unload ''demo'' (ToReinstall pk)), RunTask True (Extract ''demo'' pk)] @ load_steps 0 j k [])"

theorem swapped_package_runs:
  "running ''demo'' (\<lambda>i. allow_exec (pl_permissions (pi_info i))) (plugin_run demo_digest swap_steps (demo_start (demo_package False False))) \<and>
   pm_approved (plugin_run demo_digest swap_steps (demo_start (demo_package False False))) = []"
  by code_simp

text \<open>While the script itself is evaluated the instance has no runtime yet, so a cron job cannot be registered there.\<close>

theorem no_cron_in_script:
  assumes "inst_at n st = Some i" "instance_for (pl_short (pi_info i)) st = Some n" "\<not> pi_runtime i"
  shows "script_calls n (CallCron spec_ok) st = (False, st)"
  using assms by (simp add: script_calls_def register_cron_def Let_def)

end
