(* ===== verification/Tdigest.thy ===== *)
theory Tdigest
  imports Prelude Complex_Main "HOL-Library.Multiset"
begin

text \<open>
  The percentile sketch of the metric store, \<^verbatim>\<open>pkg/metric/tdigest.go\<close>: centroids with a mean and a weight,
  appended as samples come and merged into fewer when there are too many or when the sketch is read.
  Values and weights are rationals: the arithmetic is exact, the rounding of the machine's is not modelled.
  The code's infinities (the minimum and maximum of an empty sketch) are \<open>None\<close>.  \<^verbatim>\<open>sort.Slice\<close> is free in the
  order of equal means; here it keeps theirs.
\<close>

section \<open>The sketch\<close>

record centroid =
  ce_mean :: rat
  ce_weight :: rat

record tdigest =
  td_compression :: rat
  td_centroids :: "centroid list"
  td_count :: rat
  td_min :: "rat option"
  td_max :: "rat option"
  td_processed :: bool

definition default_compression :: rat where "default_compression = 30"

definition new_digest :: "rat \<Rightarrow> tdigest" where
  "new_digest c = \<lparr>td_compression = (if c \<le> 1 then default_compression else c), td_centroids = [], td_count = 0,
     td_min = None, td_max = None, td_processed = True\<rparr>"

definition process_threshold :: "tdigest \<Rightarrow> int" where
  "process_threshold t = floor (8 * td_compression t) + 16"

text \<open>The loop of \<^verbatim>\<open>process\<close>: the weight already written, the centroid being grown, and the ones to come.\<close>

fun merge_centroids :: "rat \<Rightarrow> rat \<Rightarrow> rat \<Rightarrow> centroid \<Rightarrow> centroid list \<Rightarrow> centroid list" where
  "merge_centroids tot cmp before cur [] = [cur]"
| "merge_centroids tot cmp before cur (c # cs) =
     (let proposed = ce_weight cur + ce_weight c;
          q = (before + proposed / 2) / tot;
          limit = 4 * tot * q * (1 - q) / cmp
      in if proposed \<le> limit \<or> (limit < 1 \<and> proposed \<le> 1)
         then merge_centroids tot cmp before
           \<lparr>ce_mean = ce_mean cur + ce_weight c * (ce_mean c - ce_mean cur) / proposed, ce_weight = proposed\<rparr> cs
         else cur # merge_centroids tot cmp (before + ce_weight cur) c cs)"

definition process_digest :: "tdigest \<Rightarrow> tdigest" where
  "process_digest t =
     (if td_processed t then t
      else case sort_key ce_mean (td_centroids t) of
        [] \<Rightarrow> t\<lparr>td_processed := True\<rparr>
      | c # cs \<Rightarrow> t\<lparr>td_centroids := merge_centroids (td_count t) (td_compression t) 0 c cs, td_processed := True\<rparr>)"

text \<open>The end of \<^verbatim>\<open>Add\<close> and \<^verbatim>\<open>Merge\<close>: too many centroids are merged.\<close>

definition settle :: "tdigest \<Rightarrow> tdigest" where
  "settle t = (if int (length (td_centroids t)) > process_threshold t then process_digest t else t)"

definition lower_of :: "rat option \<Rightarrow> rat \<Rightarrow> rat option" where
  "lower_of lo x = (case lo of None \<Rightarrow> Some x | Some m \<Rightarrow> if x < m then Some x else Some m)"

definition upper_of :: "rat option \<Rightarrow> rat \<Rightarrow> rat option" where
  "upper_of hi x = (case hi of None \<Rightarrow> Some x | Some m \<Rightarrow> if x > m then Some x else Some m)"

definition add_value :: "rat \<Rightarrow> rat \<Rightarrow> tdigest \<Rightarrow> tdigest" where
  "add_value x w t =
     (if w \<le> 0 then t
      else settle (t\<lparr>td_centroids := td_centroids t @ [\<lparr>ce_mean = x, ce_weight = w\<rparr>], td_count := td_count t + w,
        td_min := lower_of (td_min t) x, td_max := upper_of (td_max t) x, td_processed := False\<rparr>))"

definition merge_digest :: "tdigest \<Rightarrow> tdigest \<Rightarrow> tdigest" where
  "merge_digest o' t =
     (if td_count o' = 0 then t
      else settle (t\<lparr>td_centroids := td_centroids t @ td_centroids o', td_count := td_count t + td_count o',
        td_min := (case td_min o' of None \<Rightarrow> td_min t | Some x \<Rightarrow> lower_of (td_min t) x),
        td_max := (case td_max o' of None \<Rightarrow> td_max t | Some x \<Rightarrow> upper_of (td_max t) x), td_processed := False\<rparr>))"

section \<open>Quantiles\<close>

text \<open>The loop over pairs of neighbours; the last centroid reaches to the maximum.\<close>

fun quantile_walk :: "rat \<Rightarrow> rat \<Rightarrow> rat \<Rightarrow> centroid \<Rightarrow> centroid list \<Rightarrow> rat" where
  "quantile_walk hi index before c [] =
     (let z = (index - before) / (ce_weight c / 2); z' = (if z > 1 then 1 else z)
      in ce_mean c + (hi - ce_mean c) * z')"
| "quantile_walk hi index before c (n # cs) =
     (let dw = (ce_weight c + ce_weight n) / 2 in
      if index < before + dw
      then (let z = (index - before) / dw in ce_mean c * (1 - z) + ce_mean n * z)
      else quantile_walk hi index (before + dw) n cs)"

text \<open>\<open>None\<close> is not a number, or infinite.\<close>

definition quantile_of :: "rat \<Rightarrow> tdigest \<Rightarrow> rat option" where
  "quantile_of q t =
     (case td_centroids t of
        [] \<Rightarrow> None
      | c # cs \<Rightarrow>
          if q \<le> 0 then td_min t
          else if q \<ge> 1 then td_max t
          else if cs = [] then Some (ce_mean c)
          else (case (td_min t, td_max t) of
              (Some lo, Some hi) \<Rightarrow>
                let index = q * td_count t in
                if index < ce_weight c / 2
                then Some (lo + (ce_mean c - lo) * (index / (ce_weight c / 2)))
                else Some (quantile_walk hi index (ce_weight c / 2) c cs)
            | _ \<Rightarrow> None))"

definition quantile :: "rat \<Rightarrow> tdigest \<Rightarrow> rat option \<times> tdigest" where
  "quantile q t = (let t' = process_digest t in (quantile_of q t', t'))"

section \<open>What a sketch keeps\<close>

definition weight_of :: "centroid list \<Rightarrow> rat" where
  "weight_of cs = sum_list (map ce_weight cs)"

definition between :: "rat option \<Rightarrow> rat option \<Rightarrow> rat \<Rightarrow> bool" where
  "between lo hi x \<longleftrightarrow> (case (lo, hi) of (Some a, Some b) \<Rightarrow> a \<le> x \<and> x \<le> b | _ \<Rightarrow> False)"

definition digest_wf :: "tdigest \<Rightarrow> bool" where
  "digest_wf t \<longleftrightarrow> 1 < td_compression t \<and> td_count t = weight_of (td_centroids t) \<and>
     (\<forall>c\<in>set (td_centroids t). 0 < ce_weight c \<and> between (td_min t) (td_max t) (ce_mean c)) \<and>
     (td_processed t \<longrightarrow> sorted (map ce_mean (td_centroids t)))"

lemma weight_simps [simp]:
  "weight_of [] = 0" "weight_of (c # cs) = ce_weight c + weight_of cs" "weight_of (as @ bs) = weight_of as + weight_of bs"
  by (simp_all add: weight_of_def)

lemma weight_sort [simp]: "weight_of (sort_key f cs) = weight_of cs"
proof -
  have "sum_mset (image_mset ce_weight (mset (sort_key f cs))) = sum_mset (image_mset ce_weight (mset cs))" by simp
  then show ?thesis unfolding weight_of_def mset_map[symmetric] sum_mset_sum_list .
qed

lemma weight_nonneg: "\<forall>c\<in>set cs. 0 < ce_weight c \<Longrightarrow> 0 \<le> weight_of cs"
  by (induction cs) auto

lemma weight_pos: "\<forall>c\<in>set cs. 0 < ce_weight c \<Longrightarrow> cs \<noteq> [] \<Longrightarrow> 0 < weight_of cs"
  using weight_nonneg[of "tl cs"] by (cases cs) auto

text \<open>A centroid that grows stays between the two it is made of.\<close>

lemma mean_between:
  fixes a b :: rat
  assumes "a \<le> b" "0 < v" "0 < w"
  shows "a \<le> a + w * (b - a) / (v + w)" "a + w * (b - a) / (v + w) \<le> b"
proof -
  have "0 \<le> w * (b - a) / (v + w)" using assms by simp
  then show "a \<le> a + w * (b - a) / (v + w)" by simp
  have "w * (b - a) \<le> (v + w) * (b - a)" using assms by (simp add: mult_right_mono)
  then have "w * (b - a) / (v + w) \<le> b - a" using assms by (simp add: pos_divide_le_eq mult.commute)
  then show "a + w * (b - a) / (v + w) \<le> b" by simp
qed

lemma merge_centroids_wf:
  assumes "\<forall>c\<in>set (cur # cs). 0 < ce_weight c" "sorted (map ce_mean (cur # cs))"
    "\<forall>c\<in>set (cur # cs). lo \<le> ce_mean c \<and> ce_mean c \<le> hi"
  shows "weight_of (merge_centroids tot cmp before cur cs) = ce_weight cur + weight_of cs \<and>
    (\<forall>c\<in>set (merge_centroids tot cmp before cur cs). 0 < ce_weight c \<and> ce_mean cur \<le> ce_mean c \<and> ce_mean c \<le> hi) \<and>
    sorted (map ce_mean (merge_centroids tot cmp before cur cs)) \<and> merge_centroids tot cmp before cur cs \<noteq> []"
  using assms
proof (induction cs arbitrary: cur before)
  case (Cons c cs)
  let ?new = "\<lparr>ce_mean = ce_mean cur + ce_weight c * (ce_mean c - ce_mean cur) / (ce_weight cur + ce_weight c),
      ce_weight = ce_weight cur + ce_weight c\<rparr>"
  have m: "ce_mean cur \<le> ce_mean ?new" "ce_mean ?new \<le> ce_mean c"
    using mean_between[of "ce_mean cur" "ce_mean c" "ce_weight cur" "ce_weight c"] Cons.prems by simp_all
  have new: "\<forall>c\<in>set (?new # cs). 0 < ce_weight c" "sorted (map ce_mean (?new # cs))"
      "\<forall>c\<in>set (?new # cs). lo \<le> ce_mean c \<and> ce_mean c \<le> hi"
    using Cons.prems m by (auto intro: add_pos_pos order.trans)
  have grown: "\<forall>d\<in>set (merge_centroids tot cmp before ?new cs). ce_mean cur \<le> ce_mean d"
    using Cons.IH[OF new, of before] m(1) by (auto intro: order.trans)
  have nxt: "\<forall>c\<in>set (c # cs). 0 < ce_weight c" "sorted (map ce_mean (c # cs))"
      "\<forall>c\<in>set (c # cs). lo \<le> ce_mean c \<and> ce_mean c \<le> hi"
    using Cons.prems by simp_all
  have later: "\<forall>d\<in>set (merge_centroids tot cmp b c cs). ce_mean cur \<le> ce_mean d" for b
    using Cons.IH[OF nxt, of b] Cons.prems(2) by (auto intro: order.trans)
  show ?case
    using Cons.IH[OF new, of before] Cons.IH[OF nxt, of "before + ce_weight cur"] grown later Cons.prems
    by (auto simp: Let_def)
qed auto

lemma digest_wf_range:
  assumes "digest_wf t" "td_centroids t \<noteq> []"
  obtains lo hi where "td_min t = Some lo" "td_max t = Some hi" "\<forall>c\<in>set (td_centroids t). lo \<le> ce_mean c \<and> ce_mean c \<le> hi"
proof -
  obtain c where "c \<in> set (td_centroids t)" using assms(2) by (cases "td_centroids t") auto
  then have "between (td_min t) (td_max t) (ce_mean c)" using assms(1) by (simp add: digest_wf_def)
  then obtain lo hi where m: "td_min t = Some lo" "td_max t = Some hi" by (auto simp: between_def split: option.splits)
  then show ?thesis using assms(1) by (intro that[OF m]) (auto simp: digest_wf_def between_def)
qed

lemma process_digest_wf:
  assumes "digest_wf t"
  shows "digest_wf (process_digest t) \<and> td_processed (process_digest t) \<and> td_count (process_digest t) = td_count t \<and>
    td_min (process_digest t) = td_min t \<and> td_max (process_digest t) = td_max t \<and>
    (td_centroids (process_digest t) = [] \<longleftrightarrow> td_centroids t = [])"
proof (cases "td_processed t")
  case False
  show ?thesis
  proof (cases "sort_key ce_mean (td_centroids t)")
    case Nil
    then have "td_centroids t = []" by (metis length_0_conv length_sort)
    then show ?thesis using False Nil assms by (simp add: process_digest_def digest_wf_def)
  next
    case (Cons c cs)
    let ?new = "merge_centroids (td_count t) (td_compression t) 0 c cs"
    have st: "set (c # cs) = set (td_centroids t)" using arg_cong[OF Cons, of set] by simp
    have ne: "td_centroids t \<noteq> []" using st by auto
    obtain lo hi where m: "td_min t = Some lo" "td_max t = Some hi" "\<forall>c\<in>set (td_centroids t). lo \<le> ce_mean c \<and> ce_mean c \<le> hi"
      using digest_wf_range[OF assms ne] .
    have w: "weight_of (c # cs) = td_count t" using assms Cons[symmetric] by (simp only: weight_sort) (simp add: digest_wf_def)
    have p: "\<forall>c\<in>set (c # cs). 0 < ce_weight c" "sorted (map ce_mean (c # cs))"
        "\<forall>c\<in>set (c # cs). lo \<le> ce_mean c \<and> ce_mean c \<le> hi"
      using assms m(3) Cons sorted_sort_key[of ce_mean "td_centroids t"] unfolding st by (simp_all add: digest_wf_def)
    have c: "lo \<le> ce_mean c" using p(3) by simp
    note mc = merge_centroids_wf[OF p, of "td_count t" "td_compression t" 0]
    have "digest_wf (t\<lparr>td_centroids := ?new, td_processed := True\<rparr>)"
      using mc w c assms m(1,2) by (auto simp: digest_wf_def between_def intro: order.trans)
    then show ?thesis using False Cons mc ne by (simp add: process_digest_def)
  qed
qed (use assms in \<open>simp add: process_digest_def\<close>)

lemma settle_wf:
  assumes "digest_wf t"
  shows "digest_wf (settle t) \<and> td_count (settle t) = td_count t \<and> td_min (settle t) = td_min t \<and> td_max (settle t) = td_max t"
  using process_digest_wf[OF assms] assms by (simp add: settle_def)

lemma new_digest_wf: "digest_wf (new_digest c) \<and> td_count (new_digest c) = 0"
  by (simp add: digest_wf_def new_digest_def default_compression_def)

lemma between_widen:
  "between lo hi y \<Longrightarrow> between (lower_of lo x) (upper_of hi x) y" "(lo = None) = (hi = None) \<Longrightarrow> (\<forall>a b. lo = Some a \<longrightarrow> hi = Some b \<longrightarrow> a \<le> b) \<Longrightarrow> between (lower_of lo x) (upper_of hi x) x"
  by (auto simp: between_def lower_of_def upper_of_def split: option.splits)

text \<open>The two bounds are there together and in order.\<close>

definition range_wf :: "tdigest \<Rightarrow> bool" where
  "range_wf t \<longleftrightarrow> digest_wf t \<and> (td_centroids t = [] \<longleftrightarrow> td_min t = None) \<and> (td_min t = None \<longleftrightarrow> td_max t = None) \<and>
     (\<forall>a b. td_min t = Some a \<longrightarrow> td_max t = Some b \<longrightarrow> a \<le> b)"

lemma range_settle: "range_wf t \<Longrightarrow> range_wf (settle t)"
  using settle_wf[of t] process_digest_wf[of t] by (auto simp: range_wf_def settle_def)

lemma range_process: "range_wf t \<Longrightarrow> range_wf (process_digest t)"
  using process_digest_wf[of t] by (auto simp: range_wf_def)

lemma range_new: "range_wf (new_digest c)"
  using new_digest_wf[of c] by (simp add: range_wf_def) (simp add: new_digest_def)

lemma add_value_wf:
  assumes "range_wf t" "0 < w"
  shows "range_wf (add_value x w t)" "td_count (add_value x w t) = td_count t + w"
    "td_min (add_value x w t) = lower_of (td_min t) x" "td_max (add_value x w t) = upper_of (td_max t) x"
proof -
  let ?t = "t\<lparr>td_centroids := td_centroids t @ [\<lparr>ce_mean = x, ce_weight = w\<rparr>], td_count := td_count t + w,
        td_min := lower_of (td_min t) x, td_max := upper_of (td_max t) x, td_processed := False\<rparr>"
  have t: "digest_wf t" "(td_min t = None) = (td_max t = None)" "\<forall>a b. td_min t = Some a \<longrightarrow> td_max t = Some b \<longrightarrow> a \<le> b"
    using assms(1) by (simp_all add: range_wf_def)
  have "digest_wf ?t"
    using t(1) assms(2) between_widen(1) between_widen(2)[OF t(2,3)] by (auto simp: digest_wf_def)
  moreover have "lower_of (td_min t) x \<noteq> None" "upper_of (td_max t) x \<noteq> None" "\<forall>a b. td_min ?t = Some a \<longrightarrow> td_max ?t = Some b \<longrightarrow> a \<le> b"
    using t(3) by (auto simp: lower_of_def upper_of_def split: option.splits)
  ultimately have r: "range_wf ?t" by (auto simp: range_wf_def)
  have e: "add_value x w t = settle ?t" using assms(2) by (simp add: add_value_def)
  show "range_wf (add_value x w t)" unfolding e by (rule range_settle[OF r])
  show "td_count (add_value x w t) = td_count t + w"
    "td_min (add_value x w t) = lower_of (td_min t) x" "td_max (add_value x w t) = upper_of (td_max t) x"
    unfolding e using settle_wf[of ?t] r by (simp_all add: range_wf_def)
qed

lemma merge_digest_wf:
  assumes "range_wf t" "range_wf u" "td_min u = Some lo" "td_max u = Some hi"
  shows "range_wf (merge_digest u t)" "td_count (merge_digest u t) = td_count t + td_count u"
    "td_min (merge_digest u t) = lower_of (td_min t) lo" "td_max (merge_digest u t) = upper_of (td_max t) hi"
proof -
  let ?t = "t\<lparr>td_centroids := td_centroids t @ td_centroids u, td_count := td_count t + td_count u,
        td_min := lower_of (td_min t) lo, td_max := upper_of (td_max t) hi, td_processed := False\<rparr>"
  have t: "digest_wf t" "(td_min t = None) = (td_max t = None)" "\<forall>a b. td_min t = Some a \<longrightarrow> td_max t = Some b \<longrightarrow> a \<le> b"
    using assms(1) by (simp_all add: range_wf_def)
  have u: "digest_wf u" "td_centroids u \<noteq> []" "lo \<le> hi" using assms(2-4) by (auto simp: range_wf_def)
  have pos: "0 < td_count u" using u weight_pos[of "td_centroids u"] by (simp add: digest_wf_def)
  have low: "a \<le> lo" if "lower_of m lo = Some a" for a m using that by (auto simp: lower_of_def split: option.splits if_splits)
  have high: "hi \<le> b" if "upper_of m hi = Some b" for b m using that by (auto simp: upper_of_def split: option.splits if_splits)
  have ex: "lower_of m lo \<noteq> None" "upper_of m hi \<noteq> None" for m by (simp_all add: lower_of_def upper_of_def split: option.split)
  have right: "between (lower_of (td_min t) lo) (upper_of (td_max t) hi) y" if "between (Some lo) (Some hi) y" for y
    using that low[of "td_min t"] high[of "td_max t"] ex[of "td_min t"] ex(2)[of "td_max t"] by (auto simp: between_def intro: order.trans)
  have left: "between (lower_of (td_min t) lo) (upper_of (td_max t) hi) y" if "between (td_min t) (td_max t) y" for y
    using that by (auto simp: between_def lower_of_def upper_of_def split: option.splits)
  have "digest_wf ?t"
    using t(1) u(1) assms(3,4) left right by (auto simp: digest_wf_def)
  moreover have "\<forall>a b. td_min ?t = Some a \<longrightarrow> td_max ?t = Some b \<longrightarrow> a \<le> b"
    using low[of "td_min t"] high[of "td_max t"] u(3) by (force intro: order.trans)
  ultimately have r: "range_wf ?t" using ex(1)[of "td_min t"] ex(2)[of "td_max t"] u(2) by (auto simp: range_wf_def)
  have e: "merge_digest u t = settle ?t" using pos assms(3,4) by (simp add: merge_digest_def)
  show "range_wf (merge_digest u t)" unfolding e by (rule range_settle[OF r])
  show "td_count (merge_digest u t) = td_count t + td_count u"
    "td_min (merge_digest u t) = lower_of (td_min t) lo" "td_max (merge_digest u t) = upper_of (td_max t) hi"
    unfolding e using settle_wf[of ?t] r by (simp_all add: range_wf_def)
qed

lemma merge_digest_empty: "td_count u = 0 \<Longrightarrow> merge_digest u t = t"
  by (simp add: merge_digest_def)

lemma range_wf_empty: "range_wf t \<Longrightarrow> td_count t = 0 \<longleftrightarrow> td_centroids t = []"
  using weight_pos[of "td_centroids t"] by (auto simp: range_wf_def digest_wf_def)

section \<open>Quantiles are monotone and within the range\<close>

lemma blend:
  fixes a b x y :: rat
  assumes "a \<le> b" "x \<le> y"
  shows "a + (b - a) * x \<le> a + (b - a) * y" "0 \<le> x \<Longrightarrow> a \<le> a + (b - a) * x" "x \<le> 1 \<Longrightarrow> a + (b - a) * x \<le> b"
proof -
  show "a + (b - a) * x \<le> a + (b - a) * y" using assms by (simp add: mult_left_mono)
  show "0 \<le> x \<Longrightarrow> a \<le> a + (b - a) * x" using assms by simp
  show "x \<le> 1 \<Longrightarrow> a + (b - a) * x \<le> b" using assms mult_left_mono[of x 1 "b - a"] by simp
qed

lemma blend_form: "(c :: rat) * (1 - z) + n * z = c + (n - c) * z"
  by (simp add: algebra_simps)

lemma quantile_walk_mono:
  assumes "\<forall>d\<in>set (c # cs). 0 < ce_weight d \<and> ce_mean d \<le> hi" "sorted (map ce_mean (c # cs))" "before \<le> i" "i \<le> j"
  shows "ce_mean c \<le> quantile_walk hi i before c cs \<and> quantile_walk hi i before c cs \<le> quantile_walk hi j before c cs \<and>
    quantile_walk hi j before c cs \<le> hi"
  using assms
proof (induction cs arbitrary: c before i j)
  case Nil
  let ?f = "\<lambda>k. if (k - before) / (ce_weight c / 2) > 1 then 1 else (k - before) / (ce_weight c / 2)"
  have w: "0 < ce_weight c / 2" "ce_mean c \<le> hi" using Nil by simp_all
  have "(i - before) / (ce_weight c / 2) \<le> (j - before) / (ce_weight c / 2)"
    using w Nil(4) by (intro divide_right_mono) simp_all
  moreover have "0 \<le> (i - before) / (ce_weight c / 2)" using w Nil(3) by (intro divide_nonneg_pos) simp_all
  ultimately have f: "?f i \<le> ?f j" "0 \<le> ?f i" "?f j \<le> 1" by auto
  have q: "quantile_walk hi k before c [] = ce_mean c + (hi - ce_mean c) * ?f k" for k by (simp only: quantile_walk.simps Let_def)
  show ?case unfolding q using blend(1)[OF w(2) f(1)] blend(2)[OF w(2) f(1,2)] blend(3)[OF w(2) order_refl f(3)] by blast
next
  case (Cons n cs)
  let ?dw = "(ce_weight c + ce_weight n) / 2" and ?f = "\<lambda>k. (k - before) / ((ce_weight c + ce_weight n) / 2)"
  have dw: "0 < ?dw" "ce_mean c \<le> ce_mean n" "ce_mean n \<le> hi" using Cons.prems by (simp_all add: add_pos_pos)
  have rest: "\<forall>d\<in>set (n # cs). 0 < ce_weight d \<and> ce_mean d \<le> hi" "sorted (map ce_mean (n # cs))" using Cons.prems by simp_all
  have inside: "quantile_walk hi k before c (n # cs) = ce_mean c + (ce_mean n - ce_mean c) * ?f k" if "k < before + ?dw" for k
    using that by (simp add: Let_def blend_form)
  have beyond: "quantile_walk hi k before c (n # cs) = quantile_walk hi k (before + ?dw) n cs" if "\<not> k < before + ?dw" for k
    using that by (simp add: Let_def)
  have f01: "0 \<le> ?f k" if "before \<le> k" for k using that dw(1) by (intro divide_nonneg_pos) simp_all
  have f1: "?f k \<le> 1" if "k < before + ?dw" for k
    using that dw(1) pos_divide_le_eq[OF dw(1), of "k - before" 1] by linarith
  have fm: "?f i \<le> ?f j" using Cons.prems(4) dw(1) by (intro divide_right_mono) simp_all
  consider "j < before + ?dw" | "i < before + ?dw" "\<not> j < before + ?dw" | "\<not> i < before + ?dw" by linarith
  then show ?case
  proof cases
    case 1
    then have i: "i < before + ?dw" using Cons.prems(4) by simp
    show ?thesis unfolding inside[OF 1] inside[OF i]
      using blend(1)[OF dw(2) fm] blend(2)[OF dw(2) fm f01[OF Cons.prems(3)]] blend(3)[OF dw(2) order_refl f1[OF 1]] dw(3) by linarith
  next
    case 2
    have j: "before + ?dw \<le> j" using 2(2) by simp
    note IH = Cons.IH[OF rest j order_refl]
    show ?thesis unfolding inside[OF 2(1)] beyond[OF 2(2)]
      using IH blend(2)[OF dw(2) order_refl f01[OF Cons.prems(3)]] blend(3)[OF dw(2) order_refl f1[OF 2(1)]] by linarith
  next
    case 3
    then have j: "\<not> j < before + ?dw" "before + ?dw \<le> i" using Cons.prems(4) by simp_all
    note IH = Cons.IH[OF rest j(2) Cons.prems(4)]
    show ?thesis unfolding beyond[OF 3] beyond[OF j(1)] using IH dw(2) by linarith
  qed
qed

lemma quantile_of_mono:
  assumes "range_wf t" "td_processed t" "td_centroids t \<noteq> []" "q \<le> r"
  shows "\<exists>lo hi a b. td_min t = Some lo \<and> td_max t = Some hi \<and> quantile_of q t = Some a \<and> quantile_of r t = Some b \<and>
    lo \<le> a \<and> a \<le> b \<and> b \<le> hi"
proof -
  obtain lo hi where m: "td_min t = Some lo" "td_max t = Some hi" "\<forall>c\<in>set (td_centroids t). lo \<le> ce_mean c \<and> ce_mean c \<le> hi"
    using digest_wf_range assms(1,3) unfolding range_wf_def by blast
  have lh: "lo \<le> hi" using assms(1) m by (simp add: range_wf_def)
  obtain c cs where cs: "td_centroids t = c # cs" using assms(3) by (cases "td_centroids t") auto
  have wf: "\<forall>d\<in>set (c # cs). 0 < ce_weight d \<and> ce_mean d \<le> hi" "sorted (map ce_mean (c # cs))" "lo \<le> ce_mean c"
    using assms(1,2) m(3) by (simp_all add: range_wf_def digest_wf_def cs)
  have n: "0 \<le> td_count t" using assms(1) weight_nonneg[of "td_centroids t"] by (simp add: range_wf_def digest_wf_def)
  have w: "0 < ce_weight c / 2" using wf(1) by simp
  let ?i = "\<lambda>q. q * td_count t" and ?z = "\<lambda>q. q * td_count t / (ce_weight c / 2)"
  have mono: "?i x \<le> ?i y" if "x \<le> y" for x y using that n by (simp add: mult_right_mono)
  have head: "lo \<le> lo + (ce_mean c - lo) * ?z x \<and> lo + (ce_mean c - lo) * ?z x \<le> ce_mean c" if "0 < x" "?i x < ce_weight c / 2" for x
  proof -
    have "0 \<le> ?z x" using that(1) n w by (intro divide_nonneg_pos) simp_all
    moreover have "?z x \<le> 1" using that(2) w pos_divide_le_eq[OF w, of "?i x" 1] by simp
    ultimately show ?thesis using blend(2,3)[OF wf(3) order_refl] by blast
  qed
  note walk = quantile_walk_mono[OF wf(1,2)]
  define v where "v x = (if ?i x < ce_weight c / 2 then lo + (ce_mean c - lo) * ?z x else quantile_walk hi (?i x) (ce_weight c / 2) c cs)" for x
  have v: "lo \<le> v x \<and> v x \<le> v y \<and> v y \<le> hi" if xy: "0 < x" "x \<le> y" for x y
  proof -
    have "?z x \<le> ?z y" using mono[OF xy(2)] w by (intro divide_right_mono) simp_all
    note z = blend(1)[OF wf(3) this]
    consider "?i y < ce_weight c / 2" | "?i x < ce_weight c / 2" "\<not> ?i y < ce_weight c / 2" | "\<not> ?i x < ce_weight c / 2" by linarith
    then show ?thesis
    proof cases
      case 1
      then have x: "?i x < ce_weight c / 2" using mono[OF xy(2)] by linarith
      show ?thesis using head[OF xy(1) x] head[of y] 1 x xy z wf(1) by (auto simp: v_def)
    next
      case 2
      then show ?thesis using head[OF xy(1) 2(1)] walk[of "ce_weight c / 2" "?i y" "?i y"] by (auto simp: v_def)
    next
      case 3
      then have y: "\<not> ?i y < ce_weight c / 2" using mono[OF xy(2)] by linarith
      show ?thesis using 3 y wf(3) walk[of "ce_weight c / 2" "?i x" "?i y"] mono[OF xy(2)] by (auto simp: v_def)
    qed
  qed
  have q: "quantile_of x t = (if x \<le> 0 then Some lo else if x \<ge> 1 then Some hi else if cs = [] then Some (ce_mean c) else Some (v x))" for x
    by (simp add: quantile_of_def cs m v_def Let_def)
  show ?thesis
    unfolding q using lh wf(1,3) v[of q r] v[of q q] v[of r r] assms(4) by (auto simp: m)
qed

section \<open>Sketches that are built\<close>

inductive built :: "tdigest \<Rightarrow> bool" where
  built_new: "built (new_digest c)"
| built_add: "built t \<Longrightarrow> built (add_value x w t)"
| built_merge: "built t \<Longrightarrow> built u \<Longrightarrow> built (merge_digest u t)"
| built_read: "built t \<Longrightarrow> built (snd (quantile q t))"

lemma built_wf: "built t \<Longrightarrow> range_wf t"
proof (induction rule: built.induct)
  case (built_add t x w)
  then show ?case using add_value_wf(1)[of t w x] by (cases "0 < w") (simp_all add: add_value_def)
next
  case (built_merge t u)
  show ?case
  proof (cases "td_count u = 0")
    case False
    then have "td_centroids u \<noteq> []" using range_wf_empty[OF built_merge.IH(2)] by blast
    then obtain lo hi where "td_min u = Some lo" "td_max u = Some hi"
      using built_merge.IH(2) by (auto simp: range_wf_def)
    then show ?thesis by (rule merge_digest_wf(1)[OF built_merge.IH])
  qed (use built_merge in \<open>simp add: merge_digest_empty\<close>)
qed (simp_all add: range_new quantile_def Let_def range_process)


definition demo_sketch :: tdigest where
  "demo_sketch = merge_digest (add_value 7 1 (add_value 3 2 (new_digest 2))) (add_value 5 1 (new_digest 2))"


end
