(* ===== verification/Metric_Rollup.thy ===== *)
theory Metric_Rollup
  imports Tdigest Metric_Raw
begin

text \<open>
  The rollups of the metric store, \<^verbatim>\<open>pkg/metric/rollup.go\<close>, \<^verbatim>\<open>aggregate.go\<close>, \<^verbatim>\<open>interval.go\<close> and the choice of a tier
  in \<^verbatim>\<open>rollup_query.go\<close>: the sums of a bucket and its sketch, adding a point and merging a finer bucket, the
  aggregations read from a bucket and from the samples themselves, and the policy of tiers.  Values are
  rationals and counts integers (no rounding, no overflow); a square root is kept as the number it is taken
  of.  Durations are in nanoseconds, times of samples in milliseconds.
\<close>

section \<open>Summaries that can be merged\<close>

text \<open>What a summary promises: it stands for a multiset, and adding and merging add to that multiset.\<close>

locale mergeable =
  fixes fits :: "'s \<Rightarrow> 'a multiset \<Rightarrow> bool"
    and start :: 's
    and put :: "'a \<Rightarrow> 's \<Rightarrow> 's"
    and join :: "'s \<Rightarrow> 's \<Rightarrow> 's"
  assumes start_fits: "fits start {#}"
    and put_fits: "fits s M \<Longrightarrow> fits (put x s) (add_mset x M)"
    and join_fits: "fits s M \<Longrightarrow> fits u N \<Longrightarrow> fits (join u s) (M + N)"
begin

lemma puts_fit: "fits s M \<Longrightarrow> fits (fold put xs s) (M + mset xs)"
proof (induction xs arbitrary: s M)
  case (Cons x xs)
  show ?case using Cons.IH[OF put_fits[OF Cons.prems, of x]] by simp
qed simp

lemma joins_fit: "fits s M \<Longrightarrow> list_all2 fits us Ns \<Longrightarrow> fits (fold join us s) (M + sum_list Ns)"
proof (induction us arbitrary: s M Ns)
  case (Cons u us)
  obtain N Ns' where n: "Ns = N # Ns'" "fits u N" "list_all2 fits us Ns'" using Cons.prems(2) by (auto simp: list_all2_Cons1)
  show ?case using Cons.IH[OF join_fits[OF Cons.prems(1) n(2)] n(3)] by (simp add: n(1) add.assoc)
qed simp

lemma parts_fit: "fits (fold join (map (\<lambda>xs. fold put xs start) xss) start) (mset (concat xss))"
proof -
  have p: "fits (fold put xs start) (mset xs)" for xs using puts_fit[OF start_fits, of xs] by simp
  have "list_all2 fits (map (\<lambda>xs. fold put xs start) xss) (map mset xss)" by (simp add: list_all2_map1 list_all2_map2 list_all2_same p)
  from joins_fit[OF start_fits this] show ?thesis by (simp add: mset_concat)
qed

end

section \<open>Sums\<close>

type_synonym observation = "rat \<times> int"

record bucket_sums =
  su_count :: int
  su_sum :: rat
  su_sum_sq :: rat
  su_min :: rat
  su_max :: rat
  su_first_val :: rat
  su_first_ts :: int
  su_last_val :: rat
  su_last_ts :: int

definition no_sums :: bucket_sums where
  "no_sums = \<lparr>su_count = 0, su_sum = 0, su_sum_sq = 0, su_min = 0, su_max = 0, su_first_val = 0, su_first_ts = 0,
     su_last_val = 0, su_last_ts = 0\<rparr>"

text \<open>The sums' part of \<^verbatim>\<open>addPoint\<close> and of \<^verbatim>\<open>mergeStored\<close>.\<close>

definition add_sums :: "observation \<Rightarrow> bucket_sums \<Rightarrow> bucket_sums" where
  "add_sums x b = (case x of (v, ts) \<Rightarrow>
     let b1 = (if su_count b = 0
               then b\<lparr>su_min := v, su_max := v, su_first_val := v, su_first_ts := ts, su_last_val := v, su_last_ts := ts\<rparr>
               else b\<lparr>su_min := if v < su_min b then v else su_min b,
                      su_max := if v > su_max b then v else su_max b,
                      su_first_val := if ts < su_first_ts b then v else su_first_val b,
                      su_first_ts := if ts < su_first_ts b then ts else su_first_ts b,
                      su_last_val := if ts > su_last_ts b then v else su_last_val b,
                      su_last_ts := if ts > su_last_ts b then ts else su_last_ts b\<rparr>)
     in b1\<lparr>su_count := su_count b + 1, su_sum := su_sum b + v, su_sum_sq := su_sum_sq b + v * v\<rparr>)"

definition merge_sums :: "bucket_sums \<Rightarrow> bucket_sums \<Rightarrow> bucket_sums" where
  "merge_sums u b =
     (if su_count u = 0 then b
      else let b1 = (if su_count b = 0
               then b\<lparr>su_min := su_min u, su_max := su_max u, su_first_val := su_first_val u, su_first_ts := su_first_ts u,
                      su_last_val := su_last_val u, su_last_ts := su_last_ts u\<rparr>
               else b\<lparr>su_min := if su_min u < su_min b then su_min u else su_min b,
                      su_max := if su_max u > su_max b then su_max u else su_max b,
                      su_first_val := if su_first_ts u < su_first_ts b then su_first_val u else su_first_val b,
                      su_first_ts := if su_first_ts u < su_first_ts b then su_first_ts u else su_first_ts b,
                      su_last_val := if su_last_ts u > su_last_ts b then su_last_val u else su_last_val b,
                      su_last_ts := if su_last_ts u > su_last_ts b then su_last_ts u else su_last_ts b\<rparr>)
           in b1\<lparr>su_count := su_count b + su_count u, su_sum := su_sum b + su_sum u, su_sum_sq := su_sum_sq b + su_sum_sq u\<rparr>)"

definition least_in :: "'a::linorder \<Rightarrow> 'a multiset \<Rightarrow> bool" where
  "least_in m M \<longleftrightarrow> m \<in># M \<and> (\<forall>x\<in>#M. m \<le> x)"

definition greatest_in :: "'a::linorder \<Rightarrow> 'a multiset \<Rightarrow> bool" where
  "greatest_in m M \<longleftrightarrow> m \<in># M \<and> (\<forall>x\<in>#M. x \<le> m)"

definition sums_fit :: "bucket_sums \<Rightarrow> observation multiset \<Rightarrow> bool" where
  "sums_fit s M \<longleftrightarrow> su_count s = int (size M) \<and> su_sum s = (\<Sum>x\<in>#M. fst x) \<and> su_sum_sq s = (\<Sum>x\<in>#M. fst x * fst x) \<and>
     (M \<noteq> {#} \<longrightarrow> least_in (su_min s) (image_mset fst M) \<and> greatest_in (su_max s) (image_mset fst M) \<and>
        ((su_first_val s, su_first_ts s) \<in># M \<and> (\<forall>x\<in>#M. su_first_ts s \<le> snd x)) \<and>
        ((su_last_val s, su_last_ts s) \<in># M \<and> (\<forall>x\<in>#M. snd x \<le> su_last_ts s)))"

lemma least_add: "least_in m M \<Longrightarrow> least_in (if v < m then v else m) (add_mset v M)"
  by (auto simp: least_in_def)

lemma greatest_add: "greatest_in m M \<Longrightarrow> greatest_in (if v > m then v else m) (add_mset v M)"
  by (auto simp: greatest_in_def)

lemma least_join: "least_in m M \<Longrightarrow> least_in n N \<Longrightarrow> least_in (if n < m then n else m) (M + N)"
  by (auto simp: least_in_def)

lemma greatest_join: "greatest_in m M \<Longrightarrow> greatest_in n N \<Longrightarrow> greatest_in (if n > m then n else m) (M + N)"
  by (auto simp: greatest_in_def)

lemma sums_fit_count: "sums_fit s M \<Longrightarrow> su_count s = 0 \<longleftrightarrow> M = {#}"
  by (simp add: sums_fit_def)

lemma add_sums_fit:
  assumes "sums_fit s M"
  shows "sums_fit (add_sums x s) (add_mset x M)"
proof (cases "M = {#}")
  case True
  then show ?thesis using assms
    by (cases x) (simp add: sums_fit_def add_sums_def Let_def least_in_def greatest_in_def)
next
  case False
  then have c: "su_count s \<noteq> 0" using sums_fit_count[OF assms] by simp
  have l: "least_in (su_min s) (image_mset fst M)" "greatest_in (su_max s) (image_mset fst M)"
    and f: "(su_first_val s, su_first_ts s) \<in># M" "\<forall>x\<in>#M. su_first_ts s \<le> snd x"
      "(su_last_val s, su_last_ts s) \<in># M" "\<forall>x\<in>#M. snd x \<le> su_last_ts s"
    using assms False by (simp_all add: sums_fit_def)
  obtain v ts where x: "x = (v, ts)" by fastforce
  have "least_in (su_min (add_sums x s)) (image_mset fst (add_mset x M))" "greatest_in (su_max (add_sums x s)) (image_mset fst (add_mset x M))"
    using least_add[OF l(1), of v] greatest_add[OF l(2), of v] c by (simp_all add: add_sums_def x Let_def)
  moreover have "(su_first_val (add_sums x s), su_first_ts (add_sums x s)) \<in># add_mset x M"
    "\<forall>y\<in>#add_mset x M. su_first_ts (add_sums x s) \<le> snd y"
    "(su_last_val (add_sums x s), su_last_ts (add_sums x s)) \<in># add_mset x M"
    "\<forall>y\<in>#add_mset x M. snd y \<le> su_last_ts (add_sums x s)"
    using f c by (auto simp: add_sums_def x Let_def)
  moreover have "su_count (add_sums x s) = int (size (add_mset x M))" "su_sum (add_sums x s) = (\<Sum>y\<in>#add_mset x M. fst y)"
    "su_sum_sq (add_sums x s) = (\<Sum>y\<in>#add_mset x M. fst y * fst y)"
    using assms by (simp_all add: sums_fit_def add_sums_def x Let_def)
  ultimately show ?thesis unfolding sums_fit_def by blast
qed

lemma merge_sums_fit:
  assumes "sums_fit s M" "sums_fit u N"
  shows "sums_fit (merge_sums u s) (M + N)"
proof -
  note c = sums_fit_count[OF assms(1)] sums_fit_count[OF assms(2)]
  consider "N = {#}" | "M = {#}" "N \<noteq> {#}" | "M \<noteq> {#}" "N \<noteq> {#}" by blast
  then show ?thesis
  proof cases
    case 1
    then show ?thesis using assms(1) c by (simp add: merge_sums_def)
  next
    case 2
    then show ?thesis using assms c by (simp add: merge_sums_def Let_def sums_fit_def)
  next
    case 3
    then have n: "su_count s \<noteq> 0" "su_count u \<noteq> 0" using c by blast+
    have l: "least_in (su_min s) (image_mset fst M)" "greatest_in (su_max s) (image_mset fst M)"
        "least_in (su_min u) (image_mset fst N)" "greatest_in (su_max u) (image_mset fst N)"
      and f: "(su_first_val s, su_first_ts s) \<in># M" "\<forall>x\<in>#M. su_first_ts s \<le> snd x"
        "(su_last_val s, su_last_ts s) \<in># M" "\<forall>x\<in>#M. snd x \<le> su_last_ts s"
        "(su_first_val u, su_first_ts u) \<in># N" "\<forall>x\<in>#N. su_first_ts u \<le> snd x"
        "(su_last_val u, su_last_ts u) \<in># N" "\<forall>x\<in>#N. snd x \<le> su_last_ts u"
      using assms 3 by (simp_all add: sums_fit_def)
    let ?r = "merge_sums u s"
    have "least_in (su_min ?r) (image_mset fst (M + N))" "greatest_in (su_max ?r) (image_mset fst (M + N))"
      using least_join[OF l(1,3)] greatest_join[OF l(2,4)] n by (simp_all add: merge_sums_def Let_def)
    moreover have "(su_first_val ?r, su_first_ts ?r) \<in># M + N" "(su_last_val ?r, su_last_ts ?r) \<in># M + N"
      using f n by (auto simp: merge_sums_def Let_def)
    moreover have "\<forall>y\<in>#M + N. su_first_ts ?r \<le> snd y" "\<forall>y\<in>#M + N. snd y \<le> su_last_ts ?r"
      using f(2,4,6,8) n by (force simp: merge_sums_def Let_def)+
    moreover have "su_count ?r = int (size (M + N))" "su_sum ?r = (\<Sum>y\<in>#M + N. fst y)" "su_sum_sq ?r = (\<Sum>y\<in>#M + N. fst y * fst y)"
      using assms n by (simp_all add: sums_fit_def merge_sums_def Let_def)
    ultimately show ?thesis unfolding sums_fit_def by blast
  qed
qed

lemma no_sums_fit: "sums_fit no_sums {#}"
  by (simp add: sums_fit_def no_sums_def)

interpretation bsums: mergeable sums_fit no_sums add_sums merge_sums
  by unfold_locales (rule no_sums_fit add_sums_fit merge_sums_fit; assumption?)+

section \<open>Sketches\<close>

definition add_digest :: "observation \<Rightarrow> tdigest \<Rightarrow> tdigest" where
  "add_digest x d = add_value (fst x) 1 d"

definition digest_fits :: "tdigest \<Rightarrow> observation multiset \<Rightarrow> bool" where
  "digest_fits d M \<longleftrightarrow> range_wf d \<and> td_count d = of_nat (size M) \<and>
     (M \<noteq> {#} \<longrightarrow> (\<exists>lo hi. td_min d = Some lo \<and> td_max d = Some hi \<and> least_in lo (image_mset fst M) \<and> greatest_in hi (image_mset fst M)))"

lemma digest_fits_empty: "digest_fits d M \<Longrightarrow> M = {#} \<longleftrightarrow> td_min d = None"
  using range_wf_empty[of d] by (auto simp: digest_fits_def range_wf_def)

lemma new_digest_fits: "digest_fits (new_digest c) {#}"
  using new_digest_wf[of c] by (simp add: digest_fits_def range_new)

lemma least_single: "least_in (m :: rat) {#m#}" "greatest_in m {#m#}"
  by (simp_all add: least_in_def greatest_in_def)

lemma add_digest_fits:
  assumes "digest_fits d M"
  shows "digest_fits (add_digest x d) (add_mset x M)"
proof -
  have r: "range_wf d" using assms by (simp add: digest_fits_def)
  note a = add_value_wf[OF r zero_less_one, of "fst x"]
  show ?thesis
  proof (cases "M = {#}")
    case True
    then have "td_min d = None" "td_max d = None" using digest_fits_empty[OF assms] r by (auto simp: range_wf_def)
    then show ?thesis
      using a assms True least_single[of "fst x"] by (simp add: digest_fits_def add_digest_def lower_of_def upper_of_def)
  next
    case False
    then obtain lo hi where m: "td_min d = Some lo" "td_max d = Some hi" "least_in lo (image_mset fst M)" "greatest_in hi (image_mset fst M)"
      using assms unfolding digest_fits_def by blast
    have "lower_of (Some lo) (fst x) = Some (if fst x < lo then fst x else lo)" "upper_of (Some hi) (fst x) = Some (if fst x > hi then fst x else hi)"
      by (simp_all add: lower_of_def upper_of_def)
    then show ?thesis
      using a assms m least_add[OF m(3), of "fst x"] greatest_add[OF m(4), of "fst x"] by (simp add: digest_fits_def add_digest_def)
  qed
qed

lemma merge_digest_fits:
  assumes "digest_fits d M" "digest_fits u N"
  shows "digest_fits (merge_digest u d) (M + N)"
proof (cases "N = {#}")
  case True
  then show ?thesis using assms by (simp add: digest_fits_def merge_digest_empty)
next
  case False
  have r: "range_wf d" "range_wf u" using assms by (simp_all add: digest_fits_def)
  obtain lo hi where u: "td_min u = Some lo" "td_max u = Some hi" "least_in lo (image_mset fst N)" "greatest_in hi (image_mset fst N)"
    using assms(2) False unfolding digest_fits_def by blast
  note a = merge_digest_wf[OF r u(1,2)]
  show ?thesis
  proof (cases "M = {#}")
    case True
    then have "td_min d = None" "td_max d = None" using digest_fits_empty[OF assms(1)] r by (auto simp: range_wf_def)
    then show ?thesis using a assms True u by (simp add: digest_fits_def lower_of_def upper_of_def)
  next
    case False
    then obtain lo' hi' where m: "td_min d = Some lo'" "td_max d = Some hi'" "least_in lo' (image_mset fst M)" "greatest_in hi' (image_mset fst M)"
      using assms(1) unfolding digest_fits_def by blast
    have "lower_of (Some lo') lo = Some (if lo < lo' then lo else lo')" "upper_of (Some hi') hi = Some (if hi > hi' then hi else hi')"
      by (simp_all add: lower_of_def upper_of_def)
    then show ?thesis
      using a assms m least_join[OF m(3) u(3)] greatest_join[OF m(4) u(4)] by (simp add: digest_fits_def)
  qed
qed

interpretation sketches: mergeable digest_fits "new_digest c" add_digest merge_digest for c
  by unfold_locales (rule new_digest_fits add_digest_fits merge_digest_fits; assumption?)+

section \<open>Buckets\<close>

record bucket =
  bk_sums :: bucket_sums
  bk_digest :: "tdigest option"
  bk_tags_hash :: go_string
  bk_tags :: go_string
  bk_labels_hash :: go_string
  bk_labels :: go_string

definition new_bucket :: "rat \<Rightarrow> bool \<Rightarrow> bucket" where
  "new_bucket c sketch = \<lparr>bk_sums = no_sums, bk_digest = (if sketch then Some (new_digest c) else None), bk_tags_hash = [], bk_tags = [],
     bk_labels_hash = [], bk_labels = []\<rparr>"

definition clone_bucket :: "bool \<Rightarrow> bucket \<Rightarrow> bucket" where
  "clone_bucket sketch b = (if sketch then b else b\<lparr>bk_digest := None\<rparr>)"

definition add_point :: "observation \<Rightarrow> bucket \<Rightarrow> bucket" where
  "add_point x b = b\<lparr>bk_sums := add_sums x (bk_sums b), bk_digest := map_option (add_digest x) (bk_digest b)\<rparr>"

definition merge_stored :: "bucket \<Rightarrow> bucket \<Rightarrow> bucket" where
  "merge_stored u b =
     (if su_count (bk_sums u) = 0 then b
      else b\<lparr>bk_sums := merge_sums (bk_sums u) (bk_sums b),
             bk_digest := (case bk_digest u of None \<Rightarrow> bk_digest b
               | Some d \<Rightarrow> Some (merge_digest d (case bk_digest b of None \<Rightarrow> new_digest default_compression | Some e \<Rightarrow> e)))\<rparr>)"

definition bucket_fits :: "bucket \<Rightarrow> observation multiset \<Rightarrow> bool" where
  "bucket_fits b M \<longleftrightarrow> sums_fit (bk_sums b) M \<and> (\<exists>d. bk_digest b = Some d \<and> digest_fits d M)"

lemma new_bucket_fits: "bucket_fits (new_bucket c True) {#}"
  by (simp add: bucket_fits_def new_bucket_def no_sums_fit new_digest_fits)

lemma add_point_fits: "bucket_fits b M \<Longrightarrow> bucket_fits (add_point x b) (add_mset x M)"
  by (auto simp: bucket_fits_def add_point_def add_sums_fit add_digest_fits)

lemma merge_stored_fits: "bucket_fits b M \<Longrightarrow> bucket_fits u N \<Longrightarrow> bucket_fits (merge_stored u b) (M + N)"
  using merge_sums_fit[of "bk_sums b" M "bk_sums u" N] sums_fit_count[of "bk_sums u" N]
  by (auto simp: bucket_fits_def merge_stored_def merge_digest_fits)

interpretation buckets: mergeable bucket_fits "new_bucket c True" add_point merge_stored for c
  by unfold_locales (rule new_bucket_fits add_point_fits merge_stored_fits; assumption?)+

lemma bucket_count: "bucket_fits b M \<Longrightarrow> su_count (bk_sums b) = 0 \<longleftrightarrow> M = {#}"
  using sums_fit_count by (auto simp: bucket_fits_def)

section \<open>The stored form of a sketch\<close>

text \<open>A bucket whose values are all the same is stored without its sketch.  The bytes are not modelled: what is stored is the processed sketch.\<close>

definition encoded_digest :: "bucket \<Rightarrow> tdigest option" where
  "encoded_digest b =
     (if su_count (bk_sums b) = 0 \<or> su_min (bk_sums b) = su_max (bk_sums b) then None
      else map_option process_digest (bk_digest b))"

definition decode_digest :: "tdigest \<Rightarrow> tdigest" where
  "decode_digest d = d\<lparr>td_processed := True, td_compression := if td_compression d \<le> 1 then default_compression else td_compression d\<rparr>"

definition digest_from_rollup :: "bucket_sums \<Rightarrow> tdigest option \<Rightarrow> rat \<Rightarrow> tdigest option" where
  "digest_from_rollup s blob c = (case blob of
       Some d \<Rightarrow> Some (decode_digest d)
     | None \<Rightarrow> if su_count s = 0 then Some (new_digest c)
         else if su_min s = su_max s then Some (add_value (su_min s) (of_int (su_count s)) (new_digest c))
         else None)"

lemma least_unique: "least_in m M \<Longrightarrow> least_in n M \<Longrightarrow> m = n" "greatest_in m M \<Longrightarrow> greatest_in n M \<Longrightarrow> m = n"
  by (auto simp: least_in_def greatest_in_def intro: antisym)

lemma digest_survives:
  assumes "bucket_fits b M"
  shows "\<exists>d. digest_from_rollup (bk_sums b) (encoded_digest b) c = Some d \<and> digest_fits d M"
proof -
  obtain d where d: "bk_digest b = Some d" "digest_fits d M" using assms by (auto simp: bucket_fits_def)
  have s: "sums_fit (bk_sums b) M" using assms by (simp add: bucket_fits_def)
  have r: "range_wf d" using d(2) by (simp add: digest_fits_def)
  consider "M = {#}" | "M \<noteq> {#}" "su_min (bk_sums b) = su_max (bk_sums b)" | "M \<noteq> {#}" "su_min (bk_sums b) \<noteq> su_max (bk_sums b)" by blast
  then show ?thesis
  proof cases
    case 1
    then show ?thesis using sums_fit_count[OF s] by (simp add: encoded_digest_def digest_from_rollup_def new_digest_fits)
  next
    case 2
    let ?v = "su_min (bk_sums b)"
    have n: "su_count (bk_sums b) = int (size M)" "0 < size M" using s 2(1) by (simp_all add: sums_fit_def nonempty_has_size)
    then have w: "0 < (of_int (su_count (bk_sums b)) :: rat)" by simp
    note a = add_value_wf[OF range_new w, of ?v c]
    have z: "td_count (new_digest c) = 0" "td_min (new_digest c) = None" "td_max (new_digest c) = None" by (simp_all add: new_digest_def)
    have m: "least_in ?v (image_mset fst M)" "greatest_in ?v (image_mset fst M)" using s 2 by (simp_all add: sums_fit_def)
    have "digest_fits (add_value ?v (of_int (su_count (bk_sums b))) (new_digest c)) M"
      using a m n by (simp add: digest_fits_def z lower_of_def upper_of_def)
    then show ?thesis using 2 n by (simp add: encoded_digest_def digest_from_rollup_def)
  next
    case 3
    have p: "range_wf (process_digest d)" "td_processed (process_digest d)" using range_process[OF r] process_digest_wf[of d] r
      by (simp_all add: range_wf_def)
    then have "decode_digest (process_digest d) = process_digest d" by (simp add: decode_digest_def range_wf_def digest_wf_def)
    moreover have "digest_fits (process_digest d) M"
      using d(2) p process_digest_wf[of d] r by (simp add: digest_fits_def range_wf_def)
    ultimately show ?thesis using 3 d(1) sums_fit_count[OF s] by (simp add: encoded_digest_def digest_from_rollup_def)
  qed
qed

section \<open>Aggregations\<close>

text \<open>The name of a percentile carries its percentage; \<open>OtherName\<close> is any name that is none of these.\<close>

datatype aggregation = AggAvg | AggMin | AggMax | AggSum | AggCount | AggFirst | AggLast | AggStdDev | AggRate
  | AggPercentile rat | OtherName

text \<open>A number, the square root of one, or not a number.\<close>

datatype reading = Num rat | Root rat | NotANumber

definition parse_percentile :: "aggregation \<Rightarrow> rat option" where
  "parse_percentile a = (case a of AggPercentile p \<Rightarrow> if p \<le> 0 \<or> p \<ge> 100 then None else Some (p / 100) | _ \<Rightarrow> None)"

definition bucket_value :: "aggregation \<Rightarrow> bucket \<Rightarrow> reading option" where
  "bucket_value a b =
     (let s = bk_sums b; n = (of_int (su_count s) :: rat) in
      case a of
        AggAvg \<Rightarrow> Some (Num (if su_count s = 0 then 0 else su_sum s / n))
      | AggMin \<Rightarrow> Some (Num (su_min s))
      | AggMax \<Rightarrow> Some (Num (su_max s))
      | AggSum \<Rightarrow> Some (Num (su_sum s))
      | AggCount \<Rightarrow> Some (Num n)
      | AggFirst \<Rightarrow> Some (Num (su_first_val s))
      | AggLast \<Rightarrow> Some (Num (su_last_val s))
      | AggStdDev \<Rightarrow>
          (if su_count s = 0 then Some (Num 0)
           else let mean = su_sum s / n; variance = su_sum_sq s / n - mean * mean
                in Some (Root (if variance < 0 then 0 else variance)))
      | AggRate \<Rightarrow> None
      | _ \<Rightarrow> (case parse_percentile a of None \<Rightarrow> None
          | Some part \<Rightarrow> (case bk_digest b of None \<Rightarrow> Some (Num 0)
              | Some d \<Rightarrow> if td_count d = 0 then Some (Num 0)
                  else (case fst (quantile part d) of None \<Rightarrow> Some NotANumber | Some v \<Rightarrow> Some (Num v)))))"

text \<open>The same from the samples, which the callers pass in the order of time.\<close>

definition percentile_sorted :: "rat list \<Rightarrow> rat \<Rightarrow> rat" where
  "percentile_sorted vs p =
     (if vs = [] then 0 else if length vs = 1 then vs ! 0
      else let pos = p * of_nat (length vs - 1); lower = nat (floor pos); upper = nat (ceiling pos) in
        if lower = upper then vs ! lower
        else let weight = pos - of_nat lower in vs ! lower * (1 - weight) + vs ! upper * weight)"

fun increases :: "rat list \<Rightarrow> rat" where
  "increases (a # b # vs) = (if b - a > 0 then b - a else 0) + increases (b # vs)"
| "increases _ = 0"

definition counter_rate :: "observation list \<Rightarrow> rat" where
  "counter_rate ps =
     (if length ps < 2 then 0
      else let seconds = of_int (snd (last ps) - snd (hd ps)) / 1000 in
        if seconds \<le> 0 then 0 else increases (map fst ps) / seconds)"

definition std_dev_pop :: "observation list \<Rightarrow> reading" where
  "std_dev_pop ps =
     (if ps = [] then Num 0
      else let mean = sum_list (map fst ps) / of_nat (length ps)
        in Root (sum_list (map (\<lambda>x. (fst x - mean) * (fst x - mean)) ps) / of_nat (length ps)))"

text \<open>\<open>None\<close> is the error for a name that is no aggregation.\<close>

definition aggregate_value :: "observation list \<Rightarrow> aggregation \<Rightarrow> reading option" where
  "aggregate_value ps a =
     (if ps = [] then Some (Num 0)
      else case a of
        AggAvg \<Rightarrow> Some (Num (sum_list (map fst ps) / of_nat (length ps)))
      | AggMin \<Rightarrow> Some (Num (foldl min (fst (hd ps)) (map fst (tl ps))))
      | AggMax \<Rightarrow> Some (Num (foldl max (fst (hd ps)) (map fst (tl ps))))
      | AggSum \<Rightarrow> Some (Num (sum_list (map fst ps)))
      | AggCount \<Rightarrow> Some (Num (of_nat (length ps)))
      | AggFirst \<Rightarrow> Some (Num (fst (hd ps)))
      | AggLast \<Rightarrow> Some (Num (fst (last ps)))
      | AggRate \<Rightarrow> Some (Num (counter_rate ps))
      | AggStdDev \<Rightarrow> Some (std_dev_pop ps)
      | _ \<Rightarrow> (case parse_percentile a of Some part \<Rightarrow> Some (Num (percentile_sorted (sort (map fst ps)) part)) | None \<Rightarrow> None))"

lemma foldl_min: "least_in (foldl min a vs) (add_mset a (mset vs))"
proof (induction vs rule: rev_induct)
  case (snoc v vs)
  then show ?case by (auto simp: least_in_def min_def)
qed (simp add: least_in_def)

lemma foldl_max: "greatest_in (foldl max a vs) (add_mset a (mset vs))"
proof (induction vs rule: rev_induct)
  case (snoc v vs)
  then show ?case by (auto simp: greatest_in_def max_def)
qed (simp add: greatest_in_def)

lemma variance_forms:
  fixes vs :: "rat list"
  assumes "vs \<noteq> []"
  defines "n \<equiv> of_nat (length vs)" and "m \<equiv> sum_list vs / of_nat (length vs)"
  shows "sum_list (map (\<lambda>v. (v - m) * (v - m)) vs) / n = sum_list (map (\<lambda>v. v * v) vs) / n - m * m"
proof -
  have expand: "sum_list (map (\<lambda>v. (v - c) * (v - c)) vs) = sum_list (map (\<lambda>v. v * v) vs) - 2 * c * sum_list vs + of_nat (length vs) * c * c" for c
    by (induction vs) (simp_all add: algebra_simps)
  have n: "n \<noteq> 0" "sum_list vs = n * m" using assms(1) by (simp_all add: n_def m_def)
  have "sum_list (map (\<lambda>v. (v - m) * (v - m)) vs) = sum_list (map (\<lambda>v. v * v) vs) - n * (m * m)"
    unfolding expand n(2) by (simp add: n_def[symmetric] algebra_simps)
  then show ?thesis using n(1) by (simp add: diff_divide_distrib)
qed

lemma fits_sorted_ends:
  assumes "sums_fit s (mset ps)" "sorted_wrt (\<lambda>x y. snd x < snd y) ps" "ps \<noteq> []"
  shows "su_first_val s = fst (hd ps)" "su_last_val s = fst (last ps)"
proof -
  have f: "(su_first_val s, su_first_ts s) \<in> set ps" "\<forall>x\<in>set ps. su_first_ts s \<le> snd x"
    "(su_last_val s, su_last_ts s) \<in> set ps" "\<forall>x\<in>set ps. snd x \<le> su_last_ts s"
    using assms(1,3) by (simp_all add: sums_fit_def)
  have "x = hd ps \<or> snd (hd ps) < snd x" if "x \<in> set ps" for x using assms(2) that by (cases ps) auto
  from this[OF f(1)] show "su_first_val s = fst (hd ps)"
    using f(2) assms(3) by (metis fst_conv snd_conv hd_in_set not_less)
  have l: "butlast ps @ [last ps] = ps" using assms(3) by simp
  have "x = last ps \<or> snd x < snd (last ps)" if "x \<in> set ps" for x
  proof -
    have "sorted_wrt (\<lambda>x y. snd x < snd y) (butlast ps @ [last ps])" "x \<in> set (butlast ps @ [last ps])"
      using assms(2) that by (simp_all add: l)
    then show ?thesis unfolding sorted_wrt_append by auto
  qed
  from this[OF f(3)] show "su_last_val s = fst (last ps)"
    using f(4) assms(3) by (metis fst_conv snd_conv last_in_set not_less)
qed

definition exact_aggregations :: "aggregation list" where
  "exact_aggregations = [AggAvg, AggMin, AggMax, AggSum, AggCount, AggFirst, AggLast, AggStdDev]"

lemma sum_mset_list: "(\<Sum>x\<in>#mset ps. f x) = sum_list (map f ps)"
  by (metis mset_map sum_mset_sum_list)

lemma value_exact:
  assumes "bucket_fits b (mset ps)" "sorted_wrt (\<lambda>x y. snd x < snd y) ps" "ps \<noteq> []" "a \<in> set exact_aggregations"
  shows "bucket_value a b = aggregate_value ps a"
proof -
  have s: "sums_fit (bk_sums b) (mset ps)" using assms(1) by (simp add: bucket_fits_def)
  have sq: "su_sum_sq (bk_sums b) = sum_list (map (\<lambda>v. v * v) (map fst ps))" and sm: "su_sum (bk_sums b) = sum_list (map fst ps)"
    and c: "su_count (bk_sums b) = int (length ps)"
    using s sum_mset_list[of fst ps] sum_mset_list[of "\<lambda>x. fst x * fst x" ps] by (simp_all add: sums_fit_def o_def)
  have whole: "image_mset fst (mset ps) = add_mset (fst (hd ps)) (mset (map fst (tl ps)))" using assms(3) by (cases ps) simp_all
  have lm: "least_in (su_min (bk_sums b)) (image_mset fst (mset ps))" "greatest_in (su_max (bk_sums b)) (image_mset fst (mset ps))"
    using s assms(3) by (simp_all add: sums_fit_def)
  have mn: "su_min (bk_sums b) = foldl min (fst (hd ps)) (map fst (tl ps))"
    and mx: "su_max (bk_sums b) = foldl max (fst (hd ps)) (map fst (tl ps))"
    using least_unique(1)[OF lm(1)] least_unique(2)[OF lm(2)] foldl_min foldl_max unfolding whole by blast+
  let ?m = "sum_list (map fst ps) / of_nat (length ps)"
  have v: "sum_list (map (\<lambda>x. (fst x - ?m) * (fst x - ?m)) ps) / of_nat (length ps) =
      sum_list (map (\<lambda>v. v * v) (map fst ps)) / of_nat (length ps) - ?m * ?m"
    using variance_forms[of "map fst ps"] assms(3) by (simp add: o_def)
  have "0 \<le> sum_list (map (\<lambda>x. (fst x - ?m) * (fst x - ?m)) ps) / of_nat (length ps)"
    by (intro divide_nonneg_nonneg sum_list_nonneg) auto
  then have nn: "\<not> sum_list (map (\<lambda>v. v * v) (map fst ps)) / of_nat (length ps) - ?m * ?m < 0" unfolding v by simp
  have z: "su_count (bk_sums b) \<noteq> 0" using c assms(3) by simp
  have n: "(of_int (su_count (bk_sums b)) :: rat) = of_nat (length ps)" by (simp add: c)
  note ends = fits_sorted_ends[OF s assms(2,3)]
  have dev: "bucket_value AggStdDev b = aggregate_value ps AggStdDev"
    using z nn assms(3) by (simp only: bucket_value_def aggregate_value_def Let_def n sm sq std_dev_pop_def v aggregation.case if_False)
  have rest: "bucket_value x b = aggregate_value ps x" if "x \<in> {AggAvg, AggMin, AggMax, AggSum, AggCount, AggFirst, AggLast}" for x
    using that z assms(3) unfolding bucket_value_def aggregate_value_def Let_def n sm mn mx ends by auto
  show ?thesis using assms(4) dev rest by (auto simp: exact_aggregations_def)
qed



end
