(* ===== verification/Metric_Policy.thy ===== *)
theory Metric_Policy
  imports Prelude Complex_Main
begin

text \<open>
  The ladder of rollup tiers, \<^verbatim>\<open>pkg/metric/rollup.go\<close>, the choice of the tier that answers a query, \<^verbatim>\<open>pkg/metric/rollup_query.go\<close>,
  and the standard intervals of \<^verbatim>\<open>pkg/metric/interval.go\<close>.  Durations and times are in nanoseconds; the sums
  of a time and a duration are taken to fit their 64 bits.
\<close>

section \<open>Policies\<close>

record tier =
  ti_interval :: int
  ti_retention :: int

record policy =
  po_raw_retention :: int
  po_tiers :: "tier list"
  po_compression :: rat

abbreviation second_ns :: int where "second_ns \<equiv> 1000000000"
abbreviation minute_ns :: int where "minute_ns \<equiv> 60000000000"
abbreviation hour_ns :: int where "hour_ns \<equiv> 3600000000000"

definition policy_enabled :: "policy \<Rightarrow> bool" where
  "policy_enabled p \<longleftrightarrow> 0 < length (po_tiers p)"

definition policy_compression :: "policy \<Rightarrow> rat" where
  "policy_compression p = (if po_compression p \<le> 1 then 30 else po_compression p)"

text \<open>The tiers from the finest, with what was kept so far.\<close>

fun narrow :: "int \<Rightarrow> tier list \<Rightarrow> tier list \<Rightarrow> tier list" where
  "narrow r out [] = out"
| "narrow r out (t # ts) =
     (let t' = (if ts = [] \<or> ti_retention t > r then t\<lparr>ti_retention := r\<rparr> else t) in
      if out \<noteq> [] \<and> ti_retention t' \<le> ti_retention (last out) then narrow r out ts else narrow r (out @ [t']) ts)"

definition with_metric_retention :: "int \<Rightarrow> policy \<Rightarrow> policy" where
  "with_metric_retention r p = (if r \<le> 0 \<or> po_tiers p = [] then p else p\<lparr>po_tiers := narrow r [] (po_tiers p)\<rparr>)"

datatype policy_error = NegativeRaw | BadInterval nat | BadRetention nat | NotAMinute | NotLarger nat | NotMultiple nat | ShorterRetention nat

fun validate_tiers :: "nat \<Rightarrow> tier \<Rightarrow> tier list \<Rightarrow> policy_error option" where
  "validate_tiers i prev [] = None"
| "validate_tiers i prev (t # ts) =
     (if ti_interval t \<le> 0 then Some (BadInterval i)
      else if ti_retention t \<le> 0 then Some (BadRetention i)
      else if i = 0 \<and> ti_interval t \<noteq> minute_ns then Some NotAMinute
      else if i > 0 \<and> ti_interval t \<le> ti_interval prev then Some (NotLarger i)
      else if i > 0 \<and> go_rem (ti_interval t) (ti_interval prev) \<noteq> 0 then Some (NotMultiple i)
      else if i > 0 \<and> ti_retention t < ti_retention prev then Some (ShorterRetention i)
      else validate_tiers (i + 1) t ts)"

definition validate_policy :: "policy \<Rightarrow> policy_error option" where
  "validate_policy p =
     (if po_tiers p = [] then None
      else if po_raw_retention p < 0 then Some NegativeRaw
      else validate_tiers 0 \<lparr>ti_interval = 0, ti_retention = 0\<rparr> (po_tiers p))"

section \<open>What a valid policy is\<close>

definition finer :: "tier \<Rightarrow> tier \<Rightarrow> bool" where
  "finer a b \<longleftrightarrow> ti_interval a < ti_interval b \<and> ti_interval a dvd ti_interval b \<and> ti_retention a \<le> ti_retention b"

definition sound_tier :: "tier \<Rightarrow> bool" where
  "sound_tier t \<longleftrightarrow> 0 < ti_interval t \<and> 0 < ti_retention t"

lemma finer_trans: "finer a b \<Longrightarrow> finer b c \<Longrightarrow> finer a c"
  by (auto simp: finer_def intro: dvd_trans)

lemma validate_later:
  assumes "0 < i" "0 < ti_interval prev"
  shows "validate_tiers i prev ts = None \<longleftrightarrow> (\<forall>t\<in>set ts. sound_tier t) \<and> sorted_wrt finer (prev # ts)"
  using assms
proof (induction ts arbitrary: i prev)
  case (Cons t ts)
  have rem: "go_rem (ti_interval t) (ti_interval prev) = 0 \<longleftrightarrow> ti_interval prev dvd ti_interval t" using Cons.prems(2) by (rule go_rem_dvd)
  have step: "validate_tiers i prev (t # ts) = None \<longleftrightarrow> sound_tier t \<and> finer prev t \<and> validate_tiers (i + 1) t ts = None"
    using Cons.prems rem by (simp add: sound_tier_def finer_def not_le not_less)
  show ?case
  proof (cases "sound_tier t \<and> finer prev t")
    case True
    then have "validate_tiers (i + 1) t ts = None \<longleftrightarrow> (\<forall>t\<in>set ts. sound_tier t) \<and> sorted_wrt finer (t # ts)"
      by (intro Cons.IH) (simp_all add: sound_tier_def)
    then show ?thesis using True step by (auto intro: finer_trans)
  qed (use step in auto)
qed simp

lemma validate_policy_iff:
  "validate_policy p = None \<longleftrightarrow> po_tiers p = [] \<or> (0 \<le> po_raw_retention p \<and> (\<forall>t\<in>set (po_tiers p). sound_tier t) \<and>
     ti_interval (hd (po_tiers p)) = minute_ns \<and> sorted_wrt finer (po_tiers p))"
proof (cases "po_tiers p")
  case (Cons t ts)
  have "validate_tiers 0 \<lparr>ti_interval = 0, ti_retention = 0\<rparr> (t # ts) = None \<longleftrightarrow>
      sound_tier t \<and> ti_interval t = minute_ns \<and> validate_tiers 1 t ts = None"
    by (auto simp: sound_tier_def)
  then show ?thesis using Cons validate_later[of 1 t ts] by (auto simp: validate_policy_def sound_tier_def)
qed (simp add: validate_policy_def)

definition stricter :: "tier \<Rightarrow> tier \<Rightarrow> bool" where
  "stricter a b \<longleftrightarrow> finer a b \<and> ti_retention a < ti_retention b"

text \<open>Each tier kept stems from one of the policy, with its interval.\<close>

lemma narrow_props:
  assumes "sorted_wrt stricter out" "\<forall>a\<in>set out. \<forall>t\<in>set ts. ti_interval a < ti_interval t \<and> ti_interval a dvd ti_interval t"
    "sorted_wrt finer ts" "\<forall>t\<in>set (out @ ts). sound_tier t" "\<forall>a\<in>set out. ti_retention a \<le> r" "0 < r"
    "ts = [] \<longrightarrow> out \<noteq> [] \<and> ti_retention (last out) = r"
  shows "sorted_wrt stricter (narrow r out ts) \<and> (\<forall>t\<in>set (narrow r out ts). sound_tier t \<and> ti_retention t \<le> r) \<and>
    ti_interval ` set (narrow r out ts) \<subseteq> ti_interval ` set (out @ ts) \<and> narrow r out ts \<noteq> [] \<and>
    ti_interval (hd (narrow r out ts)) = ti_interval (hd (out @ ts)) \<and> ti_retention (last (narrow r out ts)) = r"
  using assms
proof (induction ts arbitrary: out)
  case (Cons t ts)
  define t' where "t' = (if ts = [] \<or> ti_retention t > r then t\<lparr>ti_retention := r\<rparr> else t)"
  have t': "ti_interval t' = ti_interval t" "ti_retention t' \<le> r" "sound_tier t'" "ts = [] \<longrightarrow> ti_retention t' = r"
    using Cons.prems(4,6) by (auto simp: t'_def sound_tier_def)
  have last_in: "last out \<in> set out" if "out \<noteq> []" using that by simp
  show ?case
  proof (cases "out \<noteq> [] \<and> ti_retention t' \<le> ti_retention (last out)")
    case True
    have run: "narrow r out (t # ts) = narrow r out ts" unfolding narrow.simps Let_def t'_def[symmetric] using True by (rule if_P)
    have "ts = [] \<longrightarrow> out \<noteq> [] \<and> ti_retention (last out) = r"
      using True t'(4) Cons.prems(5) last_in by (metis order_antisym)
    then show ?thesis unfolding run using Cons.IH[of out] Cons.prems True by auto
  next
    case False
    have run: "narrow r out (t # ts) = narrow r (out @ [t']) ts" unfolding narrow.simps Let_def t'_def[symmetric] using False by (rule if_not_P)
    have below: "stricter a t'" if a: "a \<in> set out" for a
    proof -
      have ne: "out \<noteq> []" using a by auto
      have "a = last out \<or> stricter a (last out)"
      proof -
        have "sorted_wrt stricter (butlast out @ [last out])" "a \<in> set (butlast out @ [last out])" using Cons.prems(1) a ne by simp_all
        then show ?thesis unfolding sorted_wrt_append by auto
      qed
      then have "ti_retention a < ti_retention t'" using False ne by (auto simp: stricter_def)
      then show ?thesis using Cons.prems(2) a t'(1) by (simp add: stricter_def finer_def)
    qed
    have s: "sorted_wrt stricter (out @ [t'])" using Cons.prems(1) below by (simp add: sorted_wrt_append)
    have d: "\<forall>a\<in>set (out @ [t']). \<forall>u\<in>set ts. ti_interval a < ti_interval u \<and> ti_interval a dvd ti_interval u"
      using Cons.prems(2,3) t'(1) by (auto simp: finer_def)
    have "ti_interval ` set (out @ [t'] @ ts) = ti_interval ` set (out @ t # ts)" by (simp add: t'(1))
    moreover have "ti_interval (hd (out @ [t'] @ ts)) = ti_interval (hd (out @ t # ts))" by (cases out) (simp_all add: t'(1))
    ultimately show ?thesis unfolding run
      using Cons.IH[OF s d] Cons.prems(3-6) t' by auto
  qed
qed simp

text \<open>
  C39: the policy of a metric is the policy of the store cut to the retention of the metric: it is valid again, starts with the same
  finest tier, has tiers of the store only, each of which keeps its data longer than the finer one and none longer
  than the metric wants, and the coarsest keeps them exactly that long.
\<close>

theorem metric_policy_exact:
  assumes "validate_policy p = None" and "po_tiers p \<noteq> []" and "0 < r"
  shows "validate_policy (with_metric_retention r p) = None \<and> po_tiers (with_metric_retention r p) \<noteq> [] \<and>
    ti_interval (hd (po_tiers (with_metric_retention r p))) = minute_ns \<and>
    sorted_wrt (\<lambda>a b. ti_retention a < ti_retention b) (po_tiers (with_metric_retention r p)) \<and>
    (\<forall>t\<in>set (po_tiers (with_metric_retention r p)). ti_retention t \<le> r \<and> (\<exists>u\<in>set (po_tiers p). ti_interval u = ti_interval t)) \<and>
    ti_retention (last (po_tiers (with_metric_retention r p))) = r"
proof -
  have v: "0 \<le> po_raw_retention p" "\<forall>t\<in>set (po_tiers p). sound_tier t" "ti_interval (hd (po_tiers p)) = minute_ns" "sorted_wrt finer (po_tiers p)"
    using assms(1,2) by (simp_all add: validate_policy_iff)
  let ?q = "narrow r [] (po_tiers p)"
  have n: "sorted_wrt stricter ?q" "\<forall>t\<in>set ?q. sound_tier t \<and> ti_retention t \<le> r" "ti_interval ` set ?q \<subseteq> ti_interval ` set (po_tiers p)"
      "?q \<noteq> []" "ti_interval (hd ?q) = minute_ns" "ti_retention (last ?q) = r"
    using narrow_props[of "[]" "po_tiers p" r] v(2-4) assms(2,3) by auto
  have q: "po_tiers (with_metric_retention r p) = ?q" "po_raw_retention (with_metric_retention r p) = po_raw_retention p"
    using assms(2,3) by (simp_all add: with_metric_retention_def)
  have s: "sorted_wrt finer ?q" "sorted_wrt (\<lambda>a b. ti_retention a < ti_retention b) ?q"
    by (rule sorted_wrt_mono_rel[OF _ n(1)]; simp add: stricter_def)+
  have "validate_policy (with_metric_retention r p) = None"
    unfolding validate_policy_iff q using n v(1) s(1) by blast
  moreover have "\<forall>t\<in>set ?q. \<exists>u\<in>set (po_tiers p). ti_interval u = ti_interval t" using n(3) by fastforce
  ultimately show ?thesis unfolding q using n s(2) by blast
qed

definition day_ns :: int where "day_ns = 24 * hour_ns"

text \<open>The policy of \<^verbatim>\<open>DefaultConfig\<close>.\<close>

definition default_policy :: policy where
  "default_policy = \<lparr>po_raw_retention = 10 * minute_ns, po_tiers = [\<lparr>ti_interval = minute_ns, ti_retention = 600 * minute_ns\<rparr>,
     \<lparr>ti_interval = 5 * minute_ns, ti_retention = 600 * 5 * minute_ns\<rparr>, \<lparr>ti_interval = hour_ns, ti_retention = 600 * hour_ns\<rparr>,
     \<lparr>ti_interval = 24 * hour_ns, ti_retention = 100 * 365 * 24 * hour_ns\<rparr>], po_compression = 30\<rparr>"

lemma default_policy_valid: "validate_policy default_policy = None" "po_tiers default_policy \<noteq> []"
  by code_simp+

theorem metric_policy_exact_witness:
  "ti_retention (last (po_tiers (with_metric_retention (10 * day_ns) default_policy))) = 10 * day_ns \<and>
   length (po_tiers (with_metric_retention (10 * day_ns) default_policy)) = 3"
proof -
  have "0 < 10 * day_ns" by code_simp
  from metric_policy_exact[OF default_policy_valid this]
  have "ti_retention (last (po_tiers (with_metric_retention (10 * day_ns) default_policy))) = 10 * day_ns" by blast
  moreover have "length (po_tiers (with_metric_retention (10 * day_ns) default_policy)) = 3" by code_simp
  ultimately show ?thesis ..
qed

section \<open>The tier that answers a query\<close>

definition covers :: "int \<Rightarrow> int \<Rightarrow> tier \<Rightarrow> bool" where
  "covers start now t \<longleftrightarrow> \<not> now - ti_retention t > start"

definition composes :: "int \<Rightarrow> tier \<Rightarrow> bool" where
  "composes interval t \<longleftrightarrow> interval \<ge> ti_interval t \<and> go_rem interval (ti_interval t) = 0"

definition best_tier :: "policy \<Rightarrow> int \<Rightarrow> int \<Rightarrow> int \<Rightarrow> tier option" where
  "best_tier p interval start now =
     foldl (\<lambda>best t. if composes interval t \<and> covers start now t then Some t else best) None (po_tiers p)"

text \<open>\<open>None\<close> is the panic for a policy without tiers.\<close>

definition series_resolution :: "int \<Rightarrow> int \<Rightarrow> int \<Rightarrow> policy \<Rightarrow> int option" where
  "series_resolution start interval now p =
     (case po_tiers p of
        [] \<Rightarrow> None
      | t0 # _ \<Rightarrow> (case best_tier p interval start now of
            Some t \<Rightarrow> Some (ti_interval t)
          | None \<Rightarrow> (case find (composes interval) (rev (po_tiers p)) of
                Some t \<Rightarrow> Some (ti_interval t)
              | None \<Rightarrow> Some (ti_interval t0))))"

definition compatible_interval :: "int \<Rightarrow> int \<Rightarrow> int \<Rightarrow> policy \<Rightarrow> int" where
  "compatible_interval start now interval p =
     (if interval \<le> 0 \<or> \<not> policy_enabled p then interval
      else let first = ti_interval (hd (po_tiers p)); i1 = (if interval < first then first else interval);
               backing = (case find (covers start now) (po_tiers p) of Some t \<Rightarrow> t | None \<Rightarrow> last (po_tiers p)) in
        if i1 \<le> ti_interval backing then ti_interval backing
        else if go_rem i1 (ti_interval backing) \<noteq> 0 then i1 + (ti_interval backing - go_rem i1 (ti_interval backing)) else i1)"

lemma best_tier_find: "best_tier p interval start now = find (\<lambda>t. composes interval t \<and> covers start now t) (rev (po_tiers p))"
proof -
  have "foldl (\<lambda>best t. if P t then Some t else best) x ts = (case find P (rev ts) of None \<Rightarrow> x | Some t \<Rightarrow> Some t)" for P x and ts :: "tier list"
    by (induction ts rule: rev_induct) simp_all
  then show ?thesis by (simp add: best_tier_def split: option.split)
qed

lemma round_up:
  assumes "0 < b" "b \<le> i"
  defines "j \<equiv> if go_rem i b \<noteq> 0 then i + (b - go_rem i b) else i"
  shows "i \<le> j \<and> j < i + b \<and> b dvd j"
proof -
  have m: "go_rem i b = i mod b" using assms by (intro go_rem_nonneg) simp_all
  have mod_nonneg: "0 \<le> i mod b" "i mod b \<noteq> 0 \<Longrightarrow> 0 < i mod b" and mod_bound: "i mod b < b" "i mod b \<le> b"
    using assms(1) pos_mod_sign[OF assms(1), of i] pos_mod_bound[OF assms(1), of i] by (simp_all add: less_le)
  have "b dvd i + (b - i mod b)"
  proof -
    have "i + (b - i mod b) = b * (i div b + 1)" using mult_div_mod_eq[of b i] by (simp add: algebra_simps)
    then show ?thesis by simp
  qed
  then show ?thesis using mod_nonneg mod_bound by (auto simp: j_def m)
qed

lemma find_props: "find P xs = Some x \<Longrightarrow> x \<in> set xs \<and> P x"
  by (induction xs) (auto split: if_splits)



section \<open>Standard intervals\<close>

definition standard_intervals :: "int list" where
  "standard_intervals = map ((*) second_ns) [1, 5, 10, 15, 30, 60, 120, 300, 600, 900, 1800, 3600, 7200, 10800, 21600, 43200, 86400]"

fun floor_from :: "int \<Rightarrow> int \<Rightarrow> int list \<Rightarrow> int" where
  "floor_from interval selected [] = selected"
| "floor_from interval selected (c # cs) = (if c > interval then selected else floor_from interval c cs)"

definition floor_standard :: "int \<Rightarrow> int" where
  "floor_standard interval = floor_from interval (hd standard_intervals) standard_intervals"

definition ceil_standard :: "int \<Rightarrow> int" where
  "ceil_standard interval =
     (case find (\<lambda>c. c \<ge> interval) standard_intervals of
        Some c \<Rightarrow> c
      | None \<Rightarrow> let day = last standard_intervals in (go_div (interval - 1) day + 1) * day)"

lemma floor_from_le: "selected \<le> interval \<Longrightarrow> floor_from interval selected cs \<le> interval"
  by (induction cs arbitrary: selected) simp_all

text \<open>The two neighbours: the lower one is a standard interval, the upper one a standard interval or whole days, less than a day too long.\<close>

theorem standard_neighbours:
  assumes "second_ns \<le> i"
  shows "floor_standard i \<le> i \<and> floor_standard i \<in> set standard_intervals \<and> i \<le> ceil_standard i \<and>
    (ceil_standard i \<in> set standard_intervals \<or> day_ns dvd ceil_standard i \<and> ceil_standard i < i + day_ns)"
proof -
  have "floor_from i s cs \<in> insert s (set cs)" for s cs by (induction cs arbitrary: s) auto
  from this[of "hd standard_intervals" standard_intervals] have f: "floor_standard i \<in> set standard_intervals"
    by (simp add: floor_standard_def standard_intervals_def)
  have "floor_standard i \<le> i" unfolding floor_standard_def by (rule floor_from_le) (use assms in \<open>simp add: standard_intervals_def\<close>)
  moreover have "i \<le> ceil_standard i \<and> (ceil_standard i \<in> set standard_intervals \<or> day_ns dvd ceil_standard i \<and> ceil_standard i < i + day_ns)"
  proof (cases "find (\<lambda>c. c \<ge> i) standard_intervals")
    case None
    have d: "last standard_intervals = day_ns" by code_simp
    have p: "0 < day_ns" by (simp add: day_ns_def)
    have c: "ceil_standard i = ((i - 1) div day_ns + 1) * day_ns"
      using None assms go_div_nonneg[of "i - 1" day_ns] p by (simp add: ceil_standard_def d)
    have "day_ns * ((i - 1) div day_ns) + (i - 1) mod day_ns = i - 1" by (rule mult_div_mod_eq)
    moreover have "((i - 1) div day_ns + 1) * day_ns = day_ns * ((i - 1) div day_ns) + day_ns" by (simp add: algebra_simps)
    ultimately have "i \<le> ceil_standard i" "ceil_standard i < i + day_ns"
      using pos_mod_sign[OF p, of "i - 1"] pos_mod_bound[OF p, of "i - 1"] unfolding c by linarith+
    moreover have "day_ns dvd ceil_standard i" unfolding c by simp
    ultimately show ?thesis by blast
  next
    case (Some c)
    then show ?thesis using find_props[OF Some] by (simp add: ceil_standard_def)
  qed
  ultimately show ?thesis using f by blast
qed

end
