(* ===== verification/Rollup_Store.thy ===== *)
theory Rollup_Store
  imports Metric_Rollup Metric_Policy "HOL-Library.AList"
begin

text \<open>
  Where rollups live, \<^verbatim>\<open>pkg/metric/hot_rollup.go\<close>, \<^verbatim>\<open>coarse_rollup.go\<close>, \<^verbatim>\<open>rollup_store.go\<close> and the row
  operations of \<^verbatim>\<open>normalized_rollup.go\<close>: the minutes in memory, the unsealed parents, the rows of the
  database with their dictionaries of tags and labels, and the operations that write points, flush, seal,
  delete and close.  A bucket is addressed by series, labels and start; the name of the metric is part of the series.
  The database runs a transaction or fails it as a whole; which, is an argument.  Go maps are association lists
  with distinct keys.
\<close>

section \<open>Values of samples\<close>

text \<open>The number that 64 bits stand for; infinities and not-a-number are refused when a point is checked.\<close>

definition float_value :: "64 word \<Rightarrow> rat" where
  "float_value w =
     (let n = uint w; e = (n div 2 ^ 52) mod 2 ^ 11; f = n mod 2 ^ 52;
          m = (if e = 0 then f else f + 2 ^ 52); x = (if e = 0 then 1 else e);
          a = (if m = 0 then 0 else if x \<ge> 1075 then of_int (m * 2 ^ nat (x - 1075)) else of_int m / of_int (2 ^ nat (1075 - x)))
      in if n div 2 ^ 63 = 1 then - a else a)"

definition observe :: "prepared_point \<Rightarrow> observation" where
  "observe p = (float_value (pp_value p), pp_time p)"

section \<open>The state\<close>

datatype rollup_error = DbFailed | NoDefinition | MissingDigest | InvalidArgument | AlreadyExists

record stored_row =
  sr_sums :: bucket_sums
  sr_digest :: "tdigest option"

record database =
  db_rows :: "((hot_key \<times> int) \<times> stored_row) list"
  db_series :: "(series_key \<times> go_string) list"
  db_labels :: "(go_string \<times> go_string) list"
  db_defs :: "(go_string \<times> int) list"

type_synonym coarse_key = "hot_key \<times> int"

record coarse =
  co_higher :: "int list"
  co_children :: "(hot_key \<times> bucket) list"

record rollup_store =
  rl_policy :: policy
  rl_raw :: raw_store
  rl_hot :: "(hot_key \<times> bucket) list"
  rl_replace :: "hot_key list"
  rl_coarse :: "(coarse_key \<times> coarse) list"
  rl_db :: database

definition key_metric :: "hot_key \<Rightarrow> go_string" where "key_metric k = fst (fst k)"
definition key_bucket :: "hot_key \<Rightarrow> int" where "key_bucket k = snd (snd k)"
definition with_bucket :: "int \<Rightarrow> hot_key \<Rightarrow> hot_key" where "with_bucket b k = (fst k, fst (snd k), b)"

definition interval_ms :: "int \<Rightarrow> int" where "interval_ms i = go_div i 1000000"

definition normalize_bucket_ms :: "int \<Rightarrow> int" where
  "normalize_bucket_ms b = (if b > 10000000000000 \<or> b < - 10000000000000 then go_div b 1000000 else b)"

section \<open>Policies of metrics\<close>

definition no_policy :: policy where "no_policy = \<lparr>po_raw_retention = 0, po_tiers = [], po_compression = 0\<rparr>"

definition cut_policy :: "policy \<Rightarrow> int \<Rightarrow> policy" where
  "cut_policy p days = (if days \<le> 0 then no_policy else with_metric_retention (wrap64 (days * 24 * hour_ns)) p)"

definition metric_policy_tx :: "policy \<Rightarrow> go_string \<Rightarrow> database \<Rightarrow> rollup_error + policy" where
  "metric_policy_tx p name db = (case map_of (db_defs db) name of None \<Rightarrow> Inl NoDefinition | Some days \<Rightarrow> Inr (cut_policy p days))"

definition metric_policy :: "policy \<Rightarrow> go_string \<Rightarrow> database \<Rightarrow> policy" where
  "metric_policy p name db = (case map_of (db_defs db) name of None \<Rightarrow> p | Some days \<Rightarrow> cut_policy p days)"

section \<open>Rows\<close>

definition intern :: "'k \<Rightarrow> go_string \<Rightarrow> ('k \<times> go_string) list \<Rightarrow> ('k \<times> go_string) list" where
  "intern k json d = (if map_of d k = None then AList.update k (if json = [] then ''{}'' else json) d else d)"

definition upsert_row :: "hot_key \<Rightarrow> int \<Rightarrow> bucket \<Rightarrow> database \<Rightarrow> database" where
  "upsert_row k interval b db =
     db\<lparr>db_series := intern (fst k) (bk_tags b) (db_series db), db_labels := intern (fst (snd k)) (bk_labels b) (db_labels db),
        db_rows := AList.update (k, interval_ms interval) \<lparr>sr_sums = bk_sums b, sr_digest = encoded_digest b\<rparr> (db_rows db)\<rparr>"

text \<open>\<open>Inr None\<close> is no row.  The dictionaries have an entry for every row.\<close>

definition read_row :: "rat \<Rightarrow> hot_key \<Rightarrow> int \<Rightarrow> database \<Rightarrow> rollup_error + bucket option" where
  "read_row c k interval db = (case map_of (db_rows db) (k, interval_ms interval) of
       None \<Rightarrow> Inr None
     | Some r \<Rightarrow> (case digest_from_rollup (sr_sums r) (sr_digest r) c of
           None \<Rightarrow> Inl MissingDigest
         | Some d \<Rightarrow> Inr (Some \<lparr>bk_sums = sr_sums r, bk_digest = Some d,
             bk_tags_hash = snd (snd (fst k)), bk_tags = (case map_of (db_series db) (fst k) of None \<Rightarrow> [] | Some j \<Rightarrow> j),
             bk_labels_hash = fst (snd k), bk_labels = (case map_of (db_labels db) (fst (snd k)) of None \<Rightarrow> [] | Some j \<Rightarrow> j)\<rparr>)))"

definition delete_row :: "hot_key \<Rightarrow> int \<Rightarrow> database \<Rightarrow> database" where
  "delete_row k interval db = db\<lparr>db_rows := AList.delete (k, interval_ms interval) (db_rows db)\<rparr>"

fun merge_rows :: "rat \<Rightarrow> int \<Rightarrow> (hot_key \<times> bucket) list \<Rightarrow> database \<Rightarrow> rollup_error + database" where
  "merge_rows c interval [] db = Inr db"
| "merge_rows c interval ((k, b) # kbs) db =
     (let k' = with_bucket (normalize_bucket_ms (key_bucket k)) k in
      case read_row c k' interval db of
        Inl e \<Rightarrow> Inl e
      | Inr old \<Rightarrow> merge_rows c interval kbs (upsert_row k' interval (case old of None \<Rightarrow> b | Some o' \<Rightarrow> merge_stored b o') db))"

definition write_cascade :: "rat \<Rightarrow> policy \<Rightarrow> (hot_key \<times> bucket) list \<Rightarrow> database \<Rightarrow> rollup_error + database" where
  "write_cascade c p kbs db = (case po_tiers p of [] \<Rightarrow> Inr db | t # _ \<Rightarrow> merge_rows c (ti_interval t) kbs db)"

definition replace_minutes :: "policy \<Rightarrow> (hot_key \<times> bucket) list \<Rightarrow> database \<Rightarrow> database" where
  "replace_minutes p kbs db = (case po_tiers p of [] \<Rightarrow> db
     | t # _ \<Rightarrow> foldl (\<lambda>db (k, b). if su_count (bk_sums b) = 0 then delete_row k (ti_interval t) db else upsert_row k (ti_interval t) b db) db kbs)"

section \<open>Minutes in memory\<close>

definition hot_key_of :: "prepared_point \<Rightarrow> hot_key" where
  "hot_key_of p = (pp_key p, pp_labels_hash p, bucket_start (pp_time p) minute_ms)"

definition hot_add :: "rat \<Rightarrow> (hot_key \<times> bucket) list \<Rightarrow> prepared_point \<Rightarrow> (hot_key \<times> bucket) list" where
  "hot_add c hot p =
     (let k = hot_key_of p;
          b = (case map_of hot k of Some b \<Rightarrow> b
               | None \<Rightarrow> (new_bucket c True)\<lparr>bk_tags_hash := snd (snd (pp_key p)), bk_tags := pp_tags p,
                   bk_labels_hash := pp_labels_hash p, bk_labels := pp_labels p\<rparr>)
      in AList.update k (add_point (observe p) b) hot)"

text \<open>The samples of a minute from both parts of a series; a label number outside the table does not occur.\<close>

definition minute_samples :: "hot_key \<Rightarrow> raw_series \<Rightarrow> raw_sample list" where
  "minute_samples k se =
     (let lo = key_bucket k; hi = lo + minute_ms in
      filter (\<lambda>s. se_hashes se ! rs_label s = fst (snd k))
        (takeWhile (\<lambda>s. rs_time s < hi) (filter (\<lambda>s. lo \<le> rs_time s) (decode_all (se_compressed se))) @
         drop (search_time lo (se_samples se)) (take (search_time hi (se_samples se)) (se_samples se))))"

definition add_sample :: "raw_series \<Rightarrow> raw_sample \<Rightarrow> bucket \<Rightarrow> bucket" where
  "add_sample se s b = add_point (float_value (rs_value s), rs_time s) (b\<lparr>bk_labels := se_jsons se ! rs_label s\<rparr>)"

definition rebuilt_bucket :: "rat \<Rightarrow> hot_key \<Rightarrow> raw_store \<Rightarrow> bucket" where
  "rebuilt_bucket c k raw =
     (let b = (new_bucket c True)\<lparr>bk_tags_hash := snd (snd (fst k)), bk_labels_hash := fst (snd k)\<rparr> in
      case raw (fst k) of
        None \<Rightarrow> b
      | Some se \<Rightarrow>
          let b1 = b\<lparr>bk_tags := se_tags se, bk_labels := (case se_ids se (fst (snd k)) of None \<Rightarrow> [] | Some i \<Rightarrow> se_jsons se ! i)\<rparr>
          in fold (add_sample se) (minute_samples k se) b1)"

definition rebuild_hot :: "hot_key \<Rightarrow> rollup_store \<Rightarrow> rollup_store" where
  "rebuild_hot k st =
     st\<lparr>rl_hot := AList.update k (rebuilt_bucket (policy_compression (rl_policy st)) k (rl_raw st)) (rl_hot st),
        rl_replace := (if k \<in> set (rl_replace st) then rl_replace st else k # rl_replace st)\<rparr>"

record hot_item =
  hi_key :: hot_key
  hi_bucket :: bucket
  hi_replace :: bool

definition take_hot :: "(hot_key \<Rightarrow> bool) \<Rightarrow> rollup_store \<Rightarrow> hot_item list \<times> rollup_store" where
  "take_hot P st =
     (map (\<lambda>(k, b). \<lparr>hi_key = k, hi_bucket = b, hi_replace = (k \<in> set (rl_replace st))\<rparr>) (filter (\<lambda>(k, b). P k) (rl_hot st)),
      st\<lparr>rl_hot := filter (\<lambda>(k, b). \<not> P k) (rl_hot st), rl_replace := filter (\<lambda>k. \<not> (P k \<and> map_of (rl_hot st) k \<noteq> None)) (rl_replace st)\<rparr>)"

definition restore_item :: "rollup_store \<Rightarrow> hot_item \<Rightarrow> rollup_store" where
  "restore_item st it =
     (let k = hi_key it in
      case map_of (rl_hot st) k of
        None \<Rightarrow> st\<lparr>rl_hot := AList.update k (hi_bucket it) (rl_hot st),
                    rl_replace := (if hi_replace it then k # rl_replace st else rl_replace st)\<rparr>
      | Some cur \<Rightarrow>
          if k \<in> set (rl_replace st) then st
          else if hi_replace it
               then st\<lparr>rl_hot := AList.update k (merge_stored cur (hi_bucket it)) (rl_hot st), rl_replace := k # rl_replace st\<rparr>
               else st\<lparr>rl_hot := AList.update k (merge_stored (hi_bucket it) cur) (rl_hot st)\<rparr>)"

definition restore_hot :: "hot_item list \<Rightarrow> rollup_store \<Rightarrow> rollup_store" where
  "restore_hot items st = foldl restore_item st items"

section \<open>Unsealed parents\<close>

definition grace_ms :: int where "grace_ms = 600000"

definition due :: "int \<Rightarrow> coarse_key \<Rightarrow> bool" where
  "due now ck \<longleftrightarrow> \<not> key_bucket (fst ck) + interval_ms (snd ck) + grace_ms > now"

definition add_child :: "int \<Rightarrow> int list \<Rightarrow> (coarse_key \<times> coarse) list \<Rightarrow> hot_key \<times> bucket \<Rightarrow> (coarse_key \<times> coarse) list" where
  "add_child interval higher coarse kb = (case kb of (k, b) \<Rightarrow>
     let pk = (with_bucket (bucket_start (key_bucket k) (interval_ms interval)) k, interval) in
     if su_count (bk_sums b) = 0
     then (case map_of coarse pk of
             None \<Rightarrow> coarse
           | Some pa \<Rightarrow> (let cs = AList.delete k (co_children pa) in
               if cs = [] then AList.delete pk coarse else AList.update pk (pa\<lparr>co_children := cs\<rparr>) coarse))
     else (let pa = (case map_of coarse pk of Some pa \<Rightarrow> pa | None \<Rightarrow> \<lparr>co_higher = higher, co_children = []\<rparr>)
           in AList.update pk (pa\<lparr>co_children := AList.update k (clone_bucket True b) (co_children pa)\<rparr>) coarse))"

definition add_coarse_children :: "int \<Rightarrow> int list \<Rightarrow> (hot_key \<times> bucket) list \<Rightarrow> rollup_store \<Rightarrow> rollup_store" where
  "add_coarse_children interval higher kbs st =
     (if interval \<le> 0 then st else st\<lparr>rl_coarse := foldl (add_child interval higher) (rl_coarse st) kbs\<rparr>)"

text \<open>Minutes whose parent is over by more than the grace are left out.\<close>

definition add_minute_parents :: "policy \<Rightarrow> (hot_key \<times> bucket) list \<Rightarrow> int \<Rightarrow> rollup_store \<Rightarrow> rollup_store" where
  "add_minute_parents p minute now st =
     (case po_tiers p of
        t0 # t1 # ts \<Rightarrow>
          let i = ti_interval t1;
              eligible = filter (\<lambda>(k, b). \<not> bucket_start (key_bucket k) (interval_ms i) + interval_ms i + grace_ms \<le> now) minute
          in add_coarse_children i (map ti_interval ts) eligible st
      | _ \<Rightarrow> st)"

section \<open>Flushing minutes\<close>

definition items_of :: "bool \<Rightarrow> go_string \<Rightarrow> hot_item list \<Rightarrow> (hot_key \<times> bucket) list" where
  "items_of repl name items =
     map (\<lambda>it. (hi_key it, hi_bucket it)) (filter (\<lambda>it. key_metric (hi_key it) = name \<and> hi_replace it = repl) items)"

fun write_names :: "policy \<Rightarrow> hot_item list \<Rightarrow> go_string list \<Rightarrow> database \<Rightarrow> rollup_error + database" where
  "write_names p items [] db = Inr db"
| "write_names p items (n # ns) db =
     (case metric_policy_tx p n db of
        Inl e \<Rightarrow> Inl e
      | Inr pol \<Rightarrow> (case write_cascade (policy_compression p) pol (items_of False n items) db of
            Inl e \<Rightarrow> Inl e
          | Inr db1 \<Rightarrow> write_names p items ns (replace_minutes pol (items_of True n items) db1)))"

text \<open>The names in the order of their first bucket; the code sorts them, which decides only which error comes first.\<close>

definition names_of :: "hot_item list \<Rightarrow> go_string list" where
  "names_of items = remdups (map (\<lambda>it. key_metric (hi_key it)) items)"

definition persist_hot :: "bool \<Rightarrow> hot_item list \<Rightarrow> int \<Rightarrow> rollup_store \<Rightarrow> rollup_error + rollup_store" where
  "persist_hot ok items now st =
     (if \<not> ok then Inl DbFailed
      else case write_names (rl_policy st) items (names_of items) (rl_db st) of
        Inl e \<Rightarrow> Inl e
      | Inr db \<Rightarrow> Inr (foldl (\<lambda>st n. case metric_policy_tx (rl_policy st) n db of Inl _ \<Rightarrow> st
            | Inr pol \<Rightarrow> add_minute_parents pol (items_of False n items @ items_of True n items) now st)
          (st\<lparr>rl_db := db\<rparr>) (names_of items)))"

definition flush_items :: "bool \<Rightarrow> (hot_key \<Rightarrow> bool) \<Rightarrow> int \<Rightarrow> rollup_store \<Rightarrow> (rollup_error + nat) \<times> rollup_store" where
  "flush_items ok P now st =
     (case take_hot P st of (items, st1) \<Rightarrow>
        if items = [] then (Inr 0, st1)
        else (case persist_hot ok items now st1 of
            Inl e \<Rightarrow> (Inl e, restore_hot items st1)
          | Inr st2 \<Rightarrow> (Inr (length items), st2)))"

definition flush_closed_hot :: "bool \<Rightarrow> int \<Rightarrow> rollup_store \<Rightarrow> (rollup_error + nat) \<times> rollup_store" where
  "flush_closed_hot ok now st = flush_items ok (\<lambda>k. key_bucket k < bucket_start now minute_ms) now st"

definition flush_all_hot :: "bool \<Rightarrow> int \<Rightarrow> rollup_store \<Rightarrow> (rollup_error + nat) \<times> rollup_store" where
  "flush_all_hot ok now st = flush_items ok (\<lambda>_. True) now st"

section \<open>Sealing parents\<close>

record closed_coarse =
  cc_key :: coarse_key
  cc_bucket :: bucket
  cc_higher :: "int list"
  cc_children :: "(hot_key \<times> bucket) list"

text \<open>The children of a parent differ in their start only.\<close>

definition sort_children :: "(hot_key \<times> bucket) list \<Rightarrow> (hot_key \<times> bucket) list" where
  "sort_children cs = sort_key (\<lambda>(k, b). key_bucket k) cs"

definition close_parent :: "rat \<Rightarrow> coarse_key \<times> coarse \<Rightarrow> closed_coarse option" where
  "close_parent c = (\<lambda>(ck, pa).
     let cs = sort_children (co_children pa); b = foldl (\<lambda>b (k, u). merge_stored u b) (new_bucket c True) cs in
     if su_count (bk_sums b) = 0 then None
     else Some \<lparr>cc_key = ck,
       cc_bucket = b\<lparr>bk_tags_hash := snd (snd (fst (fst ck))), bk_tags := bk_tags (snd (hd cs)),
         bk_labels_hash := fst (snd (fst ck)), bk_labels := bk_labels (snd (hd cs))\<rparr>,
       cc_higher = co_higher pa, cc_children = co_children pa\<rparr>)"

fun smallest :: "int list \<Rightarrow> int option" where
  "smallest [] = None"
| "smallest (i # is) = (case smallest is of None \<Rightarrow> Some i | Some j \<Rightarrow> Some (if i < j then i else j))"

definition take_closed_coarse :: "int \<Rightarrow> rollup_store \<Rightarrow> closed_coarse list \<times> rollup_store" where
  "take_closed_coarse now st =
     (case smallest (map (\<lambda>(ck, pa). snd ck) (filter (\<lambda>(ck, pa). due now ck) (rl_coarse st))) of
        None \<Rightarrow> ([], st)
      | Some i \<Rightarrow>
          (List.map_filter (close_parent (policy_compression (rl_policy st))) (filter (\<lambda>(ck, pa). snd ck = i \<and> due now ck) (rl_coarse st)),
           st\<lparr>rl_coarse := filter (\<lambda>(ck, pa). \<not> (snd ck = i \<and> due now ck)) (rl_coarse st)\<rparr>))"

definition restore_coarse :: "closed_coarse list \<Rightarrow> rollup_store \<Rightarrow> rollup_store" where
  "restore_coarse items st =
     foldl (\<lambda>st it. if map_of (rl_coarse st) (cc_key it) \<noteq> None then st
       else st\<lparr>rl_coarse := AList.update (cc_key it) \<lparr>co_higher = cc_higher it, co_children = cc_children it\<rparr> (rl_coarse st)\<rparr>) st items"

definition still_wanted :: "rollup_store \<Rightarrow> closed_coarse \<Rightarrow> bool" where
  "still_wanted st it \<longleftrightarrow> list_ex (\<lambda>t. ti_interval t = snd (cc_key it))
     (po_tiers (metric_policy (rl_policy st) (key_metric (fst (cc_key it))) (rl_db st)))"

definition write_sealed :: "closed_coarse list \<Rightarrow> database \<Rightarrow> database" where
  "write_sealed items db =
     foldl (\<lambda>db it. upsert_row (with_bucket (normalize_bucket_ms (key_bucket (fst (cc_key it)))) (fst (cc_key it))) (snd (cc_key it)) (cc_bucket it) db)
       db items"

definition raise_parent :: "rollup_store \<Rightarrow> closed_coarse \<Rightarrow> rollup_store" where
  "raise_parent st it = (case cc_higher it of [] \<Rightarrow> st
     | i # is \<Rightarrow> add_coarse_children i is [(fst (cc_key it), cc_bucket it)] st)"

definition coarse_weight :: "(coarse_key \<times> coarse) list \<Rightarrow> nat" where
  "coarse_weight cs = sum_list (map (\<lambda>(ck, pa). Suc (length (co_higher pa))) cs)"

lemma coarse_weight_simps [simp]:
  "coarse_weight [] = 0" "coarse_weight ((ck, pa) # cs) = Suc (length (co_higher pa)) + coarse_weight cs"
  by (simp_all add: coarse_weight_def)

lemma weight_update:
  "coarse_weight (AList.update ck pa cs) \<le> (case map_of cs ck of None \<Rightarrow> Suc (length (co_higher pa)) + coarse_weight cs
     | Some old \<Rightarrow> coarse_weight cs + length (co_higher pa) - length (co_higher old))"
proof (induction cs)
  case (Cons c cs)
  have pos: "length (co_higher old) < coarse_weight cs" if "map_of cs ck = Some old" for old
    using that by (induction cs) (auto split: if_splits)
  show ?case using Cons.IH pos by (cases c) (auto split: option.splits)
qed simp

lemma weight_delete: "coarse_weight (AList.delete ck cs) \<le> coarse_weight cs"
  by (induction cs) auto

lemma weight_add_child: "coarse_weight (add_child i is cs kb) \<le> coarse_weight cs + Suc (length is)"
proof -
  obtain k b where kb: "kb = (k, b)" by fastforce
  let ?pk = "(with_bucket (bucket_start (key_bucket k) (interval_ms i)) k, i)"
  show ?thesis
  proof (cases "map_of cs ?pk")
    case None
    then have "coarse_weight (AList.update ?pk pa cs) \<le> coarse_weight cs + Suc (length (co_higher pa))" for pa
      using weight_update[of ?pk pa cs] by simp
    from this[of "\<lparr>co_higher = is, co_children = [(k, clone_bucket True b)]\<rparr>"] show ?thesis
      using None by (simp add: add_child_def kb Let_def)
  next
    case (Some pa)
    have "coarse_weight (AList.update ?pk (pa\<lparr>co_children := x\<rparr>) cs) \<le> coarse_weight cs + Suc (length is)" for x
      using weight_update[of ?pk "pa\<lparr>co_children := x\<rparr>" cs] Some by simp
    moreover have "coarse_weight (AList.delete ?pk cs) \<le> coarse_weight cs + Suc (length is)" using weight_delete[of ?pk cs] by simp
    ultimately show ?thesis using Some by (simp add: add_child_def kb Let_def)
  qed
qed

lemma weight_raise: "coarse_weight (rl_coarse (raise_parent st it)) \<le> coarse_weight (rl_coarse st) + length (cc_higher it)"
  using weight_add_child[of _ _ "rl_coarse st"]
  by (auto simp: raise_parent_def add_coarse_children_def split: list.split intro: trans_le_add1)

lemma weight_raise_all:
  "coarse_weight (rl_coarse (foldl raise_parent st items)) \<le> coarse_weight (rl_coarse st) + sum_list (map (\<lambda>it. length (cc_higher it)) items)"
proof (induction items arbitrary: st)
  case (Cons it items)
  show ?case using Cons.IH[of "raise_parent st it"] weight_raise[of st it] by simp
qed simp

lemma weight_take:
  assumes "take_closed_coarse now st = (shut, st1)"
  shows "coarse_weight (rl_coarse st1) + sum_list (map (\<lambda>it. Suc (length (cc_higher it))) shut) \<le> coarse_weight (rl_coarse st)"
proof -
  have split: "coarse_weight (filter P cs) + coarse_weight (filter (\<lambda>x. \<not> P x) cs) = coarse_weight cs" for P cs
    by (induction cs) auto
  have one: "length (cc_higher it) = length (co_higher (snd cp))" if "close_parent c cp = Some it" for c it cp
    using that by (cases cp) (auto simp: close_parent_def Let_def split: if_splits)
  have "sum_list (map (\<lambda>it. Suc (length (cc_higher it))) (List.map_filter (close_parent c) cs)) \<le> coarse_weight cs" for c cs
  proof (induction cs)
    case (Cons cp cs)
    then show ?case using one[of c cp] by (cases cp) (auto simp: map_filter_simps split: option.split)
  qed (simp add: map_filter_simps)
  note mf = this
  show ?thesis
  proof (cases "smallest (map (\<lambda>(ck, pa). snd ck) (filter (\<lambda>(ck, pa). due now ck) (rl_coarse st)))")
    case (Some i)
    let ?P = "\<lambda>(ck, pa :: coarse). snd ck = i \<and> due now ck"
    have "shut = List.map_filter (close_parent (policy_compression (rl_policy st))) (filter ?P (rl_coarse st))"
      "rl_coarse st1 = filter (\<lambda>x. \<not> ?P x) (rl_coarse st)"
      using assms Some by (auto simp: take_closed_coarse_def case_prod_unfold)
    then show ?thesis using mf[of "policy_compression (rl_policy st)" "filter ?P (rl_coarse st)"] split[of ?P "rl_coarse st"] by simp
  qed (use assms in \<open>simp add: take_closed_coarse_def\<close>)
qed

text \<open>
  One round takes the due parents of the smallest interval; \<open>env\<close> says for each round whether the policies can be read
  and whether the rows can be written.  Every round takes weight from the unsealed parents.
\<close>

function flush_coarse :: "(nat \<Rightarrow> bool \<times> bool) \<Rightarrow> nat \<Rightarrow> int \<Rightarrow> rollup_store \<Rightarrow> (rollup_error + nat) \<times> rollup_store" where
  "flush_coarse env i now st =
     (let r = take_closed_coarse now st; shut = fst r; st1 = snd r; sealed = filter (still_wanted st1) shut;
          st2 = foldl raise_parent (st1\<lparr>rl_db := write_sealed sealed (rl_db st1)\<rparr>) sealed in
      if shut = [] then (Inr 0, st1)
      else if \<not> fst (env i) then (Inl DbFailed, restore_coarse shut st1)
      else if sealed = [] then flush_coarse env (i + 1) now st1
      else if \<not> snd (env i) then (Inl DbFailed, restore_coarse sealed st1)
      else (case flush_coarse env (i + 1) now st2 of
          (Inl e, st3) \<Rightarrow> (Inl e, st3)
        | (Inr n, st3) \<Rightarrow> (Inr (n + length sealed), st3)))"
  by pat_completeness auto

lemma sum_filter_le: "sum_list (map f (filter P xs)) \<le> sum_list (map f xs)" for f :: "'a \<Rightarrow> nat"
  by (induction xs) auto

lemma weight_round:
  assumes "take_closed_coarse now st = (shut, st1)" "shut \<noteq> []"
  shows "coarse_weight (rl_coarse st1) < coarse_weight (rl_coarse st)"
    "coarse_weight (rl_coarse (foldl raise_parent (st1\<lparr>rl_db := db\<rparr>) (filter P shut))) < coarse_weight (rl_coarse st)"
proof -
  note t = weight_take[OF assms(1)]
  have s: "sum_list (map (\<lambda>it. Suc (length (cc_higher it))) shut) = length shut + sum_list (map (\<lambda>it. length (cc_higher it)) shut)"
    by (induction shut) auto
  have n: "0 < length shut" using assms(2) by simp
  show "coarse_weight (rl_coarse st1) < coarse_weight (rl_coarse st)" using t s n by linarith
  have "coarse_weight (rl_coarse (foldl raise_parent (st1\<lparr>rl_db := db\<rparr>) (filter P shut))) \<le>
      coarse_weight (rl_coarse st1) + sum_list (map (\<lambda>it. length (cc_higher it)) (filter P shut))"
    using weight_raise_all[of "st1\<lparr>rl_db := db\<rparr>" "filter P shut"] by simp
  then show "coarse_weight (rl_coarse (foldl raise_parent (st1\<lparr>rl_db := db\<rparr>) (filter P shut))) < coarse_weight (rl_coarse st)"
    using t s n sum_filter_le[of "\<lambda>it. length (cc_higher it)" P shut] by linarith
qed

termination flush_coarse
proof (relation "measure (\<lambda>(env, i, now, st). coarse_weight (rl_coarse st))", goal_cases)
  case (2 env i now st r shut st1 sealed st2)
  then show ?case using weight_round(1)[of now st shut st1] by (simp add: prod_eq_iff)
next
  case (3 env i now st r shut st1 sealed st2)
  then show ?case using weight_round(2)[of now st shut st1 _ "still_wanted st1"] by (simp add: prod_eq_iff)
qed simp

declare flush_coarse.simps [simp del]

section \<open>The operations of the store\<close>

text \<open>A batch with a metric that has no definition is refused; points of a metric without retention are dropped.\<close>

definition admit_points :: "prepared_point list \<Rightarrow> database \<Rightarrow> rollup_error + prepared_point list" where
  "admit_points ps db =
     (if list_ex (\<lambda>p. map_of (db_defs db) (fst (pp_key p)) = None) ps then Inl NoDefinition
      else Inr (filter (\<lambda>p. case map_of (db_defs db) (fst (pp_key p)) of None \<Rightarrow> False | Some days \<Rightarrow> days > 0) ps))"

definition write_prepared ::
  "bool \<Rightarrow> (nat \<Rightarrow> bool \<times> bool) \<Rightarrow> int \<Rightarrow> hot_key list \<Rightarrow> prepared_point list \<Rightarrow> rollup_store \<Rightarrow> rollup_error option \<times> rollup_store" where
  "write_prepared ok env now rebuild ps st =
     (let st1 = st\<lparr>rl_hot := foldl (hot_add (policy_compression (rl_policy st))) (rl_hot st) ps\<rparr>;
          st2 = foldl (\<lambda>st k. rebuild_hot k st) st1 rebuild
      in case flush_closed_hot ok now st2 of
           (Inl e, st3) \<Rightarrow> (Some e, st3)
         | (Inr _, st3) \<Rightarrow> (case flush_coarse env 0 now st3 of
               (Inl e, st4) \<Rightarrow> (Some e, st4)
             | (Inr _, st4) \<Rightarrow> (None, st4)))"

text \<open>\<open>rd\<close>: the definitions can be read; \<open>now1\<close> and \<open>now2\<close> are the two readings of the clock.\<close>

definition write_batch ::
  "bool \<Rightarrow> bool \<Rightarrow> (nat \<Rightarrow> bool \<times> bool) \<Rightarrow> int \<Rightarrow> int \<Rightarrow> prepared_point list \<Rightarrow> rollup_store \<Rightarrow> rollup_error option \<times> rollup_store" where
  "write_batch rd ok env now1 now2 ps st =
     (if ps = [] then (None, st)
      else if \<not> rd then (Some DbFailed, st)
      else case admit_points ps (rl_db st) of
          Inl e \<Rightarrow> (Some e, st)
        | Inr qs \<Rightarrow>
            if qs = [] then (None, st)
            else (case write_raw_points_at qs now1 (rl_raw st) of (raw, rebuild) \<Rightarrow>
                write_prepared ok env now2 (remdups rebuild) qs (st\<lparr>rl_raw := raw\<rparr>)))"

definition flush_store :: "bool \<Rightarrow> int \<Rightarrow> rollup_store \<Rightarrow> (rollup_error + nat) \<times> rollup_store" where
  "flush_store ok now st = flush_closed_hot ok now (st\<lparr>rl_raw := trim_raw_window now (rl_raw st)\<rparr>)"

text \<open>\<^verbatim>\<open>Close\<close>, after which a process that opens the store again has the database only.\<close>

definition close_store :: "bool \<Rightarrow> int \<Rightarrow> rollup_store \<Rightarrow> rollup_store" where
  "close_store ok now st = (snd (flush_all_hot ok now st))\<lparr>rl_raw := (\<lambda>_. None), rl_coarse := []\<rparr>"

definition open_store :: "policy \<Rightarrow> database \<Rightarrow> rollup_store" where
  "open_store p db = \<lparr>rl_policy = p, rl_raw = (\<lambda>_. None), rl_hot = [], rl_replace = [], rl_coarse = [], rl_db = db\<rparr>"

definition matches :: "go_string \<Rightarrow> go_string \<Rightarrow> hot_key \<Rightarrow> bool" where
  "matches metric entity k \<longleftrightarrow> (metric = [] \<or> key_metric k = metric) \<and> (entity = [] \<or> fst (snd (fst k)) = entity)"

definition delete_hot :: "go_string \<Rightarrow> go_string \<Rightarrow> rollup_store \<Rightarrow> rollup_store" where
  "delete_hot metric entity st =
     st\<lparr>rl_hot := filter (\<lambda>(k, b). \<not> matches metric entity k) (rl_hot st),
        rl_replace := filter (\<lambda>k. \<not> (matches metric entity k \<and> map_of (rl_hot st) k \<noteq> None)) (rl_replace st)\<rparr>"

definition delete_coarse :: "go_string \<Rightarrow> go_string \<Rightarrow> rollup_store \<Rightarrow> rollup_store" where
  "delete_coarse metric entity st = st\<lparr>rl_coarse := filter (\<lambda>(ck, pa). \<not> matches metric entity (fst ck)) (rl_coarse st)\<rparr>"

definition delete_rows :: "go_string \<Rightarrow> go_string \<Rightarrow> database \<Rightarrow> database" where
  "delete_rows metric entity db = db\<lparr>db_rows := filter (\<lambda>((k, r), row). \<not> matches metric entity k) (db_rows db)\<rparr>"

definition delete_memory :: "go_string \<Rightarrow> go_string \<Rightarrow> rollup_store \<Rightarrow> rollup_store" where
  "delete_memory metric entity st =
     delete_coarse metric entity (delete_hot metric entity (st\<lparr>rl_raw := delete_raw_points (\<lambda>_. True) metric entity (rl_raw st)\<rparr>))"

definition delete_metric :: "bool \<Rightarrow> go_string \<Rightarrow> rollup_store \<Rightarrow> rollup_error option \<times> rollup_store" where
  "delete_metric ok name st =
     (if trim_space name = [] then (Some InvalidArgument, st)
      else if \<not> ok then (Some DbFailed, st)
      else let db = delete_rows name [] (rl_db st) in
        (None, delete_memory name [] (st\<lparr>rl_db := db\<lparr>db_defs := AList.delete name (db_defs db)\<rparr>\<rparr>)))"

definition delete_entity :: "bool \<Rightarrow> go_string \<Rightarrow> rollup_store \<Rightarrow> rollup_error option \<times> rollup_store" where
  "delete_entity ok entity st =
     (if trim_space entity = [] then (Some InvalidArgument, st)
      else if \<not> ok then (Some DbFailed, st)
      else (None, delete_memory [] entity (st\<lparr>rl_db := delete_rows [] entity (rl_db st)\<rparr>)))"

text \<open>Retention of one metric: a tier it no longer has goes, of the others what ends before the cutoff; the bucket that straddles it stays.\<close>

definition delete_before :: "go_string \<Rightarrow> int \<Rightarrow> int \<Rightarrow> database \<Rightarrow> database" where
  "delete_before name interval before db =
     db\<lparr>db_rows := filter (\<lambda>((k, r), row). \<not> (key_metric k = name \<and> r = interval_ms interval \<and>
        key_bucket k < bucket_start before (interval_ms interval))) (db_rows db)\<rparr>"

definition delete_tier :: "go_string \<Rightarrow> int \<Rightarrow> database \<Rightarrow> database" where
  "delete_tier name interval db = db\<lparr>db_rows := filter (\<lambda>((k, r), row). \<not> (key_metric k = name \<and> r = interval_ms interval)) (db_rows db)\<rparr>"

definition enforce_retention :: "policy \<Rightarrow> go_string \<Rightarrow> int \<Rightarrow> database \<Rightarrow> database" where
  "enforce_retention p name now_ns db =
     (case map_of (db_defs db) name of
        None \<Rightarrow> db
      | Some days \<Rightarrow>
          if days = 0 then delete_rows name [] db
          else let kept = po_tiers (with_metric_retention (wrap64 (days * 24 * hour_ns)) p) in
            foldl (\<lambda>db t. case find (\<lambda>u. ti_interval u = ti_interval t) (rev kept) of
                None \<Rightarrow> delete_tier name (ti_interval t) db
              | Some u \<Rightarrow> delete_before name (ti_interval t) ((now_ns - ti_retention u) div 1000000) db)
              db (po_tiers p))"

end
