(* ===== verification/Rollup_History.thy ===== *)
theory Rollup_History
  imports Rollup_Store
begin

text \<open>
  What the minutes of the metric store hold, over all histories of writes, flushes that work or fail, deletions and
  restarts: the row of a minute together with its bucket in memory stand for exactly the observations that
  were written to it.
\<close>

declare split_paired_All [simp del] split_paired_Ex [simp del]

section \<open>Rows and buckets of a minute\<close>

definition row_stands :: "stored_row option \<Rightarrow> observation multiset \<Rightarrow> bool" where
  "row_stands r M \<longleftrightarrow> (case r of None \<Rightarrow> M = {#}
     | Some r \<Rightarrow> \<exists>b. bucket_fits b M \<and> sr_sums r = bk_sums b \<and> sr_digest r = encoded_digest b)"

definition hot_stands :: "bucket option \<Rightarrow> observation multiset \<Rightarrow> bool" where
  "hot_stands b M \<longleftrightarrow> (case b of None \<Rightarrow> M = {#} | Some b \<Rightarrow> bucket_fits b M)"

definition row_at :: "database \<Rightarrow> hot_key \<Rightarrow> stored_row option" where
  "row_at db k = map_of (db_rows db) (k, minute_ms)"

definition in_range :: "hot_key \<Rightarrow> bool" where
  "in_range k \<longleftrightarrow> - 10000000000000 \<le> key_bucket k \<and> key_bucket k \<le> 10000000000000"

lemma minute_interval [simp]: "interval_ms minute_ns = minute_ms"
  by (simp add: interval_ms_def go_div_nonneg minute_ms_def)

lemma key_same [simp]: "with_bucket (key_bucket k) k = k" "key_bucket (with_bucket b k) = b" "key_metric (with_bucket b k) = key_metric k"
  by (simp_all add: with_bucket_def key_bucket_def key_metric_def)

lemma normalize_in_range: "in_range k \<Longrightarrow> with_bucket (normalize_bucket_ms (key_bucket k)) k = k"
  by (simp add: in_range_def normalize_bucket_ms_def)

lemma row_stands_row: "bucket_fits b M \<Longrightarrow> row_stands (Some \<lparr>sr_sums = bk_sums b, sr_digest = encoded_digest b\<rparr>) M"
  by (auto simp: row_stands_def)

lemma upsert_row_at:
  "row_at (upsert_row k minute_ns b db) = (row_at db)(k \<mapsto> \<lparr>sr_sums = bk_sums b, sr_digest = encoded_digest b\<rparr>)"
  "db_defs (upsert_row k i b db) = db_defs db"
  by (auto simp: row_at_def upsert_row_def update_conv' fun_eq_iff)

lemma upsert_row_other: "interval_ms i \<noteq> minute_ms \<Longrightarrow> row_at (upsert_row k i b db) = row_at db"
  by (auto simp: row_at_def upsert_row_def update_conv' fun_eq_iff)

lemma delete_row_at:
  "row_at (delete_row k minute_ns db) = (row_at db)(k := None)" "db_defs (delete_row k i db) = db_defs db"
  by (auto simp: row_at_def delete_row_def delete_conv' fun_eq_iff)

lemma read_row_stands:
  assumes "row_stands (row_at db k) M"
  shows "\<exists>r. read_row c k minute_ns db = Inr r \<and> hot_stands r M"
proof (cases "row_at db k")
  case None
  then show ?thesis using assms by (simp add: read_row_def row_at_def row_stands_def hot_stands_def)
next
  case (Some r)
  then obtain b where b: "bucket_fits b M" "sr_sums r = bk_sums b" "sr_digest r = encoded_digest b"
    using assms by (auto simp: row_stands_def)
  obtain d where d: "digest_from_rollup (bk_sums b) (encoded_digest b) c = Some d" "digest_fits d M"
    using digest_survives[OF b(1)] by blast
  have m: "map_of (db_rows db) (k, interval_ms minute_ns) = Some r" using Some by (simp add: row_at_def)
  have "sums_fit (bk_sums b) M" using b(1) by (simp add: bucket_fits_def)
  then show ?thesis using d by (simp add: read_row_def m[simplified] b(2,3) hot_stands_def bucket_fits_def)
qed

lemma merge_rows_stands:
  assumes "distinct (map fst kbs)" "\<forall>(k, b)\<in>set kbs. in_range k \<and> bucket_fits b (Mh k)" "\<forall>k. row_stands (row_at db k) (Mr k)"
  shows "\<exists>db'. merge_rows c minute_ns kbs db = Inr db' \<and> db_defs db' = db_defs db \<and>
    (\<forall>k. row_stands (row_at db' k) (if k \<in> fst ` set kbs then Mr k + Mh k else Mr k))"
  using assms
proof (induction kbs arbitrary: db Mr)
  case (Cons kb kbs)
  obtain k b where kb: "kb = (k, b)" by fastforce
  have k: "in_range k" "bucket_fits b (Mh k)" "k \<notin> fst ` set kbs" using Cons.prems(1,2) by (simp_all add: kb)
  obtain r where r: "read_row c k minute_ns db = Inr r" "hot_stands r (Mr k)"
    using read_row_stands[of db k "Mr k"] Cons.prems(3) by blast
  let ?b = "case r of None \<Rightarrow> b | Some o' \<Rightarrow> merge_stored b o'" and ?Mr = "Mr(k := Mr k + Mh k)"
  have fit: "bucket_fits ?b (Mr k + Mh k)" using r(2) k(2) merge_stored_fits by (auto simp: hot_stands_def split: option.splits)
  have "\<forall>j. row_stands (row_at (upsert_row k minute_ns ?b db) j) (?Mr j)"
    using Cons.prems(3) row_stands_row[OF fit] by (simp add: upsert_row_at)
  moreover have "distinct (map fst kbs)" "\<forall>(k, b)\<in>set kbs. in_range k \<and> bucket_fits b (Mh k)" using Cons.prems(1,2) by simp_all
  ultimately obtain db' where db': "merge_rows c minute_ns kbs (upsert_row k minute_ns ?b db) = Inr db'"
      "db_defs db' = db_defs (upsert_row k minute_ns ?b db)"
      "\<forall>j. row_stands (row_at db' j) (if j \<in> fst ` set kbs then ?Mr j + Mh j else ?Mr j)"
    using Cons.IH by blast
  have "row_stands (row_at db' j) (if j \<in> fst ` set (kb # kbs) then Mr j + Mh j else Mr j)" for j
    using db'(3)[rule_format, of j] k(3) by (cases "j = k"; cases "j \<in> fst ` set kbs") (simp_all add: kb)
  then show ?case using db'(1,2) r(1) by (simp add: kb normalize_in_range[OF k(1)] upsert_row_at(2))
qed simp

lemma replace_minutes_stands:
  assumes "po_tiers p = t # ts" "ti_interval t = minute_ns" "distinct (map fst kbs)" "\<forall>(k, b)\<in>set kbs. bucket_fits b (Mh k)"
    "\<forall>k. row_stands (row_at db k) (Mr k)"
  shows "db_defs (replace_minutes p kbs db) = db_defs db \<and>
    (\<forall>k. row_stands (row_at (replace_minutes p kbs db) k) (if k \<in> fst ` set kbs then Mh k else Mr k))"
proof -
  let ?f = "\<lambda>db (k, b). if su_count (bk_sums b) = 0 then delete_row k minute_ns db else upsert_row k minute_ns b db"
  have "db_defs (foldl ?f db kbs) = db_defs db \<and> (\<forall>k. row_stands (row_at (foldl ?f db kbs) k) (if k \<in> fst ` set kbs then Mh k else Mr k))"
    using assms(3-5)
  proof (induction kbs arbitrary: db Mr)
    case (Cons kb kbs)
    obtain k b where kb: "kb = (k, b)" by fastforce
    have k: "bucket_fits b (Mh k)" "k \<notin> fst ` set kbs" using Cons.prems(1,2) by (simp_all add: kb)
    have "\<forall>j. row_stands (row_at (?f db kb) j) ((Mr(k := Mh k)) j)"
      using Cons.prems(3) row_stands_row[OF k(1)] bucket_count[OF k(1)] by (auto simp: kb upsert_row_at delete_row_at row_stands_def)
    moreover have "db_defs (?f db kb) = db_defs db" by (simp add: kb upsert_row_at delete_row_at)
    moreover have "distinct (map fst kbs)" "\<forall>(k, b)\<in>set kbs. bucket_fits b (Mh k)" using Cons.prems(1,2) by simp_all
    ultimately have "db_defs (foldl ?f (?f db kb) kbs) = db_defs db"
        "\<forall>j. row_stands (row_at (foldl ?f (?f db kb) kbs) j) (if j \<in> fst ` set kbs then Mh j else (Mr(k := Mh k)) j)"
      using Cons.IH[of "?f db kb" "Mr(k := Mh k)"] by simp_all
    moreover have "row_stands (row_at (foldl ?f (?f db kb) kbs) j) (if j \<in> fst ` set (kb # kbs) then Mh j else Mr j)" for j
      using calculation(2)[rule_format, of j] k(2) by (cases "j = k"; cases "j \<in> fst ` set kbs") (simp_all add: kb)
    ultimately show ?case by simp
  qed simp
  then show ?thesis unfolding replace_minutes_def assms(1) list.case assms(2) .
qed

section \<open>A flush\<close>

definition minute_first :: "policy \<Rightarrow> bool" where
  "minute_first p \<longleftrightarrow> validate_policy p = None \<and> po_tiers p \<noteq> []"

lemma cut_policy_first:
  assumes "minute_first p" "0 < days"
  shows "\<exists>t ts. po_tiers (cut_policy p days) = t # ts \<and> ti_interval t = minute_ns \<and> (\<forall>u\<in>set ts. minute_ns < ti_interval u \<and> minute_ns dvd ti_interval u)"
proof -
  have v: "\<forall>t\<in>set (po_tiers p). sound_tier t" "ti_interval (hd (po_tiers p)) = minute_ns" "sorted_wrt finer (po_tiers p)" "po_tiers p \<noteq> []"
    using assms(1) by (auto simp: minute_first_def validate_policy_iff)
  have first: "\<exists>t ts. q = t # ts \<and> ti_interval t = minute_ns \<and> (\<forall>u\<in>set ts. minute_ns < ti_interval u \<and> minute_ns dvd ti_interval u)"
    if "sorted_wrt finer q" "q \<noteq> []" "ti_interval (hd q) = minute_ns" for q
    using that by (cases q) (auto simp: finer_def)
  let ?r = "wrap64 (days * 24 * hour_ns)"
  show ?thesis
  proof (cases "?r \<le> 0")
    case True
    then show ?thesis using first[OF v(3,4,2)] assms(2) by (simp add: cut_policy_def with_metric_retention_def)
  next
    case False
    have "sorted_wrt stricter (narrow ?r [] (po_tiers p))" "narrow ?r [] (po_tiers p) \<noteq> []" "ti_interval (hd (narrow ?r [] (po_tiers p))) = minute_ns"
      using narrow_props[of "[]" "po_tiers p" ?r] v False by auto
    then have "sorted_wrt finer (narrow ?r [] (po_tiers p))" by (auto intro: sorted_wrt_mono_rel[rotated] simp: stricter_def)
    then show ?thesis
      using first \<open>narrow ?r [] (po_tiers p) \<noteq> []\<close> \<open>ti_interval (hd (narrow ?r [] (po_tiers p))) = minute_ns\<close> assms(2) False v(4)
      by (simp add: cut_policy_def with_metric_retention_def)
  qed
qed

definition defined_metric :: "database \<Rightarrow> go_string \<Rightarrow> bool" where
  "defined_metric db n \<longleftrightarrow> (\<exists>days. map_of (db_defs db) n = Some days \<and> 0 < days)"

lemma write_names_stands:
  assumes "minute_first p" "distinct (map hi_key items)" "distinct ns" "\<forall>n\<in>set ns. defined_metric db n"
    "\<forall>it\<in>set items. in_range (hi_key it) \<and> bucket_fits (hi_bucket it) (Mh (hi_key it)) \<and> (hi_replace it \<longleftrightarrow> R (hi_key it))"
    "\<forall>k. row_stands (row_at db k) (Mr k)"
  shows "\<exists>db'. write_names p items ns db = Inr db' \<and> db_defs db' = db_defs db \<and>
    (\<forall>k. row_stands (row_at db' k) (if k \<in> hi_key ` set items \<and> key_metric k \<in> set ns then (if R k then Mh k else Mr k + Mh k) else Mr k))"
  using assms(3,4,6)
proof (induction ns arbitrary: db Mr)
  case (Cons n ns)
  obtain days where days: "map_of (db_defs db) n = Some days" "0 < days" using Cons.prems(2) by (auto simp: defined_metric_def)
  obtain t ts where t: "po_tiers (cut_policy p days) = t # ts" "ti_interval t = minute_ns"
    using cut_policy_first[OF assms(1) days(2)] by blast
  have tx: "metric_policy_tx p n db = Inr (cut_policy p days)" using days by (simp add: metric_policy_tx_def)
  have keys: "fst ` set (items_of r n items) = {k \<in> hi_key ` set items. key_metric k = n \<and> R k = r}" for r
    using assms(5) by (force simp: items_of_def)
  have "distinct (map fst (items_of r n items))" for r
    using assms(2) by (simp add: items_of_def o_def distinct_map_filter)
  note d = this
  have ok: "\<forall>(k, b)\<in>set (items_of r n items). in_range k \<and> bucket_fits b (Mh k)" for r using assms(5) by (auto simp: items_of_def)
  obtain db1 where db1: "merge_rows (policy_compression p) minute_ns (items_of False n items) db = Inr db1" "db_defs db1 = db_defs db"
      "\<forall>k. row_stands (row_at db1 k) (if k \<in> fst ` set (items_of False n items) then Mr k + Mh k else Mr k)"
    using merge_rows_stands[OF d ok Cons.prems(3)] by blast
  let ?db2 = "replace_minutes (cut_policy p days) (items_of True n items) db1"
  define M2 where "M2 k = (if k \<in> fst ` set (items_of True n items) then Mh k else if k \<in> fst ` set (items_of False n items) then Mr k + Mh k else Mr k)" for k
  have ok': "\<forall>(k, b)\<in>set (items_of True n items). bucket_fits b (Mh k)" using ok by fastforce
  have db2: "db_defs ?db2 = db_defs db" "\<forall>k. row_stands (row_at ?db2 k) (M2 k)"
    using replace_minutes_stands[OF t d ok' db1(3)] db1(2) by (simp_all add: M2_def)
  have defs: "\<forall>m\<in>set ns. defined_metric ?db2 m" using Cons.prems(2) db2(1) by (simp add: defined_metric_def)
  obtain db' where db': "write_names p items ns ?db2 = Inr db'" "db_defs db' = db_defs ?db2"
      "\<forall>k. row_stands (row_at db' k) (if k \<in> hi_key ` set items \<and> key_metric k \<in> set ns then (if R k then Mh k else M2 k + Mh k) else M2 k)"
    using Cons.IH[OF _ defs db2(2)] Cons.prems(1) by auto
  have "(if k \<in> hi_key ` set items \<and> key_metric k \<in> set ns then (if R k then Mh k else M2 k + Mh k) else M2 k) =
      (if k \<in> hi_key ` set items \<and> key_metric k \<in> set (n # ns) then (if R k then Mh k else Mr k + Mh k) else Mr k)" for k
    using Cons.prems(1) unfolding M2_def keys by auto
  then show ?case using db' db2(1) db1(1) tx t by (simp add: write_cascade_def)
qed simp

section \<open>What a state stands for\<close>

definition stands :: "rollup_store \<Rightarrow> hot_key \<Rightarrow> observation multiset \<Rightarrow> bool" where
  "stands st k M \<longleftrightarrow> (\<exists>Mr Mh. row_stands (row_at (rl_db st) k) Mr \<and> hot_stands (map_of (rl_hot st) k) Mh \<and>
     M = (if k \<in> set (rl_replace st) then Mh else Mr + Mh))"

text \<open>Above the minutes there are only coarser tiers.\<close>

definition coarse_above :: "(coarse_key \<times> coarse) list \<Rightarrow> bool" where
  "coarse_above cs \<longleftrightarrow> (\<forall>(ck, pa)\<in>set cs. minute_ms < interval_ms (snd ck) \<and> (\<forall>i\<in>set (co_higher pa). minute_ms < interval_ms i))"

definition rollup_wf :: "rollup_store \<Rightarrow> bool" where
  "rollup_wf st \<longleftrightarrow> distinct (map fst (rl_hot st)) \<and> set (rl_replace st) \<subseteq> fst ` set (rl_hot st) \<and> minute_first (rl_policy st) \<and>
     (\<forall>k\<in>fst ` set (rl_hot st). defined_metric (rl_db st) (key_metric k) \<and> in_range k) \<and> coarse_above (rl_coarse st)"

lemma stands_same:
  assumes "stands st k M" "row_at (rl_db st') k = row_at (rl_db st) k" "map_of (rl_hot st') k = map_of (rl_hot st) k"
    "(k \<in> set (rl_replace st')) = (k \<in> set (rl_replace st))"
  shows "stands st' k M"
  using assms by (simp add: stands_def)

lemma map_of_filter_key: "map_of (filter (\<lambda>(k, b). P k) xs) k = (if P k then map_of xs k else None)"
  by (induction xs) auto

lemma keys_filter: "fst ` set (filter (\<lambda>(k, b). P k) xs) = {k \<in> fst ` set xs. P k}"
  by force

lemma distinct_filter_keys: "distinct (map fst xs) \<Longrightarrow> distinct (map fst (filter Q xs))"
  by (simp add: distinct_map_filter)

lemma dom_keys: "map_of xs k = None \<longleftrightarrow> k \<notin> fst ` set xs"
  by (rule map_of_eq_None_iff)

lemma update_keys: "fst ` set (AList.update k v xs) = insert k (fst ` set xs)"
  by (simp add: dom_map_of_conv_image_fst[symmetric] update_conv')

text \<open>What is taken out and put back is as before.\<close>

lemma restore_fresh:
  assumes "distinct (map hi_key items)" "\<forall>it\<in>set items. hi_key it \<notin> fst ` set (rl_hot st)" "distinct (map fst (rl_hot st))"
    "set (rl_replace st) \<subseteq> fst ` set (rl_hot st)"
  shows "map_of (rl_hot (restore_hot items st)) k = (case map_of (map (\<lambda>it. (hi_key it, hi_bucket it)) items) k of
      Some b \<Rightarrow> Some b | None \<Rightarrow> map_of (rl_hot st) k) \<and>
    set (rl_replace (restore_hot items st)) = set (rl_replace st) \<union> hi_key ` {it \<in> set items. hi_replace it} \<and>
    distinct (map fst (rl_hot (restore_hot items st))) \<and>
    fst ` set (rl_hot (restore_hot items st)) = fst ` set (rl_hot st) \<union> hi_key ` set items \<and>
    rl_db (restore_hot items st) = rl_db st \<and> rl_policy (restore_hot items st) = rl_policy st \<and>
    rl_coarse (restore_hot items st) = rl_coarse st \<and> rl_raw (restore_hot items st) = rl_raw st"
  using assms
proof (induction items arbitrary: st)
  case (Cons it items)
  let ?k = "hi_key it" and ?st = "restore_item st it"
  have none: "map_of (rl_hot st) ?k = None" using Cons.prems(2) by (simp add: dom_keys)
  have st1: "rl_hot ?st = AList.update ?k (hi_bucket it) (rl_hot st)"
      "set (rl_replace ?st) = set (rl_replace st) \<union> (if hi_replace it then {?k} else {})"
      "rl_db ?st = rl_db st" "rl_policy ?st = rl_policy st" "rl_coarse ?st = rl_coarse st" "rl_raw ?st = rl_raw st"
    using none by (simp_all add: restore_item_def Let_def)
  have IH: "map_of (rl_hot (restore_hot items ?st)) k = (case map_of (map (\<lambda>it. (hi_key it, hi_bucket it)) items) k of
      Some b \<Rightarrow> Some b | None \<Rightarrow> map_of (rl_hot ?st) k) \<and>
    set (rl_replace (restore_hot items ?st)) = set (rl_replace ?st) \<union> hi_key ` {it \<in> set items. hi_replace it} \<and>
    distinct (map fst (rl_hot (restore_hot items ?st))) \<and>
    fst ` set (rl_hot (restore_hot items ?st)) = fst ` set (rl_hot ?st) \<union> hi_key ` set items \<and>
    rl_db (restore_hot items ?st) = rl_db ?st \<and> rl_policy (restore_hot items ?st) = rl_policy ?st \<and>
    rl_coarse (restore_hot items ?st) = rl_coarse ?st \<and> rl_raw (restore_hot items ?st) = rl_raw ?st"
  proof (rule Cons.IH)
    have "hi_key x \<noteq> hi_key it" if "x \<in> set items" for x using Cons.prems(1) that by (auto simp: image_iff)
    then show "\<forall>x\<in>set items. hi_key x \<notin> fst ` set (rl_hot ?st)" using Cons.prems(2) unfolding st1 update_keys by simp
    show "set (rl_replace ?st) \<subseteq> fst ` set (rl_hot ?st)" using Cons.prems(4) unfolding st1 update_keys by auto
  qed (use Cons.prems in \<open>simp_all add: st1 distinct_update\<close>)
  have run: "restore_hot (it # items) st = restore_hot items ?st" by (simp add: restore_hot_def)
  have "map_of (map (\<lambda>it. (hi_key it, hi_bucket it)) items) ?k = None" using Cons.prems(1) by (force simp: map_of_eq_None_iff)
  then show ?case using IH by (auto simp: run st1 update_conv' update_keys split: option.splits)
qed (simp add: restore_hot_def)

lemmas restored = restore_fresh[THEN conjunct1] restore_fresh[THEN conjunct2, THEN conjunct1]
  restore_fresh[THEN conjunct2, THEN conjunct2, THEN conjunct1] restore_fresh[THEN conjunct2, THEN conjunct2, THEN conjunct2, THEN conjunct1]
  restore_fresh[THEN conjunct2, THEN conjunct2, THEN conjunct2, THEN conjunct2]

lemma take_hot_items:
  assumes "take_hot P st = (items, st1)"
  shows "map (\<lambda>it. (hi_key it, hi_bucket it)) items = filter (\<lambda>(k, b). P k) (rl_hot st)"
    "hi_key ` set items = {k \<in> fst ` set (rl_hot st). P k}"
    "it \<in> set items \<Longrightarrow> (hi_key it, hi_bucket it) \<in> set (rl_hot st) \<and> P (hi_key it) \<and> (hi_replace it \<longleftrightarrow> hi_key it \<in> set (rl_replace st))"
    "map hi_key items = map fst (filter (\<lambda>(k, b). P k) (rl_hot st))"
    "rl_hot st1 = filter (\<lambda>(k, b). \<not> P k) (rl_hot st)"
    "set (rl_replace st) \<subseteq> fst ` set (rl_hot st) \<Longrightarrow> set (rl_replace st1) = {k \<in> set (rl_replace st). \<not> P k}"
    "rl_db st1 = rl_db st" "rl_policy st1 = rl_policy st" "rl_coarse st1 = rl_coarse st" "rl_raw st1 = rl_raw st"
proof -
  have items: "items = map (\<lambda>(k, b). \<lparr>hi_key = k, hi_bucket = b, hi_replace = (k \<in> set (rl_replace st))\<rparr>) (filter (\<lambda>(k, b). P k) (rl_hot st))"
    using assms by (simp add: take_hot_def)
  show "map (\<lambda>it. (hi_key it, hi_bucket it)) items = filter (\<lambda>(k, b). P k) (rl_hot st)"
    unfolding items by (simp add: o_def case_prod_unfold)
  show k: "map hi_key items = map fst (filter (\<lambda>(k, b). P k) (rl_hot st))"
    unfolding items by (simp add: o_def case_prod_unfold)
  have "hi_key ` set items = fst ` set (filter (\<lambda>(k, b). P k) (rl_hot st))" using arg_cong[OF k, of set] by simp
  then show "hi_key ` set items = {k \<in> fst ` set (rl_hot st). P k}" by (simp only: keys_filter)
  show "it \<in> set items \<Longrightarrow> (hi_key it, hi_bucket it) \<in> set (rl_hot st) \<and> P (hi_key it) \<and> (hi_replace it \<longleftrightarrow> hi_key it \<in> set (rl_replace st))"
    unfolding items by auto
  show "set (rl_replace st) \<subseteq> fst ` set (rl_hot st) \<Longrightarrow> set (rl_replace st1) = {k \<in> set (rl_replace st). \<not> P k}"
    using assms by (auto simp: take_hot_def dom_keys)
qed (use assms in \<open>auto simp: take_hot_def\<close>)

lemma take_restore:
  assumes "rollup_wf st" "take_hot P st = (items, st1)"
  shows "map_of (rl_hot (restore_hot items st1)) k = map_of (rl_hot st) k" "set (rl_replace (restore_hot items st1)) = set (rl_replace st)"
    "rl_db (restore_hot items st1) = rl_db st" "rl_policy (restore_hot items st1) = rl_policy st"
    "rl_coarse (restore_hot items st1) = rl_coarse st" "rl_raw (restore_hot items st1) = rl_raw st"
    "rollup_wf (restore_hot items st1)"
proof -
  have w: "distinct (map fst (rl_hot st))" "set (rl_replace st) \<subseteq> fst ` set (rl_hot st)" using assms(1) by (simp_all add: rollup_wf_def)
  note t = take_hot_items[OF assms(2)]
  have d: "distinct (map hi_key items)" unfolding t(4) by (rule distinct_filter_keys[OF w(1)])
  have f: "\<forall>it\<in>set items. hi_key it \<notin> fst ` set (rl_hot st1)" using t(3) unfolding t(5) keys_filter[of "\<lambda>k. \<not> P k"] by blast
  have d1: "distinct (map fst (rl_hot st1))" unfolding t(5) by (rule distinct_filter_keys[OF w(1)])
  have r1: "set (rl_replace st1) \<subseteq> fst ` set (rl_hot st1)" using w(2) t(6) unfolding t(5) keys_filter[of "\<lambda>k. \<not> P k"] by blast
  note r = restored[OF d f d1 r1]
  show m: "map_of (rl_hot (restore_hot items st1)) k = map_of (rl_hot st) k" for k
    unfolding r(1) t(1,5) map_of_filter_key map_of_filter_key[of "\<lambda>k. \<not> P k"] by (simp split: option.split)
  have k: "fst ` set (rl_hot (restore_hot items st1)) = fst ` set (rl_hot st)"
  proof -
    have "dom (map_of (rl_hot (restore_hot items st1))) = dom (map_of (rl_hot st))" using m by (simp add: dom_def)
    then show ?thesis by (simp add: dom_map_of_conv_image_fst)
  qed
  have "hi_key ` {it \<in> set items. hi_replace it} = {k \<in> set (rl_replace st). P k}"
  proof -
    have "hi_replace it \<longleftrightarrow> hi_key it \<in> set (rl_replace st)" if "it \<in> set items" for it using t(3)[OF that] by simp
    then have "hi_key ` {it \<in> set items. hi_replace it} = {k \<in> hi_key ` set items. k \<in> set (rl_replace st)}" by auto
    then show ?thesis using t(2) w(2) by auto
  qed
  then show s: "set (rl_replace (restore_hot items st1)) = set (rl_replace st)" using t(6)[OF w(2)] unfolding r(2) by auto
  show "rl_db (restore_hot items st1) = rl_db st" "rl_policy (restore_hot items st1) = rl_policy st"
    "rl_coarse (restore_hot items st1) = rl_coarse st" "rl_raw (restore_hot items st1) = rl_raw st"
    using r(5) t(7-10) by simp_all
  then show "rollup_wf (restore_hot items st1)" using r(3) assms(1) s k by (simp add: rollup_wf_def)
qed

lemma add_child_above:
  assumes "coarse_above cs" "minute_ms < interval_ms i" "\<forall>h\<in>set is. minute_ms < interval_ms h"
  shows "coarse_above (add_child i is cs kb)"
proof -
  obtain k b where kb: "kb = (k, b)" by fastforce
  let ?pk = "(with_bucket (bucket_start (key_bucket k) (interval_ms i)) k, i)"
  have upd: "coarse_above (AList.update ?pk pa cs)" if "\<forall>h\<in>set (co_higher pa). minute_ms < interval_ms h" for pa
  proof -
    have "x \<in> set (AList.update k v xs) \<Longrightarrow> x = (k, v) \<or> x \<in> set xs" for x k v and xs :: "(coarse_key \<times> coarse) list"
      by (induction xs) (auto split: if_splits)
    then show ?thesis using assms(1,2) that by (fastforce simp: coarse_above_def)
  qed
  have del: "coarse_above (AList.delete ?pk cs)" using assms(1) by (auto simp: coarse_above_def AList.delete_eq)
  have old: "\<forall>h\<in>set (co_higher pa). minute_ms < interval_ms h" if "map_of cs ?pk = Some pa" for pa
    using assms(1) map_of_SomeD[OF that] by (auto simp: coarse_above_def)
  show ?thesis
    using assms(1,3) upd del old by (auto simp: add_child_def kb Let_def split: option.split)
qed

lemma add_children_above:
  assumes "coarse_above (rl_coarse st)" "minute_ms < interval_ms i" "\<forall>h\<in>set is. minute_ms < interval_ms h"
  shows "coarse_above (rl_coarse (add_coarse_children i is kbs st))"
proof -
  have "coarse_above (foldl (add_child i is) cs kbs)" if "coarse_above cs" for cs
    using that by (induction kbs arbitrary: cs) (simp_all add: add_child_above[OF _ assms(2,3)])
  then show ?thesis using assms(1) by (simp add: add_coarse_children_def)
qed

lemma interval_above: "minute_ns < i \<Longrightarrow> minute_ns dvd i \<Longrightarrow> minute_ms < interval_ms i"
  by (auto simp: interval_ms_def go_div_nonneg minute_ms_def elim!: dvdE)

text \<open>What only the parents see.\<close>

definition same_minutes :: "rollup_store \<Rightarrow> rollup_store \<Rightarrow> bool" where
  "same_minutes st st' \<longleftrightarrow> rl_hot st' = rl_hot st \<and> rl_replace st' = rl_replace st \<and> rl_policy st' = rl_policy st \<and>
     db_defs (rl_db st') = db_defs (rl_db st) \<and> row_at (rl_db st') = row_at (rl_db st) \<and> rl_raw st' = rl_raw st"

lemma same_minutes_refl: "same_minutes st st"
  by (simp add: same_minutes_def)

lemma same_minutes_trans: "same_minutes a b \<Longrightarrow> same_minutes b c \<Longrightarrow> same_minutes a c"
  by (simp add: same_minutes_def)

lemma same_minutes_stands: "same_minutes st st' \<Longrightarrow> stands st k M \<Longrightarrow> stands st' k M"
  by (rule stands_same) (simp_all add: same_minutes_def)

lemma same_minutes_wf: "same_minutes st st' \<Longrightarrow> rollup_wf st \<Longrightarrow> coarse_above (rl_coarse st') \<Longrightarrow> rollup_wf st'"
  by (simp add: same_minutes_def rollup_wf_def defined_metric_def)

lemma parents_above:
  assumes "coarse_above (rl_coarse st)" "po_tiers p = t # ts" "\<forall>u\<in>set ts. minute_ns < ti_interval u \<and> minute_ns dvd ti_interval u"
  shows "same_minutes st (add_minute_parents p kbs now st) \<and> coarse_above (rl_coarse (add_minute_parents p kbs now st))"
proof (cases ts)
  case (Cons t1 ts')
  have "minute_ms < interval_ms (ti_interval t1)" "\<forall>h\<in>set (map ti_interval ts'). minute_ms < interval_ms h"
    using assms(3) interval_above by (auto simp: Cons)
  then show ?thesis using add_children_above[OF assms(1)]
    by (simp add: add_minute_parents_def assms(2) Cons Let_def same_minutes_def add_coarse_children_def)
qed (simp add: add_minute_parents_def assms same_minutes_refl)

lemma persist_hot_wf:
  assumes "rollup_wf st" "take_hot P st = (items, st1)" "\<forall>k. stands st k (C k)"
  shows "\<exists>st2. persist_hot True items now st1 = Inr st2 \<and> rollup_wf st2 \<and> (\<forall>k. stands st2 k (C k)) \<and> rl_hot st2 = rl_hot st1 \<and>
    rl_policy st2 = rl_policy st \<and> db_defs (rl_db st2) = db_defs (rl_db st) \<and> rl_raw st2 = rl_raw st"
proof -
  have w: "distinct (map fst (rl_hot st))" "set (rl_replace st) \<subseteq> fst ` set (rl_hot st)" "minute_first (rl_policy st)"
      "\<forall>k\<in>fst ` set (rl_hot st). defined_metric (rl_db st) (key_metric k) \<and> in_range k" "coarse_above (rl_coarse st)"
    using assms(1) by (simp_all add: rollup_wf_def)
  note t = take_hot_items[OF assms(2)]
  obtain Mr Mh where M: "\<And>k. row_stands (row_at (rl_db st) k) (Mr k)" "\<And>k. hot_stands (map_of (rl_hot st) k) (Mh k)"
      "\<And>k. C k = (if k \<in> set (rl_replace st) then Mh k else Mr k + Mh k)"
    using assms(3) unfolding stands_def by metis
  have d: "distinct (map hi_key items)" unfolding t(4) by (rule distinct_filter_keys[OF w(1)])
  have it: "in_range (hi_key it) \<and> bucket_fits (hi_bucket it) (Mh (hi_key it)) \<and> (hi_replace it \<longleftrightarrow> hi_key it \<in> set (rl_replace st))"
    if i: "it \<in> set items" for it
  proof -
    have h: "(hi_key it, hi_bucket it) \<in> set (rl_hot st)" using t(3)[OF i] by blast
    then have "map_of (rl_hot st) (hi_key it) = Some (hi_bucket it)" using w(1) by (rule map_of_is_SomeI[rotated])
    then have "bucket_fits (hi_bucket it) (Mh (hi_key it))" using M(2)[of "hi_key it"] by (simp add: hot_stands_def)
    moreover have "in_range (hi_key it)" using w(4) h by force
    ultimately show ?thesis using t(3)[OF i] by blast
  qed
  have defs: "\<forall>n\<in>set (names_of items). defined_metric (rl_db st1) n"
  proof
    fix n assume "n \<in> set (names_of items)"
    then obtain it where i: "it \<in> set items" "n = key_metric (hi_key it)" by (auto simp: names_of_def)
    then have "hi_key it \<in> fst ` set (rl_hot st)" using t(2) by blast
    then show "defined_metric (rl_db st1) n" using w(4) i(2) unfolding t(7) by blast
  qed
  have rows: "\<forall>k. row_stands (row_at (rl_db st1) k) (Mr k)" using M(1) by (simp add: t(7))
  have p1: "minute_first (rl_policy st1)" using w(3) by (simp add: t(8))
  obtain db where db: "write_names (rl_policy st1) items (names_of items) (rl_db st1) = Inr db" "db_defs db = db_defs (rl_db st1)"
      "\<forall>k. row_stands (row_at db k) (if k \<in> hi_key ` set items \<and> key_metric k \<in> set (names_of items)
         then (if k \<in> set (rl_replace st) then Mh k else Mr k + Mh k) else Mr k)"
    using write_names_stands[OF p1 d _ defs, of Mh "\<lambda>k. k \<in> set (rl_replace st)" Mr] it rows by (auto simp: names_of_def)
  have all: "key_metric k \<in> set (names_of items)" if "k \<in> hi_key ` set items" for k using that by (auto simp: names_of_def)
  let ?st1 = "st1\<lparr>rl_db := db\<rparr>"
  have above: "coarse_above (rl_coarse ?st1)" using w(5) by (simp add: t(9))
  have step: "same_minutes s (case metric_policy_tx (rl_policy s) n db of Inl _ \<Rightarrow> s | Inr pol \<Rightarrow> add_minute_parents pol (f n) now s) \<and>
      coarse_above (rl_coarse (case metric_policy_tx (rl_policy s) n db of Inl _ \<Rightarrow> s | Inr pol \<Rightarrow> add_minute_parents pol (f n) now s))"
    if s: "coarse_above (rl_coarse s)" "rl_policy s = rl_policy st1" and n: "n \<in> set (names_of items)" for s n f
  proof -
    obtain days where days: "map_of (db_defs db) n = Some days" "0 < days" using defs n db(2) by (auto simp: defined_metric_def)
    obtain tt ts where "po_tiers (cut_policy (rl_policy st1) days) = tt # ts" "\<forall>u\<in>set ts. minute_ns < ti_interval u \<and> minute_ns dvd ti_interval u"
      using cut_policy_first[OF p1 days(2)] by blast
    from parents_above[OF s(1) this] show ?thesis using days s(2) by (simp add: metric_policy_tx_def)
  qed
  have fold: "same_minutes s (foldl (\<lambda>s n. case metric_policy_tx (rl_policy s) n db of Inl _ \<Rightarrow> s | Inr pol \<Rightarrow> add_minute_parents pol (f n) now s) s ns) \<and>
      coarse_above (rl_coarse (foldl (\<lambda>s n. case metric_policy_tx (rl_policy s) n db of Inl _ \<Rightarrow> s | Inr pol \<Rightarrow> add_minute_parents pol (f n) now s) s ns))"
    if "coarse_above (rl_coarse s)" "rl_policy s = rl_policy st1" "set ns \<subseteq> set (names_of items)" for s ns f
    using that
  proof (induction ns arbitrary: s)
    case (Cons n ns)
    let ?s = "case metric_policy_tx (rl_policy s) n db of Inl _ \<Rightarrow> s | Inr pol \<Rightarrow> add_minute_parents pol (f n) now s"
    have st: "same_minutes s ?s" "coarse_above (rl_coarse ?s)" using step[OF Cons.prems(1,2), of n f] Cons.prems(3) by auto
    then have "rl_policy ?s = rl_policy st1" using Cons.prems(2) by (simp add: same_minutes_def)
    from Cons.IH[OF st(2) this] show ?case using Cons.prems(3) st(1) same_minutes_trans by auto
  qed (simp add: same_minutes_refl)
  obtain st2 where st2: "persist_hot True items now st1 = Inr st2" "same_minutes ?st1 st2" "coarse_above (rl_coarse st2)"
    using fold[of ?st1 "names_of items" "\<lambda>n. items_of False n items @ items_of True n items"] above db(1) by (simp add: persist_hot_def)
  have wf1: "rollup_wf ?st1"
    using w t(5) t(6)[OF w(2)] t(8,9) db(2) t(7) above distinct_filter_keys[OF w(1)] keys_filter[of "\<lambda>k. \<not> P k" "rl_hot st"]
    by (auto simp: rollup_wf_def defined_metric_def)
  have stands1: "stands ?st1 k (C k)" for k
  proof (cases "P k \<and> k \<in> fst ` set (rl_hot st)")
    case True
    then have k: "k \<in> hi_key ` set items" using t(2) by blast
    have "row_stands (row_at db k) (C k)" using db(3)[rule_format, of k] k all[OF k] by (simp add: M(3))
    moreover have "map_of (rl_hot st1) k = None" unfolding t(5) map_of_filter_key[of "\<lambda>k. \<not> P k"] using True by simp
    moreover have "k \<notin> set (rl_replace st1)" using t(6)[OF w(2)] True by simp
    ultimately show ?thesis unfolding stands_def by (intro exI[of _ "C k"] exI[of _ "{#}"]) (simp add: hot_stands_def)
  next
    case False
    then have k: "k \<notin> hi_key ` set items" using t(2) by blast
    have "row_stands (row_at db k) (Mr k)" using db(3)[rule_format, of k] k by simp
    moreover have "map_of (rl_hot st1) k = map_of (rl_hot st) k"
      unfolding t(5) map_of_filter_key[of "\<lambda>k. \<not> P k"] using False by (auto simp: dom_keys[symmetric])
    moreover have "(k \<in> set (rl_replace st1)) = (k \<in> set (rl_replace st))" using t(6)[OF w(2)] w(2) False by auto
    ultimately show ?thesis unfolding stands_def using M(2,3) by (intro exI[of _ "Mr k"] exI[of _ "Mh k"]) simp
  qed
  show ?thesis
    using st2 same_minutes_wf[OF st2(2) wf1 st2(3)] same_minutes_stands[OF st2(2)] stands1 t(7,8,10) db(2)
    by (simp add: same_minutes_def)
qed

lemma flush_items_wf:
  assumes "rollup_wf st" "\<forall>k. stands st k (C k)" "flush_items ok P now st = (r, st')"
  shows "rollup_wf st'" "\<forall>k. stands st' k (C k)" "rl_policy st' = rl_policy st" "db_defs (rl_db st') = db_defs (rl_db st)" "rl_raw st' = rl_raw st"
    "ok \<Longrightarrow> \<exists>n. r = Inr n" "ok \<Longrightarrow> \<forall>k\<in>fst ` set (rl_hot st'). \<not> P k"
proof -
  obtain items st1 where t: "take_hot P st = (items, st1)" by fastforce
  note h = take_hot_items[OF t] and again = take_restore[OF assms(1) t]
  have gone: "\<forall>k\<in>fst ` set (rl_hot st1). \<not> P k" unfolding h(5) by auto
  have all: "rollup_wf st' \<and> (\<forall>k. stands st' k (C k)) \<and> rl_policy st' = rl_policy st \<and> db_defs (rl_db st') = db_defs (rl_db st) \<and>
      rl_raw st' = rl_raw st \<and> (ok \<longrightarrow> (\<exists>n. r = Inr n) \<and> (\<forall>k\<in>fst ` set (rl_hot st'). \<not> P k))"
  proof (cases "items = []")
    case True
    then have st': "st' = restore_hot items st1" "r = Inr 0" "st' = st1" using assms(3) t by (simp_all add: flush_items_def restore_hot_def)
    have "stands st' k (C k)" for k unfolding st'(1) by (rule stands_same[OF assms(2)[rule_format]]) (simp_all add: again)
    then show ?thesis using st' again gone by simp
  next
    case False
    show ?thesis
    proof (cases ok)
      case True
      obtain st2 where "persist_hot True items now st1 = Inr st2" "rollup_wf st2" "\<forall>k. stands st2 k (C k)" "rl_hot st2 = rl_hot st1"
          "rl_policy st2 = rl_policy st" "db_defs (rl_db st2) = db_defs (rl_db st)" "rl_raw st2 = rl_raw st"
        using persist_hot_wf[OF assms(1) t assms(2)] by blast
      then show ?thesis using assms(3) t False True gone by (auto simp: flush_items_def)
    next
      case nok: False
      then have st': "st' = restore_hot items st1" using assms(3) t False by (simp add: flush_items_def persist_hot_def)
      have "stands st' k (C k)" for k unfolding st' by (rule stands_same[OF assms(2)[rule_format]]) (simp_all add: again)
      then show ?thesis using st' again nok by simp
    qed
  qed
  then show "rollup_wf st'" "\<forall>k. stands st' k (C k)" "rl_policy st' = rl_policy st" "db_defs (rl_db st') = db_defs (rl_db st)" "rl_raw st' = rl_raw st"
    "ok \<Longrightarrow> \<exists>n. r = Inr n" "ok \<Longrightarrow> \<forall>k\<in>fst ` set (rl_hot st'). \<not> P k" by blast+
qed

section \<open>Sealing leaves the minutes alone\<close>

definition item_above :: "closed_coarse \<Rightarrow> bool" where
  "item_above it \<longleftrightarrow> minute_ms < interval_ms (snd (cc_key it)) \<and> (\<forall>i\<in>set (cc_higher it). minute_ms < interval_ms i)"

lemma take_closed_above:
  assumes "take_closed_coarse now st = (items, st1)" "coarse_above (rl_coarse st)"
  shows "same_minutes st st1" "coarse_above (rl_coarse st1)" "\<forall>it\<in>set items. item_above it" "rl_db st1 = rl_db st"
proof -
  have parent: "cc_key it = fst cp \<and> cc_higher it = co_higher (snd cp)" if "close_parent c cp = Some it" for c it cp
    using that by (cases cp) (auto simp: close_parent_def Let_def split: if_splits)
  have "item_above it" if it: "it \<in> set (List.map_filter (close_parent c) xs)" "set xs \<subseteq> set (rl_coarse st)" for it c xs
  proof -
    obtain cp where "cp \<in> set (rl_coarse st)" "close_parent c cp = Some it" using it by (auto simp: map_filter_def)
    then show ?thesis using assms(2) parent[of c cp it] by (cases cp) (auto simp: item_above_def coarse_above_def)
  qed
  then show "\<forall>it\<in>set items. item_above it" using assms(1) by (auto simp: take_closed_coarse_def split: option.splits)
  show "same_minutes st st1" "rl_db st1 = rl_db st"
    using assms(1) by (auto simp: take_closed_coarse_def same_minutes_def split: option.splits)
  have "set (rl_coarse st1) \<subseteq> set (rl_coarse st)"
    using assms(1) by (auto simp: take_closed_coarse_def split: option.splits)
  then show "coarse_above (rl_coarse st1)" using assms(2) unfolding coarse_above_def by blast
qed

lemma restore_coarse_above:
  assumes "\<forall>it\<in>set items. item_above it" "coarse_above (rl_coarse st)"
  shows "same_minutes st (restore_coarse items st) \<and> coarse_above (rl_coarse (restore_coarse items st))"
  using assms
proof (induction items arbitrary: st)
  case (Cons it items)
  let ?st = "if map_of (rl_coarse st) (cc_key it) \<noteq> None then st
       else st\<lparr>rl_coarse := AList.update (cc_key it) \<lparr>co_higher = cc_higher it, co_children = cc_children it\<rparr> (rl_coarse st)\<rparr>"
  have upd: "x \<in> set (AList.update k v xs) \<Longrightarrow> x = (k, v) \<or> x \<in> set xs" for x k v and xs :: "(coarse_key \<times> coarse) list"
    by (induction xs) (auto split: if_splits)
  have "coarse_above (rl_coarse ?st)" using Cons.prems by (fastforce simp: coarse_above_def item_above_def dest!: upd)
  moreover have "same_minutes st ?st" by (simp add: same_minutes_def)
  moreover have "restore_coarse (it # items) st = restore_coarse items ?st" by (simp add: restore_coarse_def)
  ultimately show ?case using Cons.IH[of ?st] Cons.prems(1) same_minutes_trans[of st ?st] by simp
qed (simp add: restore_coarse_def same_minutes_refl)

lemma write_sealed_above:
  assumes "\<forall>it\<in>set items. item_above it"
  shows "row_at (write_sealed items db) = row_at db \<and> db_defs (write_sealed items db) = db_defs db"
  using assms by (induction items arbitrary: db) (simp_all add: write_sealed_def item_above_def upsert_row_at(2) upsert_row_other)

lemma raise_parent_above:
  assumes "item_above it" "coarse_above (rl_coarse st)"
  shows "same_minutes st (raise_parent st it) \<and> coarse_above (rl_coarse (raise_parent st it))"
proof (cases "cc_higher it")
  case (Cons i hs)
  have "minute_ms < interval_ms i" "\<forall>h\<in>set hs. minute_ms < interval_ms h" using assms(1) by (simp_all add: item_above_def Cons)
  then show ?thesis using add_children_above[OF assms(2)]
    by (simp add: raise_parent_def Cons same_minutes_def add_coarse_children_def)
qed (simp add: raise_parent_def assms same_minutes_refl)

lemma raise_all_above:
  "\<forall>it\<in>set items. item_above it \<Longrightarrow> coarse_above (rl_coarse st) \<Longrightarrow>
    same_minutes st (foldl raise_parent st items) \<and> coarse_above (rl_coarse (foldl raise_parent st items))"
proof (induction items arbitrary: st)
  case (Cons it items)
  then show ?case using raise_parent_above[of it st] Cons.IH[of "raise_parent st it"] same_minutes_trans by auto
qed (simp add: same_minutes_refl)

lemma flush_coarse_above:
  "coarse_above (rl_coarse st) \<Longrightarrow> flush_coarse env i now st = (r, st') \<Longrightarrow> same_minutes st st' \<and> coarse_above (rl_coarse st')"
proof (induction env i now st arbitrary: r st' rule: flush_coarse.induct)
  case (1 env i now st)
  obtain shut st1 where t: "take_closed_coarse now st = (shut, st1)" by fastforce
  note above = take_closed_above[OF t "1.prems"(1)]
  let ?sealed = "filter (still_wanted st1) shut"
  let ?st2 = "foldl raise_parent (st1\<lparr>rl_db := write_sealed ?sealed (rl_db st1)\<rparr>) ?sealed"
  have sub: "\<forall>it\<in>set ?sealed. item_above it" using above(3) by simp
  have st2: "same_minutes st1 ?st2 \<and> coarse_above (rl_coarse ?st2)"
  proof -
    have "same_minutes st1 (st1\<lparr>rl_db := write_sealed ?sealed (rl_db st1)\<rparr>)" using write_sealed_above[OF sub] by (simp add: same_minutes_def)
    then show ?thesis using raise_all_above[OF sub, of "st1\<lparr>rl_db := write_sealed ?sealed (rl_db st1)\<rparr>"] above(2) same_minutes_trans by simp
  qed
  consider "shut = []" | "shut \<noteq> []" "\<not> fst (env i)" | "shut \<noteq> []" "fst (env i)" "?sealed = []"
    | "shut \<noteq> []" "fst (env i)" "?sealed \<noteq> []" "\<not> snd (env i)" | "shut \<noteq> []" "fst (env i)" "?sealed \<noteq> []" "snd (env i)" by blast
  then show ?case
  proof cases
    case 1
    then have "st' = st1" using "1.prems"(2) t by (simp add: flush_coarse.simps[of env i now st] Let_def)
    then show ?thesis using above by simp
  next
    case 2
    then have "st' = restore_coarse shut st1" using "1.prems"(2) t by (simp add: flush_coarse.simps[of env i now st] Let_def)
    then show ?thesis using restore_coarse_above[OF above(3,2)] above(1) same_minutes_trans by blast
  next
    case 3
    then have "flush_coarse env (i + 1) now st1 = (r, st')" using "1.prems"(2) t by (simp add: flush_coarse.simps[of env i now st] Let_def)
    then have "same_minutes st1 st' \<and> coarse_above (rl_coarse st')" using "1.IH"(1)[OF refl refl refl refl] 3 t above(2) by auto
    then show ?thesis using above(1) same_minutes_trans by blast
  next
    case 4
    then have "st' = restore_coarse ?sealed st1" using "1.prems"(2) t by (simp add: flush_coarse.simps[of env i now st] Let_def)
    then show ?thesis using restore_coarse_above[OF sub above(2)] above(1) same_minutes_trans by blast
  next
    case 5
    obtain r3 st3 where f: "flush_coarse env (i + 1) now ?st2 = (r3, st3)" by fastforce
    have "flush_coarse env i now st = (case flush_coarse env (i + 1) now ?st2 of
          (Inl e, st3) \<Rightarrow> (Inl e, st3) | (Inr n, st3) \<Rightarrow> (Inr (n + length ?sealed), st3))"
      unfolding flush_coarse.simps[of env i now st] Let_def t fst_conv snd_conv using 5 by simp
    then have "st' = st3" using "1.prems"(2) f by (simp split: sum.splits)
    moreover have "same_minutes ?st2 st3 \<and> coarse_above (rl_coarse st3)" using "1.IH"(2)[OF refl refl refl refl refl] 5 t st2 f by auto
    ultimately show ?thesis using above(1) st2 same_minutes_trans by blast
  qed
qed

end
