(* ===== verification/Rollup_Writes.thy ===== *)
theory Rollup_Writes
  imports Rollup_History
begin

text \<open>
  The recent samples and the minutes together: whatever is written late, twice or with other labels, the row of a
  minute and its bucket in memory stand for exactly the samples that the raw window holds of that minute.
\<close>

section \<open>The samples of a minute\<close>

lemma bucket_start_floor:
  assumes "0 < sz"
  shows "bucket_start t sz = t div sz * sz"
proof (cases "0 \<le> t")
  case False
  have d: "- t mod sz = 0 \<longleftrightarrow> go_rem t sz = 0" using go_rem_dvd[OF assms, of t] by (simp flip: dvd_eq_mod_eq_0)
  have q: "go_div t sz = - (- t div sz)" using False assms by (simp add: go_div_def)
  show ?thesis using zdiv_zminus1_eq_if[of sz "- t"] assms False d q by (auto simp: bucket_start_def Let_def)
qed (use assms in \<open>simp add: bucket_start_def go_div_nonneg\<close>)

lemma minute_floor: "bucket_start t minute_ms \<le> t" "t < bucket_start t minute_ms + minute_ms"
  "bucket_start t minute_ms = b \<longleftrightarrow> minute_ms dvd b \<and> b \<le> t \<and> t < b + minute_ms"
proof -
  have m: "bucket_start t minute_ms = t div 60000 * 60000" using bucket_start_floor[of minute_ms t] by (simp add: minute_ms_def)
  show b: "bucket_start t minute_ms \<le> t" "t < bucket_start t minute_ms + minute_ms"
    using div_mult_mod_eq[of t 60000] pos_mod_bound[of 60000 t] pos_mod_sign[of 60000 t]
    unfolding m unfolding minute_ms_def by simp_all
  have "t div 60000 = c" if "60000 * c \<le> t" "t < 60000 * c + 60000" for c
    using that by (intro int_div_pos_eq[of _ _ _ "t - 60000 * c"]) auto
  then have "t div 60000 * 60000 = b" if "60000 dvd b" "b \<le> t" "t < b + 60000"
    using that by (metis dvdE mult.commute)
  then show "bucket_start t minute_ms = b \<longleftrightarrow> minute_ms dvd b \<and> b \<le> t \<and> t < b + minute_ms"
    using b unfolding m unfolding minute_ms_def by (metis dvd_triv_right)
qed

text \<open>What a map from times to values and labels has in the minute of a bucket, under its labels.\<close>

definition minute_times :: "hot_key \<Rightarrow> (int \<Rightarrow> (64 word \<times> go_string) option) \<Rightarrow> int set" where
  "minute_times k v = {t. key_bucket k \<le> t \<and> t < key_bucket k + minute_ms \<and> map_option snd (v t) = Some (fst (snd k))}"

definition minute_view :: "hot_key \<Rightarrow> raw_view \<Rightarrow> observation multiset" where
  "minute_view k v = image_mset (\<lambda>t. (float_value (fst (the (v (fst k) t))), t)) (mset_set (minute_times k (v (fst k))))"

definition observed :: "raw_sample \<Rightarrow> observation" where
  "observed s = (float_value (rs_value s), rs_time s)"

lemma minute_samples_filter:
  assumes "series_wf l0 se"
  shows "minute_samples k se = filter (\<lambda>s. se_hashes se ! rs_label s = fst (snd k) \<and> key_bucket k \<le> rs_time s \<and> rs_time s < key_bucket k + minute_ms)
    (all_samples se)"
proof -
  obtain L where L: "in_order L" "in_order (se_samples se)" "all_samples se = L @ se_samples se" "decode_all (se_compressed se) = L"
    using assms by (rule series_wfD)
  let ?lo = "key_bucket k" and ?hi = "key_bucket k + minute_ms"
  have "takeWhile (\<lambda>s. rs_time s < ?hi) (filter (\<lambda>s. ?lo \<le> rs_time s) L) = filter (\<lambda>s. ?lo \<le> rs_time s \<and> rs_time s < ?hi) L"
    using takeWhile_le[OF in_order_filter[OF L(1)], of "?hi - 1"] by (simp add: not_less zle_diff1_eq conj_commute cong: filter_cong)
  moreover have "drop (search_time ?lo (se_samples se)) (take (search_time ?hi (se_samples se)) (se_samples se)) =
      filter (\<lambda>s. ?lo \<le> rs_time s \<and> rs_time s < ?hi) (se_samples se)"
  proof -
    have "take (search_time ?hi (se_samples se)) (se_samples se) = filter (\<lambda>s. rs_time s < ?hi) (se_samples se)" (is "_ = ?T")
      by (rule search_split(1)[OF L(2)])
    moreover have "drop (search_time ?lo ?T) ?T = filter (\<lambda>s. ?lo \<le> rs_time s \<and> rs_time s < ?hi) (se_samples se)"
      using search_split(2)[OF in_order_filter[OF L(2)], of ?lo "\<lambda>s. rs_time s < ?hi"] by (simp add: not_less conj_commute)
    moreover have "search_time ?lo ?T = search_time ?lo (se_samples se)"
      unfolding search_time_length[OF L(2)] search_time_length[OF in_order_filter[OF L(2)]]
      by (simp, rule arg_cong[where f = length], rule filter_cong) (auto simp: minute_ms_def)
    ultimately show ?thesis by simp
  qed
  ultimately show ?thesis by (simp add: minute_samples_def Let_def L(3,4) conj_ac)
qed

lemma minute_samples_view:
  assumes "series_wf l0 se"
  shows "mset (map observed (minute_samples k se)) =
    image_mset (\<lambda>t. (float_value (fst (the (series_view se t))), t)) (mset_set (minute_times k (series_view se)))"
proof -
  have o: "in_order (all_samples se)" using assms by (simp add: series_wf_def)
  let ?F = "minute_samples k se"
  note F = minute_samples_filter[OF assms, of k]
  have v: "series_view se (rs_time s) = Some (rs_value s, se_hashes se ! rs_label s)" if "s \<in> set (all_samples se)" for s
    using look_in[OF o that] by (simp add: series_view_def)
  have "rs_time ` set ?F = minute_times k (series_view se)" (is "?A = ?B")
  proof
    show "?A \<subseteq> ?B" using v by (auto simp: F minute_times_def)
    show "?B \<subseteq> ?A"
    proof
      fix t assume "t \<in> ?B"
      then obtain s where s: "look (all_samples se) t = Some s" "key_bucket k \<le> t" "t < key_bucket k + minute_ms" "se_hashes se ! rs_label s = fst (snd k)"
        by (auto simp: minute_times_def series_view_def)
      then have "s \<in> set ?F" "rs_time s = t" using look_Some[OF s(1)] by (auto simp: F)
      then show "t \<in> ?A" by blast
    qed
  qed
  moreover have "distinct (map rs_time ?F)"
  proof -
    have "sorted_wrt (<) (map rs_time ?F)" using in_order_filter[OF o] by (simp add: F in_order_def sorted_wrt_map)
    then show ?thesis by (simp add: strict_sorted_iff)
  qed
  ultimately have "mset_set (minute_times k (series_view se)) = mset (map rs_time ?F)"
    by (metis mset_set_set set_map)
  then show ?thesis using v by (auto simp: F observed_def multiset.map_comp intro!: image_mset_cong)
qed

lemma finite_minute_times [simp]: "finite (minute_times k v)"
  by (rule finite_subset[of _ "{key_bucket k..<key_bucket k + minute_ms}"]) (auto simp: minute_times_def)

lemma minute_view_same:
  assumes "\<And>t. key_bucket k \<le> t \<Longrightarrow> t < key_bucket k + minute_ms \<Longrightarrow> v (fst k) t = w (fst k) t"
  shows "minute_view k v = minute_view k w"
proof -
  have "minute_times k (v (fst k)) = minute_times k (w (fst k))" using assms by (auto simp: minute_times_def)
  moreover have "key_bucket k \<le> t \<and> t < key_bucket k + minute_ms" if "t \<in># mset_set (minute_times k x)" for t x
    using that by simp (simp add: minute_times_def)
  ultimately show ?thesis unfolding minute_view_def by (simp, intro image_mset_cong) (metis assms)
qed

lemma minute_view_prune: "rc \<le> key_bucket k \<Longrightarrow> minute_view k (\<lambda>k t. if t < rc then None else v k t) = minute_view k v"
  by (rule minute_view_same) auto

lemma minute_view_raw:
  assumes "store_wf l0 n raw" "raw (fst k) = Some se"
  shows "minute_view k (store_view raw) = mset (map observed (minute_samples k se))"
  using minute_samples_view[of l0 se k] store_wfD[OF assms] assms(2) by (simp add: minute_view_def store_view_def)

lemma minute_view_none: "v (fst k) = (\<lambda>_. None) \<Longrightarrow> minute_view k v = {#}"
  by (simp add: minute_view_def minute_times_def)

text \<open>A point that marks no minute adds itself to its own and leaves the others as they are.\<close>

lemma minute_view_write:
  assumes "k \<notin> set (view_mark l0 rc v p)" "minute_ms dvd key_bucket k" "rc \<le> key_bucket k"
  shows "minute_view k (view_write rc v p) = (if hot_key_of p = k then add_mset (observe p) (minute_view k v) else minute_view k v)"
proof -
  have floor: "bucket_start (pp_time p) minute_ms = key_bucket k \<longleftrightarrow> key_bucket k \<le> pp_time p \<and> pp_time p < key_bucket k + minute_ms"
    using minute_floor(3)[of "pp_time p" "key_bucket k"] assms(2) by simp
  have hot: "hot_key_of p = k \<longleftrightarrow> fst k = pp_key p \<and> fst (snd k) = pp_labels_hash p \<and> key_bucket k \<le> pp_time p \<and> pp_time p < key_bucket k + minute_ms"
    unfolding floor[symmetric] by (cases k) (auto simp: hot_key_of_def key_bucket_def)
  show ?thesis
  proof (cases "fst k = pp_key p \<and> key_bucket k \<le> pp_time p \<and> pp_time p < key_bucket k + minute_ms")
    case False
    then have "minute_view k (view_write rc v p) = minute_view k v" by (intro minute_view_same) (auto simp: view_write_def)
    then show ?thesis using hot False by auto
  next
    case True
    have t: "\<not> pp_time p < rc" using True assms(3) by simp
    have mark: "mark_rebuild p h = k \<longleftrightarrow> h = fst (snd k)" for h
      using True floor by (cases k) (auto simp: mark_rebuild_def key_bucket_def)
    let ?w = "v (pp_key p)" and ?w' = "(v (pp_key p))(pp_time p \<mapsto> (pp_value p, pp_labels_hash p))"
    have new: "view_write rc v p (fst k) = ?w'" using True t by (simp add: view_write_def)
    have fresh: "pp_time p \<notin> minute_times k ?w"
    proof (cases "?w (pp_time p)")
      case (Some x)
      then have "mark_rebuild p (snd x) \<noteq> k" using assms(1) t by (auto simp: view_mark_def)
      then show ?thesis using mark Some by (auto simp: minute_times_def)
    qed (simp add: minute_times_def)
    have times: "minute_times k ?w' = (if pp_labels_hash p = fst (snd k) then insert (pp_time p) (minute_times k ?w) else minute_times k ?w)"
      using True fresh by (auto simp: minute_times_def)
    have same: "image_mset (\<lambda>t. (float_value (fst (the (?w' t))), t)) (mset_set (minute_times k ?w)) =
        image_mset (\<lambda>t. (float_value (fst (the (?w t))), t)) (mset_set (minute_times k ?w))"
      using fresh by (intro image_mset_cong) auto
    show ?thesis
      unfolding minute_view_def new times using True hot same fresh by (auto simp: observe_def)
  qed
qed

lemma minute_view_writes:
  assumes "k \<notin> set (view_marks l0 rc v ps)" "minute_ms dvd key_bucket k" "rc \<le> key_bucket k"
  shows "minute_view k (foldl (view_write rc) v ps) = minute_view k v + mset (map observe (filter (\<lambda>p. hot_key_of p = k) ps))"
  using assms(1)
proof (induction ps arbitrary: v)
  case (Cons p ps)
  then show ?case using minute_view_write[OF _ assms(2,3), of l0 v p] Cons.IH[of "view_write rc v p"] by simp
qed simp

section \<open>Adding and rebuilding\<close>

lemma hot_add_stands:
  assumes "hot_stands (map_of hot k) M"
  shows "hot_stands (map_of (hot_add c hot p) k) (if hot_key_of p = k then add_mset (observe p) M else M)"
proof -
  have new: "bucket_fits ((new_bucket c True)\<lparr>bk_tags_hash := a, bk_tags := b, bk_labels_hash := d, bk_labels := e\<rparr>) {#}" for a b d e
    using new_bucket_fits[of c] by (simp add: bucket_fits_def)
  show ?thesis using assms add_point_fits[OF new] add_point_fits
    by (auto simp: hot_add_def Let_def hot_stands_def update_conv' split: option.splits)
qed

lemma hot_add_keys:
  "distinct (map fst hot) \<Longrightarrow> distinct (map fst (hot_add c hot p))" "fst ` set (hot_add c hot p) = insert (hot_key_of p) (fst ` set hot)"
  by (simp_all add: hot_add_def Let_def distinct_update update_keys)

lemma hot_adds_stands:
  assumes "hot_stands (map_of hot k) M"
  shows "hot_stands (map_of (foldl (hot_add c) hot ps) k) (M + mset (map observe (filter (\<lambda>p. hot_key_of p = k) ps)))"
  using assms
proof (induction ps arbitrary: hot M)
  case (Cons p ps)
  then show ?case using Cons.IH[OF hot_add_stands[OF Cons.prems, of c p]] by (cases "hot_key_of p = k") simp_all
qed simp

lemma hot_adds_keys:
  "fst ` set (foldl (hot_add c) hot ps) = fst ` set hot \<union> hot_key_of ` set ps \<and>
   (distinct (map fst hot) \<longrightarrow> distinct (map fst (foldl (hot_add c) hot ps)))"
  by (induction ps arbitrary: hot) (auto simp: hot_add_keys)

lemma rebuilt_bucket_fits:
  assumes "store_wf l0 n raw"
  shows "bucket_fits (rebuilt_bucket c k raw) (minute_view k (store_view raw))"
proof -
  have step: "bucket_fits (fold (add_sample se) ss b) (M + mset (map observed ss))" if "bucket_fits b M" for ss b M se
    using that
  proof (induction ss arbitrary: b M)
    case (Cons s ss)
    have "bucket_fits (b\<lparr>bk_labels := se_jsons se ! rs_label s\<rparr>) M" using Cons.prems by (simp add: bucket_fits_def)
    from Cons.IH[OF add_point_fits[OF this, of "observed s"]] show ?case by (simp add: observed_def add_sample_def)
  qed simp
  have new: "bucket_fits ((new_bucket c True)\<lparr>bk_tags_hash := a, bk_labels_hash := d\<rparr>) {#}"
      "bucket_fits ((new_bucket c True)\<lparr>bk_tags_hash := a, bk_labels_hash := d, bk_tags := b, bk_labels := e\<rparr>) {#}" for a b d e
    using new_bucket_fits[of c] by (simp_all add: bucket_fits_def)
  show ?thesis
  proof (cases "raw (fst k)")
    case None
    then show ?thesis using new(1) by (simp add: rebuilt_bucket_def Let_def minute_view_none store_view_def)
  next
    case (Some se)
    then show ?thesis using step[OF new(2)] unfolding minute_view_raw[OF assms Some] by (simp add: rebuilt_bucket_def Let_def)
  qed
qed

section \<open>The operations keep the minutes\<close>

text \<open>
  The state between two operations at a time \<open>now\<close>: every minute that begins within the raw window stands for what
  the window holds of it.
\<close>

definition follows :: "int \<Rightarrow> raw_store \<Rightarrow> (hot_key \<Rightarrow> observation multiset) \<Rightarrow> bool" where
  "follows now raw C \<longleftrightarrow> (\<forall>k. minute_ms dvd key_bucket k \<longrightarrow> raw_cutoff now \<le> key_bucket k \<longrightarrow> C k = minute_view k (store_view raw))"

definition live :: "int \<Rightarrow> nat \<Rightarrow> rollup_store \<Rightarrow> bool" where
  "live now n st \<longleftrightarrow> rollup_wf st \<and> (\<exists>l0. l0 \<le> now - direct_retention_ms \<and> store_wf l0 n (rl_raw st)) \<and>
     (\<exists>C. (\<forall>k. stands st k (C k)) \<and> follows now (rl_raw st) C)"

lemma raw_cutoff_mono: "now \<le> now' \<Longrightarrow> raw_cutoff now \<le> raw_cutoff now'"
  by (simp add: raw_cutoff_def bucket_start_floor minute_ms_def zdiv_mono1)

lemma liveI:
  assumes "rollup_wf st" "store_wf l0 n (rl_raw st)" "l0 \<le> now - direct_retention_ms" "\<forall>k. stands st k (C k)" "follows now (rl_raw st) C"
  shows "live now n st"
  using assms unfolding live_def by blast

lemma liveE:
  assumes "live now n st"
  obtains l0 C where "rollup_wf st" "store_wf l0 n (rl_raw st)" "l0 \<le> now - direct_retention_ms" "\<forall>k. stands st k (C k)" "follows now (rl_raw st) C"
  using assms unfolding live_def by blast

lemma follows_mono: "follows now raw C \<Longrightarrow> now \<le> now' \<Longrightarrow> follows now' raw C"
  using raw_cutoff_mono[of now now'] by (auto simp: follows_def)

lemma live_mono:
  assumes "live now n st" "now \<le> now'" "n \<le> n'"
  shows "live now' n' st"
proof -
  obtain l0 C where l: "rollup_wf st" "store_wf l0 n (rl_raw st)" "l0 \<le> now - direct_retention_ms" "\<forall>k. stands st k (C k)" "follows now (rl_raw st) C"
    using assms(1) by (rule liveE)
  show ?thesis using assms(2) l(3) by (intro liveI[OF l(1) store_wf_mono[OF l(2) assms(3)] _ l(4) follows_mono[OF l(5) assms(2)]]) simp
qed

lemma live_flush:
  assumes "live now n st" "flush_items ok P t st = (r, st')"
  shows "live now n st'" "rl_raw st' = rl_raw st"
proof -
  obtain l0 C where l: "rollup_wf st" "store_wf l0 n (rl_raw st)" "l0 \<le> now - direct_retention_ms" "\<forall>k. stands st k (C k)" "follows now (rl_raw st) C"
    using assms(1) by (rule liveE)
  note f = flush_items_wf[OF l(1,4) assms(2)]
  show "rl_raw st' = rl_raw st" by (rule f(5))
  show "live now n st'" using l(2,3,5) by (intro liveI[OF f(1) _ _ f(2)]) (simp_all add: f(5))
qed

lemma live_same:
  assumes "live now n st" "same_minutes st st'" "coarse_above (rl_coarse st')"
  shows "live now n st'"
proof -
  obtain l0 C where l: "rollup_wf st" "store_wf l0 n (rl_raw st)" "l0 \<le> now - direct_retention_ms" "\<forall>k. stands st k (C k)" "follows now (rl_raw st) C"
    using assms(1) by (rule liveE)
  have raw: "rl_raw st' = rl_raw st" using assms(2) by (simp add: same_minutes_def)
  show ?thesis
    using l(2-5) by (intro liveI[OF same_minutes_wf[OF assms(2) l(1) assms(3)], of l0 n now C]) (simp_all add: raw same_minutes_stands[OF assms(2)])
qed

lemma live_coarse: "live now n st \<Longrightarrow> flush_coarse env i t st = (r, st') \<Longrightarrow> live now n st'"
  by (rule live_same[OF _ conjunct1 conjunct2]; (rule flush_coarse_above)?; (auto simp: live_def rollup_wf_def)?)

lemma live_trim:
  assumes "live now n st"
  shows "live now n (st\<lparr>rl_raw := trim_raw_window now (rl_raw st)\<rparr>)"
    "follows now (rl_raw st) C \<Longrightarrow> follows now (trim_raw_window now (rl_raw st)) C"
proof -
  obtain l0 C0 where l: "rollup_wf st" "store_wf l0 n (rl_raw st)" "l0 \<le> now - direct_retention_ms" "\<forall>k. stands st k (C0 k)" "follows now (rl_raw st) C0"
    using assms by (rule liveE)
  let ?st = "st\<lparr>rl_raw := trim_raw_window now (rl_raw st)\<rparr>"
  note c = compress_store_wf[OF l(2,3)]
  note p = prune_store_wf[OF c(1), of "raw_cutoff now"]
  have v: "store_view (trim_raw_window now (rl_raw st)) = (\<lambda>k t. if t < raw_cutoff now then None else store_view (rl_raw st) k t)"
    by (simp only: trim_raw_window_def p(2) c(2))
  show f: "follows now (trim_raw_window now (rl_raw st)) C" if "follows now (rl_raw st) C" for C
    using that by (simp add: follows_def v minute_view_prune)
  have "rollup_wf ?st" using l(1) by (simp add: rollup_wf_def)
  moreover have "\<forall>k. stands ?st k (C0 k)" using l(4) by (simp add: stands_def)
  moreover have "store_wf (now - direct_retention_ms) n (trim_raw_window now (rl_raw st))" using p(1) by (simp add: trim_raw_window_def)
  ultimately show "live now n ?st" using f[OF l(5)] by (intro liveI[of ?st "now - direct_retention_ms" n now C0]) simp_all
qed

section \<open>A batch\<close>

text \<open>A time far enough from the ends that its minute is not taken for nanoseconds.\<close>

definition timely :: "prepared_point \<Rightarrow> bool" where
  "timely p \<longleftrightarrow> - 9999999900000 \<le> pp_time p \<and> pp_time p \<le> 10000000000000"

lemma timely_in_range: "timely p \<Longrightarrow> fst (snd k) = h \<Longrightarrow> key_bucket k = bucket_start (pp_time p) minute_ms \<Longrightarrow> in_range k"
  using minute_floor(1,2)[of "pp_time p"] by (auto simp: timely_def in_range_def minute_ms_def)

lemma view_marks_of: "k \<in> set (view_marks l0 rc v ps) \<Longrightarrow> \<exists>p\<in>set ps. fst k = pp_key p \<and> key_bucket k = bucket_start (pp_time p) minute_ms"
proof (induction ps arbitrary: v)
  case (Cons p ps)
  have "fst k = pp_key p \<and> key_bucket k = bucket_start (pp_time p) minute_ms" if "k \<in> set (view_mark l0 rc v p)"
    using that by (auto simp: view_mark_def mark_rebuild_def key_bucket_def split: if_splits option.splits)
  then show ?case using Cons by auto
qed simp

lemma rebuilds_stand:
  assumes "rollup_wf st" "store_wf l0 n (rl_raw st)" "\<forall>k. stands st k (C k)"
    "\<forall>k\<in>set ks. defined_metric (rl_db st) (key_metric k) \<and> in_range k"
  shows "rollup_wf (foldl (\<lambda>st k. rebuild_hot k st) st ks) \<and> rl_raw (foldl (\<lambda>st k. rebuild_hot k st) st ks) = rl_raw st \<and>
    (\<forall>k. stands (foldl (\<lambda>st k. rebuild_hot k st) st ks) k (if k \<in> set ks then minute_view k (store_view (rl_raw st)) else C k))"
  using assms
proof (induction ks arbitrary: st C)
  case (Cons k ks)
  let ?st = "rebuild_hot k st" and ?C = "C(k := minute_view k (store_view (rl_raw st)))"
  have same: "rl_raw ?st = rl_raw st" "rl_db ?st = rl_db st" "rl_policy ?st = rl_policy st" "rl_coarse ?st = rl_coarse st"
      "set (rl_replace ?st) = insert k (set (rl_replace st))"
    by (auto simp: rebuild_hot_def)
  have hot: "rl_hot ?st = AList.update k (rebuilt_bucket (policy_compression (rl_policy st)) k (rl_raw st)) (rl_hot st)"
    by (simp add: rebuild_hot_def)
  have "rollup_wf ?st" using Cons.prems(1,4) unfolding rollup_wf_def same hot update_keys by (auto simp: distinct_update)
  moreover have "stands ?st j (?C j)" for j
  proof -
    obtain Mr Mh where M: "row_stands (row_at (rl_db st) j) Mr" "hot_stands (map_of (rl_hot st) j) Mh"
        "C j = (if j \<in> set (rl_replace st) then Mh else Mr + Mh)"
      using Cons.prems(3)[rule_format, of j] unfolding stands_def by blast
    show ?thesis
    proof (cases "j = k")
      case True
      have "hot_stands (map_of (rl_hot ?st) k) (minute_view k (store_view (rl_raw st)))"
        using rebuilt_bucket_fits[OF Cons.prems(2)] by (simp add: hot hot_stands_def update_conv')
      then show ?thesis using M(1) True unfolding stands_def same by (intro exI[of _ Mr] exI[of _ "?C j"]) simp
    next
      case False
      then show ?thesis using M unfolding stands_def same hot by (intro exI[of _ Mr] exI[of _ Mh]) (simp add: update_conv')
    qed
  qed
  ultimately have "rollup_wf (foldl (\<lambda>st k. rebuild_hot k st) ?st ks) \<and> rl_raw (foldl (\<lambda>st k. rebuild_hot k st) ?st ks) = rl_raw ?st \<and>
    (\<forall>j. stands (foldl (\<lambda>st k. rebuild_hot k st) ?st ks) j (if j \<in> set ks then minute_view j (store_view (rl_raw ?st)) else ?C j))"
    using Cons.prems(2,4) by (intro Cons.IH) (simp_all add: same)
  note r = this
  have "rollup_wf (foldl (\<lambda>st k. rebuild_hot k st) st (k # ks)) \<and> rl_raw (foldl (\<lambda>st k. rebuild_hot k st) st (k # ks)) = rl_raw st"
    using r by (simp add: same(1))
  moreover have "stands (foldl (\<lambda>st k. rebuild_hot k st) st (k # ks)) j (if j \<in> set ks then minute_view j (store_view (rl_raw st)) else ?C j)" for j
    using spec[OF conjunct2[OF conjunct2[OF r]], of j] unfolding same(1) foldl_Cons .
  moreover have "(if j \<in> set ks then minute_view j (store_view (rl_raw st)) else ?C j) =
      (if j \<in> set (k # ks) then minute_view j (store_view (rl_raw st)) else C j)" for j by simp
  ultimately show ?case by simp
qed simp

lemma admitted:
  assumes "admit_points ps db = Inr qs"
  shows "set qs \<subseteq> set ps" "length qs \<le> length ps" "\<forall>p\<in>set qs. defined_metric db (fst (pp_key p))"
  using assms by (auto simp: admit_points_def defined_metric_def split: if_splits option.splits)

lemma live_write:
  assumes "live now n st" "now \<le> now1" "n + length ps \<le> 2 ^ 32" "list_all timely ps" "write_batch rd ok env now1 now2 ps st = (r, st')"
  shows "live now1 (n + length ps) st'"
proof -
  have idle: "live now1 (n + length ps) st" using live_mono[OF assms(1,2)] by simp
  consider "st' = st"
    | qs raw rebuild where "admit_points ps (rl_db st) = Inr qs" "write_raw_points_at qs now1 (rl_raw st) = (raw, rebuild)"
        "write_prepared ok env now2 (remdups rebuild) qs (st\<lparr>rl_raw := raw\<rparr>) = (r, st')"
    using assms(5) by (cases "admit_points ps (rl_db st)") (auto simp: write_batch_def split: if_splits prod.splits)
  then show ?thesis
  proof cases
    case 2
    obtain l0 C where l: "rollup_wf st" "store_wf l0 n (rl_raw st)" "l0 \<le> now1 - direct_retention_ms" "\<forall>k. stands st k (C k)" "follows now1 (rl_raw st) C"
      using live_mono[OF assms(1,2) order_refl] by (rule liveE)
    note a = admitted[OF 2(1)]
    have tm: "\<forall>p\<in>set qs. timely p" using assms(4) a(1) by (auto simp: list_all_iff)
    have valid: "\<forall>p\<in>set qs. valid_point p" using tm by (auto simp: timely_def valid_point_def in_int64_def)
    have bound: "n + length qs \<le> 2 ^ 32" using assms(3) a(2) by simp
    let ?v = "\<lambda>k t. if t < raw_cutoff now1 then None else store_view (rl_raw st) k t"
    note w = write_raw_at[OF l(2,3) bound valid 2(2)]
    let ?c = "policy_compression (rl_policy st)"
    let ?st1 = "st\<lparr>rl_raw := raw, rl_hot := foldl (hot_add ?c) (rl_hot st) qs\<rparr>"
    let ?C1 = "\<lambda>k. C k + mset (map observe (filter (\<lambda>p. hot_key_of p = k) qs))"
    have keyed: "defined_metric (rl_db st) (key_metric k) \<and> in_range k" if "p \<in> set qs" "fst k = pp_key p" "key_bucket k = bucket_start (pp_time p) minute_ms" for p k
      using that a(3) tm timely_in_range[of p k] by (auto simp: key_metric_def)
    have wf1: "rollup_wf ?st1"
    proof -
      have "defined_metric (rl_db st) (key_metric k) \<and> in_range k" if "k \<in> fst ` set (foldl (hot_add ?c) (rl_hot st) qs)" for k
        using that l(1) keyed[of _ k] hot_adds_keys[of ?c "rl_hot st" qs] by (auto simp: rollup_wf_def hot_key_of_def key_bucket_def)
      then show ?thesis using l(1) hot_adds_keys[of ?c "rl_hot st" qs] by (auto simp: rollup_wf_def)
    qed
    have s1: "stands ?st1 k (?C1 k)" for k
    proof -
      obtain Mr Mh where M: "row_stands (row_at (rl_db st) k) Mr" "hot_stands (map_of (rl_hot st) k) Mh"
          "C k = (if k \<in> set (rl_replace st) then Mh else Mr + Mh)"
        using l(4)[rule_format, of k] unfolding stands_def by blast
      show ?thesis using M(1,3) hot_adds_stands[OF M(2), of ?c qs] unfolding stands_def
        by (intro exI[of _ Mr] exI[of _ "Mh + mset (map observe (filter (\<lambda>p. hot_key_of p = k) qs))"]) (simp add: add.assoc)
    qed
    let ?st2 = "foldl (\<lambda>st k. rebuild_hot k st) ?st1 (remdups rebuild)"
    let ?C2 = "\<lambda>k. if k \<in> set (remdups rebuild) then minute_view k (store_view (rl_raw ?st1)) else ?C1 k"
    have "\<forall>k\<in>set (remdups rebuild). defined_metric (rl_db ?st1) (key_metric k) \<and> in_range k"
      using view_marks_of[of _ "now1 - direct_retention_ms" "raw_cutoff now1" ?v qs] keyed w(3) by fastforce
    note r = rebuilds_stand[OF wf1 _ _ this, of "now1 - direct_retention_ms" "n + length qs" ?C1]
    have r: "rollup_wf ?st2" "rl_raw ?st2 = raw" "\<forall>k. stands ?st2 k (?C2 k)"
      using r w(1) s1 by auto
    have "?C2 k = minute_view k (store_view raw)" if k: "minute_ms dvd key_bucket k" "raw_cutoff now1 \<le> key_bucket k" for k
    proof (cases "k \<in> set rebuild")
      case False
      then have "minute_view k (store_view raw) = minute_view k ?v + mset (map observe (filter (\<lambda>p. hot_key_of p = k) qs))"
        using minute_view_writes[OF _ k, of "now1 - direct_retention_ms" ?v qs] w(2,3) by simp
      then show ?thesis using False l(5) k by (simp add: follows_def minute_view_prune)
    qed simp
    then have "live now1 (n + length ps) ?st2"
      using r w(1) a(2) store_wf_mono[OF w(1), of "n + length ps"]
      by (intro liveI[of ?st2 "now1 - direct_retention_ms" "n + length ps" now1 ?C2]) (simp_all add: follows_def)
    note st2 = this
    obtain f st3 where f: "flush_closed_hot ok now2 ?st2 = (f, st3)" by fastforce
    have st3: "live now1 (n + length ps) st3" using live_flush(1)[OF st2 f[unfolded flush_closed_hot_def]] .
    obtain g st4 where g: "flush_coarse env 0 now2 st3 = (g, st4)" by fastforce
    have "live now1 (n + length ps) st4" using live_coarse[OF st3 g] .
    moreover have "st' = st3 \<or> st' = st4" using 2(3) f g by (auto simp: write_prepared_def Let_def split: sum.splits)
    ultimately show ?thesis using st3 by blast
  qed (use idle in simp)
qed

section \<open>Deletions\<close>

lemma key_filter_db: "map_of (filter (\<lambda>((k, r), row). P k) xs) (k, r) = (if P k then map_of xs (k, r) else None)"
  by (induction xs) auto

lemma live_delete:
  assumes "live now n st"
    "\<And>m. defined_metric (rl_db st) m \<Longrightarrow> \<not> (entity = [] \<and> m = metric) \<Longrightarrow> map_of ds m = map_of (db_defs (rl_db st)) m"
  shows "live now n (delete_memory metric entity (st\<lparr>rl_db := (delete_rows metric entity (rl_db st))\<lparr>db_defs := ds\<rparr>\<rparr>))"
proof -
  obtain l0 C where l: "rollup_wf st" "store_wf l0 n (rl_raw st)" "l0 \<le> now - direct_retention_ms" "\<forall>k. stands st k (C k)" "follows now (rl_raw st) C"
    using assms(1) by (rule liveE)
  let ?m = "matches metric entity" and ?raw = "delete_raw_points (\<lambda>_. True) metric entity (rl_raw st)"
  let ?st = "delete_memory metric entity (st\<lparr>rl_db := (delete_rows metric entity (rl_db st))\<lparr>db_defs := ds\<rparr>\<rparr>)"
  have sel: "rl_raw ?st = ?raw" "rl_hot ?st = filter (\<lambda>(k, b). \<not> ?m k) (rl_hot st)" "rl_policy ?st = rl_policy st"
      "rl_replace ?st = filter (\<lambda>k. \<not> (?m k \<and> map_of (rl_hot st) k \<noteq> None)) (rl_replace st)"
      "rl_coarse ?st = filter (\<lambda>(ck, pa). \<not> ?m (fst ck)) (rl_coarse st)" "db_defs (rl_db ?st) = ds"
      "db_rows (rl_db ?st) = filter (\<lambda>((k, r), row). \<not> ?m k) (db_rows (rl_db st))"
    by (simp_all add: delete_memory_def delete_coarse_def delete_hot_def delete_rows_def)
  have raw: "?raw (fst k) = (if ?m k then None else rl_raw st (fst k))" for k
    by (auto simp: delete_raw_points_def matches_def key_metric_def split: option.split)
  have "store_wf l0 n ?raw"
    using store_wfD[OF l(2)] by (intro store_wfI) (auto simp: delete_raw_points_def split: option.splits if_splits)
  moreover have "rollup_wf ?st"
  proof -
    have "defined_metric (rl_db ?st) (key_metric k) \<and> in_range k" if k: "k \<in> fst ` set (rl_hot ?st)" for k
    proof -
      have old: "defined_metric (rl_db st) (key_metric k)" "in_range k" "\<not> ?m k"
        using k l(1) unfolding sel(2) keys_filter[of "\<lambda>k. \<not> ?m k"] by (auto simp: rollup_wf_def)
      then have "map_of ds (key_metric k) = map_of (db_defs (rl_db st)) (key_metric k)"
        by (intro assms(2)) (auto simp: matches_def)
      then show ?thesis using old by (simp add: defined_metric_def sel(6))
    qed
    moreover have "set (rl_replace ?st) \<subseteq> fst ` set (rl_hot ?st)"
      using l(1) unfolding sel(2,4) keys_filter[of "\<lambda>k. \<not> ?m k"] by (auto simp: rollup_wf_def dom_keys)
    moreover have "coarse_above (rl_coarse ?st)" using l(1) by (auto simp: rollup_wf_def coarse_above_def sel(5))
    ultimately show ?thesis using l(1) distinct_filter_keys[of "rl_hot st"] by (simp add: rollup_wf_def sel(2,3))
  qed
  moreover have "stands ?st k (if ?m k then {#} else C k)" for k
  proof -
    have parts: "row_at (rl_db ?st) k = (if ?m k then None else row_at (rl_db st) k)"
        "map_of (rl_hot ?st) k = (if ?m k then None else map_of (rl_hot st) k)"
      unfolding row_at_def sel(2,7) key_filter_db[of "\<lambda>k. \<not> ?m k"] map_of_filter_key[of "\<lambda>k. \<not> ?m k"] by auto
    show ?thesis
    proof (cases "?m k")
      case True
      then show ?thesis using parts unfolding stands_def
        by (intro exI[of _ "{#}"]) (simp add: row_stands_def hot_stands_def)
    next
      case False
      then show ?thesis using l(4)[rule_format, of k] parts by (simp add: stands_def sel(4))
    qed
  qed
  moreover have "follows now ?raw (\<lambda>k. if ?m k then {#} else C k)"
  proof -
    have "minute_view k (store_view ?raw) = (if ?m k then {#} else minute_view k (store_view (rl_raw st)))" for k
    proof (cases "?m k")
      case True
      then show ?thesis by (simp add: raw store_view_def minute_view_none)
    next
      case False
      then have "minute_view k (store_view ?raw) = minute_view k (store_view (rl_raw st))"
        by (intro minute_view_same) (simp add: raw store_view_def)
      then show ?thesis using False by simp
    qed
    then show ?thesis using l(5) by (simp add: follows_def)
  qed
  ultimately show ?thesis using l(3) by (intro liveI[of ?st l0 n now]) (simp_all add: sel(1))
qed

section \<open>Histories\<close>

datatype store_op =
    Write bool bool "nat \<Rightarrow> bool \<times> bool" int int "prepared_point list"
  | Flush bool int
  | Seal "nat \<Rightarrow> bool \<times> bool" int
  | Drop_Metric bool go_string
  | Drop_Entity bool go_string

fun store_step :: "rollup_store \<Rightarrow> store_op \<Rightarrow> rollup_store" where
  "store_step st (Write rd ok env now1 now2 ps) = snd (write_batch rd ok env now1 now2 ps st)"
| "store_step st (Flush ok now) = snd (flush_store ok now st)"
| "store_step st (Seal env now) = snd (flush_coarse env 0 now st)"
| "store_step st (Drop_Metric ok name) = snd (delete_metric ok name st)"
| "store_step st (Drop_Entity ok entity) = snd (delete_entity ok entity st)"

text \<open>The raw window is cut by the clock of its own operation; the clock does not go back.\<close>

fun clock :: "int \<Rightarrow> store_op \<Rightarrow> int" where
  "clock now (Write rd ok env now1 now2 ps) = now1"
| "clock now (Flush ok now1) = now1"
| "clock now _ = now"

fun written :: "store_op \<Rightarrow> prepared_point list" where
  "written (Write rd ok env now1 now2 ps) = ps"
| "written _ = []"

fun in_time :: "int \<Rightarrow> store_op list \<Rightarrow> bool" where
  "in_time now [] \<longleftrightarrow> True"
| "in_time now (e # es) \<longleftrightarrow> now \<le> clock now e \<and> list_all timely (written e) \<and> in_time (clock now e) es"

lemma live_step:
  assumes "live now n st" "now \<le> clock now e" "list_all timely (written e)" "n + length (written e) \<le> 2 ^ 32"
  shows "live (clock now e) (n + length (written e)) (store_step st e)"
proof (cases e)
  case (Write rd ok env now1 now2 ps)
  then show ?thesis using live_write[OF assms(1), of now1 ps rd ok env now2] assms(2-) by (cases "write_batch rd ok env now1 now2 ps st") auto
next
  case (Flush ok now1)
  have "live now1 n st" using live_mono[OF assms(1), of now1 n] assms(2) Flush by simp
  from live_trim(1)[OF this] have "live now1 n (st\<lparr>rl_raw := trim_raw_window now1 (rl_raw st)\<rparr>)" .
  from live_flush(1)[OF this] show ?thesis
    using Flush by (cases "flush_store ok now1 st") (simp add: flush_store_def flush_closed_hot_def)
next
  case (Seal env now1)
  then show ?thesis using live_coarse[OF assms(1), of env 0 now1] by (cases "flush_coarse env 0 now1 st") simp
next
  case (Drop_Metric ok name)
  have "live now n (delete_memory name [] (st\<lparr>rl_db := (delete_rows name [] (rl_db st))\<lparr>db_defs := AList.delete name (db_defs (rl_db st))\<rparr>\<rparr>))"
    by (rule live_delete[OF assms(1)]) (simp add: delete_conv')
  moreover have "db_defs (delete_rows name [] (rl_db st)) = db_defs (rl_db st)" by (simp add: delete_rows_def)
  ultimately show ?thesis using Drop_Metric assms(1) by (simp add: delete_metric_def Let_def)
next
  case (Drop_Entity ok entity)
  have "live now n (delete_memory [] entity (st\<lparr>rl_db := (delete_rows [] entity (rl_db st))\<lparr>db_defs := db_defs (rl_db st)\<rparr>\<rparr>))"
    by (rule live_delete[OF assms(1)]) simp
  moreover have "(delete_rows [] entity (rl_db st))\<lparr>db_defs := db_defs (rl_db st)\<rparr> = delete_rows [] entity (rl_db st)" by (simp add: delete_rows_def)
  ultimately show ?thesis using Drop_Entity assms(1) by (simp add: delete_entity_def)
qed

lemma live_run:
  assumes "live now n st" "in_time now es" "n + length (concat (map written es)) \<le> 2 ^ 32"
  shows "live (foldl clock now es) (n + length (concat (map written es))) (foldl store_step st es)"
  using assms
proof (induction es arbitrary: now n st)
  case (Cons e es)
  have "live (clock now e) (n + length (written e)) (store_step st e)" using live_step[OF Cons.prems(1), of e] Cons.prems(2,3) by simp
  from Cons.IH[OF this] Cons.prems(2,3) show ?case by (simp add: add.assoc)
qed simp

lemma live_open:
  assumes "validate_policy p = None" "po_tiers p \<noteq> []" "db_rows db = []"
  shows "live now 0 (open_store p db)"
proof -
  have "stands (open_store p db) k {#}" for k using assms(3)
    unfolding stands_def by (intro exI[of _ "{#}"]) (simp add: open_store_def row_at_def row_stands_def hot_stands_def)
  moreover have "rollup_wf (open_store p db)" using assms by (simp add: rollup_wf_def open_store_def minute_first_def coarse_above_def)
  moreover have "store_wf (now - direct_retention_ms) 0 (rl_raw (open_store p db))" by (simp add: open_store_def store_wf_def)
  moreover have "follows now (rl_raw (open_store p db)) (\<lambda>_. {#})" by (simp add: follows_def open_store_def store_view_def minute_view_none)
  ultimately show ?thesis by (intro liveI[of "open_store p db" "now - direct_retention_ms" 0 now "\<lambda>_. {#}"]) simp_all
qed

text \<open>
  C8: the minutes follow the recent samples.  After any history of batches, flushes, seals and deletions, with a
  database that fails wherever it likes, with points that come late, twice, with new values or other labels, a
  flush that reaches the database succeeds, and then the row of every closed minute that began within the raw window has
  exactly the count, the sums, the extremes, the last value and the digest of the samples the window holds
  for that minute: no point is lost, none is counted twice, and a corrected one has its last value.
\<close>

theorem minutes_follow_raw:
  assumes "validate_policy p = None" "po_tiers p \<noteq> []" "db_rows db = []"
    and "in_time now es" "length (concat (map written es)) \<le> 2 ^ 32" "foldl clock now es \<le> t"
    and "flush_store True t (foldl store_step (open_store p db) es) = (r, st)"
    and "minute_ms dvd key_bucket k" "raw_cutoff t \<le> key_bucket k" "key_bucket k < bucket_start t minute_ms"
  shows "(\<exists>n. r = Inr n) \<and> row_stands (row_at (rl_db st) k) (minute_view k (store_view (rl_raw st)))"
proof -
  have "live (foldl clock now es) (length (concat (map written es))) (foldl store_step (open_store p db) es)" (is "live _ ?n ?st")
    using live_run[OF live_open[OF assms(1-3)], of now es] assms(4,5) by simp
  from live_trim(1)[OF live_mono[OF this assms(6) order_refl]]
  obtain l0 C where l: "rollup_wf (?st\<lparr>rl_raw := trim_raw_window t (rl_raw ?st)\<rparr>)"
      "\<forall>k. stands (?st\<lparr>rl_raw := trim_raw_window t (rl_raw ?st)\<rparr>) k (C k)" "follows t (trim_raw_window t (rl_raw ?st)) C"
    by (auto elim: liveE)
  note f = flush_items_wf[OF l(1,2) assms(7)[unfolded flush_store_def flush_closed_hot_def]]
  have "map_of (rl_hot st) k = None" using f(7) assms(10) by (auto simp: dom_keys)
  moreover have "k \<notin> set (rl_replace st)" using f(1) calculation by (auto simp: rollup_wf_def dom_keys)
  ultimately have "row_stands (row_at (rl_db st) k) (C k)"
    using f(2)[rule_format, of k] by (auto simp: stands_def hot_stands_def)
  moreover have "C k = minute_view k (store_view (rl_raw st))" using l(3) assms(8,9) f(5) by (simp add: follows_def)
  ultimately show ?thesis using f(6) by simp
qed

theorem minutes_follow_raw_witness:
  "let p = (\<lambda>t v. \<lparr>pp_key = (''cpu'', ''a'', ''x''), pp_tags = [], pp_labels_hash = ''l'', pp_labels = [], pp_time = t, pp_value = v\<rparr>);
       es = [Write True True (\<lambda>_. (True, True)) 3 3 [p 1 4607182418800017408, p 2 4607182418800017408],
             Write True False (\<lambda>_. (True, True)) 4 4 [p 2 4611686018427387904]];
       k = ((''cpu'', ''a'', ''x''), ''l'', 0);
       (r, st) = flush_store True 60000 (foldl store_step (open_store default_policy \<lparr>db_rows = [], db_series = [], db_labels = [], db_defs = [(''cpu'', 30)]\<rparr>) es)
   in (\<exists>n. r = Inr n) \<and> row_stands (row_at (rl_db st) k) (minute_view k (store_view (rl_raw st))) \<and>
      map_option (\<lambda>w. (su_count (sr_sums w), su_sum (sr_sums w))) (row_at (rl_db st) k) = Some (2, 3)"
proof -
  let ?p = "\<lambda>t v. \<lparr>pp_key = (''cpu'', ''a'', ''x''), pp_tags = [], pp_labels_hash = ''l'', pp_labels = [], pp_time = t, pp_value = v\<rparr>"
  let ?es = "[Write True True (\<lambda>_. (True, True)) 3 3 [?p 1 4607182418800017408, ?p 2 4607182418800017408],
      Write True False (\<lambda>_. (True, True)) 4 4 [?p 2 4611686018427387904]]"
  let ?db = "\<lparr>db_rows = [], db_series = [], db_labels = [], db_defs = [(''cpu'', 30)]\<rparr>" and ?k = "((''cpu'', ''a'', ''x''), ''l'', 0)"
  obtain r st where run: "flush_store True 60000 (foldl store_step (open_store default_policy ?db) ?es) = (r, st)" by fastforce
  have "in_time 0 ?es" by code_simp
  moreover have "length (concat (map written ?es)) \<le> 2 ^ 32" "foldl clock 0 ?es \<le> 60000" by simp_all
  moreover have "minute_ms dvd key_bucket ?k" "raw_cutoff 60000 \<le> key_bucket ?k" "key_bucket ?k < bucket_start 60000 minute_ms" by code_simp+
  ultimately have "(\<exists>n. r = Inr n) \<and> row_stands (row_at (rl_db st) ?k) (minute_view ?k (store_view (rl_raw st)))"
    using minutes_follow_raw[OF default_policy_valid _ _ _ _ run, of 0 ?k] by simp
  moreover have "map_option (\<lambda>w. (su_count (sr_sums w), su_sum (sr_sums w)))
      (row_at (rl_db (snd (flush_store True 60000 (foldl store_step (open_store default_policy ?db) ?es)))) ?k) = Some (2, 3)" by code_simp
  ultimately show ?thesis using run by simp
qed

section \<open>Where the rows fall short\<close>

text \<open>The rows of a series in a concrete run: start, resolution and number of samples.\<close>

definition counts :: "rollup_store \<Rightarrow> (int \<times> int \<times> int) list" where
  "counts st = map (\<lambda>((k, r), row). (key_bucket k, r, su_count (sr_sums row))) (db_rows (rl_db st))"

definition sample_point :: "int \<Rightarrow> prepared_point" where
  "sample_point t = \<lparr>pp_key = (''cpu'', ''a'', ''x''), pp_tags = [], pp_labels_hash = ''l'', pp_labels = [], pp_time = t, pp_value = 0\<rparr>"

definition fresh_store :: rollup_store where
  "fresh_store = open_store default_policy \<lparr>db_rows = [], db_series = [], db_labels = [], db_defs = [(''cpu'', 30)]\<rparr>"

text \<open>
  A point that reaches an already flushed minute less than a minute late is added to the row of the minute, but
  the parent is given the bucket of the late point alone in place of the whole minute: of three samples one is left.
\<close>

theorem late_point_shrinks_parent:
  "counts (foldl store_step fresh_store [Write True True (\<lambda>_. (True, True)) 3 3 [sample_point 1, sample_point 2],
       Flush True 60000, Write True True (\<lambda>_. (True, True)) 60001 60001 [sample_point 5], Seal (\<lambda>_. (True, True)) 900000]) =
     [(0, 60000, 3), (0, 300000, 1)]"
  by code_simp

text \<open>
  After a restart a point that comes more than a minute late has its minute summed up from memory, which has
  no sample from before the restart, and the stored row is replaced: of three samples one is left.
\<close>

theorem restart_forgets_minute:
  "let st = foldl store_step fresh_store [Write True True (\<lambda>_. (True, True)) 3 3 [sample_point 1, sample_point 2], Flush True 60000];
       again = open_store default_policy (rl_db (close_store True 60005 st))
   in counts again = [(0, 60000, 2)] \<and>
      counts (store_step again (Write True True (\<lambda>_. (True, True)) 60010 60010 [sample_point 5])) = [(0, 60000, 1)]"
  by code_simp

text \<open>
  A minute that could not be flushed until its parent was over by ten minutes is left out of the parent, which
  was never sealed: the coarse tier has no row at all.
\<close>

theorem outage_skips_parent:
  "counts (foldl store_step fresh_store [Write True True (\<lambda>_. (True, True)) 3 3 [sample_point 1], Flush False 60000,
       Flush True 900000, Seal (\<lambda>_. (True, True)) 900000]) = [(0, 60000, 1)]"
  by code_simp

end
