(* ===== verification/Metric_Admin.thy ===== *)
theory Metric_Admin
  imports Rollup_Writes
begin

text \<open>
  The definitions of metrics, the operations of \<^verbatim>\<open>pkg/metric/store.go\<close> that create and change them, the handler
  \<^verbatim>\<open>web/rpc/jsonrpc/admin.metric.go\<close> that sets a retention and the deletions it starts in the background
  (\<^verbatim>\<open>internal/metricstore/deletion.go\<close>).  Of a definition the model keeps what decides something: its name, its type
  and its days of retention.
\<close>

section \<open>Definitions\<close>

record metric_definition =
  md_name :: go_string
  md_type :: go_string
  md_days :: int

definition with_defaults :: "metric_definition \<Rightarrow> metric_definition" where
  "with_defaults d = (if md_type d = [] then d\<lparr>md_type := ''gauge''\<rparr> else d)"

definition validate_definition :: "metric_definition \<Rightarrow> rollup_error option" where
  "validate_definition d =
     (if trim_space (md_name d) = [] then Some InvalidArgument
      else if md_type d \<notin> set ['''', ''gauge'', ''counter'', ''histogram'', ''summary''] then Some InvalidArgument
      else if md_days d < 0 then Some InvalidArgument
      else None)"

definition put_days :: "go_string \<Rightarrow> int \<Rightarrow> rollup_store \<Rightarrow> rollup_store" where
  "put_days name days st = st\<lparr>rl_db := (rl_db st)\<lparr>db_defs := AList.update name days (db_defs (rl_db st))\<rparr>\<rparr>"

text \<open>\<open>rd\<close>: the database answers a query; \<open>ok\<close>: it runs a statement or a transaction.\<close>

definition get_metric :: "bool \<Rightarrow> go_string \<Rightarrow> rollup_store \<Rightarrow> rollup_error + int" where
  "get_metric rd name st =
     (if trim_space name = [] then Inl InvalidArgument
      else if \<not> rd then Inl DbFailed
      else case map_of (db_defs (rl_db st)) name of None \<Rightarrow> Inl NoDefinition | Some days \<Rightarrow> Inr days)"

definition create_metric :: "bool \<Rightarrow> bool \<Rightarrow> metric_definition \<Rightarrow> rollup_store \<Rightarrow> rollup_error option \<times> rollup_store" where
  "create_metric rd ok d0 st =
     (let d = with_defaults d0 in
      case validate_definition d of
        Some e \<Rightarrow> (Some e, st)
      | None \<Rightarrow> (case get_metric rd (md_name d) st of
            Inr _ \<Rightarrow> (Some AlreadyExists, st)
          | Inl e \<Rightarrow> if e \<noteq> NoDefinition then (Some e, st)
                     else if \<not> ok then (Some DbFailed, st)
                     else (None, put_days (md_name d) (md_days d) st)))"

text \<open>Deletion of a series without a filter on tags.  The rows look at the blanks of an entity, the memory does not.\<close>

definition delete_series_rows :: "bool \<Rightarrow> go_string \<Rightarrow> go_string \<Rightarrow> rollup_store \<Rightarrow> rollup_error option \<times> rollup_store" where
  "delete_series_rows ok metric entity st =
     (if \<not> ok then (Some DbFailed, st)
      else (None, delete_memory metric entity
        (st\<lparr>rl_db := (let e = (if trim_space entity \<noteq> [] then entity else []) in
            (rl_db st)\<lparr>db_rows := filter (\<lambda>((k, r), row). \<not> (key_metric k = metric \<and> (e = [] \<or> fst (snd (fst k)) = e))) (db_rows (rl_db st))\<rparr>)\<rparr>)))"

definition delete_series :: "bool \<Rightarrow> go_string \<Rightarrow> go_string \<Rightarrow> rollup_store \<Rightarrow> rollup_error option \<times> rollup_store" where
  "delete_series ok metric entity st =
     (if trim_space metric = [] then (Some InvalidArgument, st) else delete_series_rows ok metric entity st)"

definition upsert_metric :: "bool \<Rightarrow> bool \<Rightarrow> metric_definition \<Rightarrow> rollup_store \<Rightarrow> rollup_error option \<times> rollup_store" where
  "upsert_metric ok del d0 st =
     (let d = with_defaults d0 in
      case validate_definition d of
        Some e \<Rightarrow> (Some e, st)
      | None \<Rightarrow>
          if \<not> ok then (Some DbFailed, st)
          else let st1 = put_days (md_name d) (md_days d) st in
            if md_days d \<noteq> 0 then (None, st1) else delete_series_rows del (md_name d) [] st1)"

section \<open>Retention\<close>

text \<open>The new definition is read again after it was committed; that this fails is not a reason to undo it.\<close>

definition update_metric_retention ::
  "bool \<Rightarrow> bool \<Rightarrow> go_string \<Rightarrow> int \<Rightarrow> rollup_store \<Rightarrow> (rollup_error + int) \<times> rollup_store" where
  "update_metric_retention ok rd name0 days st =
     (let name = trim_space name0 in
      if name = [] \<or> days < 0 then (Inl InvalidArgument, st)
      else if \<not> ok then (Inl DbFailed, st)
      else if map_of (db_defs (rl_db st)) name = None then (Inl NoDefinition, st)
      else let st1 = put_days name days st in (get_metric rd name st1, st1))"

definition set_metric_retention ::
  "bool \<Rightarrow> bool \<Rightarrow> go_string \<Rightarrow> int \<Rightarrow> rollup_store \<Rightarrow> (rollup_error + int) \<times> rollup_store" where
  "set_metric_retention ok rd name0 days st =
     (let name = trim_space name0 in
      if name = [] \<or> days < 0 then (Inl InvalidArgument, st)
      else if \<not> ok then (Inl DbFailed, st)
      else if map_of (db_defs (rl_db st)) name = None then (Inl NoDefinition, st)
      else let st1 = put_days name days st;
               st2 = (if days = 0 then delete_memory name [] (st1\<lparr>rl_db := delete_rows name [] (rl_db st1)\<rparr>) else st1)
           in (get_metric rd name st2, st2))"

definition delete_metric_data_if_disabled :: "bool \<Rightarrow> go_string \<Rightarrow> rollup_store \<Rightarrow> (rollup_error + bool) \<times> rollup_store" where
  "delete_metric_data_if_disabled ok name0 st =
     (let name = trim_space name0 in
      if name = [] then (Inl InvalidArgument, st)
      else if \<not> ok then (Inl DbFailed, st)
      else case map_of (db_defs (rl_db st)) name of
          None \<Rightarrow> (Inl NoDefinition, st)
        | Some days \<Rightarrow>
            if days \<noteq> 0 then (Inr False, st)
            else (Inr True, delete_memory name [] (st\<lparr>rl_db := delete_rows name [] (rl_db st)\<rparr>)))"

section \<open>The handler and its background deletions\<close>

record admin_store =
  as_store :: rollup_store
  as_pending :: "go_string list"

datatype admin_answer = InvalidParams | InternalError | Updated int

definition admin_update_metric_definition ::
  "bool \<Rightarrow> bool \<Rightarrow> go_string \<Rightarrow> int \<Rightarrow> admin_store \<Rightarrow> admin_answer \<times> admin_store" where
  "admin_update_metric_definition ok rd name0 days a =
     (let name = trim_space name0 in
      if name = [] then (InvalidParams, a)
      else if days < 0 then (InvalidParams, a)
      else (case update_metric_retention ok rd name days (as_store a) of
          (Inl e, st) \<Rightarrow> (if e = NoDefinition then InvalidParams else InternalError, a\<lparr>as_store := st\<rparr>)
        | (Inr d, st) \<Rightarrow> (Updated d, \<lparr>as_store = st, as_pending = (if days = 0 then name # as_pending a else as_pending a)\<rparr>)))"

text \<open>One of the deletions in the background runs, whichever the scheduler takes.\<close>

definition run_deletion :: "bool \<Rightarrow> nat \<Rightarrow> admin_store \<Rightarrow> admin_store" where
  "run_deletion ok i a =
     (if i < length (as_pending a)
      then \<lparr>as_store = snd (delete_metric_data_if_disabled ok (as_pending a ! i) (as_store a)),
             as_pending = take i (as_pending a) @ drop (i + 1) (as_pending a)\<rparr>
      else a)"

datatype admin_op =
    Use store_op
  | Create bool bool metric_definition
  | Upsert bool bool metric_definition
  | Update bool bool go_string int
  | Set bool bool go_string int
  | Delete_Series bool go_string go_string
  | Run_Deletion bool nat

fun admin_step :: "admin_store \<Rightarrow> admin_op \<Rightarrow> admin_store" where
  "admin_step a (Use e) = a\<lparr>as_store := store_step (as_store a) e\<rparr>"
| "admin_step a (Create rd ok d) = a\<lparr>as_store := snd (create_metric rd ok d (as_store a))\<rparr>"
| "admin_step a (Upsert ok del d) = a\<lparr>as_store := snd (upsert_metric ok del d (as_store a))\<rparr>"
| "admin_step a (Update ok rd name days) = snd (admin_update_metric_definition ok rd name days a)"
| "admin_step a (Set ok rd name days) = a\<lparr>as_store := snd (set_metric_retention ok rd name days (as_store a))\<rparr>"
| "admin_step a (Delete_Series ok metric entity) = a\<lparr>as_store := snd (delete_series ok metric entity (as_store a))\<rparr>"
| "admin_step a (Run_Deletion ok i) = run_deletion ok i a"

section \<open>A metric that has nothing\<close>

definition free_rows :: "go_string \<Rightarrow> database \<Rightarrow> bool" where
  "free_rows name db \<longleftrightarrow> (\<forall>x\<in>set (db_rows db). key_metric (fst (fst x)) \<noteq> name)"

definition free_coarse :: "go_string \<Rightarrow> (coarse_key \<times> coarse) list \<Rightarrow> bool" where
  "free_coarse name cs \<longleftrightarrow> (\<forall>x\<in>set cs. key_metric (fst (fst x)) \<noteq> name)"

definition free_keys :: "go_string \<Rightarrow> (hot_key \<times> 'a) list \<Rightarrow> bool" where
  "free_keys name kbs \<longleftrightarrow> (\<forall>x\<in>set kbs. key_metric (fst x) \<noteq> name)"

definition free_raw :: "go_string \<Rightarrow> raw_store \<Rightarrow> bool" where
  "free_raw name raw \<longleftrightarrow> (\<forall>k. fst k = name \<longrightarrow> raw k = None)"

definition free_of :: "go_string \<Rightarrow> rollup_store \<Rightarrow> bool" where
  "free_of name st \<longleftrightarrow> free_rows name (rl_db st) \<and> free_keys name (rl_hot st) \<and> free_coarse name (rl_coarse st) \<and>
     free_raw name (rl_raw st)"

lemma set_update: "set (AList.update k v xs) \<subseteq> insert (k, v) (set xs)"
  by (induction xs) auto

lemma set_delete: "set (AList.delete k xs) \<subseteq> set xs"
  by (auto simp: AList.delete_eq)

lemma free_keys_update: "free_keys name xs \<Longrightarrow> key_metric k \<noteq> name \<Longrightarrow> free_keys name (AList.update k v xs)"
  unfolding free_keys_def using subsetD[OF set_update[of k v xs]] by fastforce

lemma free_coarse_update: "free_coarse name cs \<Longrightarrow> key_metric (fst ck) \<noteq> name \<Longrightarrow> free_coarse name (AList.update ck v cs)"
  unfolding free_coarse_def using subsetD[OF set_update[of ck v cs]] by fastforce

lemma free_upsert: "free_rows name db \<Longrightarrow> key_metric k \<noteq> name \<Longrightarrow> free_rows name (upsert_row k i b db)"
  using set_update[of "(k, interval_ms i)" _ "db_rows db"] by (fastforce simp: free_rows_def upsert_row_def)

lemma free_delete_row: "free_rows name db \<Longrightarrow> free_rows name (delete_row k i db)"
  using set_delete[of "(k, interval_ms i)" "db_rows db"] by (auto simp: free_rows_def delete_row_def)

lemma free_merge: "merge_rows c i kbs db = Inr db' \<Longrightarrow> free_keys name kbs \<Longrightarrow> free_rows name db \<Longrightarrow> free_rows name db'"
proof (induction c i kbs db rule: merge_rows.induct)
  case (2 c i k b kbs db)
  let ?k = "with_bucket (normalize_bucket_ms (key_bucket k)) k"
  obtain old where old: "read_row c ?k i db = Inr old" using "2.prems"(1) by (auto simp: Let_def split: sum.splits)
  show ?case
    using "2.IH"[OF refl old] "2.prems" old free_upsert[of name db ?k] by (auto simp: Let_def free_keys_def split: option.splits)
qed simp

lemma free_replace:
  assumes "free_keys name kbs" "free_rows name db"
  shows "free_rows name (replace_minutes p kbs db)"
proof (cases "po_tiers p")
  case (Cons t ts)
  have "free_rows name (foldl (\<lambda>db (k, b). if su_count (bk_sums b) = 0 then delete_row k i db else upsert_row k i b db) db kbs)" for i
    using assms
  proof (induction kbs arbitrary: db)
    case (Cons kb kbs)
    then show ?case using free_upsert free_delete_row by (cases kb) (simp add: free_keys_def)
  qed simp
  then show ?thesis by (simp add: replace_minutes_def Cons)
qed (use assms in \<open>simp add: replace_minutes_def\<close>)

lemma free_write_names:
  assumes "\<forall>it\<in>set items. key_metric (hi_key it) \<noteq> name"
  shows "write_names p items ns db = Inr db' \<Longrightarrow> free_rows name db \<Longrightarrow> free_rows name db'"
proof (induction ns arbitrary: db)
  case (Cons n ns)
  have f: "free_keys name (items_of r n items)" for r using assms by (auto simp: free_keys_def items_of_def)
  obtain pol db1 where s: "metric_policy_tx p n db = Inr pol" "write_cascade (policy_compression p) pol (items_of False n items) db = Inr db1"
      "write_names p items ns (replace_minutes pol (items_of True n items) db1) = Inr db'"
    using Cons.prems(1) by (auto split: sum.splits)
  have "free_rows name db1" using s(2) free_merge[OF _ f Cons.prems(2)] Cons.prems(2) by (auto simp: write_cascade_def split: list.splits)
  then show ?case using Cons.IH[OF s(3)] free_replace[OF f] by blast
qed simp

lemma free_add_child:
  assumes "free_coarse name cs" "key_metric (fst kb) \<noteq> name"
  shows "free_coarse name (add_child i is cs kb)"
proof -
  obtain k b where kb: "kb = (k, b)" by fastforce
  let ?pk = "(with_bucket (bucket_start (key_bucket k) (interval_ms i)) k, i)"
  have "free_coarse name (AList.update ?pk v cs)" for v using assms by (intro free_coarse_update) (simp_all add: kb)
  moreover have "free_coarse name (AList.delete ?pk cs)" using assms(1) set_delete[of ?pk cs] by (auto simp: free_coarse_def)
  ultimately show ?thesis using assms(1) by (auto simp: add_child_def kb Let_def split: option.splits)
qed

text \<open>An operation that leaves what is free of a metric free of it, and the definitions as they are.\<close>

definition keeps_free :: "go_string \<Rightarrow> rollup_store \<Rightarrow> rollup_store \<Rightarrow> bool" where
  "keeps_free name st st' \<longleftrightarrow> (free_of name st \<longrightarrow> free_of name st') \<and> db_defs (rl_db st') = db_defs (rl_db st)"

lemma keeps_refl [simp]: "keeps_free name st st"
  by (simp add: keeps_free_def)

lemma keeps_trans: "keeps_free name st st1 \<Longrightarrow> keeps_free name st1 st2 \<Longrightarrow> keeps_free name st st2"
  by (simp add: keeps_free_def)

lemma free_children: "free_keys name kbs \<Longrightarrow> keeps_free name st (add_coarse_children i is kbs st)"
proof -
  have "free_keys name kbs \<Longrightarrow> free_coarse name cs \<Longrightarrow> free_coarse name (foldl (add_child i is) cs kbs)" for cs
    by (induction kbs arbitrary: cs) (simp_all add: free_add_child free_keys_def)
  then show "free_keys name kbs \<Longrightarrow> keeps_free name st (add_coarse_children i is kbs st)"
    by (simp add: add_coarse_children_def keeps_free_def free_of_def)
qed

lemma free_parents: "free_keys name kbs \<Longrightarrow> keeps_free name st (add_minute_parents p kbs now st)"
  using free_children[of name "filter (\<lambda>(k, b). P k) kbs" for P]
  by (auto simp: add_minute_parents_def Let_def free_keys_def split: list.split)

lemma defs_merge: "merge_rows c i kbs db = Inr db' \<Longrightarrow> db_defs db' = db_defs db"
proof (induction c i kbs db rule: merge_rows.induct)
  case (2 c i k b kbs db)
  then show ?case by (auto simp: Let_def upsert_row_at(2) split: sum.splits option.splits)
qed simp

lemma defs_replace: "db_defs (replace_minutes p kbs db) = db_defs db"
proof (cases "po_tiers p")
  case (Cons t ts)
  have "db_defs (foldl (\<lambda>db (k, b). if su_count (bk_sums b) = 0 then delete_row k i db else upsert_row k i b db) db kbs) = db_defs db" for i
    by (induction kbs arbitrary: db) (auto simp: upsert_row_at(2) delete_row_at(2))
  then show ?thesis by (simp add: replace_minutes_def Cons)
qed (simp add: replace_minutes_def)

lemma defs_write_names: "write_names p items ns db = Inr db' \<Longrightarrow> db_defs db' = db_defs db"
proof (induction ns arbitrary: db)
  case (Cons n ns)
  then show ?case by (auto simp: write_cascade_def defs_replace defs_merge split: sum.splits list.splits)
qed simp

lemma keeps_fold:
  assumes "\<And>st x. x \<in> set xs \<Longrightarrow> keeps_free name st (f st x)"
  shows "keeps_free name st (foldl f st xs)"
  using assms
proof (induction xs arbitrary: st)
  case (Cons x xs)
  have "keeps_free name st (f st x)" by (rule Cons.prems) simp
  moreover have "keeps_free name (f st x) (foldl f (f st x) xs)" by (rule Cons.IH) (rule Cons.prems, simp)
  ultimately show ?case using keeps_trans by simp
qed simp

lemma keeps_restore: "\<forall>it\<in>set items. key_metric (hi_key it) \<noteq> name \<Longrightarrow> keeps_free name st (restore_hot items st)"
proof -
  have "keeps_free name st (restore_item st it)" if "key_metric (hi_key it) \<noteq> name" for st it
    using that by (auto simp: restore_item_def Let_def keeps_free_def free_of_def free_keys_update split: option.split)
  then show "\<forall>it\<in>set items. key_metric (hi_key it) \<noteq> name \<Longrightarrow> keeps_free name st (restore_hot items st)"
    unfolding restore_hot_def by (intro keeps_fold) blast
qed

lemma keeps_persist:
  assumes "persist_hot ok items now st = Inr st'" "\<forall>it\<in>set items. key_metric (hi_key it) \<noteq> name"
  shows "keeps_free name st st'"
proof -
  obtain db where db: "write_names (rl_policy st) items (names_of items) (rl_db st) = Inr db"
      "st' = foldl (\<lambda>st n. case metric_policy_tx (rl_policy st) n db of Inl _ \<Rightarrow> st
            | Inr pol \<Rightarrow> add_minute_parents pol (items_of False n items @ items_of True n items) now st) (st\<lparr>rl_db := db\<rparr>) (names_of items)"
    using assms(1) by (auto simp: persist_hot_def split: if_splits sum.splits)
  have "free_keys name (items_of False n items @ items_of True n items)" for n
    using assms(2) by (auto simp: free_keys_def items_of_def)
  then have "keeps_free name (st\<lparr>rl_db := db\<rparr>) st'"
    unfolding db(2) by (intro keeps_fold) (auto split: sum.split intro: free_parents)
  moreover have "keeps_free name st (st\<lparr>rl_db := db\<rparr>)"
    using free_write_names[OF assms(2) db(1)] defs_write_names[OF db(1)] by (auto simp: keeps_free_def free_of_def)
  ultimately show ?thesis using keeps_trans by blast
qed

lemma keeps_flush:
  assumes "flush_items ok P now st = (r, st')" "free_of name st"
  shows "keeps_free name st st'"
proof -
  obtain items st1 where t: "take_hot P st = (items, st1)" by fastforce
  have items: "\<forall>it\<in>set items. key_metric (hi_key it) \<noteq> name"
    using take_hot_items(3)[OF t] assms(2) by (force simp: free_of_def free_keys_def)
  have st1: "keeps_free name st st1" using take_hot_items[OF t] by (auto simp: keeps_free_def free_of_def free_keys_def)
  consider "st' = st1" | "st' = restore_hot items st1" | "persist_hot ok items now st1 = Inr st'"
    using assms(1) t by (cases "items = []"; cases "persist_hot ok items now st1") (auto simp: flush_items_def)
  then show ?thesis
    using keeps_restore[OF items] keeps_persist[OF _ items] st1 keeps_trans by cases blast+
qed

definition free_item :: "go_string \<Rightarrow> closed_coarse \<Rightarrow> bool" where
  "free_item name it \<longleftrightarrow> key_metric (fst (cc_key it)) \<noteq> name"

lemma keeps_take_coarse:
  assumes "take_closed_coarse now st = (items, st1)" "free_of name st"
  shows "keeps_free name st st1" "\<forall>it\<in>set items. free_item name it"
proof -
  show "keeps_free name st st1"
    using assms(1) by (auto simp: take_closed_coarse_def keeps_free_def free_of_def free_coarse_def split: option.splits)
  have parent: "cc_key it = fst cp" if "close_parent c cp = Some it" for c it cp
    using that by (cases cp) (auto simp: close_parent_def Let_def split: if_splits)
  have "free_item name it" if it: "it \<in> set (List.map_filter (close_parent c) xs)" "set xs \<subseteq> set (rl_coarse st)" for it c xs
  proof -
    obtain cp where "cp \<in> set (rl_coarse st)" "close_parent c cp = Some it" using it by (auto simp: map_filter_def)
    then show ?thesis using assms(2) parent[of c cp it] by (auto simp: free_item_def free_of_def free_coarse_def)
  qed
  then show "\<forall>it\<in>set items. free_item name it" using assms(1) by (auto simp: take_closed_coarse_def split: option.splits)
qed

lemma keeps_restore_coarse:
  assumes "\<forall>it\<in>set items. free_item name it"
  shows "keeps_free name st (restore_coarse items st)"
  unfolding restore_coarse_def
proof (rule keeps_fold)
  fix st it assume "it \<in> set items"
  then have "key_metric (fst (cc_key it)) \<noteq> name" using assms by (simp add: free_item_def)
  then show "keeps_free name st (if map_of (rl_coarse st) (cc_key it) \<noteq> None then st
       else st\<lparr>rl_coarse := AList.update (cc_key it) \<lparr>co_higher = cc_higher it, co_children = cc_children it\<rparr> (rl_coarse st)\<rparr>)"
    by (auto simp: keeps_free_def free_of_def free_coarse_update)
qed

lemma keeps_write_sealed:
  assumes "\<forall>it\<in>set items. free_item name it"
  shows "keeps_free name st (st\<lparr>rl_db := write_sealed items (rl_db st)\<rparr>)"
proof -
  have "(free_rows name db \<longrightarrow> free_rows name (write_sealed items db)) \<and> db_defs (write_sealed items db) = db_defs db" for db
    using assms by (induction items arbitrary: db) (simp_all add: write_sealed_def free_item_def upsert_row_at(2) free_upsert)
  then show ?thesis by (simp add: keeps_free_def free_of_def)
qed

lemma keeps_raise: "free_item name it \<Longrightarrow> keeps_free name st (raise_parent st it)"
  using free_children[of name "[(fst (cc_key it), cc_bucket it)]"]
  by (auto simp: raise_parent_def free_item_def free_keys_def split: list.split)

lemma keeps_seal: "flush_coarse env i now st = (r, st') \<Longrightarrow> free_of name st \<Longrightarrow> keeps_free name st st'"
proof (induction env i now st arbitrary: r st' rule: flush_coarse.induct)
  case (1 env i now st)
  obtain shut st1 where t: "take_closed_coarse now st = (shut, st1)" by fastforce
  note k = keeps_take_coarse[OF t "1.prems"(2)]
  let ?sealed = "filter (still_wanted st1) shut"
  let ?st2 = "foldl raise_parent (st1\<lparr>rl_db := write_sealed ?sealed (rl_db st1)\<rparr>) ?sealed"
  have sub: "\<forall>it\<in>set ?sealed. free_item name it" using k(2) by simp
  have "keeps_free name (st1\<lparr>rl_db := write_sealed ?sealed (rl_db st1)\<rparr>) ?st2" using sub by (intro keeps_fold keeps_raise) blast
  then have st2: "keeps_free name st1 ?st2" using keeps_write_sealed[OF sub] keeps_trans by blast
  have f: "free_of name st1" "free_of name ?st2" using k(1) st2 "1.prems"(2) by (auto simp: keeps_free_def)
  have run: "flush_coarse env i now st =
      (if shut = [] then (Inr 0, st1)
       else if \<not> fst (env i) then (Inl DbFailed, restore_coarse shut st1)
       else if ?sealed = [] then flush_coarse env (i + 1) now st1
       else if \<not> snd (env i) then (Inl DbFailed, restore_coarse ?sealed st1)
       else (case flush_coarse env (i + 1) now ?st2 of
           (Inl e, st3) \<Rightarrow> (Inl e, st3) | (Inr n, st3) \<Rightarrow> (Inr (n + length ?sealed), st3)))"
    unfolding flush_coarse.simps[of env i now st] Let_def t fst_conv snd_conv ..
  consider "st' = st1" | "st' = restore_coarse shut st1" | "st' = restore_coarse ?sealed st1"
    | r3 where "shut \<noteq> []" "fst (env i)" "?sealed = []" "flush_coarse env (i + 1) now st1 = (r3, st')"
    | r3 where "shut \<noteq> []" "fst (env i)" "?sealed \<noteq> []" "snd (env i)" "flush_coarse env (i + 1) now ?st2 = (r3, st')"
    using "1.prems"(1) unfolding run by (auto split: if_splits prod.splits sum.splits)
  then show ?case
  proof cases
    case 4
    then have "keeps_free name st1 st'" using "1.IH"(1)[OF refl refl refl refl] t f(1) by auto
    then show ?thesis using k(1) keeps_trans by blast
  next
    case 5
    then have "keeps_free name ?st2 st'" using "1.IH"(2)[OF refl refl refl refl refl] t f(2) by auto
    then show ?thesis using k(1) st2 keeps_trans by blast
  qed (use k keeps_restore_coarse[OF k(2)] keeps_restore_coarse[OF sub] keeps_trans in blast)+
qed

lemma free_raw_parts:
  "free_raw name raw \<Longrightarrow> free_raw name (compress_store b raw)" "free_raw name raw \<Longrightarrow> free_raw name (prune_store b raw)"
  "free_raw name raw \<Longrightarrow> free_raw name (compact_store ks raw)" "free_raw name raw \<Longrightarrow> free_raw name (delete_raw_points m metric entity raw)"
  by (simp_all add: free_raw_def compress_store_def prune_store_def compact_store_def delete_raw_points_def)

lemma free_write_points:
  assumes "free_raw name (ws_raw ws)" "\<forall>k\<in>set (ws_rebuild ws). key_metric k \<noteq> name" "\<forall>p\<in>set ps. fst (pp_key p) \<noteq> name"
  shows "free_raw name (ws_raw (foldl (write_point l0 rc) ws ps)) \<and> (\<forall>k\<in>set (ws_rebuild (foldl (write_point l0 rc) ws ps)). key_metric k \<noteq> name)"
  using assms
proof (induction ps arbitrary: ws)
  case (Cons p ps)
  have "free_raw name (ws_raw (write_point l0 rc ws p)) \<and> (\<forall>k\<in>set (ws_rebuild (write_point l0 rc ws p)). key_metric k \<noteq> name)"
    using Cons.prems
    by (auto simp: write_point_def Let_def free_raw_def mark_rebuild_def key_metric_def split: prod.splits option.splits if_splits)
  then show ?case using Cons.IH[of "write_point l0 rc ws p"] Cons.prems(3) by simp
qed simp

lemma free_write_raw:
  assumes "write_raw_points_at ps now raw = (raw', rebuild)" "free_raw name raw" "\<forall>p\<in>set ps. fst (pp_key p) \<noteq> name"
  shows "free_raw name raw'" "\<forall>k\<in>set rebuild. key_metric k \<noteq> name"
proof -
  let ?ws = "\<lparr>ws_raw = prune_store (raw_cutoff now) (compress_store (now - direct_retention_ms) raw), ws_rebuild = [], ws_dirty = []\<rparr>"
  have "free_raw name (ws_raw ?ws)" using assms(2) by (simp add: free_raw_parts)
  note w = free_write_points[OF this _ assms(3)]
  show "free_raw name raw'" "\<forall>k\<in>set rebuild. key_metric k \<noteq> name"
    using assms(1) w by (auto simp: write_raw_points_at_def Let_def free_raw_parts)
qed

lemma keeps_hot_adds:
  assumes "\<forall>p\<in>set ps. fst (pp_key p) \<noteq> name"
  shows "keeps_free name st (st\<lparr>rl_hot := foldl (hot_add c) (rl_hot st) ps\<rparr>)"
proof -
  have "free_keys name hot \<Longrightarrow> free_keys name (foldl (hot_add c) hot ps)" for hot
    using assms
  proof (induction ps arbitrary: hot)
    case (Cons p ps)
    have "key_metric (hot_key_of p) \<noteq> name" using Cons.prems(2) by (simp add: hot_key_of_def key_metric_def)
    then have "free_keys name (hot_add c hot p)" using Cons.prems(1) by (simp add: hot_add_def Let_def free_keys_update)
    then show ?case using Cons.IH Cons.prems(2) by simp
  qed simp
  then show ?thesis by (simp add: keeps_free_def free_of_def)
qed

lemma keeps_rebuild: "key_metric k \<noteq> name \<Longrightarrow> keeps_free name st (rebuild_hot k st)"
  by (simp add: rebuild_hot_def keeps_free_def free_of_def free_keys_update)

lemma keeps_write:
  assumes "write_batch rd ok env now1 now2 ps st = (r, st')" "free_of name st" "\<not> defined_metric (rl_db st) name"
  shows "keeps_free name st st'"
proof -
  consider "st' = st"
    | qs raw rebuild where "admit_points ps (rl_db st) = Inr qs" "write_raw_points_at qs now1 (rl_raw st) = (raw, rebuild)"
        "write_prepared ok env now2 (remdups rebuild) qs (st\<lparr>rl_raw := raw\<rparr>) = (r, st')"
    using assms(1) by (cases "admit_points ps (rl_db st)") (auto simp: write_batch_def split: if_splits prod.splits)
  then show ?thesis
  proof cases
    case 2
    have qs: "\<forall>p\<in>set qs. fst (pp_key p) \<noteq> name" using admitted(3)[OF 2(1)] assms(3) by auto
    have raw: "free_raw name (rl_raw st)" using assms(2) by (simp add: free_of_def)
    note w = free_write_raw[OF 2(2) raw qs]
    let ?st0 = "st\<lparr>rl_raw := raw\<rparr>"
    let ?st1 = "?st0\<lparr>rl_hot := foldl (hot_add (policy_compression (rl_policy ?st0))) (rl_hot ?st0) qs\<rparr>"
    let ?st2 = "foldl (\<lambda>st k. rebuild_hot k st) ?st1 (remdups rebuild)"
    have k0: "keeps_free name st ?st0" using w(1) by (simp add: keeps_free_def free_of_def)
    have "keeps_free name ?st1 ?st2" using w(2) by (intro keeps_fold keeps_rebuild) auto
    then have k2: "keeps_free name st ?st2" using k0 keeps_hot_adds[OF qs, of ?st0] keeps_trans by blast
    obtain f st3 where f: "flush_closed_hot ok now2 ?st2 = (f, st3)" by fastforce
    have f2: "free_of name ?st2" using k2 assms(2) unfolding keeps_free_def by blast
    have "keeps_free name ?st2 st3" by (rule keeps_flush[OF f[unfolded flush_closed_hot_def] f2])
    then have k3: "keeps_free name st st3" using k2 keeps_trans by blast
    obtain g st4 where g: "flush_coarse env 0 now2 st3 = (g, st4)" by fastforce
    have f3: "free_of name st3" using k3 assms(2) unfolding keeps_free_def by blast
    have "keeps_free name st3 st4" by (rule keeps_seal[OF g f3])
    then have k4: "keeps_free name st st4" using k3 keeps_trans by blast
    have "st' = st3 \<or> st' = st4" using 2(3) f g by (auto simp: write_prepared_def Let_def split: sum.splits)
    then show ?thesis using k3 k4 by blast
  qed simp
qed

lemma free_delete_memory:
  "free_of name st \<Longrightarrow> free_of name (delete_memory metric entity st)"
  "name \<noteq> [] \<Longrightarrow> free_rows name (rl_db st) \<Longrightarrow> free_of name (delete_memory name [] st)"
  by (auto simp: free_of_def delete_memory_def delete_coarse_def delete_hot_def free_raw_parts free_keys_def free_coarse_def matches_def
      free_raw_def delete_raw_points_def split: option.splits)

lemma delete_memory_db [simp]: "rl_db (delete_memory metric entity st) = rl_db st"
  by (simp add: delete_memory_def delete_coarse_def delete_hot_def)

lemma free_delete_rows: "free_rows name db \<Longrightarrow> free_rows name (delete_rows metric entity db)" "name \<noteq> [] \<Longrightarrow> free_rows name (delete_rows name [] db)"
  "db_defs (delete_rows metric entity db) = db_defs db"
  by (auto simp: free_rows_def delete_rows_def matches_def)

section \<open>Disabled and emptied\<close>

definition off :: "go_string \<Rightarrow> rollup_store \<Rightarrow> bool" where
  "off name st \<longleftrightarrow> \<not> defined_metric (rl_db st) name \<and> free_of name st"

fun enables :: "go_string \<Rightarrow> admin_op \<Rightarrow> bool" where
  "enables name (Create rd ok d) \<longleftrightarrow> md_name d = name \<and> md_days d > 0"
| "enables name (Upsert ok del d) \<longleftrightarrow> md_name d = name \<and> md_days d > 0"
| "enables name (Update ok rd n days) \<longleftrightarrow> trim_space n = name \<and> days > 0"
| "enables name (Set ok rd n days) \<longleftrightarrow> trim_space n = name \<and> days > 0"
| "enables name _ \<longleftrightarrow> False"

lemma off_keeps: "keeps_free name st st' \<Longrightarrow> off name st \<Longrightarrow> off name st'"
  by (simp add: off_def keeps_free_def defined_metric_def)

lemma off_put: "off name st \<Longrightarrow> \<not> (n = name \<and> days > 0) \<Longrightarrow> off name (put_days n days st)"
  by (auto simp: off_def put_days_def defined_metric_def free_of_def free_rows_def update_conv')

lemma off_delete:
  "off name st \<Longrightarrow> off name (delete_memory metric entity (st\<lparr>rl_db := delete_rows m e (rl_db st)\<rparr>))"
  "off name st \<Longrightarrow> off name (st\<lparr>rl_db := (rl_db st)\<lparr>db_rows := filter P (db_rows (rl_db st))\<rparr>\<rparr>)"
  "off name st \<Longrightarrow> off name (delete_memory metric entity st)"
proof -
  have a: "off name st \<Longrightarrow> off name (delete_memory metric entity st)" for st
    using free_delete_memory(1) by (simp add: off_def)
  then show "off name st \<Longrightarrow> off name (delete_memory metric entity st)" .
  have b: "off name st \<Longrightarrow> off name (st\<lparr>rl_db := delete_rows m e (rl_db st)\<rparr>)"
    using free_delete_rows(1,3) by (auto simp: off_def defined_metric_def free_of_def)
  show "off name st \<Longrightarrow> off name (delete_memory metric entity (st\<lparr>rl_db := delete_rows m e (rl_db st)\<rparr>))" by (rule a[OF b])
  show "off name st \<Longrightarrow> off name (st\<lparr>rl_db := (rl_db st)\<lparr>db_rows := filter P (db_rows (rl_db st))\<rparr>\<rparr>)"
    by (auto simp: off_def defined_metric_def free_of_def free_rows_def)
qed

lemma off_store_step:
  assumes "off name st"
  shows "off name (store_step st e)"
proof (cases e)
  case (Write rd ok env now1 now2 ps)
  then show ?thesis using off_keeps[OF keeps_write assms] assms by (cases "write_batch rd ok env now1 now2 ps st") (auto simp: off_def)
next
  case (Flush ok now)
  have "off name (st\<lparr>rl_raw := trim_raw_window now (rl_raw st)\<rparr>)" (is "off name ?st")
    using assms by (simp add: off_def free_of_def trim_raw_window_def free_raw_parts)
  moreover from this have "off name st'" if "flush_closed_hot ok now ?st = (r, st')" for r st'
    using off_keeps[OF keeps_flush[OF that[unfolded flush_closed_hot_def]]] by (simp add: off_def)
  ultimately show ?thesis using Flush by (cases "flush_closed_hot ok now ?st") (simp add: flush_store_def)
next
  case (Seal env now)
  then show ?thesis using off_keeps[OF keeps_seal assms] assms by (cases "flush_coarse env 0 now st") (simp add: off_def)
next
  case (Drop_Metric ok n)
  let ?db = "delete_rows n [] (rl_db st)"
  have "off name (st\<lparr>rl_db := ?db\<lparr>db_defs := AList.delete n (db_defs ?db)\<rparr>\<rparr>)"
  proof -
    have "free_rows name (?db\<lparr>db_defs := x\<rparr>)" for x
      using free_delete_rows(1)[of name "rl_db st" n "[]"] assms unfolding free_rows_def off_def free_of_def by simp
    then show ?thesis using assms by (simp add: off_def free_of_def defined_metric_def delete_conv' free_delete_rows(3))
  qed
  then show ?thesis using Drop_Metric assms off_delete(3) by (simp add: delete_metric_def Let_def)
next
  case (Drop_Entity ok entity)
  then show ?thesis using assms off_delete(1) by (simp add: delete_entity_def)
qed

lemma with_defaults_same [simp]: "md_name (with_defaults d) = md_name d" "md_days (with_defaults d) = md_days d"
  by (simp_all add: with_defaults_def)

lemma off_delete_series: "off name st \<Longrightarrow> off name (snd (delete_series_rows ok metric entity st))"
  using off_delete(3)[OF off_delete(2)] by (auto simp: delete_series_rows_def Let_def)

lemma off_update: "off name st \<Longrightarrow> \<not> (trim_space n = name \<and> days > 0) \<Longrightarrow> off name (snd (update_metric_retention ok rd n days st))"
  by (auto simp: update_metric_retention_def Let_def off_put)

lemma off_disabled: "off name st \<Longrightarrow> off name (snd (delete_metric_data_if_disabled ok n st))"
  by (auto simp: delete_metric_data_if_disabled_def Let_def off_delete(1) split: option.split)

lemma off_admin_step:
  assumes "off name (as_store a)" "\<not> enables name e"
  shows "off name (as_store (admin_step a e))"
proof (cases e)
  case (Use e)
  then show ?thesis using assms off_store_step by simp
next
  case (Create rd ok d)
  then show ?thesis using assms by (auto simp: create_metric_def Let_def off_put split: option.split sum.split)
next
  case (Upsert ok del d)
  have "off name (put_days (md_name d) (md_days d) (as_store a))" using assms Upsert by (intro off_put) auto
  then show ?thesis using Upsert assms(1) off_delete_series
    by (auto simp: upsert_metric_def Let_def split: option.split)
next
  case (Update ok rd n days)
  have "off name (snd (update_metric_retention ok rd (trim_space n) days (as_store a)))"
    using assms Update by (intro off_update) auto
  then show ?thesis using Update assms(1)
    by (cases "update_metric_retention ok rd (trim_space n) days (as_store a)")
      (auto simp: admin_update_metric_definition_def Let_def split: sum.split)
next
  case (Set ok rd n days)
  have p: "off name (put_days (trim_space n) days (as_store a))" using assms Set by (intro off_put) auto
  then show ?thesis using Set assms(1) off_delete(1)[OF p]
    by (cases "days = 0") (simp_all add: set_metric_retention_def Let_def)
next
  case (Delete_Series ok metric entity)
  then show ?thesis using assms(1) off_delete_series by (simp add: delete_series_def)
next
  case (Run_Deletion ok i)
  then show ?thesis using assms(1) off_disabled by (simp add: run_deletion_def)
qed

lemma off_run: "off name (as_store a) \<Longrightarrow> list_all (\<lambda>e. \<not> enables name e) es \<Longrightarrow> off name (as_store (foldl admin_step a es))"
  by (induction es arbitrary: a) (simp_all add: off_admin_step)

lemma off_emptied:
  assumes "map_of (db_defs (rl_db st)) name = Some 0" "name \<noteq> []"
  shows "off name (delete_memory name [] (st\<lparr>rl_db := delete_rows name [] (rl_db st)\<rparr>))"
  using assms free_delete_memory(2)[OF assms(2)] free_delete_rows(2)[OF assms(2)] free_delete_rows(3)[of name "[]" "rl_db st"]
  by (simp add: off_def defined_metric_def)


text \<open>A run: samples, a flush, the metric is disabled, another batch arrives before the deletion runs.\<close>

definition disabled_run :: admin_store where
  "disabled_run = foldl admin_step \<lparr>as_store = fresh_store, as_pending = []\<rparr>
     [Use (Write True True (\<lambda>_. (True, True)) 3 3 [sample_point 1]), Use (Flush True 60000), Update True True ''cpu'' 0]"


text \<open>
  An entity of blanks is no entity for the rows and an entity for the memory: the rows of every entity are deleted, the
  minutes and samples of none.
\<close>

theorem blank_entity_splits:
  "let st = foldl store_step fresh_store [Write True True (\<lambda>_. (True, True)) 3 3 [sample_point 1],
         Write True True (\<lambda>_. (True, True)) 60001 60001 [sample_point 60001]];
       st' = snd (delete_series True ''cpu'' '' '' st)
   in counts st = [(0, 60000, 1)] \<and> counts st' = [] \<and> map (\<lambda>(k, b). key_bucket k) (rl_hot st') = [60000]"
  by code_simp

end
