(* ===== verification/Spec2Isabelle.thy ===== *)
theory Spec2Isabelle
  imports Prelude Rpc_Acl Rpc_Registry Scheduler Plugin_Manifest Js_Path_Win Upload_Store Upload_Sessions File_Download Metric_Raw Agent_Presence Report_Batcher
    Web_Routes Terminal Plugin_Lifecycle Metric_Rollup Metric_Policy
    Rollup_Writes Metric_Admin
begin

text \<open>
  A verification development for the hub of Komari, a server that agents on other machines report to and
  that browsers and programs query through JSON-RPC over HTTP and WebSocket.  The Go packages under
  \<^verbatim>\<open>src/\<close> are translated by hand, one theory for a package or a file, in the order of the calls.

  \<^bold>\<open>How the parts interact.\<close>  A request passes the middlewares of \<^verbatim>\<open>web/api\<close>, which find out who is calling, and
  reaches a route of \<^verbatim>\<open>web/router\<close>: a REST handler or a method of \<^verbatim>\<open>web/rpc/jsonrpc\<close>.  Methods are kept in the
  registry of \<^verbatim>\<open>pkg/rpc\<close>, which also holds the rules that say which role may call what.  Agents connect through
  \<^verbatim>\<open>web/api/client\<close>: their reports update the tables of \<^verbatim>\<open>web/agent\<close>, the presence and the notifications of
  \<^verbatim>\<open>utils/notifier\<close>, and the batches of \<^verbatim>\<open>internal/metricstore\<close>, which end in the metric store \<^verbatim>\<open>pkg/metric\<close>.  In the
  other direction the hub sends events to agents through their queues, relays terminals (\<^verbatim>\<open>web/api/terminal\<close>)
  and files (\<^verbatim>\<open>web/filemanager\<close>).  Periodic work runs in \<^verbatim>\<open>internal/scheduler\<close>; plugins run in
  \<^verbatim>\<open>internal/plugin\<close> on the JavaScript runtime \<^verbatim>\<open>pkg/jsruntime\<close>.

  \<^bold>\<open>The theories\<close> and the code they translate:
  \<^item> \<open>Prelude\<close>: Go strings (lists of bytes), trimming, splitting, decimal numbers, machine integers.
  \<^item> \<open>Interfaces\<close>: the contracts components share, as locales: \<open>keyed_store\<close> (a table addressed by keys),
    \<open>erasable_store\<close> (one with deletion), \<open>slot_pool\<close> (a limited number of slots and who holds them), \<open>token_ledger\<close>
    (a table of tokens that are issued and revoked).  \<open>Metric_Rollup\<close> has one of its own, \<open>mergeable\<close> (a summary that
    takes observations one by one or merged).  Each is interpreted where a component provides it.
  \<^item> \<open>Rpc_Acl\<close>: \<^verbatim>\<open>pkg/rpc/permission.go\<close>, \<^verbatim>\<open>principal.go\<close>: rules, wildcards, the role a method needs.
    \<open>Rpc_Registry\<close>: \<^verbatim>\<open>registry.go\<close>, \<^verbatim>\<open>meta.go\<close>, \<^verbatim>\<open>internal.go\<close>, \<^verbatim>\<open>invoke.go\<close>, \<^verbatim>\<open>parse.go\<close>, \<^verbatim>\<open>sensitive.go\<close>.
  \<^item> \<open>Accounts\<close>, \<open>Session_History\<close>: \<^verbatim>\<open>database/accounts\<close> with the login handlers, and all histories of them.
    \<open>Web_Auth\<close>: \<^verbatim>\<open>web/api/principal.go\<close>, \<^verbatim>\<open>Auth.go\<close>, \<^verbatim>\<open>AuthSensitive.go\<close>.  \<open>Rpc_Transport\<close>: \<^verbatim>\<open>transport.go\<close>,
    \<^verbatim>\<open>dispatch.go\<close>, \<^verbatim>\<open>bridge.go\<close> of \<^verbatim>\<open>web/rpc/jsonrpc\<close>.  \<open>Web_Routes\<close>: the table of \<^verbatim>\<open>web/router/router.go\<close> with the
    middlewares in front of every route; \<open>admit\<close> and \<open>serve\<close> compose all of them.
  \<^item> \<open>Scheduler\<close>: \<^verbatim>\<open>internal/scheduler/scheduler.go\<close>, cron expressions, the next run, jobs and their goroutines.
  \<^item> \<open>Plugin_Manifest\<close>: \<^verbatim>\<open>internal/plugin/version.go\<close>, \<^verbatim>\<open>manifest.go\<close>, with \<open>Go_Path\<close> for \<^verbatim>\<open>path.Clean\<close> and its kin.
    \<open>Plugin_Manager\<close>: \<^verbatim>\<open>internal/plugin/plugin.go\<close>, \<^verbatim>\<open>state.go\<close>, \<^verbatim>\<open>install.go\<close> and what scripts register;
    \<open>Plugin_Lifecycle\<close>: all interleavings of loading, approving, unloading and running plugins.
  \<^item> \<open>Js_Path_Posix\<close>, \<open>Js_Path_Win\<close>: \<^verbatim>\<open>pkg/jsruntime/path/path.go\<close>.
  \<^item> \<open>Upload_Store\<close>: \<^verbatim>\<open>web/upload\<close>.  \<open>File_Transfer\<close>, \<open>Upload_Sessions\<close>, \<open>File_Download\<close>, \<open>Stream_Relay\<close>:
    \<^verbatim>\<open>web/filemanager/transfer.go\<close>, \<^verbatim>\<open>client.go\<close>, \<^verbatim>\<open>stream_relay.go\<close>.
  \<^item> \<open>Terminal\<close>: \<^verbatim>\<open>web/api/terminal\<close>.
  \<^item> \<open>Metric_Raw\<close>: \<^verbatim>\<open>pkg/metric/raw_points.go\<close>, the recent samples and their encoding.  \<open>Tdigest\<close>: \<^verbatim>\<open>tdigest.go\<close>.
    \<open>Metric_Rollup\<close>: \<^verbatim>\<open>rollup.go\<close>, \<^verbatim>\<open>aggregate.go\<close>, buckets and what is read from them.  \<open>Metric_Policy\<close>: the tiers of a store, their
    retention and the tier that answers a query.  \<open>Rollup_Store\<close>: \<^verbatim>\<open>hot_rollup.go\<close>, \<^verbatim>\<open>coarse_rollup.go\<close>, \<^verbatim>\<open>rollup_store.go\<close>,
    minutes in memory, unsealed parents and the rows of the database; \<open>Rollup_History\<close> and \<open>Rollup_Writes\<close>: all histories of
    writes, flushes, seals and deletions, over the recent samples and the rows together.
    \<open>Metric_Admin\<close>: the definitions of metrics in \<^verbatim>\<open>store.go\<close>, the handler that disables one and the deletions it starts.
  \<^item> \<open>Agent_Reports\<close>, \<open>Agent_Events\<close>: \<^verbatim>\<open>web/agent/connections.go\<close>, \<^verbatim>\<open>v2_events.go\<close>.  \<open>Agent_Presence\<close>:
    \<^verbatim>\<open>utils/notifier/offline.go\<close> with \<^verbatim>\<open>web/api/client\<close>.  \<open>Report_Batcher\<close>: \<^verbatim>\<open>internal/metricstore/report_batcher.go\<close>.

  \<^bold>\<open>How the code is read.\<close>  A struct is a record and an enumeration a datatype; a map that is only looked up is an
  association list or a partial function; a pointer or a connection that is compared is a number.  Every
  \<^verbatim>\<open>return\<close> with an error is a branch with a value.  A region of code under one lock is one step; code between two
  regions is a task, and tasks, timers and requests interleave in any order: a theorem about a run holds for all lists of actions,
  and an action that is not enabled changes nothing.  What the environment decides (whether a query, a write or an
  upgrade succeeds, what a clock shows, which token is drawn) is an argument of the step, so a theorem holds for all
  outcomes.  Code under no directory of \<^verbatim>\<open>src/\<close> (the JSON decoder, the password digest, one-time codes, the
  WebSocket library, the database) is an argument of the definitions that use it.

  \<^bold>\<open>Bounds and fuel.\<close>  Sizes and times that can overflow are kept modulo \<open>2^64\<close> or checked; where a theorem needs that a
  clock or a size does not overflow, it says so.  Loops are recursions over lists or have a measure; the search for the
  next run of a job is bounded by the days it looks at, as in the code.  No definition of the model needs fuel that
  the code does not have.

  \<^bold>\<open>What the lemmas show.\<close>  Each theory proves an invariant of its state that every operation keeps, what each
  operation returns on every branch, and from these the properties numbered \<open>C1\<close> to \<open>C40\<close>.  A property with a hypothesis is
  followed by a witness: a concrete input, evaluated by the simplifier.  Where the code does something it does not mean to, a
  theorem without a number shows the run that does it.

  \<^bold>\<open>Not modelled.\<close>  The SQL of the stores (the rows of the metric store are modelled as what a statement does to
  them), the queries that join recent samples with rows, the rounding of floating point numbers, and the migrations of their schemas, code that only passes data between a
  library and the network (message senders, providers of external logins, geolocation, the JavaScript modules
  for network and processes), the frontend and its static files, log output, and the registration tables of methods that
  only copy rows into answers.  Go's memory model, panics of the runtime other than those the code provokes, and
  the loss of power are outside the model.
\<close>

end
